(* ===== verification/SFP_Prelude.thy ===== *)
theory SFP_Prelude
  imports Main "HOL-Library.Word" "HOL-Library.Sublist"
begin

text \<open>
  The prelude of the development. It fixes the machine types the Rust code uses, models the
  functions of the Rust standard library that the components call (string searching and
  trimming, decimal printing and parsing of \<open>u64\<close>, saturating arithmetic, in-place
  \<open>dedup\<close>) and proves the facts about them that the component theories share.

  Text is a \<^typ>\<open>string\<close>, the sequence of its bytes. \<open>trim\<close> and the case conversions act on
  the ASCII characters, which is all that the header values, paths, keys and file lines of
  the proxy contain; white space and letters beyond ASCII are outside the model.
\<close>

section \<open>Types and lemma collections\<close>

type_synonym u64 = "64 word"
type_synonym u32 = "32 word"

named_theorems text_simps \<open>equations of the text functions\<close>
named_theorems num_simps \<open>equations of the decimal and saturating functions\<close>

section \<open>Slices of text\<close>

definition starts_with :: "string \<Rightarrow> string \<Rightarrow> bool" where
  "starts_with s p \<longleftrightarrow> take (length p) s = p"

definition strip_prefix :: "string \<Rightarrow> string \<Rightarrow> string option" where
  "strip_prefix s p = (if starts_with s p then Some (drop (length p) s) else None)"

definition ends_with :: "string \<Rightarrow> string \<Rightarrow> bool" where
  "ends_with s p \<longleftrightarrow> starts_with (rev s) (rev p)"

definition strip_suffix :: "string \<Rightarrow> string \<Rightarrow> string option" where
  "strip_suffix s p =
     (if ends_with s p then Some (take (length s - length p) s) else None)"

fun split_on :: "char \<Rightarrow> string \<Rightarrow> string list" where
  "split_on c [] = [[]]"
| "split_on c (x # xs) =
     (if x = c then [] # split_on c xs
      else (case split_on c xs of [] \<Rightarrow> [[x]] | w # ws \<Rightarrow> (x # w) # ws))"

fun split_once :: "char \<Rightarrow> string \<Rightarrow> (string \<times> string) option" where
  "split_once c [] = None"
| "split_once c (x # xs) =
     (if x = c then Some ([], xs)
      else (case split_once c xs of None \<Rightarrow> None | Some (a, b) \<Rightarrow> Some (x # a, b)))"

definition rsplit_once :: "char \<Rightarrow> string \<Rightarrow> (string \<times> string) option" where
  "rsplit_once c s =
     (case split_once c (rev s) of None \<Rightarrow> None | Some (a, b) \<Rightarrow> Some (rev b, rev a))"

text \<open>\<open>str::split_once\<close> with the two-character delimiter \<open>dd\<close>.\<close>

fun split_once2 :: "char \<Rightarrow> string \<Rightarrow> (string \<times> string) option" where
  "split_once2 d (x # y # xs) =
     (if x = d \<and> y = d then Some ([], xs)
      else (case split_once2 d (y # xs) of None \<Rightarrow> None | Some (a, b) \<Rightarrow> Some (x # a, b)))"
| "split_once2 d _ = None"

fun join :: "string \<Rightarrow> string list \<Rightarrow> string" where
  "join sep [] = []"
| "join sep [w] = w"
| "join sep (w # v # ws) = w @ sep @ join sep (v # ws)"

definition is_ws :: "char \<Rightarrow> bool" where
  "is_ws c \<longleftrightarrow> c \<in> {CHR '' '', CHR 0x09, CHR 0x0A, CHR 0x0B, CHR 0x0C, CHR 0x0D}"

definition trim_start :: "string \<Rightarrow> string" where
  "trim_start s = dropWhile is_ws s"

definition trim :: "string \<Rightarrow> string" where
  "trim s = rev (dropWhile is_ws (rev (dropWhile is_ws s)))"

definition trim_end_matches :: "char \<Rightarrow> string \<Rightarrow> string" where
  "trim_end_matches c s = rev (dropWhile (\<lambda>x. x = c) (rev s))"

definition to_ascii_lower :: "char \<Rightarrow> char" where
  "to_ascii_lower c =
     (let n = of_char c :: nat in if 65 \<le> n \<and> n \<le> 90 then char_of (n + 32) else c)"

definition to_ascii_lowercase :: "string \<Rightarrow> string" where
  "to_ascii_lowercase s = map to_ascii_lower s"

definition eq_ignore_ascii_case :: "string \<Rightarrow> string \<Rightarrow> bool" where
  "eq_ignore_ascii_case a b \<longleftrightarrow> to_ascii_lowercase a = to_ascii_lowercase b"

section \<open>Decimal numbers\<close>

definition is_digit :: "char \<Rightarrow> bool" where
  "is_digit c \<longleftrightarrow> (let n = of_char c :: nat in 48 \<le> n \<and> n \<le> 57)"

definition digit_value :: "char \<Rightarrow> nat" where
  "digit_value c = of_char c - 48"

definition digit_char :: "nat \<Rightarrow> char" where
  "digit_char n = char_of (48 + n)"

fun show_nat :: "nat \<Rightarrow> string" where
  "show_nat n = (if n < 10 then [digit_char n] else show_nat (n div 10) @ [digit_char (n mod 10)])"

declare show_nat.simps [simp del]

definition digits_value :: "string \<Rightarrow> nat" where
  "digits_value s = foldl (\<lambda>acc c. 10 * acc + digit_value c) 0 s"

definition show_u64 :: "u64 \<Rightarrow> string" where
  "show_u64 w = show_nat (unat w)"

text \<open>
  \<open>str::parse::<uN>()\<close>: an optional plus sign, then at least one digit and nothing else,
  whose value is below \<open>2 ^ N\<close>.
\<close>

definition parse_uint :: "nat \<Rightarrow> string \<Rightarrow> nat option" where
  "parse_uint w s =
     (let ds = (case s of [] \<Rightarrow> [] | c # cs \<Rightarrow> if c = CHR ''+'' then cs else s)
      in if ds \<noteq> [] \<and> list_all is_digit ds \<and> digits_value ds < 2 ^ w
         then Some (digits_value ds) else None)"

definition parse_u64 :: "string \<Rightarrow> u64 option" where
  "parse_u64 s = map_option of_nat (parse_uint 64 s)"

definition parse_u32 :: "string \<Rightarrow> u32 option" where
  "parse_u32 s = map_option of_nat (parse_uint 32 s)"

section \<open>Saturating arithmetic\<close>

definition sat_sub :: "u64 \<Rightarrow> u64 \<Rightarrow> u64" where
  "sat_sub a b = (if a < b then 0 else a - b)"

definition sat_add :: "u64 \<Rightarrow> u64 \<Rightarrow> u64" where
  "sat_add a b = (if unat a + unat b < 2 ^ 64 then a + b else - 1)"

definition sat_mul :: "u64 \<Rightarrow> u64 \<Rightarrow> u64" where
  "sat_mul a b = (if unat a * unat b < 2 ^ 64 then a * b else - 1)"

section \<open>Shared facts\<close>

lemma starts_with_iff: "starts_with s p \<longleftrightarrow> (\<exists>t. s = p @ t)"
  unfolding starts_with_def by (metis append_eq_conv_conj append_take_drop_id)

lemma starts_with_append [simp]: "starts_with (p @ t) p"
  by (auto simp: starts_with_iff)

lemma strip_prefix_append [simp]: "strip_prefix (p @ t) p = Some t"
  by (simp add: strip_prefix_def starts_with_def)

lemma strip_prefix_Some: "strip_prefix s p = Some t \<longleftrightarrow> s = p @ t"
  by (auto simp: strip_prefix_def starts_with_iff)

lemma split_on_nonempty [simp]: "split_on c s \<noteq> []"
  by (induction s) (auto split: list.splits)

lemma split_on_no_sep: "w \<in> set (split_on c s) \<Longrightarrow> c \<notin> set w"
proof (induction s arbitrary: w)
  case Nil
  then show ?case by simp
next
  case (Cons x xs)
  then show ?case
    by (cases "split_on c xs") (auto split: if_splits)
qed

lemma hd_split_on: "hd (split_on c s) = takeWhile (\<lambda>x. x \<noteq> c) s"
proof (induction s)
  case Nil
  show ?case by simp
next
  case (Cons x xs)
  show ?case
  proof (cases "split_on c xs")
    case Nil
    then show ?thesis by simp
  next
    case (Cons w ws)
    with Cons.IH show ?thesis by simp
  qed
qed

lemma split_on_append_sep: "split_on c (a @ c # b) = split_on c a @ split_on c b"
proof (induction a)
  case (Cons x xs)
  then show ?case by (cases "split_on c xs") auto
qed simp

lemma split_on_join:
  "ws \<noteq> [] \<Longrightarrow> split_on c (join [c] ws) = concat (map (split_on c) ws)"
  by (induction "[c]" ws rule: join.induct) (auto simp: split_on_append_sep)

lemma split_on_fresh: "c \<notin> set s \<Longrightarrow> split_on c s = [s]"
  by (induction s) auto

lemma split_once_Some:
  "split_once c s = Some (a, b) \<longleftrightarrow> s = a @ c # b \<and> c \<notin> set a"
proof (induction s arbitrary: a b)
  case Nil
  show ?case by simp
next
  case (Cons x xs)
  show ?case
  proof (cases "x = c")
    case True
    then show ?thesis by (cases a) auto
  next
    case False
    then have "split_once c (x # xs) = Some (a, b)
        \<longleftrightarrow> (\<exists>a'. a = x # a' \<and> split_once c xs = Some (a', b))"
      by (auto split: option.splits)
    also have "\<dots> \<longleftrightarrow> (\<exists>a'. a = x # a' \<and> xs = a' @ c # b \<and> c \<notin> set a')"
      by (simp add: Cons.IH)
    finally show ?thesis using False by (cases a) auto
  qed
qed

lemma split_once_None: "split_once c s = None \<longleftrightarrow> c \<notin> set s"
  by (induction s) (auto split: option.splits)

lemma split_once2_append:
  "d \<notin> set a \<Longrightarrow> split_once2 d (a @ d # d # b) = Some (a, b)"
proof (induction a)
  case Nil
  show ?case by simp
next
  case (Cons x a)
  then have "x \<noteq> d" and IH: "split_once2 d (a @ d # d # b) = Some (a, b)" by auto
  then show ?case
    by (cases a) auto
qed

subsection \<open>Trimming\<close>

lemma dropWhile_idem_hd: "xs = [] \<or> \<not> P (hd xs) \<Longrightarrow> dropWhile P xs = xs"
  by (cases xs) auto

lemma trim_id:
  assumes "s = [] \<or> (\<not> is_ws (hd s) \<and> \<not> is_ws (last s))"
  shows "trim s = s"
proof -
  from assms have "dropWhile is_ws s = s" by (auto intro: dropWhile_idem_hd)
  moreover from assms have "dropWhile is_ws (rev s) = rev s"
    by (intro dropWhile_idem_hd) (auto simp: hd_rev)
  ultimately show ?thesis by (simp add: trim_def)
qed

lemma to_ascii_lower_idem [simp]: "to_ascii_lower (to_ascii_lower c) = to_ascii_lower c"
  by (simp add: to_ascii_lower_def Let_def)

lemma to_ascii_lowercase_idem [simp]:
  "to_ascii_lowercase (to_ascii_lowercase s) = to_ascii_lowercase s"
  by (simp add: to_ascii_lowercase_def)

subsection \<open>Digits\<close>

lemma digit_value_char: "n < 10 \<Longrightarrow> digit_value (digit_char n) = n"
  by (simp add: digit_value_def digit_char_def)

lemma is_digit_char: "n < 10 \<Longrightarrow> is_digit (digit_char n)"
  by (simp add: is_digit_def digit_char_def Let_def)

lemma show_nat_nonempty [simp]: "show_nat n \<noteq> []"
  by (subst show_nat.simps) simp

lemma show_nat_digits: "list_all is_digit (show_nat n)"
proof (induction n rule: show_nat.induct)
  case (1 n)
  then show ?case
    by (subst show_nat.simps) (auto simp: is_digit_char)
qed

lemma digits_value_snoc [simp]:
  "digits_value (s @ [c]) = 10 * digits_value s + digit_value c"
  by (simp add: digits_value_def)

lemma digits_value_show_nat [simp]: "digits_value (show_nat n) = n"
proof (induction n rule: show_nat.induct)
  case (1 n)
  show ?case
  proof (cases "n < 10")
    case True
    then show ?thesis
      by (subst show_nat.simps) (simp add: digits_value_def digit_value_char)
  next
    case False
    with 1 show ?thesis
      by (subst show_nat.simps) (simp add: digit_value_char)
  qed
qed

lemma digit_not_plus: "is_digit c \<Longrightarrow> c \<noteq> CHR ''+''"
  by (auto simp: is_digit_def)

lemma parse_uint_show_nat: "n < 2 ^ w \<Longrightarrow> parse_uint w (show_nat n) = Some n"
proof -
  assume n: "n < 2 ^ w"
  obtain c cs where s: "show_nat n = c # cs"
    by (cases "show_nat n") auto
  with show_nat_digits [of n] have "is_digit c" by simp
  then have "c \<noteq> CHR ''+''" by (rule digit_not_plus)
  with n s show ?thesis
    using show_nat_digits [of n] digits_value_show_nat [of n]
    by (simp add: parse_uint_def)
qed

lemma parse_u64_show_u64 [num_simps]: "parse_u64 (show_u64 w) = Some w"
proof -
  have "unat w < 2 ^ 64" using unsigned_less [of w] by simp
  then show ?thesis
    by (simp add: parse_u64_def show_u64_def parse_uint_show_nat)
qed

lemma show_nat_inject [simp]: "show_nat m = show_nat n \<longleftrightarrow> m = n"
  by (metis digits_value_show_nat)

lemma show_u64_inject [simp]: "show_u64 a = show_u64 b \<longleftrightarrow> a = b"
  by (simp add: show_u64_def word_unat_eq_iff)

lemma show_u64_nonempty [simp]: "show_u64 a \<noteq> []"
  by (simp add: show_u64_def)

lemma show_u64_digits: "c \<in> set (show_u64 a) \<Longrightarrow> is_digit c"
  using show_nat_digits [of "unat a"] by (auto simp: show_u64_def list_all_iff)

subsection \<open>Saturating arithmetic on values\<close>

lemma unat_sat_sub [num_simps]: "unat (sat_sub a b) = unat a - unat b"
  by (auto simp: sat_sub_def word_less_nat_alt unat_sub word_le_nat_alt)

lemma unat_sat_add [num_simps]: "unat (sat_add a b) = min (unat a + unat b) (2 ^ 64 - 1)"
  by (auto simp: sat_add_def unat_word_ariths unsigned_minus_1_eq_mask mask_eq_exp_minus_1)

lemma unat_sat_mul [num_simps]: "unat (sat_mul a b) = min (unat a * unat b) (2 ^ 64 - 1)"
  by (auto simp: sat_mul_def unat_word_ariths unsigned_minus_1_eq_mask mask_eq_exp_minus_1)

lemma parse_u64_of_nat: "n < 2 ^ 64 \<Longrightarrow> parse_u64 (show_nat n) = Some (of_nat n)"
  by (simp add: parse_u64_def parse_uint_show_nat)

lemma unat_max_u64: "unat (- 1 :: u64) = 2 ^ 64 - 1"
  by (simp add: unsigned_minus_1_eq_mask mask_eq_exp_minus_1)

lemma unat_u64_less: "unat w < 2 ^ 64" for w :: u64
  using unsigned_less [of w] by simp

lemma u64_below_max: "w < - 1 \<longleftrightarrow> unat w < 2 ^ 64 - 1" for w :: u64
  by (simp only: word_less_nat_alt unat_max_u64)

lemma unat_of_nat_below: "n < 2 ^ 64 \<Longrightarrow> unat (of_nat n :: u64) = n"
  by (simp add: unat_of_nat)

text \<open>The number of bytes of an inclusive range.\<close>

lemma unat_span:
  fixes start stop :: u64
  assumes "start \<le> stop" and "stop < - 1"
  shows "unat (stop - start + 1) = unat stop - unat start + 1"
proof -
  have "unat stop < 2 ^ 64 - 1" using assms(2) by (simp add: u64_below_max)
  then have "unat stop - unat start + 1 < 2 ^ 64" by simp
  then show ?thesis
    using assms(1) by (simp add: unat_word_ariths unat_sub)
qed

subsection \<open>Sorting and deduplication\<close>

text \<open>
  \<open>Vec::dedup\<close> drops consecutive repetitions (\<^const>\<open>remdups_adj\<close>); after a sort by an
  injective key it leaves every element once.
\<close>

lemma sorted_remdups_adj_distinct: "sorted xs \<Longrightarrow> distinct (remdups_adj xs)"
  by (induction xs rule: remdups_adj.induct) (auto simp: order_antisym)

lemma sort_dedup_distinct:
  assumes "inj f"
  shows "distinct (remdups_adj (sort_key f xs))"
proof -
  have "sorted (map f (sort_key f xs))" by simp
  moreover have "map f (remdups_adj (sort_key f xs)) = remdups_adj (map f (sort_key f xs))"
    using assms by (simp add: remdups_adj_map_injective)
  ultimately have "distinct (map f (remdups_adj (sort_key f xs)))"
    by (simp add: sorted_remdups_adj_distinct)
  then show ?thesis by (simp add: distinct_map)
qed

section \<open>Shared contracts\<close>

text \<open>
  A text codec: a printer with a parser that reads back every valid value. The encodings, the
  normalised paths, the escaped dictionary entries, the queue entries and the stored sync
  states are codecs of this kind.
\<close>

locale text_codec =
  fixes encode :: "'a \<Rightarrow> 'b"
    and decode :: "'b \<Rightarrow> 'a option"
    and valid :: "'a \<Rightarrow> bool"
  assumes decode_encode: "valid x \<Longrightarrow> decode (encode x) = Some x"
begin

lemma encode_eq_iff: "valid x \<Longrightarrow> valid y \<Longrightarrow> encode x = encode y \<longleftrightarrow> x = y"
  by (metis decode_encode option.inject)

lemma encode_inj_on: "inj_on encode {x. valid x}"
  by (auto simp: inj_on_def encode_eq_iff)

lemma map_encode_eq_iff:
  "list_all valid xs \<Longrightarrow> list_all valid ys \<Longrightarrow> map encode xs = map encode ys \<longleftrightarrow> xs = ys"
proof (induction xs arbitrary: ys)
  case (Cons x xs)
  then show ?case by (cases ys) (auto simp: encode_eq_iff)
qed auto

end

text \<open>
  A ranking: an injective key, so that sorting by it and dropping consecutive repetitions
  gives one canonical list for each set of elements.
\<close>

locale ranking =
  fixes rank :: "'a \<Rightarrow> 'k :: linorder"
  assumes rank_inject: "rank a = rank b \<Longrightarrow> a = b"
begin

lemma canonical_set: "set (remdups_adj (sort_key rank xs)) = set xs"
  by simp

lemma canonical_distinct: "distinct (remdups_adj (sort_key rank xs))"
  by (rule sort_dedup_distinct) (simp add: inj_on_def rank_inject)

lemma canonical_sorted: "sorted (map rank (remdups_adj (sort_key rank xs)))"
proof -
  have "inj rank" by (simp add: inj_on_def rank_inject)
  then have "map rank (remdups_adj (sort_key rank xs)) = remdups_adj (map rank (sort_key rank xs))"
    by (simp add: remdups_adj_map_injective)
  then show ?thesis by (simp add: sorted_remdups_adj)
qed

lemma canonical_cong:
  assumes "set xs = set ys"
  shows "remdups_adj (sort_key rank xs) = remdups_adj (sort_key rank ys)"
proof -
  let ?c = "\<lambda>zs. remdups_adj (sort_key rank zs)"
  have inj: "inj rank" by (simp add: inj_on_def rank_inject)
  have "map rank (?c xs) = map rank (?c ys)"
  proof (rule sorted_distinct_set_unique)
    show "sorted (map rank (?c xs))" "sorted (map rank (?c ys))" by (rule canonical_sorted)+
    show "distinct (map rank (?c xs))" "distinct (map rank (?c ys))"
      using canonical_distinct inj by (auto simp: distinct_map intro: inj_on_subset)
    show "set (map rank (?c xs)) = set (map rank (?c ys))" using assms by simp
  qed
  with inj show ?thesis by (simp add: inj_map_eq_map)
qed

lemma canonical_idem:
  "remdups_adj (sort_key rank (remdups_adj (sort_key rank xs))) = remdups_adj (sort_key rank xs)"
  by (rule canonical_cong) simp

end

end
