(* ===== verification/Encodings.thy ===== *)
theory Encodings
  imports SFP_Prelude
begin

text \<open>
  Content encodings: \<open>utils/compress_encoder.rs\<close>, \<open>utils/compress_encoder/parsed_accept_encoding.rs\<close>
  and \<open>utils/response_compression.rs\<close>. The enum of encodings with its text forms and its
  derived order, the parser of \<open>Accept-Encoding\<close> headers (with quality values, so the
  floating-point test \<open>q <= 0.0\<close> is modelled on the decimal text), the canonical list of
  acceptable encodings, and the choice of the encoding of a response. The gzip and brotli
  encoders are third-party code and are arguments of \<open>compress_response_payload\<close>.
\<close>

section \<open>The enum and its text forms\<close>

datatype CompressionEncoder =
    PlainText | Gzip | Brotli | StatsigBrotli | Deflate | Compress | Identity | Zstd

text \<open>\<open>derive(Ord)\<close> compares the constructors by the order of their declaration.\<close>

fun encoder_index :: "CompressionEncoder \<Rightarrow> nat" where
  "encoder_index PlainText = 0"
| "encoder_index Gzip = 1"
| "encoder_index Brotli = 2"
| "encoder_index StatsigBrotli = 3"
| "encoder_index Deflate = 4"
| "encoder_index Compress = 5"
| "encoder_index Identity = 6"
| "encoder_index Zstd = 7"

lemma encoder_index_inject [simp]: "encoder_index a = encoder_index b \<longleftrightarrow> a = b"
  by (cases a; cases b) simp_all

instantiation CompressionEncoder :: linorder
begin

definition less_eq_CompressionEncoder :: "CompressionEncoder \<Rightarrow> CompressionEncoder \<Rightarrow> bool" where
  "less_eq_CompressionEncoder a b \<longleftrightarrow> encoder_index a \<le> encoder_index b"

definition less_CompressionEncoder :: "CompressionEncoder \<Rightarrow> CompressionEncoder \<Rightarrow> bool" where
  "less_CompressionEncoder a b \<longleftrightarrow> encoder_index a < encoder_index b"

instance
  by standard (auto simp: less_eq_CompressionEncoder_def less_CompressionEncoder_def)

end

fun encoder_to_string :: "CompressionEncoder \<Rightarrow> string" where
  "encoder_to_string PlainText = ''plain_text''"
| "encoder_to_string Gzip = ''gzip''"
| "encoder_to_string Brotli = ''br''"
| "encoder_to_string StatsigBrotli = ''statsig-br''"
| "encoder_to_string Deflate = ''deflate''"
| "encoder_to_string Compress = ''compress''"
| "encoder_to_string Identity = ''identity''"
| "encoder_to_string Zstd = ''zstd''"

definition encoder_from_str :: "string \<Rightarrow> CompressionEncoder option" where
  "encoder_from_str s =
     (let t = to_ascii_lowercase s in
      if t = ''gzip'' \<or> t = ''x-gzip'' then Some Gzip
      else if t = ''br'' then Some Brotli
      else if t = ''statsig_br'' \<or> t = ''statsig-br'' then Some StatsigBrotli
      else if t = ''deflate'' then Some Deflate
      else if t = ''compress'' then Some Compress
      else if t = ''identity'' then Some Identity
      else if t = ''zstd'' then Some Zstd
      else if t = ''plain_text'' then Some PlainText
      else None)"

definition format_compression_encodings :: "CompressionEncoder list \<Rightarrow> string" where
  "format_compression_encodings es = join '','' (map encoder_to_string es)"

fun encoding_priority :: "CompressionEncoder \<Rightarrow> nat" where
  "encoding_priority StatsigBrotli = 0"
| "encoding_priority Gzip = 1"
| "encoding_priority Brotli = 2"
| "encoding_priority Zstd = 3"
| "encoding_priority Deflate = 4"
| "encoding_priority Compress = 5"
| "encoding_priority Identity = 6"
| "encoding_priority PlainText = 7"

section \<open>Quality values\<close>

text \<open>
  \<open>str::parse::<f32>\<close> followed by \<open>q <= 0.0\<close>. A number is an optional sign and then
  \<open>inf\<close>, \<open>infinity\<close> or \<open>nan\<close> in any case, or a decimal number with at least one digit, an
  optional point and an optional exponent. The parse rounds to the nearest \<open>f32\<close>, ties to
  even, so a value of at least zero becomes zero exactly when it is at most half of the
  least subnormal \<open>2^-149\<close>.
\<close>

datatype float_text =
    Decimal nat int   \<comment> \<open>the value \<open>m * 10^e\<close>\<close>
  | Infinite
  | Not_a_number

definition parse_exponent :: "string \<Rightarrow> int option" where
  "parse_exponent s =
     (let (neg, ds) = (case s of [] \<Rightarrow> (False, []) | c # cs \<Rightarrow>
            if c = CHR ''-'' then (True, cs) else if c = CHR ''+'' then (False, cs) else (False, s))
      in if ds = [] \<or> \<not> list_all is_digit ds then None
         else Some (if neg then - int (digits_value ds) else int (digits_value ds)))"

definition parse_unsigned_float :: "string \<Rightarrow> float_text option" where
  "parse_unsigned_float s =
     (let t = to_ascii_lowercase s in
      if t = ''inf'' \<or> t = ''infinity'' then Some Infinite
      else if t = ''nan'' then Some Not_a_number
      else
       (let ip = takeWhile is_digit t;
            r1 = dropWhile is_digit t;
            (fp, r2) = (case r1 of [] \<Rightarrow> ([], []) | c # cs \<Rightarrow>
               if c = CHR ''.'' then (takeWhile is_digit cs, dropWhile is_digit cs) else ([], r1))
        in if ip = [] \<and> fp = [] then None
           else (case r2 of
               [] \<Rightarrow> Some (Decimal (digits_value (ip @ fp)) (- int (length fp)))
             | c # cs \<Rightarrow>
                 if c = CHR ''e'' then
                   (case parse_exponent cs of
                      None \<Rightarrow> None
                    | Some e \<Rightarrow> Some (Decimal (digits_value (ip @ fp)) (e - int (length fp))))
                 else None)))"

fun rounds_to_zero :: "float_text \<Rightarrow> bool" where
  "rounds_to_zero (Decimal m e) \<longleftrightarrow>
     m = 0 \<or> (e < 0 \<and> m * 2 ^ 150 \<le> 10 ^ nat (- e))"
| "rounds_to_zero Infinite \<longleftrightarrow> False"
| "rounds_to_zero Not_a_number \<longleftrightarrow> False"

definition parse_f32_le_zero :: "string \<Rightarrow> bool option" where
  "parse_f32_le_zero s =
     (case s of
        [] \<Rightarrow> None
      | c # cs \<Rightarrow>
          if c = CHR ''-'' then
            map_option (\<lambda>v. v \<noteq> Not_a_number) (parse_unsigned_float cs)
          else map_option rounds_to_zero
                 (parse_unsigned_float (if c = CHR ''+'' then cs else s)))"

section \<open>The Accept-Encoding header\<close>

definition q_param_rejects :: "string \<Rightarrow> bool" where
  "q_param_rejects param =
     (let (k, v) = (case split_once CHR ''='' param of None \<Rightarrow> (param, []) | Some kv \<Rightarrow> kv)
      in eq_ignore_ascii_case (trim k) ''q'' \<and> parse_f32_le_zero (trim v) = Some True)"

definition parse_accept_encoding_token :: "string \<Rightarrow> (CompressionEncoder \<times> bool) option" where
  "parse_accept_encoding_token raw =
     (case split_on CHR '';'' raw of
        [] \<Rightarrow> None
      | t # params \<Rightarrow>
         (case encoder_from_str (to_ascii_lowercase (trim t)) of
            None \<Rightarrow> None
          | Some e \<Rightarrow> Some (e, \<not> list_ex q_param_rejects params)))"

record ParsedAcceptEncoding =
  acceptable_encodings :: "CompressionEncoder list"
  saw_non_empty_token :: bool
  saw_unrecognized_token :: bool

definition parse_token_step :: "ParsedAcceptEncoding \<Rightarrow> string \<Rightarrow> ParsedAcceptEncoding" where
  "parse_token_step p raw0 =
     (let raw = trim raw0 in
      if raw = [] then p
      else let p = p\<lparr>saw_non_empty_token := True\<rparr> in
        (case parse_accept_encoding_token raw of
           Some (e, acceptable) \<Rightarrow>
             if acceptable then p\<lparr>acceptable_encodings := acceptable_encodings p @ [e]\<rparr> else p
         | None \<Rightarrow> p\<lparr>saw_unrecognized_token := True\<rparr>))"

definition from_raw_value :: "string \<Rightarrow> ParsedAcceptEncoding" where
  "from_raw_value value =
     (let p = foldl parse_token_step
                \<lparr>acceptable_encodings = [], saw_non_empty_token = False, saw_unrecognized_token = False\<rparr>
                (split_on CHR '','' value)
      in p\<lparr>acceptable_encodings := remdups_adj (sort_key encoding_priority (acceptable_encodings p))\<rparr>)"

definition from_header_values :: "string list \<Rightarrow> ParsedAcceptEncoding" where
  "from_header_values hs = from_raw_value (join '','' hs)"

definition logger_tag :: "ParsedAcceptEncoding \<Rightarrow> string option" where
  "logger_tag p =
     (if \<not> saw_non_empty_token p then Some ''none''
      else if acceptable_encodings p = [] then Some ''unknown''
      else Some (join ''+'' (map encoder_to_string (acceptable_encodings p))
                 @ (if saw_unrecognized_token p then ''+unknown'' else [])))"

definition acceptable_list :: "ParsedAcceptEncoding \<Rightarrow> CompressionEncoder list" where
  "acceptable_list p = filter (\<lambda>e. e \<noteq> PlainText \<and> e \<noteq> Identity) (acceptable_encodings p)"

section \<open>Compressing a response\<close>

definition preferred_response_compression :: "CompressionEncoder list \<Rightarrow> CompressionEncoder" where
  "preferred_response_compression es =
     (if StatsigBrotli \<in> set es then StatsigBrotli
      else if Brotli \<in> set es then Brotli
      else if Gzip \<in> set es then Gzip
      else PlainText)"

definition compress_response_payload ::
  "(string \<Rightarrow> string option) \<Rightarrow> (string \<Rightarrow> string option) \<Rightarrow> string \<Rightarrow> CompressionEncoder
     \<Rightarrow> string option" where
  "compress_response_payload gzip brotli payload e =
     (case e of
        PlainText \<Rightarrow> Some payload
      | Gzip \<Rightarrow> gzip payload
      | Brotli \<Rightarrow> brotli payload
      | StatsigBrotli \<Rightarrow> brotli payload
      | _ \<Rightarrow> None)"

fun content_encoding_header_value :: "CompressionEncoder \<Rightarrow> string option" where
  "content_encoding_header_value StatsigBrotli = Some ''statsig-br''"
| "content_encoding_header_value Brotli = Some ''br''"
| "content_encoding_header_value Gzip = Some ''gzip''"
| "content_encoding_header_value Deflate = Some ''deflate''"
| "content_encoding_header_value Compress = Some ''compress''"
| "content_encoding_header_value Zstd = Some ''zstd''"
| "content_encoding_header_value PlainText = None"
| "content_encoding_header_value Identity = None"

section \<open>The codec and the ranking of the encodings\<close>

lemma encoder_from_str_lower: "encoder_from_str (to_ascii_lowercase s) = encoder_from_str s"
  by (simp add: encoder_from_str_def)

lemma encoder_from_str_to_string: "encoder_from_str (encoder_to_string e) = Some e"
  by (cases e; simp only:; code_simp)

interpretation enc: text_codec encoder_to_string encoder_from_str "\<lambda>_. True"
  by unfold_locales (rule encoder_from_str_to_string)

lemma encoding_priority_inject [simp]: "encoding_priority a = encoding_priority b \<longleftrightarrow> a = b"
  by (cases a; cases b) simp_all

interpretation prio: ranking encoding_priority
  by unfold_locales simp

interpretation derived_ord: ranking encoder_index
  by unfold_locales simp

text \<open>
  Printing an encoding and parsing the text back gives the encoding, in whatever ASCII
  case the header carries it, and two encodings never print alike.
\<close>

lemma encoder_roundtrip:
  "encoder_from_str s = Some e \<Longrightarrow> eq_ignore_ascii_case s t
     \<Longrightarrow> encoder_from_str t = Some e \<and> encoder_from_str (encoder_to_string e) = Some e
         \<and> (encoder_to_string d = encoder_to_string e \<longleftrightarrow> d = e)"
  using encoder_from_str_lower [of s] encoder_from_str_lower [of t]
  by (simp add: eq_ignore_ascii_case_def encoder_from_str_to_string enc.encode_eq_iff)

section \<open>What the header parser accepts\<close>

text \<open>
  The specification of the parser on the list of comma-separated tokens: the encodings some
  non-empty token names and does not reject by its quality.
\<close>

definition accepted_by :: "string list \<Rightarrow> CompressionEncoder \<Rightarrow> bool" where
  "accepted_by ts e \<longleftrightarrow>
     (\<exists>t \<in> set ts. trim t \<noteq> [] \<and> parse_accept_encoding_token (trim t) = Some (e, True))"

lemma parse_token_step_fold:
  "foldl parse_token_step p ts =
     \<lparr>acceptable_encodings = acceptable_encodings p @
        concat (map (\<lambda>t. case parse_accept_encoding_token (trim t) of
           Some (e, True) \<Rightarrow> if trim t = [] then [] else [e] | _ \<Rightarrow> []) ts),
      saw_non_empty_token = (saw_non_empty_token p \<or> (\<exists>t \<in> set ts. trim t \<noteq> [])),
      saw_unrecognized_token = (saw_unrecognized_token p \<or>
        (\<exists>t \<in> set ts. trim t \<noteq> [] \<and> parse_accept_encoding_token (trim t) = None)),
      \<dots> = ParsedAcceptEncoding.more p\<rparr>"
  by (induction ts arbitrary: p)
     (auto simp: parse_token_step_def Let_def split: option.splits prod.splits bool.splits)

lemma from_raw_value_eq:
  "from_raw_value v =
     (let ts = split_on CHR '','' v in
      \<lparr>acceptable_encodings = remdups_adj (sort_key encoding_priority
         (concat (map (\<lambda>t. case parse_accept_encoding_token (trim t) of
           Some (e, True) \<Rightarrow> if trim t = [] then [] else [e] | _ \<Rightarrow> []) ts))),
       saw_non_empty_token = (\<exists>t \<in> set ts. trim t \<noteq> []),
       saw_unrecognized_token =
         (\<exists>t \<in> set ts. trim t \<noteq> [] \<and> parse_accept_encoding_token (trim t) = None)\<rparr>)"
  by (simp add: from_raw_value_def parse_token_step_fold Let_def)

lemma set_accepted_tokens:
  "e \<in> set (concat (map (\<lambda>t. case parse_accept_encoding_token (trim t) of
      Some (e, True) \<Rightarrow> if trim t = [] then [] else [e] | _ \<Rightarrow> []) ts)) \<longleftrightarrow> accepted_by ts e"
  by (force simp: accepted_by_def split: option.splits bool.splits if_splits)

lemma in_from_raw_value:
  "e \<in> set (acceptable_encodings (from_raw_value v)) \<longleftrightarrow> accepted_by (split_on CHR '','' v) e"
  by (simp only: from_raw_value_eq Let_def ParsedAcceptEncoding.select_convs
        prio.canonical_set set_accepted_tokens)

lemma accepted_by_join:
  "accepted_by (split_on CHR '','' (join '','' hs)) e
     \<longleftrightarrow> accepted_by (concat (map (split_on CHR '','') hs)) e"
proof (cases "hs = []")
  case True
  then show ?thesis by (simp add: accepted_by_def trim_def)
next
  case False
  then show ?thesis by (simp add: split_on_join)
qed

text \<open>
  The encodings read from the \<open>Accept-Encoding\<close> headers are listed once each, in the order
  of the proxy's priority, and are exactly the encodings that some non-empty token of some
  header instance names without a quality of zero, except plain text and identity.
\<close>

theorem acceptable_list_exact:
  "sorted (map encoding_priority (acceptable_list (from_header_values hs)))
   \<and> distinct (acceptable_list (from_header_values hs))
   \<and> (e \<in> set (acceptable_list (from_header_values hs)) \<longleftrightarrow>
        e \<noteq> PlainText \<and> e \<noteq> Identity \<and> accepted_by (concat (map (split_on CHR '','') hs)) e)"
proof (intro conjI)
  let ?es = "acceptable_encodings (from_raw_value (join '','' hs))"
  have "sorted (map encoding_priority ?es)" "distinct ?es"
    unfolding from_raw_value_eq Let_def ParsedAcceptEncoding.select_convs
    by (rule prio.canonical_sorted, rule prio.canonical_distinct)
  then show "sorted (map encoding_priority (acceptable_list (from_header_values hs)))"
    and "distinct (acceptable_list (from_header_values hs))"
    by (simp_all add: acceptable_list_def from_header_values_def sorted_filter)
  show "e \<in> set (acceptable_list (from_header_values hs)) \<longleftrightarrow>
        e \<noteq> PlainText \<and> e \<noteq> Identity \<and> accepted_by (concat (map (split_on CHR '','') hs)) e"
    by (auto simp: acceptable_list_def from_header_values_def in_from_raw_value accepted_by_join)
qed

text \<open>
  What is parsed does not depend on how the tokens are ordered, repeated or spread over
  header values: two header values with the same set of tokens parse to the same record, so
  also to the same logger tag.
\<close>

theorem parse_order_independent:
  assumes "set (split_on CHR '','' v) = set (split_on CHR '','' w)"
  shows "from_raw_value v = from_raw_value w \<and> logger_tag (from_raw_value v) = logger_tag (from_raw_value w)"
proof -
  let ?f = "\<lambda>ts. concat (map (\<lambda>t. case parse_accept_encoding_token (trim t) of
           Some (e, True) \<Rightarrow> if trim t = [] then [] else [e] | _ \<Rightarrow> []) ts)"
  have "set (?f (split_on CHR '','' v)) = set (?f (split_on CHR '','' w))"
    unfolding set_concat set_map using assms by simp
  then have "remdups_adj (sort_key encoding_priority (?f (split_on CHR '','' v)))
           = remdups_adj (sort_key encoding_priority (?f (split_on CHR '','' w)))"
    by (rule prio.canonical_cong)
  then have "from_raw_value v = from_raw_value w"
    unfolding from_raw_value_eq Let_def assms by simp
  then show ?thesis by simp
qed

theorem parse_order_independent_witness:
  "set (split_on CHR '','' ''gzip,br'') = set (split_on CHR '','' ''br,gzip,br'')
   \<and> from_raw_value ''gzip,br'' = from_raw_value ''br,gzip,br''"
proof -
  have h: "set (split_on CHR '','' ''gzip,br'') = set (split_on CHR '','' ''br,gzip,br'')"
    by auto
  from parse_order_independent [OF h] h show ?thesis by blast
qed

section \<open>The encoding of a response\<close>

text \<open>What a client does with a body whose \<open>Content-Encoding\<close> header is \<open>h\<close>.\<close>

definition client_decode ::
  "(string \<Rightarrow> string option) \<Rightarrow> (string \<Rightarrow> string option) \<Rightarrow> string option \<Rightarrow> string \<Rightarrow> string option" where
  "client_decode gunzip unbrotli h body =
     (case h of
        None \<Rightarrow> Some body
      | Some n \<Rightarrow> (case encoder_from_str n of
            Some Gzip \<Rightarrow> gunzip body
          | Some Brotli \<Rightarrow> unbrotli body
          | Some StatsigBrotli \<Rightarrow> unbrotli body
          | _ \<Rightarrow> None))"

lemma content_encoding_header_value_Some:
  "content_encoding_header_value e =
     (if e = PlainText \<or> e = Identity then None else Some (encoder_to_string e))"
  by (cases e) simp_all

text \<open>
  The encoding chosen for a response is plain text or one that the client listed, its
  compression succeeds, and the client that decodes the body as the \<open>Content-Encoding\<close> header
  says gets the payload back, when the compressors never fail and invert.
\<close>

theorem response_compression_sound:
  assumes gzip: "\<forall>p. \<exists>c. gzip p = Some c \<and> gunzip c = Some p"
    and brotli: "\<forall>p. \<exists>c. brotli p = Some c \<and> unbrotli c = Some p"
  shows "(preferred_response_compression es = PlainText \<or> preferred_response_compression es \<in> set es)
    \<and> (\<exists>c. compress_response_payload gzip brotli p (preferred_response_compression es) = Some c
           \<and> client_decode gunzip unbrotli
                (content_encoding_header_value (preferred_response_compression es)) c = Some p)"
proof -
  have "e \<in> {PlainText, Gzip, Brotli, StatsigBrotli} \<Longrightarrow>
    \<exists>c. compress_response_payload gzip brotli p e = Some c
      \<and> client_decode gunzip unbrotli (content_encoding_header_value e) c = Some p" for e
    using gzip [rule_format, of p] brotli [rule_format, of p] encoder_from_str_to_string
    by (auto simp: compress_response_payload_def client_decode_def content_encoding_header_value_Some
        simp del: encoder_to_string.simps)
  moreover have "preferred_response_compression es \<in> {PlainText, Gzip, Brotli, StatsigBrotli}"
    by (auto simp: preferred_response_compression_def)
  ultimately show ?thesis by (auto simp: preferred_response_compression_def)
qed

theorem response_compression_sound_witness:
  "(\<forall>p. \<exists>c. (\<lambda>s. Some (CHR ''g'' # s)) p = Some c \<and> (\<lambda>s. Some (tl s)) c = Some (p :: string))
   \<and> preferred_response_compression [Gzip, Zstd] = Gzip
   \<and> (\<exists>c. compress_response_payload (\<lambda>s. Some (CHR ''g'' # s)) (\<lambda>s. Some (rev s)) ''{}''
            (preferred_response_compression [Gzip, Zstd]) = Some c)"
proof -
  have g: "\<forall>p. \<exists>c. (\<lambda>s. Some (CHR ''g'' # s)) p = Some c \<and> (\<lambda>s. Some (tl s)) c = Some (p :: string)"
    by simp
  have b: "\<forall>p. \<exists>c. (\<lambda>s. Some (rev s)) p = Some c \<and> (\<lambda>s. Some (rev s)) c = Some (p :: string)"
    by simp
  have "preferred_response_compression [Gzip, Zstd] = Gzip"
    by (simp add: preferred_response_compression_def)
  with g response_compression_sound [OF g b, of "[Gzip, Zstd]" "''{}''"] show ?thesis by blast
qed

end
