(* ===== verification/RequestContext.thy ===== *)
theory RequestContext
  imports Encodings
begin

text \<open>
  The identity of a request: \<open>servers/normalized_path.rs\<close>, \<open>utils/request_helper.rs\<close>,
  \<open>servers/sdk_key_normalizer.rs\<close> and \<open>servers/authorized_request_context.rs\<close>. The route
  classification, the request guards with every early return, the context with its
  equality and hash, the cache of contexts and the fairing that supplies the SDK key.

  The web framework is not part of the repository: a request is the record of what its
  accessors return (\<open>headers().get_one\<close>, \<open>headers().get\<close>, \<open>query_value::<bool>\<close> and the parts
  of the URI), and URL query decoding is the argument \<open>query_pairs\<close>.
\<close>

section \<open>Normalised paths\<close>

datatype NormalizedPath =
    V1DownloadConfigSpecs
  | V1GetIdLists
  | V1DownloadIdListFile
  | V1LogEvent
  | V1UserEnrichment
  | V2DownloadConfigSpecs
  | V2DownloadConfigSpecsDeltas
  | RawPath string

fun path_as_str :: "NormalizedPath \<Rightarrow> string" where
  "path_as_str V1DownloadConfigSpecs = ''/v1/download_config_specs/''"
| "path_as_str V1GetIdLists = ''/v1/get_id_lists/''"
| "path_as_str V1DownloadIdListFile = ''/v1/download_id_list_file/''"
| "path_as_str V1LogEvent = ''/v1/log_event/''"
| "path_as_str V1UserEnrichment = ''/v1/user_enrichment/''"
| "path_as_str V2DownloadConfigSpecs = ''/v2/download_config_specs/''"
| "path_as_str V2DownloadConfigSpecsDeltas = ''/v2/download_config_specs_deltas/''"
| "path_as_str (RawPath p) = p"

definition path_from :: "string \<Rightarrow> NormalizedPath" where
  "path_from v =
     (if starts_with v ''/v1/download_config_specs'' then V1DownloadConfigSpecs
      else if starts_with v ''/v1/get_id_lists'' then V1GetIdLists
      else if starts_with v ''/v1/download_id_list_file'' then V1DownloadIdListFile
      else if starts_with v ''/v1/log_event'' then V1LogEvent
      else if starts_with v ''/v1/user_enrichment'' then V1UserEnrichment
      else if starts_with v ''/v2/download_config_specs_deltas'' then V2DownloadConfigSpecsDeltas
      else if starts_with v ''/v2/download_config_specs'' then V2DownloadConfigSpecs
      else RawPath v)"

section \<open>Requests and outcomes\<close>

record HttpRequest =
  is_get :: bool
  uri_path :: string
  uri_query :: "string option"
  get_one :: "string \<Rightarrow> string option"
  get_all :: "string \<Rightarrow> string list"
  query_value_bool :: "string \<Rightarrow> bool option option"

datatype Status =
    Status_Ok | BadRequest | Status_Unauthorized | PayloadTooLarge | UnprocessableEntity
  | TooManyRequests | InternalServerError | ServiceUnavailable

datatype ('a, 'e) Outcome =
    Success 'a
  | Error Status 'e
  | Forward Status

definition normalized_path_guard :: "HttpRequest \<Rightarrow> (NormalizedPath, unit) Outcome" where
  "normalized_path_guard r = Success (path_from (uri_path r))"

definition does_request_supports_proto :: "HttpRequest \<Rightarrow> bool" where
  "does_request_supports_proto r =
     (case query_value_bool r ''supports_proto'' of
        Some (Some b) \<Rightarrow> b
      | _ \<Rightarrow> get_one r ''statsig-supports-proto'' = Some ''true'')"

definition query_param_is_true :: "string \<Rightarrow> string \<Rightarrow> bool" where
  "query_param_is_true query key =
     list_ex (\<lambda>pair. case split_once CHR ''='' pair of
         Some (k, v) \<Rightarrow> k = key \<and> (eq_ignore_ascii_case v ''true'' \<or> v = ''1'')
       | None \<Rightarrow> pair = key) (split_on CHR ''&'' query)"

definition does_request_accept_deltas :: "HttpRequest \<Rightarrow> bool" where
  "does_request_accept_deltas r =
     (case uri_query r of None \<Rightarrow> False | Some q \<Rightarrow> query_param_is_true q ''accept_deltas'')"

section \<open>Finding the SDK key\<close>

type_synonym query_decoder = "string \<Rightarrow> (string \<times> string) list option"

definition extract_download_id_list_file_sdk_key :: "query_decoder \<Rightarrow> string \<Rightarrow> string option" where
  "extract_download_id_list_file_sdk_key query_pairs query =
     (case query_pairs query of
        None \<Rightarrow> None
      | Some ps \<Rightarrow> map_option snd (find (\<lambda>(k, v). k = ''k'') ps))"

definition sdk_key_prefix :: "string \<Rightarrow> string" where
  "sdk_key_prefix k = (if length k \<le> 20 then k else take 20 k @ ''***'')"

definition sdk_key_of_path :: "string \<Rightarrow> string" where
  "sdk_key_of_path p =
     (let stem = (case strip_suffix p ''.json'' of
                    Some s \<Rightarrow> s
                  | None \<Rightarrow> (case strip_suffix p ''.js'' of Some s \<Rightarrow> s | None \<Rightarrow> p))
      in case rsplit_once CHR ''/'' stem of None \<Rightarrow> p | Some (_, key) \<Rightarrow> key)"

type_synonym sdk_key_cache = "string \<Rightarrow> string option"

text \<open>
  The fairing returns the value it adds as \<open>statsig-api-key\<close> header, if any, and the cache.
  The cache is read under a read lock and written under a write lock taken later:
  \<open>others\<close> is what other requests did to it in between.
\<close>

definition sdk_key_normalization ::
  "query_decoder \<Rightarrow> (sdk_key_cache \<Rightarrow> sdk_key_cache) \<Rightarrow> HttpRequest \<Rightarrow> sdk_key_cache
     \<Rightarrow> string option \<times> sdk_key_cache" where
  "sdk_key_normalization query_pairs others r cache =
     (if get_one r ''statsig-api-key'' \<noteq> None then (None, cache)
      else if \<not> is_get r then (None, cache)
      else let p = uri_path r in
        if path_from p = V1DownloadIdListFile then
          (Option.bind (uri_query r) (extract_download_id_list_file_sdk_key query_pairs), cache)
        else (case cache p of
            Some k \<Rightarrow> (Some k, cache)
          | None \<Rightarrow>
              let new_key = sdk_key_of_path p
              in (Some new_key, (others cache)(p \<mapsto> new_key))))"

section \<open>The request context\<close>

record AuthorizedRequestContext =
  rc_sdk_key :: string
  rc_path :: NormalizedPath
  rc_use_lcut :: bool
  rc_supports_proto :: bool
  rc_accept_deltas :: bool
  rc_encodings :: "CompressionEncoder list"
  rc_raw_path :: "string option"
  rc_raw_query :: "string option"
  rc_file_id :: "string option"
  rc_range_start :: "u64 option"
  rc_id_list_size :: "u64 option"

definition canonicalize_encodings :: "CompressionEncoder list \<Rightarrow> CompressionEncoder list" where
  "canonicalize_encodings es =
     (let kept = filter (\<lambda>e. e = StatsigBrotli \<or> e = Gzip)
                   (remdups_adj (sort_key encoding_priority es))
      in if kept = [] then [PlainText] else kept)"

definition rc_new :: "string \<Rightarrow> NormalizedPath \<Rightarrow> CompressionEncoder list \<Rightarrow> AuthorizedRequestContext" where
  "rc_new key p es =
     \<lparr>rc_sdk_key = key, rc_path = p,
      rc_use_lcut = (p = V1DownloadConfigSpecs \<or> p = V2DownloadConfigSpecs
                     \<or> p = V2DownloadConfigSpecsDeltas),
      rc_supports_proto = False, rc_accept_deltas = False,
      rc_encodings = canonicalize_encodings es,
      rc_raw_path = None, rc_raw_query = None, rc_file_id = None,
      rc_range_start = None, rc_id_list_size = None\<rparr>"

definition with_request_capabilities ::
  "bool \<Rightarrow> bool \<Rightarrow> AuthorizedRequestContext \<Rightarrow> AuthorizedRequestContext" where
  "with_request_capabilities proto deltas rc =
     rc\<lparr>rc_supports_proto := proto, rc_accept_deltas := deltas\<rparr>"

definition with_raw_request ::
  "string option \<Rightarrow> string option \<Rightarrow> AuthorizedRequestContext \<Rightarrow> AuthorizedRequestContext" where
  "with_raw_request p q rc = rc\<lparr>rc_raw_path := p, rc_raw_query := q\<rparr>"

definition with_id_list_request ::
  "string option \<Rightarrow> u64 option \<Rightarrow> u64 option \<Rightarrow> AuthorizedRequestContext \<Rightarrow> AuthorizedRequestContext" where
  "with_id_list_request fid start sz rc =
     rc\<lparr>rc_file_id := fid, rc_range_start := start, rc_id_list_size := sz\<rparr>"

definition rc_eq :: "AuthorizedRequestContext \<Rightarrow> AuthorizedRequestContext \<Rightarrow> bool" where
  "rc_eq a b \<longleftrightarrow>
     rc_sdk_key a = rc_sdk_key b \<and> rc_path a = rc_path b \<and> rc_encodings a = rc_encodings b
     \<and> rc_supports_proto a = rc_supports_proto b \<and> rc_accept_deltas a = rc_accept_deltas b
     \<and> rc_file_id a = rc_file_id b \<and> rc_id_list_size a = rc_id_list_size b"

text \<open>The values fed to the hasher, in order; an encoding hashes as its text.\<close>

definition rc_hash_input ::
  "AuthorizedRequestContext \<Rightarrow>
     string \<times> NormalizedPath \<times> string list \<times> bool \<times> bool \<times> string option \<times> u64 option" where
  "rc_hash_input rc =
     (rc_sdk_key rc, rc_path rc, map encoder_to_string (rc_encodings rc), rc_supports_proto rc,
      rc_accept_deltas rc, rc_file_id rc, rc_id_list_size rc)"

text \<open>
  A hash map keyed by contexts finds an entry by \<^const>\<open>rc_eq\<close>. The maps of the later
  theories are keyed by the tuple of the compared fields.
\<close>

type_synonym rc_key =
  "string \<times> NormalizedPath \<times> CompressionEncoder list \<times> bool \<times> bool \<times> string option \<times> u64 option"

definition rc_id :: "AuthorizedRequestContext \<Rightarrow> rc_key" where
  "rc_id rc =
     (rc_sdk_key rc, rc_path rc, rc_encodings rc, rc_supports_proto rc, rc_accept_deltas rc,
      rc_file_id rc, rc_id_list_size rc)"

fun encoder_debug :: "CompressionEncoder \<Rightarrow> string" where
  "encoder_debug PlainText = ''PlainText''"
| "encoder_debug Gzip = ''Gzip''"
| "encoder_debug Brotli = ''Brotli''"
| "encoder_debug StatsigBrotli = ''StatsigBrotli''"
| "encoder_debug Deflate = ''Deflate''"
| "encoder_debug Compress = ''Compress''"
| "encoder_debug Identity = ''Identity''"
| "encoder_debug Zstd = ''Zstd''"

definition show_bool :: "bool \<Rightarrow> string" where
  "show_bool b = (if b then ''true'' else ''false'')"

definition rc_display :: "AuthorizedRequestContext \<Rightarrow> string" where
  "rc_display rc =
     join ''|'' [rc_sdk_key rc, path_as_str (rc_path rc),
       ''['' @ join '', '' (map encoder_debug (rc_encodings rc)) @ '']'',
       show_bool (rc_supports_proto rc), show_bool (rc_accept_deltas rc)]"

section \<open>The cache of contexts\<close>

type_synonym context_cache_key =
  "string \<times> NormalizedPath \<times> CompressionEncoder list \<times> bool \<times> bool \<times> string option"

type_synonym context_cache = "context_cache_key \<Rightarrow> AuthorizedRequestContext option"

text \<open>
  \<open>get_or_insert\<close> looks the key up under the read lock and takes the write lock only when it
  is absent; \<open>others\<close> is what other requests did between the two.
\<close>

definition get_or_insert ::
  "(context_cache \<Rightarrow> context_cache) \<Rightarrow> string \<Rightarrow> NormalizedPath \<Rightarrow> CompressionEncoder list \<Rightarrow> bool
     \<Rightarrow> bool \<Rightarrow> string option \<Rightarrow> context_cache \<Rightarrow> AuthorizedRequestContext \<times> context_cache" where
  "get_or_insert others key p es0 proto deltas fid cache =
     (let es = canonicalize_encodings es0;
          k = (key, p, es, proto, deltas, fid)
      in case cache k of
           Some rc \<Rightarrow> (rc, cache)
         | None \<Rightarrow>
             let cache' = others cache in
             (case cache' k of
                Some rc \<Rightarrow> (rc, cache')
              | None \<Rightarrow>
                  let rc = with_id_list_request fid None None
                             (with_request_capabilities proto deltas (rc_new key p es))
                  in (rc, cache'(k \<mapsto> rc))))"

section \<open>The guards\<close>

datatype DownloadIdListFileRequestError =
    MissingSdkKey | ConflictingSdkKey | MissingFileId | InvalidRange | InvalidIdListFileSize

fun error_body :: "DownloadIdListFileRequestError \<Rightarrow> string" where
  "error_body MissingSdkKey = ''Missing statsig-api-key''"
| "error_body ConflictingSdkKey = ''Signed query sdk key does not match statsig-api-key header''"
| "error_body MissingFileId = ''Missing id list file id''"
| "error_body InvalidRange = ''Range must be absent or formatted as bytes=<start>-''"
| "error_body InvalidIdListFileSize = ''statsig-id-list-file-size must be a valid unsigned integer''"

definition parse_id_list_file_id :: "string \<Rightarrow> string option" where
  "parse_id_list_file_id p =
     (case strip_prefix p ''/v1/download_id_list_file/'' of
        None \<Rightarrow> None
      | Some rest \<Rightarrow> let s = hd (split_on CHR ''/'' rest) in if s = [] then None else Some s)"

definition parse_required_id_list_file_id ::
  "string \<Rightarrow> DownloadIdListFileRequestError + string" where
  "parse_required_id_list_file_id p =
     (case parse_id_list_file_id p of None \<Rightarrow> Inl MissingFileId | Some s \<Rightarrow> Inr s)"

definition parse_strict_id_list_file_size ::
  "HttpRequest \<Rightarrow> DownloadIdListFileRequestError + u64 option" where
  "parse_strict_id_list_file_size r =
     (case get_one r ''statsig-id-list-file-size'' of
        None \<Rightarrow> Inr None
      | Some v \<Rightarrow> (case parse_u64 (trim v) of
            None \<Rightarrow> Inl InvalidIdListFileSize
          | Some n \<Rightarrow> Inr (Some n)))"

definition parse_strict_id_list_file_range_start ::
  "HttpRequest \<Rightarrow> DownloadIdListFileRequestError + u64 option" where
  "parse_strict_id_list_file_range_start r =
     (case get_one r ''Range'' of
        None \<Rightarrow> Inr None
      | Some v \<Rightarrow> (case strip_prefix (trim v) ''bytes='' of
            None \<Rightarrow> Inl InvalidRange
          | Some rng \<Rightarrow>
              if rng = [] \<or> CHR '','' \<in> set rng then Inl InvalidRange
              else (case split_once CHR ''-'' rng of
                  None \<Rightarrow> Inl InvalidRange
                | Some (start, stop) \<Rightarrow>
                    if start = [] \<or> stop \<noteq> [] then Inl InvalidRange
                    else (case parse_u64 start of
                        None \<Rightarrow> Inl InvalidRange
                      | Some n \<Rightarrow> Inr (Some n)))))"

datatype DownloadIdListFileRequestGuard =
    Authorized AuthorizedRequestContext
  | Invalid DownloadIdListFileRequestError

text \<open>The SDK key of a download: the header, the signed query, or both when they agree.\<close>

definition download_sdk_key ::
  "string option \<Rightarrow> string option \<Rightarrow> DownloadIdListFileRequestError + string" where
  "download_sdk_key hdr signed_key =
     (case (hdr, signed_key) of
        (Some h, Some s) \<Rightarrow> if h \<noteq> s then Inl ConflictingSdkKey else Inr s
      | (Some h, None) \<Rightarrow> Inr h
      | (None, Some s) \<Rightarrow> Inr s
      | (None, None) \<Rightarrow> Inl MissingSdkKey)"

definition download_id_list_file_guard ::
  "query_decoder \<Rightarrow> HttpRequest
     \<Rightarrow> (DownloadIdListFileRequestGuard, DownloadIdListFileRequestError) Outcome" where
  "download_id_list_file_guard query_pairs r =
     (let np = path_from (uri_path r) in
      if np \<noteq> V1DownloadIdListFile then Error InternalServerError MissingFileId
      else
        (case download_sdk_key (get_one r ''statsig-api-key'')
                (Option.bind (uri_query r) (extract_download_id_list_file_sdk_key query_pairs)) of
           Inl e \<Rightarrow> Success (Invalid e)
         | Inr key \<Rightarrow>
        (case parse_required_id_list_file_id (uri_path r) of
           Inl e \<Rightarrow> Success (Invalid e)
         | Inr fid \<Rightarrow>
        (case parse_strict_id_list_file_range_start r of
           Inl e \<Rightarrow> Success (Invalid e)
         | Inr start \<Rightarrow>
        (case parse_strict_id_list_file_size r of
           Inl e \<Rightarrow> Success (Invalid e)
         | Inr sz \<Rightarrow>
            Success (Authorized
              (with_id_list_request (Some fid) start sz
                (with_raw_request (Some (uri_path r)) (uri_query r)
                  (with_request_capabilities (does_request_supports_proto r)
                     (does_request_accept_deltas r)
                    (rc_new key np
                      (acceptable_list (from_header_values (get_all r ''Accept-Encoding'')))))))))))))"

definition authorized_request_context_guard ::
  "(context_cache \<Rightarrow> context_cache) \<Rightarrow> HttpRequest \<Rightarrow> context_cache
     \<Rightarrow> (AuthorizedRequestContext, unit) Outcome \<times> context_cache" where
  "authorized_request_context_guard others r cache =
     (case normalized_path_guard r of
        Error st _ \<Rightarrow> (Error st (), cache)
      | Forward st \<Rightarrow> (Forward st, cache)
      | Success np \<Rightarrow>
          let fid = (if np = V1DownloadIdListFile then parse_id_list_file_id (uri_path r) else None);
              es = acceptable_list (from_header_values (get_all r ''Accept-Encoding''));
              proto = does_request_supports_proto r;
              deltas = does_request_accept_deltas r \<or> np = V2DownloadConfigSpecsDeltas
          in (case get_one r ''statsig-api-key'' of
                Some key \<Rightarrow>
                  let (rc, cache') = get_or_insert others key np es proto deltas fid cache
                  in (Success rc, cache')
              | None \<Rightarrow> (Error BadRequest (), cache)))"

section \<open>Routes\<close>

lemma starts_with_Cons: "starts_with (x # s) (y # p) \<longleftrightarrow> x = y \<and> starts_with s p"
  by (auto simp: starts_with_def)

lemma starts_with_Nil [simp]: "starts_with s []"
  by (simp add: starts_with_def)

lemma starts_with_Nil_Cons [simp]: "\<not> starts_with [] (y # p)"
  by (simp add: starts_with_def)

lemmas route_simps = path_from_def starts_with_Cons

lemma path_from_prefix:
  "(\<forall>q. p \<noteq> RawPath q) \<Longrightarrow> path_from (path_as_str p @ rest) = p"
  by (cases p) (simp_all add: route_simps)

lemma path_from_str_fixed: "path_from (path_as_str (path_from v)) = path_from v"
proof (cases "\<forall>q. path_from v \<noteq> RawPath q")
  case True
  then show ?thesis using path_from_prefix [of "path_from v" "[]"] by simp
next
  case False
  then obtain q where q: "path_from v = RawPath q" by blast
  then have "q = v" by (simp add: path_from_def split: if_splits)
  with q show ?thesis by simp
qed

interpretation np: text_codec path_as_str "\<lambda>s. Some (path_from s)"
  "\<lambda>p. case p of RawPath q \<Rightarrow> path_from q = RawPath q | _ \<Rightarrow> True"
proof unfold_locales
  fix p :: NormalizedPath
  assume "case p of RawPath q \<Rightarrow> path_from q = RawPath q | _ \<Rightarrow> True"
  then show "Some (path_from (path_as_str p)) = Some p"
    using path_from_prefix [of p "[]"] by (cases p) simp_all
qed

text \<open>
  Every route is recognised from its own prefix whatever follows it (the SDK key, a file
  id), the delta route is never taken for the plain \<open>v2\<close> route, and normalising is stable:
  the text of a normalised path normalises to the same path.
\<close>

theorem path_routes:
  assumes "\<forall>q. p \<noteq> RawPath q"
  shows "path_from (path_as_str p @ rest) = p
    \<and> path_from (path_as_str (path_from v)) = path_from v"
  using assms by (simp add: path_from_prefix path_from_str_fixed)

theorem path_routes_witness:
  "path_from ''/v2/download_config_specs_deltas/secret-1.json'' = V2DownloadConfigSpecsDeltas"
  using path_routes [of V2DownloadConfigSpecsDeltas "''secret-1.json''"] by simp

section \<open>Encodings of a context\<close>

text \<open>The two encodings that the proxy stores, in priority order, or plain text.\<close>

definition stored_encodings :: "CompressionEncoder set \<Rightarrow> CompressionEncoder list" where
  "stored_encodings S =
     (if StatsigBrotli \<in> S then if Gzip \<in> S then [StatsigBrotli, Gzip] else [StatsigBrotli]
      else if Gzip \<in> S then [Gzip] else [PlainText])"

lemma distinct_sorted_two:
  assumes "distinct xs" "sorted (map encoding_priority xs)" "set xs \<subseteq> {StatsigBrotli, Gzip}"
  shows "xs = (if StatsigBrotli \<in> set xs then [StatsigBrotli] else [])
            @ (if Gzip \<in> set xs then [Gzip] else [])"
proof -
  let ?ys = "(if StatsigBrotli \<in> set xs then [StatsigBrotli] else [])
            @ (if Gzip \<in> set xs then [Gzip] else [])"
  have set_eq: "set xs = set ?ys" using assms(3) by auto
  have inj: "inj encoding_priority" by (simp add: inj_on_def)
  have "map encoding_priority xs = map encoding_priority ?ys"
  proof (rule sorted_distinct_set_unique)
    show "set (map encoding_priority xs) = set (map encoding_priority ?ys)"
      unfolding set_map by (rule arg_cong [OF set_eq])
  qed (use assms inj in \<open>auto simp: distinct_map intro: inj_on_subset\<close>)
  then show ?thesis by (simp only: inj_map_eq_map [OF inj])
qed

lemma canonicalize_encodings_eq:
  "canonicalize_encodings es = stored_encodings (set es)"
proof -
  let ?f = "\<lambda>e. e = StatsigBrotli \<or> e = Gzip"
  let ?xs = "filter ?f (remdups_adj (sort_key encoding_priority es))"
  have "?xs = (if StatsigBrotli \<in> set ?xs then [StatsigBrotli] else [])
            @ (if Gzip \<in> set ?xs then [Gzip] else [])"
    by (rule distinct_sorted_two)
       (auto simp: prio.canonical_distinct prio.canonical_sorted sorted_filter)
  then have "?xs = (if StatsigBrotli \<in> set es then [StatsigBrotli] else [])
            @ (if Gzip \<in> set es then [Gzip] else [])"
    by simp
  then show ?thesis by (simp add: canonicalize_encodings_def stored_encodings_def Let_def)
qed

text \<open>
  The encodings of a context depend only on whether the client accepts the proxy's brotli
  and gzip: one of four lists, whatever else was accepted and in whatever order, and
  canonicalising again changes nothing.
\<close>

theorem canonicalize_encodings_four:
  "canonicalize_encodings es = stored_encodings (set es)
   \<and> canonicalize_encodings (canonicalize_encodings es) = canonicalize_encodings es"
  by (simp add: canonicalize_encodings_eq) (simp add: stored_encodings_def)

section \<open>Identity\<close>

text \<open>
  Equal contexts feed equal values to the hasher and conversely, so that hash maps keyed by
  contexts are consistent; the identity is the tuple \<^const>\<open>rc_id\<close>, which the signed path and
  query and the requested range do not enter and the file size does.
\<close>

theorem rc_eq_hash:
  "(rc_eq a b \<longleftrightarrow> rc_hash_input a = rc_hash_input b)
   \<and> (rc_eq a b \<longleftrightarrow> rc_id a = rc_id b)
   \<and> rc_eq a (a\<lparr>rc_raw_path := p, rc_raw_query := q, rc_range_start := n\<rparr>)
   \<and> (rc_eq a (a\<lparr>rc_id_list_size := m\<rparr>) \<longleftrightarrow> m = rc_id_list_size a)"
  by (auto simp: rc_eq_def rc_hash_input_def rc_id_def
      dest: enc.map_encode_eq_iff [THEN iffD1, rotated 2, simplified list_all_iff])

section \<open>Coherence of the context cache\<close>

fun context_of_key :: "context_cache_key \<Rightarrow> AuthorizedRequestContext" where
  "context_of_key (key, p, es, proto, deltas, fid) =
     with_id_list_request fid None None (with_request_capabilities proto deltas (rc_new key p es))"

definition context_cache_ok :: "context_cache \<Rightarrow> bool" where
  "context_cache_ok c \<longleftrightarrow> (\<forall>k rc. c k = Some rc \<longrightarrow> rc = context_of_key k)"

lemma context_cache_ok_empty: "context_cache_ok (\<lambda>_. None)"
  by (simp add: context_cache_ok_def)

lemma context_of_canonical:
  "context_of_key (key, p, canonicalize_encodings es, proto, deltas, fid)
     = with_id_list_request fid None None (with_request_capabilities proto deltas (rc_new key p es))"
  by (simp add: rc_new_def canonicalize_encodings_eq) (simp add: stored_encodings_def)

lemma get_or_insert_key:
  assumes "context_cache_ok cache" and "\<forall>c. context_cache_ok c \<longrightarrow> context_cache_ok (others c)"
    and "get_or_insert others key p es proto deltas fid cache = (rc, cache')"
  defines "k \<equiv> (key, p, canonicalize_encodings es, proto, deltas, fid)"
  shows "rc = context_of_key k \<and> cache' k = Some rc \<and> context_cache_ok cache'"
proof -
  have "context_cache_ok (others cache)" using assms(1,2) by blast
  then show ?thesis
    using assms(1,3) by (auto simp: get_or_insert_def Let_def context_cache_ok_def k_def split: option.splits if_splits)
qed

text \<open>
  The cache never changes what a request sees. Whatever other requests did between the
  two locks, provided they too left only entries built from their keys, \<open>get_or_insert\<close>
  returns the context built from its arguments, leaves it in the cache and keeps the cache
  coherent.
\<close>

theorem get_or_insert_coherent:
  assumes ok: "context_cache_ok cache"
    and others: "\<forall>c. context_cache_ok c \<longrightarrow> context_cache_ok (others c)"
    and res: "get_or_insert others key p es proto deltas fid cache = (rc, cache')"
  shows "rc = with_id_list_request fid None None
                (with_request_capabilities proto deltas (rc_new key p es))
    \<and> cache' (key, p, canonicalize_encodings es, proto, deltas, fid) = Some rc
    \<and> context_cache_ok cache'"
  using get_or_insert_key [OF assms] by (simp only: context_of_canonical)

theorem get_or_insert_coherent_witness:
  "context_cache_ok (\<lambda>_. None) \<and>
   fst (get_or_insert (\<lambda>c. c) ''secret-1'' V1GetIdLists [Brotli, Gzip] False True None (\<lambda>_. None))
     = with_id_list_request None None None
         (with_request_capabilities False True (rc_new ''secret-1'' V1GetIdLists [Brotli, Gzip]))"
  using get_or_insert_coherent [OF context_cache_ok_empty, of "\<lambda>c. c" "''secret-1''" V1GetIdLists
      "[Brotli, Gzip]" False True None] context_cache_ok_empty
  by (metis prod.collapse)

section \<open>The guards\<close>

lemma parse_u64_chars: "parse_u64 s = Some n \<Longrightarrow> c \<in> set s \<Longrightarrow> is_digit c \<or> c = CHR ''+''"
  by (cases s) (auto simp: parse_u64_def parse_uint_def Let_def list_all_iff split: if_splits)

lemma parse_u64_nonempty: "parse_u64 s = Some n \<Longrightarrow> s \<noteq> []"
  by (auto simp: parse_u64_def parse_uint_def)

lemma parse_u64_fresh:
  "parse_u64 s = Some n \<Longrightarrow> c \<noteq> CHR ''+'' \<Longrightarrow> \<not> is_digit c \<Longrightarrow> c \<notin> set s"
  using parse_u64_chars by blast

lemma range_start_Some:
  "parse_strict_id_list_file_range_start r = Inr (Some n) \<longleftrightarrow>
     (\<exists>v ds. get_one r ''Range'' = Some v \<and> trim v = ''bytes='' @ ds @ ''-'' \<and> parse_u64 ds = Some n)"
  (is "?L \<longleftrightarrow> ?R")
proof
  assume ?L
  then show ?R
    by (auto simp: parse_strict_id_list_file_range_start_def strip_prefix_Some split_once_Some
        split: option.splits prod.splits if_splits)
next
  assume ?R
  then obtain v ds where v: "get_one r ''Range'' = Some v" "trim v = ''bytes='' @ ds @ ''-''"
    and n: "parse_u64 ds = Some n" by blast
  have fresh: "CHR '','' \<notin> set ds" "CHR ''-'' \<notin> set ds"
    using parse_u64_fresh [OF n] by (simp_all add: is_digit_def)
  have "strip_prefix (trim v) ''bytes='' = Some (ds @ ''-'')"
    by (simp only: v(2) strip_prefix_append)
  moreover have "split_once CHR ''-'' (ds @ ''-'') = Some (ds, [])"
    using fresh by (simp add: split_once_Some)
  ultimately show ?L using v(1) n fresh parse_u64_nonempty [OF n]
    by (simp add: parse_strict_id_list_file_range_start_def)
qed

text \<open>
  A \<open>Range\<close> header is accepted exactly when, trimmed, it is \<open>bytes=<n>-\<close> with a number that
  fits 64 bits; in particular the header that the proxy itself would print for an offset is
  read back as this offset, and no header is read as offset-less only when there is none.
\<close>

theorem range_header_exact:
  "(parse_strict_id_list_file_range_start r = Inr (Some n) \<longleftrightarrow>
      (\<exists>v ds. get_one r ''Range'' = Some v \<and> trim v = ''bytes='' @ ds @ ''-'' \<and> parse_u64 ds = Some n))
   \<and> (parse_strict_id_list_file_range_start r = Inr None \<longleftrightarrow> get_one r ''Range'' = None)
   \<and> parse_strict_id_list_file_range_start
        (r\<lparr>get_one := (get_one r)(''Range'' := Some (''bytes='' @ show_u64 n @ ''-''))\<rparr>) = Inr (Some n)"
proof (intro conjI)
  show "parse_strict_id_list_file_range_start r = Inr (Some n) \<longleftrightarrow>
      (\<exists>v ds. get_one r ''Range'' = Some v \<and> trim v = ''bytes='' @ ds @ ''-'' \<and> parse_u64 ds = Some n)"
    by (rule range_start_Some)
  show "parse_strict_id_list_file_range_start r = Inr None \<longleftrightarrow> get_one r ''Range'' = None"
    by (auto simp: parse_strict_id_list_file_range_start_def
        split: option.splits prod.splits if_splits)
  have "trim (''bytes='' @ show_u64 n @ ''-'') = ''bytes='' @ show_u64 n @ ''-''"
    by (rule trim_id) (simp add: is_ws_def)
  then show "parse_strict_id_list_file_range_start
        (r\<lparr>get_one := (get_one r)(''Range'' := Some (''bytes='' @ show_u64 n @ ''-''))\<rparr>) = Inr (Some n)"
    using parse_u64_show_u64 [of n] by (subst range_start_Some) auto
qed

lemma parse_id_list_file_id_Some:
  "parse_id_list_file_id p = Some f \<Longrightarrow> f \<noteq> [] \<and> CHR ''/'' \<notin> set f"
  using hd_split_on [of "CHR ''/''"]
  by (auto simp: parse_id_list_file_id_def Let_def dest: set_takeWhileD split: option.splits if_splits)

lemma download_sdk_key_Inr:
  "download_sdk_key h s = Inr k \<longleftrightarrow>
     (h = Some k \<and> s \<in> {None, Some k}) \<or> (h = None \<and> s = Some k)"
  by (auto simp: download_sdk_key_def split: option.splits)

lemmas download_guard_simps =
  download_id_list_file_guard_def with_id_list_request_def with_raw_request_def
  with_request_capabilities_def rc_new_def parse_required_id_list_file_id_def


definition sample_download :: HttpRequest where
  "sample_download =
     \<lparr>is_get = True, uri_path = ''/v1/download_id_list_file/f1'', uri_query = Some ''k=secret-1'',
      get_one = (\<lambda>n. if n = ''statsig-api-key'' then Some ''secret-1''
                     else if n = ''Range'' then Some ''bytes=12-'' else None),
      get_all = (\<lambda>_. []), query_value_bool = (\<lambda>_. None)\<rparr>"


section \<open>The SDK key of a path\<close>

lemma strip_suffix_append [simp]: "strip_suffix (s @ p) p = Some s"
  by (simp add: strip_suffix_def ends_with_def)

lemma ends_with_iff: "ends_with s p \<longleftrightarrow> (\<exists>t. s = t @ p)"
  unfolding ends_with_def starts_with_iff by (metis rev_append rev_rev_ident)

lemma rsplit_once_append: "c \<notin> set k \<Longrightarrow> rsplit_once c (a @ c # k) = Some (a, k)"
  by (simp add: rsplit_once_def split_once_Some [of c "rev k @ c # rev a" "rev k" "rev a", THEN iffD2])

definition key_cache_ok :: "sdk_key_cache \<Rightarrow> bool" where
  "key_cache_ok c \<longleftrightarrow> (\<forall>p k. c p = Some k \<longrightarrow> k = sdk_key_of_path p)"

lemma sdk_key_of_json_path:
  "CHR ''/'' \<notin> set k \<Longrightarrow> sdk_key_of_path (pre @ CHR ''/'' # k @ ''.json'') = k"
  using strip_suffix_append [of "pre @ CHR ''/'' # k" "''.json''"]
  by (simp add: sdk_key_of_path_def rsplit_once_append)

lemma sdk_key_of_js_path:
  assumes "CHR ''/'' \<notin> set k"
  shows "sdk_key_of_path (pre @ CHR ''/'' # k @ ''.js'') = k"
proof -
  have "\<not> ends_with (pre @ CHR ''/'' # k @ ''.js'') ''.json''"
    by (simp add: ends_with_def starts_with_Cons)
  then have "strip_suffix (pre @ CHR ''/'' # k @ ''.js'') ''.json'' = None"
    by (simp add: strip_suffix_def)
  then show ?thesis
    using assms strip_suffix_append [of "pre @ CHR ''/'' # k" "''.js''"]
    by (simp add: sdk_key_of_path_def rsplit_once_append)
qed

text \<open>
  For a GET request without the header, outside the download route, the fairing adds as SDK
  key the last segment of the path without its \<open>.json\<close> or \<open>.js\<close> ending, whether or not the
  path was in the cache and whatever other requests did meanwhile, and keeps the cache right.
\<close>

theorem sdk_key_normalization_correct:
  assumes "key_cache_ok cache" and "\<forall>c. key_cache_ok c \<longrightarrow> key_cache_ok (others c)"
    and "get_one r ''statsig-api-key'' = None" and "is_get r"
    and "path_from (uri_path r) \<noteq> V1DownloadIdListFile"
    and "uri_path r = pre @ CHR ''/'' # k @ ext" and "ext = ''.json'' \<or> ext = ''.js''"
    and "CHR ''/'' \<notin> set k"
  shows "fst (sdk_key_normalization query_pairs others r cache) = Some k
    \<and> key_cache_ok (snd (sdk_key_normalization query_pairs others r cache))"
proof -
  have key: "sdk_key_of_path (uri_path r) = k"
    using assms(6,7,8) sdk_key_of_json_path sdk_key_of_js_path by auto
  have ok: "key_cache_ok cache" "key_cache_ok (others cache)" using assms(1,2) by blast+
  show ?thesis
  proof (cases "cache (uri_path r)")
    case None
    then show ?thesis using assms(3,4,5) key ok(2)
      by (simp add: sdk_key_normalization_def Let_def key_cache_ok_def)
  next
    case (Some k')
    with ok(1) key have "k' = k" by (simp add: key_cache_ok_def)
    with Some show ?thesis using assms(3,4,5) ok(1)
      by (simp add: sdk_key_normalization_def Let_def)
  qed
qed

definition sample_specs_request :: HttpRequest where
  "sample_specs_request =
     \<lparr>is_get = True, uri_path = ''/v2/download_config_specs/secret-1.json'', uri_query = None,
      get_one = (\<lambda>n. None), get_all = (\<lambda>_. []), query_value_bool = (\<lambda>_. None)\<rparr>"

theorem sdk_key_normalization_correct_witness:
  "fst (sdk_key_normalization (\<lambda>_. None) (\<lambda>c. c) sample_specs_request (\<lambda>_. None)) = Some ''secret-1''"
  using sdk_key_normalization_correct [of "\<lambda>_. None" "\<lambda>c. c" sample_specs_request
      "''/v2/download_config_specs''" "''secret-1''" "''.json''" "\<lambda>_. None"]
  by (simp add: key_cache_ok_def sample_specs_request_def route_simps)

end
