(* ===== verification/ProviderTypes.thy ===== *)
theory ProviderTypes
  imports RequestContext
begin

text \<open>
  The types that data providers and their observers exchange
  (\<open>datastore/data_providers/mod.rs\<close>), the timeouts of the HTTP client, and the order in
  which a provider notifies its observers (\<open>observers/http_data_provider_observer.rs\<close>).
  Durations and instants are natural numbers of nanoseconds; a \<open>Duration\<close> holds at most
  \<open>u64::MAX\<close> seconds and 999,999,999 nanoseconds.
\<close>

section \<open>Durations\<close>

definition duration_max :: nat where
  "duration_max = 2 ^ 64 * 10 ^ 9 - 1"

definition from_secs :: "u64 \<Rightarrow> nat" where
  "from_secs s = unat s * 10 ^ 9"

definition from_millis :: "u64 \<Rightarrow> nat" where
  "from_millis ms = unat ms * 10 ^ 6"

definition checked_add :: "nat \<Rightarrow> nat \<Rightarrow> nat option" where
  "checked_add a b = (if a + b \<le> duration_max then Some (a + b) else None)"

definition checked_mul :: "nat \<Rightarrow> nat \<Rightarrow> nat option" where
  "checked_mul d n = (if d * n \<le> duration_max then Some (d * n) else None)"

lemma from_secs_le_max: "from_secs s \<le> duration_max"
proof -
  have "unat s < 2 ^ 64" using unsigned_less [of s] by simp
  then show ?thesis by (simp add: from_secs_def duration_max_def)
qed

section \<open>Results\<close>

record ResponsePayload =
  rp_encoding :: CompressionEncoder
  rp_data :: string
  rp_use_proto :: bool

datatype DataProviderRequestResult =
    DataAvailable | NoDataAvailable | Unauthorized | ClientError | ProviderError

record DataProviderResult =
  dpr_result :: DataProviderRequestResult
  dpr_body :: "ResponsePayload option"
  dpr_lcut :: u64

record ResponseContext =
  rsp_result_type :: DataProviderRequestResult
  rsp_lcut :: u64
  rsp_request_since_time :: u64
  rsp_body :: ResponsePayload

section \<open>The HTTP client\<close>

record HttpClientConfig =
  request_timeout :: nat
  read_timeout :: nat
  connect_timeout :: nat
  pool_idle_timeout :: nat
  pool_max_idle_per_host :: nat

definition client_config_new :: "u64 \<Rightarrow> u64 \<Rightarrow> u64 \<Rightarrow> u64 \<Rightarrow> nat \<Rightarrow> HttpClientConfig" where
  "client_config_new req rd conn idle hosts =
     \<lparr>request_timeout = from_secs req, read_timeout = from_secs rd,
      connect_timeout = from_secs conn, pool_idle_timeout = from_secs idle,
      pool_max_idle_per_host = hosts\<rparr>"

definition client_config_default :: HttpClientConfig where
  "client_config_default = client_config_new 30 10 10 30 10"

definition background_request_guard_timeout :: "HttpClientConfig \<Rightarrow> nat" where
  "background_request_guard_timeout c =
     max (case checked_add (request_timeout c) (from_secs 5) of
            Some d \<Rightarrow> d | None \<Rightarrow> request_timeout c)
         (from_secs 60)"

text \<open>
  The lazily built client: \<open>build\<close> is \<open>reqwest\<close>'s builder, \<open>others\<close> what other threads stored
  before the build lock was taken.
\<close>

definition get_or_build ::
  "(HttpClientConfig \<Rightarrow> 'e + 'client) \<Rightarrow> ('client option \<Rightarrow> 'client option) \<Rightarrow> HttpClientConfig
     \<Rightarrow> 'client option \<Rightarrow> ('e + 'client) \<times> 'client option" where
  "get_or_build build others cfg slot =
     (case slot of
        Some c \<Rightarrow> (Inr c, slot)
      | None \<Rightarrow>
          (case others slot of
             Some c \<Rightarrow> (Inr c, Some c)
           | None \<Rightarrow> (case build cfg of Inl e \<Rightarrow> (Inl e, None) | Inr c \<Rightarrow> (Inr c, Some c))))"

section \<open>Observers\<close>

text \<open>
  An observer is its \<open>force_notifier_to_wait_for_update\<close> flag and its update of the shared
  state. \<open>notify_all\<close> returns the state after the observers it waits for, in the order of
  their registration, and the updates of the others, which one spawned task runs in order
  at some later time.
\<close>

record 's observer =
  waits :: bool
  obs_update :: "AuthorizedRequestContext \<Rightarrow> ResponseContext \<Rightarrow> 's \<Rightarrow> 's"

definition add_observer :: "'s observer \<Rightarrow> 's observer list \<Rightarrow> 's observer list" where
  "add_observer ob obs = obs @ [ob]"

definition notify_all ::
  "'s observer list \<Rightarrow> AuthorizedRequestContext \<Rightarrow> ResponseContext \<Rightarrow> 's \<Rightarrow> 's \<times> ('s \<Rightarrow> 's) list" where
  "notify_all obs rc rsp s =
     (foldl (\<lambda>s ob. obs_update ob rc rsp s) s (filter waits obs),
      map (\<lambda>ob. obs_update ob rc rsp) (filter (\<lambda>ob. \<not> waits ob) obs))"

lemma background_request_guard_timeout_ge:
  "from_secs 60 \<le> background_request_guard_timeout c
   \<and> request_timeout c \<le> background_request_guard_timeout c"
  by (auto simp: background_request_guard_timeout_def checked_add_def split: option.splits)

lemma notify_all_add_waiting:
  "waits ob \<Longrightarrow> fst (notify_all (add_observer ob obs) rc rsp s)
     = obs_update ob rc rsp (fst (notify_all obs rc rsp s))"
  by (simp add: notify_all_def add_observer_def)

end
