(* ===== verification/Stores.thy ===== *)
theory Stores
  imports ProviderTypes
begin

text \<open>
  The in-memory stores: \<open>sdk_key_store.rs\<close>, \<open>config_spec_store.rs\<close>, \<open>id_list_store.rs\<close>,
  \<open>id_list_file_store.rs\<close>, \<open>id_list_manifest.rs\<close> and \<open>id_list_file_refresh_observer.rs\<close> under
  \<open>datastore/\<close>. Each store is a map and its \<open>update\<close> is one step; the stores' read paths that
  start a fetch are in the theory of the background provider.

  A hash map keyed by contexts compares keys with \<^const>\<open>rc_eq\<close>, and inserting under an equal
  key replaces the value and keeps the old key object; the pair stored under
  \<^const>\<open>rc_id\<close> keeps that object.
\<close>

section \<open>Maps keyed by contexts\<close>

type_synonym 'v ctx_map = "rc_key \<Rightarrow> (AuthorizedRequestContext \<times> 'v) option"

definition cm_get :: "AuthorizedRequestContext \<Rightarrow> 'v ctx_map \<Rightarrow> 'v option" where
  "cm_get rc m = map_option snd (m (rc_id rc))"

definition cm_insert :: "AuthorizedRequestContext \<Rightarrow> 'v \<Rightarrow> 'v ctx_map \<Rightarrow> 'v ctx_map" where
  "cm_insert rc v m =
     m(rc_id rc \<mapsto> (case m (rc_id rc) of None \<Rightarrow> rc | Some (old, _) \<Rightarrow> old, v))"

definition cm_remove :: "AuthorizedRequestContext \<Rightarrow> 'v ctx_map \<Rightarrow> 'v ctx_map" where
  "cm_remove rc m = m(rc_id rc := None)"

text \<open>The contract of a keyed map, and what a client may rely on.\<close>

locale keyed_map =
  fixes key :: "'r \<Rightarrow> 'k"
    and get :: "'r \<Rightarrow> 'm \<Rightarrow> 'v option"
    and ins :: "'r \<Rightarrow> 'v \<Rightarrow> 'm \<Rightarrow> 'm"
    and del :: "'r \<Rightarrow> 'm \<Rightarrow> 'm"
  assumes get_ins: "get r (ins r' v m) = (if key r = key r' then Some v else get r m)"
    and get_del: "get r (del r' m) = (if key r = key r' then None else get r m)"
begin

lemma get_ins_same [simp]: "get r (ins r v m) = Some v"
  by (simp add: get_ins)

lemma get_del_same [simp]: "get r (del r m) = None"
  by (simp add: get_del)

lemma get_ins_other: "key r \<noteq> key r' \<Longrightarrow> get r (ins r' v m) = get r m"
  by (simp add: get_ins)

lemma get_del_other: "key r \<noteq> key r' \<Longrightarrow> get r (del r' m) = get r m"
  by (simp add: get_del)

lemma ins_overwrites: "get r (ins r' v (ins r' w m)) = get r (ins r' v m)"
  by (simp add: get_ins)

lemma del_ins: "get r (del r' (ins r' v m)) = get r (del r' m)"
  by (simp add: get_ins get_del)

end

interpretation cm: keyed_map rc_id cm_get cm_insert cm_remove
  by unfold_locales (auto simp: cm_get_def cm_insert_def cm_remove_def)

section \<open>The SDK key store\<close>

type_synonym sdk_key_store = "u64 ctx_map"

record SdkKeyStoreItem =
  item_rc :: AuthorizedRequestContext
  item_lcut :: u64

definition sdk_key_store_new :: sdk_key_store where
  "sdk_key_store_new = (\<lambda>_. None)"

definition sdk_key_store_update ::
  "AuthorizedRequestContext \<Rightarrow> ResponseContext \<Rightarrow> sdk_key_store \<Rightarrow> sdk_key_store" where
  "sdk_key_store_update rc rsp m =
     (case rsp_result_type rsp of
        DataAvailable \<Rightarrow>
          if \<not> rc_use_lcut rc
             \<or> (case cm_get rc m of None \<Rightarrow> True | Some v \<Rightarrow> v < rsp_lcut rsp)
          then cm_insert rc (rsp_lcut rsp) m else m
      | Unauthorized \<Rightarrow> cm_remove rc m
      | _ \<Rightarrow> m)"

definition has_key :: "AuthorizedRequestContext \<Rightarrow> sdk_key_store \<Rightarrow> bool" where
  "has_key rc m \<longleftrightarrow> cm_get rc m \<noteq> None"

definition upsert :: "AuthorizedRequestContext \<Rightarrow> u64 \<Rightarrow> sdk_key_store \<Rightarrow> sdk_key_store" where
  "upsert rc lcut m =
     (case cm_get rc m of
        Some current \<Rightarrow> if current < lcut then cm_insert rc lcut m else m
      | None \<Rightarrow> cm_insert rc lcut m)"

definition remove_key :: "AuthorizedRequestContext \<Rightarrow> sdk_key_store \<Rightarrow> sdk_key_store" where
  "remove_key rc m = cm_remove rc m"

definition get_lcut :: "AuthorizedRequestContext \<Rightarrow> sdk_key_store \<Rightarrow> u64 option" where
  "get_lcut rc m = cm_get rc m"

text \<open>The registered items; the iteration order of a hash map is not specified.\<close>

definition get_registered_store :: "sdk_key_store \<Rightarrow> SdkKeyStoreItem set" where
  "get_registered_store m =
     {\<lparr>item_rc = rc, item_lcut = l\<rparr> | rc l k. m k = Some (rc, l)}"

section \<open>The config spec store\<close>

record ConfigSpecForCompany =
  cs_lcut :: u64
  cs_config :: ResponsePayload

type_synonym config_spec_store = "ConfigSpecForCompany ctx_map"

definition config_spec_store_new :: config_spec_store where
  "config_spec_store_new = (\<lambda>_. None)"

definition no_update_config :: ResponsePayload where
  "no_update_config =
     \<lparr>rp_encoding = PlainText,
      rp_data = [CHR ''{'', CHR 0x22] @ ''has_updates'' @ [CHR 0x22] @ '':false}'',
      rp_use_proto = False\<rparr>"

definition config_spec_store_update ::
  "AuthorizedRequestContext \<Rightarrow> ResponseContext \<Rightarrow> config_spec_store \<Rightarrow> config_spec_store" where
  "config_spec_store_update rc rsp m =
     (let new_data = \<lparr>cs_lcut = rsp_lcut rsp, cs_config = rsp_body rsp\<rparr> in
      if rsp_result_type rsp = ProviderError \<or> rsp_result_type rsp = DataAvailable then
        (case cm_get rc m of
           None \<Rightarrow> cm_insert rc new_data m
         | Some record \<Rightarrow>
             if cs_lcut record < rsp_lcut rsp then cm_insert rc new_data m else m)
      else if rsp_result_type rsp = Unauthorized then cm_remove rc m
      else m)"

text \<open>What \<open>get_config_spec\<close> answers from the store once any fetch is done.\<close>

definition config_spec_reply ::
  "AuthorizedRequestContext \<Rightarrow> u64 \<Rightarrow> config_spec_store \<Rightarrow> ConfigSpecForCompany option" where
  "config_spec_reply rc since m =
     (case cm_get rc m of
        None \<Rightarrow> None
      | Some record \<Rightarrow>
          if since < cs_lcut record then Some record
          else Some \<lparr>cs_lcut = cs_lcut record, cs_config = no_update_config\<rparr>)"

text \<open>
  The gauge events: for every SDK key and path the least time stamp of its entries, clamped to
  \<open>i64\<close>, over the entries in the order in which the map is iterated.
\<close>

definition lcut_group ::
  "(string \<times> NormalizedPath \<Rightarrow> u64 option) \<Rightarrow> AuthorizedRequestContext \<times> u64
     \<Rightarrow> (string \<times> NormalizedPath \<Rightarrow> u64 option)" where
  "lcut_group cur entry =
     (case entry of (rc, l) \<Rightarrow>
        let k = (rc_sdk_key rc, rc_path rc)
        in cur(k \<mapsto> (case cur k of None \<Rightarrow> l | Some c \<Rightarrow> min c l)))"

definition current_lcut_events ::
  "(AuthorizedRequestContext \<times> u64) list \<Rightarrow> string \<times> NormalizedPath \<Rightarrow> int option" where
  "current_lcut_events entries k =
     map_option (\<lambda>l. min (int (unat l)) (2 ^ 63 - 1)) (foldl lcut_group (\<lambda>_. None) entries k)"

section \<open>The id list store\<close>

type_synonym id_list_store = "ResponsePayload ctx_map"

definition id_list_store_update ::
  "AuthorizedRequestContext \<Rightarrow> ResponseContext \<Rightarrow> id_list_store \<Rightarrow> id_list_store" where
  "id_list_store_update rc rsp m =
     (if rsp_result_type rsp = ProviderError \<or> rsp_result_type rsp = DataAvailable
      then cm_insert rc (rsp_body rsp) m
      else if rsp_result_type rsp = Unauthorized then cm_remove rc m
      else m)"

section \<open>The id list file store\<close>

text \<open>
  The file cache is a bounded third-party cache: \<open>evict\<close> is what it drops after an insertion,
  which leaves a part of what it holds.
\<close>

type_synonym id_list_file_store = "string \<Rightarrow> string option"

definition cached_body_satisfies_request :: "string \<Rightarrow> AuthorizedRequestContext \<Rightarrow> bool" where
  "cached_body_satisfies_request body rc =
     (let cached = length body;
          size_ok = (case rc_id_list_size rc of None \<Rightarrow> True | Some sz \<Rightarrow> unat sz \<le> cached)
      in case rc_range_start rc of
           Some start \<Rightarrow>
             if rc_id_list_size rc = None then unat start < cached
             else (unat start < cached
                   \<or> (cached = unat start \<and> map_option unat (rc_id_list_size rc) = Some cached))
                  \<and> size_ok
         | None \<Rightarrow> size_ok)"

definition get_stored_body :: "AuthorizedRequestContext \<Rightarrow> id_list_file_store \<Rightarrow> string option" where
  "get_stored_body rc m = Option.bind (rc_file_id rc) m"

definition get_cached_hit :: "AuthorizedRequestContext \<Rightarrow> id_list_file_store \<Rightarrow> string option" where
  "get_cached_hit rc m =
     (case get_stored_body rc m of
        None \<Rightarrow> None
      | Some body \<Rightarrow> if cached_body_satisfies_request body rc then Some body else None)"

definition is_fresh_enough :: "AuthorizedRequestContext \<Rightarrow> id_list_file_store \<Rightarrow> bool" where
  "is_fresh_enough rc m \<longleftrightarrow> get_cached_hit rc m \<noteq> None"

definition id_list_file_store_update ::
  "(id_list_file_store \<Rightarrow> id_list_file_store) \<Rightarrow> AuthorizedRequestContext \<Rightarrow> ResponseContext
     \<Rightarrow> id_list_file_store \<Rightarrow> id_list_file_store" where
  "id_list_file_store_update evict rc rsp m =
     (case rc_file_id rc of
        None \<Rightarrow> m
      | Some k \<Rightarrow>
          (case rsp_result_type rsp of
             DataAvailable \<Rightarrow> evict (m(k \<mapsto> rp_data (rsp_body rsp)))
           | ProviderError \<Rightarrow> evict (m(k \<mapsto> rp_data (rsp_body rsp)))
           | Unauthorized \<Rightarrow> m(k := None)
           | _ \<Rightarrow> m))"

section \<open>The manifest of id lists\<close>

record IdListManifestEntry =
  me_name :: string
  me_size :: u64
  me_url :: string
  me_creation_time :: u64
  me_file_id :: string

type_synonym id_list_manifest = "string \<Rightarrow> IdListManifestEntry option"

datatype manifest_error = GzipUndecodable | BrotliUndecodable | UnsupportedEncoding | InvalidJson

type_synonym decoder = "string \<Rightarrow> string option"

definition decode_response_payload ::
  "decoder \<Rightarrow> decoder \<Rightarrow> ResponsePayload \<Rightarrow> manifest_error + string" where
  "decode_response_payload gunzip unbrotli p =
     (case rp_encoding p of
        PlainText \<Rightarrow> Inr (rp_data p)
      | Gzip \<Rightarrow> (case gunzip (rp_data p) of None \<Rightarrow> Inl GzipUndecodable | Some d \<Rightarrow> Inr d)
      | Brotli \<Rightarrow> (case unbrotli (rp_data p) of None \<Rightarrow> Inl BrotliUndecodable | Some d \<Rightarrow> Inr d)
      | StatsigBrotli \<Rightarrow>
          (case unbrotli (rp_data p) of None \<Rightarrow> Inl BrotliUndecodable | Some d \<Rightarrow> Inr d)
      | _ \<Rightarrow> Inl UnsupportedEncoding)"

text \<open>
  The JSON object is given by its deserialiser as the list of its values in the order in which
  the map is iterated; the manifest is keyed by the entries' own names, so that the last one
  of a name counts.
\<close>

definition manifest_of_entries :: "IdListManifestEntry list \<Rightarrow> id_list_manifest" where
  "manifest_of_entries es = foldl (\<lambda>m e. m(me_name e \<mapsto> e)) (\<lambda>_. None) es"

definition parse_id_list_manifest ::
  "decoder \<Rightarrow> decoder \<Rightarrow> (string \<Rightarrow> IdListManifestEntry list option) \<Rightarrow> ResponsePayload
     \<Rightarrow> manifest_error + id_list_manifest" where
  "parse_id_list_manifest gunzip unbrotli from_json p =
     (case decode_response_payload gunzip unbrotli p of
        Inl e \<Rightarrow> Inl e
      | Inr d \<Rightarrow> (case from_json d of
            None \<Rightarrow> Inl InvalidJson
          | Some es \<Rightarrow> Inr (manifest_of_entries es)))"

section \<open>Refreshing id list files\<close>

text \<open>URL parsing is the argument \<open>parse_url\<close>, which gives the path and the query.\<close>

type_synonym url_parser = "string \<Rightarrow> (string \<times> string option) option"

definition parse_id_list_file_id_from_blob_path :: "string \<Rightarrow> string option" where
  "parse_id_list_file_id_from_blob_path p =
     (case strip_prefix p ''/idlists/'' of
        None \<Rightarrow> None
      | Some rest \<Rightarrow> let s = hd (split_on CHR ''/'' rest) in if s = [] then None else Some s)"

definition request_context_from_manifest_url ::
  "url_parser \<Rightarrow> string \<Rightarrow> string \<Rightarrow> u64 \<Rightarrow> AuthorizedRequestContext option" where
  "request_context_from_manifest_url parse_url key url sz =
     (case parse_url url of
        None \<Rightarrow> None
      | Some (raw_path, raw_query) \<Rightarrow>
          (case (case parse_id_list_file_id raw_path of
                   Some fid \<Rightarrow> Some (raw_path, fid)
                 | None \<Rightarrow>
                     (case parse_id_list_file_id_from_blob_path raw_path of
                        Some fid \<Rightarrow> Some (''/v1/download_id_list_file/'' @ fid, fid)
                      | None \<Rightarrow> None)) of
             None \<Rightarrow> None
           | Some (p, fid) \<Rightarrow>
               Some (with_id_list_request (Some fid) (Some 0) (Some sz)
                      (with_raw_request (Some p) raw_query
                        (rc_new key V1DownloadIdListFile [PlainText])))))"

definition download_request_contexts_from_manifest ::
  "url_parser \<Rightarrow> AuthorizedRequestContext \<Rightarrow> manifest_error + IdListManifestEntry list
     \<Rightarrow> id_list_file_store \<Rightarrow> AuthorizedRequestContext list" where
  "download_request_contexts_from_manifest parse_url rc manifest files =
     (case manifest of
        Inl _ \<Rightarrow> []
      | Inr entries \<Rightarrow>
          filter (\<lambda>c. \<not> is_fresh_enough c files)
            (List.map_filter
               (\<lambda>e. request_context_from_manifest_url parse_url (rc_sdk_key rc) (me_url e) (me_size e))
               entries))"

text \<open>
  The refresh observer: the contexts whose files it starts to fetch; \<open>manifest\<close> is the parsed
  body of the response, its entries in the order in which the map is iterated.
\<close>

definition refresh_observer_update ::
  "url_parser \<Rightarrow> AuthorizedRequestContext \<Rightarrow> ResponseContext \<Rightarrow> manifest_error + IdListManifestEntry list
     \<Rightarrow> id_list_file_store \<Rightarrow> AuthorizedRequestContext list" where
  "refresh_observer_update parse_url rc rsp manifest files =
     (if rc_path rc \<noteq> V1GetIdLists \<or> rsp_result_type rsp \<noteq> DataAvailable then []
      else download_request_contexts_from_manifest parse_url rc manifest files)"

section \<open>The contract of a store\<close>

text \<open>
  What the stores that observe a provider promise: an update touches one context, data makes
  the context present, an unauthorised result makes it absent, anything else keeps it.
\<close>

locale observer_store =
  fixes upd :: "AuthorizedRequestContext \<Rightarrow> ResponseContext \<Rightarrow> 's \<Rightarrow> 's"
    and look :: "AuthorizedRequestContext \<Rightarrow> 's \<Rightarrow> 'v option"
  assumes frame: "rc_id rc' \<noteq> rc_id rc \<Longrightarrow> look rc' (upd rc rsp s) = look rc' s"
    and data: "rsp_result_type rsp = DataAvailable \<Longrightarrow> look rc (upd rc rsp s) \<noteq> None"
    and cleared: "rsp_result_type rsp = Unauthorized \<Longrightarrow> look rc (upd rc rsp s) = None"
    and kept: "rsp_result_type rsp \<noteq> Unauthorized \<Longrightarrow> look rc s \<noteq> None
                 \<Longrightarrow> look rc (upd rc rsp s) \<noteq> None"
    and ignored: "rsp_result_type rsp \<in> {NoDataAvailable, ClientError} \<Longrightarrow> upd rc rsp s = s"
    and ident: "rc_id rc = rc_id rc' \<Longrightarrow> look rc s = look rc' s"
begin

lemma run_frame:
  "(\<forall>(rc', rsp) \<in> set evs. rc_id rc' \<noteq> rc_id rc) \<Longrightarrow>
     look rc (foldl (\<lambda>s (rc', rsp). upd rc' rsp s) s evs) = look rc s"
  by (induction evs arbitrary: s) (auto simp: frame)

lemma run_kept:
  assumes "\<forall>(rc', rsp) \<in> set evs. rc_id rc' = rc_id rc \<longrightarrow> rsp_result_type rsp \<noteq> Unauthorized"
    and "look rc s \<noteq> None"
  shows "look rc (foldl (\<lambda>s (rc', rsp). upd rc' rsp s) s evs) \<noteq> None"
  using assms
proof (induction evs arbitrary: s)
  case (Cons ev evs)
  obtain rc' rsp where ev: "ev = (rc', rsp)" by (cases ev)
  have "look rc (upd rc' rsp s) \<noteq> None"
  proof (cases "rc_id rc' = rc_id rc")
    case True
    then show ?thesis using Cons.prems kept [of rsp rc' s] ident [OF True] ev by auto
  next
    case False
    then show ?thesis using Cons.prems(2) frame [of rc rc'] by simp
  qed
  then show ?case using Cons.IH Cons.prems(1) ev by simp
qed simp

lemma data_until_cleared:
  assumes "rsp_result_type rsp = DataAvailable"
    and "\<forall>(rc', r) \<in> set evs. rc_id rc' = rc_id rc \<longrightarrow> rsp_result_type r \<noteq> Unauthorized"
  shows "look rc (foldl (\<lambda>s (rc', r). upd rc' r s) (upd rc rsp s) evs) \<noteq> None"
  by (rule run_kept [OF assms(2)]) (rule data [OF assms(1)])

lemma cleared_until_data:
  assumes "rsp_result_type rsp = Unauthorized"
    and "\<forall>(rc', r) \<in> set evs. rc_id rc' = rc_id rc \<longrightarrow>
           rsp_result_type r \<in> {NoDataAvailable, ClientError, Unauthorized}"
  shows "look rc (foldl (\<lambda>s (rc', r). upd rc' r s) (upd rc rsp s) evs) = None"
proof -
  have "look rc s' = None \<Longrightarrow>
      \<forall>(rc', r) \<in> set es. rc_id rc' = rc_id rc \<longrightarrow>
        rsp_result_type r \<in> {NoDataAvailable, ClientError, Unauthorized} \<Longrightarrow>
      look rc (foldl (\<lambda>s (rc', r). upd rc' r s) s' es) = None" for s' es
  proof (induction es arbitrary: s')
    case (Cons e es)
    obtain rc' r where e: "e = (rc', r)" by (cases e)
    have "look rc (upd rc' r s') = None"
    proof (cases "rc_id rc' = rc_id rc")
      case True
      then show ?thesis
        using Cons.prems e cleared [of r rc' s'] ignored [of r rc' s'] ident [OF True] by auto
    next
      case False
      then show ?thesis using Cons.prems(1) frame [of rc rc'] by simp
    qed
    then show ?case using Cons.IH Cons.prems(2) e by simp
  qed simp
  then show ?thesis using cleared [OF assms(1)] assms(2) by blast
qed

end

lemma cm_get_cong: "rc_id rc = rc_id rc' \<Longrightarrow> cm_get rc m = cm_get rc' m"
  by (simp add: cm_get_def)

interpretation sdk_store: observer_store sdk_key_store_update get_lcut
  by unfold_locales
     (auto simp: sdk_key_store_update_def get_lcut_def cm.get_ins cm.get_del
       split: DataProviderRequestResult.splits option.splits intro: cm_get_cong)

interpretation spec_store: observer_store config_spec_store_update cm_get
  by unfold_locales
     (auto simp: config_spec_store_update_def Let_def cm.get_ins cm.get_del
       split: option.splits intro: cm_get_cong)

interpretation idlists: observer_store id_list_store_update cm_get
  by unfold_locales
     (auto simp: id_list_store_update_def cm.get_ins cm.get_del intro: cm_get_cong)

section \<open>What the stores guarantee\<close>

type_synonym store_event = "AuthorizedRequestContext \<times> ResponseContext"

definition run_specs :: "store_event list \<Rightarrow> config_spec_store \<Rightarrow> config_spec_store" where
  "run_specs evs m = foldl (\<lambda>m (rc, rsp). config_spec_store_update rc rsp m) m evs"

definition run_keys :: "store_event list \<Rightarrow> sdk_key_store \<Rightarrow> sdk_key_store" where
  "run_keys evs m = foldl (\<lambda>m (rc, rsp). sdk_key_store_update rc rsp m) m evs"

definition offers :: "AuthorizedRequestContext \<Rightarrow> store_event \<Rightarrow> bool" where
  "offers rc ev \<longleftrightarrow> rc_id (fst ev) = rc_id rc
     \<and> rsp_result_type (snd ev) \<in> {DataAvailable, ProviderError}"

definition revokes :: "AuthorizedRequestContext \<Rightarrow> store_event \<Rightarrow> bool" where
  "revokes rc ev \<longleftrightarrow> rc_id (fst ev) = rc_id rc \<and> rsp_result_type (snd ev) = Unauthorized"

lemma config_spec_store_step:
  assumes "\<not> revokes rc (rc', rsp)"
  shows "cm_get rc (config_spec_store_update rc' rsp m) =
    (if offers rc (rc', rsp) \<and> (case cm_get rc m of None \<Rightarrow> True | Some r \<Rightarrow> cs_lcut r < rsp_lcut rsp)
     then Some \<lparr>cs_lcut = rsp_lcut rsp, cs_config = rsp_body rsp\<rparr> else cm_get rc m)"
proof (cases "rc_id rc' = rc_id rc")
  case True
  then have "cm_get rc' m = cm_get rc m" by (rule cm_get_cong)
  then show ?thesis using True assms
    by (auto simp: config_spec_store_update_def Let_def offers_def revokes_def cm.get_ins cm.get_del
        split: option.splits)
next
  case False
  then show ?thesis using spec_store.frame [of rc rc' rsp m] by (simp add: offers_def)
qed

lemma run_specs_newest:
  assumes "\<forall>ev \<in> set evs. \<not> revokes rc ev"
  shows "case cm_get rc (run_specs evs m) of
      None \<Rightarrow> cm_get rc m = None \<and> (\<forall>ev \<in> set evs. \<not> offers rc ev)
    | Some r \<Rightarrow>
        (\<forall>ev \<in> set evs. offers rc ev \<longrightarrow> rsp_lcut (snd ev) \<le> cs_lcut r)
        \<and> (\<forall>r0. cm_get rc m = Some r0 \<longrightarrow> cs_lcut r0 \<le> cs_lcut r)
        \<and> (cm_get rc m = Some r \<or>
           (\<exists>ev \<in> set evs. offers rc ev \<and> r = \<lparr>cs_lcut = rsp_lcut (snd ev), cs_config = rsp_body (snd ev)\<rparr>))"
  using assms
proof (induction evs arbitrary: m)
  case Nil
  then show ?case by (simp add: run_specs_def split: option.splits)
next
  case (Cons ev evs)
  obtain rc' rsp where ev: "ev = (rc', rsp)" by (cases ev)
  have run: "run_specs (ev # evs) m = run_specs evs (config_spec_store_update rc' rsp m)"
    by (simp add: run_specs_def ev)
  have step: "cm_get rc (config_spec_store_update rc' rsp m) =
    (if offers rc ev \<and> (case cm_get rc m of None \<Rightarrow> True | Some r \<Rightarrow> cs_lcut r < rsp_lcut rsp)
     then Some \<lparr>cs_lcut = rsp_lcut rsp, cs_config = rsp_body rsp\<rparr> else cm_get rc m)"
    unfolding ev by (rule config_spec_store_step) (use Cons.prems ev in simp)
  from Cons.IH [of "config_spec_store_update rc' rsp m"] Cons.prems
  show ?case unfolding run step
    by (cases "cm_get rc m"; cases "offers rc ev")
       (auto simp: ev not_less split: option.splits if_splits)
qed

text \<open>
  C2: the config spec store serves the newest spec. After any sequence of results in which the
  context is not revoked, the stored record is one of the specs the origin or the backup
  offered for it, and none of them has a later time stamp.
\<close>

theorem config_spec_newest:
  assumes "\<forall>ev \<in> set evs. \<not> revokes rc ev"
    and "cm_get rc (run_specs evs config_spec_store_new) = Some r"
  shows "(\<forall>ev \<in> set evs. offers rc ev \<longrightarrow> rsp_lcut (snd ev) \<le> cs_lcut r)
    \<and> (\<exists>ev \<in> set evs. offers rc ev \<and> cs_lcut r = rsp_lcut (snd ev) \<and> cs_config r = rsp_body (snd ev))"
proof -
  have "cm_get rc config_spec_store_new = None" by (simp add: config_spec_store_new_def cm_get_def)
  with run_specs_newest [OF assms(1), of config_spec_store_new] assms(2)
  have all: "\<forall>ev \<in> set evs. offers rc ev \<longrightarrow> rsp_lcut (snd ev) \<le> cs_lcut r"
    and ex: "\<exists>ev \<in> set evs. offers rc ev
      \<and> r = \<lparr>cs_lcut = rsp_lcut (snd ev), cs_config = rsp_body (snd ev)\<rparr>"
    by simp_all
  from ex obtain ev where "ev \<in> set evs" "offers rc ev"
    "r = \<lparr>cs_lcut = rsp_lcut (snd ev), cs_config = rsp_body (snd ev)\<rparr>" by blast
  then have "\<exists>ev \<in> set evs. offers rc ev \<and> cs_lcut r = rsp_lcut (snd ev) \<and> cs_config r = rsp_body (snd ev)"
    by (intro bexI [of _ ev]) simp_all
  with all show ?thesis by blast
qed

definition sample_store_rc :: AuthorizedRequestContext where
  "sample_store_rc = rc_new ''secret-1'' V2DownloadConfigSpecs []"

definition sample_spec :: "DataProviderRequestResult \<Rightarrow> u64 \<Rightarrow> string \<Rightarrow> ResponseContext" where
  "sample_spec res l d =
     \<lparr>rsp_result_type = res, rsp_lcut = l, rsp_request_since_time = 0,
      rsp_body = \<lparr>rp_encoding = PlainText, rp_data = d, rp_use_proto = False\<rparr>\<rparr>"

theorem config_spec_newest_witness:
  "\<exists>r. cm_get sample_store_rc
        (run_specs [(sample_store_rc, sample_spec DataAvailable 20 ''b''),
                    (sample_store_rc, sample_spec ProviderError 10 ''a'')] config_spec_store_new) = Some r
     \<and> cs_lcut r = 20"
proof -
  let ?evs = "[(sample_store_rc, sample_spec DataAvailable 20 ''b''),
               (sample_store_rc, sample_spec ProviderError 10 ''a'')]"
  have a: "\<forall>ev \<in> set ?evs. \<not> revokes sample_store_rc ev"
    by (simp add: revokes_def sample_spec_def)
  have b: "cm_get sample_store_rc (run_specs ?evs config_spec_store_new)
      = Some \<lparr>cs_lcut = 20, cs_config = rsp_body (sample_spec DataAvailable 20 ''b'')\<rparr>"
    by (simp add: run_specs_def config_spec_store_new_def config_spec_store_update_def sample_spec_def
        cm_get_def cm_insert_def)
  from config_spec_newest [OF a b] b show ?thesis by (auto simp: offers_def)
qed

text \<open>
  Once data has arrived for a context, every later request for it is answered, whatever
  results arrive for it or for others, until the origin says that the key is unauthorised.
\<close>

theorem config_spec_available:
  assumes "rsp_result_type rsp = DataAvailable" and "\<forall>ev \<in> set evs. \<not> revokes rc ev"
  shows "config_spec_reply rc since (run_specs evs (config_spec_store_update rc rsp m)) \<noteq> None"
proof -
  have "cm_get rc (run_specs evs (config_spec_store_update rc rsp m)) \<noteq> None"
    unfolding run_specs_def
    by (rule spec_store.data_until_cleared) (use assms in \<open>auto simp: revokes_def\<close>)
  then show ?thesis by (auto simp: config_spec_reply_def)
qed

theorem config_spec_available_witness:
  "config_spec_reply sample_store_rc 0
     (run_specs [(sample_store_rc, sample_spec NoDataAvailable 0 [])]
        (config_spec_store_update sample_store_rc (sample_spec DataAvailable 20 ''b'')
           config_spec_store_new)) \<noteq> None"
  by (rule config_spec_available) (simp_all add: sample_spec_def revokes_def)

section \<open>Keys and specs together\<close>

text \<open>Contexts that \<open>AuthorizedRequestContext::new\<close> can build.\<close>

definition rc_wf :: "AuthorizedRequestContext \<Rightarrow> bool" where
  "rc_wf rc \<longleftrightarrow> rc_use_lcut rc =
     (rc_path rc = V1DownloadConfigSpecs \<or> rc_path rc = V2DownloadConfigSpecs
      \<or> rc_path rc = V2DownloadConfigSpecsDeltas)"

lemma rc_wf_cong: "rc_wf a \<Longrightarrow> rc_wf b \<Longrightarrow> rc_id a = rc_id b \<Longrightarrow> rc_use_lcut a = rc_use_lcut b"
  by (auto simp: rc_wf_def rc_id_def)

definition keys_served :: "sdk_key_store \<Rightarrow> config_spec_store \<Rightarrow> bool" where
  "keys_served keys specs \<longleftrightarrow>
     (\<forall>rc l. rc_wf rc \<longrightarrow> get_lcut rc keys = Some l \<longrightarrow>
        (\<exists>r. cm_get rc specs = Some r \<and> (rc_use_lcut rc \<longrightarrow> l \<le> cs_lcut r)))"

lemma keys_served_step:
  assumes inv: "keys_served keys specs" and wf: "rc_wf rc"
  shows "keys_served (sdk_key_store_update rc rsp keys) (config_spec_store_update rc rsp specs)"
  unfolding keys_served_def
proof (intro allI impI)
  fix rc' l
  assume wf': "rc_wf rc'" and l: "get_lcut rc' (sdk_key_store_update rc rsp keys) = Some l"
  show "\<exists>r. cm_get rc' (config_spec_store_update rc rsp specs) = Some r
          \<and> (rc_use_lcut rc' \<longrightarrow> l \<le> cs_lcut r)"
  proof (cases "rc_id rc' = rc_id rc")
    case False
    then show ?thesis
      using l inv wf' sdk_store.frame [OF False] spec_store.frame [OF False]
      by (auto simp: keys_served_def)
  next
    case True
    note same = cm_get_cong [OF True] rc_wf_cong [OF wf' wf True]
    have old: "get_lcut rc keys = Some v \<Longrightarrow>
        \<exists>r. cm_get rc specs = Some r \<and> (rc_use_lcut rc \<longrightarrow> v \<le> cs_lcut r)" for v
      using inv wf by (auto simp: keys_served_def)
    have l': "cm_get rc (sdk_key_store_update rc rsp keys) = Some l"
      using l cm_get_cong [OF True, of "sdk_key_store_update rc rsp keys"] by (simp add: get_lcut_def)
    show ?thesis
      unfolding same using l' old
      by (cases "rsp_result_type rsp"; cases "cm_get rc keys"; cases "cm_get rc specs")
         (auto simp: sdk_key_store_update_def config_spec_store_update_def Let_def get_lcut_def
            cm.get_ins cm.get_del not_less split: if_splits)
  qed
qed



section \<open>Id list files\<close>

text \<open>
  A cached file answers a request only when it can: it is the body stored for the file, it
  is at least as long as the size the manifest announced, and a requested offset lies inside
  it or exactly at the announced end. Conversely a cached body that is as long as announced
  and reaches past the offset is always used.
\<close>

theorem cached_hit_exact:
  "get_cached_hit rc m = Some body \<longleftrightarrow>
     (\<exists>fid. rc_file_id rc = Some fid \<and> m fid = Some body)
     \<and> (\<forall>sz. rc_id_list_size rc = Some sz \<longrightarrow> unat sz \<le> length body)
     \<and> (\<forall>start. rc_range_start rc = Some start \<longrightarrow>
          unat start < length body
          \<or> (unat start = length body \<and> rc_id_list_size rc = Some start))"
  by (cases "rc_file_id rc"; cases "rc_range_start rc"; cases "rc_id_list_size rc")
     (auto simp: get_cached_hit_def get_stored_body_def cached_body_satisfies_request_def Let_def
       word_unat_eq_iff split: option.splits if_splits)

theorem cached_hit_exact_witness:
  "get_cached_hit (with_id_list_request (Some ''f'') (Some 2) (Some 3) (rc_new ''k'' V1DownloadIdListFile []))
     [''f'' \<mapsto> ''abc''] = Some ''abc''"
  by (subst cached_hit_exact) (simp add: with_id_list_request_def)

text \<open>
  The refresh observer starts downloads only for a fresh manifest of id lists, only under
  the SDK key of the request, and only for files that the store cannot serve; each download
  is for the route that the proxy itself serves, of the whole file, and of the size the
  manifest announced.
\<close>

theorem refresh_contexts_sound:
  assumes "c \<in> set (refresh_observer_update parse_url rc rsp (Inr entries) files)"
  shows "rc_path rc = V1GetIdLists \<and> rsp_result_type rsp = DataAvailable
    \<and> rc_sdk_key c = rc_sdk_key rc \<and> \<not> is_fresh_enough c files
    \<and> rc_path c = V1DownloadIdListFile \<and> rc_range_start c = Some 0
    \<and> (\<exists>e \<in> set entries. rc_id_list_size c = Some (me_size e))
    \<and> (\<exists>p. rc_raw_path c = Some p \<and> path_from p = V1DownloadIdListFile
          \<and> parse_id_list_file_id p = rc_file_id c)"
proof -
  have route: "path_from p = V1DownloadIdListFile" if "parse_id_list_file_id p = Some f" for p f
  proof -
    from that obtain t where "p = ''/v1/download_id_list_file/'' @ t"
      by (auto simp: parse_id_list_file_id_def strip_prefix_Some split: option.splits)
    then show ?thesis using path_from_prefix [of V1DownloadIdListFile t] by simp
  qed
  have blob: "parse_id_list_file_id (''/v1/download_id_list_file/'' @ f) = Some f"
    if "parse_id_list_file_id_from_blob_path p = Some f" for p f
  proof -
    from that have "f \<noteq> []" "CHR ''/'' \<notin> set f"
      using hd_split_on [of "CHR ''/''"]
      by (auto simp: parse_id_list_file_id_from_blob_path_def Let_def dest: set_takeWhileD
          split: option.splits if_splits)
    then have "hd (split_on CHR ''/'' f) = f" by (simp add: split_on_fresh)
    then show ?thesis
      using \<open>f \<noteq> []\<close> strip_prefix_append [of "''/v1/download_id_list_file/''" f]
      by (simp only: parse_id_list_file_id_def option.case Let_def if_False)
  qed
  from assms obtain e where e: "e \<in> set entries" and
    c: "request_context_from_manifest_url parse_url (rc_sdk_key rc) (me_url e) (me_size e) = Some c"
    and fresh: "\<not> is_fresh_enough c files" and pre: "rc_path rc = V1GetIdLists"
      "rsp_result_type rsp = DataAvailable"
    by (auto simp: refresh_observer_update_def download_request_contexts_from_manifest_def
        map_filter_def split: if_splits)
  from c obtain p f where f: "parse_id_list_file_id p = Some f"
    and rc: "rc_sdk_key c = rc_sdk_key rc" "rc_path c = V1DownloadIdListFile" "rc_range_start c = Some 0"
      "rc_id_list_size c = Some (me_size e)" "rc_raw_path c = Some p" "rc_file_id c = Some f"
    by (auto simp: request_context_from_manifest_url_def with_id_list_request_def
        with_raw_request_def rc_new_def dest: blob split: option.splits prod.splits)
  show ?thesis
  proof (intro conjI)
    show "\<exists>p. rc_raw_path c = Some p \<and> path_from p = V1DownloadIdListFile
          \<and> parse_id_list_file_id p = rc_file_id c"
      using rc f route by (intro exI [of _ p]) simp
  qed (use pre rc fresh e in auto)
qed

definition sample_idlists_rc :: AuthorizedRequestContext where
  "sample_idlists_rc = rc_new ''secret-1'' V1GetIdLists []"

definition sample_entry :: IdListManifestEntry where
  "sample_entry =
     \<lparr>me_name = ''vip'', me_size = 30, me_url = ''https://blob/idlists/f9'', me_creation_time = 1,
      me_file_id = ''f9''\<rparr>"

theorem refresh_contexts_sound_witness:
  "\<exists>c. refresh_observer_update (\<lambda>u. Some (drop 12 u, None)) sample_idlists_rc
         (sample_spec DataAvailable 0 []) (Inr [sample_entry]) (\<lambda>_. None) = [c]
     \<and> rc_file_id c = Some ''f9''"
proof -
  have blob: "parse_id_list_file_id_from_blob_path ''/idlists/f9'' = Some ''f9''"
    by (simp add: parse_id_list_file_id_from_blob_path_def strip_prefix_def starts_with_def)
  have none: "parse_id_list_file_id ''/idlists/f9'' = None"
    by (simp add: parse_id_list_file_id_def strip_prefix_def starts_with_def)
  obtain c where c: "refresh_observer_update (\<lambda>u. Some (drop 12 u, None)) sample_idlists_rc
         (sample_spec DataAvailable 0 []) (Inr [sample_entry]) (\<lambda>_. None) = [c]"
    and f: "rc_file_id c = Some ''f9''"
    by (simp add: refresh_observer_update_def sample_idlists_rc_def rc_new_def sample_spec_def
        download_request_contexts_from_manifest_def map_filter_def sample_entry_def
        request_context_from_manifest_url_def blob none with_id_list_request_def
        with_raw_request_def is_fresh_enough_def get_cached_hit_def get_stored_body_def)
  have "c \<in> set (refresh_observer_update (\<lambda>u. Some (drop 12 u, None)) sample_idlists_rc
         (sample_spec DataAvailable 0 []) (Inr [sample_entry]) (\<lambda>_. None))" using c by simp
  from refresh_contexts_sound [OF this] c f show ?thesis by blast
qed

section \<open>The gauge of the oldest spec\<close>

definition lcuts_of ::
  "string \<times> NormalizedPath \<Rightarrow> (AuthorizedRequestContext \<times> u64) list \<Rightarrow> u64 set" where
  "lcuts_of k es = {l. \<exists>rc. (rc, l) \<in> set es \<and> (rc_sdk_key rc, rc_path rc) = k}"

lemma finite_lcuts_of: "finite (lcuts_of k es)"
  unfolding lcuts_of_def by (rule finite_subset [of _ "snd ` set es"]) force+

lemma lcuts_of_snoc:
  "lcuts_of k (es @ [(rc, l)]) =
     (if (rc_sdk_key rc, rc_path rc) = k then insert l (lcuts_of k es) else lcuts_of k es)"
  by (auto simp: lcuts_of_def)

lemma lcut_group_Min:
  "foldl lcut_group (\<lambda>_. None) es k =
     (if lcuts_of k es = {} then None else Some (Min (lcuts_of k es)))"
proof (induction es rule: rev_induct)
  case Nil
  then show ?case by (simp add: lcuts_of_def)
next
  case (snoc x es)
  obtain rc l where x: "x = (rc, l)" by (cases x)
  show ?case
  proof (cases "lcuts_of k es = {}")
    case True
    then show ?thesis using snoc.IH
      by (cases "(rc_sdk_key rc, rc_path rc) = k") (auto simp: x lcuts_of_snoc lcut_group_def Let_def)
  next
    case False
    then show ?thesis using snoc.IH finite_lcuts_of [of k es]
      by (cases "(rc_sdk_key rc, rc_path rc) = k")
         (auto simp: x lcuts_of_snoc lcut_group_def Let_def min.commute)
  qed
qed

text \<open>
  Whatever the order in which the store is iterated, the gauge of an SDK key and path is the
  least time stamp among its entries, clamped to \<open>i64\<close>, and there is a gauge exactly when
  there is an entry.
\<close>

theorem current_lcut_is_min:
  "current_lcut_events es k =
     (if lcuts_of k es = {} then None
      else Some (min (int (unat (Min (lcuts_of k es)))) (2 ^ 63 - 1)))"
  by (simp add: current_lcut_events_def lcut_group_Min)

end
