(* ===== verification/IdListSchema.thy ===== *)
theory IdListSchema
  imports Stores
begin

text \<open>
  The Redis schema of the id-list index: \<open>idlist_membership/schema.rs\<close>, \<open>apply_key_prefix\<close> of
  \<open>caching/redis_pool.rs\<close> and the option parser of \<open>idlist_membership/mod.rs\<close>. Escaping of
  components, the keys, queue entries and stored states with their parsers, and the
  dictionary of list tokens with its Lua script. SHA-256 followed by base64 is an argument.
\<close>

section \<open>Metadata and hashes\<close>

record IdListMetadata =
  md_file_id :: string
  md_creation_time :: u64
  md_url :: string
  md_size :: u64

definition metadata_of_entry :: "IdListManifestEntry \<Rightarrow> IdListMetadata" where
  "metadata_of_entry e =
     \<lparr>md_file_id = me_file_id e, md_creation_time = me_creation_time e, md_url = me_url e,
      md_size = me_size e\<rparr>"

definition hash_server_key :: "(string \<Rightarrow> string) \<Rightarrow> string \<Rightarrow> string" where
  "hash_server_key sha256_b64 key = sha256_b64 key"

definition hash_company_id :: "(string \<Rightarrow> string) \<Rightarrow> string \<Rightarrow> string" where
  "hash_company_id sha256_b64 company = take 4 (sha256_b64 company)"

definition parse_reverse_index_enabled :: "string option \<Rightarrow> bool option" where
  "parse_reverse_index_enabled v =
     (case v of
        None \<Rightarrow> Some True
      | Some s \<Rightarrow> if s = ''true'' then Some True else if s = ''false'' then Some False else None)"

section \<open>The stored state of a list\<close>

record ListSyncState =
  ls_reverse_index_disabled :: bool
  ls_version :: string
  ls_file_id :: string
  ls_url :: string
  ls_creation_time :: u64
  ls_size :: u64
  ls_cardinality :: "u64 option"
  ls_loading_cardinality :: "u64 option"
  ls_reconcile_required :: bool
  ls_loading_version :: "string option"
  ls_loading_size :: "u64 option"
  ls_diff_partition :: "u32 option"

definition list_sync_state_default :: ListSyncState where
  "list_sync_state_default =
     \<lparr>ls_reverse_index_disabled = False, ls_version = [], ls_file_id = [], ls_url = [],
      ls_creation_time = 0, ls_size = 0, ls_cardinality = None, ls_loading_cardinality = None,
      ls_reconcile_required = False, ls_loading_version = None, ls_loading_size = None,
      ls_diff_partition = None\<rparr>"

definition show_u32 :: "u32 \<Rightarrow> string" where
  "show_u32 w = show_nat (unat w)"

definition opt_field :: "string \<Rightarrow> ('a \<Rightarrow> string) \<Rightarrow> 'a option \<Rightarrow> (string \<times> string) list" where
  "opt_field name pr v = (case v of None \<Rightarrow> [] | Some x \<Rightarrow> [(name, pr x)])"

definition to_hash_fields :: "ListSyncState \<Rightarrow> (string \<times> string) list" where
  "to_hash_fields s =
     [(''version'', ls_version s), (''file_id'', ls_file_id s), (''url'', ls_url s),
      (''creation_time'', show_u64 (ls_creation_time s)), (''size'', show_u64 (ls_size s))]
     @ (if ls_reverse_index_disabled s then [(''__reverse_index_disabled'', ''1'')] else [])
     @ opt_field ''cardinality'' show_u64 (ls_cardinality s)
     @ opt_field ''loading_cardinality'' show_u64 (ls_loading_cardinality s)
     @ (if ls_reconcile_required s then [(''reconcile_required'', ''1'')] else [])
     @ opt_field ''loading_version'' (\<lambda>v. v) (ls_loading_version s)
     @ opt_field ''loading_size'' show_u64 (ls_loading_size s)
     @ opt_field ''diff_partition'' show_u32 (ls_diff_partition s)"

definition unwrap_or :: "'a \<Rightarrow> 'a option \<Rightarrow> 'a" where
  "unwrap_or d v = (case v of None \<Rightarrow> d | Some x \<Rightarrow> x)"

definition from_hash_fields :: "(string \<Rightarrow> string option) \<Rightarrow> ListSyncState" where
  "from_hash_fields f =
     \<lparr>ls_reverse_index_disabled = (f ''__reverse_index_disabled'' \<noteq> None),
      ls_version = unwrap_or [] (f ''version''),
      ls_file_id = unwrap_or [] (f ''file_id''),
      ls_url = unwrap_or [] (f ''url''),
      ls_creation_time = unwrap_or 0 (Option.bind (f ''creation_time'') parse_u64),
      ls_size = unwrap_or 0 (Option.bind (f ''size'') parse_u64),
      ls_cardinality = Option.bind (f ''cardinality'') parse_u64,
      ls_loading_cardinality = Option.bind (f ''loading_cardinality'') parse_u64,
      ls_reconcile_required = (f ''reconcile_required'' \<noteq> None),
      ls_loading_version = f ''loading_version'',
      ls_loading_size = Option.bind (f ''loading_size'') parse_u64,
      ls_diff_partition = Option.bind (f ''diff_partition'') parse_u32\<rparr>"

section \<open>Escaping\<close>

fun escape_component :: "string \<Rightarrow> string" where
  "escape_component [] = []"
| "escape_component (c # cs) =
     (if c = CHR ''%'' then ''%25'' else if c = CHR '':'' then ''%3A'' else [c]) @ escape_component cs"

fun unescape_component :: "string \<Rightarrow> string option" where
  "unescape_component [] = Some []"
| "unescape_component (c # cs) =
     (if c = CHR ''%'' then
        (if take 2 cs = ''25'' then map_option ((#) CHR ''%'') (unescape_component (drop 2 cs))
         else if take 2 cs = ''3A'' then map_option ((#) CHR '':'') (unescape_component (drop 2 cs))
         else None)
      else map_option ((#) c) (unescape_component cs))"

section \<open>Keys\<close>

definition apply_key_prefix :: "string \<Rightarrow> string \<Rightarrow> string" where
  "apply_key_prefix pre0 key =
     (let pre = trim pre0 in
      if pre = [] then key
      else if ends_with pre '':'' then pre @ key
      else pre @ '':'' @ key)"

definition dict_key :: "string \<Rightarrow> string \<Rightarrow> string" where
  "dict_key pre skh = apply_key_prefix pre (''idlist::dict::'' @ skh)"

definition member_key :: "string \<Rightarrow> string \<Rightarrow> string \<Rightarrow> string" where
  "member_key pre skh lookup = apply_key_prefix pre (''i:'' @ skh @ escape_component lookup)"

definition fwd_hash_tag :: "string \<Rightarrow> string \<Rightarrow> string" where
  "fwd_hash_tag skh list = ''{'' @ skh @ ''::'' @ escape_component list @ ''}''"

definition fwd_key :: "string \<Rightarrow> string \<Rightarrow> string \<Rightarrow> string \<Rightarrow> string" where
  "fwd_key pre skh list ver =
     apply_key_prefix pre (''idlist::fwd::'' @ fwd_hash_tag skh list @ ''::'' @ escape_component ver)"

definition state_key :: "string \<Rightarrow> string \<Rightarrow> string \<Rightarrow> string" where
  "state_key pre skh list =
     apply_key_prefix pre (''idlist::'' @ skh @ ''::'' @ escape_component list @ ''::state'')"

definition claim_key :: "string \<Rightarrow> string \<Rightarrow> string \<Rightarrow> string" where
  "claim_key pre skh list =
     apply_key_prefix pre (''idlist::claim::'' @ skh @ ''::'' @ escape_component list)"

definition queue_key :: "string \<Rightarrow> string" where
  "queue_key pre = apply_key_prefix pre ''idlist::queue::pending''"

definition task_meta_key :: "string \<Rightarrow> string \<Rightarrow> string \<Rightarrow> string" where
  "task_meta_key pre skh list =
     apply_key_prefix pre (''idlist::task_meta::'' @ skh @ ''::'' @ escape_component list)"

definition all_lists_key :: "string \<Rightarrow> string \<Rightarrow> string" where
  "all_lists_key pre skh = apply_key_prefix pre (''idlist::'' @ skh @ ''::__all'')"

definition ready_key :: "string \<Rightarrow> string \<Rightarrow> string" where
  "ready_key pre skh = apply_key_prefix pre (''idlist::'' @ skh @ ''::__ready'')"

definition producer_lock_key :: "string \<Rightarrow> string" where
  "producer_lock_key pre = apply_key_prefix pre ''idlist::producer_lock''"

definition version_tag :: "IdListMetadata \<Rightarrow> string" where
  "version_tag m =
     (if md_file_id m = [] then show_u64 (md_creation_time m)
      else md_file_id m @ ''@'' @ show_u64 (md_creation_time m))"

definition encode_task :: "string \<times> string \<Rightarrow> string" where
  "encode_task t = fst t @ ''::'' @ escape_component (snd t)"

definition decode_task :: "string \<Rightarrow> (string \<times> string) option" where
  "decode_task m =
     (case split_once2 CHR '':'' m of
        None \<Rightarrow> None
      | Some (skh, rest) \<Rightarrow> map_option (\<lambda>list. (skh, list)) (unescape_component rest))"

section \<open>The dictionary of tokens\<close>

text \<open>
  A Redis hash is a map from fields to values. \<open>HINCRBY\<close> counts an absent field as 0, keeps
  canonical decimal integers of 64 bits and otherwise fails.
\<close>

type_synonym redis_hash = "string \<Rightarrow> string option"

definition show_int :: "int \<Rightarrow> string" where
  "show_int i = (if i < 0 then ''-'' @ show_nat (nat (- i)) else show_nat (nat i))"

definition redis_integer :: "string \<Rightarrow> int option" where
  "redis_integer s =
     (let i = (case s of [] \<Rightarrow> 0 | c # cs \<Rightarrow>
                 if c = CHR ''-'' then - int (digits_value cs) else int (digits_value s))
      in if show_int i = s \<and> - (2 ^ 63) \<le> i \<and> i < 2 ^ 63 then Some i else None)"

definition hincrby :: "string \<Rightarrow> int \<Rightarrow> redis_hash \<Rightarrow> (int \<times> redis_hash) option" where
  "hincrby f d h =
     (case (case h f of None \<Rightarrow> Some 0 | Some s \<Rightarrow> redis_integer s) of
        None \<Rightarrow> None
      | Some i \<Rightarrow>
          if i + d < 2 ^ 63 \<and> - (2 ^ 63) \<le> i + d then Some (i + d, h(f \<mapsto> show_int (i + d))) else None)"

datatype dict_error = ScriptError | TokenNotInteger

definition name_field :: "string \<Rightarrow> string" where
  "name_field list = ''n:'' @ list"

definition token_field :: "u64 \<Rightarrow> string" where
  "token_field t = ''t:'' @ show_u64 t"

definition alloc_token_script ::
  "string \<Rightarrow> string \<Rightarrow> string \<Rightarrow> redis_hash \<Rightarrow> (dict_error + string) \<times> redis_hash" where
  "alloc_token_script nf list counter h =
     (case h nf of
        Some existing \<Rightarrow> (Inr existing, h)
      | None \<Rightarrow>
          (case hincrby counter 1 h of
             None \<Rightarrow> (Inl ScriptError, h)
           | Some (token, h1) \<Rightarrow>
               (Inr (show_int token),
                h1(nf \<mapsto> show_int token, (''t:'' @ show_int token) \<mapsto> list))))"

definition get_or_allocate_token :: "string \<Rightarrow> redis_hash \<Rightarrow> (dict_error + u64) \<times> redis_hash" where
  "get_or_allocate_token list h =
     (case alloc_token_script (name_field list) list ''__counter'' h of
        (Inl e, h') \<Rightarrow> (Inl e, h')
      | (Inr t, h') \<Rightarrow>
          (case parse_u64 t of None \<Rightarrow> (Inl TokenNotInteger, h') | Some n \<Rightarrow> (Inr n, h')))"

definition get_token :: "string \<Rightarrow> redis_hash \<Rightarrow> dict_error + u64 option" where
  "get_token list h =
     (case h (name_field list) of
        None \<Rightarrow> Inr None
      | Some t \<Rightarrow> (case parse_u64 t of None \<Rightarrow> Inl TokenNotInteger | Some n \<Rightarrow> Inr (Some n)))"

record DictSnapshot =
  name_to_token :: "string \<Rightarrow> u64 option"
  token_to_name :: "u64 \<Rightarrow> string option"

definition snapshot_field :: "DictSnapshot \<Rightarrow> string \<times> string \<Rightarrow> DictSnapshot" where
  "snapshot_field snap fv =
     (case fv of (field, val) \<Rightarrow>
        (case strip_prefix field ''n:'' of
           Some name \<Rightarrow>
             (case parse_u64 val of
                Some t \<Rightarrow> snap\<lparr>name_to_token := (name_to_token snap)(name \<mapsto> t)\<rparr>
              | None \<Rightarrow> snap)
         | None \<Rightarrow>
             (case strip_prefix field ''t:'' of
                Some ts \<Rightarrow>
                  (case parse_u64 ts of
                     Some t \<Rightarrow> snap\<lparr>token_to_name := (token_to_name snap)(t \<mapsto> val)\<rparr>
                   | None \<Rightarrow> snap)
              | None \<Rightarrow> snap)))"

text \<open>\<open>snapshot\<close> on the fields of the hash, in the order in which the reply lists them.\<close>

definition dict_snapshot :: "(string \<times> string) list \<Rightarrow> DictSnapshot" where
  "dict_snapshot fvs =
     foldl snapshot_field \<lparr>name_to_token = (\<lambda>_. None), token_to_name = (\<lambda>_. None)\<rparr> fvs"

section \<open>Escaping and queue entries\<close>

lemma unescape_escape: "unescape_component (escape_component s) = Some s"
  by (induction s) auto

interpretation esc: text_codec escape_component unescape_component "\<lambda>_. True"
  by unfold_locales (rule unescape_escape)

lemma escape_no_colon: "CHR '':'' \<notin> set (escape_component s)"
  by (induction s) auto

definition namespace_ok :: "string \<Rightarrow> bool" where
  "namespace_ok skh \<longleftrightarrow> length skh = 4 \<and> CHR '':'' \<notin> set skh"

lemma decode_encode_task: "CHR '':'' \<notin> set skh \<Longrightarrow> decode_task (encode_task (skh, list)) = Some (skh, list)"
  by (simp add: decode_task_def encode_task_def split_once2_append unescape_escape)

interpretation task: text_codec encode_task decode_task "\<lambda>t. CHR '':'' \<notin> set (fst t)"
  by unfold_locales (metis decode_encode_task prod.collapse)

text \<open>
  Queue entries round-trip: an entry built for a namespace without colons and any list name,
  colons and percent signs included, decodes to exactly this namespace and name, so different
  lists never share an entry.
\<close>

theorem task_roundtrip:
  assumes "CHR '':'' \<notin> set skh" and "CHR '':'' \<notin> set skh'"
  shows "decode_task (encode_task (skh, list)) = Some (skh, list)
    \<and> (encode_task (skh, list) = encode_task (skh', list') \<longleftrightarrow> skh = skh' \<and> list = list')"
  using assms decode_encode_task task.encode_eq_iff [of "(skh, list)" "(skh', list')"] by simp

theorem task_roundtrip_witness:
  "decode_task (encode_task (''AbC/'', ''a::b%'')) = Some (''AbC/'', ''a::b%'')"
  using task_roundtrip [of "''AbC/''" "''AbC/''" "''a::b%''" "''a::b%''"] by simp

section \<open>Stored states\<close>

lemma parse_u32_show_u32: "parse_u32 (show_u32 w) = Some w"
proof -
  have "unat w < 2 ^ 32" using unsigned_less [of w] by simp
  then show ?thesis by (simp add: parse_u32_def show_u32_def parse_uint_show_nat)
qed

lemma map_of_opt_field_last:
  "map_of (opt_field n pr v) k = (if k = n then map_option pr v else None)"
  by (simp add: opt_field_def split: option.splits)

text \<open>
  A stored sync state is read back exactly: writing its fields to an empty hash and reading
  the hash gives the same state, absent optional fields included.
\<close>

theorem list_sync_state_roundtrip: "from_hash_fields (map_of (to_hash_fields s)) = s"
proof -
  have opt: "Option.bind (map_option show_u64 v) parse_u64 = v"
    "Option.bind (map_option show_u32 p) parse_u32 = p" for v p
    by (cases v, simp_all add: parse_u64_show_u64) (cases p, simp_all add: parse_u32_show_u32)
  have get: "map_of (to_hash_fields s) k =
    (if k = ''version'' then Some (ls_version s)
     else if k = ''file_id'' then Some (ls_file_id s)
     else if k = ''url'' then Some (ls_url s)
     else if k = ''creation_time'' then Some (show_u64 (ls_creation_time s))
     else if k = ''size'' then Some (show_u64 (ls_size s))
     else if k = ''__reverse_index_disabled'' then (if ls_reverse_index_disabled s then Some ''1'' else None)
     else if k = ''cardinality'' then map_option show_u64 (ls_cardinality s)
     else if k = ''loading_cardinality'' then map_option show_u64 (ls_loading_cardinality s)
     else if k = ''reconcile_required'' then (if ls_reconcile_required s then Some ''1'' else None)
     else if k = ''loading_version'' then ls_loading_version s
     else if k = ''loading_size'' then map_option show_u64 (ls_loading_size s)
     else if k = ''diff_partition'' then map_option show_u32 (ls_diff_partition s)
     else None)" for k
    by (auto simp: to_hash_fields_def map_add_def map_of_opt_field_last option.map_ident
        split: option.splits)
  show ?thesis
    by (simp add: from_hash_fields_def get opt unwrap_or_def parse_u64_show_u64)
qed

section \<open>No two objects share a key\<close>

text \<open>The objects that the index keeps in Redis, and the key of each.\<close>

datatype index_object =
    Dict string | Member string string | Fwd string string string | SyncState string string
  | Claim string string | Queue | TaskMeta string string | AllLists string | Ready string
  | ProducerLock

fun object_key :: "string \<Rightarrow> index_object \<Rightarrow> string" where
  "object_key pre (Dict skh) = dict_key pre skh"
| "object_key pre (Member skh i) = member_key pre skh i"
| "object_key pre (Fwd skh l v) = fwd_key pre skh l v"
| "object_key pre (SyncState skh l) = state_key pre skh l"
| "object_key pre (Claim skh l) = claim_key pre skh l"
| "object_key pre Queue = queue_key pre"
| "object_key pre (TaskMeta skh l) = task_meta_key pre skh l"
| "object_key pre (AllLists skh) = all_lists_key pre skh"
| "object_key pre (Ready skh) = ready_key pre skh"
| "object_key pre ProducerLock = producer_lock_key pre"

fun object_ok :: "index_object \<Rightarrow> bool" where
  "object_ok (Dict skh) = namespace_ok skh"
| "object_ok (Member skh i) = namespace_ok skh"
| "object_ok (Fwd skh l v) = namespace_ok skh"
| "object_ok (SyncState skh l) = namespace_ok skh"
| "object_ok (Claim skh l) = namespace_ok skh"
| "object_ok Queue = True"
| "object_ok (TaskMeta skh l) = namespace_ok skh"
| "object_ok (AllLists skh) = namespace_ok skh"
| "object_ok (Ready skh) = namespace_ok skh"
| "object_ok ProducerLock = True"

text \<open>Every key but the members' is a list of colon-free parts, joined by double colons.\<close>

fun object_parts :: "index_object \<Rightarrow> string list" where
  "object_parts (Dict skh) = [''idlist'', ''dict'', skh]"
| "object_parts (Member skh i) = []"
| "object_parts (Fwd skh l v) =
     [''idlist'', ''fwd'', ''{'' @ skh, escape_component l @ ''}'', escape_component v]"
| "object_parts (SyncState skh l) = [''idlist'', skh, escape_component l, ''state'']"
| "object_parts (Claim skh l) = [''idlist'', ''claim'', skh, escape_component l]"
| "object_parts Queue = [''idlist'', ''queue'', ''pending'']"
| "object_parts (TaskMeta skh l) = [''idlist'', ''task_meta'', skh, escape_component l]"
| "object_parts (AllLists skh) = [''idlist'', skh, ''__all'']"
| "object_parts (Ready skh) = [''idlist'', skh, ''__ready'']"
| "object_parts ProducerLock = [''idlist'', ''producer_lock'']"

lemma apply_key_prefix_inject [simp]:
  "apply_key_prefix pre a = apply_key_prefix pre b \<longleftrightarrow> a = b"
  by (simp add: apply_key_prefix_def Let_def)

lemmas key_defs = dict_key_def member_key_def fwd_key_def fwd_hash_tag_def state_key_def claim_key_def
  queue_key_def task_meta_key_def all_lists_key_def ready_key_def producer_lock_key_def

lemma object_key_parts:
  "(\<forall>skh i. ob \<noteq> Member skh i) \<Longrightarrow> object_key pre ob = apply_key_prefix pre (join ''::'' (object_parts ob))"
  by (cases ob) (simp_all add: key_defs)

lemma parts_no_colon: "object_ok ob \<Longrightarrow> p \<in> set (object_parts ob) \<Longrightarrow> CHR '':'' \<notin> set p"
  by (cases ob) (auto simp: namespace_ok_def escape_no_colon)

lemma join_colons_inject:
  assumes "\<forall>p \<in> set ps. CHR '':'' \<notin> set p" "\<forall>q \<in> set qs. CHR '':'' \<notin> set q"
    and "ps \<noteq> []" "qs \<noteq> []" and "join ''::'' ps = join ''::'' qs"
  shows "ps = qs"
  using assms
proof (induction ps arbitrary: qs)
  case (Cons p ps)
  then obtain q qs' where qs: "qs = q # qs'" by (cases qs) auto
  have tail: "join ''::'' (x # xs) = x @ (if xs = [] then [] else ''::'' @ join ''::'' xs)" for x xs
    by (cases xs) auto
  have eq: "p @ (if ps = [] then [] else ''::'' @ join ''::'' ps)
          = q @ (if qs' = [] then [] else ''::'' @ join ''::'' qs')"
    using Cons.prems(5) unfolding qs tail .
  have tw: "takeWhile (\<lambda>c. c \<noteq> CHR '':'') (a @ (if b then [] else ''::'' @ r)) = a"
    if "CHR '':'' \<notin> set a" for a r :: string and b
  proof -
    have "\<forall>c \<in> set a. c \<noteq> CHR '':''" using that by auto
    then show ?thesis by (simp add: takeWhile_append2)
  qed
  have pq: "p = q"
    using arg_cong [OF eq, of "takeWhile (\<lambda>c. c \<noteq> CHR '':'')"] Cons.prems(1,2) qs by (simp only: tw) (simp add: tw)
  with eq have rest: "(if ps = [] then [] else ''::'' @ join ''::'' ps)
          = (if qs' = [] then [] else ''::'' @ join ''::'' qs')" by simp
  show ?case
  proof (cases "ps = [] \<or> qs' = []")
    case True
    then show ?thesis using rest pq qs by (auto split: if_splits)
  next
    case False
    then have "join ''::'' ps = join ''::'' qs'" using rest by simp
    then show ?thesis using Cons.IH [of qs'] Cons.prems(1,2) qs False pq by auto
  qed
qed simp

lemma object_parts_inject:
  assumes "object_ok a" "object_ok b" "object_parts a = object_parts b"
    and "\<forall>skh i. a \<noteq> Member skh i" "\<forall>skh i. b \<noteq> Member skh i"
  shows "a = b"
proof -
  have inj: "escape_component x = escape_component y \<longleftrightarrow> x = y" for x y
    using esc.encode_eq_iff by simp
  show ?thesis using assms by (cases a; cases b) (auto simp: namespace_ok_def inj)
qed

lemma member_key_inject:
  assumes "namespace_ok s" "namespace_ok t"
  shows "member_key pre s i = member_key pre t j \<longleftrightarrow> s = t \<and> i = j"
  using assms esc.encode_eq_iff [of i j] by (auto simp: member_key_def namespace_ok_def)

lemma member_key_apart:
  assumes "\<forall>skh i. b \<noteq> Member skh i"
  shows "member_key pre s i \<noteq> object_key pre b"
  unfolding object_key_parts [OF assms] member_key_def apply_key_prefix_inject
  using assms by (cases b) simp_all

lemma object_key_eq:
  assumes "object_ok a" and "object_ok b"
  shows "object_key pre a = object_key pre b \<longleftrightarrow> a = b"
proof
  assume eq: "object_key pre a = object_key pre b"
  show "a = b"
  proof (cases "(\<exists>skh i. a = Member skh i) \<or> (\<exists>skh i. b = Member skh i)")
    case True
    then show ?thesis
      using eq assms member_key_inject member_key_apart [of b] member_key_apart [of a]
      by (metis object_key.simps(2) object_ok.simps(2))
  next
    case False
    then have na: "\<forall>skh i. a \<noteq> Member skh i" and nb: "\<forall>skh i. b \<noteq> Member skh i" by auto
    have "object_parts a \<noteq> []" "object_parts b \<noteq> []" using na nb by (cases a; cases b; simp)+
    with eq have "object_parts a = object_parts b"
      unfolding object_key_parts [OF na] object_key_parts [OF nb] apply_key_prefix_inject
      using join_colons_inject parts_no_colon assms by blast
    then show ?thesis using object_parts_inject assms na nb by blast
  qed
qed simp

text \<open>
  C38: the key schema is free of collisions: under one prefix, two objects of the index
  (dictionaries, member sets, forward sets, states, claims, queue, task metadata, list sets,
  readiness marks, producer lock) have the same Redis key only when they are the same object,
  for every list name, version and member id and all four-character namespaces without
  colons.
\<close>

theorem object_key_injective:
  assumes "object_ok a" and "object_ok b"
  shows "object_key pre a = object_key pre b \<longleftrightarrow> a = b"
  using assms by (rule object_key_eq)

theorem object_key_injective_witness:
  "object_key ''sfp'' (Claim ''abcd'' ''x::state'') \<noteq> object_key ''sfp'' (SyncState ''abcd'' ''x'')
   \<and> object_key [] (Dict ''dict'') \<noteq> object_key [] (Ready ''dict'')"
  using object_key_injective [of "Claim ''abcd'' ''x::state''" "SyncState ''abcd'' ''x''" "''sfp''"]
    object_key_injective [of "Dict ''dict''" "Ready ''dict''" "[]"]
  by (simp add: namespace_ok_def)

section \<open>Version tags\<close>

lemma at_not_in_show_u64: "CHR ''@'' \<notin> set (show_u64 n)"
  using show_u64_digits by (auto simp: is_digit_def dest!: show_u64_digits)

text \<open>
  The version tag tells versions apart: two snapshots of a list have the same tag exactly
  when they have the same file id and creation time, whatever characters the file id has.
\<close>

theorem version_tag_injective:
  "version_tag m = version_tag m' \<longleftrightarrow>
     md_file_id m = md_file_id m' \<and> md_creation_time m = md_creation_time m'"
proof (cases "md_file_id m = [] \<or> md_file_id m' = []")
  case True
  have "show_u64 a \<noteq> f @ ''@'' @ show_u64 b" for a b f
  proof
    assume "show_u64 a = f @ ''@'' @ show_u64 b"
    then have "CHR ''@'' \<in> set (show_u64 a)" by simp
    then show False using at_not_in_show_u64 by blast
  qed
  then show ?thesis using True by (auto simp: version_tag_def) metis+
next
  case False
  have split: "rsplit_once CHR ''@'' (f @ ''@'' @ show_u64 n) = Some (f, show_u64 n)" for f n
    using rsplit_once_append [of "CHR ''@''" "show_u64 n" f] at_not_in_show_u64 [of n] by simp
  have "f @ ''@'' @ show_u64 n = g @ ''@'' @ show_u64 k \<longleftrightarrow> f = g \<and> n = k" for f g n k
    using split [of f n] split [of g k] by (metis option.inject prod.inject show_u64_inject)
  then show ?thesis using False by (simp add: version_tag_def)
qed

section \<open>Tokens\<close>

text \<open>
  The dictionary of a namespace under any sequence of allocations, and of the mark that the
  worker sets when the reverse index is off.
\<close>

inductive dict_reachable :: "redis_hash \<Rightarrow> bool" where
  empty: "dict_reachable (\<lambda>_. None)"
| alloc: "dict_reachable h \<Longrightarrow> get_or_allocate_token l h = (r, h') \<Longrightarrow> dict_reachable h'"
| disable: "dict_reachable h \<Longrightarrow> dict_reachable (h(''__reverse_index_disabled'' \<mapsto> ''1''))"

definition tfield :: "nat \<Rightarrow> string" where
  "tfield t = ''t:'' @ show_nat t"

definition dict_inv :: "nat \<Rightarrow> redis_hash \<Rightarrow> bool" where
  "dict_inv c h \<longleftrightarrow> c < 2 ^ 63
     \<and> h ''__counter'' = (if c = 0 then None else Some (show_nat c))
     \<and> (\<forall>l v. h (name_field l) = Some v \<longrightarrow>
          (\<exists>t. 1 \<le> t \<and> t \<le> c \<and> v = show_nat t \<and> h (tfield t) = Some l))
     \<and> (\<forall>ts l. h (''t:'' @ ts) = Some l \<longrightarrow>
          (\<exists>t. 1 \<le> t \<and> t \<le> c \<and> ts = show_nat t \<and> h (name_field l) = Some (show_nat t)))"

lemma show_int_nat [simp]: "show_int (int n) = show_nat n"
  by (simp add: show_int_def)

lemma redis_integer_show_nat: "n < 2 ^ 63 \<Longrightarrow> redis_integer (show_nat n) = Some (int n)"
proof -
  assume n: "n < 2 ^ 63"
  obtain c cs where s: "show_nat n = c # cs" by (cases "show_nat n") auto
  with show_nat_digits [of n] have "is_digit c" by simp
  then have "c \<noteq> CHR ''-''" by (auto simp: is_digit_def)
  moreover have "int n < 2 ^ 63" using n by simp
  moreover have "digits_value (c # cs) = n" using s digits_value_show_nat [of n] by simp
  ultimately show ?thesis using s by (simp add: redis_integer_def)
qed

lemma dict_fields_apart [simp]:
  "name_field l \<noteq> ''__counter''" "''__counter'' \<noteq> name_field l"
  "name_field l \<noteq> tfield t" "tfield t \<noteq> name_field l"
  "tfield t \<noteq> ''__counter''" "''__counter'' \<noteq> tfield t"
  "name_field l \<noteq> CHR ''t'' # cs" "CHR ''t'' # cs \<noteq> name_field l"
  "name_field l \<noteq> ''__reverse_index_disabled''" "tfield t \<noteq> ''__reverse_index_disabled''"
  by (simp_all add: name_field_def tfield_def)

lemma name_field_inject [simp]: "name_field a = name_field b \<longleftrightarrow> a = b"
  by (simp add: name_field_def)

lemma tfield_inject [simp]: "tfield a = tfield b \<longleftrightarrow> a = b"
  by (simp add: tfield_def)

lemma parse_u64_show_nat: "n < 2 ^ 63 \<Longrightarrow> parse_u64 (show_nat n) = Some (of_nat n)"
  by (simp add: parse_u64_def parse_uint_show_nat)

lemma dict_inv_token:
  "dict_inv c h \<Longrightarrow> h (name_field l) = Some v \<Longrightarrow> \<exists>t. 1 \<le> t \<and> t \<le> c \<and> v = show_nat t \<and> h (tfield t) = Some l"
  by (auto simp: dict_inv_def)

lemma alloc_script_new:
  assumes "dict_inv c h" "h (name_field l) = None" "Suc c < 2 ^ 63"
  shows "alloc_token_script (name_field l) l ''__counter'' h =
    (Inr (show_nat (Suc c)),
     h(''__counter'' \<mapsto> show_nat (Suc c), name_field l \<mapsto> show_nat (Suc c), tfield (Suc c) \<mapsto> l))"
proof -
  have c: "(case h ''__counter'' of None \<Rightarrow> Some 0 | Some s \<Rightarrow> redis_integer s) = Some (int c)"
    using assms(1,3) by (auto simp: dict_inv_def redis_integer_show_nat)
  have suc: "int c + 1 = int (Suc c)" "int (Suc c) < 2 ^ 63" "- (2 ^ 63) \<le> int (Suc c)"
    using assms(3) by simp_all
  have "hincrby ''__counter'' 1 h = Some (int (Suc c), h(''__counter'' \<mapsto> show_nat (Suc c)))"
    unfolding hincrby_def c option.case suc(1) using suc(2,3) by (simp only: show_int_nat) simp
  then show ?thesis using assms(2)
    by (simp only: alloc_token_script_def option.case prod.case show_int_nat tfield_def)
qed

lemma alloc_script_full:
  assumes "dict_inv c h" "h (name_field l) = None" "\<not> Suc c < 2 ^ 63"
  shows "alloc_token_script (name_field l) l ''__counter'' h = (Inl ScriptError, h)"
proof -
  have c: "c = 2 ^ 63 - 1" using assms(1,3) by (simp add: dict_inv_def)
  then have "h ''__counter'' = Some (show_nat c)" using assms(1) by (simp add: dict_inv_def)
  moreover have "redis_integer (show_nat c) = Some (int c)"
    by (rule redis_integer_show_nat) (use assms(1) in \<open>simp add: dict_inv_def\<close>)
  moreover have "\<not> int c + 1 < 2 ^ 63" using c by simp
  ultimately show ?thesis using assms(2) by (simp add: alloc_token_script_def hincrby_def)
qed

lemma dict_inv_alloc:
  assumes inv: "dict_inv c h" and fresh: "h (name_field l) = None" and c: "Suc c < 2 ^ 63"
  shows "dict_inv (Suc c)
    (h(''__counter'' \<mapsto> show_nat (Suc c), name_field l \<mapsto> show_nat (Suc c), tfield (Suc c) \<mapsto> l))"
  (is "dict_inv _ ?h")
proof -
  have names: "\<exists>t. 1 \<le> t \<and> t \<le> Suc c \<and> v = show_nat t \<and> ?h (tfield t) = Some k"
    if "?h (name_field k) = Some v" for k v
  proof (cases "k = l")
    case True
    then show ?thesis using that by (intro exI [of _ "Suc c"]) simp
  next
    case False
    then have "h (name_field k) = Some v" using that by simp
    from dict_inv_token [OF inv this] obtain t where "1 \<le> t" "t \<le> c" "v = show_nat t" "h (tfield t) = Some k"
      by blast
    then show ?thesis by (intro exI [of _ t]) simp
  qed
  have toks: "\<exists>t. 1 \<le> t \<and> t \<le> Suc c \<and> ts = show_nat t \<and> ?h (name_field k) = Some (show_nat t)"
    if "?h (''t:'' @ ts) = Some k" for ts k
  proof (cases "''t:'' @ ts = tfield (Suc c)")
    case True
    then show ?thesis using that by (intro exI [of _ "Suc c"]) (auto simp: tfield_def)
  next
    case False
    then have "h (''t:'' @ ts) = Some k" using that by simp
    then obtain t where t: "1 \<le> t" "t \<le> c" "ts = show_nat t" "h (name_field k) = Some (show_nat t)"
      using inv unfolding dict_inv_def by blast
    then have "k \<noteq> l" using fresh by auto
    then show ?thesis using t by (intro exI [of _ t]) simp
  qed
  show ?thesis unfolding dict_inv_def using c names toks by (simp add: fun_upd_same)
qed

lemma get_or_allocate_cases:
  assumes inv: "dict_inv c h" and get: "get_or_allocate_token l h = (r, h')"
  obtains (known) t where "h (name_field l) = Some (show_nat t)" "1 \<le> t" "t \<le> c" "h (tfield t) = Some l"
      "r = Inr (of_nat t)" "h' = h"
  | (fresh) "h (name_field l) = None" "Suc c < 2 ^ 63" "r = Inr (of_nat (Suc c))"
      "h' = h(''__counter'' \<mapsto> show_nat (Suc c), name_field l \<mapsto> show_nat (Suc c), tfield (Suc c) \<mapsto> l)"
  | (full) "r = Inl ScriptError" "h' = h" "\<not> Suc c < 2 ^ 63"
proof (cases "h (name_field l)")
  case (Some v)
  from dict_inv_token [OF inv this] obtain t where
    t: "1 \<le> t" "t \<le> c" "v = show_nat t" "h (tfield t) = Some l" by blast
  have "t < 2 ^ 63" using t(2) inv by (simp add: dict_inv_def)
  then have "parse_u64 v = Some (of_nat t)" using t(3) parse_u64_show_nat by blast
  then have "r = Inr (of_nat t)" "h' = h"
    using get Some by (simp_all add: get_or_allocate_token_def alloc_token_script_def)
  then show ?thesis using known t Some by simp
next
  case None
  show ?thesis
  proof (cases "Suc c < 2 ^ 63")
    case True
    have "r = Inr (of_nat (Suc c))"
      "h' = h(''__counter'' \<mapsto> show_nat (Suc c), name_field l \<mapsto> show_nat (Suc c), tfield (Suc c) \<mapsto> l)"
      using get alloc_script_new [OF inv None True] parse_u64_show_nat [OF True]
      by (auto simp: get_or_allocate_token_def)
    then show ?thesis using fresh None True by blast
  next
    case False
    have "r = Inl ScriptError" "h' = h"
      using get alloc_script_full [OF inv None False] by (simp_all add: get_or_allocate_token_def)
    then show ?thesis using full False by blast
  qed
qed

lemma dict_reachable_inv: "dict_reachable h \<Longrightarrow> \<exists>c. dict_inv c h"
proof (induction rule: dict_reachable.induct)
  case empty
  show ?case by (rule exI [of _ 0]) (simp add: dict_inv_def)
next
  case (alloc h l r h')
  then obtain c where inv: "dict_inv c h" by blast
  from inv alloc.hyps(2) show ?case
  proof (cases rule: get_or_allocate_cases)
    case fresh
    then show ?thesis using dict_inv_alloc [OF inv] by blast
  qed (use inv in auto)
next
  case (disable h)
  then obtain c where "dict_inv c h" by blast
  then have "dict_inv c (h(''__reverse_index_disabled'' \<mapsto> ''1''))"
    by (simp add: dict_inv_def)
  then show ?case by blast
qed

lemma get_token_inv:
  assumes "dict_inv c h"
  shows "get_token l h = Inr (Some t) \<longleftrightarrow>
    (\<exists>n. 1 \<le> n \<and> n \<le> c \<and> t = of_nat n \<and> h (name_field l) = Some (show_nat n) \<and> h (tfield n) = Some l)"
proof
  assume "get_token l h = Inr (Some t)"
  then obtain v where v: "h (name_field l) = Some v" "parse_u64 v = Some t"
    by (auto simp: get_token_def split: option.splits)
  from dict_inv_token [OF assms v(1)] obtain n where
    n: "1 \<le> n" "n \<le> c" "v = show_nat n" "h (tfield n) = Some l" by blast
  have "n < 2 ^ 63" using n(2) assms by (simp add: dict_inv_def)
  from parse_u64_show_nat [OF this] have "t = of_nat n" using v(2) n(3) by simp
  then show "\<exists>n. 1 \<le> n \<and> n \<le> c \<and> t = of_nat n \<and> h (name_field l) = Some (show_nat n) \<and> h (tfield n) = Some l"
    using n v(1) by (intro exI [of _ n]) simp
next
  assume "\<exists>n. 1 \<le> n \<and> n \<le> c \<and> t = of_nat n \<and> h (name_field l) = Some (show_nat n) \<and> h (tfield n) = Some l"
  then obtain n where n: "n \<le> c" "t = of_nat n" "h (name_field l) = Some (show_nat n)" by blast
  have "n < 2 ^ 63" using n(1) assms by (simp add: dict_inv_def)
  from parse_u64_show_nat [OF this] show "get_token l h = Inr (Some t)"
    using n by (simp add: get_token_def)
qed

lemma of_nat_u64_inject: "a < 2 ^ 63 \<Longrightarrow> b < 2 ^ 63 \<Longrightarrow> (of_nat a :: u64) = of_nat b \<longleftrightarrow> a = b"
  by (simp add: of_nat_inverse word_of_nat_eq_iff take_bit_nat_eq_self)

lemma dict_tokens_distinct:
  assumes inv: "dict_inv c h" and "get_token a h = Inr (Some t)" "get_token b h = Inr (Some t)"
  shows "a = b"
proof -
  from assms(2) obtain m where m: "m \<le> c" "t = of_nat m" "h (tfield m) = Some a"
    unfolding get_token_inv [OF inv] by blast
  from assms(3) obtain n where n: "n \<le> c" "t = of_nat n" "h (tfield n) = Some b"
    unfolding get_token_inv [OF inv] by blast
  have "m < 2 ^ 63" "n < 2 ^ 63" using m(1) n(1) inv by (simp_all add: dict_inv_def)
  then have "m = n" using m(2) n(2) of_nat_u64_inject by metis
  then show ?thesis using m n by simp
qed


lemma dict_alloc_empty:
  "get_or_allocate_token ''vip'' (\<lambda>_. None) =
     (Inr 1, (\<lambda>_. None)(''__counter'' \<mapsto> show_nat (Suc 0), name_field ''vip'' \<mapsto> show_nat (Suc 0),
        tfield (Suc 0) \<mapsto> ''vip''))"
proof -
  have inv: "dict_inv 0 (\<lambda>_. None)" by (simp add: dict_inv_def)
  have "alloc_token_script (name_field ''vip'') ''vip'' ''__counter'' (\<lambda>_. None) =
    (Inr (show_nat (Suc 0)), (\<lambda>_. None)(''__counter'' \<mapsto> show_nat (Suc 0),
       name_field ''vip'' \<mapsto> show_nat (Suc 0), tfield (Suc 0) \<mapsto> ''vip''))"
    by (rule alloc_script_new [OF inv]) simp_all
  then show ?thesis using parse_u64_show_nat [of "Suc 0"] by (simp add: get_or_allocate_token_def)
qed


section \<open>Snapshots\<close>

lemma unat_of_nat_u64: "n < 2 ^ 63 \<Longrightarrow> unat (of_nat n :: u64) = n"
  by (simp add: unsigned_of_nat take_bit_nat_eq_self)

lemma strip_n: "strip_prefix f ''n:'' = Some n \<longleftrightarrow> f = name_field n"
  by (simp add: strip_prefix_Some name_field_def)

lemma snapshot_name_step:
  "name_to_token (snapshot_field snap (f, v)) n =
     (if f = name_field n \<and> parse_u64 v \<noteq> None then parse_u64 v else name_to_token snap n)"
proof (cases "strip_prefix f ''n:''")
  case None
  then have "f \<noteq> name_field n" using strip_n [of f n] by auto
  then show ?thesis using None by (simp add: snapshot_field_def split: option.splits)
next
  case (Some m)
  then have "f = name_field m" by (simp only: strip_n)
  then show ?thesis using Some by (auto simp: snapshot_field_def split: option.splits)
qed

lemma snapshot_names:
  "distinct (map fst fs) \<Longrightarrow>
     name_to_token (dict_snapshot fs) n = Option.bind (map_of fs (name_field n)) parse_u64"
proof (induction fs rule: rev_induct)
  case Nil
  then show ?case by (simp add: dict_snapshot_def)
next
  case (snoc fv fs)
  obtain f v where fv: "fv = (f, v)" by (cases fv)
  have step: "name_to_token (dict_snapshot (fs @ [fv])) n =
     (if f = name_field n \<and> parse_u64 v \<noteq> None then parse_u64 v else name_to_token (dict_snapshot fs) n)"
    unfolding dict_snapshot_def fv foldl_append by (simp only: foldl.simps snapshot_name_step)
  have "f \<notin> fst ` set fs" using snoc.prems fv by simp
  then have fresh: "map_of fs f = None" by (simp add: map_of_eq_None_iff)
  show ?case
    unfolding step using snoc fresh
    by (cases "f = name_field n") (auto simp: fv map_add_def split: option.splits)
qed

lemma snapshot_token_step:
  assumes "\<And>ts. f = ''t:'' @ ts \<Longrightarrow> \<exists>n < 2 ^ 63. ts = show_nat n"
  shows "token_to_name (snapshot_field snap (f, v)) t =
     (if f = token_field t then Some v else token_to_name snap t)"
proof (cases "strip_prefix f ''n:''")
  case (Some n)
  then have "f \<noteq> token_field t" by (auto simp: strip_n token_field_def name_field_def)
  then show ?thesis using Some by (simp add: snapshot_field_def split: option.splits)
next
  case no_n: None
  show ?thesis
  proof (cases "strip_prefix f ''t:''")
    case None
    then have "f \<noteq> token_field t"
      using strip_prefix_append [of "''t:''" "show_u64 t"] by (auto simp: token_field_def simp del: append_Cons)
    then show ?thesis using None no_n by (simp add: snapshot_field_def)
  next
    case (Some ts)
    then have f: "f = ''t:'' @ ts" by (simp add: strip_prefix_Some)
    from assms [OF f] obtain n where n: "n < 2 ^ 63" "ts = show_nat n" by blast
    have "parse_u64 ts = Some (of_nat n)" using n parse_u64_show_nat by simp
    moreover have "f = token_field t \<longleftrightarrow> t = of_nat n"
    proof -
      have "f = token_field t \<longleftrightarrow> n = unat t" using f n by (simp add: token_field_def show_u64_def)
      also have "\<dots> \<longleftrightarrow> t = of_nat n" using unat_of_nat_u64 [OF n(1)] by auto
      finally show ?thesis .
    qed
    ultimately show ?thesis using Some no_n by (simp add: snapshot_field_def)
  qed
qed

lemma snapshot_tokens:
  assumes "distinct (map fst fs)"
    and "\<forall>ts v. (''t:'' @ ts, v) \<in> set fs \<longrightarrow> (\<exists>n < 2 ^ 63. ts = show_nat n)"
  shows "token_to_name (dict_snapshot fs) t = map_of fs (token_field t)"
  using assms
proof (induction fs rule: rev_induct)
  case Nil
  then show ?case by (simp add: dict_snapshot_def)
next
  case (snoc fv fs)
  obtain f v where fv: "fv = (f, v)" by (cases fv)
  have "token_to_name (snapshot_field (dict_snapshot fs) (f, v)) t =
     (if f = token_field t then Some v else token_to_name (dict_snapshot fs) t)"
    by (rule snapshot_token_step) (use snoc.prems(2) fv in auto)
  then have step: "token_to_name (dict_snapshot (fs @ [fv])) t =
     (if f = token_field t then Some v else token_to_name (dict_snapshot fs) t)"
    by (simp add: dict_snapshot_def fv)
  have "f \<notin> fst ` set fs" using snoc.prems fv by simp
  then have fresh: "map_of fs f = None" by (simp add: map_of_eq_None_iff)
  have IH: "token_to_name (dict_snapshot fs) t = map_of fs (token_field t)"
  proof (rule snoc.IH)
    show "distinct (map fst fs)" using snoc.prems(1) by simp
    show "\<forall>ts v. (''t:'' @ ts, v) \<in> set fs \<longrightarrow> (\<exists>n < 2 ^ 63. ts = show_nat n)"
      using snoc.prems(2) unfolding set_append by blast
  qed
  show ?case
    unfolding step IH using fresh
    by (cases "f = token_field t") (auto simp: fv map_add_def split: option.splits)
qed

text \<open>
  A snapshot of a reachable dictionary, read in whatever order Redis lists the fields,
  translates names and tokens inversely to each other and agrees with the dictionary.
\<close>

theorem snapshot_inverse:
  assumes reach: "dict_reachable h" and fs: "map_of fs = h" "distinct (map fst fs)"
  shows "(name_to_token (dict_snapshot fs) l = Some t \<longleftrightarrow> get_token l h = Inr (Some t))
    \<and> (name_to_token (dict_snapshot fs) l = Some t \<longleftrightarrow> token_to_name (dict_snapshot fs) t = Some l)"
proof -
  obtain c where inv: "dict_inv c h" using dict_reachable_inv [OF reach] by blast
  have canon: "\<forall>ts v. (''t:'' @ ts, v) \<in> set fs \<longrightarrow> (\<exists>n < 2 ^ 63. ts = show_nat n)"
  proof (intro allI impI)
    fix ts v assume "(''t:'' @ ts, v) \<in> set fs"
    then have "h (''t:'' @ ts) = Some v" using fs map_of_is_SomeI by metis
    then obtain n where "n \<le> c" "ts = show_nat n" using inv unfolding dict_inv_def by blast
    moreover have "c < 2 ^ 63" using inv by (simp add: dict_inv_def)
    ultimately show "\<exists>n < 2 ^ 63. ts = show_nat n" by (intro exI [of _ n]) simp
  qed
  have names: "name_to_token (dict_snapshot fs) l = Option.bind (h (name_field l)) parse_u64"
    using snapshot_names [OF fs(2)] fs(1) by simp
  have toks: "token_to_name (dict_snapshot fs) t = h (token_field t)"
    using snapshot_tokens [OF fs(2) canon] fs(1) by simp
  have get: "name_to_token (dict_snapshot fs) l = Some t \<longleftrightarrow> get_token l h = Inr (Some t)"
    unfolding names by (auto simp: get_token_def split: option.splits bind_splits)
  have "get_token l h = Inr (Some t) \<longleftrightarrow> h (token_field t) = Some l"
  proof
    assume "get_token l h = Inr (Some t)"
    then obtain n where n: "n \<le> c" "t = of_nat n" "h (tfield n) = Some l"
      unfolding get_token_inv [OF inv] by blast
    have "n < 2 ^ 63" using n(1) inv by (simp add: dict_inv_def)
    then have "token_field t = tfield n" using n(2) unat_of_nat_u64 by (simp add: token_field_def tfield_def show_u64_def)
    then show "h (token_field t) = Some l" using n(3) by simp
  next
    assume "h (token_field t) = Some l"
    then have "h (''t:'' @ show_u64 t) = Some l" by (simp add: token_field_def)
    then obtain n where n: "1 \<le> n" "n \<le> c" "show_u64 t = show_nat n" "h (name_field l) = Some (show_nat n)"
      using inv unfolding dict_inv_def by blast
    then have "unat t = n" by (simp add: show_u64_def)
    then have "t = of_nat n" by auto
    moreover have "h (tfield n) = Some l"
      using \<open>h (''t:'' @ show_u64 t) = Some l\<close> n(3) by (simp add: tfield_def)
    ultimately show "get_token l h = Inr (Some t)" unfolding get_token_inv [OF inv] using n by blast
  qed
  with get toks show ?thesis by simp
qed

theorem snapshot_inverse_witness:
  "name_to_token (dict_snapshot [(tfield (Suc 0), ''vip''), (name_field ''vip'', show_nat (Suc 0)),
       (''__counter'', show_nat (Suc 0))]) ''vip'' = Some 1"
proof -
  let ?fs = "[(tfield (Suc 0), ''vip''), (name_field ''vip'', show_nat (Suc 0)), (''__counter'', show_nat (Suc 0))]"
  have m: "map_of ?fs = (\<lambda>_. None)(''__counter'' \<mapsto> show_nat (Suc 0), name_field ''vip'' \<mapsto> show_nat (Suc 0),
        tfield (Suc 0) \<mapsto> ''vip'')"
    by (simp add: fun_upd_twist)
  have d: "distinct (map fst ?fs)" by simp
  from snapshot_inverse [OF dict_reachable.alloc [OF dict_reachable.empty dict_alloc_empty] m d, of "''vip''" 1]
  show ?thesis using parse_u64_show_nat [of "Suc 0"] by (simp add: get_token_def)
qed

end
