(* ===== verification/HttpProvider.thy ===== *)
theory HttpProvider
  imports ProviderTypes
begin

text \<open>
  Fetching from the origin: \<open>data_providers/request_builder.rs\<close> (the three request builders) and
  \<open>data_providers/http_data_provider.rs\<close> (retry, classification of responses, decoding of the
  headers). Sending a request is the argument \<open>send\<close>, which threads the state \<open>'n\<close> of the
  network, so that two requests may be answered differently; SHA-256 and the signing of blob
  URLs are arguments too. Metric events and log lines are left out.

  The \<open>NoopRequestBuilder\<close> is \<open>None\<close>: its only implemented method, \<open>should_make_request\<close>,
  returns false, and every other method is \<open>unimplemented!()\<close>.
\<close>

section \<open>Requests and responses on the wire\<close>

datatype Method = GET | HEAD | POST

record OutboundRequest =
  out_method :: Method
  out_url :: string
  out_query :: "string \<Rightarrow> string option"
  out_headers :: "string \<Rightarrow> string option"
  out_body :: "string option"

record reqwest_error =
  is_connect :: bool
  message :: string

text \<open>
  A response: its status code, the header values that are visible text, and the body or the
  error of reading it.
\<close>

record HttpResponse =
  status :: nat
  header :: "string \<Rightarrow> string option"
  bytes :: "reqwest_error + string"

type_synonym 'n sender = "OutboundRequest \<Rightarrow> 'n \<Rightarrow> (reqwest_error + HttpResponse) \<times> 'n"

definition is_success :: "nat \<Rightarrow> bool" where
  "is_success st \<longleftrightarrow> 200 \<le> st \<and> st < 300"

section \<open>The request builders\<close>

datatype RequestBuilderOutcome =
    Response HttpResponse
  | NoData nat

definition maybe_outbound_accept_encoding :: "CompressionEncoder list \<Rightarrow> string option" where
  "maybe_outbound_accept_encoding es =
     (if \<not> list_ex (\<lambda>e. e \<noteq> PlainText) es then None
      else let v = format_compression_encodings es in if v = [] then None else Some v)"

definition build_idlist_url :: "string \<Rightarrow> string" where
  "build_idlist_url base = trim_end_matches CHR ''/'' base @ ''/v1/get_id_lists''"

datatype DcsBlobVersion = V1 | V2

fun container_name :: "DcsBlobVersion \<Rightarrow> string" where
  "container_name V1 = ''dcs-v1''"
| "container_name V2 = ''dcs-v2''"

text \<open>The signed URL of a container and blob name is an argument; an error is \<open>None\<close>.\<close>

record DcsBlobConfig =
  sign_url :: "string \<Rightarrow> string \<Rightarrow> string option"
  company_id :: string

definition build_download_url :: "DcsBlobConfig \<Rightarrow> DcsBlobVersion \<Rightarrow> string \<Rightarrow> string option" where
  "build_download_url cfg v key = sign_url cfg (container_name v) (company_id cfg @ ''/'' @ key)"

record DcsRequestBuilder =
  dcs_base_url :: string
  dcs_blob_config :: "DcsBlobConfig option"
  dcs_sfp_version :: string

definition build_cdn_request ::
  "DcsRequestBuilder \<Rightarrow> AuthorizedRequestContext \<Rightarrow> u64 \<Rightarrow> OutboundRequest" where
  "build_cdn_request b rc lcut =
     \<lparr>out_method = GET,
      out_url = dcs_base_url b @ path_as_str (rc_path rc) @ rc_sdk_key rc @ ''.json'',
      out_query =
        (let q = (\<lambda>_. None);
             q = (if 0 < lcut then q(''sinceTime'' \<mapsto> show_u64 lcut) else q)
         in if rc_supports_proto rc then q(''supports_proto'' \<mapsto> ''true'') else q),
      out_headers =
        (let h = (\<lambda>_. None);
             h = (if rc_supports_proto rc then h(''statsig-supports-proto'' \<mapsto> ''true'') else h);
             h = h(''x-sfp-version'' \<mapsto> dcs_sfp_version b)
         in case maybe_outbound_accept_encoding (rc_encodings rc) of
              None \<Rightarrow> h | Some v \<Rightarrow> h(''accept-encoding'' \<mapsto> v)),
      out_body = None\<rparr>"

definition blob_version :: "NormalizedPath \<Rightarrow> DcsBlobVersion option" where
  "blob_version p =
     (case p of V1DownloadConfigSpecs \<Rightarrow> Some V1 | V2DownloadConfigSpecs \<Rightarrow> Some V2 | _ \<Rightarrow> None)"

definition blob_url :: "DcsRequestBuilder \<Rightarrow> AuthorizedRequestContext \<Rightarrow> string option" where
  "blob_url b rc =
     Option.bind (blob_version (rc_path rc)) (\<lambda>v.
       Option.bind (dcs_blob_config b) (\<lambda>cfg. build_download_url cfg v (rc_sdk_key rc)))"

definition build_blob_body_request ::
  "DcsRequestBuilder \<Rightarrow> AuthorizedRequestContext \<Rightarrow> OutboundRequest option" where
  "build_blob_body_request b rc =
     map_option (\<lambda>url.
       \<lparr>out_method = GET, out_url = url, out_query = (\<lambda>_. None),
        out_headers = (let h = [''x-sfp-version'' \<mapsto> dcs_sfp_version b]
                       in case maybe_outbound_accept_encoding (rc_encodings rc) of
                            None \<Rightarrow> h | Some v \<Rightarrow> h(''accept-encoding'' \<mapsto> v)),
        out_body = None\<rparr>) (blob_url b rc)"

definition build_blob_metadata_request ::
  "DcsRequestBuilder \<Rightarrow> AuthorizedRequestContext \<Rightarrow> OutboundRequest option" where
  "build_blob_metadata_request b rc =
     map_option (\<lambda>url.
       \<lparr>out_method = HEAD, out_url = url, out_query = (\<lambda>_. None),
        out_headers = [''x-sfp-version'' \<mapsto> dcs_sfp_version b], out_body = None\<rparr>) (blob_url b rc)"

definition dcs_build_request ::
  "DcsRequestBuilder \<Rightarrow> AuthorizedRequestContext \<Rightarrow> u64 \<Rightarrow> OutboundRequest" where
  "dcs_build_request b rc lcut =
     (case build_blob_body_request b rc of
        Some req \<Rightarrow> req
      | None \<Rightarrow> build_cdn_request b rc lcut)"

definition parse_blob_metadata_lcut :: "HttpResponse \<Rightarrow> u64 option" where
  "parse_blob_metadata_lcut r = Option.bind (header r ''x-ms-meta-lcut'') parse_u64"

definition should_skip_blob_download :: "u64 \<Rightarrow> u64 \<Rightarrow> bool" where
  "should_skip_blob_download current blob \<longleftrightarrow> 0 < current \<and> blob \<le> current"

definition should_fallback_to_cdn :: "nat \<Rightarrow> bool" where
  "should_fallback_to_cdn st \<longleftrightarrow> st = 404"

definition should_skip_download_using_metadata ::
  "'n sender \<Rightarrow> DcsRequestBuilder \<Rightarrow> AuthorizedRequestContext \<Rightarrow> u64 \<Rightarrow> 'n \<Rightarrow> bool \<times> 'n" where
  "should_skip_download_using_metadata send b rc lcut n =
     (if \<not> rc_use_lcut rc \<or> lcut = 0 then (False, n)
      else (case build_blob_metadata_request b rc of
          None \<Rightarrow> (False, n)
        | Some req \<Rightarrow>
            (case send req n of
               (Inl _, n') \<Rightarrow> (False, n')
             | (Inr r, n') \<Rightarrow>
                 if \<not> is_success (status r) then (False, n')
                 else (case parse_blob_metadata_lcut r of
                     None \<Rightarrow> (False, n')
                   | Some blob \<Rightarrow> (should_skip_blob_download lcut blob, n')))))"

definition dcs_make_request ::
  "'n sender \<Rightarrow> DcsRequestBuilder \<Rightarrow> AuthorizedRequestContext \<Rightarrow> u64 \<Rightarrow> 'n
     \<Rightarrow> (reqwest_error + RequestBuilderOutcome) \<times> 'n" where
  "dcs_make_request send b rc lcut n0 =
     (let (skip, n) = (if rc_use_lcut rc \<and> 0 < lcut
                       then should_skip_download_using_metadata send b rc lcut n0 else (False, n0))
      in if skip then (Inr (NoData 204), n)
         else (case build_blob_body_request b rc of
             Some req \<Rightarrow>
               (case send req n of
                  (Inl e, n') \<Rightarrow> (Inl e, n')
                | (Inr r, n') \<Rightarrow>
                    if should_fallback_to_cdn (status r) then
                      (case send (build_cdn_request b rc lcut) n' of
                         (Inl e, n'') \<Rightarrow> (Inl e, n'')
                       | (Inr r', n'') \<Rightarrow> (Inr (Response r'), n''))
                    else (Inr (Response r), n'))
           | None \<Rightarrow>
               (case send (dcs_build_request b rc lcut) n of
                  (Inl e, n') \<Rightarrow> (Inl e, n')
                | (Inr r, n') \<Rightarrow> (Inr (Response r), n'))))"

definition dcs_is_an_update :: "HttpResponse \<Rightarrow> bool" where
  "dcs_is_an_update r =
     (case header r ''x-cache-hit'' of None \<Rightarrow> True | Some v \<Rightarrow> v = ''false'')"

record IdListFileRequestBuilder =
  file_base_url :: string
  file_sfp_version :: string

definition file_build_request ::
  "IdListFileRequestBuilder \<Rightarrow> AuthorizedRequestContext \<Rightarrow> OutboundRequest" where
  "file_build_request b rc =
     (let raw_path = (case rc_raw_path rc of Some p \<Rightarrow> p | None \<Rightarrow> path_as_str (rc_path rc));
          url = file_base_url b @ raw_path;
          url = (case rc_raw_query rc of Some q \<Rightarrow> url @ ''?'' @ q | None \<Rightarrow> url);
          h = [''x-sfp-version'' \<mapsto> file_sfp_version b];
          h = (if rc_range_start rc = Some 0 then h(''range'' \<mapsto> ''bytes=0-'') else h);
          h = (case rc_id_list_size rc of
                 Some sz \<Rightarrow> h(''statsig-id-list-file-size'' \<mapsto> show_u64 sz) | None \<Rightarrow> h)
      in \<lparr>out_method = GET, out_url = url, out_query = (\<lambda>_. None), out_headers = h,
          out_body = None\<rparr>)"

record IdlistRequestBuilder =
  idl_base_url :: string
  idl_sfp_version :: string
  last_request_by_key :: "rc_key \<Rightarrow> nat option"
  last_response_hash :: "rc_key \<Rightarrow> string option"

definition idlist_builder_new :: "string \<Rightarrow> string \<Rightarrow> IdlistRequestBuilder" where
  "idlist_builder_new base ver =
     \<lparr>idl_base_url = base, idl_sfp_version = ver,
      last_request_by_key = (\<lambda>_. None), last_response_hash = (\<lambda>_. None)\<rparr>"

definition idlist_build_request ::
  "IdlistRequestBuilder \<Rightarrow> AuthorizedRequestContext \<Rightarrow> OutboundRequest" where
  "idlist_build_request b rc =
     (let h = [''x-sfp-version'' \<mapsto> idl_sfp_version b, ''statsig-api-key'' \<mapsto> rc_sdk_key rc];
          h = (if Gzip \<in> set (rc_encodings rc)
               then h(''accept-encoding'' \<mapsto> encoder_to_string Gzip) else h)
      in \<lparr>out_method = POST, out_url = build_idlist_url (idl_base_url b),
          out_query = (\<lambda>_. None), out_headers = h, out_body = Some ''{}''\<rparr>)"

definition idlist_make_request ::
  "'n sender \<Rightarrow> IdlistRequestBuilder \<Rightarrow> AuthorizedRequestContext \<Rightarrow> 'n
     \<Rightarrow> (reqwest_error + RequestBuilderOutcome) \<times> IdlistRequestBuilder \<times> 'n" where
  "idlist_make_request send b rc n =
     (case send (idlist_build_request b rc) n of
        (Inl e, n') \<Rightarrow> (Inl e, b, n')
      | (Inr r, n') \<Rightarrow>
          (Inr (Response r),
           (if status r = 401 \<or> status r = 403
            then b\<lparr>last_response_hash := (last_response_hash b)(rc_id rc := None)\<rparr> else b),
           n'))"

definition idlist_is_an_update ::
  "(string \<Rightarrow> string) \<Rightarrow> string \<Rightarrow> AuthorizedRequestContext \<Rightarrow> IdlistRequestBuilder
     \<Rightarrow> bool \<times> IdlistRequestBuilder" where
  "idlist_is_an_update sha256 body rc b =
     (let hash = sha256 body;
          upd = (case last_response_hash b (rc_id rc) of None \<Rightarrow> True | Some old \<Rightarrow> hash \<noteq> old)
      in (upd, if upd then b\<lparr>last_response_hash := (last_response_hash b)(rc_id rc \<mapsto> hash)\<rparr> else b))"

definition idlist_should_make_request ::
  "AuthorizedRequestContext \<Rightarrow> nat \<Rightarrow> IdlistRequestBuilder \<Rightarrow> bool \<times> IdlistRequestBuilder" where
  "idlist_should_make_request rc now b =
     (case last_request_by_key b (rc_id rc) of
        Some prev \<Rightarrow>
          if from_secs 60 < now - prev
          then (True, b\<lparr>last_request_by_key := (last_request_by_key b)(rc_id rc \<mapsto> now)\<rparr>)
          else (False, b)
      | None \<Rightarrow> (True, b\<lparr>last_request_by_key := (last_request_by_key b)(rc_id rc \<mapsto> now)\<rparr>))"

section \<open>The trait\<close>

datatype RequestBuilder =
    Dcs DcsRequestBuilder
  | Idlist IdlistRequestBuilder
  | IdListFile IdListFileRequestBuilder

type_synonym request_builders = "NormalizedPath \<Rightarrow> RequestBuilder option"

definition add_request_builder ::
  "NormalizedPath \<Rightarrow> RequestBuilder \<Rightarrow> request_builders \<Rightarrow> request_builders" where
  "add_request_builder p b bs = bs(p \<mapsto> b)"

definition get_request_builder :: "request_builders \<Rightarrow> NormalizedPath \<Rightarrow> RequestBuilder option" where
  "get_request_builder bs p = bs p"

fun make_request ::
  "'n sender \<Rightarrow> AuthorizedRequestContext \<Rightarrow> u64 \<Rightarrow> RequestBuilder \<Rightarrow> 'n
     \<Rightarrow> (reqwest_error + RequestBuilderOutcome) \<times> RequestBuilder \<times> 'n" where
  "make_request send rc lcut (Dcs b) n =
     (let (res, n') = dcs_make_request send b rc lcut n in (res, Dcs b, n'))"
| "make_request send rc lcut (Idlist b) n =
     (let (res, b', n') = idlist_make_request send b rc n in (res, Idlist b', n'))"
| "make_request send rc lcut (IdListFile b) n =
     (case send (file_build_request b rc) n of
        (Inl e, n') \<Rightarrow> (Inl e, IdListFile b, n')
      | (Inr r, n') \<Rightarrow> (Inr (Response r), IdListFile b, n'))"

fun is_an_update ::
  "(string \<Rightarrow> string) \<Rightarrow> string \<Rightarrow> HttpResponse \<Rightarrow> AuthorizedRequestContext \<Rightarrow> RequestBuilder
     \<Rightarrow> bool \<times> RequestBuilder" where
  "is_an_update sha256 body r rc (Dcs b) = (dcs_is_an_update r, Dcs b)"
| "is_an_update sha256 body r rc (Idlist b) =
     (let (u, b') = idlist_is_an_update sha256 body rc b in (u, Idlist b'))"
| "is_an_update sha256 body r rc (IdListFile b) = (True, IdListFile b)"

fun should_make_request ::
  "AuthorizedRequestContext \<Rightarrow> nat \<Rightarrow> RequestBuilder option \<Rightarrow> bool \<times> RequestBuilder option" where
  "should_make_request rc now None = (False, None)"
| "should_make_request rc now (Some (Idlist b)) =
     (let (ok, b') = idlist_should_make_request rc now b in (ok, Some (Idlist b')))"
| "should_make_request rc now (Some b) = (True, Some b)"

section \<open>The data provider\<close>

definition handle_error :: "nat option \<Rightarrow> DataProviderResult" where
  "handle_error code =
     \<lparr>dpr_result =
        (case code of
           None \<Rightarrow> ProviderError
         | Some st \<Rightarrow> if st = 401 \<or> st = 403 then Unauthorized
                      else if 400 \<le> st \<and> st \<le> 499 then ClientError
                      else ProviderError),
      dpr_body = None, dpr_lcut = 0\<rparr>"

definition handle_no_data :: DataProviderResult where
  "handle_no_data = \<lparr>dpr_result = NoDataAvailable, dpr_body = None, dpr_lcut = 0\<rparr>"

definition parse_since_time :: "HttpResponse \<Rightarrow> u64 \<Rightarrow> AuthorizedRequestContext \<Rightarrow> u64" where
  "parse_since_time r lcut rc =
     (if \<not> rc_use_lcut rc then lcut
      else (case Option.bind (header r ''x-since-time'') parse_u64 of
          Some t \<Rightarrow> t
        | None \<Rightarrow>
            (case Option.bind (header r ''x-ms-meta-lcut'') parse_u64 of
               Some t \<Rightarrow> t
             | None \<Rightarrow> 0)))"

fun contains :: "string \<Rightarrow> string \<Rightarrow> bool" where
  "contains [] p \<longleftrightarrow> p = []"
| "contains (c # s) p \<longleftrightarrow> starts_with (c # s) p \<or> contains s p"

definition parse_use_proto :: "HttpResponse \<Rightarrow> bool" where
  "parse_use_proto r =
     (case header r ''content-type'' of
        None \<Rightarrow> False
      | Some c \<Rightarrow> contains c ''application/octet-stream'')"

definition handle_success :: "bool \<Rightarrow> string option \<Rightarrow> string \<Rightarrow> u64 \<Rightarrow> DataProviderResult" where
  "handle_success proto enc body since =
     (let e = (case enc of
                 None \<Rightarrow> PlainText
               | Some n \<Rightarrow> (case encoder_from_str n of Some e \<Rightarrow> e | None \<Rightarrow> PlainText))
      in \<lparr>dpr_result = DataAvailable,
          dpr_body = Some \<lparr>rp_encoding = e, rp_data = body, rp_use_proto = proto\<rparr>,
          dpr_lcut = since\<rparr>)"

definition handle_response ::
  "(string \<Rightarrow> string) \<Rightarrow> AuthorizedRequestContext \<Rightarrow> u64 \<Rightarrow> HttpResponse \<Rightarrow> RequestBuilder
     \<Rightarrow> DataProviderResult \<times> RequestBuilder" where
  "handle_response sha256 rc lcut r b =
     (if status r = 204 then (handle_no_data, b)
      else (case bytes r of
          Inl _ \<Rightarrow> (handle_error (Some (status r)), b)
        | Inr body \<Rightarrow>
            if \<not> is_success (status r) then (handle_error (Some (status r)), b)
            else (case is_an_update sha256 body r rc b of
                (upd, b') \<Rightarrow>
                  if \<not> upd then (handle_no_data, b')
                  else (handle_success (parse_use_proto r) (header r ''content-encoding'') body
                          (parse_since_time r lcut rc), b'))))"

definition http_get ::
  "'n sender \<Rightarrow> (string \<Rightarrow> string) \<Rightarrow> AuthorizedRequestContext \<Rightarrow> u64 \<Rightarrow> RequestBuilder \<Rightarrow> 'n
     \<Rightarrow> DataProviderResult \<times> RequestBuilder \<times> 'n" where
  "http_get send sha256 rc lcut b n =
     (case make_request send rc lcut b n of
        (Inr (Response r), b1, n1) \<Rightarrow>
          (let (d, b') = handle_response sha256 rc lcut r b1 in (d, b', n1))
      | (Inr (NoData st), b1, n1) \<Rightarrow> (handle_no_data, b1, n1)
      | (Inl e, b1, n1) \<Rightarrow>
          if is_connect e then
            (case make_request send rc lcut b1 n1 of
               (Inr (Response r), b2, n2) \<Rightarrow>
                 (let (d, b') = handle_response sha256 rc lcut r b2 in (d, b', n2))
             | (Inr (NoData st), b2, n2) \<Rightarrow> (handle_no_data, b2, n2)
             | (Inl _, b2, n2) \<Rightarrow> (handle_error None, b2, n2))
          else (handle_error None, b1, n1))"

section \<open>What a result says about the origin\<close>

definition answered :: "'n sender \<Rightarrow> HttpResponse \<Rightarrow> bool" where
  "answered send r \<longleftrightarrow> (\<exists>req m m'. send req m = (Inr r, m'))"

lemma answeredI [intro]: "send req m = (Inr r, m') \<Longrightarrow> answered send r"
  by (auto simp: answered_def)

lemma make_request_answered:
  "make_request send rc lcut b n = (Inr (Response r), b', n') \<Longrightarrow> answered send r"
  by (cases b)
     (auto simp: dcs_make_request_def idlist_make_request_def Let_def
       split: prod.splits sum.splits if_splits option.splits)

lemma handle_response_kinds:
  assumes "handle_response sha256 rc lcut r b = (d, b')"
  shows "(dpr_body d \<noteq> None \<longleftrightarrow> dpr_result d = DataAvailable)"
    and "dpr_result d \<in> {Unauthorized, ClientError} \<Longrightarrow> 400 \<le> status r \<and> status r \<le> 499"
    and "dpr_result d = Unauthorized \<longleftrightarrow> status r = 401 \<or> status r = 403"
    and "dpr_result d = DataAvailable \<Longrightarrow>
      is_success (status r) \<and> status r \<noteq> 204 \<and> bytes r = Inr (rp_data (the (dpr_body d)))
      \<and> dpr_lcut d = parse_since_time r lcut rc"
  using assms
  by (auto simp: handle_response_def handle_no_data_def handle_error_def handle_success_def
      is_success_def Let_def split: sum.splits if_splits prod.splits)

lemma http_get_cases:
  assumes "http_get send sha256 rc lcut b n = (d, b', n')"
  obtains "d = handle_no_data" | "d = handle_error None"
  | r b1 where "answered send r" "handle_response sha256 rc lcut r b1 = (d, b')"
  using assms
  by (auto simp: http_get_def Let_def dest: make_request_answered
      split: prod.splits sum.splits if_splits RequestBuilderOutcome.splits)

text \<open>
  C8: a result has a body exactly when data is available, and then the body and the time stamp
  are those of a response that the origin really gave, with a success status other than 204;
  a result is unauthorised or a client error only when the origin answered with such a
  status: a network failure never is, so it never clears the stores.
\<close>

theorem http_get_sound:
  assumes "http_get send sha256 rc lcut b n = (d, b', n')"
  shows "(dpr_body d \<noteq> None \<longleftrightarrow> dpr_result d = DataAvailable)
    \<and> (dpr_result d = DataAvailable \<longrightarrow>
         (\<exists>r. answered send r \<and> is_success (status r) \<and> status r \<noteq> 204
            \<and> bytes r = Inr (rp_data (the (dpr_body d))) \<and> dpr_lcut d = parse_since_time r lcut rc))
    \<and> (dpr_result d = Unauthorized \<longrightarrow> (\<exists>r. answered send r \<and> status r \<in> {401, 403}))
    \<and> (dpr_result d = ClientError \<longrightarrow> (\<exists>r. answered send r \<and> 400 \<le> status r \<and> status r \<le> 499))"
  using assms
proof (cases rule: http_get_cases)
  case (3 r b1)
  show ?thesis
    using handle_response_kinds [OF 3(2)] 3(1) by fastforce
qed (simp_all add: handle_no_data_def handle_error_def)

definition sample_rc :: AuthorizedRequestContext where
  "sample_rc = rc_new ''secret-1'' V2DownloadConfigSpecs [Gzip]"

definition sample_response :: HttpResponse where
  "sample_response =
     \<lparr>status = 200, header = [''x-since-time'' \<mapsto> ''17'', ''content-encoding'' \<mapsto> ''gzip''],
      bytes = Inr ''data''\<rparr>"

definition sample_dcs :: DcsRequestBuilder where
  "sample_dcs = \<lparr>dcs_base_url = ''https://cdn'', dcs_blob_config = None, dcs_sfp_version = ''1''\<rparr>"

theorem http_get_sound_witness:
  "fst (http_get (\<lambda>req n. (Inr sample_response, n)) (\<lambda>s. s) sample_rc 5 (Dcs sample_dcs) ())
     = \<lparr>dpr_result = DataAvailable,
        dpr_body = Some \<lparr>rp_encoding = Gzip, rp_data = ''data'', rp_use_proto = False\<rparr>, dpr_lcut = 17\<rparr>
   \<and> (\<exists>r. answered (\<lambda>req n :: unit. (Inr sample_response, n)) r \<and> is_success (status r))"
proof -
  let ?send = "\<lambda>req n :: unit. (Inr sample_response, n)"
  let ?d = "\<lparr>dpr_result = DataAvailable,
        dpr_body = Some \<lparr>rp_encoding = Gzip, rp_data = ''data'', rp_use_proto = False\<rparr>, dpr_lcut = 17\<rparr>"
  have enc: "encoder_from_str ''gzip'' = Some Gzip"
    using encoder_from_str_to_string [of Gzip] by simp
  have since: "parse_u64 ''17'' = Some 17"
    by (simp add: parse_u64_def parse_uint_def is_digit_def digits_value_def digit_value_def)
  have get: "http_get ?send (\<lambda>s. s) sample_rc 5 (Dcs sample_dcs) () = (?d, Dcs sample_dcs, ())"
    by (simp add: http_get_def dcs_make_request_def should_skip_download_using_metadata_def
        build_blob_metadata_request_def build_blob_body_request_def blob_url_def sample_dcs_def
        handle_response_def sample_response_def is_success_def dcs_is_an_update_def
        handle_success_def parse_since_time_def parse_use_proto_def enc since
        split: option.splits bind_splits)
       (auto simp: sample_rc_def rc_new_def blob_version_def)
  from http_get_sound [OF get] get show ?thesis by auto
qed

text \<open>
  A config-spec poll is answered \<open>no data\<close> from the blob's metadata alone only when the
  proxy already holds a version and the origin's blob, by a successful metadata response, is
  not newer than it.
\<close>

theorem metadata_skip_sound:
  assumes "dcs_make_request send b rc lcut n = (Inr (NoData st), n')"
  shows "rc_use_lcut rc \<and> 0 < lcut \<and> st = 204
    \<and> (\<exists>r blob. answered send r \<and> is_success (status r)
         \<and> parse_blob_metadata_lcut r = Some blob \<and> blob \<le> lcut)"
  using assms
  by (auto simp: dcs_make_request_def should_skip_download_using_metadata_def
      should_skip_blob_download_def Let_def
      split: prod.splits sum.splits if_splits option.splits)

definition sample_blob_dcs :: DcsRequestBuilder where
  "sample_blob_dcs =
     \<lparr>dcs_base_url = ''https://cdn'',
      dcs_blob_config = Some \<lparr>sign_url = (\<lambda>c k. Some (c @ ''/'' @ k)), company_id = ''co''\<rparr>,
      dcs_sfp_version = ''1''\<rparr>"

definition sample_metadata :: HttpResponse where
  "sample_metadata = \<lparr>status = 200, header = [''x-ms-meta-lcut'' \<mapsto> ''17''], bytes = Inr []\<rparr>"

theorem metadata_skip_sound_witness:
  "fst (dcs_make_request (\<lambda>req n. (Inr sample_metadata, n)) sample_blob_dcs sample_rc 17 ())
     = Inr (NoData 204)
   \<and> (\<exists>r blob. answered (\<lambda>req n :: unit. (Inr sample_metadata, n)) r
        \<and> parse_blob_metadata_lcut r = Some blob \<and> blob \<le> 17)"
proof -
  have since: "parse_u64 ''17'' = Some 17"
    by (simp add: parse_u64_def parse_uint_def is_digit_def digits_value_def digit_value_def)
  have get: "dcs_make_request (\<lambda>req n :: unit. (Inr sample_metadata, n)) sample_blob_dcs sample_rc 17 ()
     = (Inr (NoData 204), ())"
    by (simp add: dcs_make_request_def should_skip_download_using_metadata_def
        build_blob_metadata_request_def blob_url_def sample_blob_dcs_def sample_rc_def rc_new_def
        blob_version_def build_download_url_def sample_metadata_def is_success_def
        parse_blob_metadata_lcut_def should_skip_blob_download_def since)
  from metadata_skip_sound [OF get] get show ?thesis by auto
qed

section \<open>Polling id lists\<close>

text \<open>
  The polls the id-list builder grants in a run of calls, each with its time.
\<close>

fun idlist_grants ::
  "(AuthorizedRequestContext \<times> nat) list \<Rightarrow> IdlistRequestBuilder \<Rightarrow> (rc_key \<times> nat) list" where
  "idlist_grants [] b = []"
| "idlist_grants ((rc, t) # cs) b =
     (let (ok, b') = idlist_should_make_request rc t b
      in if ok then (rc_id rc, t) # idlist_grants cs b' else idlist_grants cs b')"

lemma idlist_grants_after:
  assumes "last_request_by_key b k = Some t0" and "sorted (map snd cs)"
    and "(k, t) \<in> set (idlist_grants cs b)"
  shows "from_secs 60 < t - t0"
  using assms
proof (induction cs arbitrary: b t0)
  case Nil
  then show ?case by simp
next
  case (Cons c cs)
  obtain rc t1 where c: "c = (rc, t1)" by (cases c)
  obtain ok b' where call: "idlist_should_make_request rc t1 b = (ok, b')"
    by (cases "idlist_should_make_request rc t1 b")
  have sorted: "sorted (map snd cs)" using Cons.prems(2) by simp
  show ?case
  proof (cases "rc_id rc = k")
    case True
    then show ?thesis
    proof (cases "from_secs 60 < t1 - t0")
      case grant: True
      then have b': "ok" "last_request_by_key b' k = Some t1"
        using call Cons.prems(1) True by (auto simp: idlist_should_make_request_def)
      from Cons.prems(3) c call b' consider "t = t1" | "(k, t) \<in> set (idlist_grants cs b')"
        by auto
      then show ?thesis
      proof cases
        case 2
        from Cons.IH [OF b'(2) sorted 2] grant show ?thesis by simp
      qed (use grant in simp)
    next
      case False
      then have "\<not> ok" "b' = b"
        using call Cons.prems(1) True by (auto simp: idlist_should_make_request_def)
      then show ?thesis using Cons.IH [OF Cons.prems(1) sorted] Cons.prems(3) c call by simp
    qed
  next
    case False
    then have "last_request_by_key b' k = Some t0"
      using call Cons.prems(1)
      by (auto simp: idlist_should_make_request_def split: option.splits if_splits)
    then show ?thesis using Cons.IH [OF _ sorted] Cons.prems(3) False c call
      by (auto split: if_splits)
  qed
qed

lemma idlist_grant_recorded:
  "idlist_should_make_request rc t b = (True, b') \<Longrightarrow> last_request_by_key b' (rc_id rc) = Some t"
  by (auto simp: idlist_should_make_request_def split: option.splits if_splits)

text \<open>
  The id-list builder lets through at most one poll per context in 60 seconds: in any run of
  calls in the order of time, two granted polls of one context are more than 60 seconds apart.
\<close>

theorem idlist_polls_spaced:
  assumes "sorted (map snd cs)" and "i < j" and "j < length (idlist_grants cs b)"
    and "fst (idlist_grants cs b ! i) = fst (idlist_grants cs b ! j)"
  shows "from_secs 60 < snd (idlist_grants cs b ! j) - snd (idlist_grants cs b ! i)"
  using assms
proof (induction cs arbitrary: b i j)
  case Nil
  then show ?case by simp
next
  case (Cons c cs)
  obtain rc t where c: "c = (rc, t)" by (cases c)
  obtain ok b' where call: "idlist_should_make_request rc t b = (ok, b')"
    by (cases "idlist_should_make_request rc t b")
  have sorted: "sorted (map snd cs)" using Cons.prems(1) by simp
  show ?case
  proof (cases ok)
    case False
    then have "idlist_grants (c # cs) b = idlist_grants cs b'" using c call by simp
    then show ?thesis using Cons.IH [OF sorted] Cons.prems by simp
  next
    case True
    then have g: "idlist_grants (c # cs) b = (rc_id rc, t) # idlist_grants cs b'" using c call by simp
    obtain j' where j: "j = Suc j'" using Cons.prems(2) by (cases j) auto
    have j': "j' < length (idlist_grants cs b')" using Cons.prems(3) g j by simp
    show ?thesis
    proof (cases i)
      case 0
      have mem: "idlist_grants cs b' ! j' \<in> set (idlist_grants cs b')" using j' by (rule nth_mem)
      have "fst (idlist_grants cs b' ! j') = rc_id rc" using Cons.prems(4) g j 0 by simp
      with mem have "(rc_id rc, snd (idlist_grants cs b' ! j')) \<in> set (idlist_grants cs b')"
        by (metis prod.collapse)
      from idlist_grants_after [OF idlist_grant_recorded sorted this] call True
      show ?thesis using g j 0 by simp
    next
      case (Suc i')
      then show ?thesis using Cons.IH [OF sorted, of i' j'] Cons.prems g j by simp
    qed
  qed
qed

theorem idlist_polls_spaced_witness:
  "idlist_grants [(sample_rc, 0), (sample_rc, 30 * 10 ^ 9), (sample_rc, 61 * 10 ^ 9)]
      (idlist_builder_new ''https://api'' ''1'')
     = [(rc_id sample_rc, 0), (rc_id sample_rc, 61 * 10 ^ 9)]
   \<and> from_secs 60 < 61 * 10 ^ 9 - 0"
proof -
  let ?cs = "[(sample_rc, 0), (sample_rc, 30 * 10 ^ 9), (sample_rc, 61 * 10 ^ 9 :: nat)]"
  let ?b = "idlist_builder_new ''https://api'' ''1''"
  have g: "idlist_grants ?cs ?b = [(rc_id sample_rc, 0), (rc_id sample_rc, 61 * 10 ^ 9)]"
    by (simp add: idlist_should_make_request_def idlist_builder_new_def from_secs_def)
  have "from_secs 60 < 61 * 10 ^ 9 - 0"
    using idlist_polls_spaced [of ?cs 0 1 ?b] unfolding g by simp
  with g show ?thesis by blast
qed

lemma idlist_update_once:
  "idlist_is_an_update sha256 body rc b = (u, b') \<Longrightarrow>
     fst (idlist_is_an_update sha256 body' rc b') \<longleftrightarrow> sha256 body' \<noteq> sha256 body"
  by (auto simp: idlist_is_an_update_def Let_def split: option.splits if_splits)

lemma idlist_reauthorised_updates:
  assumes "send (idlist_build_request b rc) n = (Inr r, n')" and "status r \<in> {401, 403}"
    and "idlist_make_request send b rc n = (out, b', m)"
  shows "fst (idlist_is_an_update sha256 body rc b')"
  using assms by (auto simp: idlist_make_request_def idlist_is_an_update_def Let_def)

end
