(* ===== verification/LineDecoder.thy ===== *)
theory LineDecoder
  imports IdListSchema HttpProvider
begin

text \<open>
  Reading an id-list file: \<open>idlist_membership/worker/parser.rs\<close> and \<open>worker/download.rs\<close>. The
  line decoder with its buffer of incomplete bytes, the parser of change lines, the request
  for a range of a file and the chunked download with the checks on every response. A file is
  a list of bytes; the URL parser, SHA-256 and the origin are arguments.
\<close>

section \<open>Errors of the worker\<close>

text \<open>
  \<open>WorkerError\<close> of \<open>worker/core.rs\<close>; the errors of the Redis client and of \<open>reqwest\<close> are kept
  as their messages, the status code as a number.
\<close>

datatype WorkerError =
    Redis string
  | Http string
  | InvalidTask string
  | InvalidFile string
  | OriginStatus nat
  | RangeIgnored
  | LockLost
  | ScanVerification string
  | MissingDictionaryToken

definition worker_error_of_reqwest :: "reqwest_error \<Rightarrow> WorkerError" where
  "worker_error_of_reqwest e = Http (message e)"

section \<open>Change lines\<close>

text \<open>\<open>String::from_utf8\<close> accepts the well-formed byte sequences of the Unicode standard.\<close>

definition utf8_cont :: "nat \<Rightarrow> bool" where
  "utf8_cont b \<longleftrightarrow> 0x80 \<le> b \<and> b \<le> 0xBF"

fun utf8_bytes_valid :: "nat list \<Rightarrow> bool" where
  "utf8_bytes_valid [] \<longleftrightarrow> True"
| "utf8_bytes_valid (b # bs) \<longleftrightarrow>
     (if b < 0x80 then utf8_bytes_valid bs
      else if 0xC2 \<le> b \<and> b \<le> 0xDF then
        (case bs of c1 # r \<Rightarrow> utf8_cont c1 \<and> utf8_bytes_valid r | _ \<Rightarrow> False)
      else if 0xE0 \<le> b \<and> b \<le> 0xEF then
        (case bs of
           c1 # c2 # r \<Rightarrow>
             utf8_cont c1 \<and> (b = 0xE0 \<longrightarrow> 0xA0 \<le> c1) \<and> (b = 0xED \<longrightarrow> c1 \<le> 0x9F)
               \<and> utf8_cont c2 \<and> utf8_bytes_valid r
         | _ \<Rightarrow> False)
      else if 0xF0 \<le> b \<and> b \<le> 0xF4 then
        (case bs of
           c1 # c2 # c3 # r \<Rightarrow>
             utf8_cont c1 \<and> (b = 0xF0 \<longrightarrow> 0x90 \<le> c1) \<and> (b = 0xF4 \<longrightarrow> c1 \<le> 0x8F)
               \<and> utf8_cont c2 \<and> utf8_cont c3 \<and> utf8_bytes_valid r
         | _ \<Rightarrow> False)
      else False)"

definition from_utf8_ok :: "string \<Rightarrow> bool" where
  "from_utf8_ok s \<longleftrightarrow> utf8_bytes_valid (map of_char s)"

record FileChange =
  fc_add :: bool
  fc_member :: string

text \<open>The message about an invalid prefix shows its byte in two hexadecimal digits.\<close>

definition hex_digit :: "nat \<Rightarrow> char" where
  "hex_digit n = ''0123456789abcdef'' ! n"

definition hex_byte :: "char \<Rightarrow> string" where
  "hex_byte c = [hex_digit (of_char c div 16), hex_digit (of_char c mod 16)]"

definition parse_change_line :: "string \<Rightarrow> WorkerError + FileChange" where
  "parse_change_line line =
     (case line of
        [] \<Rightarrow> Inl (InvalidFile ''empty line'')
      | c # member \<Rightarrow>
          if c \<noteq> CHR ''+'' \<and> c \<noteq> CHR ''-'' then
            Inl (InvalidFile (''line has invalid prefix 0x'' @ hex_byte c))
          else if member = [] then Inl (InvalidFile ''line has an empty member'')
          else if from_utf8_ok member then Inr \<lparr>fc_add = (c = CHR ''+''), fc_member = member\<rparr>
          else Inl (InvalidFile ''member is not UTF-8''))"

section \<open>The line decoder\<close>

abbreviation newline :: char where "newline \<equiv> CHR 0x0A"
abbreviation carriage_return :: char where "carriage_return \<equiv> CHR 0x0D"

record DecodedLine =
  dl_change :: "FileChange option"
  dl_end_offset :: u64

record CompleteLineDecoder =
  ld_pending :: string
  ld_next_offset :: u64

definition decoder_new :: "u64 \<Rightarrow> CompleteLineDecoder" where
  "decoder_new start = \<lparr>ld_pending = [], ld_next_offset = start\<rparr>"

text \<open>A line without its terminator, a carriage return before it dropped.\<close>

definition strip_cr :: "string \<Rightarrow> string" where
  "strip_cr line = (if line \<noteq> [] \<and> last line = carriage_return then butlast line else line)"

definition decode_line :: "string \<Rightarrow> WorkerError + FileChange option" where
  "decode_line raw =
     (let line = strip_cr raw
      in if line = [] then Inr None
         else (case parse_change_line line of Inl e \<Rightarrow> Inl e | Inr ch \<Rightarrow> Inr (Some ch)))"

text \<open>
  The loop of \<open>push\<close>: \<open>cursor\<close> is the position in the buffer up to which lines were decoded. The
  offsets are \<open>u64\<close>.
\<close>

function push_loop ::
  "u64 \<Rightarrow> string \<Rightarrow> nat \<Rightarrow> DecodedLine list \<Rightarrow> WorkerError + DecodedLine list \<times> nat" where
  "push_loop base pending cursor decoded =
     (case split_once newline (drop cursor pending) of
        None \<Rightarrow> Inr (decoded, cursor)
      | Some (line, _) \<Rightarrow>
          let nl = cursor + length line
          in case decode_line line of
               Inl e \<Rightarrow> Inl e
             | Inr change \<Rightarrow>
                 push_loop base pending (nl + 1)
                   (decoded @ [\<lparr>dl_change = change, dl_end_offset = base + of_nat nl + 1\<rparr>]))"
  by pat_completeness auto
termination
proof (relation "measure (\<lambda>(_, pending, cursor, _). length pending - cursor)", goal_cases)
  case 1
  show ?case by simp
next
  case (2 _ pending cursor _ _ line rest)
  then have "drop cursor pending = line @ newline # rest"
    by (metis split_once_Some)
  then have "length (drop cursor pending) > 0" by simp
  then have "cursor < length pending" by simp
  then show ?case using 2(3) by simp
qed

declare push_loop.simps [simp del]

definition push ::
  "string \<Rightarrow> CompleteLineDecoder \<Rightarrow> (WorkerError + DecodedLine list) \<times> CompleteLineDecoder" where
  "push chunk d =
     (let pending = ld_pending d @ chunk
      in case push_loop (ld_next_offset d) pending 0 [] of
           Inl e \<Rightarrow> (Inl e, d\<lparr>ld_pending := pending\<rparr>)
         | Inr (decoded, cursor) \<Rightarrow>
             (Inr decoded,
              if 0 < cursor
              then d\<lparr>ld_pending := drop cursor pending,
                     ld_next_offset := ld_next_offset d + of_nat cursor\<rparr>
              else d\<lparr>ld_pending := pending\<rparr>))"

definition has_partial_line :: "CompleteLineDecoder \<Rightarrow> bool" where
  "has_partial_line d \<longleftrightarrow> ld_pending d \<noteq> []"

definition content_range_starts_at :: "string \<Rightarrow> u64 \<Rightarrow> bool" where
  "content_range_starts_at value expected_start \<longleftrightarrow>
     Option.bind (Option.bind (strip_prefix value ''bytes '') (split_once CHR ''-''))
       (\<lambda>(start, _). parse_u64 start) = Some expected_start"

text \<open>The first eight bytes of the digest, in network byte order.\<close>

definition from_be_bytes :: "string \<Rightarrow> u64" where
  "from_be_bytes s = foldl (\<lambda>acc c. acc * 256 + of_nat (of_char c)) 0 s"

definition partition_for :: "(string \<Rightarrow> string) \<Rightarrow> string \<Rightarrow> u64 \<Rightarrow> u64" where
  "partition_for sha256 member partitions =
     from_be_bytes (take 8 (sha256 member)) mod max partitions 1"

section \<open>Decoding against a reference\<close>

text \<open>
  The reference: the complete lines of a byte string that starts at offset \<open>off\<close>, each with the
  offset after its newline, and the bytes after the last newline.
\<close>

function decode_lines :: "u64 \<Rightarrow> string \<Rightarrow> WorkerError + DecodedLine list \<times> string" where
  "decode_lines off s =
     (case split_once newline s of
        None \<Rightarrow> Inr ([], s)
      | Some (line, rest) \<Rightarrow>
          (case decode_line line of
             Inl e \<Rightarrow> Inl e
           | Inr change \<Rightarrow>
               let off' = off + of_nat (length line + 1)
               in case decode_lines off' rest of
                    Inl e \<Rightarrow> Inl e
                  | Inr (ds, rem) \<Rightarrow>
                      Inr (\<lparr>dl_change = change, dl_end_offset = off'\<rparr> # ds, rem)))"
  by pat_completeness auto
termination
proof (relation "measure (\<lambda>(_, s). length s)", goal_cases)
  case 1
  show ?case by simp
next
  case (2 _ s _ line rest)
  then have "s = line @ newline # rest" by (metis split_once_Some)
  then show ?case by simp
qed

declare decode_lines.simps [simp del]

lemma decode_lines_partial: "newline \<notin> set s \<Longrightarrow> decode_lines off s = Inr ([], s)"
  by (simp add: decode_lines.simps split_once_None [symmetric])

lemma decode_lines_line:
  "newline \<notin> set line \<Longrightarrow>
   decode_lines off (line @ newline # rest) =
     (case decode_line line of
        Inl e \<Rightarrow> Inl e
      | Inr change \<Rightarrow>
          (case decode_lines (off + of_nat (length line + 1)) rest of
             Inl e \<Rightarrow> Inl e
           | Inr (ds, rem) \<Rightarrow>
               Inr (\<lparr>dl_change = change, dl_end_offset = off + of_nat (length line + 1)\<rparr> # ds, rem)))"
proof -
  assume "newline \<notin> set line"
  then have "split_once newline (line @ newline # rest) = Some (line, rest)"
    by (simp add: split_once_Some)
  then show ?thesis unfolding Let_def by (subst decode_lines.simps) (simp only: option.case prod.case Let_def)
qed

text \<open>Induction over the complete lines of a byte string.\<close>

lemma lines_induct [case_names partial line]:
  assumes "\<And>s. newline \<notin> set s \<Longrightarrow> P s"
    and "\<And>line rest. newline \<notin> set line \<Longrightarrow> P rest \<Longrightarrow> P (line @ newline # rest)"
  shows "P s"
proof (induction "length s" arbitrary: s rule: less_induct)
  case less
  show ?case
  proof (cases "newline \<in> set s")
    case True
    then obtain line rest where "s = line @ newline # rest" "newline \<notin> set line"
      by (meson split_list_first)
    then show ?thesis using less assms(2) by simp
  qed (use assms(1) in simp)
qed

lemma decode_lines_rest:
  "decode_lines off s = Inr (ds, rem) \<Longrightarrow>
     newline \<notin> set rem \<and> (\<exists>done. s = done @ rem \<and> (done = [] \<or> last done = newline))"
proof (induction s arbitrary: off ds rem rule: lines_induct)
  case (partial s)
  then show ?case by (auto simp: decode_lines_partial)
next
  case (line line rest)
  then obtain off' ds' where "decode_lines off' rest = Inr (ds', rem)"
    by (auto simp: decode_lines_line split: sum.splits prod.splits)
  then obtain d where "newline \<notin> set rem" "rest = d @ rem" "d = [] \<or> last d = newline"
    using line.IH by blast
  then have "newline \<notin> set rem" "line @ newline # rest = (line @ newline # d) @ rem"
      "last (line @ newline # d) = newline"
    by auto
  then show ?case by blast
qed

lemma decode_lines_rest_length: "decode_lines off s = Inr (ds, rem) \<Longrightarrow> length rem \<le> length s"
  using decode_lines_rest by fastforce

lemma decode_lines_append:
  "decode_lines off (a @ b) =
     (case decode_lines off a of
        Inl e \<Rightarrow> Inl e
      | Inr (ds, rem) \<Rightarrow>
          (case decode_lines (off + of_nat (length a - length rem)) (rem @ b) of
             Inl e \<Rightarrow> Inl e
           | Inr (ds', rem') \<Rightarrow> Inr (ds @ ds', rem')))"
proof (induction a arbitrary: off rule: lines_induct)
  case (partial s)
  then show ?case by (auto simp: decode_lines_partial split: sum.splits prod.splits)
next
  case (line line rest)
  let ?off = "off + of_nat (length line + 1)"
  show ?case
  proof (cases "decode_lines ?off rest")
    case (Inl e)
    then show ?thesis
      using line by (simp add: decode_lines_line split: sum.splits)
  next
    case (Inr r)
    obtain ds rem where r: "r = (ds, rem)" by force
    have "length rem \<le> length rest" using decode_lines_rest_length Inr r by blast
    then have off: "off + of_nat (length (line @ newline # rest) - length rem)
        = ?off + of_nat (length rest - length rem)"
      by (simp add: of_nat_diff)
    show ?thesis
      using line.hyps Inr r line.IH [of ?off] off
      by (auto simp: decode_lines_line add.assoc simp del: length_append of_nat_add
          split: sum.splits prod.splits)
  qed
qed

lemma push_loop_decode:
  "cursor \<le> length pending \<Longrightarrow>
   push_loop base pending cursor acc =
     (case decode_lines (base + of_nat cursor) (drop cursor pending) of
        Inl e \<Rightarrow> Inl e
      | Inr (ds, rem) \<Rightarrow> Inr (acc @ ds, length pending - length rem))"
proof (induction "drop cursor pending" arbitrary: cursor acc rule: lines_induct)
  case partial
  then have "split_once newline (drop cursor pending) = None" by (simp add: split_once_None)
  then show ?case
    using partial by (simp add: push_loop.simps [of base pending] decode_lines_partial)
next
  case (line line rest)
  have split: "split_once newline (drop cursor pending) = Some (line, rest)"
    using line.hyps by (metis split_once_Some)
  have rest: "rest = drop (cursor + length line + 1) pending"
    using arg_cong [OF line.hyps(3), of "drop (length line + 1)"] by (simp add: add.commute)
  have le: "cursor + length line + 1 \<le> length pending"
    using arg_cong [OF line.hyps(3), of length] by simp
  show ?case
    unfolding line.hyps(3) [symmetric] decode_lines_line [OF line.hyps(1)]
    using line.hyps(2) [OF rest le, folded rest]
    by (simp add: push_loop.simps [of base pending cursor] split algebra_simps
        split: sum.splits prod.splits)
qed

lemma push_eq:
  "push chunk d =
     (case decode_lines (ld_next_offset d) (ld_pending d @ chunk) of
        Inl e \<Rightarrow> (Inl e, d\<lparr>ld_pending := ld_pending d @ chunk\<rparr>)
      | Inr (ds, rem) \<Rightarrow>
          (Inr ds,
           d\<lparr>ld_pending := rem,
             ld_next_offset :=
               ld_next_offset d + of_nat (length (ld_pending d @ chunk) - length rem)\<rparr>))"
proof (cases "decode_lines (ld_next_offset d) (ld_pending d @ chunk)")
  case (Inr r)
  obtain ds rem where r: "r = (ds, rem)" by force
  obtain m where m: "ld_pending d @ chunk = m @ rem" using decode_lines_rest Inr r by blast
  then have "length (ld_pending d @ chunk) - length rem = length m" by (metis length_append add_diff_cancel_right')
  then show ?thesis
    using Inr r m
    by (simp add: push_def push_loop_decode Let_def)
qed (simp add: push_def push_loop_decode)

section \<open>Decoding a stream of chunks\<close>

text \<open>
  The loop over the chunks of a download (the decoding of \<open>apply_file_stream\<close>): every chunk is
  pushed, the first error ends the run.
\<close>

fun push_all ::
  "string list \<Rightarrow> CompleteLineDecoder
     \<Rightarrow> (WorkerError + DecodedLine list) \<times> CompleteLineDecoder" where
  "push_all [] d = (Inr [], d)"
| "push_all (c # cs) d =
     (case push c d of
        (Inl e, d') \<Rightarrow> (Inl e, d')
      | (Inr ds, d') \<Rightarrow>
          (case push_all cs d' of
             (Inl e, d'') \<Rightarrow> (Inl e, d'')
           | (Inr ds', d'') \<Rightarrow> (Inr (ds @ ds'), d'')))"

lemma push_all_decode:
  "newline \<notin> set (ld_pending d) \<Longrightarrow>
   (case decode_lines (ld_next_offset d) (ld_pending d @ concat cs) of
      Inl e \<Rightarrow> fst (push_all cs d) = Inl e
    | Inr (ds, rem) \<Rightarrow>
        push_all cs d =
          (Inr ds,
           d\<lparr>ld_pending := rem,
             ld_next_offset :=
               ld_next_offset d + of_nat (length (ld_pending d @ concat cs) - length rem)\<rparr>))"
proof (induction cs arbitrary: d)
  case Nil
  then show ?case by (simp add: decode_lines_partial)
next
  case (Cons c cs)
  let ?a = "ld_pending d @ c"
  show ?case
  proof (cases "decode_lines (ld_next_offset d) ?a")
    case (Inl e)
    then show ?thesis
      using decode_lines_append [of "ld_next_offset d" ?a "concat cs"] by (simp add: push_eq)
  next
    case (Inr r)
    obtain ds rem where r: "r = (ds, rem)" by force
    obtain m where m: "?a = m @ rem" and part: "newline \<notin> set rem"
      using decode_lines_rest Inr r by blast
    then have lm: "length ?a - length rem = length m" by simp
    define d1 where "d1 = d\<lparr>ld_pending := rem, ld_next_offset := ld_next_offset d + of_nat (length m)\<rparr>"
    have push: "push c d = (Inr ds, d1)" using Inr r lm by (simp add: push_eq d1_def)
    have pend: "ld_pending d1 = rem" by (simp add: d1_def)
    have IH: "case decode_lines (ld_next_offset d1) (rem @ concat cs) of
        Inl e \<Rightarrow> fst (push_all cs d1) = Inl e
      | Inr (ds', rem') \<Rightarrow> push_all cs d1 =
          (Inr ds', d1\<lparr>ld_pending := rem', ld_next_offset :=
             ld_next_offset d1 + of_nat (length (rem @ concat cs) - length rem')\<rparr>)"
      using Cons.IH [of d1] part unfolding pend by simp
    have len: "(of_nat (length m + (length rem + length (concat cs)) - length rem') :: u64)
        = of_nat (length m) + of_nat (length rem + length (concat cs) - length rem')"
      if "decode_lines off (rem @ concat cs) = Inr (ds', rem')" for off ds' rem'
      using decode_lines_rest_length [OF that] by (simp add: of_nat_diff)
    have whole: "ld_pending d @ concat (c # cs) = m @ rem @ concat cs" using m by simp
    have "decode_lines (ld_next_offset d) (m @ rem @ concat cs) =
        (case decode_lines (ld_next_offset d1) (rem @ concat cs) of
           Inl e \<Rightarrow> Inl e | Inr (ds', rem') \<Rightarrow> Inr (ds @ ds', rem'))"
      using decode_lines_append [of "ld_next_offset d" ?a "concat cs"] Inr r lm m
      by (simp add: d1_def)
    then show ?thesis
      unfolding whole using IH
      by (cases "decode_lines (ld_next_offset d1) (rem @ concat cs)")
        (auto simp: push len d1_def add.assoc split: prod.splits)
  qed
qed

text \<open>
  Decoding does not depend on how the bytes of a file arrive. Pushing the chunks of a
  download one by one gives the lines, or the error, that pushing all bytes at once gives, and
  leaves the decoder in the same state, so a line split between chunks is read as one line.
\<close>

theorem decoding_chunk_independent:
  "fst (push_all cs (decoder_new start)) = fst (push (concat cs) (decoder_new start))
   \<and> (isl (fst (push (concat cs) (decoder_new start)))
      \<or> push_all cs (decoder_new start) = push (concat cs) (decoder_new start))"
  using push_all_decode [of "decoder_new start" cs]
  by (auto simp: push_eq decoder_new_def split: sum.splits)

lemma decode_lines_resume:
  "decode_lines off s = Inr (ds, rem) \<Longrightarrow> i < length ds \<Longrightarrow>
     \<exists>k. 0 < k \<and> k \<le> length s \<and> s ! (k - 1) = newline
        \<and> dl_end_offset (ds ! i) = off + of_nat k
        \<and> decode_lines (off + of_nat k) (drop k s) = Inr (drop (Suc i) ds, rem)"
proof (induction s arbitrary: off ds i rule: lines_induct)
  case (partial s)
  then show ?case by (simp add: decode_lines_partial)
next
  case (line line rest)
  let ?off = "off + of_nat (length line + 1)"
  obtain ch ds' where ds: "ds = \<lparr>dl_change = ch, dl_end_offset = ?off\<rparr> # ds'"
    and rest: "decode_lines ?off rest = Inr (ds', rem)"
    using line by (auto simp: decode_lines_line split: sum.splits prod.splits)
  show ?case
  proof (cases i)
    case 0
    then show ?thesis using ds rest by (intro exI [of _ "length line + 1"]) (simp add: nth_append)
  next
    case (Suc j)
    then obtain k where k: "0 < k" "k \<le> length rest" "rest ! (k - 1) = newline"
        "dl_end_offset (ds' ! j) = ?off + of_nat k"
        "decode_lines (?off + of_nat k) (drop k rest) = Inr (drop (Suc j) ds', rem)"
      using line.IH [OF rest, of j] line.prems ds by auto
    have "?off + of_nat k = off + of_nat (length line + 1 + k)" by simp
    then show ?thesis
      using k ds Suc
      by (intro exI [of _ "length line + 1 + k"]) (simp add: nth_append nth_Cons' algebra_simps)
  qed
qed

text \<open>
  A checkpoint is a safe place to resume. When a file decodes, the end offset of each
  of its lines is the position after a newline, and decoding the file again from there, with a
  new decoder, gives exactly the lines that follow, with the same offsets, and the same
  unfinished line at the end.
\<close>

theorem checkpoint_resume:
  assumes "push file (decoder_new start) = (Inr ds, d)" and "i < length ds"
  shows "\<exists>k. 0 < k \<and> k \<le> length file \<and> file ! (k - 1) = newline
    \<and> dl_end_offset (ds ! i) = start + of_nat k
    \<and> push (drop k file) (decoder_new (dl_end_offset (ds ! i))) = (Inr (drop (Suc i) ds), d)"
proof -
  obtain rem where dec: "decode_lines start file = Inr (ds, rem)"
    and d: "d = \<lparr>ld_pending = rem, ld_next_offset = start + of_nat (length file - length rem)\<rparr>"
    using assms(1) by (auto simp: push_eq decoder_new_def split: sum.splits prod.splits)
  obtain k where k: "0 < k" "k \<le> length file" "file ! (k - 1) = newline"
      "dl_end_offset (ds ! i) = start + of_nat k"
      "decode_lines (start + of_nat k) (drop k file) = Inr (drop (Suc i) ds, rem)"
    using decode_lines_resume [OF dec assms(2)] by blast
  have "length rem \<le> length file - k" using decode_lines_rest_length [OF k(5)] by simp
  then have "start + of_nat k + of_nat (length file - k - length rem)
      = start + of_nat (length file - length rem)"
    using k(2) by (simp add: of_nat_diff)
  then show ?thesis using k d by (intro exI [of _ k]) (simp add: push_eq decoder_new_def)
qed

definition sample_file :: string where
  "sample_file = ''+a'' @ [carriage_return, newline, newline] @ ''-b'' @ [newline] @ ''+pa''"

lemmas decode_eval =
  decode_line_def strip_cr_def parse_change_line_def from_utf8_ok_def utf8_cont_def

lemma sample_push:
  "push sample_file (decoder_new 100) =
     (Inr [\<lparr>dl_change = Some \<lparr>fc_add = True, fc_member = ''a''\<rparr>, dl_end_offset = 104\<rparr>,
           \<lparr>dl_change = None, dl_end_offset = 105\<rparr>,
           \<lparr>dl_change = Some \<lparr>fc_add = False, fc_member = ''b''\<rparr>, dl_end_offset = 108\<rparr>],
      \<lparr>ld_pending = ''+pa'', ld_next_offset = 108\<rparr>)"
  by (simp add: push_def decoder_new_def sample_file_def push_loop.simps decode_eval)

theorem checkpoint_resume_witness:
  "\<exists>k. 0 < k \<and> k \<le> length sample_file \<and> sample_file ! (k - 1) = newline
    \<and> (104 :: u64) = 100 + of_nat k
    \<and> push (drop k sample_file) (decoder_new 104) =
        (Inr [\<lparr>dl_change = None, dl_end_offset = 105\<rparr>,
              \<lparr>dl_change = Some \<lparr>fc_add = False, fc_member = ''b''\<rparr>, dl_end_offset = 108\<rparr>],
         \<lparr>ld_pending = ''+pa'', ld_next_offset = 108\<rparr>)"
  using checkpoint_resume [OF sample_push, of 0] by simp

section \<open>Files of changes\<close>

text \<open>A file is written as one line per change.\<close>

definition render_change :: "FileChange \<Rightarrow> string" where
  "render_change ch = (if fc_add ch then CHR ''+'' else CHR ''-'') # fc_member ch @ [newline]"

definition change_ok :: "FileChange \<Rightarrow> bool" where
  "change_ok ch \<longleftrightarrow> fc_member ch \<noteq> [] \<and> from_utf8_ok (fc_member ch) \<and> newline \<notin> set (fc_member ch)
     \<and> last (fc_member ch) \<noteq> carriage_return"

lemma decode_line_render:
  "change_ok ch \<Longrightarrow>
     decode_line ((if fc_add ch then CHR ''+'' else CHR ''-'') # fc_member ch) = Inr (Some ch)"
  by (auto simp: change_ok_def decode_line_def strip_cr_def parse_change_line_def)

lemma decode_lines_render:
  assumes "list_all change_ok cs" and "newline \<notin> set part"
  shows "\<exists>ds. decode_lines off (concat (map render_change cs) @ part) = Inr (ds, part)
    \<and> map dl_change ds = map Some cs"
  using assms
proof (induction cs arbitrary: off)
  case Nil
  then show ?case by (simp add: decode_lines_partial)
next
  case (Cons ch cs)
  define line where "line = (if fc_add ch then CHR ''+'' else CHR ''-'') # fc_member ch"
  have ch: "decode_line line = Inr (Some ch)" and nl: "newline \<notin> set line"
    using Cons.prems decode_line_render by (auto simp: line_def change_ok_def)
  have render: "concat (map render_change (ch # cs)) @ part
      = line @ newline # concat (map render_change cs) @ part"
    by (simp add: render_change_def line_def)
  obtain ds where "decode_lines (off + of_nat (length line + 1)) (concat (map render_change cs) @ part)
      = Inr (ds, part)" "map dl_change ds = map Some cs"
    using Cons by fastforce
  then show ?case
    unfolding render by (simp add: decode_lines_line [OF nl] ch)
qed

text \<open>
  C37: reading a file gives back the changes it was written from, in their order. For changes
  whose members are non-empty UTF-8 without a newline and do not end in a carriage return, the
  bytes of the file, followed by an unfinished line and cut into chunks anywhere, decode to
  exactly these changes, and the unfinished line stays in the buffer.
\<close>

theorem change_file_roundtrip:
  assumes "list_all change_ok changes" and "newline \<notin> set part"
    and "concat chunks = concat (map render_change changes) @ part"
  shows "\<exists>ds d. push_all chunks (decoder_new start) = (Inr ds, d)
    \<and> map dl_change ds = map Some changes \<and> ld_pending d = part
    \<and> (has_partial_line d \<longleftrightarrow> part \<noteq> [])"
proof -
  obtain ds where "decode_lines start (concat chunks) = Inr (ds, part)"
      "map dl_change ds = map Some changes"
    using decode_lines_render [OF assms(1,2)] assms(3) by metis
  then show ?thesis
    using push_all_decode [of "decoder_new start" chunks]
    by (simp add: decoder_new_def has_partial_line_def)
qed

theorem change_file_roundtrip_witness:
  "\<exists>ds d. push_all [''+'', ''a'' @ [newline] @ ''-b'', [newline], ''+p''] (decoder_new 7) = (Inr ds, d)
    \<and> map dl_change ds =
        map Some [\<lparr>fc_add = True, fc_member = ''a''\<rparr>, \<lparr>fc_add = False, fc_member = ''b''\<rparr>]
    \<and> ld_pending d = ''+p'' \<and> (has_partial_line d \<longleftrightarrow> ''+p'' \<noteq> [])"
  by (rule change_file_roundtrip)
    (simp_all add: change_ok_def render_change_def from_utf8_ok_def)

end
