(* ===== verification/FileDownload.thy ===== *)
theory FileDownload
  imports LineDecoder
begin

text \<open>
  Downloading an id-list file: \<open>idlist_membership/worker/download.rs\<close>. The request for a range
  (in the query for the CDN, in headers for other origins), the checks on a response, and the
  stream of bounded chunks. The URL parser and the origin are arguments.
\<close>

section \<open>Requests and responses\<close>

text \<open>
  What the code uses of a parsed URL: its host, everything before the query, the query as it is
  written, and the decoded query pairs.
\<close>

record DownloadUrl =
  du_host :: "string option"
  du_base :: string
  du_query :: "string option"
  du_pairs :: "(string \<times> string) list"

datatype download_query =
    RawQuery "string option"
  | QueryPairs "(string \<times> string) list"

record DownloadRequest =
  dr_base :: string
  dr_query :: download_query
  dr_headers :: "(string \<times> string) list"

text \<open>
  A response whose body is read as a stream: the header values that are visible text, the length
  the origin announced, and the pieces of the body, each of which can fail.
\<close>

record StreamResponse =
  sr_status :: nat
  sr_header :: "string \<Rightarrow> string option"
  sr_content_length :: "nat option"
  sr_body :: "(reqwest_error + string) list"

type_synonym 'n stream_sender =
  "DownloadRequest \<Rightarrow> 'n \<Rightarrow> (reqwest_error + StreamResponse) \<times> 'n"

type_synonym download_url_parser = "string \<Rightarrow> DownloadUrl option"

definition is_cdn :: "DownloadUrl \<Rightarrow> bool" where
  "is_cdn u \<longleftrightarrow> du_host u = Some ''api.statsigcdn.com''"

definition build_download_request ::
  "download_url_parser \<Rightarrow> string \<Rightarrow> string \<Rightarrow> u64 \<Rightarrow> WorkerError + DownloadRequest" where
  "build_download_request parse_url url rng file_size =
     (case parse_url url of
        None \<Rightarrow> Inl (InvalidTask ''invalid download URL'')
      | Some u \<Rightarrow>
          if is_cdn u then
            Inr \<lparr>dr_base = du_base u,
                 dr_query = QueryPairs
                   (filter (\<lambda>(name, _). \<not> eq_ignore_ascii_case name ''range'') (du_pairs u)
                    @ [(''range'', rng)]),
                 dr_headers = [(''accept-encoding'', ''identity'')]\<rparr>
          else
            Inr \<lparr>dr_base = du_base u, dr_query = RawQuery (du_query u),
                 dr_headers = [(''accept-encoding'', ''identity''), (''range'', ''bytes='' @ rng),
                               (''statsig-id-list-file-size'', show_u64 file_size)]\<rparr>)"

definition download_chunk_bytes :: u64 where
  "download_chunk_bytes = 4 * 1024 * 1024"

definition check_encoding :: "StreamResponse \<Rightarrow> WorkerError + unit" where
  "check_encoding r =
     (case sr_header r ''content-encoding'' of
        Some enc \<Rightarrow>
          if \<not> eq_ignore_ascii_case enc ''identity''
          then Inl (InvalidFile ''origin returned encoded bytes'') else Inr ()
      | None \<Rightarrow> Inr ())"

section \<open>One chunk\<close>

text \<open>The last byte and the total of a \<open>Content-Range\<close> header, \<open>bytes s-l/t\<close>.\<close>

definition parse_content_range :: "string \<Rightarrow> (u64 \<times> u64) option" where
  "parse_content_range value =
     Option.bind (Option.bind (strip_prefix value ''bytes '') (split_once CHR ''/''))
       (\<lambda>(rng, tot).
          Option.bind (split_once CHR ''-'' rng) (\<lambda>(_, last_byte).
            Option.bind (parse_u64 last_byte) (\<lambda>l. Option.bind (parse_u64 tot) (\<lambda>t. Some (l, t)))))"

definition content_range_value :: "StreamResponse \<Rightarrow> string" where
  "content_range_value r = (case sr_header r ''content-range'' of None \<Rightarrow> [] | Some v \<Rightarrow> v)"

text \<open>
  The length that the body must have and the size of the whole file, by the status and the
  \<open>Content-Range\<close> header; a full response is taken only for a request from the start.
\<close>

definition expected_of_response ::
  "StreamResponse \<Rightarrow> u64 \<Rightarrow> u64 \<Rightarrow> WorkerError + u64 option \<times> u64 option" where
  "expected_of_response r start stop =
     (if sr_status r = 206 then
        (case parse_content_range (content_range_value r) of
           None \<Rightarrow> Inl (InvalidFile ''unexpected Content-Range'')
         | Some (l, tot) \<Rightarrow>
             if content_range_starts_at (content_range_value r) start \<and> l < tot \<and> start \<le> l
                \<and> l = min stop (tot - 1)
             then Inr (Some (l - start + 1), Some tot)
             else Inl (InvalidFile ''unexpected Content-Range''))
      else if sr_status r = 200 \<and> start = 0 then Inr (None, None)
      else Inl RangeIgnored)"

fun collect_body :: "nat \<Rightarrow> string \<Rightarrow> (reqwest_error + string) list \<Rightarrow> WorkerError + string" where
  "collect_body limit body [] = Inr body"
| "collect_body limit body (Inl e # _) = Inl (worker_error_of_reqwest e)"
| "collect_body limit body (Inr chunk # rest) =
     (if limit < length body + length chunk then Inl RangeIgnored
      else collect_body limit (body @ chunk) rest)"

text \<open>The answer to the request for the bytes \<open>start\<close> to \<open>stop\<close>, both included.\<close>

definition receive_chunk ::
  "StreamResponse \<Rightarrow> u64 \<Rightarrow> u64 \<Rightarrow> WorkerError + string \<times> u64" where
  "receive_chunk r start stop =
     (if \<not> is_success (sr_status r) then Inl (OriginStatus (sr_status r))
      else (case expected_of_response r start stop of
          Inl e \<Rightarrow> Inl e
        | Inr (expected_len, tot) \<Rightarrow>
            (case check_encoding r of
               Inl e \<Rightarrow> Inl e
             | Inr _ \<Rightarrow>
                 let limit = unat (stop - start + 1)
                 in if (case sr_content_length r of None \<Rightarrow> False | Some len \<Rightarrow> limit < len)
                    then Inl RangeIgnored
                    else (case collect_body limit [] (sr_body r) of
                        Inl e \<Rightarrow> Inl e
                      | Inr body \<Rightarrow>
                          if (case expected_len of None \<Rightarrow> False | Some len \<Rightarrow> unat len \<noteq> length body)
                          then Inl (InvalidFile ''truncated download chunk'')
                          else Inr (body, case tot of Some t \<Rightarrow> t | None \<Rightarrow> of_nat (length body))))))"

definition range_text :: "u64 \<Rightarrow> u64 \<Rightarrow> string" where
  "range_text start stop = show_u64 start @ ''-'' @ show_u64 stop"

definition download_chunk ::
  "'n stream_sender \<Rightarrow> download_url_parser \<Rightarrow> string \<Rightarrow> u64 \<Rightarrow> u64 \<Rightarrow> u64 \<Rightarrow> 'n
     \<Rightarrow> (WorkerError + string \<times> u64) \<times> 'n" where
  "download_chunk send parse_url url start stop file_size n =
     (if stop < start then (Inl (InvalidTask ''invalid download range''), n)
      else (case build_download_request parse_url url (range_text start stop) file_size of
          Inl e \<Rightarrow> (Inl e, n)
        | Inr req \<Rightarrow>
            (case send req n of
               (Inl e, n') \<Rightarrow> (Inl (worker_error_of_reqwest e), n')
             | (Inr r, n') \<Rightarrow> (receive_chunk r start stop, n'))))"

section \<open>The stream of chunks\<close>

text \<open>
  The chunks that the stream yields up to its end or its first error. The size of the snapshot is
  the total that the first response announced. The loop is not bounded by its text: \<open>None\<close>
  would be a stream that never ends.
\<close>

definition chunk_stop :: "u64 \<Rightarrow> u64 \<Rightarrow> u64 option \<Rightarrow> u64" where
  "chunk_stop chunk_bytes offset snapshot_size =
     min (sat_add offset (chunk_bytes - 1))
       (sat_sub (case snapshot_size of None \<Rightarrow> - 1 | Some tot \<Rightarrow> tot) 1)"

partial_function (option) chunked_stream ::
  "'n stream_sender \<Rightarrow> download_url_parser \<Rightarrow> string \<Rightarrow> u64 \<Rightarrow> u64 \<Rightarrow> u64 \<Rightarrow> u64 option \<Rightarrow> 'n
     \<Rightarrow> ((string list \<times> WorkerError option) \<times> 'n) option" where
  "chunked_stream send parse_url url file_size chunk_bytes offset snapshot_size n =
     (if (case snapshot_size of None \<Rightarrow> False | Some tot \<Rightarrow> tot \<le> offset)
      then Some (([], None), n)
      else (case download_chunk send parse_url url offset
                   (chunk_stop chunk_bytes offset snapshot_size) file_size n of
          (Inl e, n') \<Rightarrow> Some (([], Some e), n')
        | (Inr (chunk, tot), n') \<Rightarrow>
            Option.bind
              (chunked_stream send parse_url url file_size chunk_bytes
                 (offset + of_nat (length chunk))
                 (Some (case snapshot_size of None \<Rightarrow> tot | Some t \<Rightarrow> t)) n')
              (\<lambda>((chunks, err), n''). Some ((chunk # chunks, err), n''))))"

text \<open>The pieces of a body that is not cut into ranges, up to its first error.\<close>

fun body_stream :: "(reqwest_error + string) list \<Rightarrow> string list \<times> WorkerError option" where
  "body_stream [] = ([], None)"
| "body_stream (Inl e # _) = ([], Some (worker_error_of_reqwest e))"
| "body_stream (Inr chunk # rest) = (case body_stream rest of (cs, err) \<Rightarrow> (chunk # cs, err))"

definition download_file ::
  "'n stream_sender \<Rightarrow> download_url_parser \<Rightarrow> string \<Rightarrow> u64 \<Rightarrow> u64 \<Rightarrow> 'n
     \<Rightarrow> ((WorkerError + string list \<times> WorkerError option) \<times> 'n) option" where
  "download_file send parse_url url start file_size n =
     (case build_download_request parse_url url (show_u64 start @ ''-'') file_size of
        Inl e \<Rightarrow> Some (Inl e, n)
      | Inr req \<Rightarrow>
          if (case parse_url url of None \<Rightarrow> False | Some u \<Rightarrow> is_cdn u) then
            Option.bind
              (chunked_stream send parse_url url file_size download_chunk_bytes start None n)
              (\<lambda>(s, n'). Some (Inr s, n'))
          else
            Some (case send req n of
                (Inl e, n') \<Rightarrow> (Inl (worker_error_of_reqwest e), n')
              | (Inr r, n') \<Rightarrow>
                  (if \<not> is_success (sr_status r) then Inl (OriginStatus (sr_status r))
                   else if 0 < start \<and> sr_status r \<noteq> 206 then Inl RangeIgnored
                   else if 0 < start \<and> \<not> (case sr_header r ''content-range'' of
                              None \<Rightarrow> False | Some v \<Rightarrow> content_range_starts_at v start)
                   then Inl (InvalidFile ''unexpected Content-Range'')
                   else (case check_encoding r of
                       Inl e \<Rightarrow> Inl e
                     | Inr _ \<Rightarrow> Inr (body_stream (sr_body r))), n')))"

section \<open>What an accepted chunk is\<close>

lemma collect_body_bounded:
  "collect_body limit body xs = Inr b \<Longrightarrow> length body \<le> limit \<Longrightarrow> length b \<le> limit"
  by (induction limit body xs rule: collect_body.induct) (auto split: if_splits)

lemma receive_chunk_ok:
  assumes "receive_chunk r start stop = Inr (c, t)" and "start \<le> stop" and "stop < - 1"
  shows "length c \<le> unat stop - unat start + 1" "unat start + length c \<le> unat t"
    "c = [] \<Longrightarrow> start = 0 \<and> t = 0"
proof -
  obtain len tot where e: "expected_of_response r start stop = Inr (len, tot)"
    and b: "collect_body (unat (stop - start + 1)) [] (sr_body r) = Inr c"
    and len: "\<And>l. len = Some l \<Longrightarrow> unat l = length c"
    and t: "t = (case tot of Some t \<Rightarrow> t | None \<Rightarrow> of_nat (length c))"
    using assms(1) by (auto simp: receive_chunk_def Let_def split: if_splits sum.splits option.splits)
  show bound: "length c \<le> unat stop - unat start + 1"
    using collect_body_bounded [OF b] unat_span [OF assms(2,3)] by simp
  have "unat start + length c \<le> unat t \<and> (c = [] \<longrightarrow> start = 0 \<and> t = 0)"
  proof (cases "sr_status r = 206")
    case True
    then obtain l where l: "l < t" "start \<le> l" "len = Some (l - start + 1)"
      using e t by (auto simp: expected_of_response_def split: if_splits option.splits)
    have "l < - 1" using l(1) by (meson order_less_le_trans word_order.extremum)
    then have "length c = unat l - unat start + 1" using len l(2,3) unat_span by metis
    moreover have "unat l < unat t" "unat start \<le> unat l"
      using l by (simp_all add: word_less_nat_alt word_le_nat_alt)
    ultimately show ?thesis by auto
  next
    case False
    then have "start = 0" "tot = None"
      using e by (auto simp: expected_of_response_def split: if_splits option.splits)
    moreover have "length c < 2 ^ 64"
      using bound assms(3) by (simp add: u64_below_max \<open>start = 0\<close>)
    ultimately show ?thesis using t by (simp add: unat_of_nat_below)
  qed
  then show "unat start + length c \<le> unat t" "c = [] \<Longrightarrow> start = 0 \<and> t = 0" by auto
qed

lemma chunk_stop_bounds:
  assumes "case snap of None \<Rightarrow> True | Some t \<Rightarrow> offset < t"
  shows "chunk_stop cb offset snap < - 1"
    "snap = Some t \<Longrightarrow> unat (chunk_stop cb offset snap) < unat t"
    "0 < cb \<Longrightarrow> unat (chunk_stop cb offset snap) < unat offset + unat cb"
proof -
  let ?t = "case snap of None \<Rightarrow> - 1 | Some t \<Rightarrow> t"
  have t: "0 < unat ?t"
    using assms by (auto simp: word_less_nat_alt unat_max_u64 split: option.splits)
  have stop: "unat (chunk_stop cb offset snap) \<le> unat ?t - 1"
    "unat (chunk_stop cb offset snap) \<le> unat offset + unat (cb - 1)"
    by (auto simp: chunk_stop_def unat_sat_sub unat_sat_add min_def word_le_nat_alt)
  show "chunk_stop cb offset snap < - 1"
    using stop(1) t unat_u64_less [of ?t] by (simp add: u64_below_max)
  show "unat (chunk_stop cb offset snap) < unat t" if "snap = Some t"
    using stop(1) t that by simp
  show "unat (chunk_stop cb offset snap) < unat offset + unat cb" if "0 < cb"
  proof -
    have "1 \<le> cb" using that by (simp add: word_le_nat_alt word_less_nat_alt)
    then have "unat (cb - 1) = unat cb - 1" by (simp add: unat_sub)
    then show ?thesis using stop(2) that by (simp add: word_less_nat_alt)
  qed
qed

text \<open>One step of the stream: what a chunk that was accepted does to the offset.\<close>

lemma download_chunk_ok:
  assumes "download_chunk send p url offset (chunk_stop cb offset snap) fs n = (Inr (c, t), n')"
    and "case snap of None \<Rightarrow> True | Some t \<Rightarrow> offset < t" and "0 < cb"
  shows "length c \<le> unat cb" "unat offset + length c \<le> unat t"
    "snap = Some t0 \<Longrightarrow> unat offset + length c \<le> unat t0"
    "c = [] \<Longrightarrow> offset = 0 \<and> t = 0"
proof -
  let ?stop = "chunk_stop cb offset snap"
  obtain r where r: "receive_chunk r offset ?stop = Inr (c, t)" and le: "offset \<le> ?stop"
    using assms(1) by (auto simp: download_chunk_def split: if_splits sum.splits prod.splits)
  note ok = receive_chunk_ok [OF r le chunk_stop_bounds(1) [OF assms(2)]]
  have "unat offset \<le> unat ?stop" using le by (simp add: word_le_nat_alt)
  then show "length c \<le> unat cb" "snap = Some t0 \<Longrightarrow> unat offset + length c \<le> unat t0"
    using ok(1) chunk_stop_bounds(2) [OF assms(2), of t0 cb] chunk_stop_bounds(3) [OF assms(2,3)]
    by auto
  show "unat offset + length c \<le> unat t" "c = [] \<Longrightarrow> offset = 0 \<and> t = 0" using ok by auto
qed

section \<open>The stream ends, and is exact\<close>

lemma chunked_stream_done:
  "t \<le> offset \<Longrightarrow> chunked_stream send p url fs cb offset (Some t) n = Some (([], None), n)"
  by (simp add: chunked_stream.simps)

lemma chunked_stream_step:
  "(case snap of None \<Rightarrow> True | Some t \<Rightarrow> offset < t) \<Longrightarrow>
   chunked_stream send p url fs cb offset snap n =
     (case download_chunk send p url offset (chunk_stop cb offset snap) fs n of
        (Inl e, n') \<Rightarrow> Some (([], Some e), n')
      | (Inr (chunk, tot), n') \<Rightarrow>
          Option.bind
            (chunked_stream send p url fs cb (offset + of_nat (length chunk))
               (Some (case snap of None \<Rightarrow> tot | Some t \<Rightarrow> t)) n')
            (\<lambda>((chunks, err), n''). Some ((chunk # chunks, err), n'')))"
  by (subst chunked_stream.simps) (auto split: option.splits)

lemma unat_offset_add:
  "unat offset + k \<le> unat t \<Longrightarrow> unat (offset + of_nat k) = unat offset + k"
  for offset t :: u64
  using unat_u64_less [of t] by (simp add: unat_word_ariths unat_of_nat)

text \<open>What a stream gives when \<open>t\<close> bytes are left: its chunks are bounded, and it ends at \<open>t\<close>.\<close>

definition stream_ok :: "u64 \<Rightarrow> nat \<Rightarrow> nat \<Rightarrow> string list \<times> WorkerError option \<Rightarrow> bool" where
  "stream_ok cb offset t s \<longleftrightarrow>
     list_all (\<lambda>c. length c \<le> unat cb) (fst s) \<and> offset + length (concat (fst s)) \<le> t
     \<and> (snd s = None \<longrightarrow> offset + length (concat (fst s)) = t)"

lemma chunked_stream_known:
  assumes "0 < cb" and "offset \<noteq> 0 \<or> t = 0" and "offset \<le> t"
  shows "\<exists>s n'. chunked_stream send p url fs cb offset (Some t) n = Some (s, n')
    \<and> stream_ok cb (unat offset) (unat t) s"
  using assms(2,3)
proof (induction "unat t - unat offset" arbitrary: offset n rule: less_induct)
  case less
  show ?case
  proof (cases "t \<le> offset")
    case True
    then show ?thesis using less.prems(2) by (simp add: chunked_stream_done stream_ok_def)
  next
    case False
    then have lt: "offset < t" by simp
    note step = chunked_stream_step [where snap = "Some t", simplified, OF lt, of send p url fs cb n]
    show ?thesis
    proof (cases "download_chunk send p url offset (chunk_stop cb offset (Some t)) fs n")
      case (Pair res n1)
      show ?thesis
      proof (cases res)
        case (Inl e)
        then show ?thesis
          using step Pair less.prems(2) by (simp add: stream_ok_def word_le_nat_alt)
      next
        case (Inr ct)
        obtain c tot where ct: "ct = (c, tot)" by force
        note ok = download_chunk_ok [OF Pair [unfolded Inr ct], simplified, OF lt assms(1)]
        have next_off: "unat (offset + of_nat (length c)) = unat offset + length c"
          using unat_offset_add ok(3) by blast
        have "c \<noteq> []" using ok(4) less.prems(1) lt by fastforce
        then have less: "unat t - unat (offset + of_nat (length c)) < unat t - unat offset"
          using next_off lt by (cases c) (simp_all add: word_less_nat_alt)
        have nz: "offset + of_nat (length c) \<noteq> 0"
          using \<open>c \<noteq> []\<close> next_off by (metis add_is_0 length_0_conv unsigned_0)
        have le: "offset + of_nat (length c) \<le> t" using next_off ok(3) by (simp add: word_le_nat_alt)
        obtain s n' where "chunked_stream send p url fs cb (offset + of_nat (length c)) (Some t) n1
            = Some (s, n')" "stream_ok cb (unat offset + length c) (unat t) s"
          using less.hyps [OF less _ le, of n1] nz next_off by auto
        then show ?thesis
          using step Pair Inr ct ok(1)
          by (cases s) (auto simp: stream_ok_def)
      qed
    qed
  qed
qed

lemma chunked_stream_ends:
  assumes "0 < chunk_bytes"
  shows "\<exists>chunks err n'.
    chunked_stream send parse_url url file_size chunk_bytes start None n = Some ((chunks, err), n')
    \<and> list_all (\<lambda>c. length c \<le> unat chunk_bytes) chunks
    \<and> (case download_chunk send parse_url url start (chunk_stop chunk_bytes start None) file_size n of
         (Inl e, _) \<Rightarrow> chunks = [] \<and> err = Some e
       | (Inr (c, tot), _) \<Rightarrow>
           unat start + length (concat chunks) \<le> unat tot
           \<and> (err = None \<longrightarrow> unat start + length (concat chunks) = unat tot))"
proof (cases "download_chunk send parse_url url start (chunk_stop chunk_bytes start None) file_size n")
  case (Pair res n1)
  note step = chunked_stream_step [where snap = None, simplified, of send parse_url url file_size chunk_bytes start n]
  show ?thesis
  proof (cases res)
    case (Inl e)
    then show ?thesis using step Pair by simp
  next
    case (Inr ct)
    obtain c t where ct: "ct = (c, t)" by force
    note ok = download_chunk_ok [OF Pair [unfolded Inr ct] _ assms, simplified]
    have next_off: "unat (start + of_nat (length c)) = unat start + length c"
      using unat_offset_add ok(2) by blast
    have nz: "start + of_nat (length c) \<noteq> 0 \<or> t = 0"
      using ok(4) next_off by (metis add_is_0 length_0_conv unsigned_0)
    have le: "start + of_nat (length c) \<le> t" using next_off ok(2) by (simp add: word_le_nat_alt)
    obtain s n' where
        "chunked_stream send parse_url url file_size chunk_bytes (start + of_nat (length c)) (Some t) n1
          = Some (s, n')" "stream_ok chunk_bytes (unat start + length c) (unat t) s"
      using chunked_stream_known [OF assms nz le, of send parse_url url file_size n1] next_off
      by auto
    then show ?thesis
      using step Pair Inr ct ok(1) by (cases s) (auto simp: stream_ok_def add.assoc)
  qed
qed

text \<open>
  C10: the chunked download of a file always ends, and what it delivers is exact. Every chunk
  has at most the configured number of bytes; unless the first request fails, the bytes of the
  stream start at the requested offset and never run past the size that the first response
  announced; and when no error is reported, they end exactly there, so a
  truncated download is never taken for a complete one.
\<close>

theorem chunked_stream_exact:
  assumes "0 < chunk_bytes"
  shows "\<exists>chunks err n'.
    chunked_stream send parse_url url file_size chunk_bytes start None n = Some ((chunks, err), n')
    \<and> list_all (\<lambda>c. length c \<le> unat chunk_bytes) chunks
    \<and> (case download_chunk send parse_url url start (chunk_stop chunk_bytes start None) file_size n of
         (Inl e, _) \<Rightarrow> chunks = [] \<and> err = Some e
       | (Inr (c, tot), _) \<Rightarrow>
           unat start + length (concat chunks) \<le> unat tot
           \<and> (err = None \<longrightarrow> unat start + length (concat chunks) = unat tot))"
  using assms by (rule chunked_stream_ends)

section \<open>An origin that serves ranges\<close>

text \<open>
  What the protocol asks of an origin: the answer to a request for the bytes \<open>start\<close> to \<open>stop\<close> of
  a file is partial content, says which bytes it has and how long the file is, and carries these
  bytes unencoded, in pieces of any size.
\<close>

definition range_last :: "string \<Rightarrow> u64 \<Rightarrow> nat" where
  "range_last file stop = min (unat stop) (length file - 1)"

definition honest_range :: "string \<Rightarrow> u64 \<Rightarrow> u64 \<Rightarrow> StreamResponse \<Rightarrow> bool" where
  "honest_range file start stop r \<longleftrightarrow>
     (let l = range_last file stop
      in sr_status r = 206
         \<and> sr_header r ''content-range'' =
             Some (''bytes '' @ show_u64 start @ ''-'' @ show_nat l @ ''/'' @ show_nat (length file))
         \<and> sr_header r ''content-encoding'' = None
         \<and> (sr_content_length r = None \<or> sr_content_length r = Some (l + 1 - unat start))
         \<and> (\<exists>pieces. sr_body r = map Inr pieces
              \<and> concat pieces = take (l + 1 - unat start) (drop (unat start) file)))"

definition serves_ranges ::
  "'n stream_sender \<Rightarrow> download_url_parser \<Rightarrow> string \<Rightarrow> string \<Rightarrow> bool" where
  "serves_ranges send parse_url url file \<longleftrightarrow>
     (\<forall>start stop file_size req n. start \<le> stop \<longrightarrow> unat start < length file \<longrightarrow>
        build_download_request parse_url url (range_text start stop) file_size = Inr req \<longrightarrow>
        (\<exists>r n'. send req n = (Inr r, n') \<and> honest_range file start stop r))"

lemma digits_no_sep: "\<not> is_digit c \<Longrightarrow> c \<notin> set (show_nat n)"
  using show_nat_digits [of n] by (auto simp: list_all_iff)

lemma content_range_parses:
  assumes "l < 2 ^ 64" and "t < 2 ^ 64"
  shows "parse_content_range (''bytes '' @ show_u64 start @ ''-'' @ show_nat l @ ''/'' @ show_nat t)
      = Some (of_nat l, of_nat t)"
    "content_range_starts_at (''bytes '' @ show_u64 start @ ''-'' @ show_nat l @ ''/'' @ show_nat t) start"
proof -
  have sep: "CHR ''/'' \<notin> set (show_nat n)" "CHR ''-'' \<notin> set (show_nat n)" for n
    by (auto intro!: digits_no_sep simp: is_digit_def)
  have slash: "split_once CHR ''/'' (show_u64 start @ ''-'' @ show_nat l @ ''/'' @ show_nat t)
      = Some (show_u64 start @ ''-'' @ show_nat l, show_nat t)"
    using sep by (simp add: split_once_Some show_u64_def)
  have dash: "split_once CHR ''-'' (show_u64 start @ ''-'' @ rest) = Some (show_u64 start, rest)" for rest
    using sep by (simp add: split_once_Some show_u64_def)
  show "parse_content_range (''bytes '' @ show_u64 start @ ''-'' @ show_nat l @ ''/'' @ show_nat t)
      = Some (of_nat l, of_nat t)"
    unfolding parse_content_range_def strip_prefix_append
    using assms by (simp add: slash [simplified] dash [simplified] parse_u64_of_nat)
  show "content_range_starts_at (''bytes '' @ show_u64 start @ ''-'' @ show_nat l @ ''/'' @ show_nat t) start"
    unfolding content_range_starts_at_def strip_prefix_append
    by (simp add: dash [simplified] parse_u64_show_u64)
qed

lemma collect_body_pieces:
  "length body + length (concat ps) \<le> limit \<Longrightarrow>
     collect_body limit body (map Inr ps) = Inr (body @ concat ps)"
  by (induction ps arbitrary: body) auto

lemma build_download_request_ok:
  "parse_url url = Some u \<Longrightarrow> \<exists>req. build_download_request parse_url url rng fs = Inr req"
  by (simp add: build_download_request_def)

lemma receive_chunk_honest:
  assumes "honest_range file start stop r" and "unat start < length file" and "length file < 2 ^ 64"
    and "start \<le> stop" and "stop < - 1"
  shows "receive_chunk r start stop =
    Inr (take (range_last file stop + 1 - unat start) (drop (unat start) file), of_nat (length file))"
proof -
  define l where "l = range_last file stop"
  obtain pieces where r: "sr_status r = 206" "sr_header r ''content-encoding'' = None"
      "sr_header r ''content-range'' =
         Some (''bytes '' @ show_u64 start @ ''-'' @ show_nat l @ ''/'' @ show_nat (length file))"
      "sr_content_length r = None \<or> sr_content_length r = Some (l + 1 - unat start)"
      "sr_body r = map Inr pieces" "concat pieces = take (l + 1 - unat start) (drop (unat start) file)"
    using assms(1) by (auto simp: honest_range_def Let_def l_def)
  have l: "l < length file" "unat start \<le> l" "l \<le> unat stop" "l < 2 ^ 64"
    using assms(2-4) by (auto simp: l_def range_last_def word_le_nat_alt)
  have ul: "unat (of_nat l :: u64) = l" and ut: "unat (of_nat (length file) :: u64) = length file"
    using l assms(3) by (simp_all add: unat_of_nat_below)
  have "(1 :: u64) \<le> of_nat (length file)" using l by (simp add: word_le_nat_alt ut)
  then have ut1: "unat (of_nat (length file) - 1 :: u64) = length file - 1"
    by (simp add: unat_sub ut)
  have "unat (min stop (of_nat (length file) - 1)) = l"
    by (auto simp: min_def word_le_nat_alt ut1 l_def range_last_def)
  then have lmin: "of_nat l = min stop (of_nat (length file) - 1)" by (metis ul word_unat_eq_iff)
  have cmp: "(of_nat l :: u64) < of_nat (length file)" "start \<le> of_nat l"
    using l by (simp_all add: word_less_nat_alt word_le_nat_alt ul ut)
  have "expected_of_response r start stop =
      Inr (Some (of_nat l - start + 1), Some (of_nat (length file)))"
    using r(1,3) content_range_parses [OF l(4) assms(3), of start] cmp lmin
    by (simp add: expected_of_response_def content_range_value_def del: strip_prefix_append)
  moreover have "unat (of_nat l - start + 1) = l + 1 - unat start"
    using unat_span [OF cmp(2)] l assms(5) ul by (simp add: u64_below_max)
  moreover have limit: "unat (stop - start + 1) = unat stop - unat start + 1"
    using unat_span assms(4,5) by blast
  moreover have "length (take (l + 1 - unat start) (drop (unat start) file)) = l + 1 - unat start"
    using l by simp
  moreover have "collect_body (unat (stop - start + 1)) [] (sr_body r)
      = Inr (take (l + 1 - unat start) (drop (unat start) file))"
    using collect_body_pieces [of "[]" pieces] r(5,6) l limit by simp
  ultimately show ?thesis
    using r(1,2,4) l unfolding l_def [symmetric]
    by (auto simp: receive_chunk_def is_success_def check_encoding_def Let_def)
qed

lemma download_chunk_honest:
  assumes "serves_ranges send parse_url url file" and "parse_url url = Some u"
    and "unat start < length file" and "length file < 2 ^ 64" and "start \<le> stop" and "stop < - 1"
  shows "\<exists>n'. download_chunk send parse_url url start stop fs n =
    (Inr (take (range_last file stop + 1 - unat start) (drop (unat start) file),
          of_nat (length file)), n')"
proof -
  obtain req where req: "build_download_request parse_url url (range_text start stop) fs = Inr req"
    using build_download_request_ok [of parse_url url] assms(2) by blast
  then obtain r n' where "send req n = (Inr r, n')" "honest_range file start stop r"
    using assms(1,3,5) unfolding serves_ranges_def by blast
  then show ?thesis
    using receive_chunk_honest [OF _ assms(3-6)] assms(5) req by (simp add: download_chunk_def)
qed

lemma chunk_stop_reaches:
  assumes "0 < cb" and "unat offset < unat t" and "snap = None \<or> snap = Some t"
  shows "offset \<le> chunk_stop cb offset snap"
proof -
  have "unat offset \<le> unat (case snap of None \<Rightarrow> - 1 | Some t \<Rightarrow> t) - 1"
    using assms(2,3) unat_u64_less [of t] by (auto simp: unat_max_u64)
  then show ?thesis
    using unat_u64_less [of offset]
    by (auto simp: chunk_stop_def word_le_nat_alt unat_sat_sub unat_sat_add min_def)
qed

lemma honest_step:
  assumes "serves_ranges send parse_url url file" and "parse_url url = Some u"
    and "unat offset < length file" and "length file < 2 ^ 64" and "0 < cb"
    and "snap = None \<or> snap = Some (of_nat (length file))"
  shows "\<exists>k n'. 0 < k \<and> unat offset + k \<le> length file
    \<and> download_chunk send parse_url url offset (chunk_stop cb offset snap) fs n =
        (Inr (take k (drop (unat offset) file), of_nat (length file)), n')"
proof -
  let ?stop = "chunk_stop cb offset snap" and ?t = "of_nat (length file) :: u64"
  have ut: "unat ?t = length file" using assms(4) by (simp add: unat_of_nat_below)
  have below: "case snap of None \<Rightarrow> True | Some t \<Rightarrow> offset < t"
    using assms(3,6) ut by (auto simp: word_less_nat_alt)
  have le: "offset \<le> ?stop" using chunk_stop_reaches [of cb offset ?t snap] assms(3,5,6) ut by simp
  let ?k = "range_last file ?stop + 1 - unat offset"
  have "0 < ?k" "unat offset + ?k \<le> length file"
    using le assms(3) by (auto simp: range_last_def word_le_nat_alt)
  then show ?thesis
    using download_chunk_honest [OF assms(1,2,3,4) le chunk_stop_bounds(1) [OF below], of fs n]
    by blast
qed

lemma chunked_stream_honest:
  assumes "serves_ranges send parse_url url file" and "parse_url url = Some u"
    and "length file < 2 ^ 64" and "0 < cb"
  shows "unat offset \<le> length file \<Longrightarrow>
      snap = Some (of_nat (length file)) \<or> (snap = None \<and> unat offset < length file) \<Longrightarrow>
    \<exists>chunks n'. chunked_stream send parse_url url fs cb offset snap n = Some ((chunks, None), n')
      \<and> concat chunks = drop (unat offset) file"
proof (induction "length file - unat offset" arbitrary: offset snap n rule: less_induct)
  case less
  let ?t = "of_nat (length file) :: u64"
  have ut: "unat ?t = length file" using assms(3) by (simp add: unat_of_nat_below)
  show ?case
  proof (cases "unat offset < length file")
    case False
    then show ?thesis
      using less.prems ut by (auto simp: chunked_stream_done word_le_nat_alt)
  next
    case True
    have below: "case snap of None \<Rightarrow> True | Some t \<Rightarrow> offset < t"
      using True less.prems(2) ut by (auto simp: word_less_nat_alt)
    obtain k n1 where k: "0 < k" "unat offset + k \<le> length file"
        and chunk: "download_chunk send parse_url url offset (chunk_stop cb offset snap) fs n =
          (Inr (take k (drop (unat offset) file), ?t), n1)"
      using honest_step [OF assms(1,2) True assms(3,4), of snap fs n] less.prems(2) by auto
    have off: "unat (offset + of_nat k) = unat offset + k"
      using unat_offset_add [of offset k ?t] k(2) ut by simp
    have "length file - unat (offset + of_nat k) < length file - unat offset"
      using off k True by simp
    then obtain chunks n' where
        "chunked_stream send parse_url url fs cb (offset + of_nat k) (Some ?t) n1 = Some ((chunks, None), n')"
        "concat chunks = drop (unat offset + k) file"
      using less.hyps [of "offset + of_nat k" "Some ?t" n1] off k(2) by auto
    moreover have "(case snap of None \<Rightarrow> ?t | Some t \<Rightarrow> t) = ?t" using less.prems(2) by auto
    moreover have "length (take k (drop (unat offset) file)) = k" using k(2) by simp
    moreover have "take k (drop (unat offset) file) @ drop (unat offset + k) file = drop (unat offset) file"
      by (metis append_take_drop_id drop_drop add.commute)
    ultimately show ?thesis
      using chunked_stream_step [OF below, of send parse_url url fs cb n] chunk
      by (simp del: length_take)
  qed
qed

text \<open>
  C9: the changes of a file reach the worker. If the CDN serves the ranges of a file as the
  protocol asks, then downloading the file, from its start or from the end of any of its lines,
  ends without an error, and pushing the chunks through the decoder gives exactly the changes
  written after that place, in their order, with nothing left in the buffer.
\<close>

theorem download_decodes:
  assumes "serves_ranges send parse_url url file" and "parse_url url = Some u" and "is_cdn u"
    and "file = concat (map render_change before) @ concat (map render_change changes)"
    and "list_all change_ok changes" and "changes \<noteq> []" and "length file < 2 ^ 64"
    and "start = of_nat (length (concat (map render_change before)))"
  shows "\<exists>chunks n' ds d.
    download_file send parse_url url start file_size n = Some (Inr (chunks, None), n')
    \<and> push_all chunks (decoder_new start) = (Inr ds, d)
    \<and> map dl_change ds = map Some changes \<and> \<not> has_partial_line d"
proof -
  let ?b = "concat (map render_change before)"
  have "concat (map render_change changes) \<noteq> []" using assms(6) by (cases changes) (auto simp: render_change_def)
  then have lt: "length ?b < length file" using assms(4) by simp
  then have us: "unat start = length ?b" using assms(7,8) by (simp add: unat_of_nat_below)
  have cb: "0 < download_chunk_bytes" by (simp add: download_chunk_bytes_def)
  obtain chunks n' where chunks:
      "chunked_stream send parse_url url file_size download_chunk_bytes start None n
        = Some ((chunks, None), n')" "concat chunks = drop (length ?b) file"
    using chunked_stream_honest [OF assms(1,2,7) cb, of start None file_size n] lt us by auto
  obtain req where "build_download_request parse_url url (show_u64 start @ ''-'') file_size = Inr req"
    using build_download_request_ok [of parse_url url] assms(2) by blast
  then have "download_file send parse_url url start file_size n = Some (Inr (chunks, None), n')"
    using chunks assms(2,3) by (simp add: download_file_def)
  moreover have "concat chunks = concat (map render_change changes) @ []" using chunks(2) assms(4) by simp
  then obtain ds where "decode_lines start (concat chunks) = Inr (ds, [])"
      "map dl_change ds = map Some changes"
    using decode_lines_render [OF assms(5), of "[]" start] by auto
  then have "\<exists>d. push_all chunks (decoder_new start) = (Inr ds, d) \<and> \<not> has_partial_line d"
    using push_all_decode [of "decoder_new start" chunks]
    by (simp add: decoder_new_def has_partial_line_def)
  ultimately show ?thesis using \<open>map dl_change ds = map Some changes\<close> by blast
qed

section \<open>What the bytes of a download are\<close>

text \<open>
  An origin whose answers, complete or cut short, are bytes of one file: partial content from the
  requested place on, any other success from the start of the file. It may refuse any request.
\<close>

definition honest_origin :: "'n stream_sender \<Rightarrow> download_url_parser \<Rightarrow> string \<Rightarrow> string \<Rightarrow> bool" where
  "honest_origin send parse_url url file \<longleftrightarrow>
     (\<forall>start rest file_size req n r n'.
        build_download_request parse_url url (show_u64 start @ ''-'' @ rest) file_size = Inr req \<longrightarrow>
        send req n = (Inr r, n') \<longrightarrow> is_success (sr_status r) \<longrightarrow>
        prefix (concat (fst (body_stream (sr_body r))))
          (drop (if sr_status r = 206 then unat start else 0) file))"

lemma honest_originD:
  "honest_origin send parse_url url file
     \<Longrightarrow> build_download_request parse_url url (show_u64 start @ ''-'' @ rest) file_size = Inr req
     \<Longrightarrow> send req n = (Inr r, n') \<Longrightarrow> is_success (sr_status r)
     \<Longrightarrow> prefix (concat (fst (body_stream (sr_body r)))) (drop (if sr_status r = 206 then unat start else 0) file)"
  unfolding honest_origin_def by blast

lemma collect_body_stream: "collect_body limit body xs = Inr b \<Longrightarrow> b = body @ concat (fst (body_stream xs))"
  by (induction limit body xs rule: collect_body.induct) (auto split: if_splits prod.splits)

text \<open>The effect of requests on the rest of the world is any reflexive and transitive relation.\<close>

lemma download_chunk_honest_bytes:
  assumes "honest_origin send p url file" and "\<And>req n. R n (snd (send req n))" and "\<And>n. R n n"
    and "download_chunk send p url start stop fs n = (res, n')"
  shows "R n n' \<and> (\<forall>c t. res = Inr (c, t) \<longrightarrow> prefix c (drop (unat start) file))"
proof (cases "stop < start \<or> isl (build_download_request p url (range_text start stop) fs)")
  case True
  then show ?thesis using assms(3,4) by (auto simp: download_chunk_def split: sum.splits if_splits)
next
  case False
  then obtain req where req: "build_download_request p url (range_text start stop) fs = Inr req"
    by (cases "build_download_request p url (range_text start stop) fs") auto
  obtain sres n1 where snd: "send req n = (sres, n1)" by force
  have n1: "n' = n1" using False req snd assms(4) by (auto simp: download_chunk_def split: sum.splits)
  have "R n n1" using assms(2) [of n req] snd by simp
  moreover have "prefix c (drop (unat start) file)" if got: "res = Inr (c, t)" for c t
  proof -
    obtain r where r: "sres = Inr r" "receive_chunk r start stop = Inr (c, t)"
      using got False req snd assms(4) by (cases sres) (auto simp: download_chunk_def)
    obtain limit len tot where b: "is_success (sr_status r)" "expected_of_response r start stop = Inr (len, tot)"
        "collect_body limit [] (sr_body r) = Inr c"
      using r(2) by (auto simp: receive_chunk_def Let_def split: if_splits sum.splits option.splits)
    have "drop (if sr_status r = 206 then unat start else 0) file = drop (unat start) file"
      using b(2) by (auto simp: expected_of_response_def split: if_splits)
    then show ?thesis
      using honest_originD [OF assms(1) req [unfolded range_text_def] snd [unfolded r(1)] b(1)]
        collect_body_stream [OF b(3)] by simp
  qed
  ultimately show ?thesis using n1 by blast
qed

lemma chunked_stream_cases:
  assumes "chunked_stream send p url fs cb start snap n = Some ((chunks, err), n')"
  obtains (finished) "chunks = []" "n' = n"
  | (refused) e where "chunks = []"
      "download_chunk send p url start (chunk_stop cb start snap) fs n = (Inl e, n')"
  | (chunk) c t n1 cs snap' where "chunks = c # cs"
      "download_chunk send p url start (chunk_stop cb start snap) fs n = (Inr (c, t), n1)"
      "chunked_stream send p url fs cb (start + of_nat (length c)) snap' n1 = Some ((cs, err), n')"
proof (cases "case snap of None \<Rightarrow> False | Some tot \<Rightarrow> tot \<le> start")
  case True
  then have "chunked_stream send p url fs cb start snap n = Some (([], None), n)"
    by (subst chunked_stream.simps) simp
  then show ?thesis using finished assms by simp
next
  case False
  then have go: "case snap of None \<Rightarrow> True | Some t \<Rightarrow> start < t" by (auto split: option.splits)
  obtain res n1 where d: "download_chunk send p url start (chunk_stop cb start snap) fs n = (res, n1)"
    by force
  show ?thesis
  proof (cases res)
    case (Inl e)
    then show ?thesis using refused assms d by (simp add: chunked_stream_step [OF go])
  next
    case (Inr ct)
    obtain c t where ct: "ct = (c, t)" by force
    show ?thesis
      using assms d Inr ct chunk
      by (auto simp: chunked_stream_step [OF go] split: Option.bind_splits)
  qed
qed

lemma chunked_stream_bytes:
  assumes "honest_origin send p url file" and "length file < 2 ^ 64"
    and "\<And>req n. R n (snd (send req n))" and "\<And>n. R n n" and trans: "\<And>a b c. R a b \<Longrightarrow> R b c \<Longrightarrow> R a c"
    and "chunked_stream send p url fs cb start snap n = Some ((chunks, err), n')"
  shows "R n n' \<and> prefix (concat chunks) (drop (unat start) file)"
  using assms(6)
proof (induction chunks arbitrary: start snap n)
  case Nil
  then show ?case
  proof (cases rule: chunked_stream_cases)
    case finished
    then show ?thesis using assms(4) by simp
  next
    case (refused e)
    then show ?thesis using download_chunk_honest_bytes [OF assms(1,3,4) refused(2)] by simp
  qed simp
next
  case (Cons c0 cs0)
  from Cons.prems show ?case
  proof (cases rule: chunked_stream_cases)
    case (chunk c t n1 cs snap')
    have c: "R n n1" "prefix c (drop (unat start) file)"
      using download_chunk_honest_bytes [OF assms(1,3,4) chunk(2)] by auto
    then obtain rest where rest: "drop (unat start) file = c @ rest" by (auto elim: prefixE)
    have IH: "R n1 n' \<and> prefix (concat cs) (drop (unat (start + of_nat (length c))) file)"
      using Cons.IH chunk(1,3) by blast
    have "prefix (concat cs) rest"
    proof (cases "c = []")
      case False
      then have "0 < length c" by simp
      moreover have "length file - unat start = length c + length rest"
        using arg_cong [OF rest, of length] by simp
      ultimately have "unat start + length c \<le> length file" by linarith
      then have "unat (start + of_nat (length c)) = unat start + length c"
        using assms(2) by (simp add: unat_word_ariths unat_of_nat)
      then show ?thesis using IH rest by (simp add: add.commute flip: drop_drop)
    qed (use IH rest in simp)
    then show ?thesis using trans [OF c(1)] IH chunk(1) rest by simp
  qed simp_all
qed

lemma download_file_bytes:
  assumes honest: "honest_origin send p url file" and "length file < 2 ^ 64"
    and step: "\<And>req n. R n (snd (send req n))" and refl: "\<And>n. R n n"
    and trans: "\<And>a b c. R a b \<Longrightarrow> R b c \<Longrightarrow> R a c"
  shows "\<exists>res n'. download_file send p url start fs n = Some (res, n') \<and> R n n'
    \<and> (\<forall>chunks err. res = Inr (chunks, err) \<longrightarrow> prefix (concat chunks) (drop (unat start) file))"
proof (cases "build_download_request p url (show_u64 start @ ''-'') fs")
  case (Inl e)
  then show ?thesis using refl by (auto simp: download_file_def)
next
  case (Inr req)
  show ?thesis
  proof (cases "case p url of None \<Rightarrow> False | Some u \<Rightarrow> is_cdn u")
    case True
    have "0 < download_chunk_bytes" by (simp add: download_chunk_bytes_def)
    from chunked_stream_ends [OF this] obtain chunks err n' where
      s: "chunked_stream send p url fs download_chunk_bytes start None n = Some ((chunks, err), n')"
      by metis
    then show ?thesis
      using chunked_stream_bytes [OF honest assms(2), of R] step refl trans Inr True
      by (auto simp: download_file_def)
  next
    case False
    obtain sres n' where snd: "send req n = (sres, n')" by force
    then have R: "R n n'" using step [of n req] by simp
    have pre: "prefix (concat chunks) (drop (unat start) file)"
      if "sres = Inr r" "is_success (sr_status r)" "\<not> (0 < start \<and> sr_status r \<noteq> 206)"
        "body_stream (sr_body r) = (chunks, err)" for r chunks err
      using honest_originD [OF honest, of start "[]" fs req n r n'] Inr snd that
      by (cases "sr_status r = 206") (auto simp: word_less_nat_alt)
    have "\<exists>res. download_file send p url start fs n = Some (res, n')
        \<and> (\<forall>chunks err. res = Inr (chunks, err) \<longrightarrow> prefix (concat chunks) (drop (unat start) file))"
      using Inr False snd pre
      by (cases sres) (auto simp: download_file_def split: sum.splits if_splits)
    then show ?thesis using R by blast
  qed
qed

section \<open>A concrete origin\<close>

text \<open>An origin that reads the range of a request from its query and serves the bytes of a file.\<close>

definition sample_url :: DownloadUrl where
  "sample_url = \<lparr>du_host = Some ''api.statsigcdn.com'', du_base = ''https://api.statsigcdn.com/f'',
     du_query = None, du_pairs = []\<rparr>"

definition origin_reply :: "string \<Rightarrow> u64 \<Rightarrow> u64 \<Rightarrow> StreamResponse" where
  "origin_reply file start stop =
     (let l = range_last file stop
      in \<lparr>sr_status = 206,
          sr_header = [''content-range'' \<mapsto>
            ''bytes '' @ show_u64 start @ ''-'' @ show_nat l @ ''/'' @ show_nat (length file)],
          sr_content_length = None,
          sr_body = [Inr (take (l + 1 - unat start) (drop (unat start) file))]\<rparr>)"

definition sample_origin :: "string \<Rightarrow> 'n stream_sender" where
  "sample_origin file req n =
     (let reply = (case dr_query req of
          QueryPairs [(_, rng)] \<Rightarrow>
            Option.bind (split_once CHR ''-'' rng) (\<lambda>(a, b).
              Option.bind (parse_u64 a) (\<lambda>start.
                Option.bind (parse_u64 b) (\<lambda>stop. Some (origin_reply file start stop))))
        | _ \<Rightarrow> None)
      in (case reply of None \<Rightarrow> Inl \<lparr>is_connect = True, message = ''refused''\<rparr> | Some r \<Rightarrow> Inr r, n))"

lemma sample_origin_serves: "serves_ranges (sample_origin file) (\<lambda>_. Some sample_url) url file"
proof -
  have dash: "split_once CHR ''-'' (range_text start stop) = Some (show_u64 start, show_u64 stop)"
    for start stop :: u64
    using digits_no_sep [of "CHR ''-''" "unat start"]
    by (simp add: range_text_def show_u64_def split_once_Some is_digit_def)
  have "honest_range file start stop (origin_reply file start stop)" for start stop
    by (auto simp: honest_range_def origin_reply_def Let_def
        intro!: exI [of _ "[take (Suc (range_last file stop) - unat start) (drop (unat start) file)]"])
  then show ?thesis
    by (auto simp: serves_ranges_def build_download_request_def is_cdn_def sample_url_def
        sample_origin_def dash parse_u64_show_u64)
qed

lemma sample_origin_honest: "honest_origin (sample_origin file) (\<lambda>_. Some sample_url) url file"
proof -
  have dash: "split_once CHR ''-'' (show_u64 start @ ''-'' @ rest) = Some (show_u64 start, rest)"
    for start :: u64 and rest
    using digits_no_sep [of "CHR ''-''" "unat start"] by (simp add: show_u64_def split_once_Some is_digit_def)
  show ?thesis
    unfolding honest_origin_def
    by (auto simp: build_download_request_def is_cdn_def sample_url_def sample_origin_def dash [simplified]
        parse_u64_show_u64 origin_reply_def Let_def take_is_prefix split: option.splits Option.bind_splits)
qed

theorem chunked_stream_exact_witness:
  "\<exists>chunks err n'.
    chunked_stream (sample_origin sample_file) (\<lambda>_. Some sample_url) ''u'' 0 4 0 None ()
      = Some ((chunks, err), n')
    \<and> list_all (\<lambda>c. length c \<le> 4) chunks"
  using chunked_stream_exact [of 4 "sample_origin sample_file" "\<lambda>_. Some sample_url" "''u''" 0 0 "()"]
  by auto

theorem download_decodes_witness:
  "\<exists>chunks n' ds d.
    download_file (sample_origin (''+a'' @ [newline] @ ''-b'' @ [newline])) (\<lambda>_. Some sample_url)
      ''u'' 3 0 () = Some (Inr (chunks, None), n')
    \<and> push_all chunks (decoder_new 3) = (Inr ds, d)
    \<and> map dl_change ds = map Some [\<lparr>fc_add = False, fc_member = ''b''\<rparr>] \<and> \<not> has_partial_line d"
  by (rule download_decodes [of _ _ _ "''+a'' @ [newline] @ ''-b'' @ [newline]" sample_url
        "[\<lparr>fc_add = True, fc_member = ''a''\<rparr>]", OF sample_origin_serves])
    (simp_all add: is_cdn_def sample_url_def render_change_def change_ok_def from_utf8_ok_def)

end
