(* ===== verification/SyncPlanning.thy ===== *)
theory SyncPlanning
  imports IdListSchema "HOL-Library.Char_ord" "HOL-Library.List_Lexorder"
    "HOL-Library.Product_Lexorder"
begin

text \<open>
  Deciding the work of the id-list synchronization: \<open>idlist_membership/redis_syncer/planning.rs\<close>,
  \<open>idlist_membership/namespaces.rs\<close> and the observer that keeps the manifests, of
  \<open>idlist_membership/redis_syncer.rs\<close>. Whether a list needs a full load or an append, the order
  of the queue, and the union of the manifests of one company. Strings are compared as in
  Rust, byte by byte.
\<close>

section \<open>Actions\<close>

datatype SyncAction =
    FullLoad
  | Delta u64
  | Remove

fun action_class :: "SyncAction \<Rightarrow> nat" where
  "action_class FullLoad = 0"
| "action_class (Delta _) = 1"
| "action_class Remove = 2"

fun action_lag :: "SyncAction \<Rightarrow> u64" where
  "action_lag (Delta lag) = lag"
| "action_lag _ = 0"

definition op_str :: "SyncAction \<Rightarrow> string" where
  "op_str a = (case a of Remove \<Rightarrow> ''remove'' | _ \<Rightarrow> ''load'')"

record DerivedTask =
  dt_skh :: string
  dt_list :: string
  dt_action :: SyncAction
  dt_meta :: "IdListMetadata option"

section \<open>Planning one list\<close>

definition state_cardinality :: "ListSyncState \<Rightarrow> u64" where
  "state_cardinality st = (case ls_cardinality st of Some c \<Rightarrow> c | None \<Rightarrow> ls_size st)"

definition needs_work_with_reverse_index ::
  "ListSyncState option \<Rightarrow> IdListMetadata \<Rightarrow> bool \<Rightarrow> bool \<Rightarrow> SyncAction option" where
  "needs_work_with_reverse_index state meta fwd_exists enable_reverse_index =
     (case state of
        None \<Rightarrow> Some FullLoad
      | Some st \<Rightarrow>
          if ls_version st = [] then Some FullLoad
          else if md_file_id meta \<noteq> ls_file_id st then
            (if ls_creation_time st < md_creation_time meta then Some FullLoad else None)
          else if enable_reverse_index \<and> ls_reverse_index_disabled st then Some FullLoad
          else if ls_loading_version st \<noteq> None then Some FullLoad
          else if 0 < state_cardinality st \<and> \<not> fwd_exists then Some FullLoad
          else if ls_size st < md_size meta then Some (Delta (md_size meta - ls_size st))
          else None)"

definition committed_metadata :: "ListSyncState \<Rightarrow> IdListMetadata" where
  "committed_metadata st =
     \<lparr>md_file_id = ls_file_id st, md_creation_time = ls_creation_time st, md_url = ls_url st,
      md_size = ls_size st\<rparr>"

definition plan_sync_with_reverse_index ::
  "ListSyncState option \<Rightarrow> IdListMetadata \<Rightarrow> bool \<Rightarrow> bool \<Rightarrow> (SyncAction \<times> IdListMetadata) option" where
  "plan_sync_with_reverse_index state meta fwd_exists enable_reverse_index =
     (let target =
        (case state of
           Some st \<Rightarrow>
             if enable_reverse_index \<and> ls_reverse_index_disabled st \<and> ls_version st \<noteq> []
                \<and> md_file_id meta \<noteq> ls_file_id st \<and> md_creation_time meta \<le> ls_creation_time st
             then committed_metadata st else meta
         | None \<Rightarrow> meta)
      in map_option (\<lambda>action. (action, target))
           (needs_work_with_reverse_index state target fwd_exists enable_reverse_index))"

definition needs_work ::
  "ListSyncState option \<Rightarrow> IdListMetadata \<Rightarrow> bool \<Rightarrow> SyncAction option" where
  "needs_work state meta fwd_exists =
     map_option fst (plan_sync_with_reverse_index state meta fwd_exists True)"

section \<open>The order of the queue\<close>

text \<open>
  The comparison sorts by class, then the larger lag, then the names. A score is a \<open>f64\<close>; all
  values below \<open>2 ^ 53\<close> are exact, so it is kept as a natural number.
\<close>

definition task_rank :: "DerivedTask \<Rightarrow> nat \<times> nat \<times> string \<times> string" where
  "task_rank t =
     (action_class (dt_action t), 2 ^ 64 - unat (action_lag (dt_action t)), dt_skh t, dt_list t)"

definition class_score_base :: nat where
  "class_score_base = 2 ^ 40"

definition task_score :: "nat \<Rightarrow> nat \<Rightarrow> nat" where
  "task_score cls sq = cls * class_score_base + sq"

fun score_tasks ::
  "(string \<times> string) set \<Rightarrow> (nat \<Rightarrow> nat) \<Rightarrow> DerivedTask list \<Rightarrow> (nat \<times> DerivedTask) list" where
  "score_tasks seen seq_by_class [] = []"
| "score_tasks seen seq_by_class (t # ts) =
     (if (dt_skh t, dt_list t) \<in> seen then score_tasks seen seq_by_class ts
      else let cls = action_class (dt_action t); sq = seq_by_class cls
           in (cls * class_score_base + sq, t)
              # score_tasks (insert (dt_skh t, dt_list t) seen) (seq_by_class(cls := sq + 1)) ts)"

definition order_and_dedupe_tasks :: "DerivedTask list \<Rightarrow> (nat \<times> DerivedTask) list" where
  "order_and_dedupe_tasks tasks = score_tasks {} (\<lambda>_. 0) (sort_key task_rank tasks)"

definition producer_attempt_interval_s :: "u64 \<Rightarrow> u64" where
  "producer_attempt_interval_s interval_s = max (interval_s div 4) 5"

definition parse_sync_interval :: "string option \<Rightarrow> u64" where
  "parse_sync_interval raw =
     (case Option.bind raw parse_u64 of
        Some v \<Rightarrow> if 0 < v then v else 60
      | None \<Rightarrow> 60)"

text \<open>The server keys from their JSON text; \<open>from_json\<close> reads an array of strings.\<close>

definition idlist_sync_keys_from_json ::
  "(string \<Rightarrow> string list option) \<Rightarrow> string \<Rightarrow> string list option" where
  "idlist_sync_keys_from_json from_json raw =
     (case from_json raw of
        None \<Rightarrow> None
      | Some keys \<Rightarrow>
          if list_ex (\<lambda>k. trim k = []) keys then None
          else let ks = remdups_adj (sort keys) in if ks = [] then None else Some ks)"

section \<open>The companies of the server keys\<close>

text \<open>
  \<open>CompanyIdStore\<close>: the company of every configured key, learnt from the config specs. The
  decompressors and the reader of the identity (whether it has updates, and its company) are
  arguments.
\<close>

definition parse_company_id ::
  "decoder \<Rightarrow> decoder \<Rightarrow> (string \<Rightarrow> (bool \<times> string option) option) \<Rightarrow> ResponsePayload \<Rightarrow> string option" where
  "parse_company_id gunzip unbrotli from_json p =
     (if rp_use_proto p then None
      else
        let decoded = (case rp_encoding p of
            PlainText \<Rightarrow> Some (rp_data p)
          | Identity \<Rightarrow> Some (rp_data p)
          | Gzip \<Rightarrow> gunzip (rp_data p)
          | Brotli \<Rightarrow> unbrotli (rp_data p)
          | StatsigBrotli \<Rightarrow> unbrotli (rp_data p)
          | _ \<Rightarrow> None)
        in case Option.bind decoded from_json of
             Some (has_updates, Some i) \<Rightarrow> if has_updates \<and> trim i \<noteq> [] then Some i else None
           | _ \<Rightarrow> None)"

definition company_ids_update ::
  "string list \<Rightarrow> (ResponsePayload \<Rightarrow> string option) \<Rightarrow> AuthorizedRequestContext \<Rightarrow> ResponseContext
     \<Rightarrow> (string \<Rightarrow> string option) \<Rightarrow> (string \<Rightarrow> string option)" where
  "company_ids_update server_keys parse rc rsp ids =
     (if rc_sdk_key rc \<notin> set server_keys
         \<or> (rc_path rc \<noteq> V1DownloadConfigSpecs \<and> rc_path rc \<noteq> V2DownloadConfigSpecs) then ids
      else (case rsp_result_type rsp of
          Unauthorized \<Rightarrow> ids(rc_sdk_key rc := None)
        | DataAvailable \<Rightarrow>
            (case parse (rsp_body rsp) of
               Some i \<Rightarrow> ids(rc_sdk_key rc \<mapsto> i)
             | None \<Rightarrow> ids)
        | _ \<Rightarrow> ids))"

section \<open>The manifests of the server keys\<close>

text \<open>
  The observer of \<open>/v1/get_id_lists\<close>: the last manifest of every configured key; \<open>parsed\<close> is the
  result of parsing the body of the response.
\<close>

definition manifest_observer_update ::
  "string list \<Rightarrow> AuthorizedRequestContext \<Rightarrow> ResponseContext \<Rightarrow> manifest_error + id_list_manifest
     \<Rightarrow> (string \<Rightarrow> id_list_manifest option) \<Rightarrow> (string \<Rightarrow> id_list_manifest option)" where
  "manifest_observer_update server_keys rc rsp parsed manifests =
     (if rc_path rc \<noteq> V1GetIdLists \<or> rc_sdk_key rc \<notin> set server_keys then manifests
      else if rsp_result_type rsp = Unauthorized then manifests(rc_sdk_key rc := None)
      else if rsp_result_type rsp \<noteq> DataAvailable then manifests
      else (case parsed of
          Inl _ \<Rightarrow> manifests
        | Inr m \<Rightarrow> manifests(rc_sdk_key rc \<mapsto> m)))"

record IdListNamespaces =
  ns_company_ids :: "string \<Rightarrow> string option"
  ns_server_keys :: "string list"
  ns_manifests :: "string \<Rightarrow> id_list_manifest option"

record CompanyManifest =
  co_lists :: id_list_manifest
  co_incomplete :: bool

record NamespaceCollision =
  nc_namespace :: string
  nc_company_ids :: "string list"

definition namespaces_new :: "string list \<Rightarrow> IdListNamespaces" where
  "namespaces_new server_keys =
     \<lparr>ns_company_ids = (\<lambda>_. None), ns_server_keys = remdups_adj (sort server_keys),
      ns_manifests = (\<lambda>_. None)\<rparr>"

definition namespace_for_key :: "(string \<Rightarrow> string) \<Rightarrow> IdListNamespaces \<Rightarrow> string \<Rightarrow> string option" where
  "namespace_for_key sha256_b64 ns key =
     map_option (hash_company_id sha256_b64) (ns_company_ids ns key)"

definition visible_lists :: "IdListNamespaces \<Rightarrow> string \<Rightarrow> string set option" where
  "visible_lists ns key = map_option dom (ns_manifests ns key)"

text \<open>The namespaces that two companies share, in the order of a \<open>BTreeMap\<close>.\<close>

definition namespace_collisions ::
  "(string \<Rightarrow> string) \<Rightarrow> string list \<Rightarrow> NamespaceCollision list" where
  "namespace_collisions sha256_b64 ids =
     (let hash = hash_company_id sha256_b64;
          owners = map (\<lambda>n. \<lparr>nc_namespace = n,
                            nc_company_ids = remdups_adj (sort (filter (\<lambda>i. hash i = n) ids))\<rparr>)
                     (remdups_adj (sort (map hash ids)))
      in filter (\<lambda>c. 1 < length (nc_company_ids c)) owners)"

text \<open>Whether an entry replaces the one that another key's manifest gave for the list.\<close>

definition entry_replaces :: "IdListManifestEntry \<Rightarrow> IdListManifestEntry \<Rightarrow> bool" where
  "entry_replaces entry previous \<longleftrightarrow>
     (if me_file_id previous = me_file_id entry
      then (me_size previous, me_creation_time previous) < (me_size entry, me_creation_time entry)
      else (me_creation_time previous, me_file_id previous)
             < (me_creation_time entry, me_file_id entry))"

definition merge_entry ::
  "IdListManifestEntry option \<Rightarrow> IdListManifestEntry option \<Rightarrow> IdListManifestEntry option" where
  "merge_entry previous new =
     (case new of
        None \<Rightarrow> previous
      | Some e \<Rightarrow>
          (case previous of
             None \<Rightarrow> Some e
           | Some p \<Rightarrow> if entry_replaces e p then Some e else Some p))"

definition merge_manifest :: "id_list_manifest \<Rightarrow> id_list_manifest \<Rightarrow> id_list_manifest" where
  "merge_manifest previous manifest = (\<lambda>name. merge_entry (previous name) (manifest name))"

definition company_default :: CompanyManifest where
  "company_default = \<lparr>co_lists = (\<lambda>_. None), co_incomplete = False\<rparr>"

text \<open>One configured key: the companies, the number of missing manifests, an unknown company.\<close>

definition add_key ::
  "(string \<Rightarrow> string) \<Rightarrow> (string \<Rightarrow> id_list_manifest option)
     \<Rightarrow> (string \<Rightarrow> CompanyManifest option) \<times> nat \<times> bool \<Rightarrow> string \<times> string option
     \<Rightarrow> (string \<Rightarrow> CompanyManifest option) \<times> nat \<times> bool" where
  "add_key sha256_b64 snapshots acc identity =
     (case (acc, identity) of ((companies, unavailable, unknown), (key, company_id)) \<Rightarrow>
        (case company_id of
           None \<Rightarrow> (companies, unavailable + 1, True)
         | Some i \<Rightarrow>
             let n = hash_company_id sha256_b64 i;
                 company = (case companies n of None \<Rightarrow> company_default | Some c \<Rightarrow> c)
             in (case snapshots key of
                   None \<Rightarrow> (companies(n \<mapsto> company\<lparr>co_incomplete := True\<rparr>), unavailable + 1, unknown)
                 | Some m \<Rightarrow>
                     (companies(n \<mapsto> company\<lparr>co_lists := merge_manifest (co_lists company) m\<rparr>),
                      unavailable, unknown))))"

definition company_manifests ::
  "(string \<Rightarrow> string) \<Rightarrow> IdListNamespaces
     \<Rightarrow> NamespaceCollision list + (string \<Rightarrow> CompanyManifest option) \<times> nat" where
  "company_manifests sha256_b64 ns =
     (let identities = map (\<lambda>k. (k, ns_company_ids ns k)) (ns_server_keys ns);
          collisions = namespace_collisions sha256_b64 (List.map_filter snd identities)
      in if collisions \<noteq> [] then Inl collisions
         else (case foldl (add_key sha256_b64 (ns_manifests ns)) (\<lambda>_. None, 0, False) identities of
             (companies, unavailable, unknown) \<Rightarrow>
               Inr (if unknown
                    then (\<lambda>n. map_option (\<lambda>c. c\<lparr>co_incomplete := True\<rparr>) (companies n))
                    else companies, unavailable)))"

section \<open>Plans are safe and converge\<close>

lemmas plan_defs =
  plan_sync_with_reverse_index_def needs_work_with_reverse_index_def committed_metadata_def

text \<open>
  C36: planning never rolls a committed list back and never carries an offset from one file to
  another. A plan for a list with a committed version is for the committed file, or for a
  file of the manifest whose creation time is strictly newer. An append is planned only for the
  committed file, when no load is interrupted and no member set was lost, and its lag is
  the number of bytes by which the file grew. A removal is never planned for a listed file.
\<close>

theorem plan_never_rolls_back:
  assumes "plan_sync_with_reverse_index (Some st) meta fwd_exists enabled = Some (action, target)"
    and "ls_version st \<noteq> []"
  shows "(md_file_id target = ls_file_id st
      \<or> target = meta \<and> action = FullLoad \<and> ls_creation_time st < md_creation_time meta)
    \<and> (\<forall>lag. action = Delta lag \<longrightarrow>
         target = meta \<and> ls_loading_version st = None \<and> (fwd_exists \<or> state_cardinality st = 0)
         \<and> 0 < lag \<and> unat (ls_size st) + unat lag = unat (md_size meta))
    \<and> action \<noteq> Remove"
proof -
  have lag: "0 < b - a" "unat a + unat (b - a) = unat b" if "a < b" for a b :: u64
    using that by (simp_all add: word_less_nat_alt unat_sub word_le_nat_alt)
  show ?thesis
    using assms lag [of "ls_size st" "md_size meta"]
    by (auto simp: plan_defs Let_def word_neq_0_conv [symmetric] split: if_splits)
qed

definition sample_committed :: ListSyncState where
  "sample_committed = list_sync_state_default\<lparr>ls_version := ''f1@100'', ls_file_id := ''f1'',
     ls_url := ''u'', ls_creation_time := 100, ls_size := 50, ls_cardinality := Some 4\<rparr>"

definition sample_meta :: "string \<Rightarrow> u64 \<Rightarrow> u64 \<Rightarrow> IdListMetadata" where
  "sample_meta file ctime sz =
     \<lparr>md_file_id = file, md_creation_time = ctime, md_url = ''u'', md_size = sz\<rparr>"

lemmas plan_eval =
  plan_defs sample_committed_def sample_meta_def list_sync_state_default_def state_cardinality_def

theorem plan_never_rolls_back_witness:
  "md_file_id (sample_meta ''f1'' 100 80) = ls_file_id sample_committed
    \<and> unat (ls_size sample_committed) + unat (30 :: u64) = unat (md_size (sample_meta ''f1'' 100 80))"
proof -
  have plan: "plan_sync_with_reverse_index (Some sample_committed) (sample_meta ''f1'' 100 80) True True
      = Some (Delta 30, sample_meta ''f1'' 100 80)"
    by (simp add: plan_eval)
  show ?thesis using plan_never_rolls_back [OF plan] by (simp add: plan_eval)
qed

text \<open>
  What a worker leaves when it has carried out a plan: the target is committed, its member set is
  there unless it is empty, nothing is loading, and the reverse index is repaired if it is in use.
  An append leaves the creation time of the state as it was.
\<close>

definition synced_to :: "IdListMetadata \<Rightarrow> bool \<Rightarrow> bool \<Rightarrow> ListSyncState \<Rightarrow> bool" where
  "synced_to target fwd_exists enabled st \<longleftrightarrow>
     ls_version st \<noteq> [] \<and> ls_file_id st = md_file_id target \<and> md_size target \<le> ls_size st
     \<and> ls_loading_version st = None
     \<and> (0 < state_cardinality st \<longrightarrow> fwd_exists) \<and> \<not> (enabled \<and> ls_reverse_index_disabled st)"

text \<open>
  The synchronization of a list comes to rest. Once a planned target is committed, the
  same manifest entry plans no further work, also when the plan replaced a stale entry by the
  committed file; and no work is planned for a committed list that is up to date.
\<close>

theorem plan_converges:
  assumes "plan_sync_with_reverse_index state meta fwd_exists enabled = Some (action, target)"
    and "synced_to target fwd_exists' enabled st"
    and "target = meta \<or> md_creation_time target \<le> ls_creation_time st"
  shows "plan_sync_with_reverse_index (Some st) meta fwd_exists' enabled = None"
  using assms
  by (auto simp: plan_defs synced_to_def Let_def not_less split: if_splits option.splits)

theorem plan_converges_witness:
  "plan_sync_with_reverse_index (Some sample_committed) (sample_meta ''f0'' 90 70) True True = None"
proof (rule plan_converges)
  show "plan_sync_with_reverse_index (Some (sample_committed\<lparr>ls_reverse_index_disabled := True\<rparr>))
      (sample_meta ''f0'' 90 70) True True = Some (FullLoad, sample_meta ''f1'' 100 50)"
    by (simp add: plan_eval)
  show "synced_to (sample_meta ''f1'' 100 50) True True sample_committed"
    by (simp add: synced_to_def plan_eval)
qed (simp add: plan_eval)

section \<open>The queue is ordered\<close>

abbreviation task_key :: "DerivedTask \<Rightarrow> string \<times> string" where
  "task_key t \<equiv> (dt_skh t, dt_list t)"

lemma score_tasks_subset: "snd ` set (score_tasks seen sq ts) \<subseteq> set ts"
  by (induction ts arbitrary: seen sq) (auto simp: Let_def)

lemma score_tasks_keys:
  "task_key ` snd ` set (score_tasks seen sq ts) = task_key ` set ts - seen"
  by (induction ts arbitrary: seen sq) (auto simp: Let_def image_Un)

lemma score_tasks_distinct: "distinct (map (task_key \<circ> snd) (score_tasks seen sq ts))"
proof (induction ts arbitrary: seen sq)
  case (Cons t ts)
  have "task_key t \<notin> (task_key \<circ> snd) ` set (score_tasks (insert (task_key t) seen) sq' ts)" for sq'
    using score_tasks_keys [of "insert (task_key t) seen" sq' ts] by (auto simp: image_image)
  then show ?case using Cons by (auto simp: Let_def)
qed simp

lemma score_tasks_first:
  "sorted (map task_rank ts) \<Longrightarrow> t \<in> snd ` set (score_tasks seen sq ts) \<Longrightarrow>
     u \<in> set ts \<Longrightarrow> task_key u = task_key t \<Longrightarrow> task_rank t \<le> task_rank u"
proof (induction ts arbitrary: seen sq)
  case (Cons t1 ts)
  have notin: "task_key t \<notin> seen'" if "t \<in> snd ` set (score_tasks seen' sq' ts)" for seen' sq'
    using score_tasks_keys [of seen' sq' ts] that by blast
  show ?case
  proof (cases "task_key t1 \<in> seen")
    case True
    then have t: "t \<in> snd ` set (score_tasks seen sq ts)" using Cons.prems(2) by simp
    then have "u \<noteq> t1" using notin Cons.prems(4) True by metis
    then show ?thesis using Cons.IH [OF _ t] Cons.prems by simp
  next
    case False
    let ?sq = "sq(action_class (dt_action t1) := sq (action_class (dt_action t1)) + 1)"
    consider "t = t1" | "t \<in> snd ` set (score_tasks (insert (task_key t1) seen) ?sq ts)"
      using Cons.prems(2) False by (auto simp: Let_def)
    then show ?thesis
    proof cases
      case 1
      then show ?thesis using Cons.prems(1,3) by auto
    next
      case 2
      then have "u \<noteq> t1" using notin [OF 2] Cons.prems(4) by auto
      then show ?thesis using Cons.IH [OF _ 2] Cons.prems by simp
    qed
  qed
qed simp

lemma score_lower:
  "(score, t) \<in> set (score_tasks seen sq ts) \<Longrightarrow>
     action_class (dt_action t) * class_score_base + sq (action_class (dt_action t)) \<le> score"
proof (induction ts arbitrary: seen sq)
  case (Cons t1 ts)
  show ?case
  proof (cases "task_key t1 \<in> seen")
    case False
    let ?c = "action_class (dt_action t1)"
    have "(score, t) = (?c * class_score_base + sq ?c, t1)
        \<or> (score, t) \<in> set (score_tasks (insert (task_key t1) seen) (sq(?c := sq ?c + 1)) ts)"
      using Cons.prems False by (auto simp: Let_def)
    then show ?thesis using Cons.IH by (fastforce split: if_splits)
  qed (use Cons in simp)
qed simp

lemma score_tasks_increasing:
  "sorted (map task_rank ts) \<Longrightarrow> \<forall>c. sq c + length ts \<le> class_score_base \<Longrightarrow>
     sorted_wrt (<) (map fst (score_tasks seen sq ts))"
proof (induction ts arbitrary: seen sq)
  case (Cons t ts)
  show ?case
  proof (cases "task_key t \<in> seen")
    case True
    then show ?thesis using Cons by (auto dest: Suc_leD)
  next
    case False
    let ?c = "action_class (dt_action t)" and ?B = class_score_base
    let ?sq = "sq(?c := sq ?c + 1)"
    have bound: "sq c + Suc (length ts) \<le> ?B" for c using Cons.prems(2) by simp
    have later: "?c * ?B + sq ?c < score"
      if "(score, u) \<in> set (score_tasks (insert (task_key t) seen) ?sq ts)" for score u
    proof -
      have "u \<in> set ts" using score_tasks_subset [of "insert (task_key t) seen" ?sq ts] that by force
      then have le: "?c \<le> action_class (dt_action u)"
        using Cons.prems(1) by (auto simp: task_rank_def)
      have low: "action_class (dt_action u) * ?B + ?sq (action_class (dt_action u)) \<le> score"
        using score_lower [OF that] by simp
      show ?thesis
      proof (cases "action_class (dt_action u) = ?c")
        case True
        then show ?thesis using low by simp
      next
        case False
        then have "Suc ?c * ?B \<le> action_class (dt_action u) * ?B" using le by (intro mult_le_mono1) simp
        then show ?thesis using low bound [of ?c] False by (simp split: if_splits)
      qed
    qed
    have "sorted_wrt (<) (map fst (score_tasks (insert (task_key t) seen) ?sq ts))"
    proof (rule Cons.IH)
      show "sorted (map task_rank ts)" using Cons.prems(1) by simp
      show "\<forall>c. ?sq c + length ts \<le> ?B" using bound by (simp add: Suc_leD)
    qed
    then show ?thesis using False later by (fastforce simp: Let_def)
  qed
qed simp

lemma sorted_subseq: "subseq xs ys \<Longrightarrow> sorted ys \<Longrightarrow> sorted xs"
  by (induction rule: list_emb.induct) (auto dest: list_emb_set)

text \<open>
  The producer's queue is ordered by priority and has one task for each list. The scores
  strictly increase in the order full loads, appends with the larger lag first, removals; each
  list with a task keeps exactly one, and it is the one with the highest priority among the
  derived tasks of that list. (There are fewer than \<open>2 ^ 40\<close> tasks, so that no class runs into
  the scores of the next.)
\<close>

theorem queue_order_correct:
  assumes "length tasks \<le> 2 ^ 40"
  shows "sorted_wrt (<) (map fst (order_and_dedupe_tasks tasks))
    \<and> sorted (map (task_rank \<circ> snd) (order_and_dedupe_tasks tasks))
    \<and> distinct (map (task_key \<circ> snd) (order_and_dedupe_tasks tasks))
    \<and> task_key ` snd ` set (order_and_dedupe_tasks tasks) = task_key ` set tasks
    \<and> (\<forall>t \<in> snd ` set (order_and_dedupe_tasks tasks). t \<in> set tasks
        \<and> (\<forall>u \<in> set tasks. task_key u = task_key t \<longrightarrow> task_rank t \<le> task_rank u))"
proof -
  let ?ts = "sort_key task_rank tasks"
  have sorted: "sorted (map task_rank ?ts)" by simp
  have "subseq (map snd (score_tasks seen sq ts)) ts" for seen sq ts
    by (induction ts arbitrary: seen sq) (auto simp: Let_def)
  then have "subseq (map (task_rank \<circ> snd) (score_tasks {} (\<lambda>_. 0) ?ts)) (map task_rank ?ts)"
    using subseq_map [of "map snd (score_tasks {} (\<lambda>_. 0) ?ts)" ?ts task_rank] by simp
  then have "sorted (map (task_rank \<circ> snd) (score_tasks {} (\<lambda>_. 0) ?ts))"
    using sorted by (rule sorted_subseq)
  then show ?thesis
    using assms score_tasks_increasing [OF sorted, of "\<lambda>_. 0" "{}"] score_tasks_distinct [of "{}"]
      score_tasks_keys [of "{}" "\<lambda>_. 0" ?ts] score_tasks_subset [of "{}" "\<lambda>_. 0" ?ts]
      score_tasks_first [OF sorted, of _ "{}" "\<lambda>_. 0"]
    by (auto simp: order_and_dedupe_tasks_def class_score_base_def subset_iff)
qed

definition sample_tasks :: "DerivedTask list" where
  "sample_tasks =
     [\<lparr>dt_skh = ''s'', dt_list = ''b'', dt_action = Remove, dt_meta = None\<rparr>,
      \<lparr>dt_skh = ''s'', dt_list = ''a'', dt_action = Delta 5, dt_meta = None\<rparr>,
      \<lparr>dt_skh = ''s'', dt_list = ''a'', dt_action = FullLoad, dt_meta = None\<rparr>]"

theorem queue_order_correct_witness:
  "sorted_wrt (<) (map fst (order_and_dedupe_tasks sample_tasks))
    \<and> distinct (map (task_key \<circ> snd) (order_and_dedupe_tasks sample_tasks))
    \<and> task_key ` snd ` set (order_and_dedupe_tasks sample_tasks) = {(''s'', ''a''), (''s'', ''b'')}"
  using queue_order_correct [of sample_tasks] by (auto simp: sample_tasks_def)

section \<open>The manifests of a company\<close>

text \<open>The manifests that the keys of a namespace offer, and whether one of them is missing.\<close>

definition offered ::
  "(string \<Rightarrow> string) \<Rightarrow> (string \<Rightarrow> id_list_manifest option) \<Rightarrow> (string \<times> string option) list \<Rightarrow> string
     \<Rightarrow> id_list_manifest set" where
  "offered sha snapshots ids n =
     {m. \<exists>k i. (k, Some i) \<in> set ids \<and> hash_company_id sha i = n \<and> snapshots k = Some m}"

definition key_missing ::
  "(string \<Rightarrow> string) \<Rightarrow> (string \<Rightarrow> id_list_manifest option) \<Rightarrow> (string \<times> string option) list \<Rightarrow> string
     \<Rightarrow> bool" where
  "key_missing sha snapshots ids n \<longleftrightarrow>
     (\<exists>k i. (k, Some i) \<in> set ids \<and> hash_company_id sha i = n \<and> snapshots k = None)"

lemma offered_snoc:
  "offered sha sn (ids @ [(k, c)]) n =
     offered sha sn ids n \<union>
     (case c of Some i \<Rightarrow> if hash_company_id sha i = n then set_option (sn k) else {} | None \<Rightarrow> {})"
  by (cases c) (auto simp: offered_def)

lemma key_missing_snoc:
  "key_missing sha sn (ids @ [(k, c)]) n \<longleftrightarrow>
     key_missing sha sn ids n \<or> (\<exists>i. c = Some i \<and> hash_company_id sha i = n \<and> sn k = None)"
  by (auto simp: key_missing_def)

lemma dom_merge_manifest: "dom (merge_manifest a b) = dom a \<union> dom b"
  by (auto simp: merge_manifest_def merge_entry_def split: option.splits if_splits)

definition offered_entries ::
  "(string \<Rightarrow> string) \<Rightarrow> (string \<Rightarrow> id_list_manifest option) \<Rightarrow> (string \<times> string option) list \<Rightarrow> string
     \<Rightarrow> string \<Rightarrow> IdListManifestEntry set" where
  "offered_entries sha snapshots ids n name = {e. \<exists>m \<in> offered sha snapshots ids n. m name = Some e}"

text \<open>A file is created once: entries of one file agree on its creation time.\<close>

definition creation_consistent :: "IdListManifestEntry set \<Rightarrow> bool" where
  "creation_consistent es \<longleftrightarrow>
     (\<forall>a \<in> es. \<forall>b \<in> es. me_file_id a = me_file_id b \<longrightarrow> me_creation_time a = me_creation_time b)"

definition entry_rank :: "IdListManifestEntry \<Rightarrow> u64 \<times> string \<times> u64" where
  "entry_rank e = (me_creation_time e, me_file_id e, me_size e)"

lemma entry_replaces_rank:
  "(me_file_id e = me_file_id p \<Longrightarrow> me_creation_time e = me_creation_time p) \<Longrightarrow>
     entry_replaces e p \<longleftrightarrow> entry_rank p < entry_rank e"
  by (auto simp: entry_replaces_def entry_rank_def less_prod_def')

text \<open>
  What the loop over the keys has collected: a company for every namespace of a known key with the
  union of the offered lists, and the flags for a missing manifest and an unknown company.
\<close>

definition company_ok ::
  "(string \<Rightarrow> string) \<Rightarrow> (string \<Rightarrow> id_list_manifest option) \<Rightarrow> (string \<times> string option) list \<Rightarrow> string
     \<Rightarrow> CompanyManifest \<Rightarrow> bool" where
  "company_ok sha sn ids n c \<longleftrightarrow>
     dom (co_lists c) = (\<Union>m \<in> offered sha sn ids n. dom m)
     \<and> (co_incomplete c \<longleftrightarrow> key_missing sha sn ids n)
     \<and> (\<forall>name e. co_lists c name = Some e \<longrightarrow>
          e \<in> offered_entries sha sn ids n name
          \<and> (creation_consistent (offered_entries sha sn ids n name) \<longrightarrow>
               (\<forall>e' \<in> offered_entries sha sn ids n name. entry_rank e' \<le> entry_rank e)))"

lemma company_ok_entry:
  "company_ok sha sn ids n c \<Longrightarrow> co_lists c name = Some e \<Longrightarrow>
     e \<in> offered_entries sha sn ids n name
     \<and> (creation_consistent (offered_entries sha sn ids n name) \<longrightarrow>
          (\<forall>e' \<in> offered_entries sha sn ids n name. entry_rank e' \<le> entry_rank e))"
  unfolding company_ok_def by blast

lemma company_ok_complete:
  "company_ok sha sn ids n c \<Longrightarrow> \<not> co_incomplete c \<Longrightarrow> (k, Some i) \<in> set ids \<Longrightarrow>
     hash_company_id sha i = n \<Longrightarrow> sn k \<noteq> None"
  by (simp add: company_ok_def key_missing_def)

lemma merge_entry_newest:
  assumes "merge_entry previous new = Some e"
    and "\<And>p. previous = Some p \<Longrightarrow> p \<in> es
        \<and> (creation_consistent es \<longrightarrow> (\<forall>e' \<in> es. entry_rank e' \<le> entry_rank p))"
    and "previous = None \<Longrightarrow> es = {}"
  shows "e \<in> es \<union> set_option new
    \<and> (creation_consistent (es \<union> set_option new)
        \<longrightarrow> (\<forall>e' \<in> es \<union> set_option new. entry_rank e' \<le> entry_rank e))"
proof (cases new)
  case None
  then show ?thesis using assms by (auto simp: merge_entry_def)
next
  case (Some b)
  show ?thesis
  proof (cases previous)
    case None
    then show ?thesis using assms(1,3) Some by (simp add: merge_entry_def)
  next
    case prev: (Some a)
    have a: "a \<in> es" using assms(2) [OF prev] by simp
    have e: "e = (if entry_replaces b a then b else a)"
      using assms(1) Some prev by (simp add: merge_entry_def split: if_splits)
    have "entry_rank e' \<le> entry_rank e"
      if con: "creation_consistent (insert b es)" and e': "e' \<in> insert b es" for e'
    proof -
      have es: "entry_rank x \<le> entry_rank a" if "x \<in> es" for x
      proof -
        have "creation_consistent es" using con unfolding creation_consistent_def by blast
        then show ?thesis using assms(2) [OF prev] that by blast
      qed
      have cmp: "entry_replaces b a \<longleftrightarrow> entry_rank a < entry_rank b"
        by (rule entry_replaces_rank) (use con a in \<open>unfold creation_consistent_def, blast\<close>)
      show ?thesis
      proof (cases "entry_rank a < entry_rank b")
        case True
        then have "entry_rank x \<le> entry_rank b" if "x \<in> es" for x
          using order.trans [OF es [OF that] less_imp_le] by blast
        then show ?thesis using cmp e e' True by auto
      next
        case False
        then have "entry_rank b \<le> entry_rank a" by (simp only: not_less)
        then show ?thesis using cmp e e' es False by auto
      qed
    qed
    then show ?thesis using a e Some by simp
  qed
qed

lemma company_ok_other:
  assumes "company_ok sha sn ids n c" and "\<And>i. x = Some i \<Longrightarrow> hash_company_id sha i \<noteq> n"
  shows "company_ok sha sn (ids @ [(k, x)]) n c"
proof -
  have "offered sha sn (ids @ [(k, x)]) n = offered sha sn ids n"
    using assms(2) by (auto simp: offered_def)
  moreover have "key_missing sha sn (ids @ [(k, x)]) n = key_missing sha sn ids n"
    using assms(2) by (auto simp: key_missing_def)
  ultimately show ?thesis using assms(1) by (simp add: company_ok_def offered_entries_def)
qed

lemma company_ok_missing:
  assumes "company_ok sha sn ids n c" and "hash_company_id sha i = n" and "sn k = None"
  shows "company_ok sha sn (ids @ [(k, Some i)]) n (c\<lparr>co_incomplete := True\<rparr>)"
proof -
  have "offered sha sn (ids @ [(k, Some i)]) n = offered sha sn ids n"
    using assms(3) by (auto simp: offered_def)
  moreover have "key_missing sha sn (ids @ [(k, Some i)]) n"
    using assms(2,3) by (auto simp: key_missing_def)
  ultimately show ?thesis using assms(1) by (simp add: company_ok_def offered_entries_def)
qed

lemma company_ok_merge:
  assumes "company_ok sha sn ids n c" and "hash_company_id sha i = n" and "sn k = Some m"
  shows "company_ok sha sn (ids @ [(k, Some i)]) n (c\<lparr>co_lists := merge_manifest (co_lists c) m\<rparr>)"
proof -
  have off: "offered sha sn (ids @ [(k, Some i)]) n = insert m (offered sha sn ids n)"
    using assms(2,3) by (auto simp: offered_def)
  have miss: "key_missing sha sn (ids @ [(k, Some i)]) n = key_missing sha sn ids n"
    using assms(3) by (auto simp: key_missing_def)
  have ent: "offered_entries sha sn (ids @ [(k, Some i)]) n name
      = offered_entries sha sn ids n name \<union> set_option (m name)" for name
    unfolding offered_entries_def off by auto
  have newest: "e \<in> offered_entries sha sn ids n name \<union> set_option (m name)
      \<and> (creation_consistent (offered_entries sha sn ids n name \<union> set_option (m name)) \<longrightarrow>
          (\<forall>e' \<in> offered_entries sha sn ids n name \<union> set_option (m name). entry_rank e' \<le> entry_rank e))"
    if "merge_manifest (co_lists c) m name = Some e" for name e
  proof (rule merge_entry_newest)
    show "merge_entry (co_lists c name) (m name) = Some e" using that by (simp add: merge_manifest_def)
    show "p \<in> offered_entries sha sn ids n name \<and> (creation_consistent (offered_entries sha sn ids n name)
        \<longrightarrow> (\<forall>e' \<in> offered_entries sha sn ids n name. entry_rank e' \<le> entry_rank p))"
      if "co_lists c name = Some p" for p
      using assms(1) that unfolding company_ok_def by blast
    show "offered_entries sha sn ids n name = {}" if "co_lists c name = None"
    proof -
      have "name \<notin> (\<Union>m \<in> offered sha sn ids n. dom m)"
        using assms(1) that unfolding company_ok_def by blast
      then show ?thesis by (auto simp: offered_entries_def)
    qed
  qed
  have doms: "dom (merge_manifest (co_lists c) m) = (\<Union>m \<in> insert m (offered sha sn ids n). dom m)"
    using assms(1) by (auto simp: company_ok_def dom_merge_manifest)
  show ?thesis
    unfolding company_ok_def ent off miss
    using newest doms assms(1) by (simp add: company_ok_def)
qed

definition slot_ok ::
  "(string \<Rightarrow> string) \<Rightarrow> (string \<Rightarrow> id_list_manifest option) \<Rightarrow> (string \<times> string option) list \<Rightarrow> string
     \<Rightarrow> CompanyManifest option \<Rightarrow> bool" where
  "slot_ok sha sn ids n slot \<longleftrightarrow>
     (case slot of
        None \<Rightarrow> n \<notin> {hash_company_id sha i |k i. (k, Some i) \<in> set ids}
      | Some c \<Rightarrow> company_ok sha sn ids n c)"

definition collected ::
  "(string \<Rightarrow> string) \<Rightarrow> (string \<Rightarrow> id_list_manifest option) \<Rightarrow> (string \<times> string option) list
     \<Rightarrow> (string \<Rightarrow> CompanyManifest option) \<times> nat \<times> bool \<Rightarrow> bool" where
  "collected sha sn ids acc \<longleftrightarrow>
     (\<forall>n. slot_ok sha sn ids n (fst acc n)) \<and> (snd (snd acc) \<longleftrightarrow> None \<in> snd ` set ids)"

lemma slot_ok_other:
  "slot_ok sha sn ids n slot \<Longrightarrow> (\<And>i. x = Some i \<Longrightarrow> hash_company_id sha i \<noteq> n) \<Longrightarrow>
     slot_ok sha sn (ids @ [(k, x)]) n slot"
  using company_ok_other [of sha sn ids n _ x k]
  by (cases slot) (auto simp: slot_ok_def)

lemma slot_ok_default:
  assumes "slot_ok sha sn ids n slot"
  shows "company_ok sha sn ids n (case slot of None \<Rightarrow> company_default | Some c \<Rightarrow> c)"
proof (cases slot)
  case None
  then have "offered sha sn ids n = {}" "\<not> key_missing sha sn ids n"
    using assms by (auto simp: slot_ok_def offered_def key_missing_def)
  then show ?thesis using None by (simp add: company_ok_def company_default_def)
qed (use assms in \<open>simp add: slot_ok_def\<close>)

lemma collected_add:
  assumes "collected sha sn ids acc"
  shows "collected sha sn (ids @ [(k, x)]) (add_key sha sn acc (k, x))"
proof -
  obtain cs u unknown where acc: "acc = (cs, u, unknown)" by (cases acc)
  have slot: "slot_ok sha sn ids n (cs n)" for n using assms acc by (simp add: collected_def)
  have unknown: "unknown \<longleftrightarrow> None \<in> snd ` set ids" using assms acc by (simp add: collected_def)
  show ?thesis
  proof (cases x)
    case None
    then have "slot_ok sha sn (ids @ [(k, x)]) n (cs n)" for n
      by (intro slot_ok_other [OF slot]) simp
    then show ?thesis using None acc by (simp add: collected_def add_key_def)
  next
    case (Some i)
    let ?n = "hash_company_id sha i"
    have others: "slot_ok sha sn (ids @ [(k, x)]) n (cs n)" if "n \<noteq> ?n" for n
      by (intro slot_ok_other [OF slot]) (use Some that in simp)
    note ok = slot_ok_default [OF slot [of ?n]]
    show ?thesis
    proof (cases "sn k")
      case None
      then show ?thesis
        using others company_ok_missing [OF ok refl None] Some acc unknown
        by (simp add: collected_def add_key_def slot_ok_def Let_def)
    next
      case (Some m)
      then show ?thesis
        using others company_ok_merge [OF ok refl Some] \<open>x = Some i\<close> acc unknown
        by (simp add: collected_def add_key_def slot_ok_def Let_def)
    qed
  qed
qed

lemma collected_all: "collected sha sn ids (foldl (add_key sha sn) (\<lambda>_. None, 0, False) ids)"
proof (induction ids rule: rev_induct)
  case Nil
  then show ?case by (simp add: collected_def slot_ok_def)
next
  case (snoc x ids)
  then show ?case using collected_add by (cases x) simp
qed

lemma no_collisions:
  assumes "namespace_collisions sha ids = []" and "i \<in> set ids" and "j \<in> set ids"
    and "hash_company_id sha i = hash_company_id sha j"
  shows "i = j"
proof (rule ccontr)
  assume "i \<noteq> j"
  let ?n = "hash_company_id sha i"
  let ?own = "remdups_adj (sort (filter (\<lambda>x. hash_company_id sha x = ?n) ids))"
  have "{i, j} \<subseteq> set ?own" using assms(2-4) by simp
  then have "card {i, j} \<le> length ?own" by (meson List.finite_set card_length card_mono order_trans)
  then have len: "1 < length ?own" using \<open>i \<noteq> j\<close> by simp
  have "?n \<in> set (remdups_adj (sort (map (hash_company_id sha) ids)))" using assms(2) by simp
  then have "\<lparr>nc_namespace = ?n, nc_company_ids = ?own\<rparr> \<in> set (namespace_collisions sha ids)"
    using len by (auto simp: namespace_collisions_def Let_def)
  then show False using assms(1) by simp
qed

text \<open>What \<open>company_manifests\<close> returns, over the keys of the namespaces.\<close>

lemma company_manifests_collected:
  assumes "company_manifests sha ns = Inr (companies, unavailable)"
  defines "ids \<equiv> map (\<lambda>k. (k, ns_company_ids ns k)) (ns_server_keys ns)"
  shows "namespace_collisions sha (List.map_filter snd ids) = []"
    "\<exists>cs. (\<forall>n. slot_ok sha (ns_manifests ns) ids n (cs n))
      \<and> companies = (\<lambda>n. map_option (\<lambda>c. c\<lparr>co_incomplete := co_incomplete c
            \<or> (\<exists>k \<in> set (ns_server_keys ns). ns_company_ids ns k = None)\<rparr>) (cs n))"
proof -
  show "namespace_collisions sha (List.map_filter snd ids) = []"
    using assms(1) unfolding company_manifests_def ids_def by (simp add: Let_def split: if_splits)
  obtain cs u unknown where f: "foldl (add_key sha (ns_manifests ns)) (\<lambda>_. None, 0, False) ids = (cs, u, unknown)"
    by (cases "foldl (add_key sha (ns_manifests ns)) (\<lambda>_. None, 0, False) ids")
  have slot: "\<forall>n. slot_ok sha (ns_manifests ns) ids n (cs n)"
    and unknown: "unknown \<longleftrightarrow> (\<exists>k \<in> set (ns_server_keys ns). ns_company_ids ns k = None)"
    using collected_all [of sha "ns_manifests ns" ids] f by (force simp: collected_def ids_def)+
  have "companies = (if unknown then (\<lambda>n. map_option (\<lambda>c. c\<lparr>co_incomplete := True\<rparr>) (cs n)) else cs)"
    using assms(1) f unfolding company_manifests_def ids_def [symmetric]
    by (simp add: Let_def split: if_splits)
  then show "\<exists>cs. (\<forall>n. slot_ok sha (ns_manifests ns) ids n (cs n))
      \<and> companies = (\<lambda>n. map_option (\<lambda>c. c\<lparr>co_incomplete := co_incomplete c
            \<or> (\<exists>k \<in> set (ns_server_keys ns). ns_company_ids ns k = None)\<rparr>) (cs n))"
    using slot unfolding unknown [symmetric] by (intro exI [of _ cs]) (simp add: option.map_ident_strong)
qed

text \<open>The manifests of the configured keys whose company has the namespace \<open>n\<close>.\<close>

definition namespace_manifests ::
  "(string \<Rightarrow> string) \<Rightarrow> IdListNamespaces \<Rightarrow> string \<Rightarrow> id_list_manifest set" where
  "namespace_manifests sha ns n =
     {m. \<exists>k \<in> set (ns_server_keys ns). namespace_for_key sha ns k = Some n \<and> ns_manifests ns k = Some m}"

lemma offered_namespace:
  "offered sha (ns_manifests ns) (map (\<lambda>k. (k, ns_company_ids ns k)) (ns_server_keys ns)) n
     = namespace_manifests sha ns n"
  unfolding offered_def namespace_manifests_def namespace_for_key_def set_map
  by (rule Collect_cong) (force simp: image_iff)

text \<open>
  The plan of a company never loses a list of one of its keys. Different companies never
  share a namespace. Every configured key whose company is known has its namespace planned, with
  all the lists of its manifest. A namespace that is not marked incomplete, which is what
  allows removals and readiness, has exactly the lists of the manifests of its keys, and then
  the company of every configured key is known and no manifest of the namespace is missing.
\<close>

theorem company_union_complete:
  assumes "company_manifests sha ns = Inr (companies, unavailable)"
  shows "(\<forall>k \<in> set (ns_server_keys ns). \<forall>k' \<in> set (ns_server_keys ns). \<forall>n.
        namespace_for_key sha ns k = Some n \<and> namespace_for_key sha ns k' = Some n
          \<longrightarrow> ns_company_ids ns k = ns_company_ids ns k')
    \<and> (\<forall>k \<in> set (ns_server_keys ns). \<forall>n. namespace_for_key sha ns k = Some n \<longrightarrow>
        (\<exists>c. companies n = Some c \<and> dom (co_lists c) = (\<Union>m \<in> namespace_manifests sha ns n. dom m)))
    \<and> (\<forall>n c. companies n = Some c \<and> \<not> co_incomplete c \<longrightarrow>
        (\<forall>k \<in> set (ns_server_keys ns). \<exists>i. ns_company_ids ns k = Some i
           \<and> (namespace_for_key sha ns k = Some n \<longrightarrow> ns_manifests ns k \<noteq> None)))"
proof -
  let ?ids = "map (\<lambda>k. (k, ns_company_ids ns k)) (ns_server_keys ns)"
  note col = company_manifests_collected [OF assms]
  obtain cs where slot: "\<And>n. slot_ok sha (ns_manifests ns) ?ids n (cs n)"
    and companies: "companies = (\<lambda>n. map_option (\<lambda>c. c\<lparr>co_incomplete := co_incomplete c
            \<or> (\<exists>k \<in> set (ns_server_keys ns). ns_company_ids ns k = None)\<rparr>) (cs n))"
    using col(2) by blast
  have known: "i \<in> set (List.map_filter snd ?ids)"
    if "k \<in> set (ns_server_keys ns)" "ns_company_ids ns k = Some i" for k i
    using that by (force simp: map_filter_def)
  have same: "ns_company_ids ns k = ns_company_ids ns k'"
    if a: "k \<in> set (ns_server_keys ns)" "k' \<in> set (ns_server_keys ns)"
      "namespace_for_key sha ns k = Some n" "namespace_for_key sha ns k' = Some n" for k k' n
  proof -
    obtain i j where ij: "ns_company_ids ns k = Some i" "ns_company_ids ns k' = Some j"
        "hash_company_id sha i = hash_company_id sha j"
      using a(3,4) by (auto simp: namespace_for_key_def)
    then have "i = j" using no_collisions [OF col(1) known known] a(1,2) by blast
    then show ?thesis using ij by simp
  qed
  have planned: "\<exists>c. companies n = Some c \<and> dom (co_lists c) = (\<Union>m \<in> namespace_manifests sha ns n. dom m)"
    if "k \<in> set (ns_server_keys ns)" "namespace_for_key sha ns k = Some n" for k n
  proof -
    have "cs n \<noteq> None"
      using slot [of n] that by (force simp: slot_ok_def namespace_for_key_def split: option.splits)
    then show ?thesis
      using slot [of n] by (auto simp: slot_ok_def company_ok_def companies offered_namespace)
  qed
  have complete: "\<exists>i. ns_company_ids ns k = Some i \<and> (namespace_for_key sha ns k = Some n \<longrightarrow> ns_manifests ns k \<noteq> None)"
    if a: "companies n = Some c" "\<not> co_incomplete c" "k \<in> set (ns_server_keys ns)" for n c k
  proof -
    obtain c' where "cs n = Some c'" "\<not> co_incomplete c'" "ns_company_ids ns k \<noteq> None"
      using a by (auto simp: companies)
    moreover then have "company_ok sha (ns_manifests ns) ?ids n c'"
      using slot [of n] by (simp add: slot_ok_def)
    moreover have "(k, ns_company_ids ns k) \<in> set ?ids" using a(3) by simp
    ultimately show ?thesis
      using company_ok_complete [of sha "ns_manifests ns" ?ids n c' k]
      by (cases "ns_company_ids ns k") (simp_all add: namespace_for_key_def del: set_map)
  qed
  show ?thesis
  proof (intro conjI ballI allI impI, goal_cases)
    case (1 k k' n)
    then show ?case using same [of k k' n] by blast
  next
    case (2 k n)
    then show ?case by (rule planned)
  next
    case (3 n c k)
    then show ?case using complete [of n c k] by blast
  qed
qed

definition sample_list_entry :: "string \<Rightarrow> u64 \<Rightarrow> u64 \<Rightarrow> IdListManifestEntry" where
  "sample_list_entry file sz ctime =
     \<lparr>me_name = ''vip'', me_size = sz, me_url = ''u'', me_creation_time = ctime, me_file_id = file\<rparr>"

text \<open>Two keys of one company, whose manifests know the list \<open>vip\<close> at two sizes.\<close>

definition sample_namespaces :: IdListNamespaces where
  "sample_namespaces =
     \<lparr>ns_company_ids = (\<lambda>_. Some ''acme''), ns_server_keys = [''k1'', ''k2''],
      ns_manifests = [''k1'' \<mapsto> [''vip'' \<mapsto> sample_list_entry ''f'' 10 5],
                      ''k2'' \<mapsto> [''vip'' \<mapsto> sample_list_entry ''f'' 20 5]]\<rparr>"

definition sample_companies :: "string \<Rightarrow> CompanyManifest option" where
  "sample_companies =
     [''acme'' \<mapsto> \<lparr>co_lists = [''vip'' \<mapsto> sample_list_entry ''f'' 20 5], co_incomplete = False\<rparr>]"

lemma sample_company_manifests: "company_manifests (\<lambda>s. s) sample_namespaces = Inr (sample_companies, 0)"
  by (simp add: company_manifests_def sample_namespaces_def sample_companies_def add_key_def
      namespace_collisions_def map_filter_def hash_company_id_def company_default_def
      merge_manifest_def merge_entry_def entry_replaces_def sample_list_entry_def Let_def fun_eq_iff)

theorem company_union_complete_witness:
  "\<exists>c. sample_companies ''acme'' = Some c
    \<and> dom (co_lists c) = (\<Union>m \<in> namespace_manifests (\<lambda>s. s) sample_namespaces ''acme''. dom m)"
proof -
  have "''k1'' \<in> set (ns_server_keys sample_namespaces)"
      "namespace_for_key (\<lambda>s. s) sample_namespaces ''k1'' = Some ''acme''"
    by (simp_all add: namespace_for_key_def hash_company_id_def sample_namespaces_def)
  then show ?thesis using company_union_complete [OF sample_company_manifests] by blast
qed

text \<open>The entries for a list in the manifests of a namespace.\<close>

definition namespace_entries ::
  "(string \<Rightarrow> string) \<Rightarrow> IdListNamespaces \<Rightarrow> string \<Rightarrow> string \<Rightarrow> IdListManifestEntry set" where
  "namespace_entries sha ns n name = {e. \<exists>m \<in> namespace_manifests sha ns n. m name = Some e}"

text \<open>
  A company follows the newest entry that any of its keys was given. The entry planned for a
  list is one of the entries of its keys' manifests, and if entries of one file agree on
  its creation time, then no key has an entry that would replace it: none of a file
  created later, and none of the same file with more bytes.
\<close>

theorem company_union_newest:
  assumes "company_manifests sha ns = Inr (companies, unavailable)"
    and "companies n = Some c" and "co_lists c name = Some e"
    and "creation_consistent (namespace_entries sha ns n name)"
  shows "e \<in> namespace_entries sha ns n name
    \<and> (\<forall>e' \<in> namespace_entries sha ns n name. \<not> entry_replaces e' e)"
proof -
  let ?ids = "map (\<lambda>k. (k, ns_company_ids ns k)) (ns_server_keys ns)"
  obtain c' where "company_ok sha (ns_manifests ns) ?ids n c'" "co_lists c' name = Some e"
    using company_manifests_collected(2) [OF assms(1)] assms(2,3)
    by (force simp: slot_ok_def split: option.splits)
  moreover have "offered_entries sha (ns_manifests ns) ?ids n name = namespace_entries sha ns n name"
    by (simp add: offered_entries_def offered_namespace namespace_entries_def)
  ultimately have e: "e \<in> namespace_entries sha ns n name"
    and rank: "\<And>e'. e' \<in> namespace_entries sha ns n name \<Longrightarrow> entry_rank e' \<le> entry_rank e"
    using company_ok_entry [of sha "ns_manifests ns" ?ids n c' name e] assms(4) by simp_all
  have "\<not> entry_replaces e' e" if "e' \<in> namespace_entries sha ns n name" for e'
  proof -
    have "entry_replaces e' e \<longleftrightarrow> entry_rank e < entry_rank e'"
      by (rule entry_replaces_rank) (use assms(4) e that in \<open>unfold creation_consistent_def, blast\<close>)
    then show ?thesis using rank [OF that] by (simp only: not_less)
  qed
  then show ?thesis using e by blast
qed

lemma sample_entries:
  "namespace_entries (\<lambda>s. s) sample_namespaces ''acme'' ''vip'' =
     {sample_list_entry ''f'' 10 5, sample_list_entry ''f'' 20 5}"
  by (auto simp: namespace_entries_def namespace_manifests_def namespace_for_key_def
      hash_company_id_def sample_namespaces_def)

theorem company_union_newest_witness:
  "sample_list_entry ''f'' 20 5 \<in> namespace_entries (\<lambda>s. s) sample_namespaces ''acme'' ''vip''
    \<and> \<not> entry_replaces (sample_list_entry ''f'' 10 5) (sample_list_entry ''f'' 20 5)"
proof -
  have "creation_consistent (namespace_entries (\<lambda>s. s) sample_namespaces ''acme'' ''vip'')"
    unfolding sample_entries by (simp add: creation_consistent_def sample_list_entry_def)
  moreover have "sample_companies ''acme'' =
      Some \<lparr>co_lists = [''vip'' \<mapsto> sample_list_entry ''f'' 20 5], co_incomplete = False\<rparr>"
    by (simp add: sample_companies_def)
  ultimately show ?thesis
    using company_union_newest [OF sample_company_manifests, of "''acme''" _ "''vip''"
        "sample_list_entry ''f'' 20 5"]
    by (simp add: sample_entries)
qed

text \<open>
  Without this agreement the comparison is not transitive, and the entry that is kept depends on
  the order of the keys: here each of three entries replaces another one.
\<close>

lemma entry_replaces_cyclic:
  "entry_replaces (sample_list_entry ''f'' 10 5) (sample_list_entry ''g'' 10 4)"
  "entry_replaces (sample_list_entry ''g'' 10 4) (sample_list_entry ''f'' 20 3)"
  "entry_replaces (sample_list_entry ''f'' 20 3) (sample_list_entry ''f'' 10 5)"
  by (simp_all add: entry_replaces_def sample_list_entry_def)

end
