(* ===== verification/RedisService.thy ===== *)
theory RedisService
  imports SFP_Prelude
begin

text \<open>
  The interface to Redis. Redis is a service, so it is an argument of the components that use it:
  a function that runs a pipeline of commands and gives their replies or an error. This theory
  has the commands the components send, the replies they read, and, as the hypothesis
  \<open>redis_conforms\<close>, the documented behaviour of these commands on a keyspace. The hypothesis
  lets any request fail, and lets a failed request take effect in part, and lets other clients work in between. The theory also has the
  small monad in which the components are written (an error ends the computation, a computation
  may not return) with its rules for total correctness, in which the state at the point of an
  error is specified too.
\<close>

section \<open>Computations\<close>

text \<open>
  A computation on the world: it returns an error or a value and the new world, or it does not
  return (\<open>None\<close>).
\<close>

type_synonym ('w, 'e, 'a) io = "'w \<Rightarrow> (('e + 'a) \<times> 'w) option"

definition ret :: "'a \<Rightarrow> ('w, 'e, 'a) io" where
  "ret a w = Some (Inr a, w)"

definition fail :: "'e \<Rightarrow> ('w, 'e, 'a) io" where
  "fail e w = Some (Inl e, w)"

definition bind :: "('w, 'e, 'a) io \<Rightarrow> ('a \<Rightarrow> ('w, 'e, 'b) io) \<Rightarrow> ('w, 'e, 'b) io" where
  "bind m f w =
     Option.bind (m w) (\<lambda>(res, w').
       case res of Inl e \<Rightarrow> Some (Inl e, w') | Inr a \<Rightarrow> f a w')"

text \<open>Run for its effect only, as \<open>m?; k\<close>.\<close>

definition seq :: "('w, 'e, 'a) io \<Rightarrow> ('w, 'e, 'b) io \<Rightarrow> ('w, 'e, 'b) io" where
  "seq m k = bind m (\<lambda>_. k)"

text \<open>A result of another error type, as with \<open>map_err\<close>.\<close>

definition map_err :: "('e \<Rightarrow> 'f) \<Rightarrow> ('w, 'e, 'a) io \<Rightarrow> ('w, 'f, 'a) io" where
  "map_err h m w =
     Option.bind (m w) (\<lambda>(res, w').
       Some (case res of Inl e \<Rightarrow> Inl (h e) | Inr a \<Rightarrow> Inr a, w'))"

text \<open>A step that always returns, such as the transport of a request.\<close>

definition lift_io :: "('w \<Rightarrow> ('e + 'a) \<times> 'w) \<Rightarrow> ('w, 'e, 'a) io" where
  "lift_io f w = Some (f w)"

definition when_io :: "bool \<Rightarrow> ('w, 'e, unit) io \<Rightarrow> ('w, 'e, unit) io" where
  "when_io b m = (if b then m else ret ())"

text \<open>A \<open>for\<close> loop over a list.\<close>

fun for_each :: "'a list \<Rightarrow> ('a \<Rightarrow> ('w, 'e, unit) io) \<Rightarrow> ('w, 'e, unit) io" where
  "for_each [] body = ret ()"
| "for_each (x # xs) body = seq (body x) (for_each xs body)"

text \<open>A loop that carries a state from one element of a list to the next.\<close>

fun fold_io :: "'a list \<Rightarrow> ('a \<Rightarrow> 's \<Rightarrow> ('w, 'e, 's) io) \<Rightarrow> 's \<Rightarrow> ('w, 'e, 's) io" where
  "fold_io [] body s = ret s"
| "fold_io (x # xs) body s = bind (body x s) (fold_io xs body)"

subsection \<open>Recursive computations\<close>

lemma mono_bind [partial_function_mono]:
  assumes "mono_option (\<lambda>f. B f w)" and "\<And>a w'. mono_option (\<lambda>f. C f a w')"
  shows "mono_option (\<lambda>f. bind (B f) (C f) w)"
  unfolding bind_def
proof (rule bind_mono [OF assms(1)], goal_cases)
  case (1 rw)
  obtain res w' where rw: "rw = (res, w')" by force
  show ?case
    unfolding rw using assms(2) by (cases res) (simp_all add: option.const_mono)
qed

lemma if_io: "(\<lambda>a w. if c then m w else k w) = (\<lambda>a. if c then m else k)"
  by (simp add: fun_eq_iff)

section \<open>Total correctness with a condition at errors\<close>

text \<open>
  \<open>io_ok P m Q E\<close>: from a world with \<open>P\<close>, the computation \<open>m\<close> returns; a value with a world as
  \<open>Q\<close> says, or an error with a world as \<open>E\<close> says. \<open>E\<close> is what a later attempt finds.
\<close>

definition io_ok ::
  "('w \<Rightarrow> bool) \<Rightarrow> ('w, 'e, 'a) io \<Rightarrow> ('a \<Rightarrow> 'w \<Rightarrow> bool) \<Rightarrow> ('w \<Rightarrow> bool) \<Rightarrow> bool" where
  "io_ok P m Q E \<longleftrightarrow>
     (\<forall>w. P w \<longrightarrow> (\<exists>res w'. m w = Some (res, w')
        \<and> (case res of Inl _ \<Rightarrow> E w' | Inr a \<Rightarrow> Q a w')))"

lemma io_okI:
  "(\<And>w. P w \<Longrightarrow> \<exists>res w'. m w = Some (res, w') \<and> (case res of Inl _ \<Rightarrow> E w' | Inr a \<Rightarrow> Q a w'))
     \<Longrightarrow> io_ok P m Q E"
  by (simp add: io_ok_def)

lemma io_ok_value:
  "io_ok P m Q E \<Longrightarrow> P w \<Longrightarrow> m w = Some (Inr a, w') \<Longrightarrow> Q a w'"
  by (auto simp: io_ok_def)

lemma io_ok_error:
  "io_ok P m Q E \<Longrightarrow> P w \<Longrightarrow> m w = Some (Inl e, w') \<Longrightarrow> E w'"
  by (auto simp: io_ok_def)

lemma io_ok_returns: "io_ok P m Q E \<Longrightarrow> P w \<Longrightarrow> \<exists>res w'. m w = Some (res, w')"
  by (auto simp: io_ok_def)

lemma io_ok_cons:
  assumes "io_ok P' m Q' E'" and "\<And>w. P w \<Longrightarrow> P' w" and "\<And>a w. Q' a w \<Longrightarrow> Q a w" and "\<And>w. E' w \<Longrightarrow> E w"
  shows "io_ok P m Q E"
proof (rule io_okI)
  fix w assume "P w"
  then obtain res w' where "m w = Some (res, w')" "case res of Inl _ \<Rightarrow> E' w' | Inr a \<Rightarrow> Q' a w'"
    using assms(1,2) unfolding io_ok_def by blast
  then show "\<exists>res w'. m w = Some (res, w') \<and> (case res of Inl _ \<Rightarrow> E w' | Inr a \<Rightarrow> Q a w')"
    using assms(3,4) by (cases res) auto
qed

lemma io_ok_pre: "io_ok P' m Q E \<Longrightarrow> (\<And>w. P w \<Longrightarrow> P' w) \<Longrightarrow> io_ok P m Q E"
  by (rule io_ok_cons)

lemma io_ok_ex: "(\<And>x. io_ok (P x) m Q E) \<Longrightarrow> io_ok (\<lambda>w. \<exists>x. P x w) m Q E"
  unfolding io_ok_def by blast

lemma io_ok_pure: "(b \<Longrightarrow> io_ok P m Q E) \<Longrightarrow> io_ok (\<lambda>w. b \<and> P w) m Q E"
  unfolding io_ok_def by blast

lemma io_ok_ret: "(\<And>w. P w \<Longrightarrow> Q a w) \<Longrightarrow> io_ok P (ret a) Q E"
  by (simp add: io_ok_def ret_def)

lemma io_ok_fail: "(\<And>w. P w \<Longrightarrow> E w) \<Longrightarrow> io_ok P (fail e) Q E"
  by (simp add: io_ok_def fail_def)

lemma io_ok_bind:
  assumes "io_ok P m R E" and "\<And>a. io_ok (R a) (f a) Q E"
  shows "io_ok P (bind m f) Q E"
proof (rule io_okI)
  fix w assume "P w"
  then obtain res w1 where m: "m w = Some (res, w1)" "case res of Inl _ \<Rightarrow> E w1 | Inr a \<Rightarrow> R a w1"
    using assms(1) unfolding io_ok_def by blast
  show "\<exists>res w'. bind m f w = Some (res, w') \<and> (case res of Inl _ \<Rightarrow> E w' | Inr a \<Rightarrow> Q a w')"
  proof (cases res)
    case (Inl e)
    then show ?thesis using m by (simp add: bind_def)
  next
    case (Inr a)
    then show ?thesis using m assms(2) [of a] by (simp add: bind_def io_ok_def)
  qed
qed

lemma io_ok_seq: "io_ok P m (\<lambda>_. R) E \<Longrightarrow> io_ok R k Q E \<Longrightarrow> io_ok P (seq m k) Q E"
  unfolding seq_def by (rule io_ok_bind [where R = "\<lambda>_. R"])

lemma io_ok_map_err:
  assumes "io_ok P m Q E"
  shows "io_ok P (map_err h m) Q E"
proof (rule io_okI)
  fix w assume "P w"
  then obtain res w' where "m w = Some (res, w')" "case res of Inl _ \<Rightarrow> E w' | Inr a \<Rightarrow> Q a w'"
    using assms unfolding io_ok_def by blast
  then show "\<exists>res w'. map_err h m w = Some (res, w') \<and> (case res of Inl _ \<Rightarrow> E w' | Inr a \<Rightarrow> Q a w')"
    by (cases res) (simp_all add: map_err_def)
qed

lemma io_ok_if:
  "(b \<Longrightarrow> io_ok P m Q E) \<Longrightarrow> (\<not> b \<Longrightarrow> io_ok P k Q E) \<Longrightarrow> io_ok P (if b then m else k) Q E"
  by simp

lemma io_ok_when:
  "(b \<Longrightarrow> io_ok P m Q E) \<Longrightarrow> (\<And>w. \<not> b \<Longrightarrow> P w \<Longrightarrow> Q () w) \<Longrightarrow> io_ok P (when_io b m) Q E"
  by (simp add: when_io_def io_ok_def ret_def)

lemma io_ok_lift:
  "(\<And>w. P w \<Longrightarrow> (case f w of (Inl _, w') \<Rightarrow> E w' | (Inr a, w') \<Rightarrow> Q a w')) \<Longrightarrow> io_ok P (lift_io f) Q E"
  unfolding io_ok_def lift_io_def by (force split: prod.splits sum.splits)

lemma io_ok_fold:
  assumes "\<And>i s. i < length xs \<Longrightarrow> io_ok (I i s) (body (xs ! i) s) (I (Suc i)) E"
  shows "io_ok (I 0 s) (fold_io xs body s) (I (length xs)) E"
  using assms
proof (induction xs arbitrary: I s)
  case Nil
  show ?case by (simp add: io_ok_ret)
next
  case (Cons x xs)
  have "io_ok (I 0 s) (body x s) (I 1) E" using Cons.prems [of 0 s] by simp
  moreover have "io_ok (I 1 s') (fold_io xs body s') (I (Suc (length xs))) E" for s'
    using Cons.IH [of "\<lambda>i. I (Suc i)" s'] Cons.prems [of "Suc _"] by simp
  ultimately show ?case by (simp add: io_ok_bind)
qed

lemma io_ok_for_each:
  assumes "\<And>i. i < length xs \<Longrightarrow> io_ok (I i) (body (xs ! i)) (\<lambda>_. I (Suc i)) E"
  shows "io_ok (I 0) (for_each xs body) (\<lambda>_. I (length xs)) E"
  using assms
proof (induction xs arbitrary: I)
  case Nil
  show ?case by (simp add: io_ok_ret)
next
  case (Cons x xs)
  have "io_ok (I 0) (body x) (\<lambda>_. I 1) E" using Cons.prems [of 0] by simp
  moreover have "io_ok (I 1) (for_each xs body) (\<lambda>_. I (Suc (length xs))) E"
    using Cons.IH [of "\<lambda>i. I (Suc i)"] Cons.prems [of "Suc _"] by simp
  ultimately show ?case by (simp add: io_ok_seq)
qed

section \<open>The keyspace\<close>

text \<open>
  A key holds a string, a hash, a set or a sorted set, and may have a time to live, in seconds. A
  missing key is an empty hash, set or sorted set; a set or hash that becomes empty is deleted, so a
  stored set has members.
\<close>

datatype redis_value =
    VString string
  | VHash "string \<Rightarrow> string option"
  | VSet "string set"
  | VZset "string \<Rightarrow> nat option"

record redis_entry =
  re_value :: redis_value
  re_ttl :: "u64 option"

type_synonym keyspace = "string \<Rightarrow> redis_entry option"

definition hash_at :: "keyspace \<Rightarrow> string \<Rightarrow> (string \<Rightarrow> string option) option" where
  "hash_at ks k =
     (case ks k of
        None \<Rightarrow> Some (\<lambda>_. None)
      | Some e \<Rightarrow> (case re_value e of VHash h \<Rightarrow> Some h | _ \<Rightarrow> None))"

definition set_at :: "keyspace \<Rightarrow> string \<Rightarrow> string set option" where
  "set_at ks k =
     (case ks k of
        None \<Rightarrow> Some {}
      | Some e \<Rightarrow> (case re_value e of VSet s \<Rightarrow> if s = {} then None else Some s | _ \<Rightarrow> None))"

definition zset_at :: "keyspace \<Rightarrow> string \<Rightarrow> (string \<Rightarrow> nat option) option" where
  "zset_at ks k =
     (case ks k of
        None \<Rightarrow> Some (\<lambda>_. None)
      | Some e \<Rightarrow> (case re_value e of VZset z \<Rightarrow> Some z | _ \<Rightarrow> None))"

definition string_at :: "keyspace \<Rightarrow> string \<Rightarrow> string option option" where
  "string_at ks k =
     (case ks k of
        None \<Rightarrow> Some None
      | Some e \<Rightarrow> (case re_value e of VString v \<Rightarrow> Some (Some v) | _ \<Rightarrow> None))"

definition ttl_at :: "keyspace \<Rightarrow> string \<Rightarrow> u64 option" where
  "ttl_at ks k = (case ks k of None \<Rightarrow> None | Some e \<Rightarrow> re_ttl e)"

text \<open>Writing a value keeps the time to live of its key.\<close>

definition put_value :: "string \<Rightarrow> redis_value \<Rightarrow> keyspace \<Rightarrow> keyspace" where
  "put_value k v ks = ks(k \<mapsto> \<lparr>re_value = v, re_ttl = ttl_at ks k\<rparr>)"

definition put_set :: "string \<Rightarrow> string set \<Rightarrow> keyspace \<Rightarrow> keyspace" where
  "put_set k s ks = (if s = {} then ks(k := None) else put_value k (VSet s) ks)"

definition put_hash :: "string \<Rightarrow> (string \<Rightarrow> string option) \<Rightarrow> keyspace \<Rightarrow> keyspace" where
  "put_hash k h ks = (if h = (\<lambda>_. None) then ks(k := None) else put_value k (VHash h) ks)"

definition put_zset :: "string \<Rightarrow> (string \<Rightarrow> nat option) \<Rightarrow> keyspace \<Rightarrow> keyspace" where
  "put_zset k z ks = (if z = (\<lambda>_. None) then ks(k := None) else put_value k (VZset z) ks)"

section \<open>Commands and replies\<close>

text \<open>
  The commands that the components send. A Lua script runs as one atomic step, so it is given by
  what it does to the keyspace. Elements of sets and fields of hashes are read as a set or map.
\<close>

type_synonym redis_error = string

datatype redis_reply =
    ROk
  | RNil
  | RInt int
  | RBulk string
  | RStrings "string set"
  | RFields "string \<Rightarrow> string option"
  | RTexts "string option list"
  | RInts "int list"
  | RPage u64 "string list"
  | RPopped "string \<times> nat"

datatype redis_cmd =
    GET string
  | SET string string
  | SET_NX_EX string string u64
  | DEL string
  | UNLINK string
  | EXISTS string
  | EXPIRE string u64
  | PERSIST string
  | TTL string
  | HSET string "(string \<times> string) list"
  | HDEL string "string list"
  | HGET string string
  | HGETALL string
  | HMGET string "string list"
  | SADD string string
  | SREM string string
  | SCARD string
  | SMEMBERS string
  | SISMEMBER string string
  | SMISMEMBER string "string list"
  | SSCAN string u64 nat
  | SCAN u64 string nat
  | ZADD_NX string nat string
  | ZPOPMIN string
  | ZCARD string
  | EVAL "keyspace \<Rightarrow> (redis_error + redis_reply) \<times> keyspace"

definition wrong_type :: redis_error where
  "wrong_type = ''WRONGTYPE Operation against a key holding the wrong kind of value''"

definition on_set ::
  "keyspace \<Rightarrow> string \<Rightarrow> (string set \<Rightarrow> redis_reply \<times> keyspace) \<Rightarrow> (redis_error + redis_reply) \<times> keyspace" where
  "on_set ks k f = (case set_at ks k of None \<Rightarrow> (Inl wrong_type, ks) | Some s \<Rightarrow> apfst Inr (f s))"

definition on_hash ::
  "keyspace \<Rightarrow> string \<Rightarrow> ((string \<Rightarrow> string option) \<Rightarrow> redis_reply \<times> keyspace)
     \<Rightarrow> (redis_error + redis_reply) \<times> keyspace" where
  "on_hash ks k f = (case hash_at ks k of None \<Rightarrow> (Inl wrong_type, ks) | Some h \<Rightarrow> apfst Inr (f h))"

definition on_zset ::
  "keyspace \<Rightarrow> string \<Rightarrow> ((string \<Rightarrow> nat option) \<Rightarrow> redis_reply \<times> keyspace)
     \<Rightarrow> (redis_error + redis_reply) \<times> keyspace" where
  "on_zset ks k f = (case zset_at ks k of None \<Rightarrow> (Inl wrong_type, ks) | Some z \<Rightarrow> apfst Inr (f z))"

definition bool_reply :: "bool \<Rightarrow> redis_reply" where
  "bool_reply b = RInt (if b then 1 else 0)"

text \<open>The commands whose effect and reply are determined by the keyspace.\<close>

fun call :: "redis_cmd \<Rightarrow> keyspace \<Rightarrow> (redis_error + redis_reply) \<times> keyspace" where
  "call (GET k) ks =
     (case string_at ks k of
        None \<Rightarrow> (Inl wrong_type, ks)
      | Some None \<Rightarrow> (Inr RNil, ks)
      | Some (Some v) \<Rightarrow> (Inr (RBulk v), ks))"
| "call (SET k v) ks = (Inr ROk, ks(k \<mapsto> \<lparr>re_value = VString v, re_ttl = None\<rparr>))"
| "call (SET_NX_EX k v ttl) ks =
     (if ks k = None then (Inr ROk, ks(k \<mapsto> \<lparr>re_value = VString v, re_ttl = Some ttl\<rparr>))
      else (Inr RNil, ks))"
| "call (DEL k) ks = (Inr (bool_reply (ks k \<noteq> None)), ks(k := None))"
| "call (UNLINK k) ks = (Inr (bool_reply (ks k \<noteq> None)), ks(k := None))"
| "call (EXISTS k) ks = (Inr (bool_reply (ks k \<noteq> None)), ks)"
| "call (EXPIRE k ttl) ks =
     (case ks k of
        None \<Rightarrow> (Inr (RInt 0), ks)
      | Some e \<Rightarrow> (Inr (RInt 1), if ttl = 0 then ks(k := None) else ks(k \<mapsto> e\<lparr>re_ttl := Some ttl\<rparr>)))"
| "call (PERSIST k) ks =
     (case ks k of
        None \<Rightarrow> (Inr (RInt 0), ks)
      | Some e \<Rightarrow> (Inr (bool_reply (re_ttl e \<noteq> None)), ks(k \<mapsto> e\<lparr>re_ttl := None\<rparr>)))"
| "call (TTL k) ks =
     (Inr (RInt (case ks k of
        None \<Rightarrow> - 2 | Some e \<Rightarrow> (case re_ttl e of None \<Rightarrow> - 1 | Some t \<Rightarrow> uint t))), ks)"
| "call (HSET k fvs) ks =
     on_hash ks k (\<lambda>h. (RInt (int (length (filter (\<lambda>(f, _). h f = None) fvs))),
       put_hash k (foldl (\<lambda>h (f, v). h(f \<mapsto> v)) h fvs) ks))"
| "call (HDEL k fs) ks =
     on_hash ks k (\<lambda>h. (RInt (int (length (filter (\<lambda>f. h f \<noteq> None) fs))),
       put_hash k (foldl (\<lambda>h f. h(f := None)) h fs) ks))"
| "call (HGET k f) ks =
     on_hash ks k (\<lambda>h. (case h f of None \<Rightarrow> RNil | Some v \<Rightarrow> RBulk v, ks))"
| "call (HGETALL k) ks = on_hash ks k (\<lambda>h. (RFields h, ks))"
| "call (HMGET k fs) ks = on_hash ks k (\<lambda>h. (RTexts (map h fs), ks))"
| "call (SADD k m) ks = on_set ks k (\<lambda>s. (bool_reply (m \<notin> s), put_set k (insert m s) ks))"
| "call (SREM k m) ks = on_set ks k (\<lambda>s. (bool_reply (m \<in> s), put_set k (s - {m}) ks))"
| "call (SCARD k) ks = on_set ks k (\<lambda>s. (RInt (int (card s)), ks))"
| "call (SMEMBERS k) ks = on_set ks k (\<lambda>s. (RStrings s, ks))"
| "call (SISMEMBER k m) ks = on_set ks k (\<lambda>s. (bool_reply (m \<in> s), ks))"
| "call (SMISMEMBER k ms) ks = on_set ks k (\<lambda>s. (RInts (map (\<lambda>m. if m \<in> s then 1 else 0) ms), ks))"
| "call (ZADD_NX k score m) ks =
     on_zset ks k (\<lambda>z. if z m = None then (RInt 1, put_zset k (z(m \<mapsto> score)) ks) else (RInt 0, ks))"
| "call (ZCARD k) ks = on_zset ks k (\<lambda>z. (RInt (int (card (dom z))), ks))"
| "call (EVAL script) ks = script ks"
| "call (SSCAN k cur n) ks = (Inl wrong_type, ks)"
| "call (SCAN cur p n) ks = (Inl wrong_type, ks)"
| "call (ZPOPMIN k) ks = (Inl wrong_type, ks)"

subsection \<open>Iteration\<close>

text \<open>
  What the documentation promises of a full iteration: starting from cursor zero, it returns every
  element that is there from its start to its end, and only elements that are there when it
  returns them, possibly several times, and it ends. It is stated by what is still to come at a
  cursor (\<open>sc_rest\<close> for a set that does not change, \<open>sc_key_rest\<close> for the keys) and a bound on the
  pages that follow (\<open>sc_left\<close>, \<open>sc_key_left\<close>); \<open>sc_glob\<close> is the matching of patterns.
\<close>

record scans =
  sc_rest :: "string set \<Rightarrow> u64 \<Rightarrow> string set"
  sc_left :: "string set \<Rightarrow> u64 \<Rightarrow> nat"
  sc_key_rest :: "u64 \<Rightarrow> string set"
  sc_key_left :: "u64 \<Rightarrow> nat"
  sc_glob :: "string \<Rightarrow> string \<Rightarrow> bool"

text \<open>What is still to come at a cursor; cursor zero is the start of an iteration and its end.\<close>

definition ahead :: "scans \<Rightarrow> string set \<Rightarrow> u64 \<Rightarrow> string set" where
  "ahead sc xs cur = (if cur = 0 then xs else sc_rest sc xs cur)"

definition key_ahead :: "scans \<Rightarrow> u64 \<Rightarrow> string \<Rightarrow> bool" where
  "key_ahead sc cur k \<longleftrightarrow> cur = 0 \<or> k \<in> sc_key_rest sc cur"

definition page_ok :: "scans \<Rightarrow> string set \<Rightarrow> u64 \<Rightarrow> u64 \<Rightarrow> string list \<Rightarrow> bool" where
  "page_ok sc xs cur nxt page \<longleftrightarrow>
     set page \<subseteq> xs \<and> ahead sc xs cur \<subseteq> set page \<union> (if nxt = 0 then {} else ahead sc xs nxt)
     \<and> (nxt \<noteq> 0 \<longrightarrow> sc_left sc xs nxt < sc_left sc xs cur)"

definition key_page_ok :: "scans \<Rightarrow> string set \<Rightarrow> u64 \<Rightarrow> u64 \<Rightarrow> string list \<Rightarrow> bool" where
  "key_page_ok sc xs cur nxt page \<longleftrightarrow>
     set page \<subseteq> xs
     \<and> (\<forall>k \<in> xs. key_ahead sc cur k \<longrightarrow> k \<in> set page \<or> (nxt \<noteq> 0 \<and> key_ahead sc nxt k))
     \<and> (nxt \<noteq> 0 \<longrightarrow> sc_key_left sc nxt < sc_key_left sc cur)"

definition step_ok :: "scans \<Rightarrow> redis_cmd \<Rightarrow> keyspace \<Rightarrow> redis_reply \<Rightarrow> keyspace \<Rightarrow> bool" where
  "step_ok sc c ks reply ks' \<longleftrightarrow>
     (case c of
        SSCAN k cur n \<Rightarrow>
          ks' = ks \<and> (\<exists>s nxt page. set_at ks k = Some s \<and> reply = RPage nxt page \<and> page_ok sc s cur nxt page)
      | SCAN cur p n \<Rightarrow>
          ks' = ks \<and> (\<exists>nxt page. reply = RPage nxt page
            \<and> key_page_ok sc {k \<in> dom ks. sc_glob sc p k} cur nxt page)
      | ZPOPMIN k \<Rightarrow>
          (\<exists>z. zset_at ks k = Some z \<and>
            (if z = (\<lambda>_. None) then reply = RNil \<and> ks' = ks
             else (\<exists>m score. reply = RPopped (m, score) \<and> z m = Some score
               \<and> (\<forall>m' score'. z m' = Some score' \<longrightarrow> score \<le> score') \<and> ks' = put_zset k (z(m := None)) ks)))
      | _ \<Rightarrow> call c ks = (Inr reply, ks'))"

section \<open>Conformance\<close>

text \<open>
  Other clients use the service at the same time. What they may do to the keyspace is the relation
  \<open>rely\<close>: a step of theirs can come before every command of a pipeline, and before an atomic
  pipeline as a whole. A pipeline that succeeds runs its commands in order.
\<close>

type_synonym interference = "keyspace \<Rightarrow> keyspace \<Rightarrow> bool"

fun ran :: "scans \<Rightarrow> interference \<Rightarrow> redis_cmd list \<Rightarrow> keyspace \<Rightarrow> redis_reply list \<Rightarrow> keyspace \<Rightarrow> bool" where
  "ran sc rely [] ks replies ks' \<longleftrightarrow> replies = [] \<and> rely ks ks'"
| "ran sc rely (c # cs) ks replies ks' \<longleftrightarrow>
     (\<exists>r rs ks0 ks1. replies = r # rs \<and> rely ks ks0 \<and> step_ok sc c ks0 r ks1 \<and> ran sc rely cs ks1 rs ks')"

text \<open>
  A pipeline that fails may have run any of its commands, in order: the connection can break
  after some of them, and the server can refuse single commands, for instance for want of memory.
\<close>

fun partially :: "scans \<Rightarrow> interference \<Rightarrow> redis_cmd list \<Rightarrow> keyspace \<Rightarrow> keyspace \<Rightarrow> bool" where
  "partially sc rely [] ks ks' \<longleftrightarrow> rely ks ks'"
| "partially sc rely (c # cs) ks ks' \<longleftrightarrow>
     partially sc rely cs ks ks'
     \<or> (\<exists>r ks0 ks1. rely ks ks0 \<and> step_ok sc c ks0 r ks1 \<and> partially sc rely cs ks1 ks')"

text \<open>
  The service as the components see it: a pipeline, atomic or not, is run in a world of which
  \<open>view\<close> shows the keyspace.
\<close>

type_synonym 'w redis = "bool \<Rightarrow> redis_cmd list \<Rightarrow> 'w \<Rightarrow> (redis_error + redis_reply list) \<times> 'w"

definition conforms_result ::
  "scans \<Rightarrow> interference \<Rightarrow> bool \<Rightarrow> redis_cmd list \<Rightarrow> keyspace
     \<Rightarrow> redis_error + redis_reply list \<Rightarrow> keyspace \<Rightarrow> bool" where
  "conforms_result sc rely atomic cs ks res ks' \<longleftrightarrow>
     (if atomic then
        (\<exists>ks0. rely ks ks0 \<and>
          (case res of
             Inr replies \<Rightarrow> ran sc (=) cs ks0 replies ks'
           | Inl _ \<Rightarrow> ks' = ks0 \<or> (\<exists>replies. ran sc (=) cs ks0 replies ks')))
      else (case res of
          Inr replies \<Rightarrow> ran sc rely cs ks replies ks'
        | Inl _ \<Rightarrow> partially sc rely cs ks ks'))"

definition redis_conforms :: "scans \<Rightarrow> interference \<Rightarrow> 'w redis \<Rightarrow> ('w \<Rightarrow> keyspace) \<Rightarrow> bool" where
  "redis_conforms sc rely exec view \<longleftrightarrow>
     (\<forall>atomic cs w. case exec atomic cs w of
        (res, w') \<Rightarrow> conforms_result sc rely atomic cs (view w) res (view w'))"

section \<open>Sending commands\<close>

definition pipe :: "'w redis \<Rightarrow> bool \<Rightarrow> redis_cmd list \<Rightarrow> ('w, redis_error, redis_reply list) io" where
  "pipe exec atomic cs = lift_io (exec atomic cs)"

definition command :: "'w redis \<Rightarrow> redis_cmd \<Rightarrow> ('w, redis_error, redis_reply) io" where
  "command exec c =
     bind (pipe exec False [c]) (\<lambda>rs. case rs of [r] \<Rightarrow> ret r | _ \<Rightarrow> fail ''unexpected reply'')"

text \<open>Reading a reply as a Rust value, as \<open>FromRedisValue\<close> does.\<close>

definition reply_error :: redis_error where
  "reply_error = ''Response was of incompatible type''"

definition as_bool :: "redis_reply \<Rightarrow> ('w, redis_error, bool) io" where
  "as_bool r = (case r of RInt i \<Rightarrow> ret (i \<noteq> 0) | RNil \<Rightarrow> ret False | ROk \<Rightarrow> ret True | _ \<Rightarrow> fail reply_error)"

definition as_u64 :: "redis_reply \<Rightarrow> ('w, redis_error, u64) io" where
  "as_u64 r =
     (case r of
        RInt i \<Rightarrow> if 0 \<le> i \<and> i < 2 ^ 64 then ret (of_int i) else fail reply_error
      | RBulk s \<Rightarrow> (case parse_u64 s of Some n \<Rightarrow> ret n | None \<Rightarrow> fail reply_error)
      | _ \<Rightarrow> fail reply_error)"

definition as_int :: "redis_reply \<Rightarrow> ('w, redis_error, int) io" where
  "as_int r = (case r of RInt i \<Rightarrow> ret i | _ \<Rightarrow> fail reply_error)"

definition as_fields :: "redis_reply \<Rightarrow> ('w, redis_error, string \<Rightarrow> string option) io" where
  "as_fields r = (case r of RFields f \<Rightarrow> ret f | RNil \<Rightarrow> ret (\<lambda>_. None) | _ \<Rightarrow> fail reply_error)"

definition as_strings :: "redis_reply \<Rightarrow> ('w, redis_error, string set) io" where
  "as_strings r = (case r of RStrings s \<Rightarrow> ret s | RNil \<Rightarrow> ret {} | _ \<Rightarrow> fail reply_error)"

definition as_text :: "redis_reply \<Rightarrow> ('w, redis_error, string option) io" where
  "as_text r = (case r of RBulk s \<Rightarrow> ret (Some s) | RNil \<Rightarrow> ret None | ROk \<Rightarrow> ret (Some ''OK'') | _ \<Rightarrow> fail reply_error)"

definition as_page :: "redis_reply \<Rightarrow> ('w, redis_error, u64 \<times> string list) io" where
  "as_page r = (case r of RPage n p \<Rightarrow> ret (n, p) | _ \<Rightarrow> fail reply_error)"

section \<open>Rules for commands\<close>

text \<open>The conditions are on the keyspace that the world shows.\<close>

abbreviation kio_ok ::
  "('w \<Rightarrow> keyspace) \<Rightarrow> (keyspace \<Rightarrow> bool) \<Rightarrow> ('w, 'e, 'a) io \<Rightarrow> ('a \<Rightarrow> keyspace \<Rightarrow> bool) \<Rightarrow> (keyspace \<Rightarrow> bool)
     \<Rightarrow> bool" where
  "kio_ok view P m Q E \<equiv> io_ok (\<lambda>w. P (view w)) m (\<lambda>a w. Q a (view w)) (\<lambda>w. E (view w))"

text \<open>Conditions that other clients keep.\<close>

definition stable :: "interference \<Rightarrow> (keyspace \<Rightarrow> bool) \<Rightarrow> bool" where
  "stable rely P \<longleftrightarrow> (\<forall>ks ks'. rely ks ks' \<longrightarrow> P ks \<longrightarrow> P ks')"

lemma stableD: "stable rely P \<Longrightarrow> rely ks ks' \<Longrightarrow> P ks \<Longrightarrow> P ks'"
  by (simp add: stable_def)

lemma stable_eq [simp]: "stable (=) P"
  by (simp add: stable_def)

lemma stable_const [simp]: "stable rely (\<lambda>_. b)"
  by (simp add: stable_def)

lemma ran_inv:
  assumes "ran sc rely cs ks rs ks'" and "I 0 ks"
    and "\<And>i. i \<le> length cs \<Longrightarrow> stable rely (I i)"
    and "\<And>i ks r ks'. i < length cs \<Longrightarrow> I i ks \<Longrightarrow> step_ok sc (cs ! i) ks r ks' \<Longrightarrow> I (Suc i) ks'"
  shows "I (length cs) ks'"
  using assms
proof (induction cs arbitrary: I ks rs)
  case Nil
  then show ?case using stableD [of rely "I 0" ks ks'] by simp
next
  case (Cons c cs)
  then obtain r rs' ks0 ks1 where st: "rely ks ks0" "step_ok sc c ks0 r ks1" "ran sc rely cs ks1 rs' ks'"
    by auto
  have "I 0 ks0" using Cons.prems(3) [of 0] stableD st(1) Cons.prems(2) by simp
  then have "I (Suc 0) ks1" using Cons.prems(4) [of 0 ks0 r ks1] st(2) by simp
  then show ?case
    using Cons.IH [of ks1 rs' "\<lambda>i. I (Suc i)"] st(3) Cons.prems(3) [of "Suc _"] Cons.prems(4) [of "Suc _"]
    by simp
qed

lemma partially_inv:
  assumes "partially sc rely cs ks ks'" and "E ks" and "stable rely E"
    and "\<And>c ks r ks'. c \<in> set cs \<Longrightarrow> E ks \<Longrightarrow> step_ok sc c ks r ks' \<Longrightarrow> E ks'"
  shows "E ks'"
  using assms
proof (induction cs arbitrary: ks)
  case Nil
  then show ?case using stableD by simp
next
  case (Cons c cs)
  note keep = Cons.prems(4)
  have rest: "E ks1 \<Longrightarrow> partially sc rely cs ks1 ks' \<Longrightarrow> E ks'" for ks1
    by (rule Cons.IH [OF _ _ Cons.prems(3)]) (auto intro: keep)
  from Cons.prems(1) consider "partially sc rely cs ks ks'"
    | r ks0 ks1 where "rely ks ks0" "step_ok sc c ks0 r ks1" "partially sc rely cs ks1 ks'"
    by auto
  then show ?case
  proof cases
    case 1
    then show ?thesis using rest Cons.prems(2) by blast
  next
    case 2
    have "E ks0" using stableD [OF Cons.prems(3) 2(1)] Cons.prems(2) by blast
    then have "E ks1" using keep [of c ks0 r ks1] 2(2) by simp
    then show ?thesis using rest 2(3) by blast
  qed
qed

lemma conforms_exec:
  "redis_conforms sc rely exec view \<Longrightarrow> exec atomic cs w = (res, w')
     \<Longrightarrow> conforms_result sc rely atomic cs (view w) res (view w')"
  unfolding redis_conforms_def by (metis (mono_tags, lifting) case_prod_conv)

text \<open>
  A pipeline, by a condition \<open>I i\<close> after \<open>i\<close> of its commands and a condition \<open>E\<close> that every command
  keeps.
\<close>

lemma result_inv:
  assumes "conforms_result sc rely atomic cs ks (Inr rs) ks'" and "I 0 ks"
    and "\<And>i. i \<le> length cs \<Longrightarrow> stable rely (I i)"
    and "\<And>i ks r ks'. i < length cs \<Longrightarrow> I i ks \<Longrightarrow> step_ok sc (cs ! i) ks r ks' \<Longrightarrow> I (Suc i) ks'"
  shows "I (length cs) ks'"
proof (cases atomic)
  case True
  then obtain ks0 where ks0: "rely ks ks0" "ran sc (=) cs ks0 rs ks'"
    using assms(1) by (auto simp: conforms_result_def)
  have "I 0 ks0" using stableD [OF assms(3) ks0(1)] assms(2) by simp
  then show ?thesis using ran_inv [OF ks0(2), of I] assms(4) by simp
next
  case False
  then show ?thesis using ran_inv [of sc rely cs ks rs ks' I] assms by (simp add: conforms_result_def)
qed

lemma error_inv:
  assumes "conforms_result sc rely atomic cs ks (Inl e) ks'" and "E ks" and "stable rely E"
    and "\<And>c ks r ks'. c \<in> set cs \<Longrightarrow> E ks \<Longrightarrow> step_ok sc c ks r ks' \<Longrightarrow> E ks'"
  shows "E ks'"
proof (cases atomic)
  case True
  then obtain ks0 where ks0: "rely ks ks0" "ks' = ks0 \<or> (\<exists>rs. ran sc (=) cs ks0 rs ks')"
    using assms(1) by (auto simp: conforms_result_def)
  have "E ks0" using stableD [OF assms(3) ks0(1) assms(2)] .
  moreover have "E ks'" if "ran sc (=) cs ks0 rs ks'" for rs
    using that \<open>E ks0\<close> by (rule ran_inv [where I = "\<lambda>_. E"]) (auto intro: assms(4) nth_mem)
  ultimately show ?thesis using ks0(2) by blast
next
  case False
  then have "partially sc rely cs ks ks'" using assms(1) by (simp add: conforms_result_def)
  then show ?thesis using assms(2,3,4) by (rule partially_inv)
qed

lemma pipe_ok:
  assumes "redis_conforms sc rely exec view"
    and "\<And>ks. P ks \<Longrightarrow> I 0 ks" and "\<And>i. i \<le> length cs \<Longrightarrow> stable rely (I i)"
    and "\<And>i ks r ks'. i < length cs \<Longrightarrow> I i ks \<Longrightarrow> step_ok sc (cs ! i) ks r ks' \<Longrightarrow> I (Suc i) ks'"
    and "\<And>ks. P ks \<Longrightarrow> E ks" and "stable rely E"
    and "\<And>c ks r ks'. c \<in> set cs \<Longrightarrow> E ks \<Longrightarrow> step_ok sc c ks r ks' \<Longrightarrow> E ks'"
  shows "kio_ok view P (pipe exec atomic cs) (\<lambda>_. I (length cs)) E"
  unfolding pipe_def
proof (rule io_ok_lift)
  fix w assume P: "P (view w)"
  obtain res w' where x: "exec atomic cs w = (res, w')" by force
  note c = conforms_exec [OF assms(1) x]
  show "case exec atomic cs w of (Inl _, w') \<Rightarrow> E (view w') | (Inr a, w') \<Rightarrow> I (length cs) (view w')"
  proof (cases res)
    case (Inl e)
    have "E (view w')"
      using c [unfolded Inl] assms(5) [OF P] assms(6,7) by (rule error_inv)
    then show ?thesis using x Inl by simp
  next
    case (Inr rs)
    have "I (length cs) (view w')"
      using c [unfolded Inr] assms(2) [OF P] assms(3,4) by (rule result_inv)
    then show ?thesis using x Inr by simp
  qed
qed

text \<open>
  A pipeline that only reads, under a condition \<open>K\<close> that other clients keep and that bounds the
  replies.
\<close>

lemma ran_reads:
  assumes "ran sc rely cs ks rs ks'" and "K ks" and "stable rely K"
    and "\<And>c ks r ks'. c \<in> set cs \<Longrightarrow> K ks \<Longrightarrow> step_ok sc c ks r ks' \<Longrightarrow> R c r \<and> K ks'"
  shows "list_all2 R cs rs \<and> K ks'"
  using assms
proof (induction cs arbitrary: ks rs)
  case Nil
  then show ?case using stableD by auto
next
  case (Cons c cs)
  then obtain r rs' ks0 ks1 where st: "rs = r # rs'" "rely ks ks0" "step_ok sc c ks0 r ks1" "ran sc rely cs ks1 rs' ks'"
    by auto
  have "K ks0" using stableD [OF Cons.prems(3) st(2)] Cons.prems(2) by blast
  then have r: "R c r" "K ks1" using Cons.prems(4) [of c ks0 r ks1] st(3) by simp_all
  have "list_all2 R cs rs' \<and> K ks'"
    by (rule Cons.IH [OF st(4) r(2) Cons.prems(3)]) (rule Cons.prems(4), simp_all)
  then show ?case using r(1) st(1) by simp
qed

lemma pipe_reads_ok:
  assumes "redis_conforms sc rely exec view" and "stable rely K"
    and "\<And>c ks r ks'. c \<in> set cs \<Longrightarrow> K ks \<Longrightarrow> step_ok sc c ks r ks' \<Longrightarrow> R c r \<and> K ks'"
  shows "kio_ok view K (pipe exec False cs) (\<lambda>rs ks. list_all2 R cs rs \<and> K ks) K"
  unfolding pipe_def
proof (rule io_ok_lift)
  fix w assume K: "K (view w)"
  obtain res w' where x: "exec False cs w = (res, w')" by force
  note c = conforms_exec [OF assms(1) x]
  show "case exec False cs w of (Inl _, w') \<Rightarrow> K (view w') | (Inr rs, w') \<Rightarrow> list_all2 R cs rs \<and> K (view w')"
  proof (cases res)
    case (Inl e)
    have "K (view w')" using c [unfolded Inl] K assms(2) by (rule error_inv) (use assms(3) in blast)
    then show ?thesis using x Inl by simp
  next
    case (Inr rs)
    then have "ran sc rely cs (view w) rs (view w')" using c by (simp add: conforms_result_def)
    from ran_reads [OF this K assms(2,3)] show ?thesis using x Inr by simp
  qed
qed

text \<open>One command. \<open>Q\<close> is about the moment of the command; it is weakened to hold later.\<close>

lemma command_ok:
  assumes "redis_conforms sc rely exec view" and "stable rely P"
    and "\<And>ks r ks'. P ks \<Longrightarrow> step_ok sc c ks r ks' \<Longrightarrow> Q r ks' \<and> E ks'"
    and "\<And>ks. P ks \<Longrightarrow> E ks" and "stable rely E" and "\<And>r. stable rely (Q r)"
  shows "kio_ok view P (command exec c) Q E"
  unfolding command_def
proof (rule io_ok_bind)
  show "kio_ok view P (pipe exec False [c]) (\<lambda>rs ks. \<exists>r. rs = [r] \<and> Q r ks) E"
    unfolding pipe_def
  proof (rule io_ok_lift)
    fix w assume P: "P (view w)"
    obtain res w' where x: "exec False [c] w = (res, w')" by force
    note cr = conforms_exec [OF assms(1) x]
    have st: "Q r ks1 \<and> E ks1" if "rely (view w) ks0" "step_ok sc c ks0 r ks1" for ks0 r ks1
      using assms(3) stableD [OF assms(2) that(1) P] that(2) by blast
    show "case exec False [c] w of
        (Inl _, w') \<Rightarrow> E (view w') | (Inr rs, w') \<Rightarrow> \<exists>r. rs = [r] \<and> Q r (view w')"
    proof (cases res)
      case (Inl e)
      then consider "rely (view w) (view w')"
        | r ks0 ks1 where "rely (view w) ks0" "step_ok sc c ks0 r ks1" "rely ks1 (view w')"
        using cr by (auto simp: conforms_result_def)
      then have "E (view w')"
        by cases (use st stableD [OF assms(5)] assms(4) [OF P] in blast)+
      then show ?thesis using x Inl by simp
    next
      case (Inr rs)
      then obtain r ks0 ks1 where "rs = [r]" "rely (view w) ks0" "step_ok sc c ks0 r ks1" "rely ks1 (view w')"
        using cr by (auto simp: conforms_result_def)
      then have "rs = [r] \<and> Q r (view w')" using st stableD [OF assms(6)] by blast
      then show ?thesis using x Inr by auto
    qed
  qed
  show "io_ok (\<lambda>w. \<exists>r. rs = [r] \<and> Q r (view w))
      (case rs of [] \<Rightarrow> fail ''unexpected reply'' | [r] \<Rightarrow> ret r | r # x # xs \<Rightarrow> fail ''unexpected reply'')
      (\<lambda>r w. Q r (view w)) (\<lambda>w. E (view w))" for rs
    by (cases rs rule: remdups_adj.cases) (auto intro: io_ok_ret io_ok_fail)
qed

text \<open>A command that is determined by the keyspace.\<close>

fun determined :: "redis_cmd \<Rightarrow> bool" where
  "determined (SSCAN _ _ _) = False"
| "determined (SCAN _ _ _) = False"
| "determined (ZPOPMIN _) = False"
| "determined _ = True"

lemma step_ok_determined: "determined c \<Longrightarrow> step_ok sc c ks r ks' \<longleftrightarrow> call c ks = (Inr r, ks')"
  by (cases c) (simp_all add: step_ok_def)

lemma call_ok:
  assumes "redis_conforms sc rely exec view" and "determined c" and "stable rely P"
    and "\<And>ks r ks'. P ks \<Longrightarrow> call c ks = (Inr r, ks') \<Longrightarrow> Q r ks' \<and> E ks'"
    and "\<And>ks. P ks \<Longrightarrow> E ks" and "stable rely E" and "\<And>r. stable rely (Q r)"
  shows "kio_ok view P (command exec c) Q E"
  by (rule command_ok [OF assms(1,3)]) (use assms(2,4-7) in \<open>simp_all add: step_ok_determined\<close>)

text \<open>Reading a reply does not change the world.\<close>

lemmas reader_defs = as_bool_def as_u64_def as_int_def as_fields_def as_strings_def as_text_def as_page_def

lemma reader_ok:
  assumes "\<And>w. P w \<Longrightarrow> E w"
    and "\<And>w a. P w \<Longrightarrow> rd w = Some (Inr a, w) \<Longrightarrow> Q a w"
    and "\<And>w. \<exists>res. rd w = Some (res, w)"
  shows "io_ok P rd Q E"
proof (rule io_okI)
  fix w assume "P w"
  moreover obtain res where "rd w = Some (res, w)" using assms(3) by blast
  ultimately show "\<exists>res w'. rd w = Some (res, w') \<and> (case res of Inl _ \<Rightarrow> E w' | Inr a \<Rightarrow> Q a w')"
    using assms(1,2) by (cases res) auto
qed

lemma reader_pure:
  "\<exists>res. as_bool r w = Some (res, w)" "\<exists>res. as_u64 r w = Some (res, w)"
  "\<exists>res. as_int r w = Some (res, w)" "\<exists>res. as_fields r w = Some (res, w)"
  "\<exists>res. as_strings r w = Some (res, w)" "\<exists>res. as_text r w = Some (res, w)"
  "\<exists>res. as_page r w = Some (res, w)"
  by (auto simp: reader_defs ret_def fail_def split: redis_reply.splits option.splits)

section \<open>Reading and writing the keyspace\<close>

named_theorems key_simps \<open>what commands do to the objects of the keyspace\<close>

lemma set_at_put [key_simps]:
  "set_at (put_set k s ks) k' = (if k' = k then Some s else set_at ks k')"
  by (simp add: set_at_def put_set_def put_value_def)

lemma hash_at_put [key_simps]:
  "hash_at (put_hash k h ks) k' = (if k' = k then Some h else hash_at ks k')"
  by (simp add: hash_at_def put_hash_def put_value_def)

lemma set_at_put_hash [key_simps]: "k' \<noteq> k \<Longrightarrow> set_at (put_hash k h ks) k' = set_at ks k'"
  by (simp add: set_at_def put_hash_def put_value_def)

lemma hash_at_put_set [key_simps]: "k' \<noteq> k \<Longrightarrow> hash_at (put_set k s ks) k' = hash_at ks k'"
  by (simp add: hash_at_def put_set_def put_value_def)

lemma put_set_other [key_simps]: "k' \<noteq> k \<Longrightarrow> put_set k s ks k' = ks k'"
  by (simp add: put_set_def put_value_def)

lemma put_hash_other [key_simps]: "k' \<noteq> k \<Longrightarrow> put_hash k h ks k' = ks k'"
  by (simp add: put_hash_def put_value_def)

lemma ttl_at_put_set [key_simps]:
  "ttl_at (put_set k s ks) k' = (if k' = k \<and> s = {} then None else ttl_at ks k')"
  by (simp add: ttl_at_def put_set_def put_value_def)

lemma ttl_at_put_hash [key_simps]: "k' \<noteq> k \<Longrightarrow> ttl_at (put_hash k h ks) k' = ttl_at ks k'"
  by (simp add: ttl_at_def put_hash_def put_value_def)

lemma upd_other [key_simps]:
  "k' \<noteq> k \<Longrightarrow> set_at (ks(k := v)) k' = set_at ks k'"
  "k' \<noteq> k \<Longrightarrow> hash_at (ks(k := v)) k' = hash_at ks k'"
  "k' \<noteq> k \<Longrightarrow> string_at (ks(k := v)) k' = string_at ks k'"
  "k' \<noteq> k \<Longrightarrow> ttl_at (ks(k := v)) k' = ttl_at ks k'"
  by (simp_all add: set_at_def hash_at_def string_at_def ttl_at_def)

lemma upd_ttl:
  assumes "ks k = Some e"
  shows "set_at (ks(k \<mapsto> e\<lparr>re_ttl := t\<rparr>)) k' = set_at ks k'"
    "hash_at (ks(k \<mapsto> e\<lparr>re_ttl := t\<rparr>)) k' = hash_at ks k'"
  using assms by (cases "k' = k"; simp add: set_at_def hash_at_def)+

lemma upd_none [key_simps]:
  "set_at (ks(k := None)) k = Some {}" "hash_at (ks(k := None)) k = Some (\<lambda>_. None)"
  by (simp_all add: set_at_def hash_at_def)

lemma exists_set: "set_at ks k = Some s \<Longrightarrow> ks k = None \<longleftrightarrow> s = {}"
  by (auto simp: set_at_def split: option.splits redis_value.splits if_splits)

end
