(* ===== verification/WorkLock.thy ===== *)
theory WorkLock
  imports RedisService
begin

text \<open>
  The work lock of \<open>idlist_membership/work_lock.rs\<close>: acquisition by \<open>SET NX EX\<close>, renewal and
  release by scripts that compare the stored holder. The main result is mutual exclusion over
  every interleaving of the requests of several holders, failed requests included.
\<close>

section \<open>Operations\<close>

record 'w RedisWorkLock =
  lk_pool :: "'w redis"
  lk_holder_id :: string

text \<open>The scripts. \<open>redis.call\<close> raises an error when the key holds something else than a string.\<close>

definition renew_script ::
  "string \<Rightarrow> string \<Rightarrow> u64 \<Rightarrow> keyspace \<Rightarrow> (redis_error + redis_reply) \<times> keyspace" where
  "renew_script key holder ttl_s ks =
     (case string_at ks key of
        None \<Rightarrow> (Inl wrong_type, ks)
      | Some v \<Rightarrow> if v = Some holder then call (EXPIRE key ttl_s) ks else (Inr (RInt 0), ks))"

definition release_script ::
  "string \<Rightarrow> string \<Rightarrow> keyspace \<Rightarrow> (redis_error + redis_reply) \<times> keyspace" where
  "release_script key holder ks =
     (case string_at ks key of
        None \<Rightarrow> (Inl wrong_type, ks)
      | Some v \<Rightarrow> if v = Some holder then call (DEL key) ks else (Inr (RInt 0), ks))"

definition try_acquire :: "'w RedisWorkLock \<Rightarrow> string \<Rightarrow> u64 \<Rightarrow> ('w, redis_error, bool) io" where
  "try_acquire lk key ttl_s =
     bind (command (lk_pool lk) (SET_NX_EX key (lk_holder_id lk) ttl_s)) (\<lambda>r.
     bind (as_text r) (\<lambda>acquired.
     ret (acquired \<noteq> None)))"

definition renew :: "'w RedisWorkLock \<Rightarrow> string \<Rightarrow> u64 \<Rightarrow> ('w, redis_error, bool) io" where
  "renew lk key ttl_s =
     bind (command (lk_pool lk) (EVAL (renew_script key (lk_holder_id lk) ttl_s))) (\<lambda>r.
     bind (as_int r) (\<lambda>renewed.
     ret (renewed = 1)))"

definition release :: "'w RedisWorkLock \<Rightarrow> string \<Rightarrow> ('w, redis_error, unit) io" where
  "release lk key =
     bind (command (lk_pool lk) (EVAL (release_script key (lk_holder_id lk)))) (\<lambda>r.
     bind (as_int r) (\<lambda>_.
     ret ()))"

section \<open>One request\<close>

definition held_by :: "string \<Rightarrow> string \<Rightarrow> keyspace \<Rightarrow> bool" where
  "held_by key h ks \<longleftrightarrow> string_at ks key = Some (Some h)"

lemma held_by_unique: "held_by key h ks \<Longrightarrow> held_by key h' ks \<Longrightarrow> h' = h"
  by (simp add: held_by_def)

lemma held_by_present: "held_by key h ks \<Longrightarrow> ks key \<noteq> None"
  by (auto simp: held_by_def string_at_def split: option.splits)

lemma held_by_cong: "ks' key = ks key \<Longrightarrow> held_by key h ks' = held_by key h ks"
  by (simp add: held_by_def string_at_def)

text \<open>What a script can do to the lock, seen by the holder of the lock.\<close>

lemma renew_script_held:
  assumes "renew_script key h' ttl ks = (Inr r, ks')" and "held_by key h ks" and "0 < ttl"
  shows "held_by key h ks' \<and> r = RInt (if h' = h then 1 else 0)"
  using assms
  by (auto simp: renew_script_def held_by_def string_at_def split: option.splits if_splits
      redis_value.splits)

lemma release_script_held:
  assumes "release_script key h' ks = (Inr r, ks')" and "held_by key h ks" and "h' \<noteq> h"
  shows "held_by key h ks'"
  using assms by (auto simp: release_script_def held_by_def split: if_splits)

text \<open>
  The three operations, seen by the holder \<open>h\<close> of the lock: nobody acquires it, and only a release
  by \<open>h\<close> can end it. The conditions hold at an error too, whether or not the request was run.
\<close>

lemma try_acquire_held:
  assumes "redis_conforms sc (=) (lk_pool lk) view"
  shows "kio_ok view (held_by key h) (try_acquire lk key ttl) (\<lambda>b ks. \<not> b \<and> held_by key h ks) (held_by key h)"
  unfolding try_acquire_def
proof (rule io_ok_bind [OF call_ok [OF assms, where Q = "\<lambda>r ks. r = RNil \<and> held_by key h ks"]])
  show "(r = RNil \<and> held_by key h ks') \<and> held_by key h ks'"
    if "held_by key h ks" "call (SET_NX_EX key (lk_holder_id lk) ttl) ks = (Inr r, ks')" for ks r ks'
    using that held_by_present [of key h ks] by auto
  show "io_ok (\<lambda>w. r = RNil \<and> held_by key h (view w)) (bind (as_text r) (\<lambda>a. ret (a \<noteq> None)))
      (\<lambda>b w. \<not> b \<and> held_by key h (view w)) (\<lambda>w. held_by key h (view w))" for r
    by (auto simp: io_ok_def bind_def as_text_def ret_def)
qed simp_all

lemma acquire_holds:
  assumes "redis_conforms sc (=) (lk_pool lk) view"
  shows "kio_ok view (\<lambda>_. True) (try_acquire lk key ttl)
    (\<lambda>b ks. b \<longrightarrow> held_by key (lk_holder_id lk) ks) (\<lambda>_. True)"
  unfolding try_acquire_def
proof (rule io_ok_bind [OF call_ok [OF assms,
      where Q = "\<lambda>r ks. (r = ROk \<and> held_by key (lk_holder_id lk) ks) \<or> r = RNil"]])
  show "((r = ROk \<and> held_by key (lk_holder_id lk) ks') \<or> r = RNil) \<and> True"
    if "call (SET_NX_EX key (lk_holder_id lk) ttl) ks = (Inr r, ks')" for ks r ks'
    using that by (auto simp: held_by_def string_at_def split: if_splits)
  show "io_ok (\<lambda>w. (r = ROk \<and> held_by key (lk_holder_id lk) (view w)) \<or> r = RNil)
      (bind (as_text r) (\<lambda>a. ret (a \<noteq> None)))
      (\<lambda>b w. b \<longrightarrow> held_by key (lk_holder_id lk) (view w)) (\<lambda>w. True)" for r
    by (auto simp: io_ok_def bind_def as_text_def ret_def)
qed simp_all

lemma renew_held:
  assumes "redis_conforms sc (=) (lk_pool lk) view" and "0 < ttl"
  shows "kio_ok view (held_by key h) (renew lk key ttl)
    (\<lambda>b ks. b = (lk_holder_id lk = h) \<and> held_by key h ks) (held_by key h)"
  unfolding renew_def
proof (rule io_ok_bind [OF call_ok [OF assms(1),
      where Q = "\<lambda>r ks. r = RInt (if lk_holder_id lk = h then 1 else 0) \<and> held_by key h ks"]])
  show "(r = RInt (if lk_holder_id lk = h then 1 else 0) \<and> held_by key h ks') \<and> held_by key h ks'"
    if "held_by key h ks" "call (EVAL (renew_script key (lk_holder_id lk) ttl)) ks = (Inr r, ks')"
    for ks r ks'
    using renew_script_held [OF _ that(1) assms(2)] that(2) by simp
  show "io_ok (\<lambda>w. r = RInt (if lk_holder_id lk = h then 1 else 0) \<and> held_by key h (view w))
      (bind (as_int r) (\<lambda>i. ret (i = 1)))
      (\<lambda>b w. b = (lk_holder_id lk = h) \<and> held_by key h (view w)) (\<lambda>w. held_by key h (view w))" for r
    by (auto simp: io_ok_def bind_def as_int_def ret_def)
qed simp_all

lemma release_held:
  assumes "redis_conforms sc (=) (lk_pool lk) view" and "lk_holder_id lk \<noteq> h"
  shows "kio_ok view (held_by key h) (release lk key) (\<lambda>_. held_by key h) (held_by key h)"
  unfolding release_def
proof (rule io_ok_bind [OF call_ok [OF assms(1), where Q = "\<lambda>_. held_by key h"]])
  show "held_by key h ks' \<and> held_by key h ks'"
    if "held_by key h ks" "call (EVAL (release_script key (lk_holder_id lk))) ks = (Inr r, ks')"
    for ks r ks'
    using release_script_held [OF _ that(1) assms(2)] that(2) by simp
  show "io_ok (\<lambda>w. held_by key h (view w)) (bind (as_int r) (\<lambda>_. ret ()))
      (\<lambda>_ w. held_by key h (view w)) (\<lambda>w. held_by key h (view w))" for r
    by (auto simp: io_ok_def bind_def as_int_def ret_def fail_def split: redis_reply.splits)
qed simp_all

section \<open>Interleavings\<close>

text \<open>
  The history of one lock key: requests of any holders, with the result each got, the expiry of
  the key, and steps of other clients that do not touch it.
\<close>

datatype lock_event =
    Acquired string u64 "redis_error + bool"
  | Renewed string u64 "redis_error + bool"
  | Released string "redis_error + unit"
  | Expired
  | Elsewhere

inductive lock_step :: "'w redis \<Rightarrow> ('w \<Rightarrow> keyspace) \<Rightarrow> string \<Rightarrow> 'w \<Rightarrow> lock_event \<Rightarrow> 'w \<Rightarrow> bool"
  for exec :: "'w redis" and view :: "'w \<Rightarrow> keyspace" and key :: string where
  acquire: "try_acquire \<lparr>lk_pool = exec, lk_holder_id = h\<rparr> key ttl w = Some (res, w')
    \<Longrightarrow> lock_step exec view key w (Acquired h ttl res) w'"
| renew: "renew \<lparr>lk_pool = exec, lk_holder_id = h\<rparr> key ttl w = Some (res, w') \<Longrightarrow> 0 < ttl
    \<Longrightarrow> lock_step exec view key w (Renewed h ttl res) w'"
| release: "release \<lparr>lk_pool = exec, lk_holder_id = h\<rparr> key w = Some (res, w')
    \<Longrightarrow> lock_step exec view key w (Released h res) w'"
| expire: "view w' = (view w)(key := None) \<Longrightarrow> lock_step exec view key w Expired w'"
| elsewhere: "view w' key = view w key \<Longrightarrow> lock_step exec view key w Elsewhere w'"

inductive lock_run :: "'w redis \<Rightarrow> ('w \<Rightarrow> keyspace) \<Rightarrow> string \<Rightarrow> 'w \<Rightarrow> lock_event list \<Rightarrow> 'w \<Rightarrow> bool"
  for exec :: "'w redis" and view :: "'w \<Rightarrow> keyspace" and key :: string where
  start: "lock_run exec view key w [] w"
| step: "lock_step exec view key w ev w1 \<Longrightarrow> lock_run exec view key w1 evs w'
    \<Longrightarrow> lock_run exec view key w (ev # evs) w'"

inductive_cases lock_run_ConsE: "lock_run exec view key w (ev # evs) w'"
inductive_cases acquired_stepE: "lock_step exec view key w (Acquired h ttl res) w'"

text \<open>The events that end the ownership of \<open>h\<close>, and those that contradict it.\<close>

fun ends_ownership :: "string \<Rightarrow> lock_event \<Rightarrow> bool" where
  "ends_ownership h (Released h' _) \<longleftrightarrow> h' = h"
| "ends_ownership h Expired \<longleftrightarrow> True"
| "ends_ownership h _ \<longleftrightarrow> False"

fun contradicts :: "string \<Rightarrow> lock_event \<Rightarrow> bool" where
  "contradicts h (Acquired _ _ res) \<longleftrightarrow> res = Inr True"
| "contradicts h (Renewed h' _ res) \<longleftrightarrow> res = Inr (h' \<noteq> h)"
| "contradicts h _ \<longleftrightarrow> False"

lemma lock_step_held:
  assumes "lock_step exec view key w ev w'" and "redis_conforms sc (=) exec view"
    and "held_by key h (view w)" and "\<not> ends_ownership h ev"
  shows "held_by key h (view w') \<and> \<not> contradicts h ev"
  using assms(1)
proof cases
  case (acquire h' ttl res)
  note ok = try_acquire_held [of sc "\<lparr>lk_pool = exec, lk_holder_id = h'\<rparr>", simplified, OF assms(2)]
  show ?thesis
    using io_ok_value [OF ok assms(3)] io_ok_error [OF ok assms(3)] acquire by (cases res) auto
next
  case (renew h' ttl res)
  note ok = renew_held [of sc "\<lparr>lk_pool = exec, lk_holder_id = h'\<rparr>", simplified, OF assms(2) renew(3)]
  show ?thesis
    using io_ok_value [OF ok assms(3)] io_ok_error [OF ok assms(3)] renew by (cases res) auto
next
  case (release h' res)
  then have "h' \<noteq> h" using assms(4) by simp
  then have ok: "kio_ok view (held_by key h) (release \<lparr>lk_pool = exec, lk_holder_id = h'\<rparr> key)
      (\<lambda>_. held_by key h) (held_by key h)"
    using release_held [of sc "\<lparr>lk_pool = exec, lk_holder_id = h'\<rparr>"] assms(2) by simp
  show ?thesis
    using io_ok_value [OF ok assms(3)] io_ok_error [OF ok assms(3)] release by (cases res) auto
next
  case expire
  then show ?thesis using assms(4) by simp
next
  case elsewhere
  then show ?thesis using assms(3) held_by_cong [of "view w'" key "view w" h] by simp
qed

lemma lock_run_held:
  assumes "lock_run exec view key w evs w'" and "redis_conforms sc (=) exec view"
    and "held_by key h (view w)" and "list_all (\<lambda>ev. \<not> ends_ownership h ev) evs"
  shows "held_by key h (view w') \<and> list_all (\<lambda>ev. \<not> contradicts h ev) evs"
  using assms
proof induction
  case (step w ev w1 evs w')
  then show ?case using lock_step_held [of exec view key w ev w1 sc h] by simp
qed simp

text \<open>
  C33: the work lock is exclusive. After a holder acquired it, and until the key expires or this
  holder asks for its release, in every interleaving of requests of any holders, with failed
  requests that may or may not have been run: the lock stays with the holder, nobody acquires
  it, every renewal that the holder gets an answer to succeeds, and none of another holder does.
\<close>

theorem lock_exclusive:
  assumes "redis_conforms sc (=) exec view"
    and "lock_run exec view key w (Acquired h ttl (Inr True) # evs) w'"
    and "list_all (\<lambda>ev. \<not> ends_ownership h ev) evs"
  shows "held_by key h (view w') \<and> list_all (\<lambda>ev. \<not> contradicts h ev) evs"
proof -
  obtain w1 where w1: "lock_step exec view key w (Acquired h ttl (Inr True)) w1"
    and run: "lock_run exec view key w1 evs w'"
    using assms(2) by (rule lock_run_ConsE)
  have "held_by key h (view w1)"
    using w1 io_ok_value [OF acquire_holds [of sc "\<lparr>lk_pool = exec, lk_holder_id = h\<rparr>"]] assms(1)
    by (auto elim: acquired_stepE)
  then show ?thesis using lock_run_held [OF run assms(1) _ assms(3)] by blast
qed

end
