(* ===== verification/LocalRedis.thy ===== *)
theory LocalRedis
  imports WorkLock "HOL-Library.Char_ord" "HOL-Library.List_Lexorder" "HOL-Library.Product_Lexorder"
begin

text \<open>
  A concrete service that conforms to \<open>redis_conforms\<close>: one process that holds the keyspace and
  runs the commands of a pipeline in order. It shows that the hypothesis can hold and runs the
  components on concrete inputs.
\<close>

section \<open>The service\<close>

text \<open>Patterns with \<open>*\<close>, \<open>?\<close> and escaped characters.\<close>

fun glob :: "string \<Rightarrow> string \<Rightarrow> bool" where
  "glob [] s \<longleftrightarrow> s = []"
| "glob (p # ps) s \<longleftrightarrow>
     (if p = CHR ''*'' then glob ps s \<or> (case s of [] \<Rightarrow> False | _ # cs \<Rightarrow> glob (p # ps) cs)
      else if p = CHR 0x5C then
        (case ps of
           [] \<Rightarrow> False
         | q # qs \<Rightarrow> (case s of [] \<Rightarrow> False | c # cs \<Rightarrow> c = q \<and> glob qs cs))
      else (case s of [] \<Rightarrow> False | c # cs \<Rightarrow> (c = p \<or> p = CHR ''?'') \<and> glob ps cs))"

text \<open>An iteration gives everything in one page.\<close>

definition local_scans :: scans where
  "local_scans = \<lparr>sc_rest = (\<lambda>_ _. {}), sc_left = (\<lambda>_ _. 0), sc_key_rest = (\<lambda>_. {}),
     sc_key_left = (\<lambda>_. 0), sc_glob = glob\<rparr>"

definition page_of :: "string set \<Rightarrow> keyspace \<Rightarrow> (redis_error + redis_reply) \<times> keyspace" where
  "page_of xs ks = (if finite xs then (Inr (RPage 0 (sorted_list_of_set xs)), ks) else (Inl ''OOM'', ks))"

definition local_step :: "redis_cmd \<Rightarrow> keyspace \<Rightarrow> (redis_error + redis_reply) \<times> keyspace" where
  "local_step c ks =
     (case c of
        SSCAN k _ _ \<Rightarrow> (case set_at ks k of None \<Rightarrow> (Inl wrong_type, ks) | Some s \<Rightarrow> page_of s ks)
      | SCAN _ p _ \<Rightarrow> page_of {k \<in> dom ks. glob p k} ks
      | ZPOPMIN k \<Rightarrow>
          (case zset_at ks k of
             None \<Rightarrow> (Inl wrong_type, ks)
           | Some z \<Rightarrow>
               if infinite (dom z) then (Inl ''OOM'', ks)
               else (case sorted_list_of_set ((\<lambda>m. (the (z m), m)) ` dom z) of
                   [] \<Rightarrow> (Inr RNil, ks)
                 | (score, m) # _ \<Rightarrow> (Inr (RPopped (m, score)), put_zset k (z(m := None)) ks)))
      | _ \<Rightarrow> call c ks)"

fun local_run :: "redis_cmd list \<Rightarrow> keyspace \<Rightarrow> (redis_error + redis_reply list) \<times> keyspace" where
  "local_run [] ks = (Inr [], ks)"
| "local_run (c # cs) ks =
     (case local_step c ks of
        (Inl e, _) \<Rightarrow> (Inl e, ks)
      | (Inr r, ks1) \<Rightarrow>
          (case local_run cs ks1 of
             (Inl e, ks2) \<Rightarrow> (Inl e, ks2)
           | (Inr rs, ks2) \<Rightarrow> (Inr (r # rs), ks2)))"

text \<open>The world is the keyspace with a part that the service does not touch.\<close>

definition local_exec :: "(keyspace \<times> 'x) redis" where
  "local_exec atomic cs w =
     (case local_run cs (fst w) of
        (Inl e, ks) \<Rightarrow> (Inl e, (if atomic then fst w else ks, snd w))
      | (Inr rs, ks) \<Rightarrow> (Inr rs, (ks, snd w)))"

section \<open>It conforms\<close>

lemma page_of_ok:
  "page_of xs ks = (Inr r, ks') \<Longrightarrow>
     ks' = ks \<and> (\<exists>page. r = RPage 0 page \<and> page_ok local_scans xs cur 0 page \<and> key_page_ok local_scans xs cur 0 page)"
  by (auto simp: page_of_def page_ok_def key_page_ok_def ahead_def local_scans_def split: if_splits)

lemma pop_least:
  assumes "finite (dom z)" and "sorted_list_of_set ((\<lambda>m. (the (z m), m)) ` dom z) = (score, m) # rest"
  shows "z m = Some score \<and> (\<forall>m' score'. z m' = Some score' \<longrightarrow> score \<le> score')"
proof (intro conjI allI impI)
  let ?A = "(\<lambda>m. (the (z m), m)) ` dom z"
  have "finite ?A" using assms(1) by (rule finite_imageI)
  from set_sorted_list_of_set [OF this] have set: "set ((score, m) # rest) = ?A"
    unfolding assms(2) .
  have sorted: "sorted ((score, m) # rest)"
    using sorted_sorted_list_of_set [of ?A] unfolding assms(2) .
  have "(score, m) \<in> ?A" unfolding set [symmetric] by simp
  then show "z m = Some score" by auto
  fix m' score' assume "z m' = Some score'"
  then have "(score', m') \<in> ?A" by force
  then have "(score', m') = (score, m) \<or> (score', m') \<in> set rest" unfolding set [symmetric] by simp
  then have "(score, m) \<le> (score', m')" using sorted by auto
  then show "score \<le> score'" by (auto simp: less_eq_prod_def)
qed

lemma local_step_call: "determined c \<Longrightarrow> local_step c ks = call c ks"
  by (cases c) (simp_all add: local_step_def)

lemma local_step_ok:
  assumes "local_step c ks = (Inr r, ks')"
  shows "step_ok local_scans c ks r ks'"
proof (cases "determined c")
  case True
  then show ?thesis using assms by (simp add: local_step_call step_ok_determined)
next
  case False
  then consider (sscan) k cur n where "c = SSCAN k cur n" | (scan) cur p n where "c = SCAN cur p n"
    | (pop) k where "c = ZPOPMIN k"
    by (cases c) auto
  then show ?thesis
  proof cases
    case sscan
    then obtain s where "set_at ks k = Some s" "page_of s ks = (Inr r, ks')"
      using assms by (auto simp: local_step_def split: option.splits)
    then show ?thesis using page_of_ok [of s ks r ks' cur] sscan by (auto simp: step_ok_def)
  next
    case scan
    then have p: "page_of {k \<in> dom ks. glob p k} ks = (Inr r, ks')" using assms by (simp add: local_step_def)
    then show ?thesis using page_of_ok [OF p, of cur] scan by (auto simp: step_ok_def local_scans_def)
  next
    case pop
    then obtain z where z: "zset_at ks k = Some z" "finite (dom z)"
      using assms by (auto simp: local_step_def split: option.splits if_splits)
    let ?xs = "sorted_list_of_set ((\<lambda>m. (the (z m), m)) ` dom z)"
    show ?thesis
    proof (cases ?xs)
      case Nil
      then have "dom z = {}" using z(2) by simp
      then have "z = (\<lambda>_. None)" by simp
      then show ?thesis using Nil assms pop z by (simp add: local_step_def step_ok_def)
    next
      case (Cons x rest)
      obtain score m where x: "x = (score, m)" by force
      have "z m = Some score \<and> (\<forall>m' score'. z m' = Some score' \<longrightarrow> score \<le> score')"
        using pop_least z(2) Cons x by blast
      then show ?thesis using Cons x assms pop z by (auto simp: local_step_def step_ok_def)
    qed
  qed
qed

lemma partially_refl: "partially sc (=) cs ks ks"
  by (induction cs) auto

lemma local_run_ok:
  "case local_run cs ks of
     (Inr rs, ks') \<Rightarrow> ran local_scans (=) cs ks rs ks'
   | (Inl _, ks') \<Rightarrow> partially local_scans (=) cs ks ks'"
proof (induction cs arbitrary: ks)
  case (Cons c cs)
  show ?case
  proof (cases "local_step c ks")
    case (Pair res ks1)
    show ?thesis
    proof (cases res)
      case (Inr r)
      then have "step_ok local_scans c ks r ks1" using Pair local_step_ok by simp
      then show ?thesis using Cons.IH [of ks1] Pair Inr by (auto split: prod.splits sum.splits)
    qed (simp add: Pair partially_refl)
  qed
qed simp

lemma local_conforms: "redis_conforms local_scans (=) local_exec fst"
  unfolding redis_conforms_def
proof (intro allI)
  fix atomic cs and w :: "keyspace \<times> 'x"
  show "case local_exec atomic cs w of
      (res, w') \<Rightarrow> conforms_result local_scans (=) atomic cs (fst w) res (fst w')"
    using local_run_ok [of cs "fst w"]
    by (auto simp: local_exec_def conforms_result_def split: prod.splits sum.splits)
qed

text \<open>Without other clients it conforms to every reflexive interference.\<close>

lemma ran_mono: "ran sc (=) cs ks rs ks' \<Longrightarrow> (\<And>ks. rely ks ks) \<Longrightarrow> ran sc rely cs ks rs ks'"
  by (induction cs arbitrary: ks rs) (simp, fastforce)

lemma partially_mono: "partially sc (=) cs ks ks' \<Longrightarrow> (\<And>ks. rely ks ks) \<Longrightarrow> partially sc rely cs ks ks'"
  by (induction cs arbitrary: ks) (simp, fastforce)

lemma conforms_alone:
  assumes "redis_conforms sc (=) exec view" and "\<And>ks. rely ks ks"
  shows "redis_conforms sc rely exec view"
  unfolding redis_conforms_def
proof (intro allI)
  fix atomic cs w
  obtain res w' where x: "exec atomic cs w = (res, w')" by force
  have "conforms_result sc rely atomic cs (view w) res (view w')"
    using conforms_exec [OF assms(1) x] assms(2)
    by (auto simp: conforms_result_def ran_mono [OF _ assms(2)] partially_mono [OF _ assms(2)] split: sum.splits if_splits)
  then show "case exec atomic cs w of (res, w') \<Rightarrow> conforms_result sc rely atomic cs (view w) res (view w')"
    by (simp add: x)
qed

section \<open>Evaluation\<close>

lemmas io_eval = bind_def seq_def ret_def fail_def map_err_def lift_io_def when_io_def

lemma local_command:
  "command local_exec c w =
     Some (case local_step c (fst w) of
        (Inl e, _) \<Rightarrow> (Inl e, w) | (Inr r, ks) \<Rightarrow> (Inr r, (ks, snd w)))"
  by (cases w) (auto simp: command_def pipe_def local_exec_def io_eval split: prod.splits sum.splits)

theorem lock_exclusive_witness:
  "held_by ''k'' ''a'' [''k'' \<mapsto> \<lparr>re_value = VString ''a'', re_ttl = Some 60\<rparr>]
   \<and> list_all (\<lambda>ev. \<not> contradicts ''a'' ev) [Acquired ''b'' 60 (Inr False)]"
proof -
  let ?ks = "[''k'' \<mapsto> \<lparr>re_value = VString ''a'', re_ttl = Some 60\<rparr>]"
  have "lock_step local_exec fst ''k'' (\<lambda>_. None, ()) (Acquired ''a'' 60 (Inr True)) (?ks, ())"
    by (rule lock_step.acquire) (simp add: try_acquire_def local_command local_step_call as_text_def io_eval)
  moreover have "lock_step local_exec fst ''k'' (?ks, ()) (Acquired ''b'' 60 (Inr False)) (?ks, ())"
    by (rule lock_step.acquire) (simp add: try_acquire_def local_command local_step_call as_text_def io_eval)
  ultimately have "lock_run local_exec fst ''k'' (\<lambda>_. None, ())
      (Acquired ''a'' 60 (Inr True) # [Acquired ''b'' 60 (Inr False)]) (?ks, ())"
    by (blast intro: lock_run.intros)
  from lock_exclusive [OF local_conforms this] show ?thesis by simp
qed

end
