(* ===== verification/WorkerCore.thy ===== *)
theory WorkerCore
  imports FileDownload SyncPlanning LocalRedis
begin

text \<open>
  The core of the id-list worker: \<open>idlist_membership/worker/core.rs\<close> (configuration, tasks,
  the worker with its collaborators), the claim renewal of \<open>worker/run.rs\<close> and the dictionary
  client of \<open>schema.rs\<close> over Redis. The theory also has the view of the keyspace that belongs to
  one list, on which the worker's correctness is stated, and what other clients must leave alone.
\<close>

section \<open>Configuration\<close>

text \<open>A variable of the environment, as \<open>std::env::var\<close> gives it.\<close>

datatype env_var = EnvValue string | NotPresent | NotUnicode

record IdListWorkerConfig =
  wc_enable_reverse_index :: bool
  wc_poll_interval_ms :: u64
  wc_lock_ttl_s :: u64
  wc_pipeline_batch_size :: nat
  wc_scan_count :: nat
  wc_diff_partition_max_members :: u64
  wc_old_version_ttl_s :: u64

definition pending_version_ttl_s :: u64 where
  "pending_version_ttl_s = 24 * 60 * 60"

definition lock_renewal_scan_pages :: nat where
  "lock_renewal_scan_pages = 512"

definition worker_config_default :: IdListWorkerConfig where
  "worker_config_default =
     \<lparr>wc_enable_reverse_index = True, wc_poll_interval_ms = 2000, wc_lock_ttl_s = 60,
      wc_pipeline_batch_size = 5000, wc_scan_count = 1000, wc_diff_partition_max_members = 2000000,
      wc_old_version_ttl_s = 24 * 60 * 60\<rparr>"

definition env_u64 :: "(string \<Rightarrow> env_var) \<Rightarrow> string \<Rightarrow> u64 \<Rightarrow> string + u64" where
  "env_u64 env name dflt =
     (case env name of
        EnvValue v \<Rightarrow>
          (case parse_u64 v of
             Some n \<Rightarrow> Inr n
           | None \<Rightarrow> Inl (name @ '' must be a non-negative integer, got '' @ [CHR 0x27] @ v @ [CHR 0x27]))
      | NotPresent \<Rightarrow> Inr dflt
      | NotUnicode \<Rightarrow> Inl (''failed reading '' @ name))"

text \<open>On a 64-bit platform every \<open>u64\<close> is a \<open>usize\<close>.\<close>

definition env_usize :: "(string \<Rightarrow> env_var) \<Rightarrow> string \<Rightarrow> nat \<Rightarrow> string + nat" where
  "env_usize env name dflt = map_sum (\<lambda>e. e) unat (env_u64 env name (of_nat dflt))"

definition reverse_index_enabled_from_env :: "(string \<Rightarrow> env_var) \<Rightarrow> string + bool" where
  "reverse_index_enabled_from_env env =
     (case env ''IDLIST_ENABLE_REVERSE_INDEX'' of
        EnvValue v \<Rightarrow>
          (case parse_reverse_index_enabled (Some v) of
             Some b \<Rightarrow> Inr b
           | None \<Rightarrow> Inl ''IDLIST_ENABLE_REVERSE_INDEX must be true or false'')
      | NotPresent \<Rightarrow> Inr True
      | NotUnicode \<Rightarrow> Inl ''failed reading IDLIST_ENABLE_REVERSE_INDEX'')"

definition then_sum :: "'e + 'a \<Rightarrow> ('a \<Rightarrow> 'e + 'b) \<Rightarrow> 'e + 'b" where
  "then_sum x f = (case x of Inl e \<Rightarrow> Inl e | Inr a \<Rightarrow> f a)"

definition worker_config_ok :: "IdListWorkerConfig \<Rightarrow> bool" where
  "worker_config_ok c \<longleftrightarrow> wc_poll_interval_ms c \<noteq> 0 \<and> 3 \<le> wc_lock_ttl_s c
     \<and> wc_pipeline_batch_size c \<noteq> 0 \<and> wc_scan_count c \<noteq> 0 \<and> wc_diff_partition_max_members c \<noteq> 0"

definition worker_config_from_env :: "(string \<Rightarrow> env_var) \<Rightarrow> string + IdListWorkerConfig" where
  "worker_config_from_env env =
     (let d = worker_config_default in
      then_sum (reverse_index_enabled_from_env env) (\<lambda>rev.
      then_sum (env_u64 env ''IDLIST_QUEUE_POLL_INTERVAL_MS'' (wc_poll_interval_ms d)) (\<lambda>poll.
      then_sum (env_u64 env ''IDLIST_LOCK_TTL_IN_S'' (wc_lock_ttl_s d)) (\<lambda>ttl.
      then_sum (env_usize env ''IDLIST_PIPELINE_BATCH_SIZE'' (wc_pipeline_batch_size d)) (\<lambda>batch.
      then_sum (env_usize env ''IDLIST_SCAN_COUNT'' (wc_scan_count d)) (\<lambda>scan.
      then_sum (env_u64 env ''IDLIST_DIFF_PARTITION_MAX_MEMBERS'' (wc_diff_partition_max_members d)) (\<lambda>part.
      then_sum (env_u64 env ''IDLIST_OLD_VERSION_TTL_IN_S'' (wc_old_version_ttl_s d)) (\<lambda>old.
      let c = \<lparr>wc_enable_reverse_index = rev, wc_poll_interval_ms = poll, wc_lock_ttl_s = ttl,
               wc_pipeline_batch_size = batch, wc_scan_count = scan,
               wc_diff_partition_max_members = part, wc_old_version_ttl_s = old\<rparr>
      in if worker_config_ok c then Inr c
         else Inl ''IDLIST worker sizes/intervals must be positive and lock TTL must be >= 3s''))))))))"

section \<open>Tasks\<close>

datatype TaskOp = TaskOp_Load | TaskOp_Remove

datatype WorkerAction = WorkerAction_Delta | WorkerAction_FullReload | WorkerAction_Remove

datatype WorkerRunOutcome = Idle | Dropped | ClaimConflict | Completed WorkerAction

record TaskMetadata =
  tm_op :: TaskOp
  tm_file_id :: string
  tm_creation_time :: u64
  tm_url :: string
  tm_size :: u64

definition parse_task_op :: "string option \<Rightarrow> WorkerError + TaskOp" where
  "parse_task_op v =
     (case v of
        Some op \<Rightarrow>
          if op = ''load'' then Inr TaskOp_Load
          else if op = ''remove'' then Inr TaskOp_Remove
          else Inl (InvalidTask (''unsupported task op '' @ [CHR 0x27] @ op @ [CHR 0x27]))
      | None \<Rightarrow> Inl (InvalidTask ''task op is missing''))"

definition parse_task_number :: "redis_hash \<Rightarrow> string \<Rightarrow> WorkerError + u64" where
  "parse_task_number flds field =
     (case flds field of
        None \<Rightarrow> Inl (InvalidTask (field @ '' is missing''))
      | Some v \<Rightarrow>
          (case parse_u64 v of
             Some n \<Rightarrow> Inr n
           | None \<Rightarrow> Inl (InvalidTask (field @ '' is not an integer''))))"

definition task_from_hash :: "redis_hash \<Rightarrow> WorkerError + TaskMetadata" where
  "task_from_hash flds =
     then_sum (parse_task_op (flds ''op'')) (\<lambda>op.
       if op = TaskOp_Remove then
         Inr \<lparr>tm_op = op, tm_file_id = unwrap_or [] (flds ''file_id''),
              tm_creation_time = unwrap_or 0 (Option.bind (flds ''creation_time'') parse_u64),
              tm_url = unwrap_or [] (flds ''url''),
              tm_size = unwrap_or 0 (Option.bind (flds ''size'') parse_u64)\<rparr>
       else
         then_sum (parse_task_number flds ''creation_time'') (\<lambda>ct.
         then_sum (case flds ''url'' of
                     None \<Rightarrow> Inl (InvalidTask ''url is missing'')
                   | Some u \<Rightarrow> if u = [] then Inl (InvalidTask ''url is missing'') else Inr u) (\<lambda>url.
         then_sum (parse_task_number flds ''size'') (\<lambda>sz.
         Inr \<lparr>tm_op = op, tm_file_id = unwrap_or [] (flds ''file_id''), tm_creation_time = ct,
              tm_url = url, tm_size = sz\<rparr>))))"

definition as_idlist_metadata :: "TaskMetadata \<Rightarrow> IdListMetadata" where
  "as_idlist_metadata t =
     \<lparr>md_file_id = tm_file_id t, md_creation_time = tm_creation_time t, md_url = tm_url t,
      md_size = tm_size t\<rparr>"

definition task_version_tag :: "TaskMetadata \<Rightarrow> string" where
  "task_version_tag t = version_tag (as_idlist_metadata t)"

section \<open>The worker and its claim\<close>

text \<open>
  The worker with its collaborators. The world \<open>'w\<close> has what Redis, the origin and the renewal
  task keep.
\<close>

record 'w IdListSyncWorker =
  wk_key_prefix :: string
  wk_claim :: "'w RedisWorkLock"
  wk_pool :: "'w redis"
  wk_http :: "'w stream_sender"
  wk_parse_url :: download_url_parser
  wk_sha256 :: "string \<Rightarrow> string"
  wk_config :: IdListWorkerConfig

text \<open>
  The claim of a running task. The background task that renews the lock runs beside the worker and
  sets the flag \<open>lost\<close> when it fails: reading the flag is a step of the world.
\<close>

record 'w ClaimRenewal =
  cr_lock :: "'w RedisWorkLock"
  cr_key :: string
  cr_ttl_s :: u64
  cr_lost :: "'w \<Rightarrow> bool \<times> 'w"
  cr_set_lost :: "'w \<Rightarrow> 'w"

definition redis_op :: "('w, redis_error, 'a) io \<Rightarrow> ('w, WorkerError, 'a) io" where
  "redis_op m = map_err Redis m"

definition ensure_held :: "'w ClaimRenewal \<Rightarrow> ('w, WorkerError, unit) io" where
  "ensure_held cr = lift_io (\<lambda>w. case cr_lost cr w of (lost, w') \<Rightarrow> (if lost then Inl LockLost else Inr (), w'))"

definition set_lost :: "'w ClaimRenewal \<Rightarrow> ('w, WorkerError, unit) io" where
  "set_lost cr = lift_io (\<lambda>w. (Inr (), cr_set_lost cr w))"

definition renew_now :: "'w ClaimRenewal \<Rightarrow> ('w, WorkerError, unit) io" where
  "renew_now cr =
     seq (ensure_held cr)
       (bind (redis_op (renew (cr_lock cr) (cr_key cr) (cr_ttl_s cr))) (\<lambda>renewed.
          if renewed then ret () else seq (set_lost cr) (fail LockLost)))"

section \<open>The dictionary over Redis\<close>

definition alloc_token_eval ::
  "string \<Rightarrow> string \<Rightarrow> keyspace \<Rightarrow> (redis_error + redis_reply) \<times> keyspace" where
  "alloc_token_eval key list ks =
     (case hash_at ks key of
        None \<Rightarrow> (Inl wrong_type, ks)
      | Some h \<Rightarrow>
          (case alloc_token_script (name_field list) list ''__counter'' h of
             (Inl _, h') \<Rightarrow> (Inl ''ERR script'', put_hash key h' ks)
           | (Inr t, h') \<Rightarrow> (Inr (RBulk t), put_hash key h' ks)))"

definition token_of_text :: "string \<Rightarrow> ('w, redis_error, u64) io" where
  "token_of_text s =
     (case parse_u64 s of Some t \<Rightarrow> ret t | None \<Rightarrow> fail ''dictionary token was not an integer'')"

definition dict_get_or_allocate_token ::
  "'w IdListSyncWorker \<Rightarrow> string \<Rightarrow> string \<Rightarrow> ('w, redis_error, u64) io" where
  "dict_get_or_allocate_token wk skh list =
     bind (command (wk_pool wk) (EVAL (alloc_token_eval (dict_key (wk_key_prefix wk) skh) list))) (\<lambda>r.
       (case r of RBulk s \<Rightarrow> token_of_text s | _ \<Rightarrow> fail reply_error))"

definition dict_get_token :: "'w IdListSyncWorker \<Rightarrow> string \<Rightarrow> string \<Rightarrow> ('w, redis_error, u64 option) io" where
  "dict_get_token wk skh list =
     bind (command (wk_pool wk) (HGET (dict_key (wk_key_prefix wk) skh) (name_field list))) (\<lambda>r.
     bind (as_text r) (\<lambda>v.
       (case v of
          None \<Rightarrow> ret None
        | Some s \<Rightarrow> bind (token_of_text s) (\<lambda>t. ret (Some t)))))"

section \<open>Small requests\<close>

definition key_exists :: "'w IdListSyncWorker \<Rightarrow> string \<Rightarrow> ('w, WorkerError, bool) io" where
  "key_exists wk key = redis_op (bind (command (wk_pool wk) (EXISTS key)) as_bool)"

definition scard :: "'w IdListSyncWorker \<Rightarrow> string \<Rightarrow> ('w, WorkerError, u64) io" where
  "scard wk key = redis_op (bind (command (wk_pool wk) (SCARD key)) as_u64)"

definition hset :: "'w IdListSyncWorker \<Rightarrow> string \<Rightarrow> (string \<times> string) list \<Rightarrow> ('w, WorkerError, unit) io" where
  "hset wk key fvs = redis_op (seq (command (wk_pool wk) (HSET key fvs)) (ret ()))"

text \<open>
  \<open>expire(key, ttl as i64)\<close>: a time to live that does not fit is negative after the cast, and a
  time to live that is not positive deletes the key, as zero does.
\<close>

definition expire_cmd :: "string \<Rightarrow> u64 \<Rightarrow> redis_cmd" where
  "expire_cmd key ttl = EXPIRE key (if unat ttl < 2 ^ 63 then ttl else 0)"

text \<open>\<open>ensure_current_version_persisted\<close> of \<open>worker/run.rs\<close>.\<close>

definition ensure_current_version_persisted ::
  "'w IdListSyncWorker \<Rightarrow> string \<Rightarrow> string \<Rightarrow> ListSyncState \<Rightarrow> ('w, WorkerError, bool) io" where
  "ensure_current_version_persisted wk skh list st =
     (if ls_version st = [] then ret False
      else
        let key = fwd_key (wk_key_prefix wk) skh list (ls_version st)
        in bind (redis_op (bind (command (wk_pool wk) (TTL key)) as_int)) (\<lambda>ttl.
             if ttl < 0 then ret False
             else redis_op (bind (command (wk_pool wk) (PERSIST key)) as_bool)))"

section \<open>What belongs to one list\<close>

text \<open>
  The part of the keyspace that belongs to a list with token \<open>t\<close>: the hash of its state, its
  forward sets by version with their times to live, in which member sets its token is, and its
  entry in the dictionary.
\<close>

record list_view =
  lv_state :: "redis_hash option"
  lv_fwd :: "string \<Rightarrow> string set option"
  lv_ttl :: "string \<Rightarrow> u64 option"
  lv_rev :: "string \<Rightarrow> bool option"
  lv_name :: "string option option"

record list_id =
  li_prefix :: string
  li_skh :: string
  li_list :: string
  li_token :: u64

definition list_view_of :: "list_id \<Rightarrow> keyspace \<Rightarrow> list_view" where
  "list_view_of li ks =
     \<lparr>lv_state = hash_at ks (state_key (li_prefix li) (li_skh li) (li_list li)),
      lv_fwd = (\<lambda>v. set_at ks (fwd_key (li_prefix li) (li_skh li) (li_list li) v)),
      lv_ttl = (\<lambda>v. ttl_at ks (fwd_key (li_prefix li) (li_skh li) (li_list li) v)),
      lv_rev = (\<lambda>m. map_option (\<lambda>s. show_u64 (li_token li) \<in> s)
                      (set_at ks (member_key (li_prefix li) (li_skh li) m))),
      lv_name = map_option (\<lambda>h. h (name_field (li_list li))) (hash_at ks (dict_key (li_prefix li) (li_skh li)))\<rparr>"

text \<open>
  Other clients (workers on other lists, the producer, readers) leave it as it is: that is what
  the claim on the list is for.
\<close>

definition list_rely :: "list_id \<Rightarrow> interference" where
  "list_rely li ks ks' \<longleftrightarrow> list_view_of li ks' = list_view_of li ks"

lemma stable_list_view: "stable (list_rely li) (\<lambda>ks. P (list_view_of li ks))"
  by (simp add: stable_def list_rely_def)

subsection \<open>Commands on the view\<close>

definition set_rev :: "string \<Rightarrow> bool \<Rightarrow> list_view \<Rightarrow> list_view" where
  "set_rev m b lv = lv\<lparr>lv_rev := (lv_rev lv)(m := map_option (\<lambda>_. b) (lv_rev lv m))\<rparr>"

definition put_member :: "string \<Rightarrow> bool \<Rightarrow> string set \<Rightarrow> string set" where
  "put_member m b s = (if b then insert m s else s - {m})"

definition set_fwd :: "string \<Rightarrow> string set \<Rightarrow> list_view \<Rightarrow> list_view" where
  "set_fwd v s lv =
     lv\<lparr>lv_fwd := (lv_fwd lv)(v \<mapsto> s),
        lv_ttl := (lv_ttl lv)(v := if s = {} then None else lv_ttl lv v)\<rparr>"

definition set_state :: "redis_hash \<Rightarrow> list_view \<Rightarrow> list_view" where
  "set_state h lv = lv\<lparr>lv_state := Some h\<rparr>"

lemma list_view_eqI:
  "lv_state a = lv_state b \<Longrightarrow> lv_fwd a = lv_fwd b \<Longrightarrow> lv_ttl a = lv_ttl b \<Longrightarrow> lv_rev a = lv_rev b
     \<Longrightarrow> lv_name a = lv_name b \<Longrightarrow> a = (b :: list_view)"
  by simp

lemma key_neq:
  assumes "namespace_ok skh"
  shows "member_key pre skh m \<noteq> fwd_key pre skh l v" "member_key pre skh m \<noteq> state_key pre skh l"
    "member_key pre skh m \<noteq> dict_key pre skh" "fwd_key pre skh l v \<noteq> state_key pre skh l"
    "fwd_key pre skh l v \<noteq> dict_key pre skh" "state_key pre skh l \<noteq> dict_key pre skh"
  using object_key_eq [of "Member skh m" "Fwd skh l v" pre] object_key_eq [of "Member skh m" "SyncState skh l" pre]
    object_key_eq [of "Member skh m" "Dict skh" pre] object_key_eq [of "Fwd skh l v" "SyncState skh l" pre]
    object_key_eq [of "Fwd skh l v" "Dict skh" pre] object_key_eq [of "SyncState skh l" "Dict skh" pre] assms
  by simp_all

lemma fwd_key_eq: "namespace_ok skh \<Longrightarrow> fwd_key pre skh l v = fwd_key pre skh l v' \<longleftrightarrow> v = v'"
  using object_key_eq [of "Fwd skh l v" "Fwd skh l v'" pre] by simp

lemma member_key_eq: "namespace_ok skh \<Longrightarrow> member_key pre skh m = member_key pre skh m' \<longleftrightarrow> m = m'"
  by (simp add: member_key_inject)

lemmas list_keys = key_neq key_neq [symmetric] fwd_key_eq member_key_eq

definition member_cmd :: "bool \<Rightarrow> string \<Rightarrow> string \<Rightarrow> redis_cmd" where
  "member_cmd add key m = (if add then SADD key m else SREM key m)"

lemma call_member_cmd:
  "call (member_cmd b key m) ks = (Inr r, ks') \<longleftrightarrow>
     (\<exists>s. set_at ks key = Some s \<and> ks' = put_set key (put_member m b s) ks
        \<and> r = bool_reply (if b then m \<notin> s else m \<in> s))"
  by (auto simp: member_cmd_def on_set_def put_member_def split: option.splits)

lemma determined_member_cmd [simp]: "determined (member_cmd b key m)"
  by (simp add: member_cmd_def)

lemma view_rev_cmd:
  assumes "namespace_ok (li_skh li)"
    and "step_ok sc (member_cmd b (member_key (li_prefix li) (li_skh li) m) (show_u64 (li_token li))) ks r ks'"
  shows "list_view_of li ks' = set_rev m b (list_view_of li ks)"
proof -
  obtain s where s: "set_at ks (member_key (li_prefix li) (li_skh li) m) = Some s"
      "ks' = put_set (member_key (li_prefix li) (li_skh li) m) (put_member (show_u64 (li_token li)) b s) ks"
    using assms(2) by (auto simp: step_ok_determined call_member_cmd)
  show ?thesis
    unfolding s(2) using assms(1) s(1)
    by (intro list_view_eqI ext)
      (auto simp: list_view_of_def set_rev_def key_simps list_keys put_member_def)
qed

lemma view_fwd_cmd:
  assumes "namespace_ok (li_skh li)"
    and "step_ok sc (member_cmd b (fwd_key (li_prefix li) (li_skh li) (li_list li) v) m) ks r ks'"
  shows "\<exists>s. lv_fwd (list_view_of li ks) v = Some s
    \<and> list_view_of li ks' = set_fwd v (put_member m b s) (list_view_of li ks)"
proof -
  obtain s where s: "set_at ks (fwd_key (li_prefix li) (li_skh li) (li_list li) v) = Some s"
      "ks' = put_set (fwd_key (li_prefix li) (li_skh li) (li_list li) v) (put_member m b s) ks"
    using assms(2) by (auto simp: step_ok_determined call_member_cmd)
  have "list_view_of li ks' = set_fwd v (put_member m b s) (list_view_of li ks)"
    unfolding s(2) using assms(1) s(1)
    by (intro list_view_eqI ext) (auto simp: list_view_of_def set_fwd_def key_simps list_keys)
  then show ?thesis using s(1) by (simp add: list_view_of_def)
qed

definition put_fields :: "(string \<times> string) list \<Rightarrow> redis_hash \<Rightarrow> redis_hash" where
  "put_fields fvs h = foldl (\<lambda>h (f, v). h(f \<mapsto> v)) h fvs"

lemma view_hset_state:
  assumes "namespace_ok (li_skh li)"
    and "step_ok sc (HSET (state_key (li_prefix li) (li_skh li) (li_list li)) fvs) ks r ks'"
  shows "\<exists>h. lv_state (list_view_of li ks) = Some h
    \<and> list_view_of li ks' = set_state (put_fields fvs h) (list_view_of li ks)"
proof -
  obtain h where h: "hash_at ks (state_key (li_prefix li) (li_skh li) (li_list li)) = Some h"
      "ks' = put_hash (state_key (li_prefix li) (li_skh li) (li_list li)) (put_fields fvs h) ks"
    using assms(2) by (auto simp: step_ok_determined on_hash_def put_fields_def split: option.splits)
  have "list_view_of li ks' = set_state (put_fields fvs h) (list_view_of li ks)"
    unfolding h(2) using assms(1) h(1)
    by (intro list_view_eqI ext) (auto simp: list_view_of_def set_state_def key_simps list_keys)
  then show ?thesis using h(1) by (simp add: list_view_of_def)
qed

subsection \<open>Requests on the view\<close>

abbreviation vio_ok ::
  "list_id \<Rightarrow> ('w \<Rightarrow> keyspace) \<Rightarrow> (list_view \<Rightarrow> bool) \<Rightarrow> ('w, 'e, 'a) io \<Rightarrow> ('a \<Rightarrow> list_view \<Rightarrow> bool)
     \<Rightarrow> (list_view \<Rightarrow> bool) \<Rightarrow> bool" where
  "vio_ok li view P m Q E \<equiv>
     io_ok (\<lambda>w. P (list_view_of li (view w))) m (\<lambda>a w. Q a (list_view_of li (view w)))
       (\<lambda>w. E (list_view_of li (view w)))"

text \<open>A pipeline in which each command acts on the view by a function.\<close>

type_synonym view_act = "redis_cmd \<times> (list_view \<Rightarrow> list_view)"

definition acts_ok :: "scans \<Rightarrow> list_id \<Rightarrow> view_act list \<Rightarrow> bool" where
  "acts_ok sc li acts \<longleftrightarrow>
     (\<forall>(c, f) \<in> set acts. \<forall>ks r ks'. step_ok sc c ks r ks' \<longrightarrow>
        list_view_of li ks' = f (list_view_of li ks))"

lemma acts_okD:
  "acts_ok sc li acts \<Longrightarrow> a \<in> set acts \<Longrightarrow> step_ok sc (fst a) ks r ks'
     \<Longrightarrow> list_view_of li ks' = snd a (list_view_of li ks)"
  unfolding acts_ok_def by (cases a) fastforce

lemma pipe_view_ok:
  assumes conf: "redis_conforms sc (list_rely li) exec view" and acts: "acts_ok sc li acts"
    and "\<And>lv. P lv \<Longrightarrow> E lv" and "\<And>a lv. a \<in> set acts \<Longrightarrow> E lv \<Longrightarrow> E (snd a lv)"
  shows "vio_ok li view P (pipe exec atomic (map fst acts)) (\<lambda>_ lv. \<exists>lv0. P lv0 \<and> lv = fold snd acts lv0) E"
proof -
  define I where "I = (\<lambda>i ks. \<exists>lv0. P lv0 \<and> list_view_of li ks = fold snd (take i acts) lv0)"
  have "kio_ok view (\<lambda>ks. P (list_view_of li ks)) (pipe exec atomic (map fst acts))
      (\<lambda>_. I (length (map fst acts))) (\<lambda>ks. E (list_view_of li ks))"
  proof (rule pipe_ok [OF conf])
    show "I 0 ks" if "P (list_view_of li ks)" for ks using that by (auto simp: I_def)
    show "stable (list_rely li) (I i)" for i unfolding I_def by (rule stable_list_view)
    show "I (Suc i) ks'" if "i < length (map fst acts)" "I i ks" "step_ok sc (map fst acts ! i) ks r ks'"
      for i ks r ks'
    proof -
      have "list_view_of li ks' = snd (acts ! i) (list_view_of li ks)"
        using acts_okD [OF acts, of "acts ! i"] that by simp
      then show ?thesis using that by (auto simp: I_def take_Suc_conv_app_nth)
    qed
    show "E (list_view_of li ks')" if "c \<in> set (map fst acts)" "E (list_view_of li ks)" "step_ok sc c ks r ks'"
      for c ks r ks'
      using that acts_okD [OF acts] assms(4) by fastforce
  qed (use assms(3) stable_list_view in auto)
  then show ?thesis by (simp add: I_def)
qed

text \<open>An atomic pipeline takes effect as a whole or not at all.\<close>

lemma pipe_view_atomic:
  assumes conf: "redis_conforms sc (list_rely li) exec view" and acts: "acts_ok sc li acts"
    and "\<And>lv. P lv \<Longrightarrow> E lv" and "\<And>lv. P lv \<Longrightarrow> E (fold snd acts lv)"
  shows "vio_ok li view P (pipe exec True (map fst acts)) (\<lambda>_ lv. \<exists>lv0. P lv0 \<and> lv = fold snd acts lv0) E"
  unfolding pipe_def
proof (rule io_ok_lift)
  fix w assume P: "P (list_view_of li (view w))"
  obtain res w' where x: "exec True (map fst acts) w = (res, w')" by force
  obtain ks0 where ks0: "list_rely li (view w) ks0"
    and res: "case res of
        Inl _ \<Rightarrow> view w' = ks0 \<or> (\<exists>rs. ran sc (=) (map fst acts) ks0 rs (view w'))
      | Inr rs \<Rightarrow> ran sc (=) (map fst acts) ks0 rs (view w')"
    using conforms_exec [OF conf x] by (cases res) (auto simp: conforms_result_def)
  have P0: "P (list_view_of li ks0)" using ks0 P by (simp add: list_rely_def)
  have all: "list_view_of li (view w') = fold snd acts (list_view_of li ks0)"
    if "ran sc (=) (map fst acts) ks0 rs (view w')" for rs
  proof -
    define I where "I = (\<lambda>i ks. list_view_of li ks = fold snd (take i acts) (list_view_of li ks0))"
    have "I (length (map fst acts)) (view w')"
      using that
    proof (rule ran_inv)
      show "I (Suc i) ks'" if "i < length (map fst acts)" "I i ks" "step_ok sc (map fst acts ! i) ks r ks'"
        for i ks r ks'
        using that acts_okD [OF acts, of "acts ! i"] by (simp add: I_def take_Suc_conv_app_nth)
    qed (simp_all add: I_def)
    then show ?thesis by (simp add: I_def)
  qed
  show "case exec True (map fst acts) w of
      (Inl _, w') \<Rightarrow> E (list_view_of li (view w'))
    | (Inr a, w') \<Rightarrow> \<exists>lv0. P lv0 \<and> list_view_of li (view w') = fold snd acts lv0"
    using x res all P0 assms(3,4) by (cases res) auto
qed

text \<open>One determined command, by what it does to the view.\<close>

lemma view_call_ok:
  assumes "redis_conforms sc (list_rely li) exec view" and "determined c"
    and "\<And>ks r ks'. P (list_view_of li ks) \<Longrightarrow> call c ks = (Inr r, ks')
      \<Longrightarrow> Q r (list_view_of li ks') \<and> E (list_view_of li ks')"
    and "\<And>lv. P lv \<Longrightarrow> E lv"
  shows "vio_ok li view P (command exec c) Q E"
  by (rule call_ok [OF assms(1,2)]) (use assms(3,4) stable_list_view in auto)

text \<open>A question that does not change the view.\<close>

lemma redis_op_ok: "io_ok P m Q E \<Longrightarrow> io_ok P (redis_op m) Q E"
  unfolding redis_op_def by (rule io_ok_map_err)

lemma scard_fwd_ok:
  assumes conf: "redis_conforms sc (list_rely li) (wk_pool wk) view" and "\<And>lv. P lv \<Longrightarrow> E lv"
  shows "vio_ok li view P (scard wk (fwd_key (li_prefix li) (li_skh li) (li_list li) v))
    (\<lambda>n lv. P lv \<and> (\<exists>s. lv_fwd lv v = Some s \<and> unat n = card s)) E"
  unfolding scard_def
proof (intro redis_op_ok io_ok_bind)
  show "vio_ok li view P (command (wk_pool wk) (SCARD (fwd_key (li_prefix li) (li_skh li) (li_list li) v)))
      (\<lambda>r lv. P lv \<and> (\<exists>s. lv_fwd lv v = Some s \<and> r = RInt (int (card s)))) E"
    by (rule view_call_ok [OF conf])
      (use assms(2) in \<open>auto simp: on_set_def list_view_of_def split: option.splits\<close>)
  show "vio_ok li view (\<lambda>lv. P lv \<and> (\<exists>s. lv_fwd lv v = Some s \<and> r = RInt (int (card s)))) (as_u64 r)
      (\<lambda>n lv. P lv \<and> (\<exists>s. lv_fwd lv v = Some s \<and> unat n = card s)) E" for r
    by (rule reader_ok)
      (use assms(2) reader_pure(2) in \<open>auto simp: as_u64_def ret_def fail_def unat_of_nat_below split: if_splits\<close>)
qed

lemma hset_state_ok:
  assumes conf: "redis_conforms sc (list_rely li) (wk_pool wk) view" and ns: "namespace_ok (li_skh li)"
    and "\<And>lv. P lv \<Longrightarrow> E lv"
    and "\<And>lv h. P lv \<Longrightarrow> lv_state lv = Some h \<Longrightarrow> E (set_state (put_fields fvs h) lv)"
  shows "vio_ok li view P (hset wk (state_key (li_prefix li) (li_skh li) (li_list li)) fvs)
    (\<lambda>_ lv. \<exists>lv0 h. P lv0 \<and> lv_state lv0 = Some h \<and> lv = set_state (put_fields fvs h) lv0) E"
  unfolding hset_def
proof (intro redis_op_ok io_ok_seq)
  let ?c = "HSET (state_key (li_prefix li) (li_skh li) (li_list li)) fvs"
  show "vio_ok li view P (command (wk_pool wk) ?c)
      (\<lambda>_ lv. \<exists>lv0 h. P lv0 \<and> lv_state lv0 = Some h \<and> lv = set_state (put_fields fvs h) lv0) E"
  proof (rule view_call_ok [OF conf])
    fix ks r ks' assume P: "P (list_view_of li ks)" and "call ?c ks = (Inr r, ks')"
    then have "step_ok sc ?c ks r ks'" by (simp add: step_ok_determined)
    from view_hset_state [OF ns this] show
      "(\<exists>lv0 h. P lv0 \<and> lv_state lv0 = Some h \<and> list_view_of li ks' = set_state (put_fields fvs h) lv0)
        \<and> E (list_view_of li ks')"
      using P assms(4) by auto
  qed (use assms(3) in simp_all)
  show "vio_ok li view (\<lambda>lv. \<exists>lv0 h. P lv0 \<and> lv_state lv0 = Some h \<and> lv = set_state (put_fields fvs h) lv0)
      (ret ()) (\<lambda>_ lv. \<exists>lv0 h. P lv0 \<and> lv_state lv0 = Some h \<and> lv = set_state (put_fields fvs h) lv0) E"
    by (rule io_ok_ret)
qed

text \<open>The renewal task changes the claim only.\<close>

definition claim_frame :: "list_id \<Rightarrow> ('w \<Rightarrow> keyspace) \<Rightarrow> 'w ClaimRenewal \<Rightarrow> bool" where
  "claim_frame li view cr \<longleftrightarrow>
     (\<forall>w. list_rely li (view w) (view (snd (cr_lost cr w)))) \<and> (\<forall>w. list_rely li (view w) (view (cr_set_lost cr w)))"

lemma ensure_held_ok:
  assumes "claim_frame li view cr" and "\<And>lv. P lv \<Longrightarrow> E lv"
  shows "vio_ok li view P (ensure_held cr) (\<lambda>_. P) E"
  unfolding ensure_held_def
proof (rule io_ok_lift)
  fix w assume P: "P (list_view_of li (view w))"
  obtain lost w' where l: "cr_lost cr w = (lost, w')" by force
  then have "list_view_of li (view w') = list_view_of li (view w)"
    using assms(1) by (metis claim_frame_def list_rely_def snd_conv)
  then show "case case cr_lost cr w of (lost, w') \<Rightarrow> (if lost then Inl LockLost else Inr (), w') of
      (Inl _, w') \<Rightarrow> E (list_view_of li (view w')) | (Inr _, w') \<Rightarrow> P (list_view_of li (view w'))"
    using l P assms(2) by simp
qed

text \<open>The claim of the list \<open>li\<close>, renewed through a service that conforms.\<close>

definition claim_ok :: "scans \<Rightarrow> list_id \<Rightarrow> ('w \<Rightarrow> keyspace) \<Rightarrow> 'w ClaimRenewal \<Rightarrow> bool" where
  "claim_ok sc li view cr \<longleftrightarrow>
     claim_frame li view cr \<and> cr_key cr = claim_key (li_prefix li) (li_skh li) (li_list li)
     \<and> redis_conforms sc (list_rely li) (lk_pool (cr_lock cr)) view"

text \<open>The keys that the view reads, and keys of other objects.\<close>

definition owned :: "list_id \<Rightarrow> string \<Rightarrow> bool" where
  "owned li k \<longleftrightarrow>
     k = state_key (li_prefix li) (li_skh li) (li_list li) \<or> k = dict_key (li_prefix li) (li_skh li)
     \<or> (\<exists>v. k = fwd_key (li_prefix li) (li_skh li) (li_list li) v) \<or> (\<exists>m. k = member_key (li_prefix li) (li_skh li) m)"

lemma view_owned:
  assumes "\<And>k. owned li k \<Longrightarrow> ks' k = ks k"
  shows "list_view_of li ks' = list_view_of li ks"
proof -
  have "ks' (state_key (li_prefix li) (li_skh li) (li_list li)) = ks (state_key (li_prefix li) (li_skh li) (li_list li))"
    "ks' (dict_key (li_prefix li) (li_skh li)) = ks (dict_key (li_prefix li) (li_skh li))"
    "ks' (fwd_key (li_prefix li) (li_skh li) (li_list li) v) = ks (fwd_key (li_prefix li) (li_skh li) (li_list li) v)"
    "ks' (member_key (li_prefix li) (li_skh li) m) = ks (member_key (li_prefix li) (li_skh li) m)" for v m
    using assms by (auto simp: owned_def)
  then show ?thesis by (simp add: list_view_of_def hash_at_def set_at_def ttl_at_def)
qed

lemma other_object:
  assumes "namespace_ok (li_skh li)" and "object_ok ob"
    and "\<forall>v. ob \<noteq> Fwd (li_skh li) (li_list li) v" and "\<forall>m. ob \<noteq> Member (li_skh li) m"
    and "ob \<noteq> SyncState (li_skh li) (li_list li)" and "ob \<noteq> Dict (li_skh li)"
  shows "\<not> owned li (object_key (li_prefix li) ob)"
  using assms object_key_eq [OF assms(2), of "Fwd (li_skh li) (li_list li) _" "li_prefix li"]
    object_key_eq [OF assms(2), of "Member (li_skh li) _" "li_prefix li"]
    object_key_eq [OF assms(2), of "SyncState (li_skh li) (li_list li)" "li_prefix li"]
    object_key_eq [OF assms(2), of "Dict (li_skh li)" "li_prefix li"]
  by (auto simp: owned_def)

lemma not_owned:
  assumes "namespace_ok (li_skh li)"
  shows "\<not> owned li (claim_key (li_prefix li) (li_skh li) (li_list li))"
    "\<not> owned li (all_lists_key (li_prefix li) (li_skh li))" "\<not> owned li (ready_key (li_prefix li) (li_skh li))"
    "\<not> owned li (task_meta_key (li_prefix li) (li_skh li) (li_list li))" "\<not> owned li (queue_key (li_prefix li))"
  using other_object [OF assms, of "Claim (li_skh li) (li_list li)"] other_object [OF assms, of "AllLists (li_skh li)"]
    other_object [OF assms, of "Ready (li_skh li)"] other_object [OF assms, of "TaskMeta (li_skh li) (li_list li)"]
    other_object [OF assms, of Queue] assms
  by simp_all

lemma renew_script_frame: "renew_script key h ttl ks = (Inr r, ks') \<Longrightarrow> k \<noteq> key \<Longrightarrow> ks' k = ks k"
  by (auto simp: renew_script_def split: option.splits if_splits)

lemma renew_now_ok:
  assumes claim: "claim_ok sc li view cr" and ns: "namespace_ok (li_skh li)" and PE: "\<And>lv. P lv \<Longrightarrow> E lv"
  shows "vio_ok li view P (renew_now cr) (\<lambda>_. P) E"
  unfolding renew_now_def
proof (intro io_ok_seq io_ok_bind)
  have frame: "claim_frame li view cr" and conf: "redis_conforms sc (list_rely li) (lk_pool (cr_lock cr)) view"
    and key: "cr_key cr = claim_key (li_prefix li) (li_skh li) (li_list li)"
    using claim by (simp_all add: claim_ok_def)
  show "vio_ok li view P (ensure_held cr) (\<lambda>_. P) E" using frame PE by (rule ensure_held_ok)
  show "vio_ok li view P (redis_op (renew (cr_lock cr) (cr_key cr) (cr_ttl_s cr))) (\<lambda>_. P) E"
    unfolding renew_def
  proof (intro redis_op_ok io_ok_bind)
    let ?c = "EVAL (renew_script (cr_key cr) (lk_holder_id (cr_lock cr)) (cr_ttl_s cr))"
    show "vio_ok li view P (command (lk_pool (cr_lock cr)) ?c) (\<lambda>_. P) E"
    proof (rule view_call_ok [OF conf])
      fix ks r ks' assume P: "P (list_view_of li ks)" and "call ?c ks = (Inr r, ks')"
      then have run: "renew_script (cr_key cr) (lk_holder_id (cr_lock cr)) (cr_ttl_s cr) ks = (Inr r, ks')" by simp
      have "list_view_of li ks' = list_view_of li ks"
        by (rule view_owned, rule renew_script_frame [OF run]) (use key not_owned(1) [OF ns] in auto)
      then show "P (list_view_of li ks') \<and> E (list_view_of li ks')" using P PE by simp
    qed (use PE in simp_all)
    show "vio_ok li view P (as_int r) (\<lambda>_. P) E" for r
      by (rule reader_ok) (use PE reader_pure(3) in auto)
    show "vio_ok li view P (ret (i = 1)) (\<lambda>_. P) E" for i :: int by (rule io_ok_ret)
  qed
  have lost: "vio_ok li view P (set_lost cr) (\<lambda>_. P) E"
    unfolding set_lost_def using frame by (auto intro!: io_ok_lift simp: claim_frame_def list_rely_def)
  have "vio_ok li view P (fail LockLost) (\<lambda>_. P) E" using PE by (auto intro: io_ok_fail)
  with lost show "vio_ok li view P (if renewed then ret () else seq (set_lost cr) (fail LockLost)) (\<lambda>_. P) E" for renewed
    by (auto intro: io_ok_ret io_ok_seq)
qed

lemma key_exists_ok:
  assumes conf: "redis_conforms sc (list_rely li) (wk_pool wk) view" and PE: "\<And>lv. P lv \<Longrightarrow> E lv"
  shows "vio_ok li view P (key_exists wk (fwd_key (li_prefix li) (li_skh li) (li_list li) v))
    (\<lambda>b lv. P lv \<and> (\<forall>s. lv_fwd lv v = Some s \<longrightarrow> b = (s \<noteq> {}))) E"
  unfolding key_exists_def
proof (intro redis_op_ok io_ok_bind)
  let ?k = "fwd_key (li_prefix li) (li_skh li) (li_list li) v"
  show "vio_ok li view P (command (wk_pool wk) (EXISTS ?k))
      (\<lambda>r lv. P lv \<and> (\<exists>b. r = bool_reply b \<and> (\<forall>s. lv_fwd lv v = Some s \<longrightarrow> b = (s \<noteq> {})))) E"
  proof (rule view_call_ok [OF conf])
    fix ks r ks' assume P: "P (list_view_of li ks)" and "call (EXISTS ?k) ks = (Inr r, ks')"
    then have "r = bool_reply (ks ?k \<noteq> None)" "ks' = ks" by auto
    moreover have "lv_fwd (list_view_of li ks) v = Some s \<longrightarrow> (ks ?k \<noteq> None) = (s \<noteq> {})" for s
      using exists_set [of ks ?k s] by (simp add: list_view_of_def)
    ultimately show "(P (list_view_of li ks') \<and> (\<exists>b. r = bool_reply b
        \<and> (\<forall>s. lv_fwd (list_view_of li ks') v = Some s \<longrightarrow> b = (s \<noteq> {})))) \<and> E (list_view_of li ks')"
      using P PE by blast
  qed (use PE in simp_all)
  show "vio_ok li view (\<lambda>lv. P lv \<and> (\<exists>b. r = bool_reply b \<and> (\<forall>s. lv_fwd lv v = Some s \<longrightarrow> b = (s \<noteq> {}))))
      (as_bool r) (\<lambda>b lv. P lv \<and> (\<forall>s. lv_fwd lv v = Some s \<longrightarrow> b = (s \<noteq> {}))) E" for r
    by (auto simp: io_ok_def as_bool_def bool_reply_def ret_def)
qed

end
