(* ===== verification/DeltaApply.thy ===== *)
theory DeltaApply
  imports WorkerCore
begin

text \<open>
  Applying an id-list file: \<open>idlist_membership/worker/delta.rs\<close>. The stream of changes is written
  to Redis in batches, each followed by a checkpoint. The results are about crashes: a request can
  fail at any place, with any part of its commands run, and the next attempt starts from the last
  checkpoint. The theory shows that what an attempt leaves behind is always recoverable and that an
  attempt that succeeds leaves exactly the members that the file says.
\<close>

section \<open>Operations\<close>

record StreamApplyResult =
  sa_lines :: nat
  sa_checkpoint :: u64
  sa_partial_trailing_line :: bool

datatype FileApplyMode =
    DeltaMode u64 string string
  | LoadMode string string

fun mode_forward_key :: "FileApplyMode \<Rightarrow> string" where
  "mode_forward_key (DeltaMode _ f _) = f"
| "mode_forward_key (LoadMode f _) = f"

fun mode_state_key :: "FileApplyMode \<Rightarrow> string" where
  "mode_state_key (DeltaMode _ _ s) = s"
| "mode_state_key (LoadMode _ s) = s"

fun mode_size_field :: "FileApplyMode \<Rightarrow> string" where
  "mode_size_field (DeltaMode _ _ _) = ''size''"
| "mode_size_field (LoadMode _ _) = ''loading_size''"

fun mode_cardinality_field :: "FileApplyMode \<Rightarrow> string" where
  "mode_cardinality_field (DeltaMode _ _ _) = ''cardinality''"
| "mode_cardinality_field (LoadMode _ _) = ''loading_cardinality''"

fun is_load :: "FileApplyMode \<Rightarrow> bool" where
  "is_load (DeltaMode _ _ _) = False"
| "is_load (LoadMode _ _) = True"

text \<open>The commands of a batch; those of a load are one transaction.\<close>

definition delta_commands ::
  "'w IdListSyncWorker \<Rightarrow> string \<Rightarrow> u64 \<Rightarrow> string \<Rightarrow> FileChange \<Rightarrow> redis_cmd list" where
  "delta_commands wk skh token forward_key ch =
     (if wc_enable_reverse_index (wk_config wk)
      then [member_cmd (fc_add ch) (member_key (wk_key_prefix wk) skh (fc_member ch)) (show_u64 token)]
      else [])
     @ [member_cmd (fc_add ch) forward_key (fc_member ch)]"

fun batch_commands ::
  "'w IdListSyncWorker \<Rightarrow> string \<Rightarrow> FileApplyMode \<Rightarrow> FileChange list \<Rightarrow> bool \<Rightarrow> redis_cmd list" where
  "batch_commands wk skh (DeltaMode token forward_key _) changes first_load_batch =
     concat (map (delta_commands wk skh token forward_key) changes)"
| "batch_commands wk skh (LoadMode forward_key _) changes first_load_batch =
     map (\<lambda>ch. member_cmd (fc_add ch) forward_key (fc_member ch)) changes
     @ (if first_load_batch \<and> list_ex fc_add changes
        then [EXPIRE forward_key pending_version_ttl_s] else [])"

definition apply_file_batch ::
  "'w IdListSyncWorker \<Rightarrow> string \<Rightarrow> FileApplyMode \<Rightarrow> FileChange list \<Rightarrow> u64 \<Rightarrow> bool
     \<Rightarrow> ('w, WorkerError, unit) io" where
  "apply_file_batch wk skh mode changes checkpoint first_load_batch =
     seq (redis_op (pipe (wk_pool wk) (is_load mode) (batch_commands wk skh mode changes first_load_batch)))
       (bind (scard wk (mode_forward_key mode)) (\<lambda>cardinality.
          hset wk (mode_state_key mode)
            [(mode_size_field mode, show_u64 checkpoint),
             (mode_cardinality_field mode, show_u64 cardinality)]))"

record stream_state =
  ss_decoder :: CompleteLineDecoder
  ss_batch :: "FileChange list"
  ss_checkpoint :: u64
  ss_lines :: nat
  ss_first_load_batch :: bool

text \<open>The bodies of the two loops of \<open>apply_file_stream\<close>.\<close>

definition read_line :: "DecodedLine \<Rightarrow> stream_state \<Rightarrow> stream_state" where
  "read_line d s =
     (let s1 = s\<lparr>ss_checkpoint := dl_end_offset d\<rparr>
      in case dl_change d of
           None \<Rightarrow> s1
         | Some ch \<Rightarrow> s1\<lparr>ss_batch := ss_batch s1 @ [ch], ss_lines := ss_lines s1 + 1\<rparr>)"

definition clear_batch :: "FileApplyMode \<Rightarrow> stream_state \<Rightarrow> stream_state" where
  "clear_batch mode s =
     s\<lparr>ss_first_load_batch :=
         (if is_load mode \<and> list_ex fc_add (ss_batch s) then False else ss_first_load_batch s),
       ss_batch := []\<rparr>"

definition take_line ::
  "'w IdListSyncWorker \<Rightarrow> string \<Rightarrow> FileApplyMode \<Rightarrow> DecodedLine \<Rightarrow> stream_state
     \<Rightarrow> ('w, WorkerError, stream_state) io" where
  "take_line wk skh mode d s0 =
     (let s = read_line d s0
      in if wc_pipeline_batch_size (wk_config wk) \<le> length (ss_batch s) then
           seq (apply_file_batch wk skh mode (ss_batch s) (ss_checkpoint s) (ss_first_load_batch s))
             (ret (clear_batch mode s))
         else ret s)"

definition take_chunk ::
  "'w IdListSyncWorker \<Rightarrow> string \<Rightarrow> FileApplyMode \<Rightarrow> 'w ClaimRenewal \<Rightarrow> string \<Rightarrow> stream_state
     \<Rightarrow> ('w, WorkerError, stream_state) io" where
  "take_chunk wk skh mode renewal chunk s =
     seq (ensure_held renewal)
       (case push chunk (ss_decoder s) of
          (Inl e, _) \<Rightarrow> fail e
        | (Inr decoded, dec) \<Rightarrow> fold_io decoded (take_line wk skh mode) (s\<lparr>ss_decoder := dec\<rparr>))"

text \<open>
  The chunks of the download are taken in order; an error of the stream comes after the chunks
  that were received before it.
\<close>

definition apply_file_stream ::
  "'w IdListSyncWorker \<Rightarrow> string \<Rightarrow> string \<Rightarrow> u64 \<Rightarrow> u64 \<Rightarrow> FileApplyMode \<Rightarrow> 'w ClaimRenewal
     \<Rightarrow> ('w, WorkerError, StreamApplyResult) io" where
  "apply_file_stream wk skh url start file_size mode renewal =
     bind (download_file (wk_http wk) (wk_parse_url wk) url start file_size) (\<lambda>(chunks, err).
     bind (fold_io chunks (take_chunk wk skh mode renewal)
             \<lparr>ss_decoder = decoder_new start, ss_batch = [], ss_checkpoint = start, ss_lines = 0,
              ss_first_load_batch = True\<rparr>) (\<lambda>s.
     seq (case err of None \<Rightarrow> ret () | Some e \<Rightarrow> seq (ensure_held renewal) (fail e))
    (seq (when_io (start < ss_checkpoint s)
            (apply_file_batch wk skh mode (ss_batch s) (ss_checkpoint s) (ss_first_load_batch s)))
         (ret \<lparr>sa_lines = ss_lines s, sa_checkpoint = ss_checkpoint s,
               sa_partial_trailing_line = has_partial_line (ss_decoder s)\<rparr>))))"

definition short_download :: "string \<Rightarrow> StreamApplyResult \<Rightarrow> u64 \<Rightarrow> string" where
  "short_download what applied task_size =
     what @ '' ended at complete-line offset '' @ show_u64 (sa_checkpoint applied) @ '', before task size ''
       @ show_u64 task_size @ '' (partial trailing line: ''
       @ (if sa_partial_trailing_line applied then ''true'' else ''false'') @ '')''"

definition apply_delta ::
  "'w IdListSyncWorker \<Rightarrow> string \<Rightarrow> string \<Rightarrow> ListSyncState \<Rightarrow> TaskMetadata \<Rightarrow> 'w ClaimRenewal
     \<Rightarrow> ('w, WorkerError, unit) io" where
  "apply_delta wk skh list st meta renewal =
     (if tm_file_id meta \<noteq> ls_file_id st then fail (InvalidTask ''delta file_id does not match state'')
      else
        seq (ensure_current_version_persisted wk skh list st)
       (bind (redis_op (dict_get_or_allocate_token wk skh list)) (\<lambda>token.
        bind (apply_file_stream wk skh (tm_url meta) (ls_size st) (tm_size meta)
                (DeltaMode token (fwd_key (wk_key_prefix wk) skh list (ls_version st))
                   (state_key (wk_key_prefix wk) skh list)) renewal) (\<lambda>applied.
        if sa_checkpoint applied < tm_size meta
        then fail (InvalidFile (short_download ''download'' applied (tm_size meta)))
        else ret ()))))"

section \<open>Files as histories of a set\<close>

definition replay :: "FileChange list \<Rightarrow> string set \<Rightarrow> string set" where
  "replay cs s = foldl (\<lambda>s ch. put_member (fc_member ch) (fc_add ch) s) s cs"

definition line_changes :: "DecodedLine list \<Rightarrow> FileChange list" where
  "line_changes ds = List.map_filter dl_change ds"

text \<open>The members after the first \<open>i\<close> lines, and the members that the later lines mention.\<close>

definition contents :: "DecodedLine list \<Rightarrow> nat \<Rightarrow> string set" where
  "contents ds i = replay (line_changes (take i ds)) {}"

definition mentions :: "DecodedLine list \<Rightarrow> nat \<Rightarrow> string set" where
  "mentions ds i = fc_member ` set (line_changes (drop i ds))"

definition agree :: "string set \<Rightarrow> string set \<Rightarrow> string set \<Rightarrow> bool" where
  "agree M A B \<longleftrightarrow> (\<forall>m. m \<notin> M \<longrightarrow> (m \<in> A \<longleftrightarrow> m \<in> B))"

lemma agree_refl [simp]: "agree M A A"
  by (simp add: agree_def)

lemma agree_empty [simp]: "agree {} A B \<longleftrightarrow> A = B"
  by (auto simp: agree_def)

lemma agree_mono: "agree M A B \<Longrightarrow> M \<subseteq> N \<Longrightarrow> agree N A B"
  by (auto simp: agree_def)

lemma agree_put: "agree M A B \<Longrightarrow> m \<in> M \<Longrightarrow> agree M (put_member m b A) B"
  by (auto simp: agree_def put_member_def)

lemma replay_simps [simp]:
  "replay [] s = s" "replay (c # cs) s = replay cs (put_member (fc_member c) (fc_add c) s)"
  "replay (as @ bs) s = replay bs (replay as s)"
  by (simp_all add: replay_def)

lemma line_changes_simps [simp]:
  "line_changes [] = []" "line_changes (as @ bs) = line_changes as @ line_changes bs"
  "line_changes (d # ds) = (case dl_change d of None \<Rightarrow> [] | Some ch \<Rightarrow> [ch]) @ line_changes ds"
  by (auto simp: line_changes_def List.map_filter_def split: option.splits)

text \<open>A change settles its member, whatever came before.\<close>

lemma agree_replay: "agree M A B \<Longrightarrow> agree (M - fc_member ` set cs) (replay cs A) (replay cs B)"
proof (induction cs arbitrary: M A B)
  case (Cons c cs)
  have "agree (M - {fc_member c}) (put_member (fc_member c) (fc_add c) A) (put_member (fc_member c) (fc_add c) B)"
    using Cons.prems by (auto simp: agree_def put_member_def)
  from Cons.IH [OF this] show ?case by (simp add: set_diff_eq)
qed simp

lemma agree_replay_left:
  "agree M A B \<Longrightarrow> fc_member ` set cs \<subseteq> M \<Longrightarrow> agree M (replay cs A) B"
  by (induction cs arbitrary: A) (simp_all add: agree_put)

definition segment :: "DecodedLine list \<Rightarrow> nat \<Rightarrow> nat \<Rightarrow> FileChange list" where
  "segment ds i j = line_changes (take (j - i) (drop i ds))"

lemma contents_segment: "i \<le> j \<Longrightarrow> contents ds j = replay (segment ds i j) (contents ds i)"
proof -
  assume "i \<le> j"
  then have "take j ds = take i ds @ take (j - i) (drop i ds)" by (metis le_add_diff_inverse take_add)
  then show ?thesis by (simp add: contents_def segment_def)
qed

lemma mentions_segment: "i \<le> j \<Longrightarrow> mentions ds i = fc_member ` set (segment ds i j) \<union> mentions ds j"
proof -
  assume "i \<le> j"
  then have "drop i ds = take (j - i) (drop i ds) @ drop j ds"
    by (metis append_take_drop_id drop_drop le_add_diff_inverse2)
  then have "line_changes (drop i ds) = segment ds i j @ line_changes (drop j ds)"
    unfolding segment_def by (metis line_changes_simps(2))
  then show ?thesis by (auto simp: mentions_def)
qed

lemma agree_segment:
  assumes "agree (mentions ds i) A (contents ds i)" and "i \<le> j"
  shows "agree (mentions ds j) (replay (segment ds i j) A) (contents ds j)"
  unfolding contents_segment [OF assms(2)]
  by (rule agree_mono [OF agree_replay [OF assms(1)]]) (use mentions_segment [OF assms(2), of ds] in blast)

lemma mentions_end [simp]: "mentions ds (length ds) = {}"
  by (simp add: mentions_def)

subsection \<open>Positions of lines\<close>

definition off_at :: "DecodedLine list \<Rightarrow> nat \<Rightarrow> u64" where
  "off_at ds i = (if i = 0 then 0 else dl_end_offset (ds ! (i - 1)))"

lemma off_at_resume:
  assumes "decode_lines 0 file = Inr (ds, rem)" and "i \<le> length ds"
  shows "\<exists>k. k \<le> length file \<and> off_at ds i = of_nat k \<and> decode_lines (of_nat k) (drop k file) = Inr (drop i ds, rem)"
proof (cases i)
  case 0
  then show ?thesis using assms(1) by (intro exI [of _ 0]) (simp add: off_at_def)
next
  case (Suc j)
  then show ?thesis using decode_lines_resume [OF assms(1), of j] assms(2) by (auto simp: off_at_def)
qed

lemma off_at_less:
  assumes "decode_lines 0 file = Inr (ds, rem)" and "length file < 2 ^ 64" and "i < j" and "j \<le> length ds"
  shows "off_at ds i < off_at ds j"
proof -
  obtain k where k: "k \<le> length file" "off_at ds i = of_nat k"
      "decode_lines (of_nat k) (drop k file) = Inr (drop i ds, rem)"
    using off_at_resume [OF assms(1)] assms(3,4) by (metis less_le_trans less_imp_le)
  have "j - i - 1 < length (drop i ds)" using assms(3,4) by simp
  from decode_lines_resume [OF k(3) this] obtain k' where
    k': "0 < k'" "k' \<le> length (drop k file)" "dl_end_offset (drop i ds ! (j - i - 1)) = of_nat k + of_nat k'"
    by blast
  have "off_at ds j = of_nat (k + k')" using k' assms(3,4) by (simp add: off_at_def)
  moreover have "k + k' < 2 ^ 64" using k'(2) k(1) assms(2) by simp
  ultimately have "unat (off_at ds j) = k + k'" by (simp only: unat_of_nat_below)
  moreover have "unat (off_at ds i) = k" using k(1,2) assms(2) by (simp add: unat_of_nat_below)
  ultimately show ?thesis using k'(1) by (simp add: word_less_nat_alt)
qed

lemma off_at_bound:
  assumes "decode_lines 0 file = Inr (ds, rem)" and "length file < 2 ^ 64" and "i \<le> length ds"
  shows "unat (off_at ds i) \<le> length file"
  using off_at_resume [OF assms(1,3)] assms(2) by (auto simp: unat_of_nat_below)

text \<open>Bytes of the file from a line on decode to the lines that follow.\<close>

lemma decode_prefix:
  assumes fd: "decode_lines 0 file = Inr (ds, rem)" and "length file < 2 ^ 64" and i: "i \<le> length ds"
    and pre: "prefix bs (drop (unat (off_at ds i)) file)"
  shows "\<exists>n rem'. decode_lines (off_at ds i) bs = Inr (take n (drop i ds), rem') \<and> i + n \<le> length ds"
proof -
  obtain k where k: "k \<le> length file" "off_at ds i = of_nat k"
      "decode_lines (of_nat k) (drop k file) = Inr (drop i ds, rem)"
    using off_at_resume [OF fd i] by blast
  have "unat (off_at ds i) = k" using k(1,2) assms(2) by (simp add: unat_of_nat_below)
  then obtain more where more: "drop k file = bs @ more" using pre by (auto elim: prefixE)
  have app: "decode_lines (off_at ds i) (bs @ more) = Inr (drop i ds, rem)" using k more by simp
  obtain ds1 rem1 rest where d: "decode_lines (off_at ds i) bs = Inr (ds1, rem1)" "drop i ds = ds1 @ rest"
    using decode_lines_append [of "off_at ds i" bs more] app
    by (auto split: sum.splits prod.splits)
  then have "ds1 = take (length ds1) (drop i ds)" by simp
  moreover have "i + length ds1 \<le> length ds" using arg_cong [OF d(2), of length] i by simp
  ultimately show ?thesis using d(1) by metis
qed

section \<open>One batch\<close>

text \<open>What the commands of a batch do to the view.\<close>

definition act_fwd :: "string \<Rightarrow> string \<Rightarrow> bool \<Rightarrow> list_view \<Rightarrow> list_view" where
  "act_fwd v m b lv = (case lv_fwd lv v of None \<Rightarrow> lv | Some s \<Rightarrow> set_fwd v (put_member m b s) lv)"

definition act_expire :: "string \<Rightarrow> u64 \<Rightarrow> list_view \<Rightarrow> list_view" where
  "act_expire v ttl lv =
     (if lv_fwd lv v = Some {} then lv else lv\<lparr>lv_ttl := (lv_ttl lv)(v \<mapsto> ttl)\<rparr>)"

lemma act_expire_simps [simp]:
  "lv_fwd (act_expire v ttl lv) = lv_fwd lv" "lv_rev (act_expire v ttl lv) = lv_rev lv"
  "lv_state (act_expire v ttl lv) = lv_state lv" "lv_name (act_expire v ttl lv) = lv_name lv"
  by (simp_all add: act_expire_def)

definition delta_acts :: "list_id \<Rightarrow> bool \<Rightarrow> string \<Rightarrow> FileChange \<Rightarrow> view_act list" where
  "delta_acts li rv v ch =
     (if rv then [(member_cmd (fc_add ch) (member_key (li_prefix li) (li_skh li) (fc_member ch))
                      (show_u64 (li_token li)), set_rev (fc_member ch) (fc_add ch))] else [])
     @ [(member_cmd (fc_add ch) (fwd_key (li_prefix li) (li_skh li) (li_list li) v) (fc_member ch),
         act_fwd v (fc_member ch) (fc_add ch))]"

text \<open>
  The mode of a run for the list \<open>li\<close> and the version \<open>v\<close>; \<open>reverse\<close> says whether the run
  writes the reverse index.
\<close>

definition list_mode :: "list_id \<Rightarrow> bool \<Rightarrow> string \<Rightarrow> FileApplyMode" where
  "list_mode li load v =
     (if load then LoadMode (fwd_key (li_prefix li) (li_skh li) (li_list li) v)
                     (state_key (li_prefix li) (li_skh li) (li_list li))
      else DeltaMode (li_token li) (fwd_key (li_prefix li) (li_skh li) (li_list li) v)
             (state_key (li_prefix li) (li_skh li) (li_list li)))"

definition reverse :: "'w IdListSyncWorker \<Rightarrow> bool \<Rightarrow> bool" where
  "reverse wk load \<longleftrightarrow> \<not> load \<and> wc_enable_reverse_index (wk_config wk)"

definition size_field :: "bool \<Rightarrow> string" where
  "size_field load = (if load then ''loading_size'' else ''size'')"

definition cardinality_field :: "bool \<Rightarrow> string" where
  "cardinality_field load = (if load then ''loading_cardinality'' else ''cardinality'')"

lemma list_mode_simps [simp]:
  "mode_forward_key (list_mode li load v) = fwd_key (li_prefix li) (li_skh li) (li_list li) v"
  "mode_state_key (list_mode li load v) = state_key (li_prefix li) (li_skh li) (li_list li)"
  "mode_size_field (list_mode li load v) = size_field load"
  "mode_cardinality_field (list_mode li load v) = cardinality_field load"
  "is_load (list_mode li load v) = load"
  by (simp_all add: list_mode_def size_field_def cardinality_field_def)

lemma fields_differ [simp]: "size_field load \<noteq> cardinality_field load" "cardinality_field load \<noteq> size_field load"
  by (simp_all add: size_field_def cardinality_field_def)

definition expire_acts :: "list_id \<Rightarrow> string \<Rightarrow> bool \<Rightarrow> view_act list" where
  "expire_acts li v b =
     (if b then [(EXPIRE (fwd_key (li_prefix li) (li_skh li) (li_list li) v) pending_version_ttl_s,
                  act_expire v pending_version_ttl_s)] else [])"

definition batch_acts ::
  "list_id \<Rightarrow> bool \<Rightarrow> bool \<Rightarrow> string \<Rightarrow> FileChange list \<Rightarrow> bool \<Rightarrow> view_act list" where
  "batch_acts li load rv v changes first =
     concat (map (delta_acts li rv v) changes) @ expire_acts li v (load \<and> first \<and> list_ex fc_add changes)"

lemma batch_commands_acts:
  assumes "wk_key_prefix wk = li_prefix li"
  shows "batch_commands wk (li_skh li) (list_mode li load v) changes first =
    map fst (batch_acts li load (reverse wk load) v changes first)"
proof (cases load)
  case True
  have "map fst (concat (map (delta_acts li False v) changes)) =
      map (\<lambda>ch. member_cmd (fc_add ch) (fwd_key (li_prefix li) (li_skh li) (li_list li) v) (fc_member ch)) changes"
    by (induction changes) (simp_all add: delta_acts_def)
  then show ?thesis using True
    by (simp add: list_mode_def batch_acts_def reverse_def expire_acts_def)
next
  case False
  have "concat (map (delta_commands wk (li_skh li) (li_token li) (fwd_key (li_prefix li) (li_skh li) (li_list li) v)) changes)
      = map fst (concat (map (delta_acts li (reverse wk load) v) changes))"
    using False assms by (induction changes) (simp_all add: delta_acts_def delta_commands_def reverse_def)
  then show ?thesis using False by (simp add: list_mode_def batch_acts_def expire_acts_def)
qed

lemma view_expire:
  assumes ns: "namespace_ok (li_skh li)" and "ttl \<noteq> 0"
    and st: "step_ok sc (EXPIRE (fwd_key (li_prefix li) (li_skh li) (li_list li) v) ttl) ks r ks'"
  shows "list_view_of li ks' = act_expire v ttl (list_view_of li ks)"
proof -
  let ?k = "fwd_key (li_prefix li) (li_skh li) (li_list li) v"
  show ?thesis
  proof (cases "ks ?k")
    case None
    then show ?thesis using st by (simp add: step_ok_determined act_expire_def list_view_of_def set_at_def)
  next
    case (Some e)
    then have ks': "ks' = ks(?k \<mapsto> e\<lparr>re_ttl := Some ttl\<rparr>)" using st assms(2) by (simp add: step_ok_determined)
    have "set_at ks ?k \<noteq> Some {}" using exists_set [of ks ?k "{}"] Some by auto
    moreover have same: "set_at ks' ?k = set_at ks ?k" "ttl_at ks' ?k = Some ttl"
      using Some by (simp_all add: ks' set_at_def ttl_at_def)
    have other: "set_at ks' k = set_at ks k" "ttl_at ks' k = ttl_at ks k" "hash_at ks' k = hash_at ks k"
      if "k \<noteq> ?k" for k
      using that by (simp_all add: ks' upd_other)
    have sets: "set_at ks' k = set_at ks k" for k using same other by (cases "k = ?k") simp_all
    ultimately show ?thesis
      using ns same other
      by (intro list_view_eqI ext) (auto simp: list_view_of_def act_expire_def sets list_keys)
  qed
qed

lemma delta_acts_ok: "namespace_ok (li_skh li) \<Longrightarrow> acts_ok sc li (concat (map (delta_acts li rv v) changes))"
  using view_rev_cmd view_fwd_cmd
  by (fastforce simp: acts_ok_def delta_acts_def act_fwd_def split: if_splits)

definition rev_change :: "FileChange \<Rightarrow> (string \<Rightarrow> bool option) \<Rightarrow> string \<Rightarrow> bool option" where
  "rev_change ch r = r(fc_member ch := map_option (\<lambda>_. fc_add ch) (r (fc_member ch)))"

definition delta_effect ::
  "bool \<Rightarrow> string \<Rightarrow> FileChange list \<Rightarrow> string set \<Rightarrow> list_view \<Rightarrow> list_view \<Rightarrow> bool" where
  "delta_effect rv v cs F lv lv' \<longleftrightarrow>
     lv_fwd lv' = (lv_fwd lv)(v \<mapsto> replay cs F) \<and> lv_state lv' = lv_state lv \<and> lv_name lv' = lv_name lv
     \<and> lv_rev lv' = (if rv then fold rev_change cs (lv_rev lv) else lv_rev lv)"

lemma fold_delta_acts:
  "lv_fwd lv v = Some F \<Longrightarrow>
     delta_effect rv v cs F lv (fold snd (concat (map (delta_acts li rv v) cs)) lv)"
proof (induction cs arbitrary: lv F)
  case Nil
  then show ?case by (simp add: delta_effect_def fun_upd_idem)
next
  case (Cons c cs)
  let ?lv = "fold snd (delta_acts li rv v c) lv" and ?F = "put_member (fc_member c) (fc_add c) F"
  have step: "delta_effect rv v [c] F lv ?lv"
    using Cons.prems
    by (simp add: delta_effect_def delta_acts_def act_fwd_def set_fwd_def set_rev_def rev_change_def)
  then have "lv_fwd ?lv v = Some ?F" by (simp add: delta_effect_def)
  from Cons.IH [OF this] step show ?case by (cases rv) (simp_all add: delta_effect_def)
qed

subsection \<open>The recoverable states\<close>

definition rev_members :: "list_view \<Rightarrow> string set" where
  "rev_members lv = {m. lv_rev lv m = Some True}"

definition rev_typed :: "list_view \<Rightarrow> bool" where
  "rev_typed lv \<longleftrightarrow> (\<forall>m. lv_rev lv m \<noteq> None)"

lemma rev_replay:
  assumes "\<forall>m. r m \<noteq> None"
  shows "{m. fold rev_change cs r m = Some True} = replay cs {m. r m = Some True} \<and> (\<forall>m. fold rev_change cs r m \<noteq> None)"
  using assms
proof (induction cs arbitrary: r)
  case (Cons c cs)
  have typed: "\<forall>m. rev_change c r m \<noteq> None" using Cons.prems by (simp add: rev_change_def)
  moreover have "{m. rev_change c r m = Some True} = put_member (fc_member c) (fc_add c) {m. r m = Some True}"
    using Cons.prems by (auto simp: rev_change_def put_member_def)
  ultimately show ?case using Cons.IH [OF typed] by simp
qed simp

text \<open>
  The state in which a crash can leave a list whose checkpoint is after line \<open>i\<close>: forward set and
  reverse index agree with the first \<open>i\<close> lines on every member that no later line mentions.
\<close>

definition applied :: "DecodedLine list \<Rightarrow> string \<Rightarrow> bool \<Rightarrow> nat \<Rightarrow> list_view \<Rightarrow> bool" where
  "applied ds v rv i lv \<longleftrightarrow>
     (\<exists>F. lv_fwd lv v = Some F \<and> agree (mentions ds i) F (contents ds i))
     \<and> (rv \<longrightarrow> rev_typed lv \<and> agree (mentions ds i) (rev_members lv) (contents ds i))"

definition saved :: "string \<Rightarrow> u64 \<Rightarrow> list_view \<Rightarrow> bool" where
  "saved f off lv \<longleftrightarrow> (\<exists>h. lv_state lv = Some h \<and> unwrap_or 0 (Option.bind (h f) parse_u64) = off)"

definition rest_same :: "bool \<Rightarrow> string \<Rightarrow> bool \<Rightarrow> list_view \<Rightarrow> list_view \<Rightarrow> bool" where
  "rest_same load v rv lv0 lv \<longleftrightarrow>
     (\<forall>v'. v' \<noteq> v \<longrightarrow> lv_fwd lv v' = lv_fwd lv0 v') \<and> (\<not> rv \<longrightarrow> lv_rev lv = lv_rev lv0)
     \<and> lv_name lv = lv_name lv0 \<and> (\<not> load \<longrightarrow> lv_ttl lv0 v = None \<longrightarrow> lv_ttl lv v = None)
     \<and> (\<exists>h0 h. lv_state lv0 = Some h0 \<and> lv_state lv = Some h
          \<and> (\<forall>f. f \<noteq> size_field load \<longrightarrow> f \<noteq> cardinality_field load \<longrightarrow> h f = h0 f)
          \<and> (h = h0 \<or> (\<exists>n. h (cardinality_field load) = Some (show_u64 n))))"

definition progress ::
  "DecodedLine list \<Rightarrow> bool \<Rightarrow> string \<Rightarrow> bool \<Rightarrow> list_view \<Rightarrow> nat \<Rightarrow> list_view \<Rightarrow> bool" where
  "progress ds load v rv lv0 i lv \<longleftrightarrow>
     i \<le> length ds \<and> applied ds v rv i lv \<and> saved (size_field load) (off_at ds i) lv
     \<and> rest_same load v rv lv0 lv"

text \<open>The recorded number of members is that of the forward set.\<close>

definition counted :: "bool \<Rightarrow> string \<Rightarrow> list_view \<Rightarrow> bool" where
  "counted load v lv \<longleftrightarrow>
     (\<exists>h F n. lv_state lv = Some h \<and> lv_fwd lv v = Some F
        \<and> h (cardinality_field load) = Some (show_u64 n) \<and> unat n = card F)"

lemma progress_act:
  assumes "progress ds load v rv lv0 i lv" and "a \<in> set (batch_acts li load rv v cs first)"
    and "fc_member ` set cs \<subseteq> mentions ds i"
  shows "progress ds load v rv lv0 i (snd a lv)"
proof -
  obtain F where F: "lv_fwd lv v = Some F" "agree (mentions ds i) F (contents ds i)"
    using assms(1) by (auto simp: progress_def applied_def)
  consider (rev) ch where "ch \<in> set cs" "rv" "snd a = set_rev (fc_member ch) (fc_add ch)"
    | (fwd) ch where "ch \<in> set cs" "snd a = act_fwd v (fc_member ch) (fc_add ch)"
    | (expire) "load" "snd a = act_expire v pending_version_ttl_s"
    using assms(2) by (auto simp: batch_acts_def delta_acts_def expire_acts_def split: if_splits)
  then show ?thesis
  proof cases
    case rev
    then have mem: "fc_member ch \<in> mentions ds i" using assms(3) by blast
    have "rev_members (snd a lv) = put_member (fc_member ch) (fc_add ch) (rev_members lv)"
      if "rev_typed lv"
      using that rev(3) by (auto simp: rev_members_def rev_typed_def set_rev_def put_member_def)
    then show ?thesis
      using assms(1) rev agree_put [OF _ mem]
      by (auto simp: progress_def applied_def saved_def rest_same_def rev_typed_def set_rev_def)
  next
    case fwd
    then have mem: "fc_member ch \<in> mentions ds i" using assms(3) by blast
    show ?thesis
      using assms(1) fwd F agree_put [OF F(2) mem]
      by (simp add: progress_def applied_def saved_def rest_same_def rev_typed_def rev_members_def
          act_fwd_def set_fwd_def)
  next
    case expire
    then show ?thesis
      using assms(1)
      by (simp add: progress_def applied_def saved_def rest_same_def rev_typed_def rev_members_def)
  qed
qed

lemma progress_batch:
  assumes "progress ds load v rv lv0 i lv" and "i \<le> j"
  shows "applied ds v rv j (fold snd (batch_acts li load rv v (segment ds i j) first) lv)"
proof -
  let ?lv1 = "fold snd (concat (map (delta_acts li rv v) (segment ds i j))) lv"
  let ?lv2 = "fold snd (batch_acts li load rv v (segment ds i j) first) lv"
  obtain F where F: "lv_fwd lv v = Some F" "agree (mentions ds i) F (contents ds i)"
    using assms(1) by (auto simp: progress_def applied_def)
  note eff = fold_delta_acts [OF F(1), of rv "segment ds i j" li, unfolded delta_effect_def]
  have "lv_fwd ?lv2 = lv_fwd ?lv1 \<and> lv_rev ?lv2 = lv_rev ?lv1"
    by (simp add: batch_acts_def expire_acts_def)
  then have l2: "lv_fwd ?lv2 v = Some (replay (segment ds i j) F)"
      "lv_rev ?lv2 = (if rv then fold rev_change (segment ds i j) (lv_rev lv) else lv_rev lv)"
    using eff by simp_all
  have "rev_typed ?lv2 \<and> agree (mentions ds j) (rev_members ?lv2) (contents ds j)" if rv
  proof -
    have typed: "\<forall>m. lv_rev lv m \<noteq> None" and ag: "agree (mentions ds i) (rev_members lv) (contents ds i)"
      using assms(1) that by (simp_all add: progress_def applied_def rev_typed_def)
    have "rev_members ?lv2 = replay (segment ds i j) (rev_members lv)" "rev_typed ?lv2"
      using rev_replay [OF typed, of "segment ds i j"] l2(2) that
      by (simp_all add: rev_members_def rev_typed_def)
    then show ?thesis using agree_segment [OF ag assms(2)] by simp
  qed
  then show ?thesis using l2(1) agree_segment [OF F(2) assms(2)] by (simp add: applied_def)
qed

lemma batch_acts_ok:
  assumes ns: "namespace_ok (li_skh li)"
  shows "acts_ok sc li (batch_acts li load rv v cs first)"
  unfolding acts_ok_def
proof (intro ballI allI impI, clarify)
  fix c f ks r ks'
  assume a: "(c, f) \<in> set (batch_acts li load rv v cs first)" and st: "step_ok sc c ks r ks'"
  show "list_view_of li ks' = f (list_view_of li ks)"
  proof (cases "(c, f) \<in> set (concat (map (delta_acts li rv v) cs))")
    case True
    then show ?thesis using acts_okD [OF delta_acts_ok [OF ns], of "(c, f)" rv v cs sc ks r ks'] st by simp
  next
    case False
    then show ?thesis
      using a st view_expire [OF ns, of pending_version_ttl_s]
      by (auto simp: batch_acts_def expire_acts_def pending_version_ttl_s_def split: if_splits)
  qed
qed

lemma apply_file_batch_ok:
  assumes conf: "redis_conforms sc (list_rely li) (wk_pool wk) view" and ns: "namespace_ok (li_skh li)"
    and pre: "wk_key_prefix wk = li_prefix li" and ij: "i \<le> j" "j \<le> length ds"
  shows "vio_ok li view (progress ds load v (reverse wk load) lv0 i)
    (apply_file_batch wk (li_skh li) (list_mode li load v) (segment ds i j) (off_at ds j) first)
    (\<lambda>_ lv. progress ds load v (reverse wk load) lv0 j lv \<and> counted load v lv)
    (\<lambda>lv. \<exists>k\<ge>i. progress ds load v (reverse wk load) lv0 k lv)"
  unfolding apply_file_batch_def list_mode_simps batch_commands_acts [OF pre]
proof (intro io_ok_seq io_ok_bind)
  let ?rv = "reverse wk load" and ?cs = "segment ds i j"
  let ?P = "progress ds load v ?rv lv0 i"
  let ?acts = "batch_acts li load ?rv v ?cs first"
  let ?E = "\<lambda>lv. \<exists>k\<ge>i. progress ds load v ?rv lv0 k lv"
  let ?R = "\<lambda>lv. ?P lv \<and> applied ds v ?rv j lv"
  have seg: "fc_member ` set ?cs \<subseteq> mentions ds i" using mentions_segment [OF ij(1), of ds] by blast
  have keep: "?P (snd a lv)" if "a \<in> set ?acts" "?P lv" for a lv
    using progress_act [OF that(2,1) seg] .
  have run: "vio_ok li view ?P (pipe (wk_pool wk) load (map fst ?acts))
      (\<lambda>_ lv. \<exists>lv1. ?P lv1 \<and> lv = fold snd ?acts lv1) ?P"
    by (rule pipe_view_ok [OF conf batch_acts_ok [OF ns]]) (use keep in auto)
  have all: "?P (fold snd as lv)" if "?P lv" "set as \<subseteq> set ?acts" for as lv
    using that by (induction as arbitrary: lv) (simp_all add: keep)
  show "vio_ok li view ?P (redis_op (pipe (wk_pool wk) load (map fst ?acts))) (\<lambda>_. ?R) ?E"
    by (rule redis_op_ok, rule io_ok_cons [OF run])
      (use all progress_batch [OF _ ij(1)] in \<open>auto intro!: exI [of _ i]\<close>)
  show "vio_ok li view ?R (scard wk (fwd_key (li_prefix li) (li_skh li) (li_list li) v))
      (\<lambda>n lv. ?R lv \<and> (\<exists>s. lv_fwd lv v = Some s \<and> unat n = card s)) ?E"
    by (rule scard_fwd_ok [OF conf]) blast
  show "vio_ok li view (\<lambda>lv. ?R lv \<and> (\<exists>s. lv_fwd lv v = Some s \<and> unat n = card s))
      (hset wk (state_key (li_prefix li) (li_skh li) (li_list li))
         [(size_field load, show_u64 (off_at ds j)), (cardinality_field load, show_u64 n)])
      (\<lambda>_ lv. progress ds load v ?rv lv0 j lv \<and> counted load v lv) ?E" for n
  proof -
    let ?fvs = "[(size_field load, show_u64 (off_at ds j)), (cardinality_field load, show_u64 n)]"
    have fin: "progress ds load v ?rv lv0 j (set_state (put_fields ?fvs h) lv)
        \<and> counted load v (set_state (put_fields ?fvs h) lv)"
      if "?R lv" "lv_state lv = Some h" "lv_fwd lv v = Some s" "unat n = card s" for lv h s
      using that ij
      by (auto simp: progress_def applied_def saved_def rest_same_def counted_def set_state_def put_fields_def
          rev_typed_def rev_members_def parse_u64_show_u64 unwrap_or_def)
    show ?thesis
      by (rule io_ok_cons [OF hset_state_ok [OF conf ns, where E = ?E and P = "\<lambda>lv. ?R lv \<and> (\<exists>s. lv_fwd lv v = Some s \<and> unat n = card s)"]])
        (use fin ij in \<open>(blast | fastforce)\<close>)+
  qed
qed

section \<open>The stream\<close>

text \<open>
  Between two steps of the loops, after \<open>k\<close> lines: the lines up to some \<open>i\<close> are written and
  checkpointed, the changes of the lines from there to \<open>k\<close> are in the batch.
\<close>

definition streaming ::
  "DecodedLine list \<Rightarrow> bool \<Rightarrow> string \<Rightarrow> bool \<Rightarrow> list_view \<Rightarrow> nat \<Rightarrow> CompleteLineDecoder \<Rightarrow> nat
     \<Rightarrow> stream_state \<Rightarrow> list_view \<Rightarrow> bool" where
  "streaming ds load v rv lv0 i0 dec k s lv \<longleftrightarrow>
     (ss_decoder s = dec \<and> ss_checkpoint s = off_at ds k \<and> k \<le> length ds)
     \<and> (\<exists>i. (i0 \<le> i \<and> i \<le> k \<and> ss_batch s = segment ds i k) \<and> progress ds load v rv lv0 i lv)"

definition recoverable ::
  "DecodedLine list \<Rightarrow> bool \<Rightarrow> string \<Rightarrow> bool \<Rightarrow> list_view \<Rightarrow> nat \<Rightarrow> list_view \<Rightarrow> bool" where
  "recoverable ds load v rv lv0 i0 lv \<longleftrightarrow> (\<exists>k\<ge>i0. progress ds load v rv lv0 k lv)"

lemma segment_Suc:
  assumes "i \<le> k" and "k < length ds"
  shows "segment ds i (Suc k) = segment ds i k @ (case dl_change (ds ! k) of None \<Rightarrow> [] | Some ch \<Rightarrow> [ch])"
proof -
  have "Suc k - i = Suc (k - i)" "k - i < length (drop i ds)" "drop i ds ! (k - i) = ds ! k"
    using assms by simp_all
  then have "take (Suc k - i) (drop i ds) = take (k - i) (drop i ds) @ [ds ! k]"
    by (metis take_Suc_conv_app_nth)
  then show ?thesis by (simp add: segment_def)
qed

lemma segment_empty [simp]: "segment ds k k = []"
  by (simp add: segment_def)

lemma streaming_recoverable: "streaming ds load v rv lv0 i0 dec k s lv \<Longrightarrow> recoverable ds load v rv lv0 i0 lv"
  by (auto simp: streaming_def recoverable_def)

lemma take_line_ok:
  assumes conf: "redis_conforms sc (list_rely li) (wk_pool wk) view" and ns: "namespace_ok (li_skh li)"
    and pre: "wk_key_prefix wk = li_prefix li" and k: "k < length ds"
  shows "vio_ok li view (streaming ds load v (reverse wk load) lv0 i0 dec k s)
    (take_line wk (li_skh li) (list_mode li load v) (ds ! k) s)
    (streaming ds load v (reverse wk load) lv0 i0 dec (Suc k))
    (recoverable ds load v (reverse wk load) lv0 i0)"
  unfolding streaming_def [of ds load v "reverse wk load" lv0 i0 dec k s]
proof (intro io_ok_pure io_ok_ex, elim conjE)
  fix i
  assume s: "ss_decoder s = dec" "ss_checkpoint s = off_at ds k"
    and i: "i0 \<le> i" "i \<le> k" "ss_batch s = segment ds i k"
  define s2 where "s2 = read_line (ds ! k) s"
  have s2: "ss_decoder s2 = dec" "ss_checkpoint s2 = off_at ds (Suc k)" "ss_batch s2 = segment ds i (Suc k)"
    using s i segment_Suc [OF i(2) k]
    by (simp_all add: s2_def read_line_def Let_def off_at_def split: option.splits)
  let ?rv = "reverse wk load"
  show "vio_ok li view (progress ds load v ?rv lv0 i) (take_line wk (li_skh li) (list_mode li load v) (ds ! k) s)
      (streaming ds load v ?rv lv0 i0 dec (Suc k)) (recoverable ds load v ?rv lv0 i0)"
    unfolding take_line_def s2_def [symmetric] Let_def
  proof (rule io_ok_if)
    let ?m = "apply_file_batch wk (li_skh li) (list_mode li load v) (ss_batch s2) (ss_checkpoint s2) (ss_first_load_batch s2)"
    have "vio_ok li view (progress ds load v ?rv lv0 i) ?m
        (\<lambda>_. progress ds load v ?rv lv0 (Suc k)) (recoverable ds load v ?rv lv0 i0)"
      unfolding s2
      by (rule io_ok_cons [OF apply_file_batch_ok [OF conf ns pre]])
        (use i k in \<open>auto simp: recoverable_def intro: order.trans\<close>)
    then show "vio_ok li view (progress ds load v ?rv lv0 i) (seq ?m (ret (clear_batch (list_mode li load v) s2)))
        (streaming ds load v ?rv lv0 i0 dec (Suc k)) (recoverable ds load v ?rv lv0 i0)"
      by (rule io_ok_seq)
        (rule io_ok_ret, use s2 i k in \<open>auto simp: streaming_def clear_batch_def intro!: exI [of _ "Suc k"]\<close>)
    show "vio_ok li view (progress ds load v ?rv lv0 i) (ret s2)
        (streaming ds load v ?rv lv0 i0 dec (Suc k)) (recoverable ds load v ?rv lv0 i0)"
      by (rule io_ok_ret) (use s2 i k in \<open>auto simp: streaming_def intro!: exI [of _ i]\<close>)
  qed
qed

lemma push_all_snoc:
  "push_all (cs @ [c]) d =
     (case push_all cs d of
        (Inl e, d') \<Rightarrow> (Inl e, d')
      | (Inr ds, d') \<Rightarrow> (case push c d' of (Inl e, d'') \<Rightarrow> (Inl e, d'') | (Inr ds', d'') \<Rightarrow> (Inr (ds @ ds'), d'')))"
  by (induction cs arbitrary: d) (auto split: sum.splits prod.splits)

text \<open>One chunk: the decoder gives the next lines of the file.\<close>

definition stream_at ::
  "DecodedLine list \<Rightarrow> bool \<Rightarrow> string \<Rightarrow> bool \<Rightarrow> list_view \<Rightarrow> nat \<Rightarrow> string list \<Rightarrow> nat
     \<Rightarrow> stream_state \<Rightarrow> list_view \<Rightarrow> bool" where
  "stream_at ds load v rv lv0 i0 chunks c s lv \<longleftrightarrow>
     (\<exists>k dec. (i0 \<le> k \<and> push_all (take c chunks) (decoder_new (off_at ds i0))
                 = (Inr (take (k - i0) (drop i0 ds)), dec))
        \<and> streaming ds load v rv lv0 i0 dec k s lv)"

lemma push_all_prefix:
  assumes fd: "decode_lines 0 file = Inr (ds, rem)" "length file < 2 ^ 64" "i0 \<le> length ds"
    and pre: "prefix (concat chunks) (drop (unat (off_at ds i0)) file)"
    and push: "push_all chunks (decoder_new (off_at ds i0)) = (res, dec)"
  shows "\<exists>k. i0 \<le> k \<and> k \<le> length ds \<and> res = Inr (take (k - i0) (drop i0 ds))"
proof -
  obtain n rem' where n: "decode_lines (off_at ds i0) (concat chunks) = Inr (take n (drop i0 ds), rem')"
      "i0 + n \<le> length ds"
    using decode_prefix [OF fd pre] by blast
  then have "res = Inr (take n (drop i0 ds))"
    using push_all_decode [of "decoder_new (off_at ds i0)" chunks] push by (simp add: decoder_new_def)
  then show ?thesis using n(2) by (intro exI [of _ "i0 + n"]) simp
qed

lemma take_chunk_ok:
  assumes conf: "redis_conforms sc (list_rely li) (wk_pool wk) view" and ns: "namespace_ok (li_skh li)"
    and pre: "wk_key_prefix wk = li_prefix li" and claim: "claim_frame li view renewal"
    and fd: "decode_lines 0 file = Inr (ds, rem)" "length file < 2 ^ 64" "i0 \<le> length ds"
    and bytes: "prefix (concat chunks) (drop (unat (off_at ds i0)) file)" and c: "c < length chunks"
  shows "vio_ok li view (stream_at ds load v (reverse wk load) lv0 i0 chunks c s)
    (take_chunk wk (li_skh li) (list_mode li load v) renewal (chunks ! c) s)
    (stream_at ds load v (reverse wk load) lv0 i0 chunks (Suc c))
    (recoverable ds load v (reverse wk load) lv0 i0)"
  unfolding stream_at_def [of ds load v "reverse wk load" lv0 i0 chunks c s] take_chunk_def
proof (intro io_ok_ex io_ok_pure, elim conjE, rule io_ok_seq)
  let ?rv = "reverse wk load"
  let ?E = "recoverable ds load v ?rv lv0 i0"
  fix k dec
  assume k: "i0 \<le> k" and emitted: "push_all (take c chunks) (decoder_new (off_at ds i0))
      = (Inr (take (k - i0) (drop i0 ds)), dec)"
  show "vio_ok li view (streaming ds load v ?rv lv0 i0 dec k s) (ensure_held renewal)
      (\<lambda>_. streaming ds load v ?rv lv0 i0 dec k s) ?E"
    by (rule ensure_held_ok [OF claim streaming_recoverable])
  obtain res dec' where push: "push (chunks ! c) dec = (res, dec')" by force
  have "prefix (concat (take (Suc c) chunks)) (concat chunks)"
    by (metis append_take_drop_id concat_append prefixI)
  then have "prefix (concat (take (Suc c) chunks)) (drop (unat (off_at ds i0)) file)"
    using bytes prefix_order.trans by blast
  moreover have "push_all (take (Suc c) chunks) (decoder_new (off_at ds i0))
      = (map_sum (\<lambda>e. e) ((@) (take (k - i0) (drop i0 ds))) res, dec')"
    using c emitted push by (cases res) (simp_all add: take_Suc_conv_app_nth push_all_snoc)
  ultimately obtain k' where k': "i0 \<le> k'" "k' \<le> length ds"
      "map_sum (\<lambda>e. e) ((@) (take (k - i0) (drop i0 ds))) res = Inr (take (k' - i0) (drop i0 ds))"
    using push_all_prefix [OF fd] by blast
  then obtain new where new: "res = Inr new" "take (k - i0) (drop i0 ds) @ new = take (k' - i0) (drop i0 ds)"
    by (cases res) auto
  show "vio_ok li view (streaming ds load v ?rv lv0 i0 dec k s)
      (case push (chunks ! c) (ss_decoder s) of
         (Inl e, x) \<Rightarrow> fail e
       | (Inr decoded, dec) \<Rightarrow>
           fold_io decoded (take_line wk (li_skh li) (list_mode li load v)) (s\<lparr>ss_decoder := dec\<rparr>))
      (stream_at ds load v ?rv lv0 i0 chunks (Suc c)) ?E"
    unfolding streaming_def [of ds load v ?rv lv0 i0 dec k s]
  proof (rule io_ok_pure, elim conjE)
    assume s: "ss_decoder s = dec" "ss_checkpoint s = off_at ds k" and kl: "k \<le> length ds"
    have len: "k + length new = k'" using arg_cong [OF new(2), of length] k k' kl by simp
    have nth: "new ! n = ds ! (k + n)" if "n < length new" for n
    proof -
      have "new ! n = (take (k - i0) (drop i0 ds) @ new) ! (k - i0 + n)" using kl k by (simp add: nth_append)
      also have "\<dots> = ds ! (k + n)" unfolding new(2) using that len k k' by simp
      finally show ?thesis .
    qed
    have all: "push_all (take (Suc c) chunks) (decoder_new (off_at ds i0)) = (Inr (take (k' - i0) (drop i0 ds)), dec')"
      using c emitted push new by (simp add: take_Suc_conv_app_nth push_all_snoc)
    let ?I = "\<lambda>n s. streaming ds load v ?rv lv0 i0 dec' (k + n) s"
    have fold: "vio_ok li view (?I 0 (s\<lparr>ss_decoder := dec'\<rparr>))
        (fold_io new (take_line wk (li_skh li) (list_mode li load v)) (s\<lparr>ss_decoder := dec'\<rparr>)) (?I (length new)) ?E"
    proof (rule io_ok_fold [where I = "\<lambda>n s w. ?I n s (list_view_of li (view w))"])
      fix n s' assume n: "n < length new"
      then have "k + n < length ds" using len k'(2) by simp
      from take_line_ok [OF conf ns pre this, where s = s'] nth [OF n]
      show "vio_ok li view (?I n s') (take_line wk (li_skh li) (list_mode li load v) (new ! n) s') (?I (Suc n)) ?E"
        by simp
    qed
    show "io_ok (\<lambda>w. \<exists>i. (i0 \<le> i \<and> i \<le> k \<and> ss_batch s = segment ds i k)
            \<and> progress ds load v ?rv lv0 i (list_view_of li (view w)))
        (case push (chunks ! c) (ss_decoder s) of
           (Inl e, x) \<Rightarrow> fail e
         | (Inr decoded, dec) \<Rightarrow>
             fold_io decoded (take_line wk (li_skh li) (list_mode li load v)) (s\<lparr>ss_decoder := dec\<rparr>))
        (\<lambda>a w. stream_at ds load v ?rv lv0 i0 chunks (Suc c) a (list_view_of li (view w)))
        (\<lambda>w. ?E (list_view_of li (view w)))"
      unfolding s push new prod.case sum.case
      by (rule io_ok_cons [OF fold])
        (use s kl k' all len in \<open>auto simp: streaming_def stream_at_def\<close>)
  qed
qed

lemma stream_at_start:
  "progress ds load v rv lv0 i0 lv \<Longrightarrow>
     stream_at ds load v rv lv0 i0 chunks 0
       \<lparr>ss_decoder = decoder_new (off_at ds i0), ss_batch = [], ss_checkpoint = off_at ds i0,
        ss_lines = 0, ss_first_load_batch = True\<rparr> lv"
  unfolding stream_at_def streaming_def
  by (intro exI [of _ i0] exI [of _ "decoder_new (off_at ds i0)"] conjI) (simp_all add: progress_def)

text \<open>The origin's requests do not touch the keyspace.\<close>

definition http_frame :: "list_id \<Rightarrow> ('w \<Rightarrow> keyspace) \<Rightarrow> 'w stream_sender \<Rightarrow> bool" where
  "http_frame li view send \<longleftrightarrow> (\<forall>req w. list_rely li (view w) (view (snd (send req w))))"

lemma download_file_ok:
  assumes "http_frame li view send" and "honest_origin send p url file" and "length file < 2 ^ 64"
    and "\<And>lv. P lv \<Longrightarrow> E lv"
  shows "vio_ok li view P (download_file send p url start fs)
    (\<lambda>(chunks, err) lv. prefix (concat chunks) (drop (unat start) file) \<and> P lv) E"
proof (rule io_okI)
  fix w assume P: "P (list_view_of li (view w))"
  define R where "R = (\<lambda>a b. list_view_of li (view b) = list_view_of li (view a))"
  obtain res w' where d: "download_file send p url start fs w = Some (res, w')" "R w w'"
      "\<forall>chunks err. res = Inr (chunks, err) \<longrightarrow> prefix (concat chunks) (drop (unat start) file)"
    using download_file_bytes [OF assms(2,3), of R start fs w] assms(1)
    by (auto simp: R_def http_frame_def list_rely_def)
  then show "\<exists>res w'. download_file send p url start fs w = Some (res, w')
      \<and> (case res of
           Inl _ \<Rightarrow> E (list_view_of li (view w'))
         | Inr a \<Rightarrow> (case a of (chunks, err) \<Rightarrow> \<lambda>lv. prefix (concat chunks) (drop (unat start) file) \<and> P lv)
                     (list_view_of li (view w')))"
    using P assms(4) by (cases res) (auto simp: R_def)
qed

lemma apply_file_stream_ok:
  assumes conf: "redis_conforms sc (list_rely li) (wk_pool wk) view" and ns: "namespace_ok (li_skh li)"
    and pre: "wk_key_prefix wk = li_prefix li" and claim: "claim_frame li view renewal"
    and http: "http_frame li view (wk_http wk)" and org: "honest_origin (wk_http wk) (wk_parse_url wk) url file"
    and fd: "decode_lines 0 file = Inr (ds, rem)" "length file < 2 ^ 64"
  shows "vio_ok li view (progress ds load v (reverse wk load) lv0 i0)
    (apply_file_stream wk (li_skh li) url (off_at ds i0) file_size (list_mode li load v) renewal)
    (\<lambda>r lv. \<exists>k\<ge>i0. sa_checkpoint r = off_at ds k \<and> progress ds load v (reverse wk load) lv0 k lv
       \<and> (i0 < k \<longrightarrow> counted load v lv))
    (recoverable ds load v (reverse wk load) lv0 i0)"
  unfolding apply_file_stream_def
proof (intro io_ok_bind)
  let ?rv = "reverse wk load"
  let ?P = "progress ds load v ?rv lv0 i0" and ?E = "recoverable ds load v ?rv lv0 i0"
  show "vio_ok li view ?P (download_file (wk_http wk) (wk_parse_url wk) url (off_at ds i0) file_size)
      (\<lambda>(chunks, err) lv. prefix (concat chunks) (drop (unat (off_at ds i0)) file) \<and> ?P lv) ?E"
    by (rule download_file_ok [OF http org fd(2)]) (auto simp: recoverable_def)
  fix dl :: "string list \<times> WorkerError option"
  obtain chunks err where dl: "dl = (chunks, err)" by force
  let ?s0 = "\<lparr>ss_decoder = decoder_new (off_at ds i0), ss_batch = [], ss_checkpoint = off_at ds i0,
    ss_lines = 0, ss_first_load_batch = True\<rparr>"
  let ?last = "\<lambda>s. seq (case err of None \<Rightarrow> ret () | Some e \<Rightarrow> seq (ensure_held renewal) (fail e))
      (seq (when_io (off_at ds i0 < ss_checkpoint s)
              (apply_file_batch wk (li_skh li) (list_mode li load v) (ss_batch s) (ss_checkpoint s) (ss_first_load_batch s)))
           (ret \<lparr>sa_lines = ss_lines s, sa_checkpoint = ss_checkpoint s,
                 sa_partial_trailing_line = has_partial_line (ss_decoder s)\<rparr>))"
  let ?Q = "\<lambda>r lv. \<exists>k\<ge>i0. sa_checkpoint r = off_at ds k \<and> progress ds load v ?rv lv0 k lv \<and> (i0 < k \<longrightarrow> counted load v lv)"
  have "vio_ok li view (\<lambda>lv. prefix (concat chunks) (drop (unat (off_at ds i0)) file) \<and> ?P lv)
      (bind (fold_io chunks (take_chunk wk (li_skh li) (list_mode li load v) renewal) ?s0) ?last) ?Q ?E"
  proof (rule io_ok_pure, rule io_ok_bind)
    assume bytes: "prefix (concat chunks) (drop (unat (off_at ds i0)) file)"
    show "vio_ok li view ?P (fold_io chunks (take_chunk wk (li_skh li) (list_mode li load v) renewal) ?s0)
        (\<lambda>s lv. \<exists>k dec. streaming ds load v ?rv lv0 i0 dec k s lv) ?E"
    proof (cases "i0 \<le> length ds")
      case True
      have "vio_ok li view (stream_at ds load v ?rv lv0 i0 chunks 0 ?s0)
          (fold_io chunks (take_chunk wk (li_skh li) (list_mode li load v) renewal) ?s0)
          (stream_at ds load v ?rv lv0 i0 chunks (length chunks)) ?E"
        using take_chunk_ok [OF conf ns pre claim fd True bytes]
        by (intro io_ok_fold [where I = "\<lambda>c s w. stream_at ds load v ?rv lv0 i0 chunks c s (list_view_of li (view w))"])
      then show ?thesis
        by (rule io_ok_cons) (auto simp: stream_at_start, auto simp: stream_at_def)
    qed (simp add: io_ok_def progress_def)
    show "vio_ok li view (\<lambda>lv. \<exists>k dec. streaming ds load v ?rv lv0 i0 dec k s lv) (?last s) ?Q ?E" for s
    proof (intro io_ok_ex io_ok_seq)
      fix k dec
      let ?S = "streaming ds load v ?rv lv0 i0 dec k s"
      show "vio_ok li view ?S (case err of None \<Rightarrow> ret () | Some e \<Rightarrow> seq (ensure_held renewal) (fail e)) (\<lambda>_. ?S) ?E"
        by (cases err)
          (auto intro!: io_ok_ret io_ok_seq io_ok_fail ensure_held_ok [OF claim] dest: streaming_recoverable)
      let ?D = "\<lambda>lv. ss_checkpoint s = off_at ds k \<and> i0 \<le> k \<and> progress ds load v ?rv lv0 k lv \<and> (i0 < k \<longrightarrow> counted load v lv)"
      show "vio_ok li view ?S
          (when_io (off_at ds i0 < ss_checkpoint s)
             (apply_file_batch wk (li_skh li) (list_mode li load v) (ss_batch s) (ss_checkpoint s) (ss_first_load_batch s)))
          (\<lambda>_. ?D) ?E"
        unfolding streaming_def
      proof (intro io_ok_pure io_ok_ex, elim conjE)
        fix i
        assume s: "ss_checkpoint s = off_at ds k" "k \<le> length ds"
          and i: "i0 \<le> i" "i \<le> k" "ss_batch s = segment ds i k"
        show "vio_ok li view (progress ds load v ?rv lv0 i)
          (when_io (off_at ds i0 < ss_checkpoint s)
             (apply_file_batch wk (li_skh li) (list_mode li load v) (ss_batch s) (ss_checkpoint s) (ss_first_load_batch s)))
          (\<lambda>_. ?D) ?E"
        proof (rule io_ok_when)
          show "vio_ok li view (progress ds load v ?rv lv0 i)
              (apply_file_batch wk (li_skh li) (list_mode li load v) (ss_batch s) (ss_checkpoint s) (ss_first_load_batch s))
              (\<lambda>_. ?D) ?E"
            unfolding s i(3)
            by (rule io_ok_cons [OF apply_file_batch_ok [OF conf ns pre i(2) s(2)]])
              (use i in \<open>auto simp: recoverable_def intro: order.trans\<close>)
          show "?D (list_view_of li (view w))"
            if "\<not> off_at ds i0 < ss_checkpoint s" "progress ds load v ?rv lv0 i (list_view_of li (view w))" for w
          proof -
            have "\<not> i0 < k" using that(1) s off_at_less [OF fd, of i0 k] by auto
            then have "i = k" using i by simp
            then have "progress ds load v ?rv lv0 k (list_view_of li (view w))" using that(2) by blast
            then show ?thesis using i s \<open>\<not> i0 < k\<close> by simp
          qed
        qed
      qed
      show "vio_ok li view ?D (ret \<lparr>sa_lines = ss_lines s, sa_checkpoint = ss_checkpoint s,
                 sa_partial_trailing_line = has_partial_line (ss_decoder s)\<rparr>) ?Q ?E"
        by (rule io_ok_ret) auto
    qed
  qed
  then show "io_ok
      (\<lambda>w. (case dl of (chunks, err) \<Rightarrow> \<lambda>lv. prefix (concat chunks) (drop (unat (off_at ds i0)) file) \<and> ?P lv)
             (list_view_of li (view w)))
      (case dl of (chunks, err) \<Rightarrow>
         bind (fold_io chunks (take_chunk wk (li_skh li) (list_mode li load v) renewal) ?s0)
           (\<lambda>s. seq (case err of None \<Rightarrow> ret () | Some e \<Rightarrow> seq (ensure_held renewal) (fail e))
             (seq (when_io (off_at ds i0 < ss_checkpoint s)
                (apply_file_batch wk (li_skh li) (list_mode li load v) (ss_batch s) (ss_checkpoint s) (ss_first_load_batch s)))
              (ret \<lparr>sa_lines = ss_lines s, sa_checkpoint = ss_checkpoint s,
                 sa_partial_trailing_line = has_partial_line (ss_decoder s)\<rparr>))))
      (\<lambda>r w. ?Q r (list_view_of li (view w))) (\<lambda>w. ?E (list_view_of li (view w)))"
    by (simp add: dl)
qed

section \<open>A delta\<close>

lemma token_known:
  assumes conf: "redis_conforms sc (list_rely li) (wk_pool wk) view" and ns: "namespace_ok (li_skh li)"
    and pre: "wk_key_prefix wk = li_prefix li"
    and known: "\<And>lv. P lv \<Longrightarrow> lv_name lv = Some (Some (show_u64 (li_token li)))" and "\<And>lv. P lv \<Longrightarrow> E lv"
  shows "vio_ok li view P (dict_get_or_allocate_token wk (li_skh li) (li_list li))
    (\<lambda>t lv. t = li_token li \<and> P lv) E"
  unfolding dict_get_or_allocate_token_def pre
proof (rule io_ok_bind)
  let ?k = "dict_key (li_prefix li) (li_skh li)"
  show "vio_ok li view P (command (wk_pool wk) (EVAL (alloc_token_eval ?k (li_list li))))
      (\<lambda>r lv. r = RBulk (show_u64 (li_token li)) \<and> P lv) E"
  proof (rule view_call_ok [OF conf])
    fix ks r ks'
    assume P: "P (list_view_of li ks)" and "call (EVAL (alloc_token_eval ?k (li_list li))) ks = (Inr r, ks')"
    then have run: "alloc_token_eval ?k (li_list li) ks = (Inr r, ks')" by simp
    obtain h where h: "hash_at ks ?k = Some h" "h (name_field (li_list li)) = Some (show_u64 (li_token li))"
      using known [OF P] by (auto simp: list_view_of_def)
    then have r: "r = RBulk (show_u64 (li_token li))" "ks' = put_hash ?k h ks"
      using run by (auto simp: alloc_token_eval_def alloc_token_script_def)
    have "list_view_of li ks' = list_view_of li ks"
      unfolding r(2) using ns h(1)
      by (intro list_view_eqI ext) (auto simp: list_view_of_def key_simps list_keys)
    then show "(r = RBulk (show_u64 (li_token li)) \<and> P (list_view_of li ks')) \<and> E (list_view_of li ks')"
      using P r(1) assms(5) by simp
  qed (use assms(5) in simp_all)
  show "vio_ok li view (\<lambda>lv. r = RBulk (show_u64 (li_token li)) \<and> P lv)
      (case r of RBulk s \<Rightarrow> token_of_text s | _ \<Rightarrow> fail reply_error) (\<lambda>t lv. t = li_token li \<and> P lv) E" for r
    by (auto simp: io_ok_def token_of_text_def parse_u64_show_u64 ret_def)
qed

text \<open>After the repair, the current version has no time to live.\<close>

lemma persisted_ok:
  assumes conf: "redis_conforms sc (list_rely li) (wk_pool wk) view" and ns: "namespace_ok (li_skh li)"
    and pre: "wk_key_prefix wk = li_prefix li"
    and ttl: "\<And>lv t. P lv \<Longrightarrow> P (lv\<lparr>lv_ttl := t\<rparr>)" and "\<And>lv. P lv \<Longrightarrow> E lv"
  shows "vio_ok li view P (ensure_current_version_persisted wk (li_skh li) (li_list li) st)
    (\<lambda>_ lv. P lv \<and> (ls_version st \<noteq> [] \<longrightarrow> lv_ttl lv (ls_version st) = None)) E"
  unfolding ensure_current_version_persisted_def pre Let_def
proof (rule io_ok_if)
  let ?v = "ls_version st"
  let ?k = "fwd_key (li_prefix li) (li_skh li) (li_list li) ?v"
  let ?Q = "\<lambda>_ lv. P lv \<and> (?v \<noteq> [] \<longrightarrow> lv_ttl lv ?v = None)"
  let ?R = "\<lambda>ttl lv. P lv \<and> (ttl < 0 \<longrightarrow> lv_ttl lv ?v = None)"
  show "vio_ok li view P (ret False) ?Q E" if "?v = []"
    by (rule io_ok_ret) (simp add: that)
  show "vio_ok li view P
      (bind (redis_op (bind (command (wk_pool wk) (TTL ?k)) as_int))
         (\<lambda>ttl. if ttl < 0 then ret False else redis_op (bind (command (wk_pool wk) (PERSIST ?k)) as_bool))) ?Q E"
    if "?v \<noteq> []"
  proof (rule io_ok_bind)
    show "vio_ok li view P (redis_op (bind (command (wk_pool wk) (TTL ?k)) as_int)) ?R E"
    proof (intro redis_op_ok io_ok_bind)
      show "vio_ok li view P (command (wk_pool wk) (TTL ?k))
          (\<lambda>r lv. P lv \<and> (\<exists>t. r = RInt t \<and> (t < 0 \<longrightarrow> lv_ttl lv ?v = None))) E"
        by (rule view_call_ok [OF conf])
          (use assms(5) in \<open>auto simp: list_view_of_def ttl_at_def split: option.splits\<close>)
      show "vio_ok li view (\<lambda>lv. P lv \<and> (\<exists>t. r = RInt t \<and> (t < 0 \<longrightarrow> lv_ttl lv ?v = None))) (as_int r) ?R E" for r
        by (auto simp: io_ok_def as_int_def ret_def)
    qed
    show "vio_ok li view (?R ttl) (if ttl < 0 then ret False
        else redis_op (bind (command (wk_pool wk) (PERSIST ?k)) as_bool)) ?Q E" for ttl
    proof (rule io_ok_if)
      show "vio_ok li view (?R ttl) (redis_op (bind (command (wk_pool wk) (PERSIST ?k)) as_bool)) ?Q E"
      proof (intro redis_op_ok io_ok_bind)
        show "vio_ok li view (?R ttl) (command (wk_pool wk) (PERSIST ?k)) (\<lambda>_ lv. P lv \<and> lv_ttl lv ?v = None) E"
        proof (rule view_call_ok [OF conf])
          fix ks r ks' assume P: "?R ttl (list_view_of li ks)" and c: "call (PERSIST ?k) ks = (Inr r, ks')"
          have sets: "set_at ks' k = set_at ks k" "hash_at ks' k = hash_at ks k" for k
            using c by (auto simp: upd_ttl split: option.splits)
          have "list_view_of li ks' = (list_view_of li ks)\<lparr>lv_ttl := lv_ttl (list_view_of li ks')\<rparr>"
            by (intro list_view_eqI ext) (simp_all add: list_view_of_def sets)
          then have "P (list_view_of li ks')" using ttl P by metis
          moreover have "lv_ttl (list_view_of li ks') ?v = None"
            using c by (auto simp: list_view_of_def ttl_at_def split: option.splits)
          ultimately show "(P (list_view_of li ks') \<and> lv_ttl (list_view_of li ks') ?v = None) \<and> E (list_view_of li ks')"
            using assms(5) by blast
        qed (use assms(5) in simp_all)
        show "vio_ok li view (\<lambda>lv. P lv \<and> lv_ttl lv ?v = None) (as_bool r) ?Q E" for r
          by (rule reader_ok) (use assms(5) reader_pure(1) in auto)
      qed
    qed (auto intro!: io_ok_ret)
  qed
qed

text \<open>
  The state of a list on which a delta can run: its token is in the dictionary, its state is \<open>st\<close>,
  and the checkpoint in \<open>st\<close> is one up to which the file is applied.
\<close>

definition delta_ready ::
  "list_id \<Rightarrow> DecodedLine list \<Rightarrow> bool \<Rightarrow> ListSyncState \<Rightarrow> list_view \<Rightarrow> bool" where
  "delta_ready li ds rv st lv \<longleftrightarrow>
     lv_name lv = Some (Some (show_u64 (li_token li)))
     \<and> (\<exists>h. lv_state lv = Some h \<and> from_hash_fields h = st)
     \<and> (\<exists>i \<le> length ds. ls_size st = off_at ds i \<and> applied ds (ls_version st) rv i lv)"

text \<open>The state of a list that has exactly the members of the file.\<close>

definition delta_complete ::
  "list_id \<Rightarrow> DecodedLine list \<Rightarrow> bool \<Rightarrow> ListSyncState \<Rightarrow> list_view \<Rightarrow> bool" where
  "delta_complete li ds rv st lv \<longleftrightarrow>
     (\<exists>h. lv_state lv = Some h \<and> from_hash_fields h = st)
     \<and> lv_fwd lv (ls_version st) = Some (contents ds (length ds))
     \<and> lv_ttl lv (ls_version st) = None
     \<and> (rv \<longrightarrow> rev_members lv = contents ds (length ds))
     \<and> ls_size st = off_at ds (length ds)
     \<and> map_option unat (ls_cardinality st) = Some (card (contents ds (length ds)))"

definition advanced :: "ListSyncState \<Rightarrow> ListSyncState \<Rightarrow> bool" where
  "advanced st st' \<longleftrightarrow>
     (\<exists>sz c. st' = st\<lparr>ls_size := sz, ls_cardinality := c\<rparr>) \<and> ls_size st \<le> ls_size st'"

lemma advanced_refl: "advanced st st"
proof -
  have "st = st\<lparr>ls_size := ls_size st, ls_cardinality := ls_cardinality st\<rparr>" by simp
  then show ?thesis unfolding advanced_def by blast
qed

lemma from_hash_rest:
  assumes "\<forall>f. f \<noteq> size_field False \<longrightarrow> f \<noteq> cardinality_field False \<longrightarrow> h f = h0 f"
  shows "from_hash_fields h = (from_hash_fields h0)
    \<lparr>ls_size := unwrap_or 0 (Option.bind (h ''size'') parse_u64),
     ls_cardinality := Option.bind (h ''cardinality'') parse_u64\<rparr>"
  using assms by (simp add: from_hash_fields_def size_field_def cardinality_field_def)

lemma progress_state:
  assumes "progress ds False v rv lv0 k lv" and "lv_state lv0 = Some h0" and "from_hash_fields h0 = st"
    and "ls_size st = off_at ds i" and "i \<le> k"
    and fd: "decode_lines 0 file = Inr (ds, rem)" "length file < 2 ^ 64"
  obtains h where "lv_state lv = Some h" "advanced st (from_hash_fields h)"
    "ls_size (from_hash_fields h) = off_at ds k" "ls_version (from_hash_fields h) = ls_version st"
proof -
  obtain h where h: "lv_state lv = Some h"
      "\<forall>f. f \<noteq> size_field False \<longrightarrow> f \<noteq> cardinality_field False \<longrightarrow> h f = h0 f"
    using assms(1,2) by (auto simp: progress_def rest_same_def)
  have eq: "from_hash_fields h = st\<lparr>ls_size := off_at ds k, ls_cardinality := Option.bind (h ''cardinality'') parse_u64\<rparr>"
    using from_hash_rest [OF h(2)] assms(1,3) h(1) by (simp add: progress_def saved_def size_field_def)
  have "k \<le> length ds" using assms(1) by (simp add: progress_def)
  then have "off_at ds i \<le> off_at ds k"
    using off_at_less [OF fd, of i k] assms(5) by (cases "i = k") auto
  then show ?thesis using that h(1) eq assms(4) by (auto simp: advanced_def)
qed

lemma apply_delta_ok:
  assumes conf: "redis_conforms sc (list_rely li) (wk_pool wk) view" and ns: "namespace_ok (li_skh li)"
    and pre: "wk_key_prefix wk = li_prefix li" and claim: "claim_frame li view renewal"
    and http: "http_frame li view (wk_http wk)"
    and org: "honest_origin (wk_http wk) (wk_parse_url wk) (tm_url meta) file"
    and fd: "decode_lines 0 file = Inr (ds, rem)" "length file < 2 ^ 64" and sz: "length file \<le> unat (tm_size meta)"
    and st: "ls_version st \<noteq> []" "ls_size st < tm_size meta"
  defines "rv \<equiv> wc_enable_reverse_index (wk_config wk)"
  shows "vio_ok li view (delta_ready li ds rv st) (apply_delta wk (li_skh li) (li_list li) st meta renewal)
    (\<lambda>_ lv. \<exists>st'. advanced st st' \<and> delta_complete li ds rv st' lv)
    (\<lambda>lv. \<exists>st'. advanced st st' \<and> delta_ready li ds rv st' lv)"
proof -
  let ?v = "ls_version st"
  let ?P = "delta_ready li ds rv st"
  let ?E = "\<lambda>lv. \<exists>st'. advanced st st' \<and> delta_ready li ds rv st' lv"
  let ?Q = "\<lambda>_ lv. \<exists>st'. advanced st st' \<and> delta_complete li ds rv st' lv"
  have rv: "reverse wk False = rv" by (simp add: reverse_def rv_def)
  have PE: "?E lv" if "?P lv" for lv
    using that advanced_refl by blast
  define start where "start = (\<lambda>i (lv0 :: list_view). lv_name lv0 = Some (Some (show_u64 (li_token li)))
      \<and> (\<exists>h0. lv_state lv0 = Some h0 \<and> from_hash_fields h0 = st) \<and> ls_size st = off_at ds i
      \<and> lv_ttl lv0 ?v = None)"
  have run: "vio_ok li view (progress ds False ?v rv lv0 i)
      (bind (apply_file_stream wk (li_skh li) (tm_url meta) (ls_size st) (tm_size meta) (list_mode li False ?v) renewal)
         (\<lambda>applied. if sa_checkpoint applied < tm_size meta
            then fail (InvalidFile (short_download ''download'' applied (tm_size meta))) else ret ())) ?Q ?E"
    if s: "start i lv0" for lv0 i
  proof (rule io_ok_bind)
    obtain h0 where h0: "lv_state lv0 = Some h0" "from_hash_fields h0 = st" and off: "ls_size st = off_at ds i"
      using s by (auto simp: start_def)
    let ?R = "\<lambda>r lv. \<exists>k\<ge>i. sa_checkpoint r = off_at ds k \<and> progress ds False ?v rv lv0 k lv \<and> (i < k \<longrightarrow> counted False ?v lv)"
    have E: "?E lv" if p: "progress ds False ?v rv lv0 k lv" "i \<le> k" for k lv
    proof -
      obtain h where "lv_state lv = Some h" "advanced st (from_hash_fields h)"
          "ls_size (from_hash_fields h) = off_at ds k" "ls_version (from_hash_fields h) = ?v"
        using progress_state [OF p(1) h0 off p(2) fd] by blast
      then show ?thesis
        using p(1) s by (auto simp: delta_ready_def progress_def rest_same_def start_def)
    qed
    show "vio_ok li view (progress ds False ?v rv lv0 i)
        (apply_file_stream wk (li_skh li) (tm_url meta) (ls_size st) (tm_size meta) (list_mode li False ?v) renewal) ?R ?E"
      unfolding off
      by (rule io_ok_cons [OF apply_file_stream_ok [OF conf ns pre claim http org fd, where load = False, unfolded rv]])
        (use E in \<open>auto simp: recoverable_def\<close>)
    have fin: "?Q () lv" if k: "i \<le> k" "sa_checkpoint r = off_at ds k" "progress ds False ?v rv lv0 k lv"
        "i < k \<longrightarrow> counted False ?v lv" "\<not> sa_checkpoint r < tm_size meta" for k r lv
    proof -
      obtain h where h: "lv_state lv = Some h" "advanced st (from_hash_fields h)"
          "ls_size (from_hash_fields h) = off_at ds k" "ls_version (from_hash_fields h) = ?v"
        using progress_state [OF k(3) h0 off k(1) fd] by blast
      have le: "k \<le> length ds" using k(3) by (simp add: progress_def)
      have "unat (off_at ds (length ds)) \<le> unat (off_at ds k)"
        using off_at_bound [OF fd, of "length ds"] sz k(2,5) by (simp add: word_less_nat_alt)
      then have "\<not> k < length ds"
        using off_at_less [OF fd, of k "length ds"] by (auto simp: word_less_nat_alt)
      then have kd: "k = length ds" using le by simp
      have "i < k" using k(1,2,5) st(2) off by (cases "i = k") auto
      then obtain h' F n where F: "lv_state lv = Some h'" "lv_fwd lv ?v = Some F"
          "h' ''cardinality'' = Some (show_u64 n)" "unat n = card F"
        using k(4) by (auto simp: counted_def cardinality_field_def)
      have FF: "F = contents ds (length ds)" "rv \<Longrightarrow> rev_members lv = contents ds (length ds)"
        using k(3) F(2) kd by (auto simp: progress_def applied_def)
      have "lv_ttl lv ?v = None" using k(3) s by (simp add: progress_def rest_same_def start_def)
      moreover have "ls_cardinality (from_hash_fields h) = Some n"
        using F h(1) by (simp add: from_hash_fields_def parse_u64_show_u64)
      ultimately have "delta_complete li ds rv (from_hash_fields h) lv"
        using h F FF kd by (simp add: delta_complete_def)
      then show ?thesis using h(2) by blast
    qed
    show "vio_ok li view (?R r) (if sa_checkpoint r < tm_size meta
        then fail (InvalidFile (short_download ''download'' r (tm_size meta))) else ret ()) ?Q ?E" for r
      by (rule io_ok_if) (use E fin in \<open>blast intro!: io_ok_fail io_ok_ret\<close>)+
  qed
  show ?thesis
    unfolding apply_delta_def
  proof (intro io_ok_if io_ok_seq)
    show "vio_ok li view ?P (fail (InvalidTask ''delta file_id does not match state'')) ?Q ?E"
      by (rule io_ok_fail) (rule PE)
    show "vio_ok li view ?P (ensure_current_version_persisted wk (li_skh li) (li_list li) st)
        (\<lambda>_ lv. ?P lv \<and> lv_ttl lv ?v = None) ?E"
      by (rule io_ok_cons [OF persisted_ok [OF conf ns pre, where P = ?P and E = ?E]])
        (use PE st in \<open>auto simp: delta_ready_def applied_def rev_typed_def rev_members_def\<close>)
    have ex: "\<exists>i. start i lv \<and> progress ds False ?v rv lv i lv" if "?P lv \<and> lv_ttl lv ?v = None" for lv
      using that by (auto simp: delta_ready_def start_def progress_def saved_def rest_same_def size_field_def
          from_hash_fields_def)
    show "vio_ok li view (\<lambda>lv. ?P lv \<and> lv_ttl lv ?v = None)
       (bind (redis_op (dict_get_or_allocate_token wk (li_skh li) (li_list li))) (\<lambda>token.
        bind (apply_file_stream wk (li_skh li) (tm_url meta) (ls_size st) (tm_size meta)
                (DeltaMode token (fwd_key (wk_key_prefix wk) (li_skh li) (li_list li) ?v)
                   (state_key (wk_key_prefix wk) (li_skh li) (li_list li))) renewal) (\<lambda>applied.
        if sa_checkpoint applied < tm_size meta
        then fail (InvalidFile (short_download ''download'' applied (tm_size meta))) else ret ()))) ?Q ?E"
    proof (rule io_ok_bind)
      show "vio_ok li view (\<lambda>lv. ?P lv \<and> lv_ttl lv ?v = None)
          (redis_op (dict_get_or_allocate_token wk (li_skh li) (li_list li)))
          (\<lambda>t lv. t = li_token li \<and> (\<exists>lv0 i. start i lv0 \<and> progress ds False ?v rv lv0 i lv)) ?E"
        by (rule redis_op_ok, rule io_ok_cons [OF token_known [OF conf ns pre, where P = "\<lambda>lv. ?P lv \<and> lv_ttl lv ?v = None" and E = ?E]])
          (use PE ex in \<open>auto simp: delta_ready_def, blast\<close>)
      show "vio_ok li view (\<lambda>lv. token = li_token li \<and> (\<exists>lv0 i. start i lv0 \<and> progress ds False ?v rv lv0 i lv))
          (bind (apply_file_stream wk (li_skh li) (tm_url meta) (ls_size st) (tm_size meta)
                (DeltaMode token (fwd_key (wk_key_prefix wk) (li_skh li) (li_list li) ?v)
                   (state_key (wk_key_prefix wk) (li_skh li) (li_list li))) renewal) (\<lambda>applied.
           if sa_checkpoint applied < tm_size meta
           then fail (InvalidFile (short_download ''download'' applied (tm_size meta))) else ret ())) ?Q ?E" for token
        using run by (intro io_ok_pure io_ok_ex) (simp add: pre list_mode_def)
    qed
  qed
qed

text \<open>
  C17: applying a delta is safe at every crash point. While other clients leave this list alone, an
  attempt always returns. If it fails, at whatever request and with whatever part of that request
  run, the list is in a state from which a new attempt can start, with a checkpoint that has not
  gone back. If it succeeds, the forward set has exactly the members that the file says after its
  last line, without a time to live, the reverse index has the list's token for exactly these
  members, and size and cardinality in the state are those of the file and of the set.
\<close>

theorem delta_crash_safe:
  assumes "redis_conforms sc (list_rely li) (wk_pool wk) view" and "namespace_ok (li_skh li)"
    and "wk_key_prefix wk = li_prefix li" and "claim_frame li view renewal"
    and "http_frame li view (wk_http wk)"
    and "honest_origin (wk_http wk) (wk_parse_url wk) (tm_url meta) file"
    and "decode_lines 0 file = Inr (ds, rem)" and "length file < 2 ^ 64" and "length file \<le> unat (tm_size meta)"
    and "ls_version st \<noteq> []" and "ls_size st < tm_size meta"
    and "delta_ready li ds (wc_enable_reverse_index (wk_config wk)) st (list_view_of li (view w))"
  shows "\<exists>res w'. apply_delta wk (li_skh li) (li_list li) st meta renewal w = Some (res, w')
    \<and> (case res of
         Inl _ \<Rightarrow> \<exists>st'. advanced st st'
           \<and> delta_ready li ds (wc_enable_reverse_index (wk_config wk)) st' (list_view_of li (view w'))
       | Inr _ \<Rightarrow> \<exists>st'. advanced st st'
           \<and> delta_complete li ds (wc_enable_reverse_index (wk_config wk)) st' (list_view_of li (view w')))"
  using apply_delta_ok [OF assms(1-11)] assms(12) unfolding io_ok_def by blast

subsection \<open>A list on a local service\<close>

definition sample_li :: list_id where
  "sample_li = \<lparr>li_prefix = [], li_skh = ''abcd'', li_list = ''l'', li_token = 1\<rparr>"

definition sample_state_hash :: redis_hash where
  "sample_state_hash = [''version'' \<mapsto> ''v'', ''file_id'' \<mapsto> ''f'', ''size'' \<mapsto> show_u64 0]"

definition sample_keyspace :: keyspace where
  "sample_keyspace =
     [state_key [] ''abcd'' ''l'' \<mapsto> \<lparr>re_value = VHash sample_state_hash, re_ttl = None\<rparr>,
      dict_key [] ''abcd'' \<mapsto> \<lparr>re_value = VHash [name_field ''l'' \<mapsto> show_u64 1], re_ttl = None\<rparr>]"

text \<open>An origin that answers every request with the whole file.\<close>

definition plain_url :: DownloadUrl where
  "plain_url = \<lparr>du_host = Some ''files'', du_base = ''https://files/f'', du_query = None, du_pairs = []\<rparr>"

definition plain_origin :: "string \<Rightarrow> 'n stream_sender" where
  "plain_origin file req n =
     (Inr \<lparr>sr_status = 200, sr_header = (\<lambda>_. None), sr_content_length = None, sr_body = [Inr file]\<rparr>, n)"

lemma plain_origin_honest: "honest_origin (plain_origin file) p url file"
  by (simp add: honest_origin_def plain_origin_def)

definition sample_worker :: "string \<Rightarrow> (keyspace \<times> unit) IdListSyncWorker" where
  "sample_worker file =
     \<lparr>wk_key_prefix = [], wk_claim = \<lparr>lk_pool = local_exec, lk_holder_id = ''h''\<rparr>, wk_pool = local_exec,
      wk_http = plain_origin file, wk_parse_url = (\<lambda>_. Some plain_url), wk_sha256 = (\<lambda>s. s),
      wk_config = worker_config_default\<rparr>"

definition sample_renewal :: "(keyspace \<times> unit) ClaimRenewal" where
  "sample_renewal =
     \<lparr>cr_lock = \<lparr>lk_pool = local_exec, lk_holder_id = ''h''\<rparr>, cr_key = claim_key [] ''abcd'' ''l'',
      cr_ttl_s = 60, cr_lost = (\<lambda>w. (False, w)), cr_set_lost = (\<lambda>w. w)\<rparr>"

definition sample_task :: TaskMetadata where
  "sample_task = \<lparr>tm_op = TaskOp_Load, tm_file_id = ''f'', tm_creation_time = 7, tm_url = ''u'', tm_size = 3\<rparr>"

abbreviation sample_change_line :: string where
  "sample_change_line \<equiv> ''+a'' @ [newline]"

lemma sample_decoded:
  "decode_lines 0 sample_change_line =
     Inr ([\<lparr>dl_change = Some \<lparr>fc_add = True, fc_member = ''a''\<rparr>, dl_end_offset = 3\<rparr>], [])"
  by (simp add: decode_lines.simps decode_eval)

lemma sample_namespace: "namespace_ok ''abcd''"
  by (simp add: namespace_ok_def)

lemmas local_eval = io_eval redis_op_def local_command local_step_call pipe_def local_exec_def bool_reply_def
  reader_defs on_set_def put_set_def put_value_def on_hash_def put_hash_def string_at_def set_at_def hash_at_def
  ttl_at_def local_step_def page_of_def

lemmas worker_eval = sample_worker_def worker_config_default_def sample_renewal_def key_exists_def hset_def
  renew_now_def ensure_held_def renew_def renew_script_def

lemma sample_conforms: "redis_conforms local_scans (list_rely li) local_exec fst"
  by (simp add: conforms_alone [OF local_conforms] list_rely_def)

lemma sample_ready:
  "delta_ready sample_li ds True (from_hash_fields sample_state_hash) (list_view_of sample_li sample_keyspace)"
proof -
  let ?ks = sample_keyspace
  have ns: "namespace_ok ''abcd''" by (simp add: namespace_ok_def)
  note keys = list_keys [OF ns]
  have "\<forall>m. set_at ?ks (member_key [] ''abcd'' m) = Some {}" "\<forall>v. set_at ?ks (fwd_key [] ''abcd'' ''l'' v) = Some {}"
    "hash_at ?ks (state_key [] ''abcd'' ''l'') = Some sample_state_hash"
    "hash_at ?ks (dict_key [] ''abcd'') = Some [name_field ''l'' \<mapsto> show_u64 1]"
    by (simp_all add: sample_keyspace_def set_at_def hash_at_def keys)
  then show ?thesis
    by (auto simp: delta_ready_def list_view_of_def sample_li_def applied_def rev_typed_def rev_members_def
        contents_def off_at_def from_hash_fields_def sample_state_hash_def unwrap_or_def parse_u64_show_u64
        intro!: exI [of _ 0])
qed

lemmas delta_eval = apply_delta_def ensure_current_version_persisted_def dict_get_or_allocate_token_def
  alloc_token_eval_def alloc_token_script_def token_of_text_def apply_file_stream_def download_file_def
  build_download_request_def plain_url_def is_cdn_def plain_origin_def is_success_def check_encoding_def
  take_chunk_def take_line_def read_line_def clear_batch_def push_def decoder_new_def push_loop.simps decode_eval
  apply_file_batch_def delta_commands_def member_cmd_def scard_def has_partial_line_def

lemma sample_delta_runs:
  "\<exists>w'. apply_delta (sample_worker sample_change_line) ''abcd'' ''l''
       (from_hash_fields sample_state_hash) sample_task sample_renewal (sample_keyspace, ()) = Some (Inr (), w')"
  by (simp add: delta_eval local_eval worker_eval from_hash_fields_def sample_state_hash_def sample_task_def
      unwrap_or_def Let_def sample_keyspace_def list_keys [OF sample_namespace] parse_u64_show_u64)

theorem delta_crash_safe_witness:
  "\<exists>w' st'. apply_delta (sample_worker sample_change_line) ''abcd'' ''l''
       (from_hash_fields sample_state_hash) sample_task sample_renewal (sample_keyspace, ()) = Some (Inr (), w')
    \<and> advanced (from_hash_fields sample_state_hash) st'
    \<and> delta_complete sample_li [\<lparr>dl_change = Some \<lparr>fc_add = True, fc_member = ''a''\<rparr>, dl_end_offset = 3\<rparr>]
        True st' (list_view_of sample_li (fst w'))"
proof -
  have conf: "redis_conforms local_scans (list_rely sample_li) (wk_pool (sample_worker sample_change_line)) fst"
    by (simp add: sample_worker_def conforms_alone [OF local_conforms] list_rely_def)
  have org: "honest_origin (wk_http (sample_worker sample_change_line))
      (wk_parse_url (sample_worker sample_change_line)) (tm_url sample_task) sample_change_line"
    using plain_origin_honest [of sample_change_line _ "tm_url sample_task"] by (simp add: sample_worker_def)
  have quiet: "claim_frame sample_li fst sample_renewal" "http_frame sample_li fst (wk_http (sample_worker sample_change_line))"
    by (simp_all add: claim_frame_def http_frame_def sample_renewal_def sample_worker_def plain_origin_def list_rely_def)
  have st: "ls_version (from_hash_fields sample_state_hash) \<noteq> []"
      "ls_size (from_hash_fields sample_state_hash) < tm_size sample_task"
    by (simp_all add: from_hash_fields_def sample_state_hash_def sample_task_def unwrap_or_def
        parse_u64_show_u64)
  have rv: "wc_enable_reverse_index (wk_config (sample_worker f)) = True" for f
    by (simp add: sample_worker_def worker_config_default_def)
  have li: "li_skh sample_li = ''abcd''" "li_list sample_li = ''l''" by (simp_all add: sample_li_def)
  have ok: "namespace_ok (li_skh sample_li)" "wk_key_prefix (sample_worker sample_change_line) = li_prefix sample_li"
    by (simp_all add: sample_li_def sample_worker_def namespace_ok_def)
  have len: "length sample_change_line < 2 ^ 64" "length sample_change_line \<le> unat (tm_size sample_task)"
    by (simp_all add: sample_task_def)
  have ready: "delta_ready sample_li [\<lparr>dl_change = Some \<lparr>fc_add = True, fc_member = ''a''\<rparr>, dl_end_offset = 3\<rparr>]
      (wc_enable_reverse_index (wk_config (sample_worker sample_change_line))) (from_hash_fields sample_state_hash)
      (list_view_of sample_li (fst (sample_keyspace, ())))"
    unfolding rv fst_conv by (rule sample_ready)
  from delta_crash_safe [OF conf ok quiet org sample_decoded len st ready] sample_delta_runs show ?thesis
    unfolding li rv by auto
qed

end
