(* ===== verification/StreamedDiff.thy ===== *)
theory StreamedDiff
  imports DeltaApply
begin

text \<open>
  Moving the reverse index from one forward set to another:
  \<open>idlist_membership/worker/streamed_diff.rs\<close>. Sets are read page by page with \<open>SSCAN\<close>, the
  difference is computed one partition of the members at a time, and a cursor in the list's state
  lets another worker resume. The theory shows that the routine terminates, that it computes the
  set difference, and that it can be resumed from every state in which it may fail.
\<close>

section \<open>Operations\<close>

definition usize_u64 :: "nat \<Rightarrow> u64" where
  "usize_u64 n = of_nat n"

text \<open>\<open>slice::chunks\<close>; the sizes are positive in every configuration that is accepted.\<close>

function chunks_of :: "nat \<Rightarrow> 'a list \<Rightarrow> 'a list list" where
  "chunks_of n xs = (if xs = [] \<or> n = 0 then [] else take n xs # chunks_of n (drop n xs))"
  by pat_completeness auto
termination by (relation "measure (\<lambda>(n, xs). length xs)") auto

declare chunks_of.simps [simp del]

definition fanout_members ::
  "'w IdListSyncWorker \<Rightarrow> string \<Rightarrow> string list \<Rightarrow> u64 \<Rightarrow> bool \<Rightarrow> ('w, WorkerError, unit) io" where
  "fanout_members wk skh members token add =
     for_each (chunks_of (wc_pipeline_batch_size (wk_config wk)) members) (\<lambda>batch.
       redis_op (seq (pipe (wk_pool wk) False
         (map (\<lambda>m. member_cmd add (member_key (wk_key_prefix wk) skh m) (show_u64 token)) batch)) (ret ())))"

definition sscan_page :: "'w IdListSyncWorker \<Rightarrow> string \<Rightarrow> u64 \<Rightarrow> ('w, WorkerError, u64 \<times> string list) io" where
  "sscan_page wk key cursor =
     redis_op (bind (command (wk_pool wk) (SSCAN key cursor (wc_scan_count (wk_config wk)))) as_page)"

definition verify_scan_key_before :: "'w IdListSyncWorker \<Rightarrow> string \<Rightarrow> u64 \<Rightarrow> ('w, WorkerError, unit) io" where
  "verify_scan_key_before wk key expected_card =
     when_io (0 < expected_card)
       (bind (key_exists wk key) (\<lambda>found.
          if found then ret () else fail (ScanVerification (key @ '' disappeared before scan''))))"

definition verify_scan_complete ::
  "'w IdListSyncWorker \<Rightarrow> string \<Rightarrow> u64 \<Rightarrow> u64 \<Rightarrow> ('w, WorkerError, unit) io" where
  "verify_scan_complete wk key expected_card scanned =
     (let failure = fail (ScanVerification (key @ '': scanned '' @ show_u64 scanned @ '', expected at least ''
            @ show_u64 expected_card))
      in if scanned < expected_card then failure
         else when_io (0 < expected_card)
                (bind (key_exists wk key) (\<lambda>found. if found then ret () else failure)))"

definition renew_every :: "'w ClaimRenewal \<Rightarrow> nat \<Rightarrow> ('w, WorkerError, unit) io" where
  "renew_every renewal pages = when_io (pages mod lock_renewal_scan_pages = 0) (renew_now renewal)"

text \<open>
  The loop over the pages of a set that the three scans share: \<open>body\<close> is what a scan does with the
  members of a page, \<open>acc\<close> what it carries along, and the result has the number of entries seen.
\<close>

partial_function (option) scan_pages ::
  "'w IdListSyncWorker \<Rightarrow> string \<Rightarrow> (string list \<Rightarrow> 'a \<Rightarrow> ('w, WorkerError, 'a) io) \<Rightarrow> 'w ClaimRenewal
     \<Rightarrow> u64 \<Rightarrow> u64 \<Rightarrow> nat \<Rightarrow> 'a \<Rightarrow> 'w \<Rightarrow> ((WorkerError + u64 \<times> 'a) \<times> 'w) option" where
  "scan_pages wk key body renewal cursor scanned pages acc w =
     bind (sscan_page wk key cursor) (\<lambda>np.
     bind (body (snd np) acc) (\<lambda>acc'.
     bind (renew_every renewal (pages + 1)) (\<lambda>_ w'.
       if fst np = 0 then ret (scanned + usize_u64 (length (snd np)), acc') w'
       else scan_pages wk key body renewal (fst np) (scanned + usize_u64 (length (snd np))) (pages + 1) acc' w'))) w"

definition scan_set ::
  "'w IdListSyncWorker \<Rightarrow> string \<Rightarrow> (string list \<Rightarrow> 'a \<Rightarrow> ('w, WorkerError, 'a) io) \<Rightarrow> 'w ClaimRenewal
     \<Rightarrow> 'a \<Rightarrow> ('w, WorkerError, u64 \<times> 'a) io" where
  "scan_set wk key body renewal acc = scan_pages wk key body renewal 0 0 0 acc"

definition fanout_scan ::
  "'w IdListSyncWorker \<Rightarrow> string \<Rightarrow> string \<Rightarrow> u64 \<Rightarrow> bool \<Rightarrow> u64 \<Rightarrow> 'w ClaimRenewal
     \<Rightarrow> ('w, WorkerError, unit) io" where
  "fanout_scan wk skh key token add expected_card renewal =
     seq (verify_scan_key_before wk key expected_card)
    (bind (scan_set wk key (\<lambda>members _. fanout_members wk skh members token add) renewal ()) (\<lambda>r.
       verify_scan_complete wk key expected_card (fst r)))"

text \<open>A hash set is its set of members.\<close>

definition scan_partition ::
  "'w IdListSyncWorker \<Rightarrow> string \<Rightarrow> u64 \<Rightarrow> u64 \<Rightarrow> u64 \<Rightarrow> 'w ClaimRenewal
     \<Rightarrow> ('w, WorkerError, string set) io" where
  "scan_partition wk key expected_card part partitions renewal =
     seq (verify_scan_key_before wk key expected_card)
    (bind (scan_set wk key (\<lambda>page members.
             ret (members \<union> {m \<in> set page. partition_for (wk_sha256 wk) m partitions = part})) renewal {}) (\<lambda>r.
       seq (verify_scan_complete wk key expected_card (fst r)) (ret (snd r))))"

record diff_acc =
  da_existing :: "string set"
  da_additions :: "string list"

text \<open>One member of the new set: drained from the old ones, or queued to be added.\<close>

definition diff_member ::
  "'w IdListSyncWorker \<Rightarrow> string \<Rightarrow> u64 \<Rightarrow> u64 \<Rightarrow> u64 \<Rightarrow> string \<Rightarrow> diff_acc \<Rightarrow> ('w, WorkerError, diff_acc) io" where
  "diff_member wk skh token part partitions m a =
     (if partition_for (wk_sha256 wk) m partitions \<noteq> part then ret a
      else if m \<in> da_existing a then ret (a\<lparr>da_existing := da_existing a - {m}\<rparr>)
      else
        let additions = da_additions a @ [m]
        in if wc_scan_count (wk_config wk) \<le> length additions
           then seq (fanout_members wk skh additions token True) (ret (a\<lparr>da_additions := []\<rparr>))
           else ret (a\<lparr>da_additions := additions\<rparr>))"

text \<open>
  The order in which a hash set is iterated is not specified: \<open>iterate\<close> is an argument that lists
  the members of a set.
\<close>

definition diff_partition ::
  "'w IdListSyncWorker \<Rightarrow> (string set \<Rightarrow> string list) \<Rightarrow> string \<Rightarrow> string \<Rightarrow> string \<Rightarrow> u64 \<Rightarrow> string
     \<Rightarrow> u64 \<Rightarrow> u64 \<Rightarrow> u64 \<Rightarrow> 'w ClaimRenewal \<Rightarrow> u64 \<Rightarrow> u64 \<Rightarrow> ('w, WorkerError, u64) io" where
  "diff_partition wk iterate skh old_key new_key token skey old_card new_card partitions renewal
     part distinct_old_total =
     bind (scan_partition wk old_key old_card part partitions renewal) (\<lambda>existing.
     seq (verify_scan_key_before wk new_key new_card)
    (bind (scan_set wk new_key (\<lambda>members a. fold_io members (diff_member wk skh token part partitions) a)
             renewal \<lparr>da_existing = existing, da_additions = []\<rparr>) (\<lambda>r.
     seq (verify_scan_complete wk new_key new_card (fst r))
    (seq (when_io (da_additions (snd r) \<noteq> []) (fanout_members wk skh (da_additions (snd r)) token True))
    (seq (for_each (chunks_of (wc_scan_count (wk_config wk)) (iterate (da_existing (snd r))))
            (\<lambda>chunk. fanout_members wk skh chunk token False))
    (seq (hset wk skey [(''diff_partition'', show_u64 (sat_add part 1))])
    (seq (renew_now renewal)
         (ret (distinct_old_total + usize_u64 (card existing))))))))))"

definition u64_range :: "u64 \<Rightarrow> u64 \<Rightarrow> u64 list" where
  "u64_range a b = map of_nat [unat a..<unat b]"

definition div_ceil :: "u64 \<Rightarrow> u64 \<Rightarrow> u64" where
  "div_ceil a b = (if a mod b = 0 then a div b else a div b + 1)"

definition apply_streamed_diff ::
  "'w IdListSyncWorker \<Rightarrow> (string set \<Rightarrow> string list) \<Rightarrow> string \<Rightarrow> string option \<Rightarrow> string \<Rightarrow> u64 \<Rightarrow> string
     \<Rightarrow> u64 \<Rightarrow> u64 \<Rightarrow> u64 \<Rightarrow> 'w ClaimRenewal \<Rightarrow> ('w, WorkerError, unit) io" where
  "apply_streamed_diff wk iterate skh old_key new_key token skey resume_partition old_card new_card renewal =
     (if old_card = 0 then fanout_scan wk skh new_key token True new_card renewal
      else (case old_key of
          None \<Rightarrow> fail (ScanVerification ''old cardinality is non-zero without a key'')
        | Some old_key \<Rightarrow>
            let partitions = div_ceil (max (max old_card new_card) 1) (wc_diff_partition_max_members (wk_config wk))
            in if partitions < resume_partition
               then fail (ScanVerification (''resume partition '' @ show_u64 resume_partition
                      @ '' exceeds partition count '' @ show_u64 partitions))
               else
                 bind (fold_io (u64_range 0 resume_partition) (\<lambda>part n.
                         bind (scan_partition wk old_key old_card part partitions renewal) (\<lambda>members.
                         ret (n + usize_u64 (card members)))) 0) (\<lambda>n.
                 bind (fold_io (u64_range resume_partition partitions)
                         (diff_partition wk iterate skh old_key new_key token skey old_card new_card partitions
                            renewal) n) (\<lambda>distinct_old_total.
                 if distinct_old_total \<noteq> old_card
                 then fail (ScanVerification (''old distinct total '' @ show_u64 distinct_old_total
                        @ '' != SCARD '' @ show_u64 old_card))
                 else ret ()))))"

text \<open>The pattern of \<open>clear_reverse_token\<close>: the prefix of the member keys, with its special characters escaped.\<close>

fun escape_glob :: "string \<Rightarrow> string" where
  "escape_glob [] = []"
| "escape_glob (c # cs) =
     (if c \<in> {CHR ''*'', CHR ''?'', CHR ''['', CHR '']'', CHR 0x5C} then [CHR 0x5C, c] else [c]) @ escape_glob cs"

definition member_pattern :: "'w IdListSyncWorker \<Rightarrow> string \<Rightarrow> string" where
  "member_pattern wk skh = escape_glob (member_key (wk_key_prefix wk) skh []) @ ''*''"

partial_function (option) clear_pages ::
  "'w IdListSyncWorker \<Rightarrow> string \<Rightarrow> u64 \<Rightarrow> 'w ClaimRenewal \<Rightarrow> u64 \<Rightarrow> 'w
     \<Rightarrow> ((WorkerError + unit) \<times> 'w) option" where
  "clear_pages wk pattern token renewal cursor w =
     bind (renew_now renewal) (\<lambda>_.
     bind (redis_op (bind (command (wk_pool wk) (SCAN cursor pattern (wc_scan_count (wk_config wk)))) as_page)) (\<lambda>np.
     bind (for_each (chunks_of (wc_pipeline_batch_size (wk_config wk)) (snd np)) (\<lambda>batch.
             redis_op (seq (pipe (wk_pool wk) False (map (\<lambda>key. SREM key (show_u64 token)) batch)) (ret ())))) (\<lambda>_ w'.
       if fst np = 0 then ret () w' else clear_pages wk pattern token renewal (fst np) w'))) w"

definition clear_reverse_token ::
  "'w IdListSyncWorker \<Rightarrow> string \<Rightarrow> u64 \<Rightarrow> 'w ClaimRenewal \<Rightarrow> ('w, WorkerError, unit) io" where
  "clear_reverse_token wk skh token renewal = clear_pages wk (member_pattern wk skh) token renewal 0"

section \<open>Writing the token\<close>

definition rev_put :: "string set \<Rightarrow> bool \<Rightarrow> list_view \<Rightarrow> list_view" where
  "rev_put S b lv = lv\<lparr>lv_rev := (\<lambda>m. if m \<in> S then map_option (\<lambda>_. b) (lv_rev lv m) else lv_rev lv m)\<rparr>"

lemma rev_put_simps [simp]:
  "lv_fwd (rev_put S b lv) = lv_fwd lv" "lv_state (rev_put S b lv) = lv_state lv"
  "lv_name (rev_put S b lv) = lv_name lv" "lv_ttl (rev_put S b lv) = lv_ttl lv"
  "lv_rev (rev_put S b lv) m = (if m \<in> S then map_option (\<lambda>_. b) (lv_rev lv m) else lv_rev lv m)"
  "rev_typed (rev_put S b lv) = rev_typed lv"
  by (auto simp: rev_put_def rev_typed_def)

lemma rev_put_empty [simp]: "rev_put {} b lv = lv"
  by (intro list_view_eqI ext) simp_all

lemma rev_put_Un [simp]: "rev_put S b (rev_put T b lv) = rev_put (S \<union> T) b lv"
  by (intro list_view_eqI ext) (simp_all add: option.map_comp comp_def)

lemma rev_put_insert: "rev_put (insert m S) b lv = set_rev m b (rev_put S b lv)"
  by (intro list_view_eqI ext) (simp_all add: set_rev_def option.map_comp comp_def)

lemma rev_put_closed:
  assumes "\<And>m lv. m \<in> set ms \<Longrightarrow> E lv \<Longrightarrow> E (set_rev m b lv)" and "E lv"
  shows "E (rev_put (set ms) b lv)"
  using assms by (induction ms) (simp_all add: rev_put_insert)

lemma concat_chunks: "0 < n \<Longrightarrow> concat (chunks_of n xs) = xs"
  by (induction n xs rule: chunks_of.induct) (subst chunks_of.simps, simp)

text \<open>
  A list of elements sent in batches, with a command for each that sets or removes the token of the
  members \<open>S x\<close>.
\<close>

lemma fold_rev_put: "fold (\<lambda>x. rev_put (S x) b) xs lv = rev_put (\<Union>x \<in> set xs. S x) b lv"
  by (induction xs arbitrary: lv) (simp_all add: Un_commute)

lemma rev_batches_ok:
  assumes conf: "redis_conforms sc (list_rely li) pool view" and size: "0 < n"
    and acts: "\<And>x ks r ks'. x \<in> set xs \<Longrightarrow> step_ok sc (c x) ks r ks' \<Longrightarrow> list_view_of li ks' = rev_put (S x) b (list_view_of li ks)"
    and PE: "\<And>lv. P lv \<Longrightarrow> E lv" and closed: "\<And>x lv. x \<in> set xs \<Longrightarrow> E lv \<Longrightarrow> E (rev_put (S x) b lv)"
  shows "vio_ok li view P
    (for_each (chunks_of n xs) (\<lambda>batch. redis_op (seq (pipe pool False (map c batch)) (ret ()))))
    (\<lambda>_ lv. \<exists>lv0. P lv0 \<and> lv = rev_put (\<Union>x \<in> set xs. S x) b lv0) E"
proof -
  let ?cs = "chunks_of n xs" and ?U = "\<lambda>ys. \<Union>x \<in> set ys. S x"
  let ?I = "\<lambda>i lv. \<exists>lv0. P lv0 \<and> lv = rev_put (?U (concat (take i ?cs))) b lv0"
  have all: "concat ?cs = xs" using size by (rule concat_chunks)
  have sub: "set (concat (take i ?cs)) \<subseteq> set xs" for i
    using all set_take_subset [of i ?cs] by (metis (no_types, lifting) UN_mono order_refl set_concat)
  have keep: "E (rev_put (?U ys) b lv)" if "set ys \<subseteq> set xs" "E lv" for ys lv
  proof -
    have "E (fold (\<lambda>x. rev_put (S x) b) ys lv)"
      using that by (induction ys arbitrary: lv) (simp_all add: closed)
    then show ?thesis by (simp add: fold_rev_put)
  qed
  have IE: "E lv" if "?I i lv" for i lv using that keep [OF sub] PE by blast
  have "vio_ok li view (?I 0) (for_each ?cs (\<lambda>batch. redis_op (seq (pipe pool False (map c batch)) (ret ()))))
      (\<lambda>_. ?I (length ?cs)) E"
  proof (rule io_ok_for_each [where I = "\<lambda>i w. ?I i (list_view_of li (view w))"])
    fix i assume i: "i < length ?cs"
    let ?acts = "map (\<lambda>x. (c x, rev_put (S x) b)) (?cs ! i)"
    have in_xs: "set (?cs ! i) \<subseteq> set xs" using sub [of "Suc i"] i by (auto simp: take_Suc_conv_app_nth)
    then have ok: "acts_ok sc li ?acts" using acts unfolding acts_ok_def by fastforce
    have "vio_ok li view (?I i) (pipe pool False (map fst ?acts))
        (\<lambda>_ lv. \<exists>lv1. ?I i lv1 \<and> lv = fold snd ?acts lv1) E"
      by (rule pipe_view_ok [OF conf ok IE]) (use closed in_xs in auto)
    moreover have "fold snd ?acts lv = rev_put (?U (?cs ! i)) b lv" for lv
      using fold_rev_put [of S b "?cs ! i" lv] by (simp add: fold_map comp_def)
    moreover have "map fst ?acts = map c (?cs ! i)" by simp
    ultimately have "vio_ok li view (?I i) (pipe pool False (map c (?cs ! i)))
        (\<lambda>_ lv. \<exists>lv1. ?I i lv1 \<and> lv = rev_put (?U (?cs ! i)) b lv1) E"
      by (simp only:)
    then have "vio_ok li view (?I i) (pipe pool False (map c (?cs ! i))) (\<lambda>_. ?I (Suc i)) E"
      by (rule io_ok_cons) (use i in \<open>auto simp: take_Suc_conv_app_nth Un_commute\<close>)
    then show "vio_ok li view (?I i) (redis_op (seq (pipe pool False (map c (?cs ! i))) (ret ()))) (\<lambda>_. ?I (Suc i)) E"
      by (intro redis_op_ok io_ok_seq [where R = "\<lambda>w. ?I (Suc i) (list_view_of li (view w))"] io_ok_ret)
  qed
  then show ?thesis by (rule io_ok_cons) (auto simp: all)
qed

lemma set_rev_put: "set_rev m b lv = rev_put {m} b lv"
  using rev_put_insert [of m "{}" b lv] by simp

lemma fanout_members_ok:
  assumes conf: "redis_conforms sc (list_rely li) (wk_pool wk) view" and ns: "namespace_ok (li_skh li)"
    and pre: "wk_key_prefix wk = li_prefix li" and size: "0 < wc_pipeline_batch_size (wk_config wk)"
    and PE: "\<And>lv. P lv \<Longrightarrow> E lv" and closed: "\<And>m lv. m \<in> set ms \<Longrightarrow> E lv \<Longrightarrow> E (set_rev m b lv)"
  shows "vio_ok li view P (fanout_members wk (li_skh li) ms (li_token li) b)
    (\<lambda>_ lv. \<exists>lv0. P lv0 \<and> lv = rev_put (set ms) b lv0) E"
  using rev_batches_ok [OF conf size, where S = "\<lambda>m. {m}" and b = b and P = P and E = E and xs = ms
      and c = "\<lambda>m. member_cmd b (member_key (li_prefix li) (li_skh li) m) (show_u64 (li_token li))"]
    view_rev_cmd [OF ns] PE closed
  by (simp add: fanout_members_def pre set_rev_put)

section \<open>Reading a set page by page\<close>

lemma scan_pages_unfold:
  "scan_pages wk key body renewal cursor scanned pages acc =
     bind (sscan_page wk key cursor) (\<lambda>np.
     bind (body (snd np) acc) (\<lambda>acc'.
     bind (renew_every renewal (pages + 1)) (\<lambda>_.
       if fst np = 0 then ret (scanned + usize_u64 (length (snd np)), acc')
       else scan_pages wk key body renewal (fst np) (scanned + usize_u64 (length (snd np))) (pages + 1) acc')))"
  by (rule ext, subst scan_pages.simps) (simp only: if_io)

lemma renew_every_ok:
  assumes "claim_ok sc li view cr" and "namespace_ok (li_skh li)" and "\<And>lv. P lv \<Longrightarrow> E lv"
  shows "vio_ok li view P (renew_every cr pages) (\<lambda>_. P) E"
  unfolding renew_every_def by (rule io_ok_when) (use renew_now_ok [OF assms(1,2), of P E] assms(3) in auto)

lemma sscan_page_ok:
  assumes conf: "redis_conforms sc (list_rely li) (wk_pool wk) view"
    and PE: "\<And>lv. P lv \<Longrightarrow> E lv" and s: "\<And>lv. P lv \<Longrightarrow> lv_fwd lv v = Some s"
  shows "vio_ok li view P (sscan_page wk (fwd_key (li_prefix li) (li_skh li) (li_list li) v) cur)
    (\<lambda>np lv. page_ok sc s cur (fst np) (snd np) \<and> P lv) E"
  unfolding sscan_page_def
proof (intro redis_op_ok io_ok_bind)
  let ?k = "fwd_key (li_prefix li) (li_skh li) (li_list li) v"
  let ?Q = "\<lambda>r lv. \<exists>nxt page. r = RPage nxt page \<and> page_ok sc s cur nxt page \<and> P lv"
  show "vio_ok li view P (command (wk_pool wk) (SSCAN ?k cur (wc_scan_count (wk_config wk)))) ?Q E"
  proof (rule command_ok [OF conf])
    show "?Q r (list_view_of li ks') \<and> E (list_view_of li ks')"
      if "P (list_view_of li ks)" "step_ok sc (SSCAN ?k cur (wc_scan_count (wk_config wk))) ks r ks'" for ks r ks'
      using that s [OF that(1)] PE by (auto simp: step_ok_def list_view_of_def)
  qed (use PE stable_list_view in auto)
  show "vio_ok li view (?Q r) (as_page r) (\<lambda>np lv. page_ok sc s cur (fst np) (snd np) \<and> P lv) E" for r
    by (auto simp: io_ok_def as_page_def ret_def)
qed

text \<open>
  The rule for a scan: \<open>I seen acc\<close> holds when the members \<open>seen\<close> were given to the body. The
  scan terminates and gives all members of the set to the body.
\<close>

lemma scan_set_ok:
  assumes conf: "redis_conforms sc (list_rely li) (wk_pool wk) view" and ns: "namespace_ok (li_skh li)"
    and claim: "claim_ok sc li view renewal"
    and s: "\<And>seen acc lv. I seen acc lv \<Longrightarrow> lv_fwd lv v = Some s" and IE: "\<And>seen acc lv. I seen acc lv \<Longrightarrow> E lv"
    and body: "\<And>seen acc page. seen \<subseteq> s \<Longrightarrow> set page \<subseteq> s \<Longrightarrow>
      vio_ok li view (I seen acc) (body page acc) (I (seen \<union> set page)) E"
  shows "vio_ok li view (I {} acc) (scan_set wk (fwd_key (li_prefix li) (li_skh li) (li_list li) v) body renewal acc)
    (\<lambda>r. I s (snd r)) E"
proof -
  let ?k = "fwd_key (li_prefix li) (li_skh li) (li_list li) v"
  have "vio_ok li view (I seen acc) (scan_pages wk ?k body renewal cur scanned pages acc) (\<lambda>r. I s (snd r)) E"
    if "seen \<subseteq> s" "s \<subseteq> seen \<union> ahead sc s cur" for cur seen scanned pages acc
    using that
  proof (induction "sc_left sc s cur" arbitrary: cur seen scanned pages acc rule: less_induct)
    case less
    show ?case
      unfolding scan_pages_unfold [of wk ?k body renewal cur scanned pages acc]
    proof (intro io_ok_bind)
      show "vio_ok li view (I seen acc) (sscan_page wk ?k cur)
          (\<lambda>np lv. page_ok sc s cur (fst np) (snd np) \<and> I seen acc lv) E"
        by (rule sscan_page_ok [OF conf]) (use s IE in blast)+
      show "vio_ok li view (\<lambda>lv. page_ok sc s cur (fst np) (snd np) \<and> I seen acc lv) (body (snd np) acc)
          (\<lambda>acc' lv. page_ok sc s cur (fst np) (snd np) \<and> I (seen \<union> set (snd np)) acc' lv) E" for np
      proof (rule io_ok_pure)
        assume p: "page_ok sc s cur (fst np) (snd np)"
        then have "set (snd np) \<subseteq> s" by (simp add: page_ok_def)
        from body [OF less.prems(1) this] p
        show "vio_ok li view (I seen acc) (body (snd np) acc)
            (\<lambda>acc' lv. page_ok sc s cur (fst np) (snd np) \<and> I (seen \<union> set (snd np)) acc' lv) E"
          by (simp add: io_ok_def)
      qed
      let ?P = "\<lambda>np acc' lv. page_ok sc s cur (fst np) (snd np) \<and> I (seen \<union> set (snd np)) acc' lv"
      show "vio_ok li view (?P np acc') (renew_every renewal (pages + 1)) (\<lambda>_. ?P np acc') E" for np acc'
        by (rule renew_every_ok [OF claim ns]) (use IE in blast)
      show "vio_ok li view (?P np acc')
          (if fst np = 0 then ret (scanned + usize_u64 (length (snd np)), acc')
           else scan_pages wk ?k body renewal (fst np) (scanned + usize_u64 (length (snd np))) (pages + 1) acc')
          (\<lambda>r. I s (snd r)) E" for np acc'
      proof (rule io_ok_pure)
        assume p: "page_ok sc s cur (fst np) (snd np)"
        have sub: "seen \<union> set (snd np) \<subseteq> s" using p less.prems(1) by (auto simp: page_ok_def)
        show "vio_ok li view (I (seen \<union> set (snd np)) acc')
            (if fst np = 0 then ret (scanned + usize_u64 (length (snd np)), acc')
             else scan_pages wk ?k body renewal (fst np) (scanned + usize_u64 (length (snd np))) (pages + 1) acc')
            (\<lambda>r. I s (snd r)) E"
        proof (rule io_ok_if)
          assume "fst np = 0"
          then have "seen \<union> set (snd np) = s" using p less.prems sub by (auto simp: page_ok_def)
          then show "vio_ok li view (I (seen \<union> set (snd np)) acc')
              (ret (scanned + usize_u64 (length (snd np)), acc')) (\<lambda>r. I s (snd r)) E"
            by (auto intro: io_ok_ret)
        next
          assume nz: "fst np \<noteq> 0"
          then have "sc_left sc s (fst np) < sc_left sc s cur" using p by (simp add: page_ok_def)
          moreover have "s \<subseteq> seen \<union> set (snd np) \<union> ahead sc s (fst np)"
            using p less.prems nz by (auto simp: page_ok_def)
          ultimately show "vio_ok li view (I (seen \<union> set (snd np)) acc')
              (scan_pages wk ?k body renewal (fst np) (scanned + usize_u64 (length (snd np))) (pages + 1) acc')
              (\<lambda>r. I s (snd r)) E"
            using less.hyps sub by blast
        qed
      qed
    qed
  qed
  from this [of "{}" 0] show ?thesis by (simp add: scan_set_def ahead_def)
qed

lemma verify_before_ok:
  assumes "redis_conforms sc (list_rely li) (wk_pool wk) view" and "\<And>lv. P lv \<Longrightarrow> E lv"
  shows "vio_ok li view P (verify_scan_key_before wk (fwd_key (li_prefix li) (li_skh li) (li_list li) v) n) (\<lambda>_. P) E"
  unfolding verify_scan_key_before_def
proof (rule io_ok_when, rule io_ok_bind)
  show "vio_ok li view P (key_exists wk (fwd_key (li_prefix li) (li_skh li) (li_list li) v)) (\<lambda>_. P) E"
    by (rule io_ok_cons [OF key_exists_ok [OF assms(1), where P = P and E = E]]) (use assms(2) in auto)
qed (use assms(2) in \<open>auto intro: io_ok_ret io_ok_fail\<close>)

lemma verify_complete_ok:
  assumes "redis_conforms sc (list_rely li) (wk_pool wk) view" and "\<And>lv. P lv \<Longrightarrow> E lv"
  shows "vio_ok li view P (verify_scan_complete wk (fwd_key (li_prefix li) (li_skh li) (li_list li) v) n k) (\<lambda>_. P) E"
  unfolding verify_scan_complete_def Let_def
proof (intro io_ok_if io_ok_when io_ok_bind)
  show "vio_ok li view P (key_exists wk (fwd_key (li_prefix li) (li_skh li) (li_list li) v)) (\<lambda>_. P) E"
    by (rule io_ok_cons [OF key_exists_ok [OF assms(1), where P = P and E = E]]) (use assms(2) in auto)
qed (use assms(2) in \<open>auto intro: io_ok_ret io_ok_fail\<close>)

lemma fanout_scan_ok:
  assumes conf: "redis_conforms sc (list_rely li) (wk_pool wk) view" and ns: "namespace_ok (li_skh li)"
    and pre: "wk_key_prefix wk = li_prefix li" and size: "0 < wc_pipeline_batch_size (wk_config wk)"
    and claim: "claim_ok sc li view renewal" and s: "\<And>lv. P lv \<Longrightarrow> lv_fwd lv v = Some s"
    and PE: "\<And>lv. P lv \<Longrightarrow> E lv" and closed: "\<And>m lv. m \<in> s \<Longrightarrow> E lv \<Longrightarrow> E (set_rev m b lv)"
    and fin: "finite s"
  shows "vio_ok li view P (fanout_scan wk (li_skh li) (fwd_key (li_prefix li) (li_skh li) (li_list li) v) (li_token li) b n renewal)
    (\<lambda>_ lv. \<exists>lv0. P lv0 \<and> lv = rev_put s b lv0) E"
  unfolding fanout_scan_def
proof (intro io_ok_seq io_ok_bind)
  let ?k = "fwd_key (li_prefix li) (li_skh li) (li_list li) v"
  let ?I = "\<lambda>seen (_ :: unit) lv. \<exists>lv0. seen \<subseteq> s \<and> P lv0 \<and> lv = rev_put seen b lv0"
  have IE: "E lv" if i: "?I seen acc lv" for seen acc lv
  proof -
    obtain lv0 where l: "seen \<subseteq> s" "P lv0" "lv = rev_put seen b lv0" using i by blast
    obtain ms where "seen = set ms" using fin l(1) finite_list finite_subset by metis
    then show ?thesis using rev_put_closed [of ms E b lv0] closed PE l by auto
  qed
  show "vio_ok li view P (verify_scan_key_before wk ?k n) (\<lambda>_. P) E" using conf PE by (rule verify_before_ok)
  have scan: "vio_ok li view (?I {} ()) (scan_set wk ?k (\<lambda>members _. fanout_members wk (li_skh li) members (li_token li) b) renewal ())
      (\<lambda>r. ?I s (snd r)) E"
  proof (rule scan_set_ok [OF conf ns claim])
    fix seen :: "string set" and acc :: unit and page
    assume sub: "seen \<subseteq> s" "set page \<subseteq> s"
    have "vio_ok li view (?I seen acc) (fanout_members wk (li_skh li) page (li_token li) b)
        (\<lambda>_ lv. \<exists>lv1. ?I seen acc lv1 \<and> lv = rev_put (set page) b lv1) E"
      by (rule fanout_members_ok [OF conf ns pre size IE]) (use closed sub in blast)+
    then show "vio_ok li view (?I seen acc) (fanout_members wk (li_skh li) page (li_token li) b)
        (?I (seen \<union> set page)) E"
      by (rule io_ok_cons) (use sub in \<open>auto simp: Un_commute\<close>)
  qed (use s IE in auto)
  show "vio_ok li view P (scan_set wk ?k (\<lambda>members _. fanout_members wk (li_skh li) members (li_token li) b) renewal ())
      (\<lambda>r lv. ?I s () lv) E"
    by (rule io_ok_cons [OF scan]) auto
  show "vio_ok li view (\<lambda>lv. ?I s () lv) (verify_scan_complete wk ?k n (fst r)) (\<lambda>_ lv. \<exists>lv0. P lv0 \<and> lv = rev_put s b lv0) E" for r :: "u64 \<times> unit"
    by (rule io_ok_cons [OF verify_complete_ok [OF conf, where P = "\<lambda>lv. ?I s () lv" and E = E]]) (use IE in auto)
qed

lemma scan_partition_ok:
  assumes conf: "redis_conforms sc (list_rely li) (wk_pool wk) view" and ns: "namespace_ok (li_skh li)"
    and claim: "claim_ok sc li view renewal" and s: "\<And>lv. P lv \<Longrightarrow> lv_fwd lv v = Some s"
    and PE: "\<And>lv. P lv \<Longrightarrow> E lv"
  shows "vio_ok li view P (scan_partition wk (fwd_key (li_prefix li) (li_skh li) (li_list li) v) n part parts renewal)
    (\<lambda>ms lv. ms = {m \<in> s. partition_for (wk_sha256 wk) m parts = part} \<and> P lv) E"
  unfolding scan_partition_def
proof (intro io_ok_seq io_ok_bind)
  let ?k = "fwd_key (li_prefix li) (li_skh li) (li_list li) v"
  let ?cls = "\<lambda>m. partition_for (wk_sha256 wk) m parts = part"
  let ?I = "\<lambda>seen acc lv. acc = {m \<in> seen. ?cls m} \<and> P lv"
  show "vio_ok li view P (verify_scan_key_before wk ?k n) (\<lambda>_. P) E" using conf PE by (rule verify_before_ok)
  have "vio_ok li view (?I {} {}) (scan_set wk ?k (\<lambda>page members. ret (members \<union> {m \<in> set page. ?cls m})) renewal {})
      (\<lambda>r. ?I s (snd r)) E"
    by (rule scan_set_ok [OF conf ns claim]) (use s PE in \<open>auto intro!: io_ok_ret\<close>)
  then show "vio_ok li view P (scan_set wk ?k (\<lambda>page members. ret (members \<union> {m \<in> set page. ?cls m})) renewal {})
      (\<lambda>r. ?I s (snd r)) E"
    by (rule io_ok_cons) auto
  show "vio_ok li view (?I s (snd r)) (verify_scan_complete wk ?k n (fst r)) (\<lambda>_. ?I s (snd r)) E" for r :: "u64 \<times> string set"
    by (rule verify_complete_ok [OF conf]) (use PE in blast)
  show "vio_ok li view (?I s (snd r)) (ret (snd r)) (\<lambda>ms. ?I s ms) E" for r :: "u64 \<times> string set"
    by (rule io_ok_ret)
qed

section \<open>The difference\<close>

text \<open>
  How far the reverse index has moved from the old members to the new ones when the partitions
  below \<open>p\<close> are done: members in both sets keep the token, members in neither do not have it, and
  in the finished partitions exactly the new members have it.
\<close>

definition diff_rev :: "(string \<Rightarrow> nat) \<Rightarrow> string set \<Rightarrow> string set \<Rightarrow> nat \<Rightarrow> list_view \<Rightarrow> bool" where
  "diff_rev cls Old New p lv \<longleftrightarrow> rev_typed lv
     \<and> (\<forall>m. (m \<in> Old \<inter> New \<longrightarrow> lv_rev lv m = Some True) \<and> (m \<notin> Old \<union> New \<longrightarrow> lv_rev lv m = Some False)
          \<and> (cls m < p \<longrightarrow> (lv_rev lv m = Some True \<longleftrightarrow> m \<in> New)))"

definition diff_frame :: "list_view \<Rightarrow> list_view \<Rightarrow> bool" where
  "diff_frame lv0 lv \<longleftrightarrow>
     lv_fwd lv = lv_fwd lv0 \<and> lv_ttl lv = lv_ttl lv0 \<and> lv_name lv = lv_name lv0
     \<and> (\<exists>h0 h. lv_state lv0 = Some h0 \<and> lv_state lv = Some h \<and> (\<forall>f. f \<noteq> ''diff_partition'' \<longrightarrow> h f = h0 f))"

definition diff_saved :: "nat \<Rightarrow> list_view \<Rightarrow> bool" where
  "diff_saved q lv \<longleftrightarrow>
     (\<exists>h. lv_state lv = Some h \<and> unat (unwrap_or 0 (Option.bind (h ''diff_partition'') parse_u32)) = q)"

definition diff_at ::
  "(string \<Rightarrow> nat) \<Rightarrow> string set \<Rightarrow> string set \<Rightarrow> list_view \<Rightarrow> nat \<Rightarrow> list_view \<Rightarrow> bool" where
  "diff_at cls Old New lv0 p lv \<longleftrightarrow> diff_rev cls Old New p lv \<and> diff_frame lv0 lv \<and> (\<exists>q\<le>p. diff_saved q lv)"

text \<open>A state from which the difference can be resumed at the partition that is saved.\<close>

definition diff_resumable ::
  "(string \<Rightarrow> nat) \<Rightarrow> string set \<Rightarrow> string set \<Rightarrow> list_view \<Rightarrow> list_view \<Rightarrow> bool" where
  "diff_resumable cls Old New lv0 lv \<longleftrightarrow> (\<exists>q. diff_rev cls Old New q lv \<and> diff_frame lv0 lv \<and> diff_saved q lv)"

lemma diff_rev_mono: "diff_rev cls Old New p lv \<Longrightarrow> q \<le> p \<Longrightarrow> diff_rev cls Old New q lv"
  unfolding diff_rev_def by (meson less_le_trans)

lemma diff_at_resumable: "diff_at cls Old New lv0 p lv \<Longrightarrow> diff_resumable cls Old New lv0 lv"
  unfolding diff_at_def diff_resumable_def using diff_rev_mono by blast

lemma diff_at_fwd: "diff_at cls Old New lv0 p lv \<Longrightarrow> lv_fwd lv = lv_fwd lv0"
  by (simp add: diff_at_def diff_frame_def)

lemma diff_rev_add: "diff_rev cls Old New p lv \<Longrightarrow> m \<in> New \<Longrightarrow> diff_rev cls Old New p (set_rev m True lv)"
  by (auto simp: diff_rev_def rev_typed_def set_rev_def)

lemma diff_rev_remove: "diff_rev cls Old New p lv \<Longrightarrow> m \<in> Old - New \<Longrightarrow> diff_rev cls Old New p (set_rev m False lv)"
  by (auto simp: diff_rev_def rev_typed_def set_rev_def)

lemma diff_frame_rev: "diff_frame lv0 lv \<Longrightarrow> diff_frame lv0 (set_rev m b lv)"
  by (simp add: diff_frame_def set_rev_def)

lemma diff_saved_rev: "diff_saved q (set_rev m b lv) = diff_saved q lv"
  by (simp add: diff_saved_def set_rev_def)

lemmas diff_set_rev = diff_rev_add diff_rev_remove diff_frame_rev diff_saved_rev

lemma diff_at_set:
  "diff_at cls Old New lv0 p lv \<Longrightarrow> m \<in> New \<Longrightarrow> diff_at cls Old New lv0 p (set_rev m True lv)"
  "diff_at cls Old New lv0 p lv \<Longrightarrow> m \<in> Old - New \<Longrightarrow> diff_at cls Old New lv0 p (set_rev m False lv)"
  by (simp_all add: diff_at_def diff_set_rev)

lemma diff_resumable_set:
  "diff_resumable cls Old New lv0 lv \<Longrightarrow> m \<in> New \<Longrightarrow> diff_resumable cls Old New lv0 (set_rev m True lv)"
  "diff_resumable cls Old New lv0 lv \<Longrightarrow> m \<in> Old - New \<Longrightarrow> diff_resumable cls Old New lv0 (set_rev m False lv)"
  unfolding diff_resumable_def using diff_set_rev by metis+

lemma diff_at_put:
  assumes "diff_at cls Old New lv0 p lv"
  shows "set ms \<subseteq> New \<Longrightarrow> diff_at cls Old New lv0 p (rev_put (set ms) True lv)"
    "set ms \<subseteq> Old - New \<Longrightarrow> diff_at cls Old New lv0 p (rev_put (set ms) False lv)"
  using assms diff_at_set by (blast intro: rev_put_closed)+

text \<open>The state inside a partition: which members of the new set were seen, and what is queued.\<close>

definition diff_seen ::
  "(string \<Rightarrow> nat) \<Rightarrow> string set \<Rightarrow> string set \<Rightarrow> list_view \<Rightarrow> nat \<Rightarrow> string set \<Rightarrow> diff_acc \<Rightarrow> list_view \<Rightarrow> bool" where
  "diff_seen cls Old New lv0 p seen a lv \<longleftrightarrow>
     diff_at cls Old New lv0 p lv \<and> seen \<subseteq> New
     \<and> da_existing a = {m \<in> Old. cls m = p} - seen \<and> set (da_additions a) \<subseteq> New
     \<and> (\<forall>m \<in> seen. cls m = p \<longrightarrow> lv_rev lv m = Some True \<or> m \<in> set (da_additions a))"

lemma diff_member_ok:
  fixes wk :: "'w IdListSyncWorker"
  assumes conf: "redis_conforms sc (list_rely li) (wk_pool wk) view" and ns: "namespace_ok (li_skh li)"
    and pre: "wk_key_prefix wk = li_prefix li" and size: "0 < wc_pipeline_batch_size (wk_config wk)"
    and cls: "\<And>m. cls m = unat (partition_for (wk_sha256 wk) m parts)" and p: "unat part = p" and m: "m \<in> New"
  shows "vio_ok li view (diff_seen cls Old New lv0 p seen a) (diff_member wk (li_skh li) (li_token li) part parts m a)
    (diff_seen cls Old New lv0 p (insert m seen)) (diff_resumable cls Old New lv0)"
proof -
  let ?S = "diff_seen cls Old New lv0 p seen a" and ?E = "diff_resumable cls Old New lv0"
  have SE: "?E lv" if "?S lv" for lv using that diff_at_resumable by (auto simp: diff_seen_def)
  have part: "partition_for (wk_sha256 wk) m parts = part \<longleftrightarrow> cls m = p" using cls p by (metis unsigned_word_eqI)
  have rev_old: "lv_rev lv m = Some True" if "?S lv" "m \<in> Old" for lv
    using that m by (auto simp: diff_seen_def diff_at_def diff_rev_def)
  let ?adds = "da_additions a @ [m]"
  have fan: "vio_ok li view ?S (fanout_members wk (li_skh li) ?adds (li_token li) True)
      (\<lambda>_ lv. \<exists>lv1. ?S lv1 \<and> lv = rev_put (set ?adds) True lv1) ?E" if "set (da_additions a) \<subseteq> New"
    by (rule fanout_members_ok [OF conf ns pre size SE]) (use diff_resumable_set that m in auto)
  show ?thesis
  proof (cases "cls m = p")
    case False
    then show ?thesis
      by (auto simp: diff_member_def part diff_seen_def m intro!: io_ok_ret)
  next
    case True
    show ?thesis
    proof (cases "m \<in> da_existing a")
      case ex: True
      show ?thesis
      proof (rule io_okI)
        fix w assume S: "?S (list_view_of li (view w))"
        then have "m \<in> Old" using ex by (auto simp: diff_seen_def)
        from rev_old [OF S this] S True ex
        show "\<exists>res w'. diff_member wk (li_skh li) (li_token li) part parts m a w = Some (res, w')
          \<and> (case res of Inl _ \<Rightarrow> ?E (list_view_of li (view w'))
               | Inr a \<Rightarrow> diff_seen cls Old New lv0 p (insert m seen) a (list_view_of li (view w')))"
          using m by (auto simp: diff_member_def part ret_def diff_seen_def)
      qed
    next
      case ex: False
      have "vio_ok li view ?S
          (if wc_scan_count (wk_config wk) \<le> length ?adds
           then seq (fanout_members wk (li_skh li) ?adds (li_token li) True) (ret (a\<lparr>da_additions := []\<rparr>))
           else ret (a\<lparr>da_additions := ?adds\<rparr>))
          (diff_seen cls Old New lv0 p (insert m seen)) ?E"
        if sub: "set (da_additions a) \<subseteq> New"
      proof (rule io_ok_if)
        show "vio_ok li view ?S (seq (fanout_members wk (li_skh li) ?adds (li_token li) True) (ret (a\<lparr>da_additions := []\<rparr>)))
            (diff_seen cls Old New lv0 p (insert m seen)) ?E"
        proof (rule io_ok_seq [OF fan [OF sub]], rule io_ok_ret)
          fix w assume "\<exists>lv1. ?S lv1 \<and> list_view_of li (view w) = rev_put (set ?adds) True lv1"
          then obtain lv1 where lv1: "?S lv1" "list_view_of li (view w) = rev_put (set ?adds) True lv1" by blast
          have "diff_at cls Old New lv0 p (rev_put (set ?adds) True lv1)"
            using lv1(1) sub m by (intro diff_at_put) (auto simp: diff_seen_def)
          moreover have "rev_typed lv1" using lv1(1) by (auto simp: diff_seen_def diff_at_def diff_rev_def)
          ultimately show "diff_seen cls Old New lv0 p (insert m seen) (a\<lparr>da_additions := []\<rparr>) (list_view_of li (view w))"
            unfolding lv1(2) using lv1(1) m ex True
            by (auto simp: diff_seen_def rev_typed_def)
        qed
        show "vio_ok li view ?S (ret (a\<lparr>da_additions := ?adds\<rparr>)) (diff_seen cls Old New lv0 p (insert m seen)) ?E"
          by (rule io_ok_ret) (use m ex True in \<open>auto simp: diff_seen_def\<close>)
      qed
      then show ?thesis
        using True ex by (auto simp: diff_member_def part Let_def io_ok_def diff_seen_def)
    qed
  qed
qed

lemma diff_page_ok:
  fixes wk :: "'w IdListSyncWorker"
  assumes conf: "redis_conforms sc (list_rely li) (wk_pool wk) view" and ns: "namespace_ok (li_skh li)"
    and pre: "wk_key_prefix wk = li_prefix li" and size: "0 < wc_pipeline_batch_size (wk_config wk)"
    and cls: "\<And>m. cls m = unat (partition_for (wk_sha256 wk) m parts)" and p: "unat part = p"
    and page: "set page \<subseteq> New"
  shows "vio_ok li view (diff_seen cls Old New lv0 p seen a)
    (fold_io page (diff_member wk (li_skh li) (li_token li) part parts) a)
    (diff_seen cls Old New lv0 p (seen \<union> set page)) (diff_resumable cls Old New lv0)"
proof -
  let ?I = "\<lambda>i a lv. diff_seen cls Old New lv0 p (seen \<union> set (take i page)) a lv"
  have "vio_ok li view (?I 0 a) (fold_io page (diff_member wk (li_skh li) (li_token li) part parts) a)
      (?I (length page)) (diff_resumable cls Old New lv0)"
  proof (rule io_ok_fold [where I = "\<lambda>i a w. ?I i a (list_view_of li (view w))"])
    fix i a assume i: "i < length page"
    then have "seen \<union> set (take (Suc i) page) = insert (page ! i) (seen \<union> set (take i page))"
      by (simp add: take_Suc_conv_app_nth)
    moreover have "page ! i \<in> New" using page i nth_mem by blast
    ultimately show "vio_ok li view (?I i a) (diff_member wk (li_skh li) (li_token li) part parts (page ! i) a)
        (?I (Suc i)) (diff_resumable cls Old New lv0)"
      using diff_member_ok [OF conf ns pre size cls p] by simp
  qed
  then show ?thesis by simp
qed

text \<open>Removing the token from the members of a list, chunk by chunk.\<close>

lemma fanout_chunks_ok:
  assumes conf: "redis_conforms sc (list_rely li) (wk_pool wk) view" and ns: "namespace_ok (li_skh li)"
    and pre: "wk_key_prefix wk = li_prefix li" and size: "0 < wc_pipeline_batch_size (wk_config wk)"
    and n: "0 < n" and PE: "\<And>lv. P lv \<Longrightarrow> E lv" and closed: "\<And>m lv. m \<in> set ms \<Longrightarrow> E lv \<Longrightarrow> E (set_rev m b lv)"
  shows "vio_ok li view P (for_each (chunks_of n ms) (\<lambda>chunk. fanout_members wk (li_skh li) chunk (li_token li) b))
    (\<lambda>_ lv. \<exists>lv0. P lv0 \<and> lv = rev_put (set ms) b lv0) E"
proof -
  let ?cs = "chunks_of n ms"
  let ?I = "\<lambda>i lv. \<exists>lv0. P lv0 \<and> lv = rev_put (set (concat (take i ?cs))) b lv0"
  have all: "concat ?cs = ms" using n by (rule concat_chunks)
  have sub: "set (concat (take i ?cs)) \<subseteq> set ms" for i
    using all set_take_subset [of i ?cs] by (metis (no_types, lifting) UN_mono order_refl set_concat)
  have IE: "E lv" if "?I i lv" for i lv
    using that PE rev_put_closed [of "concat (take i ?cs)" E b] closed sub by blast
  have "vio_ok li view (?I 0) (for_each ?cs (\<lambda>chunk. fanout_members wk (li_skh li) chunk (li_token li) b))
      (\<lambda>_. ?I (length ?cs)) E"
  proof (rule io_ok_for_each [where I = "\<lambda>i w. ?I i (list_view_of li (view w))"])
    fix i assume i: "i < length ?cs"
    have in_ms: "set (?cs ! i) \<subseteq> set ms" using sub [of "Suc i"] i by (auto simp: take_Suc_conv_app_nth)
    have "vio_ok li view (?I i) (fanout_members wk (li_skh li) (?cs ! i) (li_token li) b)
        (\<lambda>_ lv. \<exists>lv1. ?I i lv1 \<and> lv = rev_put (set (?cs ! i)) b lv1) E"
      by (rule fanout_members_ok [OF conf ns pre size IE]) (use closed in_ms in blast)+
    then show "vio_ok li view (?I i) (fanout_members wk (li_skh li) (?cs ! i) (li_token li) b) (\<lambda>_. ?I (Suc i)) E"
      by (rule io_ok_cons) (use i in \<open>auto simp: take_Suc_conv_app_nth Un_commute\<close>)
  qed
  then show ?thesis by (rule io_ok_cons) (auto simp: all)
qed

lemma diff_partition_done:
  assumes "diff_at cls Old New lv0 p lv"
    and "\<And>m. m \<in> New \<Longrightarrow> cls m = p \<Longrightarrow> lv_rev lv m = Some True"
    and "\<And>m. m \<in> Old - New \<Longrightarrow> cls m = p \<Longrightarrow> lv_rev lv m = Some False"
  shows "diff_rev cls Old New (Suc p) lv"
  unfolding diff_rev_def
proof (intro conjI allI impI)
  have d: "diff_rev cls Old New p lv" using assms(1) by (simp add: diff_at_def)
  then show "rev_typed lv" by (simp add: diff_rev_def)
  fix m
  show "m \<in> Old \<inter> New \<Longrightarrow> lv_rev lv m = Some True" "m \<notin> Old \<union> New \<Longrightarrow> lv_rev lv m = Some False"
    using d by (auto simp: diff_rev_def)
  show "lv_rev lv m = Some True \<longleftrightarrow> m \<in> New" if c: "cls m < Suc p"
  proof (cases "cls m < p")
    case True
    then show ?thesis using d by (simp add: diff_rev_def)
  next
    case False
    then have cp: "cls m = p" using c by simp
    show ?thesis
    proof (cases "m \<in> New")
      case True
      then show ?thesis using assms(2) cp by simp
    next
      case False
      then have "lv_rev lv m = Some False" using assms(3) cp d by (cases "m \<in> Old") (auto simp: diff_rev_def)
      then show ?thesis using False by simp
    qed
  qed
qed

lemma parse_u32_bound: "parse_u32 s = Some n \<Longrightarrow> parse_u64 s = Some k \<Longrightarrow> unat n \<le> unat k"
proof -
  assume n: "parse_u32 s = Some n" and k: "parse_u64 s = Some k"
  then obtain d where d: "parse_uint 32 s = Some d" "n = of_nat d" by (auto simp: parse_u32_def)
  then have d64: "d < 2 ^ 64" "parse_uint 64 s = Some d" by (auto simp: parse_uint_def Let_def split: if_splits)
  then have "unat k = d" using k by (auto simp: parse_u64_def unat_of_nat_below)
  then show ?thesis using d(2) by (simp add: unat_of_nat)
qed

lemma diff_saved_put:
  assumes "diff_frame lv0 lv" and "lv_state lv = Some h"
  shows "\<exists>q\<le>unat k. diff_saved q (set_state (put_fields [(''diff_partition'', show_u64 k)] h) lv)"
    "diff_frame lv0 (set_state (put_fields [(''diff_partition'', show_u64 k)] h) lv)"
    "diff_rev cls Old New p (set_state h' lv) = diff_rev cls Old New p lv"
proof -
  have "unat (unwrap_or 0 (parse_u32 (show_u64 k))) \<le> unat k"
    using parse_u32_bound [of "show_u64 k"] by (cases "parse_u32 (show_u64 k)") (auto simp: unwrap_or_def parse_u64_show_u64)
  then show "\<exists>q\<le>unat k. diff_saved q (set_state (put_fields [(''diff_partition'', show_u64 k)] h) lv)"
    by (simp add: diff_saved_def set_state_def put_fields_def)
  show "diff_frame lv0 (set_state (put_fields [(''diff_partition'', show_u64 k)] h) lv)"
    using assms by (auto simp: diff_frame_def set_state_def put_fields_def)
qed (simp add: diff_rev_def set_state_def rev_typed_def)

lemma diff_partition_ok:
  fixes wk :: "'w IdListSyncWorker"
  assumes conf: "redis_conforms sc (list_rely li) (wk_pool wk) view" and ns: "namespace_ok (li_skh li)"
    and pre: "wk_key_prefix wk = li_prefix li" and cfg: "worker_config_ok (wk_config wk)"
    and claim: "claim_ok sc li view renewal"
    and cls: "\<And>m. cls m = unat (partition_for (wk_sha256 wk) m parts)" and p: "unat part = p" "part < parts"
    and old: "lv_fwd lv0 vo = Some Old" and new: "lv_fwd lv0 vn = Some New" and fin: "finite Old"
    and iter: "\<And>s. finite s \<Longrightarrow> set (iterate s) = s"
  defines "fk \<equiv> fwd_key (li_prefix li) (li_skh li) (li_list li)"
  shows "vio_ok li view (diff_at cls Old New lv0 p)
    (diff_partition wk iterate (li_skh li) (fk vo) (fk vn) (li_token li)
       (state_key (li_prefix li) (li_skh li) (li_list li)) old_card new_card parts renewal part n)
    (\<lambda>_. diff_at cls Old New lv0 (Suc p)) (diff_resumable cls Old New lv0)"
  unfolding diff_partition_def
proof (intro io_ok_bind io_ok_seq)
  let ?D = "diff_at cls Old New lv0 p" and ?E = "diff_resumable cls Old New lv0"
  have sizes: "0 < wc_pipeline_batch_size (wk_config wk)" "0 < wc_scan_count (wk_config wk)"
    using cfg by (auto simp: worker_config_ok_def)
  have fwd: "lv_fwd lv vo = Some Old" "lv_fwd lv vn = Some New" if "?D lv" for lv
    using that old new by (auto simp: diff_at_def diff_frame_def)
  have DE: "?E lv" if "?D lv" for lv using that by (rule diff_at_resumable)
  have part: "partition_for (wk_sha256 wk) m parts = part \<longleftrightarrow> cls m = p" for m
    using cls p by (metis unsigned_word_eqI)
  let ?ex = "{m \<in> Old. cls m = p}"
  have scan: "vio_ok li view ?D (scan_partition wk (fk vo) old_card part parts renewal)
      (\<lambda>ms lv. ms = {m \<in> Old. partition_for (wk_sha256 wk) m parts = part} \<and> ?D lv) ?E"
    unfolding fk_def by (rule scan_partition_ok [OF conf ns claim]) (use fwd DE in auto)
  show "vio_ok li view ?D (scan_partition wk (fk vo) old_card part parts renewal) (\<lambda>ms lv. ms = ?ex \<and> ?D lv) ?E"
    using scan unfolding part .
  fix existing
  show "vio_ok li view (\<lambda>lv. existing = ?ex \<and> ?D lv) (verify_scan_key_before wk (fk vn) new_card)
      (\<lambda>_ lv. existing = ?ex \<and> ?D lv) ?E"
    unfolding fk_def by (rule verify_before_ok [OF conf]) (use DE in auto)
  let ?S = "diff_seen cls Old New lv0 p"
  have SE: "?E lv" if "?S seen a lv" for seen a lv using that DE by (auto simp: diff_seen_def)
  have scan_new: "vio_ok li view (?S {} \<lparr>da_existing = ?ex, da_additions = []\<rparr>)
      (scan_set wk (fk vn) (\<lambda>members a. fold_io members (diff_member wk (li_skh li) (li_token li) part parts) a) renewal
         \<lparr>da_existing = ?ex, da_additions = []\<rparr>) (\<lambda>r. ?S New (snd r)) ?E"
    unfolding fk_def
  proof (rule scan_set_ok [OF conf ns claim, where s = New])
    show "lv_fwd lv vn = Some New" if "?S seen acc lv" for seen acc lv using that fwd by (auto simp: diff_seen_def)
    show "vio_ok li view (?S seen acc) (fold_io page (diff_member wk (li_skh li) (li_token li) part parts) acc)
        (?S (seen \<union> set page)) ?E" if "set page \<subseteq> New" for seen acc page
      using diff_page_ok [OF conf ns pre sizes(1) cls p(1) that] .
  qed (use SE in blast)
  show "vio_ok li view (\<lambda>lv. existing = ?ex \<and> ?D lv)
      (scan_set wk (fk vn) (\<lambda>members a. fold_io members (diff_member wk (li_skh li) (li_token li) part parts) a) renewal
         \<lparr>da_existing = existing, da_additions = []\<rparr>) (\<lambda>r. ?S New (snd r)) ?E"
  proof (rule io_ok_pure)
    assume e: "existing = ?ex"
    show "vio_ok li view ?D
      (scan_set wk (fk vn) (\<lambda>members a. fold_io members (diff_member wk (li_skh li) (li_token li) part parts) a) renewal
         \<lparr>da_existing = existing, da_additions = []\<rparr>) (\<lambda>r. ?S New (snd r)) ?E"
      unfolding e by (rule io_ok_pre [OF scan_new]) (simp add: diff_seen_def)
  qed
  fix r :: "u64 \<times> diff_acc"
  show "vio_ok li view (?S New (snd r)) (verify_scan_complete wk (fk vn) new_card (fst r)) (\<lambda>_. ?S New (snd r)) ?E"
    unfolding fk_def by (rule verify_complete_ok [OF conf]) (rule SE)
  let ?a = "snd r"
  let ?T = "\<lambda>lv. (da_existing ?a = ?ex - New) \<and> ?D lv \<and> (\<forall>m \<in> New. cls m = p \<longrightarrow> lv_rev lv m = Some True)"
  have flushed: "?T (rev_put (set (da_additions ?a)) True lv)" if S: "?S New ?a lv" for lv
  proof -
    have "?D (rev_put (set (da_additions ?a)) True lv)"
      using S by (intro diff_at_put) (auto simp: diff_seen_def)
    moreover have "rev_typed lv" using S by (auto simp: diff_seen_def diff_at_def diff_rev_def)
    ultimately show ?thesis using S by (auto simp: diff_seen_def rev_typed_def)
  qed
  show "vio_ok li view (?S New ?a)
      (when_io (da_additions ?a \<noteq> []) (fanout_members wk (li_skh li) (da_additions ?a) (li_token li) True)) (\<lambda>_. ?T) ?E"
  proof (rule io_ok_when)
    have "vio_ok li view (?S New ?a) (fanout_members wk (li_skh li) (da_additions ?a) (li_token li) True)
        (\<lambda>_ lv. \<exists>lv1. ?S New ?a lv1 \<and> lv = rev_put (set (da_additions ?a)) True lv1) ?E"
      if "set (da_additions ?a) \<subseteq> New"
      by (rule fanout_members_ok [OF conf ns pre sizes(1) SE]) (use diff_resumable_set that in blast)+
    then show "vio_ok li view (?S New ?a) (fanout_members wk (li_skh li) (da_additions ?a) (li_token li) True) (\<lambda>_. ?T) ?E"
    proof (cases "set (da_additions ?a) \<subseteq> New")
      case True
      note run = \<open>set (da_additions ?a) \<subseteq> New \<Longrightarrow> _\<close> [OF True]
      show ?thesis by (rule io_ok_cons [OF run]) (use flushed in auto)
    qed (auto simp: io_ok_def diff_seen_def)
    show "?T (list_view_of li (view w))" if "\<not> da_additions ?a \<noteq> []" "?S New ?a (list_view_of li (view w))" for w
      using flushed [OF that(2)] that(1) by simp
  qed
  let ?U = "\<lambda>lv. ?D lv \<and> diff_rev cls Old New (Suc p) lv"
  show "vio_ok li view ?T
      (for_each (chunks_of (wc_scan_count (wk_config wk)) (iterate (da_existing ?a)))
         (\<lambda>chunk. fanout_members wk (li_skh li) chunk (li_token li) False)) (\<lambda>_. ?U) ?E"
  proof (rule io_ok_pure)
    assume e: "da_existing ?a = ?ex - New"
    have ms: "set (iterate (da_existing ?a)) = ?ex - New" using iter [of "?ex - New"] fin e by simp
    let ?P = "\<lambda>lv. ?D lv \<and> (\<forall>m \<in> New. cls m = p \<longrightarrow> lv_rev lv m = Some True)"
    have "vio_ok li view ?P
        (for_each (chunks_of (wc_scan_count (wk_config wk)) (iterate (da_existing ?a)))
           (\<lambda>chunk. fanout_members wk (li_skh li) chunk (li_token li) False))
        (\<lambda>_ lv. \<exists>lv1. ?P lv1 \<and> lv = rev_put (set (iterate (da_existing ?a))) False lv1) ?E"
      by (rule fanout_chunks_ok [OF conf ns pre sizes]) (use DE diff_resumable_set ms in auto)
    then show "vio_ok li view ?P
        (for_each (chunks_of (wc_scan_count (wk_config wk)) (iterate (da_existing ?a)))
           (\<lambda>chunk. fanout_members wk (li_skh li) chunk (li_token li) False)) (\<lambda>_. ?U) ?E"
    proof (rule io_ok_cons)
      fix u w assume "\<exists>lv1. ?P lv1 \<and> list_view_of li (view w) = rev_put (set (iterate (da_existing ?a))) False lv1"
      then obtain lv1 where P: "?P lv1" and lv: "list_view_of li (view w) = rev_put (set (iterate (da_existing ?a))) False lv1"
        by blast
      have D: "?D (rev_put (set (iterate (da_existing ?a))) False lv1)"
        using P ms by (intro diff_at_put) auto
      have "rev_typed lv1" using P by (auto simp: diff_at_def diff_rev_def)
      then have "diff_rev cls Old New (Suc p) (rev_put (set (iterate (da_existing ?a))) False lv1)"
        using P ms by (intro diff_partition_done [OF D]) (auto simp: rev_typed_def)
      then show "?U (list_view_of li (view w))" using D lv by simp
    qed auto
  qed
  have nxt: "diff_at cls Old New lv0 (Suc p) (set_state (put_fields [(''diff_partition'', show_u64 (sat_add part 1))] h) lv)"
    if "?U lv" "lv_state lv = Some h" for lv h
  proof -
    have "unat (sat_add part 1) \<le> Suc p" using p(1) by (simp add: unat_sat_add)
    then show ?thesis
      using that diff_saved_put [of lv0 lv h] unfolding diff_at_def by (meson order.trans)
  qed
  have hs: "vio_ok li view ?U (hset wk (state_key (li_prefix li) (li_skh li) (li_list li))
        [(''diff_partition'', show_u64 (sat_add part 1))])
      (\<lambda>_ lv. \<exists>lv1 h. ?U lv1 \<and> lv_state lv1 = Some h
         \<and> lv = set_state (put_fields [(''diff_partition'', show_u64 (sat_add part 1))] h) lv1) ?E"
    by (rule hset_state_ok [OF conf ns]) (use DE nxt diff_at_resumable in blast)+
  show "vio_ok li view ?U (hset wk (state_key (li_prefix li) (li_skh li) (li_list li))
        [(''diff_partition'', show_u64 (sat_add part 1))]) (\<lambda>_. diff_at cls Old New lv0 (Suc p)) ?E"
    by (rule io_ok_cons [OF hs]) (use nxt in auto)
  show "vio_ok li view (diff_at cls Old New lv0 (Suc p)) (renew_now renewal) (\<lambda>_. diff_at cls Old New lv0 (Suc p)) ?E"
    by (rule renew_now_ok [OF claim ns]) (rule diff_at_resumable)
  show "vio_ok li view (diff_at cls Old New lv0 (Suc p)) (ret (n + usize_u64 (card existing)))
      (\<lambda>_. diff_at cls Old New lv0 (Suc p)) ?E"
    by (rule io_ok_ret)
qed

text \<open>The number of partitions, and the partition of a member.\<close>

definition partition_count :: "'w IdListSyncWorker \<Rightarrow> u64 \<Rightarrow> u64 \<Rightarrow> u64" where
  "partition_count wk old_card new_card =
     div_ceil (max (max old_card new_card) 1) (wc_diff_partition_max_members (wk_config wk))"

definition member_class :: "'w IdListSyncWorker \<Rightarrow> u64 \<Rightarrow> string \<Rightarrow> nat" where
  "member_class wk parts m = unat (partition_for (wk_sha256 wk) m parts)"

lemma partition_count_pos:
  assumes "worker_config_ok (wk_config wk)"
  shows "0 < partition_count wk a b"
proof -
  let ?x = "max (max a b) 1" and ?d = "wc_diff_partition_max_members (wk_config wk)"
  have x: "0 < unat ?x" by (auto simp: max_def word_le_nat_alt)
  have d: "0 < unat ?d" using assms by (simp add: worker_config_ok_def unat_gt_0)
  show ?thesis
  proof (cases "?x mod ?d = 0")
    case True
    then have "unat ?x mod unat ?d = 0" by (metis unat_mod unsigned_0)
    then have "0 < unat ?x div unat ?d" using x d by (metis Suc_leI div_greater_zero_iff dvd_imp_le mod_0_imp_dvd)
    then show ?thesis using True by (simp add: partition_count_def div_ceil_def word_less_nat_alt unat_div)
  next
    case False
    have d1: "unat ?d \<noteq> 1"
    proof
      assume "unat ?d = 1"
      then have "unat (?x mod ?d) = unat (0 :: u64)" by (simp add: unat_mod)
      then show False using False by (metis unsigned_word_eqI)
    qed
    have "unat ?x div unat ?d < unat ?x" using x d d1 by (simp add: int_div_less_self)
    then have "unat (?x div ?d) < 2 ^ 64 - 1" using unat_u64_less [of ?x] by (simp add: unat_div)
    then have "unat (?x div ?d + 1) = unat (?x div ?d) + 1" by (simp add: unat_word_ariths)
    then show ?thesis using False by (simp add: partition_count_def div_ceil_def word_less_nat_alt)
  qed
qed

lemma member_class_less: "0 < parts \<Longrightarrow> member_class wk parts m < unat parts"
  by (auto simp: member_class_def partition_for_def unat_mod word_less_nat_alt max_def)

lemma diff_complete:
  assumes "diff_rev cls Old New p lv" and "\<And>m. cls m < p"
  shows "rev_members lv = New"
  using assms by (auto simp: diff_rev_def rev_members_def)

lemma apply_streamed_diff_ok:
  fixes wk :: "'w IdListSyncWorker" and new_card :: u64
  assumes conf: "redis_conforms sc (list_rely li) (wk_pool wk) view" and ns: "namespace_ok (li_skh li)"
    and pre: "wk_key_prefix wk = li_prefix li" and cfg: "worker_config_ok (wk_config wk)"
    and claim: "claim_ok sc li view renewal"
    and new: "lv_fwd lv0 vn = Some New" "finite New" and fin: "finite Old"
    and old: "case vo of None \<Rightarrow> Old = {} | Some v \<Rightarrow> lv_fwd lv0 v = Some Old" and card: "unat old_card = card Old"
    and iter: "\<And>s. finite s \<Longrightarrow> set (iterate s) = s"
  defines "fk \<equiv> fwd_key (li_prefix li) (li_skh li) (li_list li)"
    and "cls \<equiv> member_class wk (partition_count wk old_card new_card)"
  shows "vio_ok li view (diff_at cls Old New lv0 (unat resume))
    (apply_streamed_diff wk iterate (li_skh li) (map_option fk vo) (fk vn) (li_token li)
       (state_key (li_prefix li) (li_skh li) (li_list li)) resume old_card new_card renewal)
    (\<lambda>_ lv. diff_resumable cls Old New lv0 lv \<and> rev_members lv = New) (diff_resumable cls Old New lv0)"
proof (cases "old_card = 0")
  case True
  then have empty: "Old = {}" using card fin by simp
  let ?D = "diff_at cls Old New lv0 (unat resume)"
  have "vio_ok li view ?D (fanout_scan wk (li_skh li) (fk vn) (li_token li) True new_card renewal)
      (\<lambda>_ lv. \<exists>lv1. ?D lv1 \<and> lv = rev_put New True lv1) (diff_resumable cls Old New lv0)"
    unfolding fk_def
    by (rule fanout_scan_ok [OF conf ns pre _ claim])
      (use cfg new diff_at_resumable diff_resumable_set diff_at_fwd in \<open>auto simp: worker_config_ok_def\<close>)
  then have "vio_ok li view ?D (fanout_scan wk (li_skh li) (fk vn) (li_token li) True new_card renewal)
      (\<lambda>_ lv. diff_resumable cls Old New lv0 lv \<and> rev_members lv = New) (diff_resumable cls Old New lv0)"
  proof (rule io_ok_cons)
    fix u w assume "\<exists>lv1. ?D lv1 \<and> list_view_of li (view w) = rev_put New True lv1"
    then obtain lv1 where D: "?D lv1" and lv: "list_view_of li (view w) = rev_put New True lv1" by blast
    obtain ms where "New = set ms" using new(2) finite_list by metis
    then have "?D (rev_put New True lv1)" using diff_at_put(1) [OF D, of ms] by simp
    moreover have "rev_members (rev_put New True lv1) = New"
      using D empty by (auto simp: rev_members_def diff_at_def diff_rev_def rev_typed_def)
    ultimately show "diff_resumable cls Old New lv0 (list_view_of li (view w)) \<and> rev_members (list_view_of li (view w)) = New"
      using lv diff_at_resumable by metis
  qed auto
  then show ?thesis using True by (simp add: apply_streamed_diff_def)
next
  case False
  then have "0 < unat old_card" by (simp add: unat_gt_0)
  then have "Old \<noteq> {}" using card by auto
  then obtain v where v: "vo = Some v" "lv_fwd lv0 v = Some Old" using old by (cases vo) auto
  let ?parts = "partition_count wk old_card new_card"
  let ?E = "diff_resumable cls Old New lv0"
  have pos: "0 < ?parts" using cfg by (rule partition_count_pos)
  show ?thesis
    unfolding apply_streamed_diff_def Let_def partition_count_def [symmetric] v(1) option.map option.case
  proof (simp only: False if_False, rule io_ok_if)
    assume "?parts < resume"
    show "vio_ok li view (diff_at cls Old New lv0 (unat resume))
        (fail (ScanVerification (''resume partition '' @ show_u64 resume @ '' exceeds partition count '' @ show_u64 ?parts)))
        (\<lambda>_ lv. ?E lv \<and> rev_members lv = New) ?E"
      by (rule io_ok_fail) (rule diff_at_resumable)
  next
    assume le: "\<not> ?parts < resume"
    let ?D = "diff_at cls Old New lv0 (unat resume)"
    show "vio_ok li view ?D
        (bind (fold_io (u64_range 0 resume) (\<lambda>partition n.
                 bind (scan_partition wk (fk v) old_card partition ?parts renewal) (\<lambda>members.
                 ret (n + usize_u64 (card members)))) 0) (\<lambda>n.
         bind (fold_io (u64_range resume ?parts)
                 (diff_partition wk iterate (li_skh li) (fk v) (fk vn) (li_token li)
                   (state_key (li_prefix li) (li_skh li) (li_list li)) old_card new_card ?parts renewal) n) (\<lambda>total.
         if total \<noteq> old_card
         then fail (ScanVerification (''old distinct total '' @ show_u64 total @ '' != SCARD '' @ show_u64 old_card))
         else ret ()))) (\<lambda>_ lv. ?E lv \<and> rev_members lv = New) ?E"
    proof (intro io_ok_bind)
      show "vio_ok li view ?D (fold_io (u64_range 0 resume) (\<lambda>partition n.
                 bind (scan_partition wk (fk v) old_card partition ?parts renewal) (\<lambda>members.
                 ret (n + usize_u64 (card members)))) 0) (\<lambda>_. ?D) ?E"
      proof (rule io_ok_fold [where I = "\<lambda>_ _ w. ?D (list_view_of li (view w))"], rule io_ok_bind)
        fix i and n :: u64
        show "vio_ok li view ?D (scan_partition wk (fk v) old_card (u64_range 0 resume ! i) ?parts renewal) (\<lambda>_. ?D) ?E"
          unfolding fk_def
          by (rule io_ok_cons [OF scan_partition_ok [OF conf ns claim, where P = ?D and E = ?E and s = Old]])
            (use v diff_at_resumable diff_at_fwd in auto)
      qed (rule io_ok_ret)
      let ?I = "\<lambda>i (_ :: u64) lv. diff_at cls Old New lv0 (unat resume + i) lv"
      have len: "length (u64_range resume ?parts) = unat ?parts - unat resume" by (simp add: u64_range_def)
      have runs: "vio_ok li view (?I 0 n) (fold_io (u64_range resume ?parts)
          (diff_partition wk iterate (li_skh li) (fk v) (fk vn) (li_token li)
             (state_key (li_prefix li) (li_skh li) (li_list li)) old_card new_card ?parts renewal) n)
          (?I (length (u64_range resume ?parts))) ?E" for n
      proof (rule io_ok_fold [where I = "\<lambda>i n w. ?I i n (list_view_of li (view w))"])
        fix i k assume i: "i < length (u64_range resume ?parts)"
        then have lt: "unat resume + i < unat ?parts" using len by simp
        then have nth: "u64_range resume ?parts ! i = of_nat (unat resume + i)" by (simp add: u64_range_def)
        have un: "unat (of_nat (unat resume + i) :: u64) = unat resume + i"
          using lt unat_u64_less [of ?parts] by (simp only: unat_of_nat_below)
        then have "(of_nat (unat resume + i) :: u64) < ?parts" using lt by (simp add: word_less_nat_alt)
        from diff_partition_ok [OF conf ns pre cfg claim member_class_def un this v(2) new(1) fin iter] nth
        show "vio_ok li view (?I i k) (diff_partition wk iterate (li_skh li) (fk v) (fk vn) (li_token li)
             (state_key (li_prefix li) (li_skh li) (li_list li)) old_card new_card ?parts renewal (u64_range resume ?parts ! i) k)
            (?I (Suc i)) ?E"
          by (simp add: fk_def cls_def)
      qed
      let ?F = "\<lambda>lv. ?E lv \<and> rev_members lv = New"
      show "vio_ok li view ?D (fold_io (u64_range resume ?parts)
          (diff_partition wk iterate (li_skh li) (fk v) (fk vn) (li_token li)
             (state_key (li_prefix li) (li_skh li) (li_list li)) old_card new_card ?parts renewal) n) (\<lambda>_. ?F) ?E" for n
      proof (rule io_ok_cons [OF runs [of n]])
        fix a w assume D: "?I (length (u64_range resume ?parts)) a (list_view_of li (view w))"
        have "unat resume + length (u64_range resume ?parts) = unat ?parts" using le len by (simp add: word_less_nat_alt)
        then have "rev_members (list_view_of li (view w)) = New"
          using D member_class_less [OF pos, of wk]
          by (intro diff_complete [of cls Old New "unat ?parts"]) (simp_all add: diff_at_def cls_def)
        then show "?F (list_view_of li (view w))" using diff_at_resumable [OF D] by simp
      qed simp_all
      show "vio_ok li view ?F
          (if total \<noteq> old_card
           then fail (ScanVerification (''old distinct total '' @ show_u64 total @ '' != SCARD '' @ show_u64 old_card))
           else ret ()) (\<lambda>_. ?F) ?E" for total
        by (auto intro: io_ok_ret io_ok_fail)
    qed
  qed
qed


text \<open>
  C18: the move of the reverse index to a new file always ends and can be taken up by another worker
  from every point where it may fail. A failed attempt leaves a state in which the members below the
  saved partition are done and no member outside the two sets was touched. After success exactly the
  members of the new set have the list's token.
\<close>

theorem streamed_diff_resumable:
  fixes wk :: "'w IdListSyncWorker" and new_card :: u64
  assumes "redis_conforms sc (list_rely li) (wk_pool wk) view" and "namespace_ok (li_skh li)"
    and "wk_key_prefix wk = li_prefix li" and "worker_config_ok (wk_config wk)"
    and "claim_ok sc li view renewal"
    and "lv_fwd lv0 vn = Some New" and "finite New" and "finite Old"
    and "case vo of None \<Rightarrow> Old = {} | Some v \<Rightarrow> lv_fwd lv0 v = Some Old" and "unat old_card = card Old"
    and "\<And>s. finite s \<Longrightarrow> set (iterate s) = s"
    and "cls = member_class wk (partition_count wk old_card new_card)"
    and "diff_at cls Old New lv0 (unat resume) (list_view_of li (view w))"
  shows "\<exists>res w'. apply_streamed_diff wk iterate (li_skh li)
        (map_option (fwd_key (li_prefix li) (li_skh li) (li_list li)) vo)
        (fwd_key (li_prefix li) (li_skh li) (li_list li) vn) (li_token li)
        (state_key (li_prefix li) (li_skh li) (li_list li)) resume old_card new_card renewal w = Some (res, w')
    \<and> (case res of
         Inl _ \<Rightarrow> diff_resumable cls Old New lv0 (list_view_of li (view w'))
       | Inr _ \<Rightarrow> diff_resumable cls Old New lv0 (list_view_of li (view w'))
           \<and> rev_members (list_view_of li (view w')) = New)"
  using apply_streamed_diff_ok [OF assms(1-11), of new_card resume] assms(13)
  unfolding assms(12) io_ok_def by blast

subsection \<open>A rotation on a local service\<close>

definition rotation_keyspace :: keyspace where
  "rotation_keyspace =
     [state_key [] ''abcd'' ''l'' \<mapsto> \<lparr>re_value = VHash sample_state_hash, re_ttl = None\<rparr>,
      claim_key [] ''abcd'' ''l'' \<mapsto> \<lparr>re_value = VString ''h'', re_ttl = Some 60\<rparr>,
      fwd_key [] ''abcd'' ''l'' ''v'' \<mapsto> \<lparr>re_value = VSet {''a''}, re_ttl = None\<rparr>,
      fwd_key [] ''abcd'' ''l'' ''w'' \<mapsto> \<lparr>re_value = VSet {''b''}, re_ttl = None\<rparr>,
      member_key [] ''abcd'' ''a'' \<mapsto> \<lparr>re_value = VSet {show_u64 1}, re_ttl = None\<rparr>]"

lemma sample_claim_apart:
  "claim_key [] ''abcd'' ''l'' \<noteq> state_key [] ''abcd'' ''l''" "claim_key [] ''abcd'' ''l'' \<noteq> fwd_key [] ''abcd'' ''l'' v"
  "claim_key [] ''abcd'' ''l'' \<noteq> member_key [] ''abcd'' m" "claim_key [] ''abcd'' ''l'' \<noteq> dict_key [] ''abcd''"
  using not_owned(1) [of sample_li] sample_namespace by (auto simp: owned_def sample_li_def)

lemmas sample_keys = list_keys [OF sample_namespace] sample_claim_apart sample_claim_apart [symmetric]

lemmas diff_eval = apply_streamed_diff_def div_ceil_def u64_range_def partition_for_def diff_partition_def
  scan_partition_def verify_scan_key_before_def scan_set_def scan_pages.simps sscan_page_def renew_every_def
  lock_renewal_scan_pages_def verify_scan_complete_def usize_u64_def diff_member_def fanout_members_def
  chunks_of.simps member_cmd_def sat_add_def

lemma rotation_runs:
  "\<exists>w'. apply_streamed_diff (sample_worker []) sorted_list_of_set ''abcd'' (Some (fwd_key [] ''abcd'' ''l'' ''v''))
       (fwd_key [] ''abcd'' ''l'' ''w'') 1 (state_key [] ''abcd'' ''l'') 0 1 1 sample_renewal
       (rotation_keyspace, ()) = Some (Inr (), w')"
  by (simp add: diff_eval local_eval worker_eval rotation_keyspace_def sample_state_hash_def sample_keys)

lemma rotation_view:
  "lv_fwd (list_view_of sample_li rotation_keyspace) ''v'' = Some {''a''}"
  "lv_fwd (list_view_of sample_li rotation_keyspace) ''w'' = Some {''b''}"
  "lv_rev (list_view_of sample_li rotation_keyspace) m = Some (m = ''a'')"
  "lv_state (list_view_of sample_li rotation_keyspace) = Some sample_state_hash"
  by (simp_all add: list_view_of_def sample_li_def rotation_keyspace_def sample_keys set_at_def hash_at_def)

lemma rotation_start:
  "diff_at cls {''a''} {''b''} (list_view_of sample_li rotation_keyspace) 0 (list_view_of sample_li rotation_keyspace)"
  by (auto simp: diff_at_def diff_rev_def rev_typed_def diff_frame_def diff_saved_def rotation_view
      sample_state_hash_def unwrap_or_def)

lemma sample_claim: "claim_ok local_scans sample_li fst sample_renewal"
  by (simp add: claim_ok_def claim_frame_def sample_renewal_def sample_conforms)
    (simp add: list_rely_def sample_li_def)

theorem streamed_diff_resumable_witness:
  "\<exists>w'. apply_streamed_diff (sample_worker []) sorted_list_of_set ''abcd'' (Some (fwd_key [] ''abcd'' ''l'' ''v''))
       (fwd_key [] ''abcd'' ''l'' ''w'') 1 (state_key [] ''abcd'' ''l'') 0 1 1 sample_renewal
       (rotation_keyspace, ()) = Some (Inr (), w') \<and> rev_members (list_view_of sample_li (fst w')) = {''b''}"
proof -
  let ?wk = "sample_worker []" and ?lv = "list_view_of sample_li rotation_keyspace"
  have wk: "redis_conforms local_scans (list_rely sample_li) (wk_pool ?wk) fst" "namespace_ok (li_skh sample_li)"
    "wk_key_prefix ?wk = li_prefix sample_li" "worker_config_ok (wk_config ?wk)"
    by (simp_all add: sample_worker_def sample_conforms sample_li_def namespace_ok_def worker_config_ok_def
        worker_config_default_def)
  have old: "case Some ''v'' of None \<Rightarrow> {''a''} = {} | Some v \<Rightarrow> lv_fwd ?lv v = Some {''a''}" by (simp add: rotation_view)
  have start: "diff_at cls {''a''} {''b''} ?lv (unat (0 :: u64)) (list_view_of sample_li (fst (rotation_keyspace, ())))" for cls
    using rotation_start by simp
  have fin: "finite {''b''}" "finite {''a''}" and one: "unat (1 :: u64) = card {''a''}" by simp_all
  note run = streamed_diff_resumable [OF wk sample_claim rotation_view(2) fin old one _ refl start,
      where iterate = sorted_list_of_set and new_card = 1]
  show ?thesis using run rotation_runs by (auto simp: sample_li_def)
qed

end
