(* ===== verification/ListRemoval.thy ===== *)
theory ListRemoval
  imports StreamedDiff
begin

text \<open>
  Removing a list: \<open>idlist_membership/worker/removal.rs\<close>, and the recovery scan
  \<open>clear_reverse_token\<close> of \<open>streamed_diff.rs\<close> that it falls back to. The theory shows that the scan
  removes the token from every member set that has it, and that a removal that fails anywhere can be
  repeated and ends with nothing left of the list.
\<close>

section \<open>Operations\<close>

text \<open>\<open>hget::<_, _, Option<u8>>\<close>, of which only the presence is used.\<close>

definition has_marker :: "'w IdListSyncWorker \<Rightarrow> string \<Rightarrow> string \<Rightarrow> ('w, WorkerError, bool) io" where
  "has_marker wk key field =
     redis_op (bind (command (wk_pool wk) (HGET key field)) (\<lambda>r.
       bind (as_text r) (\<lambda>v.
         (case v of
            None \<Rightarrow> ret False
          | Some s \<Rightarrow> (case parse_u64 s of
               None \<Rightarrow> fail reply_error
             | Some n \<Rightarrow> if n < 256 then ret True else fail reply_error)))))"

definition remove_reverse ::
  "'w IdListSyncWorker \<Rightarrow> string \<Rightarrow> string \<Rightarrow> ListSyncState \<Rightarrow> u64 \<Rightarrow> 'w ClaimRenewal \<Rightarrow> ('w, WorkerError, unit) io" where
  "remove_reverse wk skh forward_key st token renewal =
     bind (if 0 < unwrap_or (ls_size st) (ls_cardinality st)
           then bind (key_exists wk forward_key) (\<lambda>found. ret (\<not> found)) else ret False) (\<lambda>missing.
       if missing \<or> ls_reverse_index_disabled st \<or> ls_version st = [] \<or> ls_loading_version st \<noteq> None
          \<or> ls_reconcile_required st
       then clear_reverse_token wk skh token renewal
       else bind (scard wk forward_key) (\<lambda>card. fanout_scan wk skh forward_key token False card renewal))"

text \<open>The final pipeline; the state goes last.\<close>

definition removal_commands ::
  "'w IdListSyncWorker \<Rightarrow> string \<Rightarrow> string \<Rightarrow> ListSyncState \<Rightarrow> u64 option \<Rightarrow> redis_cmd list" where
  "removal_commands wk skh list st token =
     (case ls_loading_version st of
        None \<Rightarrow> []
      | Some version \<Rightarrow> [UNLINK (fwd_key (wk_key_prefix wk) skh list version)])
     @ [UNLINK (fwd_key (wk_key_prefix wk) skh list (ls_version st)),
        DEL (task_meta_key (wk_key_prefix wk) skh list),
        HDEL (dict_key (wk_key_prefix wk) skh)
          (name_field list # (case token of None \<Rightarrow> [] | Some t \<Rightarrow> [token_field t])),
        SREM (all_lists_key (wk_key_prefix wk) skh) list,
        DEL (state_key (wk_key_prefix wk) skh list)]"

definition apply_remove ::
  "'w IdListSyncWorker \<Rightarrow> string \<Rightarrow> string \<Rightarrow> ListSyncState \<Rightarrow> 'w ClaimRenewal \<Rightarrow> ('w, WorkerError, unit) io" where
  "apply_remove wk skh list st renewal =
     (let skey = state_key (wk_key_prefix wk) skh list;
          forward_key = fwd_key (wk_key_prefix wk) skh list (ls_version st);
          reverse_index = wc_enable_reverse_index (wk_config wk)
      in bind (has_marker wk skey ''removal_fanout_complete'') (\<lambda>fanout_complete.
         bind (redis_op (dict_get_token wk skh list)) (\<lambda>token.
         if reverse_index \<and> \<not> fanout_complete \<and> token = None \<and> ls_version st \<noteq> []
         then fail MissingDictionaryToken
         else
           seq (case token of
                  None \<Rightarrow> ret ()
                | Some t \<Rightarrow> when_io (reverse_index \<and> \<not> fanout_complete) (remove_reverse wk skh forward_key st t renewal))
          (seq (when_io (\<not> fanout_complete) (hset wk skey [(''removal_fanout_complete'', ''1'')]))
               (redis_op (seq (pipe (wk_pool wk) False (removal_commands wk skh list st token)) (ret ())))))))"

section \<open>Patterns\<close>

text \<open>
  The documented matching of \<open>SCAN ... MATCH\<close> on patterns without character classes: a star stands
  for any text, a question mark for any character, and a backslash makes the next character literal.
\<close>

fun classless :: "string \<Rightarrow> bool" where
  "classless [] = True"
| "classless (c # cs) =
     (if c = CHR 0x5C then (case cs of [] \<Rightarrow> False | _ # ds \<Rightarrow> classless ds)
      else c \<noteq> CHR ''['' \<and> classless cs)"

definition glob_ok :: "scans \<Rightarrow> bool" where
  "glob_ok sc \<longleftrightarrow> (\<forall>p s. classless p \<longrightarrow> sc_glob sc p s = glob p s)"

lemma local_glob_ok: "glob_ok local_scans"
  by (simp add: glob_ok_def local_scans_def)

lemma classless_escape: "classless (escape_glob x @ p) = classless p"
  by (induction x) simp_all

lemma glob_escape: "glob (escape_glob x @ p) s \<longleftrightarrow> (\<exists>r. s = x @ r \<and> glob p r)"
  by (induction x arbitrary: s) (auto split: list.splits)

lemma glob_star: "glob ''*'' s"
  by (induction s) simp_all

lemma glob_prefix:
  assumes "glob_ok sc"
  shows "sc_glob sc (escape_glob x @ ''*'') s \<longleftrightarrow> prefix x s"
proof -
  have "classless (escape_glob x @ ''*'')" by (simp add: classless_escape)
  then have "sc_glob sc (escape_glob x @ ''*'') s = glob (escape_glob x @ ''*'') s"
    using assms unfolding glob_ok_def by blast
  then show ?thesis using glob_star by (simp only: glob_escape prefix_def simp_thms)
qed

section \<open>Clearing the token\<close>

lemma member_key_prefix: "member_key pre skh m = member_key pre skh [] @ escape_component m"
  by (simp add: member_key_def apply_key_prefix_def Let_def)

lemma prefixed_not_owned:
  assumes "prefix (member_key (li_prefix li) (li_skh li) []) k"
    and "\<forall>m. k \<noteq> member_key (li_prefix li) (li_skh li) m"
  shows "\<not> owned li k"
proof -
  obtain r where "k = member_key (li_prefix li) (li_skh li) [] @ r" using assms(1) by (auto simp: prefix_def)
  then have k: "k = apply_key_prefix (li_prefix li) (''i:'' @ li_skh li @ r)"
    by (simp add: member_key_def apply_key_prefix_def Let_def)
  show ?thesis
    using assms(2) unfolding owned_def k by (auto simp: key_defs apply_key_prefix_inject)
qed

lemma view_srem_prefixed:
  assumes ns: "namespace_ok (li_skh li)" and p: "prefix (member_key (li_prefix li) (li_skh li) []) k"
    and st: "step_ok sc (SREM k (show_u64 (li_token li))) ks r ks'"
  shows "list_view_of li ks' = rev_put {m. member_key (li_prefix li) (li_skh li) m = k} False (list_view_of li ks)"
proof (cases "\<exists>m. member_key (li_prefix li) (li_skh li) m = k")
  case True
  then obtain m where m: "k = member_key (li_prefix li) (li_skh li) m" by blast
  then have "{m'. member_key (li_prefix li) (li_skh li) m' = k} = {m}" using ns by (auto simp: member_key_eq)
  then show ?thesis
    using view_rev_cmd [OF ns, of sc False m] st m by (simp add: member_cmd_def set_rev_put)
next
  case False
  then have "\<not> owned li k" using prefixed_not_owned [OF p] by metis
  moreover have "ks' k' = ks k'" if "k' \<noteq> k" for k'
    using st that by (auto simp: step_ok_determined on_set_def key_simps split: option.splits)
  ultimately have "list_view_of li ks' = list_view_of li ks" using view_owned by metis
  then show ?thesis using False by simp
qed


lemma clear_pages_unfold:
  "clear_pages wk pattern token renewal cursor =
     bind (renew_now renewal) (\<lambda>_.
     bind (redis_op (bind (command (wk_pool wk) (SCAN cursor pattern (wc_scan_count (wk_config wk)))) as_page)) (\<lambda>np.
     bind (for_each (chunks_of (wc_pipeline_batch_size (wk_config wk)) (snd np)) (\<lambda>batch.
             redis_op (seq (pipe (wk_pool wk) False (map (\<lambda>key. SREM key (show_u64 token)) batch)) (ret ())))) (\<lambda>_.
       if fst np = 0 then ret () else clear_pages wk pattern token renewal (fst np))))"
  by (rule ext, subst clear_pages.simps) (simp only: if_io)

text \<open>A page of the scan has the prefix, and every member set with the token is on it or still ahead.\<close>

definition page_covers :: "scans \<Rightarrow> list_id \<Rightarrow> u64 \<Rightarrow> u64 \<times> string list \<Rightarrow> list_view \<Rightarrow> bool" where
  "page_covers sc li cur np lv \<longleftrightarrow>
     (\<forall>m. lv_rev lv m = Some True \<longrightarrow> key_ahead sc cur (member_key (li_prefix li) (li_skh li) m) \<longrightarrow>
        member_key (li_prefix li) (li_skh li) m \<in> set (snd np)
        \<or> (fst np \<noteq> 0 \<and> key_ahead sc (fst np) (member_key (li_prefix li) (li_skh li) m)))
     \<and> (\<forall>k \<in> set (snd np). prefix (member_key (li_prefix li) (li_skh li) []) k)
     \<and> (fst np \<noteq> 0 \<longrightarrow> sc_key_left sc (fst np) < sc_key_left sc cur)"

lemma scan_page_ok:
  assumes conf: "redis_conforms sc (list_rely li) (wk_pool wk) view" and g: "glob_ok sc"
    and pre: "wk_key_prefix wk = li_prefix li" and PE: "\<And>lv. P lv \<Longrightarrow> E lv"
  shows "vio_ok li view P
    (redis_op (bind (command (wk_pool wk) (SCAN cur (member_pattern wk (li_skh li)) n)) as_page))
    (\<lambda>np lv. P lv \<and> page_covers sc li cur np lv) E"
proof (intro redis_op_ok io_ok_bind)
  let ?c = "SCAN cur (member_pattern wk (li_skh li)) n"
  let ?Q = "\<lambda>r lv. \<exists>np. r = RPage (fst np) (snd np) \<and> P lv \<and> page_covers sc li cur np lv"
  show "vio_ok li view P (command (wk_pool wk) ?c) ?Q E"
  proof (rule command_ok [OF conf])
    fix ks r ks' assume P: "P (list_view_of li ks)" and st: "step_ok sc ?c ks r ks'"
    let ?K = "{k \<in> dom ks. prefix (member_key (li_prefix li) (li_skh li) []) k}"
    have "ks' = ks" and "\<exists>nxt page. r = RPage nxt page \<and> key_page_ok sc ?K cur nxt page"
      using st glob_prefix [OF g] by (simp_all add: step_ok_def member_pattern_def pre)
    moreover from this obtain nxt page where r: "r = RPage nxt page" "key_page_ok sc ?K cur nxt page" by blast
    moreover have "member_key (li_prefix li) (li_skh li) m \<in> ?K" if "lv_rev (list_view_of li ks) m = Some True" for m
      using that member_key_prefix [of "li_prefix li" "li_skh li" m]
      by (auto simp: list_view_of_def set_at_def split: option.splits)
    ultimately have "page_covers sc li cur (nxt, page) (list_view_of li ks')"
      by (auto simp: page_covers_def key_page_ok_def)
    then show "?Q r (list_view_of li ks') \<and> E (list_view_of li ks')"
      using r(1) P PE \<open>ks' = ks\<close> by (auto intro!: exI [of _ "(nxt, page)"])
  qed (use PE stable_list_view in auto)
  show "vio_ok li view (?Q r) (as_page r) (\<lambda>np lv. P lv \<and> page_covers sc li cur np lv) E" for r
    by (auto simp: io_ok_def as_page_def ret_def)
qed

text \<open>
  Other clients may add and remove keys during the scan; every member set that has the token has it
  until the scan reaches it, so it is reached.
\<close>

lemma clear_reverse_token_ok:
  assumes conf: "redis_conforms sc (list_rely li) (wk_pool wk) view" and ns: "namespace_ok (li_skh li)"
    and pre: "wk_key_prefix wk = li_prefix li" and size: "0 < wc_pipeline_batch_size (wk_config wk)"
    and claim: "claim_ok sc li view renewal" and g: "glob_ok sc"
    and closed: "\<And>m lv. P lv \<Longrightarrow> P (set_rev m False lv)"
  shows "vio_ok li view P (clear_reverse_token wk (li_skh li) (li_token li) renewal)
    (\<lambda>_ lv. P lv \<and> rev_members lv = {}) P"
proof -
  let ?mk = "member_key (li_prefix li) (li_skh li)"
  let ?I = "\<lambda>cur lv. P lv \<and> (\<forall>m. lv_rev lv m = Some True \<longrightarrow> key_ahead sc cur (?mk m))"
  have put: "P (rev_put {m. ?mk m = k} False lv)" if "P lv" for k lv
  proof (cases "\<exists>m. ?mk m = k")
    case True
    then obtain m where "k = ?mk m" by blast
    then have "{m'. ?mk m' = k} = {m}" using ns by (auto simp: member_key_eq)
    then show ?thesis using closed [OF that, of m] by (simp add: set_rev_put)
  qed (use that in simp)
  have "vio_ok li view (?I cur) (clear_pages wk (member_pattern wk (li_skh li)) (li_token li) renewal cur)
      (\<lambda>_ lv. P lv \<and> rev_members lv = {}) P" for cur
  proof (induction "sc_key_left sc cur" arbitrary: cur rule: less_induct)
    case less
    let ?J = "\<lambda>np lv. ?I cur lv \<and> page_covers sc li cur np lv"
    let ?K = "\<lambda>np lv. (\<exists>lv0. ?J np lv0 \<and> lv = rev_put (\<Union>k \<in> set (snd np). {m. ?mk m = k}) False lv0) \<and> P lv"
    show ?case
      unfolding clear_pages_unfold [of wk _ _ renewal cur]
    proof (intro io_ok_bind)
      show "vio_ok li view (?I cur) (renew_now renewal) (\<lambda>_. ?I cur) P" by (rule renew_now_ok [OF claim ns]) simp
      show "vio_ok li view (?I cur)
          (redis_op (bind (command (wk_pool wk) (SCAN cur (member_pattern wk (li_skh li)) (wc_scan_count (wk_config wk)))) as_page))
          ?J P"
        by (rule scan_page_ok [OF conf g pre]) simp
      show "vio_ok li view (?J np) (for_each (chunks_of (wc_pipeline_batch_size (wk_config wk)) (snd np)) (\<lambda>batch.
             redis_op (seq (pipe (wk_pool wk) False (map (\<lambda>key. SREM key (show_u64 (li_token li))) batch)) (ret ()))))
          (\<lambda>_. ?K np) P" for np
      proof (cases "\<forall>k \<in> set (snd np). prefix (?mk []) k")
        case True
        have run: "vio_ok li view (?J np) (for_each (chunks_of (wc_pipeline_batch_size (wk_config wk)) (snd np)) (\<lambda>batch.
             redis_op (seq (pipe (wk_pool wk) False (map (\<lambda>key. SREM key (show_u64 (li_token li))) batch)) (ret ()))))
            (\<lambda>_ lv. \<exists>lv0. ?J np lv0 \<and> lv = rev_put (\<Union>k \<in> set (snd np). {m. ?mk m = k}) False lv0) P"
          by (rule rev_batches_ok [OF conf size]) (use view_srem_prefixed [OF ns] True put in auto)
        have keep: "P (rev_put (\<Union>k \<in> set ks. {m. ?mk m = k}) False lv)" if "P lv" for ks lv
          using that by (induction ks arbitrary: lv) (simp_all add: put flip: rev_put_Un)
        show ?thesis by (rule io_ok_cons [OF run]) (use keep in auto)
      qed (auto simp: io_ok_def page_covers_def)
      show "vio_ok li view (?K np)
          (if fst np = 0 then ret () else clear_pages wk (member_pattern wk (li_skh li)) (li_token li) renewal (fst np))
          (\<lambda>_ lv. P lv \<and> rev_members lv = {}) P" for np
      proof (rule io_ok_if)
        have left: "P lv \<and> (lv_rev lv m = Some True \<longrightarrow> fst np \<noteq> 0 \<and> key_ahead sc (fst np) (?mk m))"
          if k: "?K np lv" for lv m
        proof -
          obtain lv0 where J: "?J np lv0" and lv: "lv = rev_put (\<Union>k \<in> set (snd np). {m. ?mk m = k}) False lv0"
            using k by blast
          have "lv_rev lv0 m = Some True \<and> ?mk m \<notin> set (snd np)" if "lv_rev lv m = Some True"
            using that unfolding lv by (auto split: if_splits)
          then show ?thesis using J k unfolding page_covers_def by blast
        qed
        show "vio_ok li view (?K np) (ret ()) (\<lambda>_ lv. P lv \<and> rev_members lv = {}) P" if z: "fst np = 0"
          by (rule io_ok_ret) (use left z in \<open>unfold rev_members_def, blast\<close>)
        assume nz: "fst np \<noteq> 0"
        show "vio_ok li view (?K np) (clear_pages wk (member_pattern wk (li_skh li)) (li_token li) renewal (fst np))
            (\<lambda>_ lv. P lv \<and> rev_members lv = {}) P"
        proof (cases "sc_key_left sc (fst np) < sc_key_left sc cur")
          case True
          show ?thesis by (rule io_ok_pre [OF less.hyps [OF True]]) (use left in blast)
        qed (use nz in \<open>auto simp: io_ok_def page_covers_def\<close>)
      qed
    qed
  qed
  from this [of 0] show ?thesis by (simp add: clear_reverse_token_def key_ahead_def)
qed


section \<open>States from which a list can be removed\<close>

definition fwd_typed :: "list_view \<Rightarrow> bool" where
  "fwd_typed lv \<longleftrightarrow> (\<forall>v. \<exists>F. lv_fwd lv v = Some F \<and> finite F)"

text \<open>When the forward set \<open>F\<close> of the current version cannot be trusted to have all members with the token.\<close>

definition untrusted :: "ListSyncState \<Rightarrow> string set \<Rightarrow> bool" where
  "untrusted st F \<longleftrightarrow>
     0 < unwrap_or (ls_size st) (ls_cardinality st) \<and> F = {} \<or> ls_reverse_index_disabled st
     \<or> ls_version st = [] \<or> ls_loading_version st \<noteq> None \<or> ls_reconcile_required st"

text \<open>
  The token is on members of the forward set only, unless the state says that it may be elsewhere;
  once the marker is set, or the list has no token, it is on no member.
\<close>

definition removable :: "list_id \<Rightarrow> bool \<Rightarrow> list_view \<Rightarrow> bool" where
  "removable li rv lv \<longleftrightarrow>
     rev_typed lv \<and> fwd_typed lv
     \<and> (\<exists>h n F. lv_state lv = Some h \<and> lv_name lv = Some n \<and> n \<in> {None, Some (show_u64 (li_token li))}
          \<and> lv_fwd lv (ls_version (from_hash_fields h)) = Some F
          \<and> (rv \<longrightarrow>
              (if h ''removal_fanout_complete'' \<noteq> None \<or> n = None then rev_members lv = {}
               else untrusted (from_hash_fields h) F \<or> rev_members lv \<subseteq> F)))"

text \<open>Nothing is left of the list.\<close>

definition removed :: "bool \<Rightarrow> ListSyncState \<Rightarrow> list_view \<Rightarrow> bool" where
  "removed rv st lv \<longleftrightarrow>
     lv_state lv = Some (\<lambda>_. None) \<and> lv_name lv = Some None \<and> lv_fwd lv (ls_version st) = Some {}
     \<and> (\<forall>v. ls_loading_version st = Some v \<longrightarrow> lv_fwd lv v = Some {}) \<and> (rv \<longrightarrow> rev_members lv = {})"

text \<open>The state read at the start, and what the marker says.\<close>

definition removing :: "list_id \<Rightarrow> bool \<Rightarrow> ListSyncState \<Rightarrow> bool \<Rightarrow> list_view \<Rightarrow> bool" where
  "removing li rv st marked lv \<longleftrightarrow>
     removable li rv lv
     \<and> (\<exists>h. lv_state lv = Some h \<and> from_hash_fields h = st \<and> (marked \<longleftrightarrow> h ''removal_fanout_complete'' \<noteq> None))"

text \<open>All reverse entries are gone, and the state says so.\<close>

definition fanned_out :: "list_id \<Rightarrow> bool \<Rightarrow> list_view \<Rightarrow> bool" where
  "fanned_out li rv lv \<longleftrightarrow>
     rev_typed lv \<and> fwd_typed lv \<and> (rv \<longrightarrow> rev_members lv = {})
     \<and> (\<exists>n. lv_name lv = Some n \<and> n \<in> {None, Some (show_u64 (li_token li))}) \<and> (\<exists>h. lv_state lv = Some h)"

lemma fanned_out_removable: "fanned_out li rv lv \<Longrightarrow> removable li rv lv"
  unfolding fanned_out_def removable_def fwd_typed_def by fastforce

lemma removing_removable: "removing li rv st b lv \<Longrightarrow> removable li rv lv"
  by (simp add: removing_def)

lemma rev_members_set_rev: "rev_members (set_rev m False lv) \<subseteq> rev_members lv"
  by (auto simp: rev_members_def set_rev_def split: if_splits)

lemma removable_set_rev: "removable li rv lv \<Longrightarrow> removable li rv (set_rev m False lv)"
  using rev_members_set_rev [of m lv]
  unfolding removable_def fwd_typed_def rev_typed_def by (fastforce simp: set_rev_def)

lemma removing_set_rev: "removing li rv st b lv \<Longrightarrow> removing li rv st b (set_rev m False lv)"
  unfolding removing_def using removable_set_rev by (fastforce simp: set_rev_def)

section \<open>The steps of a removal\<close>

lemma has_marker_ok:
  assumes conf: "redis_conforms sc (list_rely li) (wk_pool wk) view" and PE: "\<And>lv. P lv \<Longrightarrow> E lv"
  shows "vio_ok li view P (has_marker wk (state_key (li_prefix li) (li_skh li) (li_list li)) f)
    (\<lambda>b lv. P lv \<and> (\<exists>h. lv_state lv = Some h \<and> (b \<longleftrightarrow> h f \<noteq> None))) E"
  unfolding has_marker_def
proof (intro redis_op_ok io_ok_bind)
  let ?R = "\<lambda>r lv. P lv \<and> (\<exists>h. lv_state lv = Some h \<and> r = (case h f of None \<Rightarrow> RNil | Some v \<Rightarrow> RBulk v))"
  let ?T = "\<lambda>v lv. P lv \<and> (\<exists>h. lv_state lv = Some h \<and> v = h f)"
  show "vio_ok li view P (command (wk_pool wk) (HGET (state_key (li_prefix li) (li_skh li) (li_list li)) f)) ?R E"
    by (rule view_call_ok [OF conf])
      (use PE in \<open>auto simp: on_hash_def list_view_of_def split: option.splits\<close>)
  show "vio_ok li view (?R r) (as_text r) ?T E" for r
    by (auto simp: io_ok_def as_text_def ret_def split: option.splits)
  show "vio_ok li view (?T v)
      (case v of
         None \<Rightarrow> ret False
       | Some s \<Rightarrow> (case parse_u64 s of None \<Rightarrow> fail reply_error | Some n \<Rightarrow> if n < 256 then ret True else fail reply_error))
      (\<lambda>b lv. P lv \<and> (\<exists>h. lv_state lv = Some h \<and> (b \<longleftrightarrow> h f \<noteq> None))) E" for v
    by (rule reader_ok) (use PE in \<open>auto simp: ret_def fail_def split: option.splits if_splits\<close>)
qed

lemma get_token_ok:
  assumes conf: "redis_conforms sc (list_rely li) (wk_pool wk) view" and pre: "wk_key_prefix wk = li_prefix li"
    and PE: "\<And>lv. P lv \<Longrightarrow> E lv"
    and name: "\<And>lv. P lv \<Longrightarrow> \<exists>n. lv_name lv = Some n \<and> n \<in> {None, Some (show_u64 (li_token li))}"
  shows "vio_ok li view P (redis_op (dict_get_token wk (li_skh li) (li_list li)))
    (\<lambda>t lv. P lv \<and> t \<in> {None, Some (li_token li)} \<and> lv_name lv = Some (map_option show_u64 t)) E"
  unfolding dict_get_token_def pre
proof (intro redis_op_ok io_ok_bind)
  let ?R = "\<lambda>r lv. P lv \<and> (\<exists>n. lv_name lv = Some n \<and> r = (case n of None \<Rightarrow> RNil | Some v \<Rightarrow> RBulk v))"
  let ?T = "\<lambda>v lv. P lv \<and> lv_name lv = Some v"
  show "vio_ok li view P (command (wk_pool wk) (HGET (dict_key (li_prefix li) (li_skh li)) (name_field (li_list li)))) ?R E"
    by (rule view_call_ok [OF conf])
      (use PE in \<open>auto simp: on_hash_def list_view_of_def split: option.splits\<close>)
  show "vio_ok li view (?R r) (as_text r) ?T E" for r
    by (auto simp: io_ok_def as_text_def ret_def split: option.splits)
  show "vio_ok li view (?T v) (case v of None \<Rightarrow> ret None | Some s \<Rightarrow> bind (token_of_text s) (\<lambda>t. ret (Some t)))
      (\<lambda>t lv. P lv \<and> t \<in> {None, Some (li_token li)} \<and> lv_name lv = Some (map_option show_u64 t)) E" for v
  proof (cases v)
    case (Some s)
    show ?thesis
    proof (cases "s = show_u64 (li_token li)")
      case True
      then show ?thesis using Some by (auto simp: io_ok_def token_of_text_def parse_u64_show_u64 ret_def bind_def)
    next
      case False
      then have "\<not> ?T v lv" for lv using name [of lv] Some by auto
      then show ?thesis unfolding io_ok_def by blast
    qed
  qed (auto simp: io_ok_def ret_def)
qed

lemma remove_reverse_ok:
  fixes wk :: "'w IdListSyncWorker"
  assumes conf: "redis_conforms sc (list_rely li) (wk_pool wk) view" and ns: "namespace_ok (li_skh li)"
    and pre: "wk_key_prefix wk = li_prefix li" and cfg: "worker_config_ok (wk_config wk)"
    and claim: "claim_ok sc li view renewal" and g: "glob_ok sc"
  shows "vio_ok li view (\<lambda>lv. removing li True st False lv \<and> lv_name lv = Some (Some (show_u64 (li_token li))))
    (remove_reverse wk (li_skh li) (fwd_key (li_prefix li) (li_skh li) (li_list li) (ls_version st)) st (li_token li) renewal)
    (\<lambda>_ lv. removing li True st False lv \<and> rev_members lv = {}) (removable li True)"
  unfolding remove_reverse_def
proof (intro io_ok_bind)
  let ?k = "fwd_key (li_prefix li) (li_skh li) (li_list li) (ls_version st)"
  let ?P = "\<lambda>lv. removing li True st False lv \<and> lv_name lv = Some (Some (show_u64 (li_token li)))"
  let ?E = "removable li True"
  let ?M = "\<lambda>missing lv. ?P lv \<and> (\<forall>F. lv_fwd lv (ls_version st) = Some F \<longrightarrow>
      missing = (0 < unwrap_or (ls_size st) (ls_cardinality st) \<and> F = {}))"
  have PE: "?E lv" if "?P lv" for lv using that removing_removable by blast
  show "vio_ok li view ?P (if 0 < unwrap_or (ls_size st) (ls_cardinality st)
      then bind (key_exists wk ?k) (\<lambda>found. ret (\<not> found)) else ret False) ?M ?E"
  proof (rule io_ok_if, rule io_ok_bind)
    show "vio_ok li view ?P (key_exists wk ?k)
        (\<lambda>b lv. ?P lv \<and> (\<forall>s. lv_fwd lv (ls_version st) = Some s \<longrightarrow> b = (s \<noteq> {}))) ?E"
      using conf PE by (rule key_exists_ok)
  qed (auto intro!: io_ok_ret)
  have sizes: "0 < wc_pipeline_batch_size (wk_config wk)" using cfg by (simp add: worker_config_ok_def)
  let ?u = "\<lambda>missing. missing \<or> ls_reverse_index_disabled st \<or> ls_version st = [] \<or> ls_loading_version st \<noteq> None
      \<or> ls_reconcile_required st"
  show "vio_ok li view (?M missing)
      (if ?u missing then clear_reverse_token wk (li_skh li) (li_token li) renewal
       else bind (scard wk ?k) (\<lambda>card. fanout_scan wk (li_skh li) ?k (li_token li) False card renewal))
      (\<lambda>_ lv. removing li True st False lv \<and> rev_members lv = {}) ?E" for missing
  proof (rule io_ok_if)
    have "vio_ok li view (removing li True st False) (clear_reverse_token wk (li_skh li) (li_token li) renewal)
        (\<lambda>_ lv. removing li True st False lv \<and> rev_members lv = {}) (removing li True st False)"
      using conf ns pre sizes claim g removing_set_rev by (rule clear_reverse_token_ok)
    then show "vio_ok li view (?M missing) (clear_reverse_token wk (li_skh li) (li_token li) renewal)
        (\<lambda>_ lv. removing li True st False lv \<and> rev_members lv = {}) ?E"
      by (rule io_ok_cons) (auto dest: removing_removable)
    assume trusted: "\<not> ?u missing"
    let ?N = "\<lambda>F lv. removing li True st False lv \<and> lv_fwd lv (ls_version st) = Some F \<and> rev_members lv \<subseteq> F \<and> finite F"
    have start: "\<exists>F. ?N F lv" if m: "?M missing lv" for lv
    proof -
      obtain F where F: "lv_fwd lv (ls_version st) = Some F" "untrusted st F \<or> rev_members lv \<subseteq> F" "fwd_typed lv"
        using m by (auto simp: removing_def removable_def)
      then have "finite F" unfolding fwd_typed_def by (metis option.inject)
      moreover have "\<not> untrusted st F" using m trusted F(1) by (auto simp: untrusted_def)
      ultimately show ?thesis using F m by blast
    qed
    show "vio_ok li view (?M missing) (bind (scard wk ?k) (\<lambda>card. fanout_scan wk (li_skh li) ?k (li_token li) False card renewal))
        (\<lambda>_ lv. removing li True st False lv \<and> rev_members lv = {}) ?E"
    proof (rule io_ok_pre [where P' = "\<lambda>w. \<exists>F. ?N F (list_view_of li (view w))"], rule io_ok_ex)
      fix F
      have NE: "?E lv" if "?N F lv" for lv using that removing_removable by blast
      show "vio_ok li view (?N F) (bind (scard wk ?k) (\<lambda>card. fanout_scan wk (li_skh li) ?k (li_token li) False card renewal))
          (\<lambda>_ lv. removing li True st False lv \<and> rev_members lv = {}) ?E"
      proof (rule io_ok_bind)
        show "vio_ok li view (?N F) (scard wk ?k) (\<lambda>_. ?N F) ?E"
          by (rule io_ok_cons [OF scard_fwd_ok [OF conf, where P = "?N F" and E = ?E]]) (use NE in auto)
        fix n
        have closed: "?N F (set_rev m False lv)" if "?N F lv" for m lv
          using that removing_set_rev rev_members_set_rev [of m lv] by (auto simp: set_rev_def)
        show "vio_ok li view (?N F) (fanout_scan wk (li_skh li) ?k (li_token li) False n renewal)
          (\<lambda>_ lv. removing li True st False lv \<and> rev_members lv = {}) ?E"
        proof (cases "finite F")
          case True
          have run: "vio_ok li view (?N F) (fanout_scan wk (li_skh li) ?k (li_token li) False n renewal)
              (\<lambda>_ lv. \<exists>lv0. ?N F lv0 \<and> lv = rev_put F False lv0) (?N F)"
            by (rule fanout_scan_ok [OF conf ns pre sizes claim]) (use closed True in auto)
          obtain ms where ms: "F = set ms" using True finite_list by metis
          have fin: "?N F (rev_put F False lv)" if "?N F lv" for lv
            unfolding ms by (rule rev_put_closed [of ms "?N (set ms)"]) (use closed that ms in auto)
          show ?thesis
          proof (rule io_ok_cons [OF run])
            fix u w assume "\<exists>lv0. ?N F lv0 \<and> list_view_of li (view w) = rev_put F False lv0"
            then obtain lv0 where lv0: "?N F lv0" "list_view_of li (view w) = rev_put F False lv0" by blast
            have "rev_members (rev_put F False lv0) = {}" using lv0(1) by (auto simp: rev_members_def)
            then show "removing li True st False (list_view_of li (view w)) \<and> rev_members (list_view_of li (view w)) = {}"
              using fin [OF lv0(1)] lv0(2) by simp
          qed (use NE in auto)
        qed (auto simp: io_ok_def)
      qed
    qed (use start in blast)
  qed
qed


text \<open>What the commands of the final pipeline do to the list.\<close>

definition drop_name :: "list_view \<Rightarrow> list_view" where
  "drop_name lv = lv\<lparr>lv_name := Some None\<rparr>"

definition removal_acts :: "list_id \<Rightarrow> ListSyncState \<Rightarrow> u64 option \<Rightarrow> view_act list" where
  "removal_acts li st token =
     (case ls_loading_version st of
        None \<Rightarrow> []
      | Some v \<Rightarrow> [(UNLINK (fwd_key (li_prefix li) (li_skh li) (li_list li) v), set_fwd v {})])
     @ [(UNLINK (fwd_key (li_prefix li) (li_skh li) (li_list li) (ls_version st)), set_fwd (ls_version st) {}),
        (DEL (task_meta_key (li_prefix li) (li_skh li) (li_list li)), id),
        (HDEL (dict_key (li_prefix li) (li_skh li))
           (name_field (li_list li) # (case token of None \<Rightarrow> [] | Some t \<Rightarrow> [token_field t])), drop_name),
        (SREM (all_lists_key (li_prefix li) (li_skh li)) (li_list li), id),
        (DEL (state_key (li_prefix li) (li_skh li) (li_list li)), set_state (\<lambda>_. None))]"

lemma view_unlink_fwd:
  assumes "namespace_ok (li_skh li)"
    and "step_ok sc (UNLINK (fwd_key (li_prefix li) (li_skh li) (li_list li) v)) ks r ks'"
  shows "list_view_of li ks' = set_fwd v {} (list_view_of li ks)"
proof -
  have ks': "ks' = ks(fwd_key (li_prefix li) (li_skh li) (li_list li) v := None)"
    using assms(2) by (simp add: step_ok_determined)
  show ?thesis
    unfolding ks' using assms(1)
    by (intro list_view_eqI ext)
      (auto simp: list_view_of_def set_fwd_def key_simps list_keys ttl_at_def)
qed

lemma view_del_state:
  assumes "namespace_ok (li_skh li)"
    and "step_ok sc (DEL (state_key (li_prefix li) (li_skh li) (li_list li))) ks r ks'"
  shows "list_view_of li ks' = set_state (\<lambda>_. None) (list_view_of li ks)"
proof -
  have ks': "ks' = ks(state_key (li_prefix li) (li_skh li) (li_list li) := None)"
    using assms(2) by (simp add: step_ok_determined)
  show ?thesis
    unfolding ks' using assms(1)
    by (intro list_view_eqI ext) (auto simp: list_view_of_def set_state_def key_simps list_keys ttl_at_def)
qed

lemma view_other_key:
  assumes "\<not> owned li k" and "\<And>k'. k' \<noteq> k \<Longrightarrow> ks' k' = ks k'"
  shows "list_view_of li ks' = list_view_of li ks"
  by (rule view_owned) (use assms in metis)

lemma hdel_clears: "foldl (\<lambda>h f. h(f := None)) h fs f = (if f \<in> set fs then None else h f)"
  by (induction fs arbitrary: h) simp_all

lemma view_hdel_name:
  assumes ns: "namespace_ok (li_skh li)"
    and "step_ok sc (HDEL (dict_key (li_prefix li) (li_skh li)) (name_field (li_list li) # fs)) ks r ks'"
  shows "list_view_of li ks' = drop_name (list_view_of li ks)"
proof -
  let ?fs = "name_field (li_list li) # fs"
  obtain h where h: "hash_at ks (dict_key (li_prefix li) (li_skh li)) = Some h"
      "ks' = put_hash (dict_key (li_prefix li) (li_skh li)) (foldl (\<lambda>h f. h(f := None)) h ?fs) ks"
    using assms(2) by (auto simp: step_ok_determined on_hash_def split: option.splits)
  show ?thesis
    unfolding h(2) using ns h(1)
    by (intro list_view_eqI ext) (auto simp: list_view_of_def drop_name_def key_simps list_keys hdel_clears)
qed

lemma removal_acts_ok:
  assumes ns: "namespace_ok (li_skh li)"
  shows "acts_ok sc li (removal_acts li st token)"
proof -
  have meta: "list_view_of li ks' = list_view_of li ks"
    if "step_ok sc (DEL (task_meta_key (li_prefix li) (li_skh li) (li_list li))) ks r ks'" for ks r ks'
    by (rule view_other_key [OF not_owned(4) [OF ns]]) (use that in \<open>auto simp: step_ok_determined\<close>)
  have all: "list_view_of li ks' = list_view_of li ks"
    if "step_ok sc (SREM (all_lists_key (li_prefix li) (li_skh li)) m) ks r ks'" for m ks r ks'
    by (rule view_other_key [OF not_owned(2) [OF ns]])
      (use that in \<open>auto simp: step_ok_determined on_set_def key_simps split: option.splits\<close>)
  show ?thesis
    unfolding acts_ok_def removal_acts_def
    using view_unlink_fwd [OF ns] view_del_state [OF ns] view_hdel_name [OF ns] meta all
    by (auto split: option.splits)
qed

lemma removal_commands_acts:
  "wk_key_prefix wk = li_prefix li
     \<Longrightarrow> removal_commands wk (li_skh li) (li_list li) st token = map fst (removal_acts li st token)"
  by (simp add: removal_commands_def removal_acts_def split: option.splits)

lemma fanned_out_act:
  assumes "fanned_out li rv lv" and "a \<in> set (removal_acts li st token)"
  shows "fanned_out li rv (snd a lv)"
proof -
  have "snd a \<in> {id, drop_name, set_state (\<lambda>_. None)} \<union> range (\<lambda>v. set_fwd v {})"
    using assms(2) by (auto simp: removal_acts_def split: option.splits)
  then show ?thesis
    using assms(1)
    by (auto simp: fanned_out_def rev_typed_def fwd_typed_def rev_members_def drop_name_def set_state_def set_fwd_def)
qed

lemma removal_acts_removed:
  assumes "fanned_out li rv lv"
  shows "removed rv st (fold snd (removal_acts li st token) lv)"
  using assms
  by (auto simp: removal_acts_def removed_def fanned_out_def rev_members_def drop_name_def set_state_def set_fwd_def
      split: option.splits)

lemma removing_done:
  assumes "removing li rv st b lv" and "b \<or> lv_name lv = Some None \<or> rev_members lv = {} \<or> \<not> rv"
  shows "fanned_out li rv lv"
  using assms by (auto simp: removing_def removable_def fanned_out_def)

section \<open>A removal\<close>

lemma apply_remove_ok:
  fixes wk :: "'w IdListSyncWorker"
  assumes conf: "redis_conforms sc (list_rely li) (wk_pool wk) view" and ns: "namespace_ok (li_skh li)"
    and pre: "wk_key_prefix wk = li_prefix li" and cfg: "worker_config_ok (wk_config wk)"
    and claim: "claim_ok sc li view renewal" and g: "glob_ok sc"
  defines "rv \<equiv> wc_enable_reverse_index (wk_config wk)"
  shows "vio_ok li view (\<lambda>lv. removable li rv lv \<and> (\<exists>h. lv_state lv = Some h \<and> from_hash_fields h = st))
    (apply_remove wk (li_skh li) (li_list li) st renewal) (\<lambda>_. removed rv st) (removable li rv)"
  unfolding apply_remove_def Let_def pre rv_def [symmetric]
proof (intro io_ok_bind)
  let ?P = "\<lambda>lv. removable li rv lv \<and> (\<exists>h. lv_state lv = Some h \<and> from_hash_fields h = st)"
  let ?E = "removable li rv" and ?skey = "state_key (li_prefix li) (li_skh li) (li_list li)"
  let ?R = "removing li rv st"
  let ?T = "\<lambda>b t lv. ?R b lv \<and> t \<in> {None, Some (li_token li)} \<and> lv_name lv = Some (map_option show_u64 t)"
  have RE: "?E lv" if "?R b lv" for b lv using that by (rule removing_removable)
  show "vio_ok li view ?P (has_marker wk ?skey ''removal_fanout_complete'') ?R ?E"
    by (rule io_ok_cons [OF has_marker_ok [OF conf, where P = ?P and E = ?E]]) (auto simp: removing_def)
  show "vio_ok li view (?R b) (redis_op (dict_get_token wk (li_skh li) (li_list li))) (?T b) ?E" for b
    by (rule get_token_ok [OF conf pre, where P = "?R b"], erule RE) (auto simp: removing_def removable_def)
  fix b t
  show "vio_ok li view (?T b t)
      (if rv \<and> \<not> b \<and> t = None \<and> ls_version st \<noteq> [] then fail MissingDictionaryToken
       else seq (case t of None \<Rightarrow> ret ()
              | Some t \<Rightarrow> when_io (rv \<and> \<not> b) (remove_reverse wk (li_skh li)
                  (fwd_key (li_prefix li) (li_skh li) (li_list li) (ls_version st)) st t renewal))
           (seq (when_io (\<not> b) (hset wk ?skey [(''removal_fanout_complete'', ''1'')]))
             (redis_op (seq (pipe (wk_pool wk) False (removal_commands wk (li_skh li) (li_list li) st t)) (ret ())))))
      (\<lambda>_. removed rv st) ?E"
  proof (rule io_ok_if)
    show "vio_ok li view (?T b t) (fail MissingDictionaryToken) (\<lambda>_. removed rv st) ?E"
      by (rule io_ok_fail) (use RE in blast)
    let ?D = "\<lambda>lv. ?R b lv \<and> fanned_out li rv lv"
    show "vio_ok li view (?T b t)
       (seq (case t of None \<Rightarrow> ret ()
              | Some t \<Rightarrow> when_io (rv \<and> \<not> b) (remove_reverse wk (li_skh li)
                  (fwd_key (li_prefix li) (li_skh li) (li_list li) (ls_version st)) st t renewal))
           (seq (when_io (\<not> b) (hset wk ?skey [(''removal_fanout_complete'', ''1'')]))
             (redis_op (seq (pipe (wk_pool wk) False (removal_commands wk (li_skh li) (li_list li) st t)) (ret ())))))
      (\<lambda>_. removed rv st) ?E"
    proof (intro io_ok_seq redis_op_ok)
      show "vio_ok li view (?T b t) (case t of None \<Rightarrow> ret ()
              | Some t \<Rightarrow> when_io (rv \<and> \<not> b) (remove_reverse wk (li_skh li)
                  (fwd_key (li_prefix li) (li_skh li) (li_list li) (ls_version st)) st t renewal)) (\<lambda>_. ?D) ?E"
      proof (cases t)
        case None
        then show ?thesis using removing_done by (auto intro!: io_ok_ret)
      next
        case (Some t')
        have run: "vio_ok li view (?T b t) (remove_reverse wk (li_skh li)
            (fwd_key (li_prefix li) (li_skh li) (li_list li) (ls_version st)) st t' renewal) (\<lambda>_. ?D) ?E"
          if rb: "rv \<and> \<not> b"
        proof (cases "t' = li_token li")
          case True
          show ?thesis
            unfolding True
            by (rule io_ok_cons [OF remove_reverse_ok [OF conf ns pre cfg claim g, of st]])
              (use rb Some True removing_done in auto)
        qed (use Some in \<open>simp add: io_ok_def\<close>)
        show ?thesis
          unfolding Some option.case by (rule io_ok_when [OF run [unfolded Some]]) (use removing_done in auto)
      qed
      show "vio_ok li view ?D (when_io (\<not> b) (hset wk ?skey [(''removal_fanout_complete'', ''1'')]))
          (\<lambda>_. fanned_out li rv) ?E"
      proof (rule io_ok_when)
        have put: "fanned_out li rv (set_state h lv)" if "?D lv" for h lv
          using that by (auto simp: fanned_out_def set_state_def rev_typed_def fwd_typed_def rev_members_def)
        have run: "vio_ok li view ?D (hset wk ?skey [(''removal_fanout_complete'', ''1'')])
            (\<lambda>_ lv. \<exists>lv0 h. ?D lv0 \<and> lv_state lv0 = Some h
               \<and> lv = set_state (put_fields [(''removal_fanout_complete'', ''1'')] h) lv0) ?E"
          by (rule hset_state_ok [OF conf ns]) (use put fanned_out_removable in blast)+
        show "vio_ok li view ?D (hset wk ?skey [(''removal_fanout_complete'', ''1'')]) (\<lambda>_. fanned_out li rv) ?E"
          by (rule io_ok_cons [OF run]) (use put in auto)
      qed simp
      have run: "vio_ok li view (fanned_out li rv) (pipe (wk_pool wk) False (map fst (removal_acts li st t)))
          (\<lambda>_ lv. \<exists>lv0. fanned_out li rv lv0 \<and> lv = fold snd (removal_acts li st t) lv0) (fanned_out li rv)"
        by (rule pipe_view_ok [OF conf removal_acts_ok [OF ns]]) (use fanned_out_act in auto)
      show "vio_ok li view (fanned_out li rv)
          (pipe (wk_pool wk) False (removal_commands wk (li_skh li) (li_list li) st t)) (\<lambda>_. removed rv st) ?E"
        unfolding removal_commands_acts [OF pre]
        by (rule io_ok_cons [OF run]) (use removal_acts_removed fanned_out_removable in auto)
      show "vio_ok li view (removed rv st) (ret ()) (\<lambda>_. removed rv st) ?E" by (rule io_ok_ret)
    qed
  qed
qed



subsection \<open>A removal on a local service\<close>

definition removal_keyspace :: keyspace where
  "removal_keyspace =
     rotation_keyspace(dict_key [] ''abcd'' \<mapsto> \<lparr>re_value = VHash [name_field ''l'' \<mapsto> show_u64 1], re_ttl = None\<rparr>)"

lemma sample_others_apart:
  "all_lists_key [] ''abcd'' \<noteq> state_key [] ''abcd'' ''l''" "all_lists_key [] ''abcd'' \<noteq> dict_key [] ''abcd''"
  "all_lists_key [] ''abcd'' \<noteq> fwd_key [] ''abcd'' ''l'' v" "all_lists_key [] ''abcd'' \<noteq> member_key [] ''abcd'' m"
  "all_lists_key [] ''abcd'' \<noteq> claim_key [] ''abcd'' ''l''"
  "task_meta_key [] ''abcd'' ''l'' \<noteq> state_key [] ''abcd'' ''l''" "task_meta_key [] ''abcd'' ''l'' \<noteq> dict_key [] ''abcd''"
  "task_meta_key [] ''abcd'' ''l'' \<noteq> all_lists_key [] ''abcd''"
  using not_owned(2,4) [of sample_li] sample_namespace
    object_key_eq [of "AllLists ''abcd''" "Claim ''abcd'' ''l''" "[]"]
    object_key_eq [of "TaskMeta ''abcd'' ''l''" "AllLists ''abcd''" "[]"]
  by (auto simp: owned_def sample_li_def)

lemmas removal_eval = apply_remove_def has_marker_def dict_get_token_def token_of_text_def remove_reverse_def
  fanout_scan_def scard_def removal_commands_def

lemma sample_removal_runs:
  "\<exists>w'. apply_remove (sample_worker []) ''abcd'' ''l'' (from_hash_fields sample_state_hash) sample_renewal
      (removal_keyspace, ()) = Some (Inr (), w')"
  by (simp add: removal_eval diff_eval local_eval worker_eval from_hash_fields_def sample_state_hash_def unwrap_or_def
      removal_keyspace_def rotation_keyspace_def Let_def parse_u64_show_u64 sample_keys sample_others_apart
      sample_others_apart [symmetric])

lemma sample_removable: "removable sample_li True (list_view_of sample_li removal_keyspace)"
proof -
  let ?lv = "list_view_of sample_li removal_keyspace"
  have view: "lv_state ?lv = Some sample_state_hash" "lv_name ?lv = Some (Some (show_u64 1))"
    "lv_rev ?lv m = Some (m = ''a'')"
    "lv_fwd ?lv v = Some (if v = ''v'' then {''a''} else if v = ''w'' then {''b''} else {})" for v m
    by (simp_all add: list_view_of_def sample_li_def removal_keyspace_def rotation_keyspace_def sample_keys set_at_def
        hash_at_def)
  then show ?thesis
    by (auto simp: removable_def rev_typed_def fwd_typed_def rev_members_def sample_li_def from_hash_fields_def
        sample_state_hash_def unwrap_or_def)
qed


end
