(* ===== verification/MembershipReads.thy ===== *)
theory MembershipReads
  imports WorkerCore
begin

text \<open>
  Resolving memberships: \<open>idlist_membership/redis_membership.rs\<close> and
  \<open>redis_membership/forward.rs\<close>. In the reverse mode a lookup reads the member set and translates its
  tokens by a cached dictionary; in the forward mode it asks the forward sets of the visible lists.
  The theory shows that both give exactly the lists that have the member.
\<close>

section \<open>Configuration\<close>

text \<open>The system's own text at the end of an error message is left out. Durations in milliseconds; \<open>from_secs\<close> of a 64 bit number does not overflow.\<close>

record IdListMembershipConfig =
  mc_enable_reverse_index :: bool
  mc_pool_size :: u32
  mc_read_uri :: "string option"
  mc_fetch_timeout :: nat
  mc_dict_refresh_interval :: nat

definition membership_config_default :: IdListMembershipConfig where
  "membership_config_default =
     \<lparr>mc_enable_reverse_index = True, mc_pool_size = 32, mc_read_uri = None, mc_fetch_timeout = 50,
      mc_dict_refresh_interval = 60 * 1000\<rparr>"

definition env_u32 :: "(string \<Rightarrow> env_var) \<Rightarrow> string \<Rightarrow> u32 \<Rightarrow> string + u32" where
  "env_u32 env name dflt =
     then_sum (env_u64 env name (of_nat (unat dflt))) (\<lambda>v.
       if unat v < 2 ^ 32 then Inr (of_nat (unat v))
       else Inl (name @ '' is too large, got '' @ [CHR 0x27] @ show_u64 v @ [CHR 0x27]))"

definition read_uri_from_env :: "(string \<Rightarrow> env_var) \<Rightarrow> string + string option" where
  "read_uri_from_env env =
     (case env ''IDLIST_REDIS_READ_URI'' of
        EnvValue v \<Rightarrow> Inr (if trim v = [] then None else Some v)
      | NotPresent \<Rightarrow> Inr None
      | NotUnicode \<Rightarrow> Inl ''failed reading IDLIST_REDIS_READ_URI'')"

definition membership_config_from_env :: "(string \<Rightarrow> env_var) \<Rightarrow> string + IdListMembershipConfig" where
  "membership_config_from_env env =
     then_sum (read_uri_from_env env) (\<lambda>uri.
     then_sum (reverse_index_enabled_from_env env) (\<lambda>rev.
     then_sum (env_u32 env ''IDLIST_REDIS_POOL_SIZE'' 32) (\<lambda>pool.
     then_sum (env_u64 env ''IDLIST_FETCH_TIMEOUT_MS'' 50) (\<lambda>timeout.
     then_sum (env_u64 env ''IDLIST_DICT_REFRESH_IN_S'' 60) (\<lambda>refresh.
       if pool = 0 \<or> timeout = 0 \<or> refresh = 0
       then Inl (''IDLIST_REDIS_POOL_SIZE, IDLIST_FETCH_TIMEOUT_MS, and ''
                 @ ''IDLIST_DICT_REFRESH_IN_S must be greater than zero'')
       else Inr \<lparr>mc_enable_reverse_index = rev, mc_pool_size = pool, mc_read_uri = uri,
                 mc_fetch_timeout = unat timeout, mc_dict_refresh_interval = unat refresh * 1000\<rparr>)))))"

section \<open>The fetcher\<close>

datatype IdListMembershipError = RedisFailure redis_error | Timeout nat

type_synonym memberships = "string \<Rightarrow> string set option"

text \<open>
  A fetcher reads one namespace. The dictionary and the unknown tokens are shared with the refresh tasks: they are parts of the
  world, read and written by accessors, as are the clock and the timer that cuts a read short.
\<close>

record 'w fetcher =
  mf_enable_reverse_index :: bool
  mf_key_prefix :: string
  mf_skh :: string
  mf_pool :: "'w redis"
  mf_dict_cache :: "'w \<Rightarrow> DictSnapshot"
  mf_store_dict :: "DictSnapshot \<Rightarrow> 'w \<Rightarrow> 'w"
  mf_unknown_tokens :: "'w \<Rightarrow> u64 \<Rightarrow> nat option"
  mf_store_unknown :: "(u64 \<Rightarrow> nat option) \<Rightarrow> 'w \<Rightarrow> 'w"
  mf_now :: "'w \<Rightarrow> nat"
  mf_expired :: "'w \<Rightarrow> bool \<times> 'w"
  mf_fetch_timeout :: nat

text \<open>Iteration over a hash set or over the reply to \<open>SMEMBERS\<close> is in an unspecified order.\<close>

type_synonym iteration = "string set \<Rightarrow> string list"

definition with_timeout :: "'w fetcher \<Rightarrow> ('w, redis_error, 'a) io \<Rightarrow> ('w, IdListMembershipError, 'a) io" where
  "with_timeout f m w =
     Option.bind (m w) (\<lambda>(res, w1).
       case mf_expired f w1 of (expired, w2) \<Rightarrow>
         Some (if expired then Inl (Timeout (mf_fetch_timeout f))
               else (case res of Inl e \<Rightarrow> Inl (RedisFailure e) | Inr a \<Rightarrow> Inr a), w2))"

fun dedupe_from :: "string set \<Rightarrow> string list \<Rightarrow> string list" where
  "dedupe_from seen [] = []"
| "dedupe_from seen (x # xs) =
     (if x \<in> seen then dedupe_from seen xs else x # dedupe_from (insert x seen) xs)"

definition dedupe_lookup_ids :: "string list \<Rightarrow> string list" where
  "dedupe_lookup_ids ids = dedupe_from {} ids"

definition empty_memberships :: "string list \<Rightarrow> memberships" where
  "empty_memberships ids = map_of (map (\<lambda>i. (i, {})) ids)"

text \<open>\<open>DictClient::snapshot\<close> through Redis; the reply lists the fields in an unspecified order.\<close>

definition load_dictionary ::
  "'w fetcher \<Rightarrow> ((string \<Rightarrow> string option) \<Rightarrow> (string \<times> string) list) \<Rightarrow> ('w, IdListMembershipError, DictSnapshot) io" where
  "load_dictionary f list_fields =
     with_timeout f (bind (command (mf_pool f) (HGETALL (dict_key (mf_key_prefix f) (mf_skh f)))) (\<lambda>r.
       bind (as_fields r) (\<lambda>h. ret (dict_snapshot (list_fields h)))))"

definition refresh_dictionary_now ::
  "'w fetcher \<Rightarrow> ((string \<Rightarrow> string option) \<Rightarrow> (string \<times> string) list) \<Rightarrow> ('w, IdListMembershipError, unit) io" where
  "refresh_dictionary_now f list_fields =
     bind (load_dictionary f list_fields) (\<lambda>snap. lift_io (\<lambda>w. (Inr (), mf_store_dict f snap w)))"

text \<open>
  \<open>new\<close>, on a fetcher that has the accessors; a failed load of the dictionary is an error. The loop that
  refreshes the dictionary runs \<open>refresh_dictionary_now\<close> once per interval.
\<close>

definition new_fetcher ::
  "'w fetcher \<Rightarrow> IdListMembershipConfig \<Rightarrow> ((string \<Rightarrow> string option) \<Rightarrow> (string \<times> string) list)
     \<Rightarrow> ('w, IdListMembershipError, 'w fetcher) io" where
  "new_fetcher cells config list_fields =
     (let f = cells\<lparr>mf_enable_reverse_index := mc_enable_reverse_index config,
                mf_fetch_timeout := mc_fetch_timeout config\<rparr>
      in bind (if mc_enable_reverse_index config then load_dictionary f list_fields
               else ret \<lparr>name_to_token = Map.empty, token_to_name = Map.empty\<rparr>) (\<lambda>snap.
           lift_io (\<lambda>w. (Inr f, mf_store_unknown f Map.empty (mf_store_dict f snap w)))))"

section \<open>Unknown tokens\<close>

definition unknown_token_retry_ms :: nat where
  "unknown_token_retry_ms = 30 * 1000"

definition unknown_token_cache_size :: nat where
  "unknown_token_cache_size = 256"

definition recently :: "nat \<Rightarrow> nat option \<Rightarrow> bool" where
  "recently now last_attempt = (case last_attempt of None \<Rightarrow> False | Some t \<Rightarrow> now - t < unknown_token_retry_ms)"

text \<open>The part of \<open>schedule_targeted_refresh\<close> before the task: whether one is started, and the new map.\<close>

definition schedule_targeted_refresh ::
  "nat \<Rightarrow> u64 \<Rightarrow> (u64 \<Rightarrow> nat option) \<Rightarrow> bool \<times> (u64 \<Rightarrow> nat option)" where
  "schedule_targeted_refresh now token unknown =
     (if recently now (unknown token) then (False, unknown)
      else
        let u = unknown(token \<mapsto> now)
        in (True,
            if unknown_token_cache_size < card (dom u)
            then (\<lambda>t. if recently now (u t) then u t else None) else u))"

text \<open>The task.\<close>

definition learn_token :: "u64 \<Rightarrow> string \<Rightarrow> DictSnapshot \<Rightarrow> DictSnapshot" where
  "learn_token token name d =
     d\<lparr>name_to_token := (name_to_token d)(name \<mapsto> token), token_to_name := (token_to_name d)(token \<mapsto> name)\<rparr>"

definition forget_token :: "'w fetcher \<Rightarrow> u64 \<Rightarrow> 'w \<Rightarrow> 'w" where
  "forget_token f token w = mf_store_unknown f ((mf_unknown_tokens f w)(token := None)) w"

definition targeted_refresh :: "'w fetcher \<Rightarrow> u64 \<Rightarrow> 'w \<Rightarrow> 'w option" where
  "targeted_refresh f token w =
     Option.bind (with_timeout f (bind (command (mf_pool f) (HGET (dict_key (mf_key_prefix f) (mf_skh f)) (token_field token)))
         as_text) w) (\<lambda>(res, w1).
       Some (case res of
           Inr (Some name) \<Rightarrow>
             forget_token f token (mf_store_dict f (learn_token token name (mf_dict_cache f w1)) w1)
         | Inr None \<Rightarrow> w1
         | Inl _ \<Rightarrow> forget_token f token w1))"

section \<open>Reverse reads\<close>

text \<open>A reply to \<open>SMEMBERS\<close> as \<open>Vec<u64>\<close>.\<close>

definition tokens_of_reply :: "iteration \<Rightarrow> redis_reply \<Rightarrow> (redis_error, u64 list) sum" where
  "tokens_of_reply iterate r =
     (case r of
        RStrings s \<Rightarrow>
          (let ts = map parse_u64 (iterate s)
           in if None \<in> set ts then Inl reply_error else Inr (map the ts))
      | _ \<Rightarrow> Inl reply_error)"

fun token_sets_of_replies :: "iteration \<Rightarrow> redis_reply list \<Rightarrow> (redis_error, u64 list list) sum" where
  "token_sets_of_replies iterate [] = Inr []"
| "token_sets_of_replies iterate (r # rs) =
     (case tokens_of_reply iterate r of
        Inl e \<Rightarrow> Inl e
      | Inr ts \<Rightarrow> (case token_sets_of_replies iterate rs of Inl e \<Rightarrow> Inl e | Inr tss \<Rightarrow> Inr (ts # tss)))"

definition read_tokens :: "'w fetcher \<Rightarrow> iteration \<Rightarrow> string list \<Rightarrow> ('w, redis_error, u64 list list) io" where
  "read_tokens f iterate ids =
     bind (pipe (mf_pool f) False (map (\<lambda>i. SMEMBERS (member_key (mf_key_prefix f) (mf_skh f) i)) ids)) (\<lambda>rs.
       (case token_sets_of_replies iterate rs of Inl e \<Rightarrow> fail e | Inr tss \<Rightarrow> ret tss))"

text \<open>One token: its name, or a refresh is scheduled. The state has the started refreshes.\<close>

record resolving =
  rs_names :: "string set"
  rs_unknown :: "u64 \<Rightarrow> nat option"
  rs_started :: "u64 list"

definition resolve_token :: "DictSnapshot \<Rightarrow> nat \<Rightarrow> u64 \<Rightarrow> resolving \<Rightarrow> resolving" where
  "resolve_token dict now t s =
     (case token_to_name dict t of
        Some name \<Rightarrow> s\<lparr>rs_names := insert name (rs_names s)\<rparr>
      | None \<Rightarrow>
          (case schedule_targeted_refresh now t (rs_unknown s) of
             (started, u) \<Rightarrow> s\<lparr>rs_unknown := u, rs_started := rs_started s @ (if started then [t] else [])\<rparr>))"

fun resolve_all ::
  "DictSnapshot \<Rightarrow> nat \<Rightarrow> (string \<times> u64 list) list \<Rightarrow> (u64 \<Rightarrow> nat option) \<Rightarrow> memberships
     \<Rightarrow> memberships \<times> (u64 \<Rightarrow> nat option) \<times> u64 list" where
  "resolve_all dict now [] unknown acc = (acc, unknown, [])"
| "resolve_all dict now ((i, ts) # rest) unknown acc =
     (let s = fold (resolve_token dict now) ts \<lparr>rs_names = {}, rs_unknown = unknown, rs_started = []\<rparr>
      in case resolve_all dict now rest (rs_unknown s) (acc(i \<mapsto> rs_names s)) of
           (m, u, started) \<Rightarrow> (m, u, rs_started s @ started))"

text \<open>
  The result has the memberships and the tokens for which a refresh task was started. The clock is
  read once for all tokens of a request.
\<close>

definition fetch ::
  "'w fetcher \<Rightarrow> iteration \<Rightarrow> string list \<Rightarrow> ('w, IdListMembershipError, memberships \<times> u64 list) io" where
  "fetch f iterate lookup_ids =
     (let ids = dedupe_lookup_ids lookup_ids
      in if ids = [] \<or> \<not> mf_enable_reverse_index f then ret (empty_memberships ids, [])
         else bind (with_timeout f (read_tokens f iterate ids)) (\<lambda>tss.
           lift_io (\<lambda>w.
             case resolve_all (mf_dict_cache f w) (mf_now f w) (zip ids tss) (mf_unknown_tokens f w) Map.empty of
               (m, u, started) \<Rightarrow> (Inr (m, started), mf_store_unknown f u w))))"

section \<open>Forward reads\<close>

text \<open>The version to ask: the committed one, or on a first load the one that is being loaded.\<close>

definition readable_version :: "string option \<Rightarrow> string option \<Rightarrow> string option" where
  "readable_version version loading =
     (case version of
        Some v \<Rightarrow> if v \<noteq> [] then Some v else (case loading of Some l \<Rightarrow> if l \<noteq> [] then Some l else None | None \<Rightarrow> None)
      | None \<Rightarrow> (case loading of Some l \<Rightarrow> if l \<noteq> [] then Some l else None | None \<Rightarrow> None))"

definition version_of_reply :: "redis_reply \<Rightarrow> (redis_error, string option) sum" where
  "version_of_reply r =
     (case r of RTexts [version, loading] \<Rightarrow> Inr (readable_version version loading) | _ \<Rightarrow> Inl reply_error)"

definition members_of_reply :: "redis_reply \<Rightarrow> (redis_error, bool list) sum" where
  "members_of_reply r = (case r of RInts is \<Rightarrow> Inr (map (\<lambda>i. i \<noteq> 0) is) | _ \<Rightarrow> Inl reply_error)"

fun all_replies :: "(redis_reply \<Rightarrow> (redis_error, 'a) sum) \<Rightarrow> redis_reply list \<Rightarrow> (redis_error, 'a list) sum" where
  "all_replies g [] = Inr []"
| "all_replies g (r # rs) =
     (case g r of
        Inl e \<Rightarrow> Inl e
      | Inr a \<Rightarrow> (case all_replies g rs of Inl e \<Rightarrow> Inl e | Inr as \<Rightarrow> Inr (a # as)))"

definition of_sum :: "('e, 'a) sum \<Rightarrow> ('w, 'e, 'a) io" where
  "of_sum s = (case s of Inl e \<Rightarrow> fail e | Inr a \<Rightarrow> ret a)"

fun add_list :: "string \<Rightarrow> (string \<times> bool) list \<Rightarrow> memberships \<Rightarrow> memberships" where
  "add_list name [] m = m"
| "add_list name ((i, member) # rest) m =
     add_list name rest (if member then m(i := map_option (insert name) (m i)) else m)"

definition queried_lists :: "string list \<Rightarrow> string option list \<Rightarrow> (string \<times> string) list" where
  "queried_lists ls versions =
     List.map_filter (\<lambda>(l, v). map_option (Pair l) v) (zip ls versions)"

definition read_forward :: "'w fetcher \<Rightarrow> iteration \<Rightarrow> string list \<Rightarrow> string set \<Rightarrow> ('w, redis_error, memberships) io" where
  "read_forward f iterate ids visible =
     bind (pipe (mf_pool f) False
             (map (\<lambda>l. HMGET (state_key (mf_key_prefix f) (mf_skh f) l) [''version'', ''loading_version'']) (iterate visible)))
      (\<lambda>rs. bind (of_sum (all_replies version_of_reply rs)) (\<lambda>versions.
         let queried = queried_lists (iterate visible) versions
         in if queried = [] then ret (empty_memberships ids)
            else bind (pipe (mf_pool f) False
                    (map (\<lambda>(l, v). SMISMEMBER (fwd_key (mf_key_prefix f) (mf_skh f) l v) ids) queried)) (\<lambda>rs.
                 bind (of_sum (all_replies members_of_reply rs)) (\<lambda>mss.
                 ret (fold (\<lambda>((l, _), ms). add_list l (zip ids ms)) (zip queried mss) (empty_memberships ids))))))"

definition fetch_forward ::
  "'w fetcher \<Rightarrow> iteration \<Rightarrow> string list \<Rightarrow> string set \<Rightarrow> ('w, IdListMembershipError, memberships) io" where
  "fetch_forward f iterate ids visible =
     (if ids = [] \<or> visible = {} then ret (empty_memberships ids)
      else with_timeout f (read_forward f iterate ids visible))"

definition fetch_visible ::
  "'w fetcher \<Rightarrow> iteration \<Rightarrow> string list \<Rightarrow> string set \<Rightarrow> ('w, IdListMembershipError, memberships \<times> u64 list) io" where
  "fetch_visible f iterate lookup_ids visible =
     (if mf_enable_reverse_index f then fetch f iterate lookup_ids
      else bind (fetch_forward f iterate (dedupe_lookup_ids lookup_ids) visible) (\<lambda>m. ret (m, [])))"


section \<open>Lemmas on the pure parts\<close>

lemma dedupe_from_set: "set (dedupe_from seen xs) = set xs - seen"
  by (induction xs arbitrary: seen) auto

lemma dedupe_from_distinct: "distinct (dedupe_from seen xs)"
  by (induction xs arbitrary: seen) (auto simp: dedupe_from_set)

lemma dedupe_set [simp]: "set (dedupe_lookup_ids ids) = set ids"
  and dedupe_distinct [simp]: "distinct (dedupe_lookup_ids ids)"
  by (simp_all add: dedupe_lookup_ids_def dedupe_from_set dedupe_from_distinct)

lemma dedupe_empty [simp]: "dedupe_lookup_ids ids = [] \<longleftrightarrow> ids = []"
  by (metis dedupe_set set_empty)

lemma empty_memberships_eq: "empty_memberships ids i = (if i \<in> set ids then Some {} else None)"
  unfolding empty_memberships_def by (induction ids) auto

subsection \<open>Unknown tokens\<close>

lemma schedule_keeps:
  "recently now (u t') \<Longrightarrow> recently now (snd (schedule_targeted_refresh now t u) t')"
  by (simp add: schedule_targeted_refresh_def Let_def recently_def unknown_token_retry_ms_def)

lemma schedule_recent: "recently now (snd (schedule_targeted_refresh now t u) t)"
  by (simp add: schedule_targeted_refresh_def Let_def recently_def unknown_token_retry_ms_def)

lemma schedule_started: "fst (schedule_targeted_refresh now t u) \<longleftrightarrow> \<not> recently now (u t)"
  by (simp add: schedule_targeted_refresh_def Let_def)

text \<open>
  What translating tokens keeps: the tokens with a started refresh were attempted now, no token is
  started twice, and an attempt that was recent stays.
\<close>

definition resolving_ok :: "nat \<Rightarrow> resolving \<Rightarrow> bool" where
  "resolving_ok now s \<longleftrightarrow> distinct (rs_started s) \<and> (\<forall>t \<in> set (rs_started s). recently now (rs_unknown s t))"

lemma resolve_token_ok: "resolving_ok now s \<Longrightarrow> resolving_ok now (resolve_token dict now t s)"
  using schedule_keeps [of now "rs_unknown s" _ t] schedule_recent [of now t "rs_unknown s"]
    schedule_started [of now t "rs_unknown s"]
  by (auto simp: resolving_ok_def resolve_token_def split: option.splits prod.splits)

lemma resolve_token_keeps:
  "recently now (rs_unknown s t') \<Longrightarrow> recently now (rs_unknown (resolve_token dict now t s) t')"
  using schedule_keeps [of now "rs_unknown s" t' t]
  by (auto simp: resolve_token_def split: option.splits prod.splits)

lemma resolve_tokens_ok:
  "resolving_ok now s \<Longrightarrow> resolving_ok now (fold (resolve_token dict now) ts s)"
  by (induction ts arbitrary: s) (simp_all add: resolve_token_ok)

lemma resolve_tokens_keeps:
  "recently now (rs_unknown s t) \<Longrightarrow> recently now (rs_unknown (fold (resolve_token dict now) ts s) t)"
  by (induction ts arbitrary: s) (simp_all add: resolve_token_keeps)

lemma resolve_tokens_names:
  "rs_names (fold (resolve_token dict now) ts s) = rs_names s \<union> {n. \<exists>t \<in> set ts. token_to_name dict t = Some n}"
  by (induction ts arbitrary: s) (auto simp: resolve_token_def split: option.splits prod.splits)

lemma resolve_tokens_unknown:
  "t \<in> set ts \<Longrightarrow> token_to_name dict t = None
     \<Longrightarrow> recently now (rs_unknown (fold (resolve_token dict now) ts s) t)"
proof (induction ts arbitrary: s)
  case (Cons x ts)
  have "recently now (rs_unknown (resolve_token dict now t s) t)"
    using Cons.prems(2) schedule_recent [of now t "rs_unknown s"] by (auto simp: resolve_token_def split: prod.splits)
  then show ?case using Cons resolve_tokens_keeps by auto
qed simp

text \<open>The same for all ids of a request.\<close>

lemma resolve_all_ConsE:
  assumes "resolve_all dict now ((i, ts) # rest) u acc = (m, u', started)"
  obtains s started1
  where "s = fold (resolve_token dict now) ts \<lparr>rs_names = {}, rs_unknown = u, rs_started = []\<rparr>"
    and "resolve_all dict now rest (rs_unknown s) (acc(i \<mapsto> rs_names s)) = (m, u', started1)"
    and "started = rs_started s @ started1"
  using assms by (auto simp: Let_def split: prod.splits)

lemma resolve_all_names:
  assumes "resolve_all dict now its u acc = (m, u', started)" and "distinct (map fst its)"
  shows "m i = (case map_of its i of
      None \<Rightarrow> acc i | Some ts \<Rightarrow> Some {n. \<exists>t \<in> set ts. token_to_name dict t = Some n})"
  using assms
proof (induction its arbitrary: u acc started)
  case (Cons it rest)
  obtain j ts where it: "it = (j, ts)" by force
  show ?case
  proof (rule resolve_all_ConsE [OF Cons.prems(1) [unfolded it]])
    fix s started1
    assume s: "s = fold (resolve_token dict now) ts \<lparr>rs_names = {}, rs_unknown = u, rs_started = []\<rparr>"
      and r: "resolve_all dict now rest (rs_unknown s) (acc(j \<mapsto> rs_names s)) = (m, u', started1)"
    have "rs_names s = {n. \<exists>t \<in> set ts. token_to_name dict t = Some n}"
      by (simp add: s resolve_tokens_names)
    moreover have "map_of rest j = None" using Cons.prems(2) it by (simp add: map_of_eq_None_iff)
    ultimately show ?thesis using Cons.IH [OF r] Cons.prems(2) it by (auto split: option.splits)
  qed
qed simp

lemma resolve_all_keeps:
  "resolve_all dict now its u acc = (m, u', started) \<Longrightarrow> recently now (u t) \<Longrightarrow> recently now (u' t)"
proof (induction its arbitrary: u acc started)
  case (Cons it rest)
  obtain j ts where it: "it = (j, ts)" by force
  show ?case
    by (rule resolve_all_ConsE [OF Cons.prems(1) [unfolded it]])
      (use Cons.IH Cons.prems(2) resolve_tokens_keeps in force)
qed simp

lemma resolve_all_unknown:
  assumes "resolve_all dict now its u acc = (m, u', started)" and "(i, ts) \<in> set its"
    and "t \<in> set ts" and "token_to_name dict t = None"
  shows "recently now (u' t)"
  using assms(1,2)
proof (induction its arbitrary: u acc started)
  case (Cons it rest)
  obtain j tsj where it: "it = (j, tsj)" by force
  show ?case
  proof (rule resolve_all_ConsE [OF Cons.prems(1) [unfolded it]])
    fix s started1
    assume s: "s = fold (resolve_token dict now) tsj \<lparr>rs_names = {}, rs_unknown = u, rs_started = []\<rparr>"
      and r: "resolve_all dict now rest (rs_unknown s) (acc(j \<mapsto> rs_names s)) = (m, u', started1)"
    show ?thesis
      using Cons.IH [OF r] Cons.prems(2) it resolve_all_keeps [OF r, of t]
        resolve_tokens_unknown [OF assms(3,4)] s by auto
  qed
qed simp

lemma resolve_token_started:
  assumes "t \<in> set (rs_started (resolve_token dict now x s))"
  shows "t \<in> set (rs_started s) \<or> \<not> recently now (rs_unknown s t)"
proof (cases "token_to_name dict x")
  case None
  obtain b u where r: "schedule_targeted_refresh now x (rs_unknown s) = (b, u)" by force
  then show ?thesis
    using assms None schedule_started [of now x "rs_unknown s"] by (cases b) (auto simp: resolve_token_def)
qed (use assms in \<open>simp add: resolve_token_def\<close>)

lemma resolve_tokens_started:
  "t \<in> set (rs_started (fold (resolve_token dict now) ts s)) \<Longrightarrow> t \<in> set (rs_started s) \<or> \<not> recently now (rs_unknown s t)"
proof (induction ts arbitrary: s)
  case (Cons x ts)
  then show ?case using resolve_token_started resolve_token_keeps by fastforce
qed simp

lemma resolve_all_started:
  assumes "resolve_all dict now its u acc = (m, u', started)"
  shows "distinct started \<and> (\<forall>t \<in> set started. recently now (u' t) \<and> \<not> recently now (u t))"
  using assms
proof (induction its arbitrary: u acc started)
  case (Cons it rest)
  obtain j ts where it: "it = (j, ts)" by force
  let ?s0 = "\<lparr>rs_names = {}, rs_unknown = u, rs_started = []\<rparr>"
  show ?case
  proof (rule resolve_all_ConsE [OF Cons.prems(1) [unfolded it]])
    fix s started1
    assume s: "s = fold (resolve_token dict now) ts ?s0"
      and r: "resolve_all dict now rest (rs_unknown s) (acc(j \<mapsto> rs_names s)) = (m, u', started1)"
      and e: "started = rs_started s @ started1"
    have ok: "resolving_ok now s" unfolding s by (rule resolve_tokens_ok) (simp add: resolving_ok_def)
    have "\<not> recently now (u t)" if "t \<in> set (rs_started s)" for t
      using resolve_tokens_started [of t dict now ts ?s0] that s by simp
    moreover have "recently now (u' t)" if "t \<in> set (rs_started s)" for t
      using that ok resolve_all_keeps [OF r] by (simp add: resolving_ok_def)
    moreover have "\<not> recently now (u t)" if "t \<in> set started1" for t
      using that Cons.IH [OF r] resolve_tokens_keeps [of now ?s0 t dict ts] s by auto
    ultimately show ?thesis using ok Cons.IH [OF r] unfolding e by (auto simp: resolving_ok_def)
  qed
qed simp

section \<open>Reading through Redis\<close>

lemma with_timeout_ok:
  assumes "io_ok P m (\<lambda>a _. Q a) (\<lambda>_. True)"
  shows "io_ok P (with_timeout f m) (\<lambda>a _. Q a) (\<lambda>_. True)"
proof (rule io_okI)
  fix w assume "P w"
  then obtain res w1 where m: "m w = Some (res, w1)" "case res of Inl _ \<Rightarrow> True | Inr a \<Rightarrow> Q a"
    using assms unfolding io_ok_def by blast
  obtain b w2 where "mf_expired f w1 = (b, w2)" by force
  then show "\<exists>res w'. with_timeout f m w = Some (res, w') \<and> (case res of Inl _ \<Rightarrow> True | Inr a \<Rightarrow> Q a)"
    using m by (cases res) (auto simp: with_timeout_def)
qed

lemma of_sum_ok: "(\<And>w a. P w \<Longrightarrow> s = Inr a \<Longrightarrow> Q a) \<Longrightarrow> io_ok P (of_sum s) (\<lambda>a _. Q a) (\<lambda>_. True)"
  by (auto simp: of_sum_def io_ok_def ret_def fail_def split: sum.splits)

subsection \<open>Reverse\<close>

text \<open>
  The reverse index of a namespace: list \<open>n\<close> has the token \<open>tok n\<close> and the members \<open>F n\<close>, and the
  set of a member has the tokens of its lists.
\<close>

definition reverse_index :: "string \<Rightarrow> string \<Rightarrow> (string \<Rightarrow> u64) \<Rightarrow> (string \<Rightarrow> string set) \<Rightarrow> keyspace \<Rightarrow> bool" where
  "reverse_index pre skh tok F ks \<longleftrightarrow>
     (\<forall>m. set_at ks (member_key pre skh m) = Some (show_u64 ` tok ` {n. m \<in> F n}))"

definition iterates :: "iteration \<Rightarrow> bool" where
  "iterates iterate \<longleftrightarrow> (\<forall>s. finite s \<longrightarrow> set (iterate s) = s \<and> distinct (iterate s))"

lemma tokens_of_reply_set:
  assumes "iterates iterate" and "finite T"
  shows "\<exists>ts. tokens_of_reply iterate (RStrings (show_u64 ` T)) = Inr ts \<and> set ts = T"
proof -
  have s: "set (iterate (show_u64 ` T)) = show_u64 ` T" using assms by (simp add: iterates_def)
  then have "set (map parse_u64 (iterate (show_u64 ` T))) = Some ` T"
    by (simp add: image_image parse_u64_show_u64)
  then have "None \<notin> set (map parse_u64 (iterate (show_u64 ` T)))"
    "set (map the (map parse_u64 (iterate (show_u64 ` T)))) = T"
    using s by (auto simp: image_image parse_u64_show_u64)
  then show ?thesis by (simp add: tokens_of_reply_def)
qed

lemma token_sets_of_replies_all2:
  assumes "list_all2 (\<lambda>i r. r = RStrings (show_u64 ` T i)) ids rs" and "iterates iterate" and "\<And>i. finite (T i)"
  shows "\<exists>tss. token_sets_of_replies iterate rs = Inr tss \<and> list_all2 (\<lambda>i ts. set ts = T i) ids tss"
  using assms(1)
proof (induction ids rs rule: list_all2_induct)
  case (Cons i ids r rs)
  obtain ts where "tokens_of_reply iterate (RStrings (show_u64 ` T i)) = Inr ts" "set ts = T i"
    using tokens_of_reply_set [OF assms(2,3)] by blast
  then show ?case using Cons by auto
qed simp

lemma read_tokens_ok:
  assumes conf: "redis_conforms sc rely (mf_pool f) view"
    and st: "stable rely (reverse_index (mf_key_prefix f) (mf_skh f) tok F)"
    and it: "iterates iterate" and fin: "\<And>m. finite {n. m \<in> F n}"
  shows "io_ok (\<lambda>w. reverse_index (mf_key_prefix f) (mf_skh f) tok F (view w)) (read_tokens f iterate ids)
    (\<lambda>tss _. list_all2 (\<lambda>i ts. set ts = tok ` {n. i \<in> F n}) ids tss) (\<lambda>_. True)"
  unfolding read_tokens_def
proof (rule io_ok_bind)
  let ?cs = "map (\<lambda>i. SMEMBERS (member_key (mf_key_prefix f) (mf_skh f) i)) ids"
  let ?R = "\<lambda>c r. \<forall>i. c = SMEMBERS (member_key (mf_key_prefix f) (mf_skh f) i)
    \<longrightarrow> r = RStrings (show_u64 ` tok ` {n. i \<in> F n})"
  have "kio_ok view (reverse_index (mf_key_prefix f) (mf_skh f) tok F) (pipe (mf_pool f) False ?cs)
      (\<lambda>rs ks. list_all2 ?R ?cs rs \<and> reverse_index (mf_key_prefix f) (mf_skh f) tok F ks)
      (reverse_index (mf_key_prefix f) (mf_skh f) tok F)"
    by (rule pipe_reads_ok [OF conf st])
      (auto simp: step_ok_determined on_set_def reverse_index_def split: option.splits)
  then show "io_ok (\<lambda>w. reverse_index (mf_key_prefix f) (mf_skh f) tok F (view w)) (pipe (mf_pool f) False ?cs)
      (\<lambda>rs _. list_all2 (\<lambda>i r. r = RStrings (show_u64 ` tok ` {n. i \<in> F n})) ids rs) (\<lambda>_. True)"
    by (rule io_ok_cons) (auto simp: list_all2_map1 elim!: list_all2_mono)
  show "io_ok (\<lambda>_. list_all2 (\<lambda>i r. r = RStrings (show_u64 ` tok ` {n. i \<in> F n})) ids rs)
      (case token_sets_of_replies iterate rs of Inl e \<Rightarrow> fail e | Inr tss \<Rightarrow> ret tss)
      (\<lambda>tss _. list_all2 (\<lambda>i ts. set ts = tok ` {n. i \<in> F n}) ids tss) (\<lambda>_. True)" for rs
    using token_sets_of_replies_all2 [where T = "\<lambda>i. tok ` {n. i \<in> F n}", OF _ it] fin
    by (fastforce simp: io_ok_def ret_def)
qed

text \<open>The shared cells of the fetcher do not overlap.\<close>

definition cells_ok :: "'w fetcher \<Rightarrow> bool" where
  "cells_ok f \<longleftrightarrow>
     (\<forall>u w. mf_unknown_tokens f (mf_store_unknown f u w) = u
        \<and> mf_dict_cache f (mf_store_unknown f u w) = mf_dict_cache f w
        \<and> mf_now f (mf_store_unknown f u w) = mf_now f w)"

lemma zip_all2: "list_all2 P xs ys \<Longrightarrow> (x, y) \<in> set (zip xs ys) \<Longrightarrow> P x y"
  by (auto simp: list_all2_conv_all_nth set_zip)

lemma zip_fst: "list_all2 P xs ys \<Longrightarrow> map fst (zip xs ys) = xs"
  by (simp add: list_all2_lengthD)

lemma zip_map_of:
  assumes "list_all2 P xs ys" and "distinct xs" and "x \<in> set xs"
  obtains y where "map_of (zip xs ys) x = Some y" and "P x y"
proof -
  have "x \<in> set (map fst (zip xs ys))" using assms(1,3) by (simp add: zip_fst)
  then obtain y where "map_of (zip xs ys) x = Some y"
    by (metis map_of_eq_None_iff not_None_eq list.set_map)
  then show ?thesis using that zip_all2 [OF assms(1)] map_of_SomeD by metis
qed

lemma resolve_all_exact:
  assumes r: "resolve_all dict now (zip ids tss) u Map.empty = (m, u', started)" and d: "distinct ids"
    and tss: "list_all2 (\<lambda>i ts. set ts = tok ` {n. i \<in> F n}) ids tss"
    and dict: "\<And>n. token_to_name dict (tok n) \<in> {None, Some n}"
  shows "m = (\<lambda>i. if i \<in> set ids then Some {n. i \<in> F n \<and> token_to_name dict (tok n) = Some n} else None)"
    and "i \<in> set ids \<Longrightarrow> i \<in> F n \<Longrightarrow> token_to_name dict (tok n) = None \<Longrightarrow> recently now (u' (tok n))"
proof -
  have f: "map fst (zip ids tss) = ids" using tss by (rule zip_fst)
  show "m = (\<lambda>i. if i \<in> set ids then Some {n. i \<in> F n \<and> token_to_name dict (tok n) = Some n} else None)"
  proof
    fix i
    have m: "m i = (case map_of (zip ids tss) i of
        None \<Rightarrow> None | Some ts \<Rightarrow> Some {n. \<exists>t \<in> set ts. token_to_name dict t = Some n})"
      using resolve_all_names [OF r] d f by simp
    show "m i = (if i \<in> set ids then Some {n. i \<in> F n \<and> token_to_name dict (tok n) = Some n} else None)"
    proof (cases "i \<in> set ids")
      case True
      obtain ts where ts: "map_of (zip ids tss) i = Some ts" "set ts = tok ` {n. i \<in> F n}"
        using tss d True by (rule zip_map_of)
      have "n = n'" if "token_to_name dict (tok n') = Some n" for n n' using dict [of n'] that by simp
      then have "{n. \<exists>t \<in> set ts. token_to_name dict t = Some n} = {n. i \<in> F n \<and> token_to_name dict (tok n) = Some n}"
        using ts(2) by auto
      then show ?thesis using m ts(1) True by simp
    next
      case False
      then have "map_of (zip ids tss) i = None" using f by (metis map_of_eq_None_iff list.set_map)
      then show ?thesis using m False by simp
    qed
  qed
  show "recently now (u' (tok n))" if mem: "i \<in> set ids" "i \<in> F n" and new: "token_to_name dict (tok n) = None"
  proof -
    obtain ts where ts: "map_of (zip ids tss) i = Some ts" "set ts = tok ` {n. i \<in> F n}"
      using tss d mem(1) by (rule zip_map_of)
    then show ?thesis
      using resolve_all_unknown [OF r map_of_SomeD [OF ts(1)], of "tok n"] mem(2) new by auto
  qed
qed

definition names_right :: "DictSnapshot \<Rightarrow> (string \<Rightarrow> u64) \<Rightarrow> bool" where
  "names_right dict tok \<longleftrightarrow> (\<forall>n. token_to_name dict (tok n) \<in> {None, Some n})"

text \<open>
  What a fetch may answer, given the dictionary and the unknown tokens at its end, when the
  dictionary names no wrong list.
\<close>

definition reverse_answer ::
  "'w fetcher \<Rightarrow> (string \<Rightarrow> u64) \<Rightarrow> (string \<Rightarrow> string set) \<Rightarrow> string list \<Rightarrow> memberships \<times> u64 list \<Rightarrow> 'w \<Rightarrow> bool" where
  "reverse_answer f tok F ids ans w \<longleftrightarrow>
     (let known = (\<lambda>n. token_to_name (mf_dict_cache f w) (tok n) = Some n)
      in names_right (mf_dict_cache f w) tok \<longrightarrow>
         fst ans = (\<lambda>i. if i \<in> set ids then Some {n. i \<in> F n \<and> known n} else None)
         \<and> (\<forall>i \<in> set ids. \<forall>n. i \<in> F n \<longrightarrow> \<not> known n \<longrightarrow> recently (mf_now f w) (mf_unknown_tokens f w (tok n)))
         \<and> distinct (snd ans))"

lemma fetch_reverse_ok:
  assumes "redis_conforms sc rely (mf_pool f) view"
    and "stable rely (reverse_index (mf_key_prefix f) (mf_skh f) tok F)" and "\<And>m. finite {n. m \<in> F n}"
    and "iterates iterate" and "cells_ok f" and "mf_enable_reverse_index f"
  shows "io_ok (\<lambda>w. reverse_index (mf_key_prefix f) (mf_skh f) tok F (view w)) (fetch f iterate ids)
    (\<lambda>ans w. reverse_answer f tok F ids ans w) (\<lambda>_. True)"
proof (cases "(dedupe_lookup_ids ids) = []")
  case True
  then show ?thesis
    unfolding fetch_def Let_def by (auto intro!: io_ok_ret simp: reverse_answer_def empty_memberships_eq fun_eq_iff)
next
  case False
  have "io_ok (\<lambda>_. list_all2 (\<lambda>i ts. set ts = tok ` {n. i \<in> F n}) (dedupe_lookup_ids ids) tss)
    (lift_io (\<lambda>w. case resolve_all (mf_dict_cache f w) (mf_now f w) (zip (dedupe_lookup_ids ids) tss) (mf_unknown_tokens f w) Map.empty of
        (m, u, started) \<Rightarrow> (Inr (m, started), mf_store_unknown f u w)))
    (\<lambda>ans w. reverse_answer f tok F ids ans w) (\<lambda>_. True)" for tss
  proof (rule io_ok_lift)
    fix w assume tss: "list_all2 (\<lambda>i ts. set ts = tok ` {n. i \<in> F n}) (dedupe_lookup_ids ids) tss"
    obtain m u started where r:
      "resolve_all (mf_dict_cache f w) (mf_now f w) (zip (dedupe_lookup_ids ids) tss) (mf_unknown_tokens f w) Map.empty = (m, u, started)"
      by (metis prod_cases3)
    have "reverse_answer f tok F ids (m, started) (mf_store_unknown f u w)"
    proof (cases "names_right (mf_dict_cache f w) tok")
      case True
      then have right: "token_to_name (mf_dict_cache f w) (tok n) \<in> {None, Some n}" for n
        unfolding names_right_def by blast
      then have "token_to_name (mf_dict_cache f w) (tok n) = None"
        if "token_to_name (mf_dict_cache f w) (tok n) \<noteq> Some n" for n using that by auto
      then show ?thesis
        using resolve_all_exact [OF r dedupe_distinct tss right] resolve_all_started [OF r] assms(5)
        by (simp add: reverse_answer_def cells_ok_def Let_def)
    next
      case False
      then show ?thesis using assms(5) by (simp add: reverse_answer_def cells_ok_def Let_def)
    qed
    then show "case case resolve_all (mf_dict_cache f w) (mf_now f w) (zip (dedupe_lookup_ids ids) tss) (mf_unknown_tokens f w) Map.empty of
        (m, u, started) \<Rightarrow> (Inr (m, started), mf_store_unknown f u w) of
        (Inl _, w') \<Rightarrow> True | (Inr ans, w') \<Rightarrow> reverse_answer f tok F ids ans w'"
      by (simp add: r)
  qed
  from io_ok_bind [OF with_timeout_ok [OF read_tokens_ok [OF assms(1,2,4,3)]] this]
  show ?thesis using assms(6) False by (simp add: fetch_def Let_def)
qed


subsection \<open>Forward\<close>

text \<open>
  The forward sets of a namespace: list \<open>l\<close> has the members \<open>G l v\<close> in version \<open>v\<close>, and its state
  shows one of the versions \<open>V l\<close>. Between commits the sets of a version do not change, and the
  set of the version before is kept, so this is kept while a new version is committed.
\<close>

definition forward_index ::
  "string \<Rightarrow> string \<Rightarrow> string set \<Rightarrow> (string \<Rightarrow> string option set) \<Rightarrow> (string \<Rightarrow> string \<Rightarrow> string set) \<Rightarrow> keyspace \<Rightarrow> bool" where
  "forward_index pre skh ls V G ks \<longleftrightarrow>
     (\<forall>l \<in> ls. (\<exists>h. hash_at ks (state_key pre skh l) = Some h
        \<and> readable_version (h ''version'') (h ''loading_version'') \<in> V l)
      \<and> (\<forall>v. Some v \<in> V l \<longrightarrow> set_at ks (fwd_key pre skh l v) = Some (G l v)))"

lemma all_replies_all2:
  "all_replies g rs = Inr as \<Longrightarrow> list_all2 (\<lambda>r a. g r = Inr a) rs as"
  by (induction rs arbitrary: as) (auto split: sum.splits)

lemma add_list_eq:
  "add_list l ims m i = (if (i, True) \<in> set ims then map_option (insert l) (m i) else m i)"
proof (induction ims arbitrary: m)
  case (Cons im ims)
  obtain j b where "im = (j, b)" by force
  then show ?case using Cons by (simp add: option.map_comp comp_def)
qed simp

lemma add_lists_eq:
  "fold (\<lambda>((l, _), ms). add_list l (zip ids ms)) qs m i =
     map_option (\<lambda>s. s \<union> {l. \<exists>v ms. ((l, v), ms) \<in> set qs \<and> (i, True) \<in> set (zip ids ms)}) (m i)"
proof (induction qs arbitrary: m)
  case (Cons q qs)
  obtain l v ms where "q = ((l, v), ms)" by (metis prod.collapse)
  then show ?case using Cons [of "add_list l (zip ids ms) m"] add_list_eq [of l "zip ids ms" m i]
    by (cases "m i") auto
qed (simp add: option.map_ident)

lemma zip_map_member: "(i, True) \<in> set (zip ids (map P ids)) \<longleftrightarrow> i \<in> set ids \<and> P i"
  by (induction ids) auto

lemma queried_set: "(l, v) \<in> set (queried_lists ls vs) \<longleftrightarrow> (l, Some v) \<in> set (zip ls vs)"
  by (force simp: queried_lists_def map_filter_def)

text \<open>What a forward read may answer: every list by one version.\<close>

definition forward_answer ::
  "string list \<Rightarrow> string set \<Rightarrow> (string \<Rightarrow> string option set) \<Rightarrow> (string \<Rightarrow> string \<Rightarrow> string set) \<Rightarrow> memberships \<Rightarrow> bool" where
  "forward_answer ids visible V G m \<longleftrightarrow>
     (\<exists>ver. (\<forall>l \<in> visible. ver l \<in> V l) \<and>
        m = (\<lambda>i. if i \<in> set ids then Some {l \<in> visible. \<exists>v. ver l = Some v \<and> i \<in> G l v} else None))"

lemma forward_answer_combined:
  assumes ls: "set ls = visible" "distinct ls" and vs: "list_all2 (\<lambda>l ver. ver \<in> V l) ls vs"
    and mss: "list_all2 (\<lambda>q ms. ms = map (\<lambda>i. i \<in> G (fst q) (snd q)) ids) (queried_lists ls vs) mss"
  shows "forward_answer ids visible V G
    (fold (\<lambda>((l, _), ms). add_list l (zip ids ms)) (zip (queried_lists ls vs) mss) (empty_memberships ids))"
  unfolding forward_answer_def
proof (intro exI conjI ballI ext)
  define ver where "ver = (\<lambda>l. the (map_of (zip ls vs) l))"
  have ver: "(l, v) \<in> set (zip ls vs) \<longleftrightarrow> l \<in> visible \<and> ver l = v" for l v
  proof -
    have d: "distinct (map fst (zip ls vs))" using ls(2) vs by (simp add: zip_fst)
    have "map_of (zip ls vs) l = None \<longleftrightarrow> l \<notin> visible"
      using vs ls(1) by (metis map_of_eq_None_iff list.set_map zip_fst)
    then show ?thesis using map_of_eq_Some_iff [OF d, of l v] by (auto simp: ver_def)
  qed
  show "ver l \<in> V l" if "l \<in> visible" for l using zip_all2 [OF vs] ver that by blast
  fix i
  have q: "(l, v) \<in> set (queried_lists ls vs) \<longleftrightarrow> l \<in> visible \<and> ver l = Some v" for l v
    by (simp add: queried_set ver)
  have "{l. \<exists>v ms. ((l, v), ms) \<in> set (zip (queried_lists ls vs) mss) \<and> (i, True) \<in> set (zip ids ms)}
      = {l. \<exists>v. (l, v) \<in> set (queried_lists ls vs) \<and> i \<in> set ids \<and> i \<in> G l v}" (is "?A = ?B")
  proof (rule set_eqI, rule iffI)
    fix l assume "l \<in> ?A"
    then obtain v ms where z: "((l, v), ms) \<in> set (zip (queried_lists ls vs) mss)" "(i, True) \<in> set (zip ids ms)" by blast
    then have "ms = map (\<lambda>i. i \<in> G l v) ids" using zip_all2 [OF mss] by fastforce
    then show "l \<in> ?B" using z by (auto simp: zip_map_member dest: set_zip_leftD)
  next
    fix l assume "l \<in> ?B"
    then obtain v where v: "(l, v) \<in> set (queried_lists ls vs)" "i \<in> set ids" "i \<in> G l v" by blast
    obtain ms where "((l, v), ms) \<in> set (zip (queried_lists ls vs) mss)"
      using v(1) zip_fst [OF mss] by (metis (no_types, lifting) in_set_impl_in_set_zip1 list_all2_lengthD mss)
    moreover from this have "ms = map (\<lambda>i. i \<in> G l v) ids" using zip_all2 [OF mss] by fastforce
    moreover from this have "(i, True) \<in> set (zip ids ms)" using v(2,3) by (simp add: zip_map_member)
    ultimately show "l \<in> ?A" by blast
  qed
  then show "fold (\<lambda>((l, _), ms). add_list l (zip ids ms)) (zip (queried_lists ls vs) mss) (empty_memberships ids) i
      = (if i \<in> set ids then Some {l \<in> visible. \<exists>v. ver l = Some v \<and> i \<in> G l v} else None)"
    by (auto simp: add_lists_eq empty_memberships_eq q)
qed

text \<open>The readers of the replies.\<close>

lemma versions_all2:
  assumes "list_all2 (\<lambda>l r. \<exists>ver lv. r = RTexts [ver, lv] \<and> readable_version ver lv \<in> V l) ls rs"
    and "all_replies version_of_reply rs = Inr vs"
  shows "list_all2 (\<lambda>l ver. ver \<in> V l) ls vs"
  by (rule list_all2_trans [OF _ assms(1) all_replies_all2 [OF assms(2)]]) (auto simp: version_of_reply_def)

lemma members_all2:
  assumes "list_all2 (\<lambda>q r. r = RInts (map (\<lambda>i. if i \<in> G (fst q) (snd q) then 1 else 0) ids)) qs rs"
    and "all_replies members_of_reply rs = Inr mss"
  shows "list_all2 (\<lambda>q ms. ms = map (\<lambda>i. i \<in> G (fst q) (snd q)) ids) qs mss"
  by (rule list_all2_trans [OF _ assms(1) all_replies_all2 [OF assms(2)]]) (auto simp: members_of_reply_def)

lemma read_versions_ok:
  assumes conf: "redis_conforms sc rely (mf_pool f) view" and st: "stable rely (forward_index pre skh visible V G)"
    and ls: "set ls \<subseteq> visible"
  shows "kio_ok view (forward_index pre skh visible V G)
    (pipe (mf_pool f) False (map (\<lambda>l. HMGET (state_key pre skh l) [''version'', ''loading_version'']) ls))
    (\<lambda>rs ks. list_all2 (\<lambda>l r. \<exists>ver lv. r = RTexts [ver, lv] \<and> readable_version ver lv \<in> V l) ls rs
       \<and> forward_index pre skh visible V G ks) (\<lambda>_. True)"
proof -
  let ?c = "\<lambda>l. HMGET (state_key pre skh l) [''version'', ''loading_version'']"
  let ?R = "\<lambda>c r. \<forall>l \<in> visible. c = ?c l \<longrightarrow> (\<exists>ver lv. r = RTexts [ver, lv] \<and> readable_version ver lv \<in> V l)"
  have "kio_ok view (forward_index pre skh visible V G) (pipe (mf_pool f) False (map ?c ls))
      (\<lambda>rs ks. list_all2 ?R (map ?c ls) rs \<and> forward_index pre skh visible V G ks) (forward_index pre skh visible V G)"
    by (rule pipe_reads_ok [OF conf st])
      (use ls in \<open>fastforce simp: step_ok_determined on_hash_def forward_index_def split: option.splits\<close>)
  then show ?thesis
    by (rule io_ok_cons) (use ls in \<open>auto simp: list_all2_map1 elim!: list.rel_mono_strong\<close>)
qed

lemma read_members_ok:
  assumes conf: "redis_conforms sc rely (mf_pool f) view" and st: "stable rely (forward_index pre skh visible V G)"
    and ns: "namespace_ok skh" and qs: "\<And>l v. (l, v) \<in> set qs \<Longrightarrow> l \<in> visible \<and> Some v \<in> V l"
  shows "kio_ok view (forward_index pre skh visible V G)
    (pipe (mf_pool f) False (map (\<lambda>(l, v). SMISMEMBER (fwd_key pre skh l v) ids) qs))
    (\<lambda>rs _. list_all2 (\<lambda>q r. r = RInts (map (\<lambda>i. if i \<in> G (fst q) (snd q) then 1 else 0) ids)) qs rs) (\<lambda>_. True)"
proof -
  let ?c = "\<lambda>(l, v). SMISMEMBER (fwd_key pre skh l v) ids"
  let ?r = "\<lambda>q. RInts (map (\<lambda>i. if i \<in> G (fst q) (snd q) then 1 else 0) ids)"
  let ?K = "forward_index pre skh visible V G"
  have key: "fwd_key pre skh l v = fwd_key pre skh l' v' \<longleftrightarrow> l = l' \<and> v = v'" for l v l' v'
    using object_key_eq [of "Fwd skh l v" "Fwd skh l' v'" pre] ns by simp
  have "kio_ok view ?K (pipe (mf_pool f) False (map ?c qs))
      (\<lambda>rs ks. list_all2 (\<lambda>c r. \<forall>q \<in> set qs. c = ?c q \<longrightarrow> r = ?r q) (map ?c qs) rs \<and> ?K ks) ?K"
  proof (rule pipe_reads_ok [OF conf st])
    fix c ks r ks' assume c: "c \<in> set (map ?c qs)" and K: "?K ks" and step: "step_ok sc c ks r ks'"
    from c obtain l v where lv: "(l, v) \<in> set qs" "c = SMISMEMBER (fwd_key pre skh l v) ids" by auto
    then have "set_at ks (fwd_key pre skh l v) = Some (G l v)" using K qs by (simp add: forward_index_def)
    then have "r = ?r (l, v)" "ks' = ks" using step lv(2) by (auto simp: step_ok_determined on_set_def)
    then show "(\<forall>q \<in> set qs. c = ?c q \<longrightarrow> r = ?r q) \<and> ?K ks'" using K lv(2) by (auto simp: key)
  qed
  then show ?thesis
    by (rule io_ok_cons) (auto simp: list_all2_map1 elim!: list.rel_mono_strong)
qed

lemma read_forward_ok:
  assumes conf: "redis_conforms sc rely (mf_pool f) view"
    and st: "stable rely (forward_index (mf_key_prefix f) (mf_skh f) visible V G)"
    and ns: "namespace_ok (mf_skh f)" and fin: "finite visible" and it: "iterates iterate"
  shows "io_ok (\<lambda>w. forward_index (mf_key_prefix f) (mf_skh f) visible V G (view w))
    (read_forward f iterate ids visible) (\<lambda>m _. forward_answer ids visible V G m) (\<lambda>_. True)"
  unfolding read_forward_def
proof (rule io_ok_bind [OF read_versions_ok [OF conf st]], goal_cases)
  case (2 rs)
  have ls: "set (iterate visible) = visible" "distinct (iterate visible)"
    using it fin by (simp_all add: iterates_def)
  show ?case
  proof (rule io_ok_bind [where R = "\<lambda>vs w. list_all2 (\<lambda>l ver. ver \<in> V l) (iterate visible) vs \<and> forward_index (mf_key_prefix f) (mf_skh f) visible V G (view w)"], goal_cases)
    case 1
    then show ?case
      by (cases "all_replies version_of_reply rs")
        (auto simp: of_sum_def intro!: io_ok_ret io_ok_fail versions_all2)
  next
    case (2 vs)
    let ?qs = "queried_lists (iterate visible) vs"
    have answer: "forward_answer ids visible V G (fold (\<lambda>((l, _), ms). add_list l (zip ids ms)) (zip ?qs mss) (empty_memberships ids))"
      if "list_all2 (\<lambda>l ver. ver \<in> V l) (iterate visible) vs"
        and "list_all2 (\<lambda>q ms. ms = map (\<lambda>i. i \<in> G (fst q) (snd q)) ids) ?qs mss" for mss
      using ls that by (rule forward_answer_combined)
    have "io_ok (\<lambda>w. forward_index (mf_key_prefix f) (mf_skh f) visible V G (view w)) (bind (pipe (mf_pool f) False (map (\<lambda>(l, v). SMISMEMBER (fwd_key (mf_key_prefix f) (mf_skh f) l v) ids) ?qs)) (\<lambda>rs.
        bind (of_sum (all_replies members_of_reply rs)) (\<lambda>mss.
        ret (fold (\<lambda>((l, _), ms). add_list l (zip ids ms)) (zip ?qs mss) (empty_memberships ids)))))
      (\<lambda>m _. forward_answer ids visible V G m) (\<lambda>_. True)" if vs: "list_all2 (\<lambda>l ver. ver \<in> V l) (iterate visible) vs"
    proof (rule io_ok_bind [OF read_members_ok [OF conf st ns]], goal_cases)
      case (1 l v)
      then show ?case using zip_all2 [OF vs] ls(1) by (auto simp: queried_set dest: set_zip_leftD)
    next
      case (2 rs)
      show ?case
        by (rule io_ok_bind [OF of_sum_ok [where Q = "\<lambda>mss. list_all2 (\<lambda>q ms. ms = map (\<lambda>i. i \<in> G (fst q) (snd q)) ids) ?qs mss"]])
          (auto intro: members_all2 io_ok_ret answer [OF vs])
    qed
    then show ?case
      using answer [of "[]"] by (auto simp: Let_def intro!: io_ok_pure io_ok_ret)
  qed
qed (use it fin in \<open>simp add: iterates_def\<close>)

lemma fetch_forward_ok:
  assumes conf: "redis_conforms sc rely (mf_pool f) view"
    and st: "stable rely (forward_index (mf_key_prefix f) (mf_skh f) visible V G)"
    and ns: "namespace_ok (mf_skh f)" and fin: "finite visible" and it: "iterates iterate"
    and mode: "\<not> mf_enable_reverse_index f"
  shows "io_ok (\<lambda>w. forward_index (mf_key_prefix f) (mf_skh f) visible V G (view w)) (fetch_visible f iterate ids visible)
    (\<lambda>r _. case r of (m, started) \<Rightarrow> forward_answer ids visible V G m \<and> started = []) (\<lambda>_. True)"
proof -
  let ?pre = "mf_key_prefix f" and ?skh = "mf_skh f" and ?ids = "dedupe_lookup_ids ids"
  let ?K = "\<lambda>w. forward_index ?pre ?skh visible V G (view w)"
  let ?Q = "forward_answer ?ids visible V G"
  have "io_ok ?K (fetch_forward f iterate ?ids visible) (\<lambda>m _. ?Q m) (\<lambda>_. True)"
  proof (cases "?ids = [] \<or> visible = {}")
    case True
    have "?Q (empty_memberships ?ids)" if "?K w" for w
    proof -
      from that have "\<forall>l \<in> visible. \<exists>ver. ver \<in> V l" by (auto simp: forward_index_def)
      then obtain ver where "\<forall>l \<in> visible. ver l \<in> V l" by metis
      then show ?thesis
        using True unfolding forward_answer_def
        by (intro exI [of _ ver]) (auto simp: empty_memberships_eq fun_eq_iff)
    qed
    then show ?thesis using True by (auto simp: fetch_forward_def intro: io_ok_ret)
  next
    case False
    then show ?thesis using with_timeout_ok [OF read_forward_ok [OF conf st ns fin it]] by (auto simp: fetch_forward_def)
  qed
  then show ?thesis
    unfolding fetch_visible_def using mode by (auto intro!: io_ok_bind io_ok_ret simp: forward_answer_def)
qed


section \<open>The dictionary\<close>

text \<open>
  The dictionary of the namespace in Redis: list \<open>n\<close> with a token has \<open>tok n\<close>, and the fields of
  tokens are written in the canonical way.
\<close>

definition dict_right :: "string \<Rightarrow> string \<Rightarrow> (string \<Rightarrow> u64) \<Rightarrow> string set \<Rightarrow> keyspace \<Rightarrow> bool" where
  "dict_right pre skh tok known ks \<longleftrightarrow>
     (\<exists>h. hash_at ks (dict_key pre skh) = Some h \<and> finite (dom h)
        \<and> (\<forall>n. h (token_field (tok n)) = (if n \<in> known then Some n else None))
        \<and> (\<forall>ts v. h (''t:'' @ ts) = Some v \<longrightarrow> (\<exists>n < 2 ^ 63. ts = show_nat n)))"

text \<open>The reply lists the fields of a hash, once each, in some order.\<close>

definition lists_fields :: "((string \<Rightarrow> string option) \<Rightarrow> (string \<times> string) list) \<Rightarrow> bool" where
  "lists_fields list_fields \<longleftrightarrow>
     (\<forall>h. finite (dom h) \<longrightarrow> map_of (list_fields h) = h \<and> distinct (map fst (list_fields h)))"

lemma snapshot_right:
  assumes "lists_fields list_fields" and "finite (dom h)"
    and "\<forall>ts v. h (''t:'' @ ts) = Some v \<longrightarrow> (\<exists>n < 2 ^ 63. ts = show_nat n)"
  shows "token_to_name (dict_snapshot (list_fields h)) t = h (token_field t)"
proof -
  have m: "map_of (list_fields h) = h" "distinct (map fst (list_fields h))"
    using assms(1,2) by (simp_all add: lists_fields_def)
  have canon: "\<forall>ts v. (''t:'' @ ts, v) \<in> set (list_fields h) \<longrightarrow> (\<exists>n < 2 ^ 63. ts = show_nat n)"
  proof (intro allI impI)
    fix ts v assume "(''t:'' @ ts, v) \<in> set (list_fields h)"
    then have "h (''t:'' @ ts) = Some v" using map_of_is_SomeI [OF m(2)] m(1) by metis
    then show "\<exists>n < 2 ^ 63. ts = show_nat n" using assms(3) by blast
  qed
  show ?thesis using snapshot_tokens [OF m(2) canon] m(1) by simp
qed

text \<open>
  A refresh returns, and when it succeeds the cached dictionary has every list that has a token,
  under its own name; so a fetch after it leaves out no list.
\<close>

lemma refresh_dictionary_right:
  assumes conf: "redis_conforms sc rely (mf_pool f) view"
    and st: "stable rely (dict_right (mf_key_prefix f) (mf_skh f) tok known)" and lf: "lists_fields list_fields"
    and cell: "\<And>d w. mf_dict_cache f (mf_store_dict f d w) = d"
  shows "io_ok (\<lambda>w. dict_right (mf_key_prefix f) (mf_skh f) tok known (view w)) (refresh_dictionary_now f list_fields)
    (\<lambda>_ w. names_right (mf_dict_cache f w) tok
       \<and> (\<forall>n \<in> known. token_to_name (mf_dict_cache f w) (tok n) = Some n)) (\<lambda>_. True)"
  unfolding refresh_dictionary_now_def load_dictionary_def
proof (rule io_ok_bind [OF with_timeout_ok])
  let ?Q = "\<lambda>snap. \<forall>n. token_to_name snap (tok n) = (if n \<in> known then Some n else None)"
  let ?K = "dict_right (mf_key_prefix f) (mf_skh f) tok known"
  let ?R = "\<lambda>r. \<exists>h. r = RFields h \<and> ?Q (dict_snapshot (list_fields h))"
  show "io_ok (\<lambda>w. ?K (view w))
      (bind (command (mf_pool f) (HGETALL (dict_key (mf_key_prefix f) (mf_skh f)))) (\<lambda>r.
         bind (as_fields r) (\<lambda>h. ret (dict_snapshot (list_fields h))))) (\<lambda>snap _. ?Q snap) (\<lambda>_. True)"
  proof (rule io_ok_bind)
    have step: "?R r" if K: "?K ks" and run: "call (HGETALL (dict_key (mf_key_prefix f) (mf_skh f))) ks = (Inr r, ks')"
      for ks r ks'
    proof -
      obtain h where h: "hash_at ks (dict_key (mf_key_prefix f) (mf_skh f)) = Some h" "finite (dom h)"
          "\<forall>n. h (token_field (tok n)) = (if n \<in> known then Some n else None)"
          "\<forall>ts v. h (''t:'' @ ts) = Some v \<longrightarrow> (\<exists>n < 2 ^ 63. ts = show_nat n)"
        using K unfolding dict_right_def by blast
      have "r = RFields h" using run h(1) by (simp add: on_hash_def)
      then show ?thesis using snapshot_right [OF lf h(2,4)] h(3) by auto
    qed
    show "kio_ok view ?K (command (mf_pool f) (HGETALL (dict_key (mf_key_prefix f) (mf_skh f)))) (\<lambda>r _. ?R r) (\<lambda>_. True)"
      by (rule call_ok [OF conf _ st]) (use step in auto)
    show "io_ok (\<lambda>_. ?R r) (bind (as_fields r) (\<lambda>h. ret (dict_snapshot (list_fields h)))) (\<lambda>snap _. ?Q snap) (\<lambda>_. True)" for r
      by (auto simp: io_ok_def as_fields_def io_eval)
  qed
  show "io_ok (\<lambda>_. ?Q snap) (lift_io (\<lambda>w. (Inr (), mf_store_dict f snap w)))
      (\<lambda>_ w. names_right (mf_dict_cache f w) tok \<and> (\<forall>n \<in> known. token_to_name (mf_dict_cache f w) (tok n) = Some n))
      (\<lambda>_. True)" for snap
    by (rule io_ok_lift) (simp add: cell names_right_def)
qed

section \<open>Concrete runs\<close>

text \<open>A fetcher on the local service; the other part of the world has the shared cells.\<close>

definition sample_fetcher :: "bool \<Rightarrow> (keyspace \<times> DictSnapshot \<times> (u64 \<Rightarrow> nat option)) fetcher" where
  "sample_fetcher mode =
     \<lparr>mf_enable_reverse_index = mode, mf_key_prefix = ''p'', mf_skh = ''abcd'', mf_pool = local_exec,
      mf_dict_cache = (\<lambda>w. fst (snd w)), mf_store_dict = (\<lambda>d w. (fst w, d, snd (snd w))),
      mf_unknown_tokens = (\<lambda>w. snd (snd w)), mf_store_unknown = (\<lambda>u w. (fst w, fst (snd w), u)),
      mf_now = (\<lambda>_. 7), mf_expired = (\<lambda>w. (False, w)), mf_fetch_timeout = 50\<rparr>"

definition sample_members :: "string \<Rightarrow> string set" where
  "sample_members n = (if n = ''a'' \<or> n = ''b'' then {''m''} else {})"

definition sample_token :: "string \<Rightarrow> u64" where
  "sample_token n = (if n = ''a'' then 1 else if n = ''b'' then 2 else 3)"

definition sample_index :: keyspace where
  "sample_index = [member_key ''p'' ''abcd'' ''m'' \<mapsto> \<lparr>re_value = VSet {show_u64 1, show_u64 2}, re_ttl = None\<rparr>]"

definition sample_dict :: DictSnapshot where
  "sample_dict = \<lparr>name_to_token = [''a'' \<mapsto> 1], token_to_name = [1 \<mapsto> ''a'']\<rparr>"

lemma iterates_sorted: "iterates sorted_list_of_set"
  by (simp add: iterates_def)

lemma sample_namespace_reads: "namespace_ok ''abcd''"
  by (simp add: namespace_ok_def)

lemma sample_index_ok: "reverse_index ''p'' ''abcd'' sample_token sample_members sample_index"
  unfolding reverse_index_def
proof
  fix m
  have "{n. ''m'' \<in> sample_members n} = {''a'', ''b''}" "m \<noteq> ''m'' \<Longrightarrow> {n. m \<in> sample_members n} = {}"
    by (auto simp: sample_members_def)
  then show "set_at sample_index (member_key ''p'' ''abcd'' m)
      = Some (show_u64 ` sample_token ` {n. m \<in> sample_members n})"
    using sample_namespace_reads
    by (cases "m = ''m''") (simp_all add: sample_index_def set_at_def member_key_eq sample_token_def insert_commute)
qed

text \<open>The token of list \<open>b\<close> is not in the cached dictionary: its refresh is started.\<close>

lemma sample_tokens:
  obtains ts where "tokens_of_reply sorted_list_of_set (RStrings {show_u64 1, show_u64 2}) = Inr ts"
  using tokens_of_reply_set [OF iterates_sorted, of "{1, 2}"] by auto

lemma sample_fetch:
  "\<exists>ans w'. fetch (sample_fetcher True) sorted_list_of_set [''m'', ''m''] (sample_index, d, Map.empty)
     = Some (Inr ans, w') \<and> snd w' = (d, snd (snd w'))"
proof (rule sample_tokens)
  fix ts assume "tokens_of_reply sorted_list_of_set (RStrings {show_u64 1, show_u64 2}) = Inr ts"
  then show ?thesis
    by (auto simp: fetch_def dedupe_lookup_ids_def sample_fetcher_def with_timeout_def read_tokens_def pipe_def
        local_exec_def local_step_call io_eval on_set_def set_at_def sample_index_def Let_def
        simp del: resolve_all.simps split: prod.splits)
qed


text \<open>A list in its version \<open>1\<close>, and a list that is loading for the first time.\<close>

definition sample_forward :: keyspace where
  "sample_forward =
     [state_key ''p'' ''abcd'' ''a'' \<mapsto> \<lparr>re_value = VHash [''version'' \<mapsto> ''1''], re_ttl = None\<rparr>,
      fwd_key ''p'' ''abcd'' ''a'' ''1'' \<mapsto> \<lparr>re_value = VSet {''m''}, re_ttl = None\<rparr>]"

definition sample_iteration :: iteration where
  "sample_iteration s = (if s = {''a'', ''b''} then [''b'', ''a''] else sorted_list_of_set s)"

lemma sample_state_keys:
  "state_key ''p'' ''abcd'' ''b'' \<noteq> state_key ''p'' ''abcd'' ''a''"
  "state_key ''p'' ''abcd'' ''b'' \<noteq> fwd_key ''p'' ''abcd'' ''a'' ''1''"
  "state_key ''p'' ''abcd'' ''a'' \<noteq> fwd_key ''p'' ''abcd'' ''a'' ''1''"
  using object_key_eq [of "SyncState ''abcd'' ''b''" "SyncState ''abcd'' ''a''" "''p''"]
    object_key_eq [of "SyncState ''abcd'' ''b''" "Fwd ''abcd'' ''a'' ''1''" "''p''"]
    object_key_eq [of "SyncState ''abcd'' ''a''" "Fwd ''abcd'' ''a'' ''1''" "''p''"] sample_namespace_reads
  by simp_all

lemma sample_forward_runs:
  "\<exists>m w'. fetch_visible (sample_fetcher False) sample_iteration [''m'', ''x''] {''a'', ''b''}
     (sample_forward, sample_dict, Map.empty) = Some (Inr (m, []), w')"
  by (simp add: fetch_visible_def fetch_forward_def dedupe_lookup_ids_def sample_fetcher_def with_timeout_def
      read_forward_def pipe_def local_exec_def local_step_call io_eval on_hash_def on_set_def set_at_def hash_at_def
      sample_forward_def sample_iteration_def sample_state_keys readable_version_def version_of_reply_def of_sum_def
      members_of_reply_def queried_lists_def map_filter_simps Let_def)


end
