(* ===== verification/SyncProducer.thy ===== *)
theory SyncProducer
  imports ListRemoval MembershipReads
begin

text \<open>
  The producer of the task queue: \<open>idlist_membership/redis_syncer.rs\<close>. One pod per interval holds
  the producer lock, compares the manifests of every company with the state that Redis has, and
  queues a task for every list that differs. The theory shows that the tasks are exactly the
  needed ones, that a removal is queued only when all manifests of the company are known and none
  has the list, and that what is queued is what the worker reads back.
\<close>

section \<open>The producer\<close>

record 'w IdListSyncProducer =
  pd_enable_reverse_index :: bool
  pd_key_prefix :: string
  pd_lock :: "'w RedisWorkLock"
  pd_pool :: "'w redis"
  pd_namespaces :: "'w \<Rightarrow> IdListNamespaces"
  pd_sha256_b64 :: "string \<Rightarrow> string"
  pd_interval_s :: u64

definition producer_new ::
  "string \<Rightarrow> 'w RedisWorkLock \<Rightarrow> 'w redis \<Rightarrow> ('w \<Rightarrow> IdListNamespaces) \<Rightarrow> (string \<Rightarrow> string) \<Rightarrow> u64 \<Rightarrow> 'w IdListSyncProducer" where
  "producer_new pre lock pool namespaces sha256_b64 interval_s =
     \<lparr>pd_enable_reverse_index = True, pd_key_prefix = pre, pd_lock = lock, pd_pool = pool,
      pd_namespaces = namespaces, pd_sha256_b64 = sha256_b64, pd_interval_s = max interval_s 1\<rparr>"

definition with_reverse_index_enabled :: "bool \<Rightarrow> 'w IdListSyncProducer \<Rightarrow> 'w IdListSyncProducer" where
  "with_reverse_index_enabled enabled pd = pd\<lparr>pd_enable_reverse_index := enabled\<rparr>"

record ProducerTickStats =
  ts_tasks_enqueued :: u64
  ts_removals_scheduled :: u64
  ts_queue_depth :: u64
  ts_manifest_unavailable :: u64
  ts_tasks_derived :: u64

datatype ProducerTickOutcome = Skipped | Tick_Success ProducerTickStats

subsection \<open>The lists of a company\<close>

definition read_state :: "'w IdListSyncProducer \<Rightarrow> string \<Rightarrow> string \<Rightarrow> ('w, redis_error, ListSyncState option) io" where
  "read_state pd skh list =
     bind (command (pd_pool pd) (HGETALL (state_key (pd_key_prefix pd) skh list))) (\<lambda>r.
     bind (as_fields r) (\<lambda>flds.
     ret (if flds = (\<lambda>_. None) then None else Some (from_hash_fields flds))))"

definition read_fwd_exists ::
  "'w IdListSyncProducer \<Rightarrow> string \<Rightarrow> string \<Rightarrow> ListSyncState option \<Rightarrow> ('w, redis_error, bool) io" where
  "read_fwd_exists pd skh list st =
     (case st of
        None \<Rightarrow> ret False
      | Some s \<Rightarrow>
          if ls_version s = [] then ret False
          else bind (command (pd_pool pd) (EXISTS (fwd_key (pd_key_prefix pd) skh list (ls_version s)))) as_bool)"

text \<open>The tasks so far and whether a list waits for its reverse index.\<close>

definition plan_list ::
  "'w IdListSyncProducer \<Rightarrow> string \<Rightarrow> id_list_manifest \<Rightarrow> string \<Rightarrow> DerivedTask list \<times> bool
     \<Rightarrow> ('w, redis_error, DerivedTask list \<times> bool) io" where
  "plan_list pd skh manifest list acc =
     bind (read_state pd skh list) (\<lambda>st.
     bind (read_fwd_exists pd skh list st) (\<lambda>fwd_exists.
     ret (case plan_sync_with_reverse_index st (metadata_of_entry (the (manifest list))) fwd_exists
                 (pd_enable_reverse_index pd) of
            None \<Rightarrow> fst acc
          | Some (action, target) \<Rightarrow>
              fst acc @ [\<lparr>dt_skh = skh, dt_list = list, dt_action = action, dt_meta = Some target\<rparr>],
          snd acc \<or> (case st of None \<Rightarrow> False | Some s \<Rightarrow> ls_reverse_index_disabled s))))"

definition removal_task :: "string \<Rightarrow> string \<Rightarrow> DerivedTask" where
  "removal_task skh list = \<lparr>dt_skh = skh, dt_list = list, dt_action = Remove, dt_meta = None\<rparr>"

definition plan_removals ::
  "'w IdListSyncProducer \<Rightarrow> iteration \<Rightarrow> string \<Rightarrow> CompanyManifest \<Rightarrow> ('w, redis_error, DerivedTask list) io" where
  "plan_removals pd iterate skh company =
     bind (command (pd_pool pd) (SMEMBERS (all_lists_key (pd_key_prefix pd) skh))) (\<lambda>r.
     bind (as_strings r) (\<lambda>known.
     ret (map (removal_task skh)
       (filter (\<lambda>l. \<not> co_incomplete company \<and> co_lists company l = None) (iterate known)))))"

text \<open>Nothing is to do for the company: it is ready, or waits for its reverse index.\<close>

definition set_ready ::
  "'w IdListSyncProducer \<Rightarrow> string \<Rightarrow> id_list_manifest \<Rightarrow> bool \<Rightarrow> ('w, redis_error, unit) io" where
  "set_ready pd skh manifest reverse_rebuild_pending =
     (if pd_enable_reverse_index pd \<and> reverse_rebuild_pending
      then seq (command (pd_pool pd) (DEL (ready_key (pd_key_prefix pd) skh))) (ret ())
      else seq (when_io (pd_enable_reverse_index pd)
                  (seq (command (pd_pool pd) (HDEL (dict_key (pd_key_prefix pd) skh) [''__reverse_index_disabled''])) (ret ())))
           (seq (command (pd_pool pd) (SET (ready_key (pd_key_prefix pd) skh) (show_nat (card (dom manifest))))) (ret ())))"

definition plan_company ::
  "'w IdListSyncProducer \<Rightarrow> iteration \<Rightarrow> string \<Rightarrow> CompanyManifest \<Rightarrow> ('w, redis_error, DerivedTask list \<times> DerivedTask list) io" where
  "plan_company pd iterate skh company =
     bind (fold_io (iterate (dom (co_lists company))) (plan_list pd skh (co_lists company)) ([], False)) (\<lambda>(loads, pending).
     bind (plan_removals pd iterate skh company) (\<lambda>removals.
     seq (when_io (\<not> co_incomplete company \<and> loads = [] \<and> removals = []) (set_ready pd skh (co_lists company) pending))
       (ret (loads, removals))))"

subsection \<open>The queue\<close>

definition meta_commands :: "string \<Rightarrow> DerivedTask \<Rightarrow> redis_cmd list" where
  "meta_commands key t =
     (case dt_action t of
        Remove \<Rightarrow> [HSET key [(''op'', ''remove'')]]
      | _ \<Rightarrow>
          (case dt_meta t of
             Some m \<Rightarrow>
               [HSET key [(''op'', ''load'')], HSET key [(''url'', md_url m)], HSET key [(''file_id'', md_file_id m)],
                HSET key [(''creation_time'', show_u64 (md_creation_time m))], HSET key [(''size'', show_u64 (md_size m))]]
           | None \<Rightarrow> [HSET key [(''op'', ''load'')]]))"

definition task_commands :: "string \<Rightarrow> u64 \<Rightarrow> nat \<times> DerivedTask \<Rightarrow> redis_cmd list" where
  "task_commands pre meta_ttl st =
     (case st of (score, t) \<Rightarrow>
        let key = task_meta_key pre (dt_skh t) (dt_list t)
        in meta_commands key t @ [expire_cmd key meta_ttl, ZADD_NX (queue_key pre) score (encode_task (dt_skh t, dt_list t))])"

text \<open>The replies of the commands that are not ignored, as integers.\<close>

fun zadd_replies :: "redis_cmd list \<Rightarrow> redis_reply list \<Rightarrow> redis_error + int list" where
  "zadd_replies (ZADD_NX k s m # cs) (r # rs) =
     (case r of
        RInt i \<Rightarrow> (case zadd_replies cs rs of Inl e \<Rightarrow> Inl e | Inr is \<Rightarrow> Inr (i # is))
      | _ \<Rightarrow> Inl reply_error)"
| "zadd_replies (_ # cs) (_ # rs) = zadd_replies cs rs"
| "zadd_replies _ _ = Inr []"

definition enqueue_chunk ::
  "'w IdListSyncProducer \<Rightarrow> u64 \<Rightarrow> (nat \<times> DerivedTask) list \<Rightarrow> u64 \<Rightarrow> ('w, redis_error, u64) io" where
  "enqueue_chunk pd meta_ttl chunk added =
     (let cs = concat (map (task_commands (pd_key_prefix pd) meta_ttl) chunk)
      in bind (pipe (pd_pool pd) False cs) (\<lambda>rs.
           case zadd_replies cs rs of
             Inl e \<Rightarrow> fail e
           | Inr is \<Rightarrow> ret (added + of_nat (length (filter (\<lambda>i. 0 < i) is)))))"

definition enqueue_tasks :: "'w IdListSyncProducer \<Rightarrow> (nat \<times> DerivedTask) list \<Rightarrow> ('w, redis_error, u64) io" where
  "enqueue_tasks pd tasks =
     (if tasks = [] then ret 0
      else let meta_ttl = max (sat_mul (pd_interval_s pd) 10) 60
           in fold_io (chunks_of 64 tasks) (enqueue_chunk pd meta_ttl) 0)"

subsection \<open>One attempt\<close>

definition plan_companies ::
  "'w IdListSyncProducer \<Rightarrow> iteration \<Rightarrow> (string \<Rightarrow> CompanyManifest option) \<Rightarrow> ('w, redis_error, DerivedTask list \<times> u64) io" where
  "plan_companies pd iterate companies =
     fold_io (sorted_list_of_set (dom companies)) (\<lambda>skh acc.
       bind (plan_company pd iterate skh (the (companies skh))) (\<lambda>(loads, removals).
       ret (fst acc @ loads @ removals, snd acc + of_nat (length removals)))) ([], 0)"

definition collision_error :: redis_error where
  "collision_error = ''ID-list namespace collision; task generation aborted''"

definition produce_locked ::
  "'w IdListSyncProducer \<Rightarrow> iteration \<Rightarrow> ('w, redis_error, ProducerTickStats) io" where
  "produce_locked pd iterate w =
     (case company_manifests (pd_sha256_b64 pd) (pd_namespaces pd w) of
        Inl _ \<Rightarrow> Some (Inl collision_error, w)
      | Inr (companies, unavailable) \<Rightarrow>
          bind (plan_companies pd iterate companies) (\<lambda>(derived, removals).
          let ordered = order_and_dedupe_tasks derived
          in bind (enqueue_tasks pd ordered) (\<lambda>enqueued.
             bind (bind (command (pd_pool pd) (ZCARD (queue_key (pd_key_prefix pd)))) as_u64) (\<lambda>depth.
             ret \<lparr>ts_tasks_enqueued = enqueued, ts_removals_scheduled = removals, ts_queue_depth = depth,
                  ts_manifest_unavailable = of_nat unavailable, ts_tasks_derived = of_nat (length ordered)\<rparr>))) w)"

definition producer_run_once ::
  "'w IdListSyncProducer \<Rightarrow> iteration \<Rightarrow> ('w, redis_error, ProducerTickOutcome) io" where
  "producer_run_once pd iterate =
     bind (try_acquire (pd_lock pd) (producer_lock_key (pd_key_prefix pd)) (pd_interval_s pd)) (\<lambda>acquired.
       if \<not> acquired then ret Skipped
       else bind (produce_locked pd iterate) (\<lambda>stats. ret (Tick_Success stats)))"

section \<open>What is queued\<close>

text \<open>What a command of the queue leaves in the keyspace, other than a time to live.\<close>

definition written :: "redis_cmd \<Rightarrow> keyspace \<Rightarrow> bool" where
  "written c ks =
     (case c of
        HSET k [(f, v)] \<Rightarrow> \<exists>h. hash_at ks k = Some h \<and> h f = Some v
      | ZADD_NX k _ m \<Rightarrow> \<exists>z. zset_at ks k = Some z \<and> z m \<noteq> None
      | _ \<Rightarrow> True)"

lemma written_simps [simp]:
  "written (HSET k [(f, v)]) ks \<longleftrightarrow> (\<exists>h. hash_at ks k = Some h \<and> h f = Some v)"
  "written (ZADD_NX k sc m) ks \<longleftrightarrow> (\<exists>z. zset_at ks k = Some z \<and> z m \<noteq> None)"
  "written (EXPIRE k t) ks"
  by (simp_all add: written_def)

text \<open>
  Commands that do not undo each other: fields are written in single hashes with one value each,
  apart from the key of the queue, and no key is expired at once.
\<close>

definition queue_cmd :: "string \<Rightarrow> redis_cmd \<Rightarrow> bool" where
  "queue_cmd q c \<longleftrightarrow>
     (\<exists>k f v. c = HSET k [(f, v)] \<and> k \<noteq> q) \<or> (\<exists>k t. c = EXPIRE k t \<and> k \<noteq> q \<and> t \<noteq> 0)
     \<or> (\<exists>s m. c = ZADD_NX q s m)"

definition queue_writes :: "string \<Rightarrow> redis_cmd set \<Rightarrow> bool" where
  "queue_writes q C \<longleftrightarrow>
     (\<forall>c \<in> C. queue_cmd q c)
     \<and> (\<forall>k f v v'. HSET k [(f, v)] \<in> C \<longrightarrow> HSET k [(f, v')] \<in> C \<longrightarrow> v = v')"

lemma hash_at_put_zset: "k' \<noteq> k \<Longrightarrow> hash_at (put_zset k z ks) k' = hash_at ks k'"
  by (simp add: hash_at_def put_zset_def put_value_def)

lemma zset_at_put_hash: "k' \<noteq> k \<Longrightarrow> zset_at (put_hash k h ks) k' = zset_at ks k'"
  by (simp add: zset_at_def put_hash_def put_value_def)

lemma zset_at_put: "zset_at (put_zset k z ks) k = Some z"
  by (simp add: zset_at_def put_zset_def put_value_def)

lemma zset_at_upd: "k' \<noteq> k \<Longrightarrow> zset_at (ks(k := e)) k' = zset_at ks k'"
  by (simp add: zset_at_def)

lemma queue_step:
  assumes C: "queue_writes q C" and c: "c \<in> C" and step: "step_ok sc c ks r ks'"
  shows "written c ks'" and "d \<in> C \<Longrightarrow> written d ks \<Longrightarrow> written d ks'"
proof -
  have kinds: "queue_cmd q c" if "c \<in> C" for c using C that by (simp add: queue_writes_def)
  consider (hset) k f v where "c = HSET k [(f, v)]" "k \<noteq> q" | (expire) k t where "c = EXPIRE k t" "k \<noteq> q" "t \<noteq> 0"
    | (zadd) s m where "c = ZADD_NX q s m"
    using kinds [OF c] unfolding queue_cmd_def by blast
  note kind = this
  have d: "(\<exists>k f v. d = HSET k [(f, v)] \<and> k \<noteq> q) \<or> (\<exists>k t. d = EXPIRE k t) \<or> (\<exists>s m. d = ZADD_NX q s m)" if "d \<in> C" for d
    using kinds [OF that] unfolding queue_cmd_def by blast
  show "written c ks'"
    using kind
  proof cases
    case hset
    then show ?thesis using step
      by (auto simp: step_ok_determined on_hash_def hash_at_put split: option.splits)
  next
    case zadd
    then show ?thesis using step
      by (auto simp: step_ok_determined on_zset_def zset_at_put split: option.splits if_splits)
  qed simp
  show "written d ks'" if "d \<in> C" "written d ks"
    using kind
  proof cases
    case hset
    then obtain h where h: "hash_at ks k = Some h" "ks' = put_hash k (h(f \<mapsto> v)) ks"
      using step by (auto simp: step_ok_determined on_hash_def split: option.splits)
    have "v' = v" if "d = HSET k [(f, v')]" for v'
      using C hset(1) c \<open>d \<in> C\<close> that by (auto simp: queue_writes_def)
    then show ?thesis
      using d [OF \<open>d \<in> C\<close>] \<open>written d ks\<close> h hset(2) by (auto simp: hash_at_put zset_at_put_hash)
  next
    case expire
    have "hash_at ks' k' = hash_at ks k' \<and> zset_at ks' q = zset_at ks q" for k'
    proof (cases "ks k")
      case None
      then show ?thesis using step expire(1) by (auto simp: step_ok_determined)
    next
      case (Some e)
      then have "ks' = ks(k \<mapsto> e\<lparr>re_ttl := Some t\<rparr>)" using step expire by (auto simp: step_ok_determined)
      then show ?thesis
        using upd_ttl(2) [of ks k e "Some t" k'] Some zset_at_upd [of q k ks] expire(2) by simp
    qed
    then show ?thesis using d [OF \<open>d \<in> C\<close>] \<open>written d ks\<close> by auto
  next
    case zadd
    then obtain z where z: "zset_at ks q = Some z" "ks' = ks \<or> ks' = put_zset q (z(m \<mapsto> s)) ks"
      using step by (auto simp: step_ok_determined on_zset_def split: option.splits if_splits)
    then show ?thesis
      using d [OF \<open>d \<in> C\<close>] \<open>written d ks\<close> by (auto simp: hash_at_put_zset zset_at_put)
  qed
qed

lemma pipe_queue_ok:
  assumes conf: "redis_conforms sc rely exec view" and C: "queue_writes q C" and cs: "set cs \<subseteq> C" "D \<subseteq> C"
    and st: "\<And>c. c \<in> C \<Longrightarrow> stable rely (written c)"
  shows "kio_ok view (\<lambda>ks. \<forall>c \<in> D. written c ks) (pipe exec False cs)
    (\<lambda>_ ks. \<forall>c \<in> D \<union> set cs. written c ks) (\<lambda>_. True)"
proof -
  define I where "I = (\<lambda>i ks. \<forall>c \<in> D \<union> set (take i cs). written c ks)"
  have "kio_ok view (\<lambda>ks. \<forall>c \<in> D. written c ks) (pipe exec False cs) (\<lambda>_. I (length cs)) (\<lambda>_. True)"
  proof (rule pipe_ok [OF conf])
    show "stable rely (I i)" for i
    proof -
      have "D \<union> set (take i cs) \<subseteq> C" using cs set_take_subset [of i cs] by blast
      then show ?thesis using st unfolding I_def stable_def by blast
    qed
    show "I (Suc i) ks'" if "i < length cs" "I i ks" "step_ok sc (cs ! i) ks r ks'" for i ks r ks'
    proof -
      have "cs ! i \<in> C" using that(1) cs(1) by (meson nth_mem subsetD)
      moreover have "D \<union> set (take i cs) \<subseteq> C" using cs set_take_subset [of i cs] by blast
      ultimately show ?thesis
        using queue_step [OF C _ that(3)] that(1,2) by (auto simp: I_def take_Suc_conv_app_nth)
    qed
  qed (simp_all add: I_def)
  then show ?thesis by (simp add: I_def)
qed

text \<open>The commands of tasks on different lists do not undo each other.\<close>

definition task_ok :: "DerivedTask \<Rightarrow> bool" where
  "task_ok t \<longleftrightarrow> namespace_ok (dt_skh t)
     \<and> (dt_action t \<noteq> Remove \<longrightarrow> (\<exists>m. dt_meta t = Some m \<and> md_url m \<noteq> []))"

definition one_per_list :: "DerivedTask set \<Rightarrow> bool" where
  "one_per_list T \<longleftrightarrow> (\<forall>t \<in> T. \<forall>t' \<in> T. task_key t = task_key t' \<longrightarrow> t = t')"

lemma meta_key_eq:
  "namespace_ok s \<Longrightarrow> namespace_ok s' \<Longrightarrow> task_meta_key pre s l = task_meta_key pre s' l' \<longleftrightarrow> s = s' \<and> l = l'"
  using object_key_eq [of "TaskMeta s l" "TaskMeta s' l'" pre] by simp

lemma meta_key_queue: "namespace_ok s \<Longrightarrow> task_meta_key pre s l \<noteq> queue_key pre"
  using object_key_eq [of "TaskMeta s l" Queue pre] by simp

lemma meta_commands_hset:
  "HSET k fvs \<in> set (meta_commands key t) \<Longrightarrow> k = key \<and> (\<exists>f v. fvs = [(f, v)])"
  by (auto simp: meta_commands_def split: SyncAction.splits option.splits)

lemma meta_commands_kind: "c \<in> set (meta_commands key t) \<Longrightarrow> \<exists>f v. c = HSET key [(f, v)]"
  by (auto simp: meta_commands_def split: SyncAction.splits option.splits)

lemma meta_commands_single:
  "HSET k [(f, v)] \<in> set (meta_commands key t) \<Longrightarrow> HSET k [(f, v')] \<in> set (meta_commands key t) \<Longrightarrow> v = v'"
  by (auto simp: meta_commands_def split: SyncAction.splits option.splits)

lemma tasks_queue_writes:
  assumes ok: "\<And>st. st \<in> set tasks \<Longrightarrow> task_ok (snd st)" and one: "one_per_list (snd ` set tasks)"
    and ttl: "ttl \<noteq> 0" "unat ttl < 2 ^ 63"
  shows "queue_writes (queue_key pre) (\<Union>st \<in> set tasks. set (task_commands pre ttl st))"
  unfolding queue_writes_def
proof (intro conjI ballI allI impI)
  fix c assume "c \<in> (\<Union>st \<in> set tasks. set (task_commands pre ttl st))"
  then obtain score t where t: "(score, t) \<in> set tasks" "c \<in> set (task_commands pre ttl (score, t))" by auto
  have "task_meta_key pre (dt_skh t) (dt_list t) \<noteq> queue_key pre"
    using ok [OF t(1)] by (simp add: task_ok_def meta_key_queue)
  then show "queue_cmd (queue_key pre) c"
    using t(2) ttl meta_commands_kind by (fastforce simp: task_commands_def Let_def expire_cmd_def queue_cmd_def)
next
  fix k f v v'
  have in_meta: "\<exists>t. t \<in> snd ` set tasks \<and> k = task_meta_key pre (dt_skh t) (dt_list t)
      \<and> HSET k [(f, x)] \<in> set (meta_commands k t)"
    if "HSET k [(f, x)] \<in> (\<Union>st \<in> set tasks. set (task_commands pre ttl st))" for x
    using that meta_commands_hset by (fastforce simp: task_commands_def Let_def expire_cmd_def)
  assume "HSET k [(f, v)] \<in> (\<Union>st \<in> set tasks. set (task_commands pre ttl st))"
    and "HSET k [(f, v')] \<in> (\<Union>st \<in> set tasks. set (task_commands pre ttl st))"
  then obtain t t' where t: "t \<in> snd ` set tasks" "k = task_meta_key pre (dt_skh t) (dt_list t)" "HSET k [(f, v)] \<in> set (meta_commands k t)"
      and t': "t' \<in> snd ` set tasks" "k = task_meta_key pre (dt_skh t') (dt_list t')" "HSET k [(f, v')] \<in> set (meta_commands k t')"
    using in_meta by meson
  have "namespace_ok (dt_skh t)" "namespace_ok (dt_skh t')" using t(1) t'(1) ok by (auto simp: task_ok_def)
  then have "task_key t = task_key t'" using t(2) t'(2) meta_key_eq by simp
  then have "t = t'" using t(1) t'(1) one unfolding one_per_list_def by blast
  then show "v = v'" using t(3) t'(3) meta_commands_single by blast
qed

text \<open>What the worker reads for a task.\<close>

definition task_queued :: "string \<Rightarrow> DerivedTask \<Rightarrow> keyspace \<Rightarrow> bool" where
  "task_queued pre t ks \<longleftrightarrow>
     (\<exists>z. zset_at ks (queue_key pre) = Some z \<and> z (encode_task (dt_skh t, dt_list t)) \<noteq> None)
     \<and> (\<exists>h tm. hash_at ks (task_meta_key pre (dt_skh t) (dt_list t)) = Some h \<and> task_from_hash h = Inr tm
          \<and> (if dt_action t = Remove then tm_op tm = TaskOp_Remove
             else tm_op tm = TaskOp_Load \<and> Some (as_idlist_metadata tm) = dt_meta t))"

lemma same_hash:
  "written (HSET k [(f, v)]) ks \<Longrightarrow> hash_at ks k = Some h \<Longrightarrow> h f = Some v"
  by simp

lemma commands_written:
  assumes w: "\<forall>c \<in> set (task_commands pre ttl (score, t)). written c ks" and ok: "task_ok t"
  shows "task_queued pre t ks"
proof -
  let ?k = "task_meta_key pre (dt_skh t) (dt_list t)"
  have q: "\<exists>z. zset_at ks (queue_key pre) = Some z \<and> z (encode_task (dt_skh t, dt_list t)) \<noteq> None"
    using w by (simp add: task_commands_def Let_def)
  have meta: "\<forall>c \<in> set (meta_commands ?k t). written c ks" using w by (simp add: task_commands_def Let_def)
  show ?thesis
  proof (cases "dt_action t = Remove")
    case True
    then obtain h where "hash_at ks ?k = Some h" "h ''op'' = Some ''remove''" using meta by (auto simp: meta_commands_def)
    then show ?thesis using q True by (simp add: task_queued_def task_from_hash_def parse_task_op_def then_sum_def)
  next
    case False
    then obtain m where m: "dt_meta t = Some m" "md_url m \<noteq> []" using ok by (auto simp: task_ok_def)
    have load: "\<forall>c \<in> set [HSET ?k [(''op'', ''load'')], HSET ?k [(''url'', md_url m)], HSET ?k [(''file_id'', md_file_id m)],
        HSET ?k [(''creation_time'', show_u64 (md_creation_time m))], HSET ?k [(''size'', show_u64 (md_size m))]]. written c ks"
      using meta False m(1) by (cases "dt_action t") (simp_all add: meta_commands_def)
    then obtain h where h: "hash_at ks ?k = Some h" by auto
    then have "h ''op'' = Some ''load''" "h ''url'' = Some (md_url m)" "h ''file_id'' = Some (md_file_id m)"
      "h ''creation_time'' = Some (show_u64 (md_creation_time m))" "h ''size'' = Some (show_u64 (md_size m))"
      using load by auto
    then have "task_from_hash h = Inr \<lparr>tm_op = TaskOp_Load, tm_file_id = md_file_id m,
        tm_creation_time = md_creation_time m, tm_url = md_url m, tm_size = md_size m\<rparr>"
      using m(2) by (simp add: task_from_hash_def parse_task_op_def then_sum_def parse_task_number_def
          parse_u64_show_u64 unwrap_or_def)
    then show ?thesis using q h False m(1) by (simp add: task_queued_def as_idlist_metadata_def)
  qed
qed

lemma enqueue_chunk_ok:
  assumes conf: "redis_conforms sc rely (pd_pool pd) view" and C: "queue_writes q C"
    and cs: "\<And>st. st \<in> set chunk \<Longrightarrow> set (task_commands (pd_key_prefix pd) ttl st) \<subseteq> C" "D \<subseteq> C"
    and st: "\<And>c. c \<in> C \<Longrightarrow> stable rely (written c)"
  shows "io_ok (\<lambda>w. \<forall>c \<in> D. written c (view w)) (enqueue_chunk pd ttl chunk added)
    (\<lambda>_ w. \<forall>c \<in> D \<union> (\<Union>st \<in> set chunk. set (task_commands (pd_key_prefix pd) ttl st)). written c (view w)) (\<lambda>_. True)"
  unfolding enqueue_chunk_def Let_def
proof (rule io_ok_bind)
  let ?cs = "concat (map (task_commands (pd_key_prefix pd) ttl) chunk)"
  have set: "set ?cs = (\<Union>st \<in> set chunk. set (task_commands (pd_key_prefix pd) ttl st))" by simp
  have "set ?cs \<subseteq> C" unfolding set using cs(1) by blast
  from pipe_queue_ok [OF conf C this cs(2) st]
  show "io_ok (\<lambda>w. \<forall>c \<in> D. written c (view w)) (pipe (pd_pool pd) False ?cs)
      (\<lambda>_ w. \<forall>c \<in> D \<union> (\<Union>st \<in> set chunk. set (task_commands (pd_key_prefix pd) ttl st)). written c (view w)) (\<lambda>_. True)"
    unfolding set .
  show "io_ok (\<lambda>w. \<forall>c \<in> D \<union> (\<Union>st \<in> set chunk. set (task_commands (pd_key_prefix pd) ttl st)). written c (view w))
      (case zadd_replies ?cs rs of Inl e \<Rightarrow> fail e | Inr is \<Rightarrow> ret (added + of_nat (length (filter (\<lambda>i. 0 < i) is))))
      (\<lambda>_ w. \<forall>c \<in> D \<union> (\<Union>st \<in> set chunk. set (task_commands (pd_key_prefix pd) ttl st)). written c (view w)) (\<lambda>_. True)" for rs
    by (cases "zadd_replies ?cs rs") (simp_all add: io_ok_fail io_ok_ret)
qed

lemma meta_ttl_ok:
  assumes "unat interval < 2 ^ 59"
  shows "max (sat_mul interval 10) 60 \<noteq> (0 :: u64)" and "unat (max (sat_mul interval 10) 60 :: u64) < 2 ^ 63"
proof -
  have "unat (sat_mul interval 10) < 2 ^ 63"
    using assms by (simp add: unat_sat_mul)
  then show "unat (max (sat_mul interval 10) 60 :: u64) < 2 ^ 63" by (simp add: max_def)
  show "max (sat_mul interval 10) 60 \<noteq> (0 :: u64)" by (auto simp: max_def)
qed

text \<open>
  Enqueueing returns; when it reports success, the commands of all tasks are written. At most one
  task per list is given, as ordering guarantees, and other clients do not take these tasks away
  meanwhile.
\<close>

lemma enqueue_tasks_ok:
  assumes conf: "redis_conforms sc rely (pd_pool pd) view"
    and ok: "\<And>st. st \<in> set tasks \<Longrightarrow> task_ok (snd st)" and one: "one_per_list (snd ` set tasks)"
    and interval: "unat (pd_interval_s pd) < 2 ^ 59"
    and st: "\<And>st c. st \<in> set tasks \<Longrightarrow> c \<in> set (task_commands (pd_key_prefix pd) (max (sat_mul (pd_interval_s pd) 10) 60) st)
      \<Longrightarrow> stable rely (written c)"
  shows "io_ok (\<lambda>_. True) (enqueue_tasks pd tasks)
    (\<lambda>_ w. \<forall>c \<in> (\<Union>st \<in> set tasks. set (task_commands (pd_key_prefix pd) (max (sat_mul (pd_interval_s pd) 10) 60) st)).
       written c (view w)) (\<lambda>_. True)"
proof (cases "tasks = []")
  case True
  then show ?thesis by (simp add: enqueue_tasks_def io_ok_ret)
next
  case False
  let ?ttl = "max (sat_mul (pd_interval_s pd) 10) 60" and ?xss = "chunks_of 64 tasks"
  let ?cmds = "\<lambda>T. \<Union>st \<in> T. set (task_commands (pd_key_prefix pd) ?ttl st)"
  have xss: "concat ?xss = tasks" by (rule concat_chunks) simp
  then have sub: "\<Union> (set ` set (take i ?xss)) \<subseteq> set tasks" "i < length ?xss \<Longrightarrow> set (?xss ! i) \<subseteq> set tasks" for i
    using set_take_subset [of i ?xss] nth_mem [of i ?xss] set_concat [of ?xss] by (auto simp: UN_subset_iff)
  have C: "queue_writes (queue_key (pd_key_prefix pd)) (?cmds (set tasks))"
    by (rule tasks_queue_writes [OF ok one meta_ttl_ok [OF interval]])
  have stC: "\<And>c. c \<in> ?cmds (set tasks) \<Longrightarrow> stable rely (written c)" using st by blast
  define I :: "nat \<Rightarrow> u64 \<Rightarrow> 'a \<Rightarrow> bool" where
    "I = (\<lambda>i _ w. \<forall>c \<in> ?cmds (\<Union> (set ` set (take i ?xss))). written c (view w))"
  have "io_ok (I 0 0) (fold_io ?xss (enqueue_chunk pd ?ttl) 0) (I (length ?xss)) (\<lambda>_. True)"
  proof (rule io_ok_fold)
    fix i s assume i: "i < length ?xss"
    have "io_ok (\<lambda>w. \<forall>c \<in> ?cmds (\<Union> (set ` set (take i ?xss))). written c (view w)) (enqueue_chunk pd ?ttl (?xss ! i) s)
        (\<lambda>_ w. \<forall>c \<in> ?cmds (\<Union> (set ` set (take i ?xss))) \<union> ?cmds (set (?xss ! i)). written c (view w)) (\<lambda>_. True)"
      by (rule enqueue_chunk_ok [OF conf C _ _ stC]) (use sub [of i] i in blast)+
    then show "io_ok (I i s) (enqueue_chunk pd ?ttl (?xss ! i) s) (I (Suc i)) (\<lambda>_. True)"
      by (simp add: I_def take_Suc_conv_app_nth [OF i] Un_commute ball_Un)
  qed
  then show ?thesis using False xss set_concat [of ?xss] by (simp add: enqueue_tasks_def I_def Let_def)
qed

section \<open>What is planned\<close>

text \<open>
  The index of a namespace as the producer reads it: the state hashes \<open>S\<close>, which forward sets \<open>X\<close>
  exist, and the lists \<open>A\<close> that were ever loaded and not removed.
\<close>

record index_view =
  iv_state :: "string \<Rightarrow> redis_hash"
  iv_fwd :: "string \<Rightarrow> string \<Rightarrow> bool"
  iv_all :: "string set"

definition index_is :: "string \<Rightarrow> string \<Rightarrow> index_view \<Rightarrow> keyspace \<Rightarrow> bool" where
  "index_is pre skh iv ks \<longleftrightarrow>
     (\<forall>l. hash_at ks (state_key pre skh l) = Some (iv_state iv l))
     \<and> (\<forall>l v. (ks (fwd_key pre skh l v) \<noteq> None) = iv_fwd iv l v)
     \<and> set_at ks (all_lists_key pre skh) = Some (iv_all iv)"

definition stored_state :: "index_view \<Rightarrow> string \<Rightarrow> ListSyncState option" where
  "stored_state iv l = (if iv_state iv l = (\<lambda>_. None) then None else Some (from_hash_fields (iv_state iv l)))"

definition stored_fwd :: "index_view \<Rightarrow> string \<Rightarrow> bool" where
  "stored_fwd iv l =
     (case stored_state iv l of None \<Rightarrow> False | Some s \<Rightarrow> ls_version s \<noteq> [] \<and> iv_fwd iv l (ls_version s))"

definition list_plan :: "bool \<Rightarrow> index_view \<Rightarrow> id_list_manifest \<Rightarrow> string \<Rightarrow> (SyncAction \<times> IdListMetadata) option" where
  "list_plan rv iv manifest l =
     plan_sync_with_reverse_index (stored_state iv l) (metadata_of_entry (the (manifest l))) (stored_fwd iv l) rv"

text \<open>The tasks that a company needs.\<close>

definition load_tasks :: "bool \<Rightarrow> string \<Rightarrow> index_view \<Rightarrow> id_list_manifest \<Rightarrow> DerivedTask set" where
  "load_tasks rv skh iv manifest =
     {t. \<exists>l action target. l \<in> dom manifest \<and> list_plan rv iv manifest l = Some (action, target)
        \<and> t = \<lparr>dt_skh = skh, dt_list = l, dt_action = action, dt_meta = Some target\<rparr>}"

definition removal_tasks :: "string \<Rightarrow> index_view \<Rightarrow> CompanyManifest \<Rightarrow> DerivedTask set" where
  "removal_tasks skh iv c = (if co_incomplete c then {} else removal_task skh ` (iv_all iv - dom (co_lists c)))"

definition needed_tasks :: "bool \<Rightarrow> string \<Rightarrow> index_view \<Rightarrow> CompanyManifest \<Rightarrow> DerivedTask set" where
  "needed_tasks rv skh iv c = load_tasks rv skh iv (co_lists c) \<union> removal_tasks skh iv c"

lemma read_state_ok:
  assumes conf: "redis_conforms sc rely (pd_pool pd) view" and st: "stable rely K"
    and K: "\<And>ks. K ks \<Longrightarrow> index_is (pd_key_prefix pd) skh iv ks"
  shows "kio_ok view K (read_state pd skh l)
    (\<lambda>r ks. K ks \<and> r = stored_state iv l) (\<lambda>_. True)"
  unfolding read_state_def
proof (rule io_ok_bind)
  show "kio_ok view K (command (pd_pool pd) (HGETALL (state_key (pd_key_prefix pd) skh l)))
      (\<lambda>r ks. r = RFields (iv_state iv l) \<and> K ks) (\<lambda>_. True)"
    by (rule call_ok [OF conf _ st])
      (use st K in \<open>auto simp: on_hash_def index_is_def stable_def split: option.splits\<close>)
  show "io_ok (\<lambda>w. r = RFields (iv_state iv l) \<and> K (view w))
      (bind (as_fields r) (\<lambda>flds. ret (if flds = (\<lambda>_. None) then None else Some (from_hash_fields flds))))
      (\<lambda>r w. K (view w) \<and> r = stored_state iv l) (\<lambda>_. True)" for r
    by (auto simp: io_ok_def as_fields_def io_eval stored_state_def)
qed

lemma read_fwd_ok:
  assumes conf: "redis_conforms sc rely (pd_pool pd) view" and st: "stable rely K"
    and K: "\<And>ks. K ks \<Longrightarrow> index_is (pd_key_prefix pd) skh iv ks"
  shows "kio_ok view K (read_fwd_exists pd skh l (stored_state iv l))
    (\<lambda>r ks. K ks \<and> r = stored_fwd iv l) (\<lambda>_. True)"
proof (cases "stored_state iv l")
  case None
  then show ?thesis by (simp add: read_fwd_exists_def stored_fwd_def io_ok_ret)
next
  case (Some s)
  have "kio_ok view K (command (pd_pool pd) (EXISTS (fwd_key (pd_key_prefix pd) skh l (ls_version s))))
      (\<lambda>r ks. r = bool_reply (iv_fwd iv l (ls_version s)) \<and> K ks) (\<lambda>_. True)"
    by (rule call_ok [OF conf _ st]) (use st K in \<open>auto simp: index_is_def stable_def\<close>)
  moreover have "io_ok (\<lambda>w. r = bool_reply (iv_fwd iv l (ls_version s)) \<and> K (view w)) (as_bool r)
      (\<lambda>b w. K (view w) \<and> b = iv_fwd iv l (ls_version s)) (\<lambda>_. True)" for r
    by (auto simp: io_ok_def as_bool_def bool_reply_def ret_def)
  ultimately show ?thesis
    using Some by (auto simp: read_fwd_exists_def stored_fwd_def intro: io_ok_ret io_ok_bind)
qed

text \<open>Planning one list is a function of the index.\<close>

definition planned :: "bool \<Rightarrow> string \<Rightarrow> index_view \<Rightarrow> id_list_manifest \<Rightarrow> string \<Rightarrow> DerivedTask list \<times> bool \<Rightarrow> DerivedTask list \<times> bool" where
  "planned rv skh iv manifest l acc =
     (case list_plan rv iv manifest l of
        None \<Rightarrow> fst acc
      | Some (action, target) \<Rightarrow> fst acc @ [\<lparr>dt_skh = skh, dt_list = l, dt_action = action, dt_meta = Some target\<rparr>],
      snd acc \<or> (case stored_state iv l of None \<Rightarrow> False | Some s \<Rightarrow> ls_reverse_index_disabled s))"

lemma plan_list_ok:
  assumes "redis_conforms sc rely (pd_pool pd) view" and "stable rely K"
    and K: "\<And>ks. K ks \<Longrightarrow> index_is (pd_key_prefix pd) skh iv ks"
  shows "kio_ok view K (plan_list pd skh manifest l acc)
    (\<lambda>r ks. K ks \<and> r = planned (pd_enable_reverse_index pd) skh iv manifest l acc) (\<lambda>_. True)"
  unfolding plan_list_def
proof (rule io_ok_bind [OF read_state_ok [OF assms]])
  show "io_ok (\<lambda>w. K (view w) \<and> st = stored_state iv l)
      (bind (read_fwd_exists pd skh l st) (\<lambda>fwd_exists.
         ret (case plan_sync_with_reverse_index st (metadata_of_entry (the (manifest l))) fwd_exists (pd_enable_reverse_index pd) of
             None \<Rightarrow> fst acc
           | Some (action, target) \<Rightarrow> fst acc @ [\<lparr>dt_skh = skh, dt_list = l, dt_action = action, dt_meta = Some target\<rparr>],
           snd acc \<or> (case st of None \<Rightarrow> False | Some s \<Rightarrow> ls_reverse_index_disabled s))))
      (\<lambda>r w. K (view w) \<and> r = planned (pd_enable_reverse_index pd) skh iv manifest l acc) (\<lambda>_. True)" for st
  proof (cases "st = stored_state iv l")
    case True
    show ?thesis
      unfolding True
      by (rule io_ok_bind [OF io_ok_pre [OF read_fwd_ok [OF assms]]])
        (auto intro!: io_ok_ret simp: planned_def list_plan_def)
  next
    case False
    then show ?thesis by (simp add: io_ok_def)
  qed
qed

lemma plan_lists_ok:
  assumes "redis_conforms sc rely (pd_pool pd) view" and "stable rely K"
    and K: "\<And>ks. K ks \<Longrightarrow> index_is (pd_key_prefix pd) skh iv ks"
  shows "kio_ok view K (fold_io ls (plan_list pd skh manifest) acc)
    (\<lambda>r ks. K ks
       \<and> r = fold (planned (pd_enable_reverse_index pd) skh iv manifest) ls acc) (\<lambda>_. True)"
proof (induction ls arbitrary: acc)
  case Nil
  then show ?case by (simp add: io_ok_ret)
next
  case (Cons l ls)
  have "io_ok (\<lambda>w. K (view w) \<and> r = planned (pd_enable_reverse_index pd) skh iv manifest l acc)
      (fold_io ls (plan_list pd skh manifest) r) (\<lambda>r w. K (view w)
       \<and> r = fold (planned (pd_enable_reverse_index pd) skh iv manifest) (l # ls) acc) (\<lambda>_. True)" for r
  proof (cases "r = planned (pd_enable_reverse_index pd) skh iv manifest l acc")
    case True
    show ?thesis using Cons [of r] by (rule io_ok_cons) (simp_all add: True)
  next
    case False
    then show ?thesis by (simp add: io_ok_def)
  qed
  from io_ok_bind [OF plan_list_ok [OF assms] this] show ?case by simp
qed

lemma planned_tasks:
  "set (fst (fold (planned rv skh iv manifest) ls acc)) = set (fst acc)
     \<union> {t. \<exists>l action target. l \<in> set ls \<and> list_plan rv iv manifest l = Some (action, target)
          \<and> t = \<lparr>dt_skh = skh, dt_list = l, dt_action = action, dt_meta = Some target\<rparr>}"
  by (induction ls arbitrary: acc) (auto simp: planned_def split: option.splits)

lemma plan_removals_ok:
  assumes conf: "redis_conforms sc rely (pd_pool pd) view" and st: "stable rely K"
    and K: "\<And>ks. K ks \<Longrightarrow> index_is (pd_key_prefix pd) skh iv ks"
    and it: "iterates iterate" and fin: "finite (iv_all iv)"
  shows "kio_ok view K (plan_removals pd iterate skh c)
    (\<lambda>r ks. K ks \<and> distinct r \<and> set r = removal_tasks skh iv c) (\<lambda>_. True)"
  unfolding plan_removals_def
proof (rule io_ok_bind)
  show "kio_ok view K (command (pd_pool pd) (SMEMBERS (all_lists_key (pd_key_prefix pd) skh)))
      (\<lambda>r ks. r = RStrings (iv_all iv) \<and> K ks) (\<lambda>_. True)"
    by (rule call_ok [OF conf _ st])
      (use st K in \<open>auto simp: on_set_def index_is_def stable_def split: option.splits\<close>)
  have it': "set (iterate (iv_all iv)) = iv_all iv" "distinct (iterate (iv_all iv))" using it fin by (simp_all add: iterates_def)
  have "inj (removal_task skh)" by (rule injI) (simp add: removal_task_def)
  then have "distinct (map (removal_task skh) (filter (\<lambda>l. \<not> co_incomplete c \<and> co_lists c l = None) (iterate (iv_all iv))))"
    using it' by (simp add: distinct_map inj_on_subset [of _ UNIV])
  moreover have "set (map (removal_task skh) (filter (\<lambda>l. \<not> co_incomplete c \<and> co_lists c l = None) (iterate (iv_all iv))))
      = removal_tasks skh iv c"
    using it' by (auto simp: removal_tasks_def domIff)
  ultimately show "io_ok (\<lambda>w. r = RStrings (iv_all iv) \<and> K (view w))
      (bind (as_strings r) (\<lambda>known. ret (map (removal_task skh)
         (filter (\<lambda>l. \<not> co_incomplete c \<and> co_lists c l = None) (iterate known)))))
      (\<lambda>r w. K (view w) \<and> distinct r \<and> set r = removal_tasks skh iv c) (\<lambda>_. True)" for r
    by (auto simp: io_ok_def as_strings_def io_eval)
qed

text \<open>Setting readiness does not touch what is read.\<close>

lemma ready_apart:
  assumes "namespace_ok skh" and "namespace_ok skh'"
  shows "state_key pre skh' l \<notin> {ready_key pre skh, dict_key pre skh}" "fwd_key pre skh' l v \<notin> {ready_key pre skh, dict_key pre skh}"
    "all_lists_key pre skh' \<notin> {ready_key pre skh, dict_key pre skh}"
  using assms object_key_eq [of "SyncState skh' l" "Ready skh" pre] object_key_eq [of "SyncState skh' l" "Dict skh" pre]
    object_key_eq [of "Fwd skh' l v" "Ready skh" pre] object_key_eq [of "Fwd skh' l v" "Dict skh" pre]
    object_key_eq [of "AllLists skh'" "Ready skh" pre] object_key_eq [of "AllLists skh'" "Dict skh" pre]
  by simp_all

lemma index_other:
  assumes "namespace_ok skh" and "namespace_ok skh'" and "index_is pre skh' iv ks"
    and "\<And>k. k \<notin> {ready_key pre skh, dict_key pre skh} \<Longrightarrow> ks' k = ks k"
  shows "index_is pre skh' iv ks'"
proof -
  note same = assms(4) [OF ready_apart(1) [OF assms(1,2)]] assms(4) [OF ready_apart(2) [OF assms(1,2)]]
    assms(4) [OF ready_apart(3) [OF assms(1,2)]]
  show ?thesis using assms(3) by (simp add: index_is_def hash_at_def set_at_def same)
qed

lemma ready_step:
  assumes "c \<in> {DEL (ready_key pre skh), SET (ready_key pre skh) v, HDEL (dict_key pre skh) fs}" and "step_ok sc c ks r ks'"
    and "k \<notin> {ready_key pre skh, dict_key pre skh}"
  shows "ks' k = ks k"
  using assms by (auto simp: step_ok_determined on_hash_def put_hash_other split: option.splits)

text \<open>A condition on the indexes of all companies at once.\<close>

definition indexes_are :: "string \<Rightarrow> (string \<Rightarrow> index_view) \<Rightarrow> string set \<Rightarrow> keyspace \<Rightarrow> bool" where
  "indexes_are pre ivs N ks \<longleftrightarrow> (\<forall>skh \<in> N. index_is pre skh (ivs skh) ks)"

lemma ready_command_ok:
  assumes conf: "redis_conforms sc rely exec view" and st: "stable rely (indexes_are pre ivs N)"
    and ns: "\<And>skh. skh \<in> N \<Longrightarrow> namespace_ok skh" "namespace_ok skh"
    and c: "c \<in> {DEL (ready_key pre skh), SET (ready_key pre skh) v, HDEL (dict_key pre skh) fs}"
  shows "kio_ok view (indexes_are pre ivs N) (seq (command exec c) (ret ())) (\<lambda>_. indexes_are pre ivs N) (\<lambda>_. True)"
proof (rule io_ok_seq)
  show "kio_ok view (indexes_are pre ivs N) (command exec c) (\<lambda>_. indexes_are pre ivs N) (\<lambda>_. True)"
  proof (rule command_ok [OF conf st])
    fix ks r ks' assume "indexes_are pre ivs N ks" and "step_ok sc c ks r ks'"
    then show "indexes_are pre ivs N ks' \<and> True"
      using index_other [OF ns(2) ns(1)] ready_step [OF c] unfolding indexes_are_def by blast
  qed (use st in simp_all)
qed (simp add: io_ok_ret)

lemma set_ready_ok:
  assumes "redis_conforms sc rely (pd_pool pd) view" and "stable rely (indexes_are (pd_key_prefix pd) ivs N)"
    and "\<And>skh. skh \<in> N \<Longrightarrow> namespace_ok skh" and "namespace_ok skh"
  shows "kio_ok view (indexes_are (pd_key_prefix pd) ivs N) (set_ready pd skh manifest pending)
    (\<lambda>_. indexes_are (pd_key_prefix pd) ivs N) (\<lambda>_. True)"
  unfolding set_ready_def
  by (auto intro!: io_ok_seq [OF io_ok_when, where R = "\<lambda>w. indexes_are (pd_key_prefix pd) ivs N (view w)"]
      ready_command_ok [OF assms])

lemma plan_company_ok:
  assumes conf: "redis_conforms sc rely (pd_pool pd) view" and st: "stable rely (indexes_are (pd_key_prefix pd) ivs N)"
    and ns: "\<And>skh. skh \<in> N \<Longrightarrow> namespace_ok skh" and skh: "skh \<in> N"
    and it: "iterates iterate" and fin: "finite (iv_all (ivs skh))" "finite (dom (co_lists c))"
  shows "kio_ok view (indexes_are (pd_key_prefix pd) ivs N) (plan_company pd iterate skh c)
    (\<lambda>r ks. indexes_are (pd_key_prefix pd) ivs N ks
       \<and> set (fst r) = load_tasks (pd_enable_reverse_index pd) skh (ivs skh) (co_lists c)
       \<and> set (snd r) = removal_tasks skh (ivs skh) c) (\<lambda>_. True)"
  unfolding plan_company_def
proof (rule io_ok_bind)
  let ?K = "indexes_are (pd_key_prefix pd) ivs N" and ?ls = "iterate (dom (co_lists c))"
  let ?r = "fold (planned (pd_enable_reverse_index pd) skh (ivs skh) (co_lists c)) ?ls ([], False)"
  have K: "index_is (pd_key_prefix pd) skh (ivs skh) ks" if "?K ks" for ks
    using that skh by (simp add: indexes_are_def)
  show "kio_ok view ?K (fold_io ?ls (plan_list pd skh (co_lists c)) ([], False)) (\<lambda>r ks. ?K ks \<and> r = ?r) (\<lambda>_. True)"
    by (rule plan_lists_ok [OF conf st K])
  have loads: "set (fst ?r) = load_tasks (pd_enable_reverse_index pd) skh (ivs skh) (co_lists c)"
    using it fin(2) by (simp add: planned_tasks load_tasks_def iterates_def)
  have rest: "kio_ok view ?K (bind (plan_removals pd iterate skh c) (\<lambda>removals.
        seq (when_io (\<not> co_incomplete c \<and> loads = [] \<and> removals = []) (set_ready pd skh (co_lists c) pending))
          (ret (loads, removals))))
      (\<lambda>r ks. ?K ks \<and> fst r = loads \<and> set (snd r) = removal_tasks skh (ivs skh) c) (\<lambda>_. True)" for loads pending
  proof (rule io_ok_bind [OF plan_removals_ok [OF conf st K it fin(1)]], goal_cases)
    case (2 removals)
    have "io_ok (\<lambda>w. ?K (view w)) (when_io (\<not> co_incomplete c \<and> loads = [] \<and> removals = []) (set_ready pd skh (co_lists c) pending))
        (\<lambda>_ w. ?K (view w)) (\<lambda>_. True)"
      by (rule io_ok_when) (rule set_ready_ok [OF conf st ns ns [OF skh]])
    then have run: "io_ok (\<lambda>w. ?K (view w))
        (seq (when_io (\<not> co_incomplete c \<and> loads = [] \<and> removals = []) (set_ready pd skh (co_lists c) pending))
          (ret (loads, removals))) (\<lambda>r w. ?K (view w) \<and> r = (loads, removals)) (\<lambda>_. True)"
      by (rule io_ok_seq) (simp add: io_ok_ret)
    show ?case
    proof (cases "set removals = removal_tasks skh (ivs skh) c")
      case True
      show ?thesis using run by (rule io_ok_cons) (use True in simp_all)
    qed (simp add: io_ok_def)
  qed simp
  show "io_ok (\<lambda>w. ?K (view w) \<and> r = ?r)
      (case r of (loads, pending) \<Rightarrow> bind (plan_removals pd iterate skh c) (\<lambda>removals.
        seq (when_io (\<not> co_incomplete c \<and> loads = [] \<and> removals = []) (set_ready pd skh (co_lists c) pending))
          (ret (loads, removals))))
      (\<lambda>r w. ?K (view w) \<and> set (fst r) = load_tasks (pd_enable_reverse_index pd) skh (ivs skh) (co_lists c)
         \<and> set (snd r) = removal_tasks skh (ivs skh) c) (\<lambda>_. True)" for r
  proof (cases "r = ?r")
    case True
    obtain lds pending where r: "r = (lds, pending)" by force
    show ?thesis
      using rest [of lds pending] unfolding r prod.case
      by (rule io_ok_cons) (simp_all add: loads [symmetric] True [symmetric] r)
  next
    case False
    then show ?thesis by (simp add: io_ok_def)
  qed
qed

text \<open>All companies.\<close>

lemma plan_companies_ok:
  assumes conf: "redis_conforms sc rely (pd_pool pd) view"
    and st: "stable rely (indexes_are (pd_key_prefix pd) ivs (dom companies))"
    and ns: "\<And>skh. skh \<in> dom companies \<Longrightarrow> namespace_ok skh" and fin: "finite (dom companies)"
    and it: "iterates iterate" and iv: "\<And>skh. finite (iv_all (ivs skh))"
    and lists: "\<And>skh c. companies skh = Some c \<Longrightarrow> finite (dom (co_lists c))"
  shows "kio_ok view (indexes_are (pd_key_prefix pd) ivs (dom companies)) (plan_companies pd iterate companies)
    (\<lambda>r ks. set (fst r) = (\<Union>skh \<in> dom companies. needed_tasks (pd_enable_reverse_index pd) skh (ivs skh) (the (companies skh))))
    (\<lambda>_. True)"
proof -
  let ?K = "indexes_are (pd_key_prefix pd) ivs (dom companies)" and ?ns = "sorted_list_of_set (dom companies)"
  let ?need = "\<lambda>skh. needed_tasks (pd_enable_reverse_index pd) skh (ivs skh) (the (companies skh))"
  define I :: "nat \<Rightarrow> DerivedTask list \<times> u64 \<Rightarrow> 'a \<Rightarrow> bool" where
    "I = (\<lambda>i acc w. ?K (view w) \<and> set (fst acc) = (\<Union>skh \<in> set (take i ?ns). ?need skh))"
  have "io_ok (I 0 ([], 0)) (plan_companies pd iterate companies) (I (length ?ns)) (\<lambda>_. True)"
    unfolding plan_companies_def
  proof (rule io_ok_fold)
    fix i acc assume i: "i < length ?ns"
    let ?skh = "?ns ! i"
    have skh: "?skh \<in> dom companies" using fin i nth_mem [OF i] by simp
    then obtain c where c: "companies ?skh = Some c" by blast
    show "io_ok (I i acc) (bind (plan_company pd iterate ?skh (the (companies ?skh))) (\<lambda>(loads, removals).
        ret (fst acc @ loads @ removals, snd acc + of_nat (length removals)))) (I (Suc i)) (\<lambda>_. True)"
    proof (cases "set (fst acc) = (\<Union>skh \<in> set (take i ?ns). ?need skh)")
      case True
      show ?thesis
      proof (rule io_ok_bind)
        show "io_ok (I i acc) (plan_company pd iterate ?skh (the (companies ?skh)))
            (\<lambda>r w. ?K (view w) \<and> set (fst r) = load_tasks (pd_enable_reverse_index pd) ?skh (ivs ?skh) (co_lists c)
               \<and> set (snd r) = removal_tasks ?skh (ivs ?skh) c) (\<lambda>_. True)"
          using plan_company_ok [OF conf st ns skh it iv lists [OF c]] c by (auto simp: I_def elim!: io_ok_pre)
        show "io_ok (\<lambda>w. ?K (view w) \<and> set (fst r) = load_tasks (pd_enable_reverse_index pd) ?skh (ivs ?skh) (co_lists c)
               \<and> set (snd r) = removal_tasks ?skh (ivs ?skh) c)
            (case r of (loads, removals) \<Rightarrow> ret (fst acc @ loads @ removals, snd acc + of_nat (length removals)))
            (I (Suc i)) (\<lambda>_. True)" for r
          using True c
          by (cases r) (auto intro!: io_ok_ret simp: I_def take_Suc_conv_app_nth [OF i] needed_tasks_def)
      qed
    qed (simp add: io_ok_def I_def)
  qed
  then show ?thesis
    by (rule io_ok_cons) (use fin in \<open>auto simp: I_def\<close>)
qed

section \<open>One attempt\<close>

text \<open>Ordering keeps every task when there is one per list.\<close>

lemma order_keeps:
  assumes "one_per_list (set tasks)"
  shows "snd ` set (order_and_dedupe_tasks tasks) = set tasks"
proof -
  let ?out = "snd ` set (order_and_dedupe_tasks tasks)"
  have sub: "?out \<subseteq> set tasks"
    using score_tasks_subset [of "{}" "\<lambda>_. 0" "sort_key task_rank tasks"] by (auto simp: order_and_dedupe_tasks_def)
  have keys: "task_key ` ?out = task_key ` set tasks"
    using score_tasks_keys [of "{}" "\<lambda>_. 0" "sort_key task_rank tasks"] by (simp add: order_and_dedupe_tasks_def)
  have "t \<in> ?out" if "t \<in> set tasks" for t
  proof -
    have "task_key t \<in> task_key ` ?out" unfolding keys using that by (rule imageI)
    then obtain t' where "t' \<in> ?out" "task_key t = task_key t'" by (rule imageE)
    then show ?thesis using assms sub that unfolding one_per_list_def by blast
  qed
  then show ?thesis using sub by blast
qed

lemma needed_one_per_list:
  "one_per_list (\<Union>skh \<in> N. needed_tasks rv skh (ivs skh) (the (companies skh)))"
  unfolding one_per_list_def needed_tasks_def load_tasks_def removal_tasks_def removal_task_def by (auto split: if_splits)

abbreviation meta_ttl :: "'w IdListSyncProducer \<Rightarrow> u64" where
  "meta_ttl pd \<equiv> max (sat_mul (pd_interval_s pd) 10) 60"

text \<open>What a tick relies on: the indexes of the companies and their tasks.\<close>

definition tick_ok ::
  "scans \<Rightarrow> interference \<Rightarrow> ('w \<Rightarrow> keyspace) \<Rightarrow> 'w IdListSyncProducer \<Rightarrow> iteration
     \<Rightarrow> (string \<Rightarrow> CompanyManifest option) \<Rightarrow> (string \<Rightarrow> index_view) \<Rightarrow> bool" where
  "tick_ok sc rely view pd iterate companies ivs \<longleftrightarrow>
     redis_conforms sc rely (pd_pool pd) view \<and> iterates iterate
     \<and> stable rely (indexes_are (pd_key_prefix pd) ivs (dom companies))
     \<and> finite (dom companies) \<and> (\<forall>skh. finite (iv_all (ivs skh)))
     \<and> (\<forall>skh c. companies skh = Some c \<longrightarrow> namespace_ok skh \<and> finite (dom (co_lists c)))"

definition all_needed ::
  "'w IdListSyncProducer \<Rightarrow> (string \<Rightarrow> CompanyManifest option) \<Rightarrow> (string \<Rightarrow> index_view) \<Rightarrow> DerivedTask set" where
  "all_needed pd companies ivs =
     (\<Union>skh \<in> dom companies. needed_tasks (pd_enable_reverse_index pd) skh (ivs skh) (the (companies skh)))"

lemma all_needed_planned:
  assumes "tick_ok sc rely view pd iterate companies ivs"
  shows "kio_ok view (indexes_are (pd_key_prefix pd) ivs (dom companies)) (plan_companies pd iterate companies)
    (\<lambda>r _. set (fst r) = all_needed pd companies ivs) (\<lambda>_. True)"
  unfolding all_needed_def
  by (rule plan_companies_ok) (use assms in \<open>auto simp: tick_ok_def\<close>)


lemma zcard_keeps:
  assumes conf: "redis_conforms sc rely exec view" and st: "stable rely P"
  shows "kio_ok view P (bind (command exec (ZCARD k)) as_u64) (\<lambda>_. P) (\<lambda>_. True)"
proof (rule io_ok_bind)
  show "kio_ok view P (command exec (ZCARD k)) (\<lambda>_. P) (\<lambda>_. True)"
    by (rule call_ok [OF conf _ st]) (use st in \<open>auto simp: on_zset_def split: option.splits\<close>)
  show "kio_ok view P (as_u64 r) (\<lambda>_. P) (\<lambda>_. True)" for r
    by (rule reader_ok) (use reader_pure(2) in auto)
qed

text \<open>
  C35: A tick returns, and when it reports success every needed task is in the queue, with the operation
  and the metadata that the worker then reads. Loads must have a URL, the interval must be below
  \<open>2 ^ 59\<close> seconds, and other clients must leave the indexes and the queued tasks alone.
\<close>

theorem producer_queues_needed:
  assumes tick: "tick_ok sc rely view pd iterate companies ivs"
    and cm: "company_manifests (pd_sha256_b64 pd) (pd_namespaces pd w) = Inr (companies, unavailable)"
    and K: "indexes_are (pd_key_prefix pd) ivs (dom companies) (view w)"
    and ok: "\<And>t. t \<in> all_needed pd companies ivs \<Longrightarrow> task_ok t" and interval: "unat (pd_interval_s pd) < 2 ^ 59"
    and st: "\<And>score t c. t \<in> all_needed pd companies ivs \<Longrightarrow> c \<in> set (task_commands (pd_key_prefix pd) (meta_ttl pd) (score, t))
      \<Longrightarrow> stable rely (written c)"
  shows "\<exists>res w'. produce_locked pd iterate w = Some (res, w')
    \<and> (case res of Inl _ \<Rightarrow> True
       | Inr stats \<Rightarrow> (\<forall>t \<in> all_needed pd companies ivs. task_queued (pd_key_prefix pd) t (view w')))"
proof -
  let ?pre = "pd_key_prefix pd" and ?T = "all_needed pd companies ivs"
  have conf: "redis_conforms sc rely (pd_pool pd) view" using tick by (simp add: tick_ok_def)
  let ?rest = "\<lambda>(derived, removals). let ordered = order_and_dedupe_tasks derived
      in bind (enqueue_tasks pd ordered) (\<lambda>enqueued.
         bind (bind (command (pd_pool pd) (ZCARD (queue_key ?pre))) as_u64) (\<lambda>depth.
         ret \<lparr>ts_tasks_enqueued = enqueued, ts_removals_scheduled = removals, ts_queue_depth = depth,
              ts_manifest_unavailable = of_nat unavailable, ts_tasks_derived = of_nat (length ordered)\<rparr>))"
  have rest: "io_ok (\<lambda>_. set (fst r) = ?T) (?rest r) (\<lambda>_ w. \<forall>t \<in> ?T. task_queued ?pre t (view w)) (\<lambda>_. True)" for r
  proof (cases "set (fst r) = ?T")
    case True
    let ?ord = "order_and_dedupe_tasks (fst r)"
    have ord: "snd ` set ?ord = ?T"
      unfolding True [symmetric] by (rule order_keeps) (simp add: True all_needed_def needed_one_per_list)
    let ?C = "\<Union>st \<in> set ?ord. set (task_commands ?pre (meta_ttl pd) st)"
    have stC: "stable rely (written c)" if "c \<in> ?C" for c
      using that ord st by (metis (no_types, lifting) UN_E imageI prod.collapse)
    have enq: "io_ok (\<lambda>_. True) (enqueue_tasks pd ?ord) (\<lambda>_ w. \<forall>c \<in> ?C. written c (view w)) (\<lambda>_. True)"
    proof (rule enqueue_tasks_ok [OF conf _ _ interval])
      show "task_ok (snd st)" if "st \<in> set ?ord" for st using ok ord that by blast
      show "one_per_list (snd ` set ?ord)" unfolding ord all_needed_def by (rule needed_one_per_list)
    qed (use stC in blast)
    have "stable rely (\<lambda>ks. \<forall>c \<in> ?C. written c ks)" using stC unfolding stable_def by blast
    note depth = zcard_keeps [OF conf this]
    have queued: "\<forall>t \<in> ?T. task_queued ?pre t ks" if "\<forall>c \<in> ?C. written c ks" for ks
    proof
      fix t assume t: "t \<in> ?T"
      then obtain score where "(score, t) \<in> set ?ord" using ord by force
      then show "task_queued ?pre t ks" using commands_written ok [OF t] that by blast
    qed
    have "io_ok (\<lambda>_. True) (?rest r) (\<lambda>_ w. \<forall>t \<in> ?T. task_queued ?pre t (view w)) (\<lambda>_. True)"
      unfolding case_prod_beta Let_def
      by (rule io_ok_bind [OF enq], rule io_ok_bind [OF depth], rule io_ok_ret, rule queued)
    then show ?thesis by (rule io_ok_pre) simp
  qed (simp add: io_ok_def)
  have "io_ok (\<lambda>w. indexes_are ?pre ivs (dom companies) (view w)) (bind (plan_companies pd iterate companies) ?rest)
      (\<lambda>_ w. \<forall>t \<in> ?T. task_queued ?pre t (view w)) (\<lambda>_. True)"
    by (rule io_ok_bind [OF all_needed_planned [OF tick] rest])
  then show ?thesis using K cm unfolding io_ok_def produce_locked_def by simp
qed

section \<open>A concrete tick\<close>

text \<open>The company \<open>acme\<close> has the list \<open>vip\<close>, which Redis does not have, and Redis has the list \<open>old\<close>.\<close>

definition producer_keyspace :: keyspace where
  "producer_keyspace = [all_lists_key [] ''acme'' \<mapsto> \<lparr>re_value = VSet {''old''}, re_ttl = None\<rparr>]"

definition sample_producer :: "(keyspace \<times> unit) IdListSyncProducer" where
  "sample_producer = producer_new [] \<lparr>lk_pool = local_exec, lk_holder_id = ''h''\<rparr> local_exec (\<lambda>_. sample_namespaces) (\<lambda>s. s) 60"

definition sample_iv :: index_view where
  "sample_iv = \<lparr>iv_state = (\<lambda>_ _. None), iv_fwd = (\<lambda>_ _. False), iv_all = {''old''}\<rparr>"

lemma acme_namespace: "namespace_ok ''acme''"
  by (simp add: namespace_ok_def)

lemma acme_keys:
  "state_key [] ''acme'' l \<noteq> all_lists_key [] ''acme''" "fwd_key [] ''acme'' l v \<noteq> all_lists_key [] ''acme''"
  "task_meta_key [] ''acme'' l \<noteq> all_lists_key [] ''acme''" "queue_key [] \<noteq> all_lists_key [] ''acme''"
  "task_meta_key [] ''acme'' l \<noteq> queue_key []" "task_meta_key [] ''acme'' ''old'' \<noteq> task_meta_key [] ''acme'' ''vip''"
  using object_key_eq [of "SyncState ''acme'' l" "AllLists ''acme''" "[]"] object_key_eq [of "Fwd ''acme'' l v" "AllLists ''acme''" "[]"]
    object_key_eq [of "TaskMeta ''acme'' l" "AllLists ''acme''" "[]"] object_key_eq [of Queue "AllLists ''acme''" "[]"]
    object_key_eq [of "TaskMeta ''acme'' l" Queue "[]"]
    object_key_eq [of "TaskMeta ''acme'' ''old''" "TaskMeta ''acme'' ''vip''" "[]"] acme_namespace
  by simp_all

lemmas producer_eval = produce_locked_def plan_companies_def plan_company_def plan_list_def read_state_def
  read_fwd_exists_def plan_removals_def enqueue_tasks_def enqueue_chunk_def task_commands_def meta_commands_def
  expire_cmd_def order_and_dedupe_tasks_def task_rank_def removal_task_def chunks_of.simps
  plan_sync_with_reverse_index_def needs_work_with_reverse_index_def on_zset_def put_zset_def zset_at_def

lemma sample_producer_simps:
  "pd_key_prefix sample_producer = []" "pd_pool sample_producer = local_exec" "pd_interval_s sample_producer = 60"
  "pd_enable_reverse_index sample_producer" "pd_namespaces sample_producer = (\<lambda>_. sample_namespaces)"
  "pd_sha256_b64 sample_producer = (\<lambda>s. s)"
  by (simp_all add: sample_producer_def producer_new_def)

lemma sample_plan_runs:
  "\<exists>r w'. plan_companies sample_producer sorted_list_of_set sample_companies (producer_keyspace, ()) = Some (Inr r, w')"
  by (simp add: producer_eval sample_producer_simps sample_companies_def local_eval producer_keyspace_def acme_keys
      acme_keys [symmetric] Let_def)

lemma sample_tick_ok: "tick_ok local_scans (=) fst sample_producer sorted_list_of_set sample_companies (\<lambda>_. sample_iv)"
  using local_conforms iterates_sorted acme_namespace
  by (auto simp: tick_ok_def sample_producer_simps sample_companies_def sample_iv_def split: if_splits)

lemma sample_indexes: "indexes_are [] (\<lambda>_. sample_iv) (dom sample_companies) producer_keyspace"
  by (auto simp: indexes_are_def index_is_def sample_companies_def sample_iv_def producer_keyspace_def acme_keys
      hash_at_def set_at_def)

lemma sample_needed: "removal_task ''acme'' ''old'' \<in> all_needed sample_producer sample_companies (\<lambda>_. sample_iv)"
  by (auto simp: all_needed_def needed_tasks_def removal_tasks_def sample_companies_def sample_iv_def)

lemma sample_needed_ok: "t \<in> all_needed sample_producer sample_companies (\<lambda>_. sample_iv) \<Longrightarrow> task_ok t"
  using acme_namespace
  by (auto simp: all_needed_def needed_tasks_def load_tasks_def removal_tasks_def removal_task_def sample_companies_def
      sample_iv_def list_plan_def stored_state_def plan_sync_with_reverse_index_def metadata_of_entry_def
      sample_list_entry_def task_ok_def Let_def split: if_splits)


lemma sample_produce_runs:
  "\<exists>stats w'. produce_locked sample_producer sorted_list_of_set (producer_keyspace, ()) = Some (Inr stats, w')"
  by (simp add: producer_eval sample_producer_simps sample_companies_def sample_company_manifests local_eval producer_keyspace_def
      acme_keys acme_keys [symmetric] Let_def metadata_of_entry_def sample_list_entry_def sat_mul_def)

theorem producer_queues_needed_witness:
  "\<exists>stats w'. produce_locked sample_producer sorted_list_of_set (producer_keyspace, ()) = Some (Inr stats, w')
    \<and> task_queued [] (removal_task ''acme'' ''old'') (fst w')"
proof -
  let ?w = "(producer_keyspace, ())"
  have "\<exists>res w'. produce_locked sample_producer sorted_list_of_set ?w = Some (res, w')
    \<and> (case res of Inl _ \<Rightarrow> True
       | Inr stats \<Rightarrow> \<forall>t \<in> all_needed sample_producer sample_companies (\<lambda>_. sample_iv).
           task_queued (pd_key_prefix sample_producer) t (fst w'))"
  proof (rule producer_queues_needed [OF sample_tick_ok])
    show "company_manifests (pd_sha256_b64 sample_producer) (pd_namespaces sample_producer ?w) = Inr (sample_companies, 0)"
      by (simp add: sample_producer_simps sample_company_manifests)
    show "indexes_are (pd_key_prefix sample_producer) (\<lambda>_. sample_iv) (dom sample_companies) (fst ?w)"
      using sample_indexes by (simp add: sample_producer_simps)
  qed (use sample_needed_ok in \<open>simp_all add: sample_producer_simps\<close>)
  then show ?thesis using sample_produce_runs sample_needed by (auto simp: sample_producer_simps)
qed

end
