(* ===== verification/RequestBody.thy ===== *)
theory RequestBody
  imports RequestContext LineDecoder
begin

text \<open>
  Request bodies: \<open>datatypes/gzip_data.rs\<close>. A body in JSON, possibly compressed with gzip, is read up
  to a limit. The web framework's reading of the body, the gzip decoder and the JSON parser are
  arguments. The theory shows that a compressed body is read whole, in whatever pieces the decoder
  gives it, exactly when it is within the limit, so that a small compressed body cannot expand
  without bound.
\<close>

section \<open>Reading\<close>

datatype ErrorKind = UnexpectedEof | InvalidData | OtherKind

datatype json_category = Category_Data | Category_Other

datatype body_error = Io ErrorKind | Parse json_category

text \<open>What \<open>data.open(limit).into_bytes()\<close> gives.\<close>

datatype capped_body = Complete string | Truncated | Unreadable ErrorKind

text \<open>
  A decoder has a state, and a read gives an error or up to 4096 bytes, none at the end of the
  data.
\<close>

type_synonym 'd gunzip_read = "'d \<Rightarrow> (ErrorKind + string) \<times> 'd"

text \<open>The loop that reads the decoder; \<open>seen\<close> is \<open>total_size\<close>, the length of the buffer.\<close>

function (sequential) read_limited :: "'d gunzip_read \<Rightarrow> nat \<Rightarrow> nat \<Rightarrow> string \<Rightarrow> 'd \<Rightarrow> body_error + string" where
  "read_limited rd limit seen buf d =
     (case rd d of
        (Inl e, d') \<Rightarrow> Inl (Io e)
      | (Inr chunk, d') \<Rightarrow>
          if chunk = [] then Inr buf
          else if limit < seen + length chunk then Inl (Io UnexpectedEof)
          else read_limited rd limit (seen + length chunk) (buf @ chunk) d')"
  by pat_completeness auto
termination
proof (relation "measure (\<lambda>(rd, limit, seen, buf, d). limit - seen)", goal_cases)
  case (2 rd limit seen buf d x y chunk)
  then have len: "length chunk \<noteq> 0" "seen + length chunk \<le> limit" by auto
  have "limit - (seen + length chunk) < limit - seen" using len by arith
  then show ?case by simp
qed simp

declare read_limited.simps [simp del]

record 'a LoggedBodyJSON =
  lb_body :: 'a
  lb_size :: nat

definition body_text ::
  "(string \<Rightarrow> 'd option) \<Rightarrow> 'd gunzip_read \<Rightarrow> bool \<Rightarrow> nat \<Rightarrow> capped_body \<Rightarrow> body_error + string" where
  "body_text gunzip_new rd is_gzipped limit body =
     (case body of
        Truncated \<Rightarrow> Inl (Io UnexpectedEof)
      | Unreadable k \<Rightarrow> Inl (Io k)
      | Complete raw \<Rightarrow>
          (case (if is_gzipped then
                   (case gunzip_new raw of
                      None \<Rightarrow> Inl (Io InvalidData)
                    | Some d \<Rightarrow> read_limited rd limit 0 [] d)
                 else Inr raw) of
             Inl e \<Rightarrow> Inl e
           | Inr s \<Rightarrow> if from_utf8_ok s then Inr s else Inl (Io InvalidData)))"

text \<open>
  \<open>from_data\<close>: the parsed body and its size. \<open>open_data limit\<close> opens the body with the limit of the
  framework for strings, or its limit for JSON.
\<close>

definition body_from_data ::
  "(string \<Rightarrow> 'd option) \<Rightarrow> 'd gunzip_read \<Rightarrow> (string \<Rightarrow> json_category + 'a) \<Rightarrow> nat option \<Rightarrow> nat
     \<Rightarrow> (nat \<Rightarrow> capped_body) \<Rightarrow> HttpRequest \<Rightarrow> body_error + 'a LoggedBodyJSON" where
  "body_from_data gunzip_new rd from_json string_limit json_limit open_data r =
     (let limit = (case string_limit of Some n \<Rightarrow> n | None \<Rightarrow> json_limit)
      in case body_text gunzip_new rd (get_one r ''Content-Encoding'' = Some ''gzip'') limit (open_data limit) of
           Inl e \<Rightarrow> Inl e
         | Inr s \<Rightarrow> (case from_json s of Inl c \<Rightarrow> Inl (Parse c) | Inr a \<Rightarrow> Inr \<lparr>lb_body = a, lb_size = length s\<rparr>))"

definition body_outcome :: "body_error + 'b \<Rightarrow> ('b, body_error) Outcome" where
  "body_outcome res =
     (case res of
        Inr b \<Rightarrow> Success b
      | Inl (Io UnexpectedEof) \<Rightarrow> Error PayloadTooLarge (Io UnexpectedEof)
      | Inl (Parse Category_Data) \<Rightarrow> Error UnprocessableEntity (Parse Category_Data)
      | Inl e \<Rightarrow> Error BadRequest e)"

section \<open>The limit\<close>

text \<open>A decoder in the state \<open>d\<close> gives \<open>content\<close>, in pieces of its own choice, without an error.\<close>

inductive gives :: "'d gunzip_read \<Rightarrow> 'd \<Rightarrow> string \<Rightarrow> bool" for rd where
  finished: "rd d = (Inr [], d') \<Longrightarrow> gives rd d []"
| piece: "rd d = (Inr chunk, d') \<Longrightarrow> chunk \<noteq> [] \<Longrightarrow> length chunk \<le> 4096 \<Longrightarrow> gives rd d' rest
    \<Longrightarrow> gives rd d (chunk @ rest)"

lemma read_limited_gives:
  assumes "gives rd d content"
  shows "read_limited rd limit (length buf) buf d =
    (if length buf + length content \<le> limit \<or> content = [] then Inr (buf @ content) else Inl (Io UnexpectedEof))"
  using assms
proof (induction arbitrary: buf rule: gives.induct)
  case (finished d d')
  then show ?case by (simp add: read_limited.simps [of rd limit "length buf" buf d])
next
  case (piece d chunk d' rest)
  have "rest = [] \<Longrightarrow> length buf + length chunk \<le> limit \<Longrightarrow> length (buf @ chunk) + length rest \<le> limit" by simp
  then show ?case
    using piece.IH [of "buf @ chunk"] piece.hyps
    by (simp add: read_limited.simps [of rd limit "length buf" buf d])
qed

lemma read_limited_length:
  "read_limited rd limit (length buf) buf d = Inr s \<Longrightarrow> length s \<le> max limit (length buf)"
proof (induction rd limit "length buf" buf d arbitrary: s rule: read_limited.induct)
  case (1 rd limit buf d)
  from "1.prems" show ?case
    by (subst (asm) read_limited.simps) (use "1.hyps" in \<open>fastforce split: prod.splits sum.splits if_splits\<close>)
qed

text \<open>
  A compressed body is answered with the parsed body of the whole content when the content is
  within the limit, however the decoder cuts it into pieces, and with \<open>413\<close> when it is not, however
  small the compressed body is. Content that does not fit the type is answered with \<open>422\<close>, other
  bad content with \<open>400\<close>.
\<close>

theorem gzip_body_limited:
  assumes "get_one r ''Content-Encoding'' = Some ''gzip''" and "open_data limit = Complete raw"
    and "gunzip_new raw = Some d" and "gives rd d content"
  shows "body_outcome (body_from_data gunzip_new rd from_json (Some limit) json_limit open_data r) =
    (if limit < length content then Error PayloadTooLarge (Io UnexpectedEof)
     else if \<not> from_utf8_ok content then Error BadRequest (Io InvalidData)
     else (case from_json content of
         Inl Category_Data \<Rightarrow> Error UnprocessableEntity (Parse Category_Data)
       | Inl c \<Rightarrow> Error BadRequest (Parse c)
       | Inr a \<Rightarrow> Success \<lparr>lb_body = a, lb_size = length content\<rparr>))"
  using assms read_limited_gives [of rd d content limit "[]"]
  by (auto simp: body_from_data_def body_text_def body_outcome_def split: sum.splits json_category.splits)

text \<open>A decoder that gives a text in pieces of one byte.\<close>

definition bytewise :: "string gunzip_read" where
  "bytewise d = (case d of [] \<Rightarrow> (Inr [], []) | c # cs \<Rightarrow> (Inr [c], cs))"

lemma bytewise_gives: "gives bytewise s s"
proof (induction s)
  case Nil
  then show ?case by (auto intro: gives.finished simp: bytewise_def)
next
  case (Cons c s)
  have "bytewise (c # s) = (Inr [c], s)" by (simp add: bytewise_def)
  from gives.piece [OF this _ _ Cons] show ?case by simp
qed

definition sample_gzip_request :: HttpRequest where
  "sample_gzip_request = \<lparr>is_get = False, uri_path = ''/v1/log_event'', uri_query = None,
     get_one = (\<lambda>h. if h = ''Content-Encoding'' then Some ''gzip'' else None), get_all = (\<lambda>_. []),
     query_value_bool = (\<lambda>_. None)\<rparr>"

theorem gzip_body_limited_witness:
  "body_outcome (body_from_data Some bytewise (\<lambda>s. Inr s) (Some 3) 1 (\<lambda>_. Complete ''abcd'') sample_gzip_request)
     = Error PayloadTooLarge (Io UnexpectedEof)
   \<and> body_outcome (body_from_data Some bytewise (\<lambda>s. Inr s) (Some 4) 1 (\<lambda>_. Complete ''abcd'') sample_gzip_request)
     = Success \<lparr>lb_body = ''abcd'', lb_size = 4\<rparr>"
proof -
  have gz: "get_one sample_gzip_request ''Content-Encoding'' = Some ''gzip''" by (simp add: sample_gzip_request_def)
  have "from_utf8_ok ''abcd''" by code_simp
  then show ?thesis
    using gzip_body_limited [OF gz _ _ bytewise_gives, of "\<lambda>_. Complete ''abcd''" 3 "''abcd''" Some "''abcd''" "\<lambda>s. Inr s" 1]
      gzip_body_limited [OF gz _ _ bytewise_gives, of "\<lambda>_. Complete ''abcd''" 4 "''abcd''" Some "''abcd''" "\<lambda>s. Inr s" 1]
    by simp
qed

end
