(* ===== verification/UserEnrichment.thy ===== *)
theory UserEnrichment
  imports MembershipReads RequestBody Encodings "HOL-Library.Multiset"
begin

text \<open>
  The enrichment API: \<open>servers/http_apis/user_enrichment_api.rs\<close> and
  \<open>user_enrichment_api/company_resolver.rs\<close>. A request with a configured server key asks for the
  id-lists of a user. The theory shows that an answer has only lists that the key sees when it is
  given, that it is complete when the index is, and which requests are refused.
\<close>

section \<open>Configuration\<close>

record UserEnrichmentConfig =
  uc_max_lookups :: nat
  uc_rate_limit_rps_per_key :: u64

definition enrichment_config_default :: UserEnrichmentConfig where
  "enrichment_config_default = \<lparr>uc_max_lookups = 100, uc_rate_limit_rps_per_key = 0\<rparr>"

definition enrichment_config_from_env :: "(string \<Rightarrow> env_var) \<Rightarrow> string + UserEnrichmentConfig" where
  "enrichment_config_from_env env =
     then_sum (env_usize env ''USER_ENRICHMENT_MAX_LOOKUPS'' (uc_max_lookups enrichment_config_default)) (\<lambda>max_lookups.
       if max_lookups = 0 then Inl ''USER_ENRICHMENT_MAX_LOOKUPS must be greater than zero''
       else then_sum (env_u64 env ''USER_ENRICHMENT_RATE_LIMIT_RPS_PER_KEY''
                        (uc_rate_limit_rps_per_key enrichment_config_default)) (\<lambda>rate.
              Inr \<lparr>uc_max_lookups = max_lookups, uc_rate_limit_rps_per_key = rate\<rparr>))"

section \<open>Requests\<close>

record EnrichmentUser =
  eu_user_id :: "string option"
  eu_custom_ids :: "string \<Rightarrow> string option"

record UserEnrichmentRequest =
  er_id_list_lookups :: "string list"
  er_user :: "EnrichmentUser option"
  er_enrichments :: "string list option"

record UserEnrichmentResponse =
  ur_id_lists :: "string \<Rightarrow> string list option"
  ur_unsupported_enrichments :: "string list"

definition hash_lookup_id :: "(string \<Rightarrow> string) \<Rightarrow> string \<Rightarrow> string" where
  "hash_lookup_id sha256_b64 i = take 8 (sha256_b64 i)"

text \<open>One \<open>if seen.insert(..) { lookups.push(..) }\<close>.\<close>

definition push_lookup :: "string \<Rightarrow> string set \<times> string list \<Rightarrow> string set \<times> string list" where
  "push_lookup x acc =
     (case acc of (seen, lookups) \<Rightarrow> if x \<in> seen then (seen, lookups) else (insert x seen, lookups @ [x]))"

text \<open>The custom ids, sorted by their names; \<open>list_fields\<close> iterates over the hash map.\<close>

definition user_lookups ::
  "(string \<Rightarrow> string) \<Rightarrow> ((string \<Rightarrow> string option) \<Rightarrow> (string \<times> string) list) \<Rightarrow> EnrichmentUser \<Rightarrow> string list" where
  "user_lookups sha256_b64 list_fields u =
     map (hash_lookup_id sha256_b64)
       ((case eu_user_id u of None \<Rightarrow> [] | Some i \<Rightarrow> [i])
        @ map snd (sort_key fst (list_fields (eu_custom_ids u))))"

definition prepare_request ::
  "(string \<Rightarrow> string) \<Rightarrow> ((string \<Rightarrow> string option) \<Rightarrow> (string \<times> string) list) \<Rightarrow> UserEnrichmentRequest
     \<Rightarrow> string list \<times> string list \<times> bool" where
  "prepare_request sha256_b64 list_fields r =
     (let acc = fold push_lookup (er_id_list_lookups r) ({}, []);
          acc = (case er_user r of
              None \<Rightarrow> acc
            | Some u \<Rightarrow> fold push_lookup (user_lookups sha256_b64 list_fields u) acc);
          unsupported = dedupe_from {}
            (filter (\<lambda>e. e \<noteq> ''id_lists'') (case er_enrichments r of None \<Rightarrow> [] | Some es \<Rightarrow> es));
          resolve_id_lists = (case er_enrichments r of None \<Rightarrow> True | Some es \<Rightarrow> ''id_lists'' \<in> set es)
      in (snd acc, unsupported, resolve_id_lists))"

section \<open>The resolver of a company\<close>

text \<open>
  The namespaces are shared with the observers that fill them, and the fetchers with other
  requests: they are parts of the world. \<open>cp_cells\<close> has the accessors of the fetcher of a
  namespace, \<open>cp_started\<close> the namespaces whose cell is filled.
\<close>

record 'w CompanyMembershipPool =
  cp_namespaces :: "'w \<Rightarrow> IdListNamespaces"
  cp_sha256_b64 :: "string \<Rightarrow> string"
  cp_config :: IdListMembershipConfig
  cp_cells :: "string \<Rightarrow> 'w fetcher"
  cp_started :: "'w \<Rightarrow> string set"
  cp_start :: "string \<Rightarrow> 'w \<Rightarrow> 'w"

definition fetcher_of :: "'w CompanyMembershipPool \<Rightarrow> string \<Rightarrow> 'w fetcher" where
  "fetcher_of cp skh =
     (cp_cells cp skh)\<lparr>mf_enable_reverse_index := mc_enable_reverse_index (cp_config cp),
        mf_fetch_timeout := mc_fetch_timeout (cp_config cp)\<rparr>"

text \<open>\<open>get_or_try_init\<close>: a failed load leaves the cell empty, and the next request tries again.\<close>

definition get_or_try_init ::
  "'w CompanyMembershipPool \<Rightarrow> ((string \<Rightarrow> string option) \<Rightarrow> (string \<times> string) list) \<Rightarrow> string
     \<Rightarrow> ('w, IdListMembershipError, 'w fetcher) io" where
  "get_or_try_init cp list_fields skh w =
     (if skh \<in> cp_started cp w then Some (Inr (fetcher_of cp skh), w)
      else bind (new_fetcher (cp_cells cp skh) (cp_config cp) list_fields) (\<lambda>f.
             lift_io (\<lambda>w. (Inr f, cp_start cp skh w))) w)"

definition read_world :: "('w \<Rightarrow> 'a) \<Rightarrow> ('w, 'e, 'a) io" where
  "read_world f = lift_io (\<lambda>w. (Inr (f w), w))"

definition key_scope :: "'w CompanyMembershipPool \<Rightarrow> string \<Rightarrow> 'w \<Rightarrow> string option" where
  "key_scope cp key w =
     (case (namespace_for_key (cp_sha256_b64 cp) (cp_namespaces cp w) key, visible_lists (cp_namespaces cp w) key) of
        (Some skh, Some visible) \<Rightarrow> if visible = {} then None else Some skh
      | _ \<Rightarrow> None)"

definition seen_lists :: "'w CompanyMembershipPool \<Rightarrow> string \<Rightarrow> 'w \<Rightarrow> string set" where
  "seen_lists cp key w = (case visible_lists (cp_namespaces cp w) key of None \<Rightarrow> {} | Some v \<Rightarrow> v)"

definition visible_now :: "'w CompanyMembershipPool \<Rightarrow> string \<Rightarrow> string \<Rightarrow> 'w \<Rightarrow> string set" where
  "visible_now cp key skh w =
     (if namespace_for_key (cp_sha256_b64 cp) (cp_namespaces cp w) key = Some skh then seen_lists cp key w else {})"

definition retain_lists :: "string set \<Rightarrow> memberships \<Rightarrow> memberships" where
  "retain_lists visible m i = map_option (\<lambda>names. names \<inter> visible) (m i)"

definition company_resolve ::
  "'w CompanyMembershipPool \<Rightarrow> iteration \<Rightarrow> ((string \<Rightarrow> string option) \<Rightarrow> (string \<times> string) list) \<Rightarrow> string
     \<Rightarrow> string list \<Rightarrow> ('w, IdListMembershipError, memberships) io" where
  "company_resolve cp iterate list_fields key ids =
     bind (read_world (key_scope cp key)) (\<lambda>scope.
       case scope of
         None \<Rightarrow> ret (empty_memberships ids)
       | Some skh \<Rightarrow>
           bind (get_or_try_init cp list_fields skh) (\<lambda>f.
           bind (read_world (seen_lists cp key)) (\<lambda>visible.
           bind (fetch_visible f iterate ids visible) (\<lambda>(m, _).
           bind (read_world (visible_now cp key skh)) (\<lambda>visible.
           ret (retain_lists visible m))))))"

section \<open>The handler\<close>

record 'w KeyContext =
  kc_key_hash :: string
  kc_resolver :: "string list \<Rightarrow> ('w, IdListMembershipError, memberships) io"
  kc_rate_limiter :: "('w \<Rightarrow> bool \<times> 'w) option"

record 'w UserEnrichmentService =
  us_keys :: "string \<Rightarrow> 'w KeyContext option"
  us_config :: UserEnrichmentConfig

text \<open>
  \<open>from_redis\<close>. A limiter is a token bucket on floating point numbers; its \<open>try_acquire\<close> is an
  argument, one per key.
\<close>

definition rate_limiter :: "('w \<Rightarrow> bool \<times> 'w) \<Rightarrow> u64 \<Rightarrow> ('w \<Rightarrow> bool \<times> 'w) option" where
  "rate_limiter acquire rate = (if 0 < rate then Some acquire else None)"

definition service_from_redis ::
  "'w CompanyMembershipPool \<Rightarrow> iteration \<Rightarrow> ((string \<Rightarrow> string option) \<Rightarrow> (string \<times> string) list)
     \<Rightarrow> (string \<Rightarrow> 'w \<Rightarrow> bool \<times> 'w) \<Rightarrow> string list \<Rightarrow> UserEnrichmentConfig \<Rightarrow> 'w UserEnrichmentService" where
  "service_from_redis cp iterate list_fields acquire server_keys config =
     \<lparr>us_keys = foldl (\<lambda>m key. m(key \<mapsto>
          \<lparr>kc_key_hash = hash_server_key (cp_sha256_b64 cp) key,
           kc_resolver = company_resolve cp iterate list_fields key,
           kc_rate_limiter = rate_limiter (acquire key) (uc_rate_limit_rps_per_key config)\<rparr>)) Map.empty server_keys,
      us_config = config\<rparr>"

record 'w UserEnrichmentRequestContext =
  ux_key :: "'w KeyContext"
  ux_encodings :: "CompressionEncoder list"

definition enrichment_guard ::
  "'w UserEnrichmentService option \<Rightarrow> HttpRequest \<Rightarrow> 'w \<Rightarrow> ('w UserEnrichmentRequestContext, unit) Outcome \<times> 'w" where
  "enrichment_guard service r w =
     (case service of
        None \<Rightarrow> (Error InternalServerError (), w)
      | Some s \<Rightarrow>
          (case get_one r ''statsig-api-key'' of
             None \<Rightarrow> (Error Status_Unauthorized (), w)
           | Some server_key \<Rightarrow>
               (case us_keys s server_key of
                  None \<Rightarrow> (Error Status_Unauthorized (), w)
                | Some key \<Rightarrow>
                    (case (case kc_rate_limiter key of None \<Rightarrow> (True, w) | Some acquire \<Rightarrow> acquire w) of
                       (granted, w') \<Rightarrow>
                         (if \<not> granted then Error TooManyRequests ()
                          else Success \<lparr>ux_key = key,
                            ux_encodings = acceptable_list (from_header_values (get_all r ''Accept-Encoding''))\<rparr>, w')))))"

datatype enrichment_body = Answer UserEnrichmentResponse | ErrorBody string

record UserEnrichmentHttpResponse =
  uh_status :: Status
  uh_data :: string
  uh_encoding :: CompressionEncoder

text \<open>\<open>json\<close> and \<open>error\<close>: the JSON serialiser and the encoders are arguments.\<close>

definition json_response ::
  "(enrichment_body \<Rightarrow> string option) \<Rightarrow> (string \<Rightarrow> string option) \<Rightarrow> (string \<Rightarrow> string option)
     \<Rightarrow> Status \<Rightarrow> enrichment_body \<Rightarrow> CompressionEncoder list \<Rightarrow> UserEnrichmentHttpResponse" where
  "json_response to_json gzip brotli st body encodings =
     (let payload = (case to_json body of
          Some s \<Rightarrow> s
        | None \<Rightarrow> ''{'' @ [CHR 0x22] @ ''error'' @ [CHR 0x22] @ '':'' @ [CHR 0x22] @ ''failed to serialize response''
            @ [CHR 0x22] @ ''}'');
          requested = preferred_response_compression encodings
      in (case compress_response_payload gzip brotli payload requested of
            Some s \<Rightarrow> \<lparr>uh_status = st, uh_data = s, uh_encoding = requested\<rparr>
          | None \<Rightarrow> \<lparr>uh_status = st, uh_data = payload, uh_encoding = PlainText\<rparr>))"

text \<open>The status and the body of the answer of \<open>post_user_enrichment\<close>, before it is written as JSON.\<close>

definition enrichment_answer ::
  "(string \<Rightarrow> string) \<Rightarrow> ((string \<Rightarrow> string option) \<Rightarrow> (string \<times> string) list) \<Rightarrow> 'w KeyContext
     \<Rightarrow> UserEnrichmentConfig \<Rightarrow> UserEnrichmentRequest \<Rightarrow> 'w \<Rightarrow> ((Status \<times> enrichment_body) \<times> 'w) option" where
  "enrichment_answer sha256_b64 list_fields key config r w =
     (case prepare_request sha256_b64 list_fields r of (lookups, unsupported, resolve_id_lists) \<Rightarrow>
        let answer = (\<lambda>m. (Status_Ok, Answer \<lparr>ur_id_lists = (\<lambda>i. map_option sorted_list_of_set (m i)),
              ur_unsupported_enrichments = unsupported\<rparr>))
        in if uc_max_lookups config < length lookups
           then Some ((PayloadTooLarge, ErrorBody ''too many id list lookups''), w)
           else if resolve_id_lists \<and> lookups \<noteq> [] then
             Option.bind (kc_resolver key lookups w) (\<lambda>(res, w').
               Some (case res of
                   Inl _ \<Rightarrow> (ServiceUnavailable, ErrorBody ''id list resolution unavailable'')
                 | Inr m \<Rightarrow> answer m, w'))
           else Some (answer Map.empty, w))"

definition post_user_enrichment ::
  "(string \<Rightarrow> string) \<Rightarrow> ((string \<Rightarrow> string option) \<Rightarrow> (string \<times> string) list)
     \<Rightarrow> (enrichment_body \<Rightarrow> string option) \<Rightarrow> (string \<Rightarrow> string option) \<Rightarrow> (string \<Rightarrow> string option)
     \<Rightarrow> 'w UserEnrichmentRequestContext \<Rightarrow> 'w UserEnrichmentService \<Rightarrow> UserEnrichmentRequest \<Rightarrow> 'w
     \<Rightarrow> (UserEnrichmentHttpResponse \<times> 'w) option" where
  "post_user_enrichment sha256_b64 list_fields to_json gzip brotli cx service r w =
     Option.bind (enrichment_answer sha256_b64 list_fields (ux_key cx) (us_config service) r w)
       (\<lambda>((st, body), w'). Some (json_response to_json gzip brotli st body (ux_encodings cx), w'))"

section \<open>What a request asks for\<close>

lemma push_lookups:
  "fold push_lookup xs (seen, lookups) = (seen \<union> set xs, lookups @ dedupe_from seen xs)"
  by (induction xs arbitrary: seen lookups) (auto simp: push_lookup_def insert_absorb)

lemma dedupe_from_append: "dedupe_from seen (xs @ ys) = dedupe_from seen xs @ dedupe_from (seen \<union> set xs) ys"
  by (induction xs arbitrary: seen) (auto simp: insert_absorb)

text \<open>The lookups are the listed ones and the hashed ids of the user, without repetition.\<close>

lemma prepare_lookups:
  "fst (prepare_request sha list_fields r) =
     dedupe_lookup_ids (er_id_list_lookups r
       @ (case er_user r of None \<Rightarrow> [] | Some u \<Rightarrow> user_lookups sha list_fields u))"
  by (auto simp: prepare_request_def Let_def push_lookups dedupe_lookup_ids_def dedupe_from_append split: option.splits)

lemma lists_fields_sorted:
  assumes "lists_fields lf" and "lists_fields lf'" and "finite (dom h)"
  shows "sort_key fst (lf h) = sort_key fst (lf' h)"
proof (rule sort_key_inj_key_eq)
  have d: "map_of (lf h) = map_of (lf' h)" "distinct (map fst (lf h))" "distinct (map fst (lf' h))"
    using assms by (simp_all add: lists_fields_def)
  then have "set (lf h) = set (lf' h)" by (metis map_of_inject_set)
  then show "mset (lf h) = mset (sort_key fst (lf' h))"
    using d(2,3) by (simp add: distinct_map set_eq_iff_mset_eq_distinct)
  show "inj_on fst (set (lf h))" using d(2) by (simp add: distinct_map)
qed simp

text \<open>What is asked for does not depend on the order in which a hash map is iterated.\<close>

lemma prepare_order_independent:
  assumes "lists_fields lf" and "lists_fields lf'"
    and "\<And>u. er_user r = Some u \<Longrightarrow> finite (dom (eu_custom_ids u))"
  shows "prepare_request sha lf r = prepare_request sha lf' r"
  using assms lists_fields_sorted [OF assms(1,2)]
  by (auto simp: prepare_request_def user_lookups_def Let_def split: option.splits)

section \<open>Only visible lists\<close>

lemma bind_Inr:
  "bind m f w = Some (Inr b, w') \<longleftrightarrow> (\<exists>a w1. m w = Some (Inr a, w1) \<and> f a w1 = Some (Inr b, w'))"
proof (cases "m w")
  case (Some r)
  then show ?thesis by (cases r; cases "fst r") (auto simp: bind_def)
qed (simp add: bind_def)

lemma read_world_eq [simp]: "read_world f w = Some (Inr (f w), w)"
  by (simp add: read_world_def lift_io_def)

lemma resolve_visible:
  assumes "company_resolve cp iterate list_fields key ids w = Some (Inr m, w')" and "m i = Some names"
  shows "names \<subseteq> seen_lists cp key w'"
proof (cases "key_scope cp key w")
  case None
  then have "m = empty_memberships ids"
    using assms(1) by (simp add: company_resolve_def bind_Inr ret_def)
  then show ?thesis using assms(2) by (auto simp: empty_memberships_eq split: if_splits)
next
  case (Some skh)
  then obtain m0 where "m = retain_lists (visible_now cp key skh w') m0"
    using assms(1) by (auto simp: company_resolve_def bind_Inr ret_def)
  then show ?thesis
    using assms(2) by (auto simp: retain_lists_def visible_now_def split: if_splits)
qed

lemma foldl_updates:
  "foldl (\<lambda>m k. m(k \<mapsto> f k)) m0 ks key = (if key \<in> set ks then Some (f key) else m0 key)"
  by (induction ks arbitrary: m0) auto

lemma service_keys:
  "us_keys (service_from_redis cp iterate lf acquire server_keys config) key =
     (if key \<in> set server_keys then Some
        \<lparr>kc_key_hash = hash_server_key (cp_sha256_b64 cp) key, kc_resolver = company_resolve cp iterate lf key,
         kc_rate_limiter = rate_limiter (acquire key) (uc_rate_limit_rps_per_key config)\<rparr> else None)"
  unfolding service_from_redis_def by (simp add: foldl_updates)

text \<open>
  C25: A request is answered only for a configured server key, with no more lookups than configured, and
  an answer has, for every lookup, a sorted list of id-lists without repetition, all of which the
  manifest of that key has at the moment of the answer, whatever Redis returned and whatever
  happened to the manifests while the request was served.
\<close>

theorem enrichment_only_visible:
  assumes "service = service_from_redis cp iterate lf acquire server_keys config"
    and "enrichment_guard (Some service) r w = (Success cx, w1)"
    and "enrichment_answer sha lf (ux_key cx) (us_config service) req w1 = Some ((Status_Ok, Answer resp), w2)"
  shows "\<exists>key. get_one r ''statsig-api-key'' = Some key \<and> key \<in> set server_keys
    \<and> length (fst (prepare_request sha lf req)) \<le> uc_max_lookups config
    \<and> (\<forall>i names. ur_id_lists resp i = Some names \<longrightarrow>
         set names \<subseteq> seen_lists cp key w2 \<and> sorted names \<and> distinct names)"
proof -
  obtain key where key: "get_one r ''statsig-api-key'' = Some key" "us_keys service key = Some (ux_key cx)"
    using assms(2) by (auto simp: enrichment_guard_def split: option.splits prod.splits if_splits)
  have in_keys: "key \<in> set server_keys" and res: "kc_resolver (ux_key cx) = company_resolve cp iterate lf key"
    using key(2) [symmetric] unfolding assms(1) service_keys by (auto split: if_splits)
  have cfg: "us_config service = config" using assms(1) by (simp add: service_from_redis_def)
  obtain lookups unsupported b where p: "prepare_request sha lf req = (lookups, unsupported, b)" by (metis prod_cases3)
  have max: "length lookups \<le> uc_max_lookups config"
    using assms(3) p cfg by (auto simp: enrichment_answer_def Let_def split: if_splits)
  have "set names \<subseteq> seen_lists cp key w2 \<and> sorted names \<and> distinct names" if n: "ur_id_lists resp i = Some names" for i names
  proof (cases "b \<and> lookups \<noteq> []")
    case True
    then obtain res where r: "company_resolve cp iterate lf key lookups w1 = Some (res, w2)"
        and "(case res of Inl _ \<Rightarrow> (ServiceUnavailable, ErrorBody ''id list resolution unavailable'')
            | Inr m \<Rightarrow> (Status_Ok, Answer \<lparr>ur_id_lists = (\<lambda>i. map_option sorted_list_of_set (m i)),
                ur_unsupported_enrichments = unsupported\<rparr>)) = (Status_Ok, Answer resp)"
      using assms(3) p cfg res max by (auto simp: enrichment_answer_def Let_def bind_eq_Some_conv)
    then obtain m where "company_resolve cp iterate lf key lookups w1 = Some (Inr m, w2)"
        and "ur_id_lists resp = (\<lambda>i. map_option sorted_list_of_set (m i))"
      by (cases res) auto
    then obtain s where s: "m i = Some s" "names = sorted_list_of_set s" "s \<subseteq> seen_lists cp key w2"
      using n resolve_visible by (metis (no_types, lifting) map_option_eq_Some)
    then show ?thesis by (cases "finite s") auto
  next
    case False
    then show ?thesis using assms(3) p cfg max n by (auto simp: enrichment_answer_def Let_def)
  qed
  then show ?thesis using key(1) in_keys max p by auto
qed

section \<open>Complete answers\<close>

text \<open>
  C26: With a running fetcher and the reverse index on, a resolution returns, and unless Redis fails or
  times out it gives for every lookup exactly the lists with that member that the key sees at the
  end and whose token is in the cached dictionary.
\<close>

theorem enrichment_complete:
  assumes "redis_conforms sc rely (mf_pool (fetcher_of cp skh)) view"
    and "stable rely (reverse_index (mf_key_prefix (fetcher_of cp skh)) (mf_skh (fetcher_of cp skh)) tok F)"
    and "reverse_index (mf_key_prefix (fetcher_of cp skh)) (mf_skh (fetcher_of cp skh)) tok F (view w)"
    and "\<And>m. finite {n. m \<in> F n}" and "iterates iterate" and "cells_ok (fetcher_of cp skh)"
    and "mc_enable_reverse_index (cp_config cp)"
    and "key_scope cp key w = Some skh" and "skh \<in> cp_started cp w"
  shows "\<exists>res w'. company_resolve cp iterate lf key ids w = Some (res, w')
    \<and> (case res of Inl _ \<Rightarrow> True
       | Inr m \<Rightarrow> names_right (mf_dict_cache (fetcher_of cp skh) w') tok \<longrightarrow>
           m = (\<lambda>i. if i \<in> set ids then Some {n \<in> visible_now cp key skh w'.
               i \<in> F n \<and> token_to_name (mf_dict_cache (fetcher_of cp skh) w') (tok n) = Some n} else None))"
proof -
  let ?f = "fetcher_of cp skh"
  have rev: "mf_enable_reverse_index ?f" using assms(7) by (simp add: fetcher_of_def)
  obtain res w' where run: "fetch ?f iterate ids w = Some (res, w')"
      and ok: "case res of Inl _ \<Rightarrow> True | Inr ans \<Rightarrow> reverse_answer ?f tok F ids ans w'"
    using fetch_reverse_ok [OF assms(1,2,4,5,6) rev, of ids] assms(3) unfolding io_ok_def by blast
  have eq: "company_resolve cp iterate lf key ids w =
      Some (case res of Inl e \<Rightarrow> Inl e | Inr (m, _) \<Rightarrow> Inr (retain_lists (visible_now cp key skh w') m), w')"
    using assms(8,9) run rev
    by (cases res) (auto simp: company_resolve_def bind_def ret_def get_or_try_init_def fetch_visible_def)
  show ?thesis
  proof (cases res)
    case (Inr ans)
    obtain m started where ans: "ans = (m, started)" by force
    have "names_right (mf_dict_cache ?f w') tok \<longrightarrow> m = (\<lambda>i. if i \<in> set ids
        then Some {n. i \<in> F n \<and> token_to_name (mf_dict_cache ?f w') (tok n) = Some n} else None)"
      using ok Inr ans by (simp add: reverse_answer_def Let_def)
    then show ?thesis using eq Inr ans by (auto simp: retain_lists_def)
  qed (simp add: eq)
qed

section \<open>A concrete request\<close>

text \<open>
  The company of key \<open>k\<close> has the namespace \<open>abcd\<close> and the lists of the sample index; the key sees
  list \<open>a\<close> only.
\<close>

definition sample_scope :: IdListNamespaces where
  "sample_scope = \<lparr>ns_company_ids = [''k'' \<mapsto> ''abcd''], ns_server_keys = [''k''],
     ns_manifests = [''k'' \<mapsto> [''a'' \<mapsto> sample_list_entry ''f'' 1 1]]\<rparr>"

definition sample_companies_pool :: "(keyspace \<times> DictSnapshot \<times> (u64 \<Rightarrow> nat option)) CompanyMembershipPool" where
  "sample_companies_pool =
     \<lparr>cp_namespaces = (\<lambda>_. sample_scope), cp_sha256_b64 = (\<lambda>s. s), cp_config = membership_config_default,
      cp_cells = (\<lambda>_. sample_fetcher True), cp_started = (\<lambda>_. {''abcd''}), cp_start = (\<lambda>_ w. w)\<rparr>"

definition sample_enrichment_request :: HttpRequest where
  "sample_enrichment_request = \<lparr>is_get = False, uri_path = ''/v1/user_enrichment'', uri_query = None,
     get_one = [''statsig-api-key'' \<mapsto> ''k''], get_all = (\<lambda>_. []), query_value_bool = (\<lambda>_. None)\<rparr>"

definition sample_fields :: "(string \<Rightarrow> string option) \<Rightarrow> (string \<times> string) list" where
  "sample_fields h = map (\<lambda>k. (k, the (h k))) (sorted_list_of_set (dom h))"

definition sample_full_dict :: DictSnapshot where
  "sample_full_dict = \<lparr>name_to_token = [''a'' \<mapsto> 1, ''b'' \<mapsto> 2], token_to_name = [1 \<mapsto> ''a'', 2 \<mapsto> ''b'']\<rparr>"

lemma sample_fetcher_of: "fetcher_of sample_companies_pool skh = sample_fetcher True"
  by (simp add: fetcher_of_def sample_companies_pool_def membership_config_default_def sample_fetcher_def)

lemma sample_scope_seen:
  "seen_lists sample_companies_pool ''k'' w = {''a''}" "key_scope sample_companies_pool ''k'' w = Some ''abcd''"
  "visible_now sample_companies_pool ''k'' ''abcd'' w = {''a''}"
  by (simp_all add: seen_lists_def key_scope_def visible_now_def sample_companies_pool_def sample_scope_def
      visible_lists_def namespace_for_key_def hash_company_id_def)

lemma sample_resolve_runs:
  "\<exists>m w'. company_resolve sample_companies_pool sorted_list_of_set lf ''k'' [''m''] (sample_index, d, Map.empty)
     = Some (Inr m, w') \<and> fst (snd w') = d"
proof -
  have "fetch (sample_fetcher True) sorted_list_of_set [''m''] (sample_index, d, Map.empty)
      = fetch (sample_fetcher True) sorted_list_of_set [''m'', ''m''] (sample_index, d, Map.empty)"
    by (simp add: fetch_def dedupe_lookup_ids_def)
  then obtain m started w' where "fetch (sample_fetcher True) sorted_list_of_set [''m''] (sample_index, d, Map.empty)
      = Some (Inr (m, started), w')" "fst (snd w') = d"
    using sample_fetch [of d] by force
  moreover have "mf_enable_reverse_index (sample_fetcher True)" "''abcd'' \<in> cp_started sample_companies_pool w" for w
    by (simp_all add: sample_fetcher_def sample_companies_pool_def)
  ultimately show ?thesis
    by (simp add: company_resolve_def bind_def ret_def get_or_try_init_def fetch_visible_def sample_scope_seen
        sample_fetcher_of)
qed

theorem enrichment_complete_witness:
  "\<exists>m w'. company_resolve sample_companies_pool sorted_list_of_set sample_fields ''k'' [''m'']
        (sample_index, sample_full_dict, Map.empty) = Some (Inr m, w') \<and> m = [''m'' \<mapsto> {''a''}]"
proof -
  obtain m w' where run: "company_resolve sample_companies_pool sorted_list_of_set sample_fields ''k'' [''m'']
      (sample_index, sample_full_dict, Map.empty) = Some (Inr m, w')" and d: "fst (snd w') = sample_full_dict"
    using sample_resolve_runs [of sample_fields sample_full_dict] by blast
  have "\<exists>res w'. company_resolve sample_companies_pool sorted_list_of_set sample_fields ''k'' [''m'']
        (sample_index, sample_full_dict, Map.empty) = Some (res, w')
    \<and> (case res of Inl _ \<Rightarrow> True
       | Inr m \<Rightarrow> names_right (mf_dict_cache (fetcher_of sample_companies_pool ''abcd'') w') sample_token \<longrightarrow>
           m = (\<lambda>i. if i \<in> set [''m''] then Some {n \<in> visible_now sample_companies_pool ''k'' ''abcd'' w'.
               i \<in> sample_members n \<and> token_to_name (mf_dict_cache (fetcher_of sample_companies_pool ''abcd'') w')
                 (sample_token n) = Some n} else None))"
  proof (rule enrichment_complete)
    show "redis_conforms local_scans (=) (mf_pool (fetcher_of sample_companies_pool ''abcd'')) fst"
      using local_conforms by (simp add: sample_fetcher_of sample_fetcher_def)
    show "finite {n. m \<in> sample_members n}" for m
      by (rule finite_subset [of _ "{''a'', ''b''}"]) (auto simp: sample_members_def split: if_splits)
    show "key_scope sample_companies_pool ''k'' (sample_index, sample_full_dict, Map.empty) = Some ''abcd''"
      by (rule sample_scope_seen)
    show "''abcd'' \<in> cp_started sample_companies_pool (sample_index, sample_full_dict, Map.empty)"
      "mc_enable_reverse_index (cp_config sample_companies_pool)"
      by (simp_all add: sample_companies_pool_def membership_config_default_def)
  qed (use sample_index_ok iterates_sorted in \<open>simp_all add: sample_fetcher_of sample_fetcher_def cells_ok_def\<close>)
  moreover have "names_right sample_full_dict sample_token"
    by (simp add: names_right_def sample_full_dict_def sample_token_def)
  ultimately have "m = (\<lambda>i. if i = ''m'' then Some {n \<in> {''a''}. i \<in> sample_members n
      \<and> token_to_name sample_full_dict (sample_token n) = Some n} else None)"
    using run d by (simp add: sample_fetcher_of sample_fetcher_def sample_scope_seen cong: if_cong)
  then have "m = [''m'' \<mapsto> {''a''}]"
    by (auto simp: fun_eq_iff sample_members_def sample_full_dict_def sample_token_def)
  then show ?thesis using run by blast
qed

definition sample_enrichment :: UserEnrichmentRequest where
  "sample_enrichment = \<lparr>er_id_list_lookups = [''m''], er_user = None, er_enrichments = None\<rparr>"

definition sample_service :: "(keyspace \<times> DictSnapshot \<times> (u64 \<Rightarrow> nat option)) UserEnrichmentService" where
  "sample_service = service_from_redis sample_companies_pool sorted_list_of_set sample_fields (\<lambda>_ w. (True, w)) [''k'']
     enrichment_config_default"

theorem enrichment_only_visible_witness:
  "\<exists>cx resp w2. enrichment_guard (Some sample_service) sample_enrichment_request (sample_index, sample_full_dict, Map.empty)
        = (Success cx, (sample_index, sample_full_dict, Map.empty))
    \<and> enrichment_answer (\<lambda>s. s) sample_fields (ux_key cx) (us_config sample_service) sample_enrichment
        (sample_index, sample_full_dict, Map.empty) = Some ((Status_Ok, Answer resp), w2)
    \<and> (\<Union>names \<in> Map.ran (ur_id_lists resp). set names) \<subseteq> {''a''}"
proof -
  let ?w = "(sample_index, sample_full_dict, Map.empty)"
  let ?key = "\<lparr>kc_key_hash = ''k'', kc_resolver = company_resolve sample_companies_pool sorted_list_of_set sample_fields ''k'',
    kc_rate_limiter = None\<rparr>"
  have key: "us_keys sample_service ''k'' = Some ?key"
    by (simp add: sample_service_def service_keys hash_server_key_def sample_companies_pool_def rate_limiter_def
        enrichment_config_default_def)
  obtain cx where guard: "enrichment_guard (Some sample_service) sample_enrichment_request ?w = (Success cx, ?w)"
      and ctx: "ux_key cx = ?key"
    using key by (simp add: enrichment_guard_def sample_enrichment_request_def)
  obtain m w2 where run: "company_resolve sample_companies_pool sorted_list_of_set sample_fields ''k'' [''m''] ?w = Some (Inr m, w2)"
    using sample_resolve_runs by blast
  obtain resp where ans: "enrichment_answer (\<lambda>s. s) sample_fields (ux_key cx) (us_config sample_service) sample_enrichment ?w
      = Some ((Status_Ok, Answer resp), w2)"
    using run by (simp add: ctx enrichment_answer_def prepare_request_def push_lookup_def sample_enrichment_def
        sample_service_def service_from_redis_def enrichment_config_default_def Let_def)
  from enrichment_only_visible [OF sample_service_def guard ans] have
    "(\<Union>names \<in> Map.ran (ur_id_lists resp). set names) \<subseteq> {''a''}"
    by (auto simp: sample_enrichment_request_def sample_scope_seen Map.ran_def)
  then show ?thesis using guard ans by blast
qed

end
