(* ===== verification/FullReload.thy ===== *)
theory FullReload
  imports ListRemoval
begin

text \<open>
  Loading a list in full: \<open>idlist_membership/worker/reload.rs\<close>. A new version is downloaded into a
  forward set of its own while the committed one is served, the reverse index is moved to it, and
  then the state is switched over. The theory has the operations, the states from which a list can
  be loaded, and the first half of a reload: starting or resuming it and the download.
\<close>

section \<open>Operations\<close>

definition hdel :: "'w IdListSyncWorker \<Rightarrow> string \<Rightarrow> string list \<Rightarrow> ('w, WorkerError, unit) io" where
  "hdel wk key fs = redis_op (seq (command (wk_pool wk) (HDEL key fs)) (ret ()))"

text \<open>\<open>hget::<_, _, Option<u64>>\<close>.\<close>

definition hget_u64 :: "'w IdListSyncWorker \<Rightarrow> string \<Rightarrow> string \<Rightarrow> ('w, WorkerError, u64 option) io" where
  "hget_u64 wk key field =
     redis_op (bind (command (wk_pool wk) (HGET key field)) (\<lambda>r.
       bind (as_text r) (\<lambda>v.
         (case v of
            None \<Rightarrow> ret None
          | Some s \<Rightarrow> (case parse_u64 s of None \<Rightarrow> fail reply_error | Some n \<Rightarrow> ret (Some n))))))"

definition send :: "'w IdListSyncWorker \<Rightarrow> redis_cmd \<Rightarrow> ('w, WorkerError, unit) io" where
  "send wk c = redis_op (seq (command (wk_pool wk) c) (ret ()))"

subsection \<open>Repairing the committed version\<close>

text \<open>Whether the committed set is the one that the task asks for and only its reverse index is out of date.\<close>

definition repairable :: "'w IdListSyncWorker \<Rightarrow> ListSyncState \<Rightarrow> TaskMetadata \<Rightarrow> bool" where
  "repairable wk st meta \<longleftrightarrow>
     wc_enable_reverse_index (wk_config wk) \<and> ls_reverse_index_disabled st \<and> ls_version st \<noteq> []
     \<and> ls_file_id st = tm_file_id meta \<and> ls_size st = tm_size meta \<and> ls_loading_version st = None"

definition repair_marks :: "'w IdListSyncWorker \<Rightarrow> string \<Rightarrow> string \<Rightarrow> redis_cmd list" where
  "repair_marks wk skh skey =
     [HSET skey [(''reconcile_required'', ''1'')], DEL (ready_key (wk_key_prefix wk) skh)]"

definition reconcile_committed_forward ::
  "'w IdListSyncWorker \<Rightarrow> string \<Rightarrow> string \<Rightarrow> ListSyncState \<Rightarrow> TaskMetadata \<Rightarrow> 'w ClaimRenewal
     \<Rightarrow> ('w, WorkerError, bool) io" where
  "reconcile_committed_forward wk skh list st meta renewal =
     (if \<not> repairable wk st meta then ret False
      else
        let forward_key = fwd_key (wk_key_prefix wk) skh list (ls_version st);
            skey = state_key (wk_key_prefix wk) skh list
        in bind (scard wk forward_key) (\<lambda>cardinality.
           if ls_cardinality st \<noteq> Some cardinality then ret False
           else
             seq (ensure_current_version_persisted wk skh list st)
            (seq (redis_op (seq (pipe (wk_pool wk) False (repair_marks wk skh skey)) (ret ())))
            (bind (redis_op (dict_get_or_allocate_token wk skh list)) (\<lambda>token.
             seq (clear_reverse_token wk skh token renewal)
            (seq (fanout_scan wk skh forward_key token True cardinality renewal)
            (seq (renew_now renewal)
            (seq (hdel wk skey [''__reverse_index_disabled'', ''reconcile_required'']) (ret True)))))))))"

subsection \<open>Starting or resuming\<close>

definition initialize_load :: "'w IdListSyncWorker \<Rightarrow> string \<Rightarrow> string \<Rightarrow> ('w, WorkerError, u64) io" where
  "initialize_load wk skey version =
     redis_op (seq (pipe (wk_pool wk) False
       [HSET skey [(''loading_version'', version), (''loading_size'', ''0'')],
        HDEL skey [''diff_partition'', ''loading_cardinality'', ''removal_fanout_complete'']]) (ret 0))"

definition pending_cardinality :: "ListSyncState \<Rightarrow> u64" where
  "pending_cardinality st = unwrap_or (unwrap_or 0 (ls_loading_size st)) (ls_loading_cardinality st)"

text \<open>Is a set with members expected but not there?\<close>

definition missing :: "'w IdListSyncWorker \<Rightarrow> bool \<Rightarrow> string \<Rightarrow> ('w, WorkerError, bool) io" where
  "missing wk expected key = (if expected then bind (key_exists wk key) (\<lambda>found. ret (\<not> found)) else ret False)"

text \<open>Whether the reverse index has to be rebuilt, and whether the load in progress is resumed.\<close>

definition check_reload ::
  "'w IdListSyncWorker \<Rightarrow> string \<Rightarrow> string \<Rightarrow> ListSyncState \<Rightarrow> string \<Rightarrow> ('w, WorkerError, bool \<times> bool) io" where
  "check_reload wk skh list st new_version =
     (let matching_load = (ls_loading_version st = Some new_version)
      in bind (missing wk (ls_version st \<noteq> [] \<and> 0 < state_cardinality st)
                 (fwd_key (wk_key_prefix wk) skh list (ls_version st))) (\<lambda>old_missing.
         bind (missing wk (matching_load \<and> 0 < pending_cardinality st)
                 (fwd_key (wk_key_prefix wk) skh list new_version)) (\<lambda>pending_missing.
         ret (ls_reconcile_required st
                \<or> (wc_enable_reverse_index (wk_config wk) \<and> ls_reverse_index_disabled st)
                \<or> old_missing \<or> pending_missing \<or> (ls_loading_version st \<noteq> None \<and> \<not> matching_load),
              matching_load \<and> \<not> pending_missing))))"

definition require_reconcile :: "'w IdListSyncWorker \<Rightarrow> string \<Rightarrow> ('w, WorkerError, unit) io" where
  "require_reconcile wk skey = hset wk skey [(''reconcile_required'', ''1'')]"

definition register_reload :: "'w IdListSyncWorker \<Rightarrow> string \<Rightarrow> string \<Rightarrow> bool \<Rightarrow> ('w, WorkerError, unit) io" where
  "register_reload wk skh list reconcile =
     seq (send wk (SADD (all_lists_key (wk_key_prefix wk) skh) list))
       (when_io reconcile
          (seq (send wk (DEL (ready_key (wk_key_prefix wk) skh)))
             (require_reconcile wk (state_key (wk_key_prefix wk) skh list))))"

definition start_load ::
  "'w IdListSyncWorker \<Rightarrow> string \<Rightarrow> string \<Rightarrow> ListSyncState \<Rightarrow> string \<Rightarrow> bool \<Rightarrow> ('w, WorkerError, u64) io" where
  "start_load wk skh list st new_version resume =
     (if resume then ret (unwrap_or 0 (ls_loading_size st))
      else
        seq (send wk (DEL (fwd_key (wk_key_prefix wk) skh list new_version)))
       (seq (initialize_load wk (state_key (wk_key_prefix wk) skh list) new_version) (ret 0)))"

subsection \<open>The download\<close>

definition download_load ::
  "'w IdListSyncWorker \<Rightarrow> string \<Rightarrow> string \<Rightarrow> TaskMetadata \<Rightarrow> u64 \<Rightarrow> u32 option \<Rightarrow> 'w ClaimRenewal
     \<Rightarrow> ('w, WorkerError, u64 \<times> u32) io" where
  "download_load wk skh list meta loading_size partition_opt renewal =
     (let skey = state_key (wk_key_prefix wk) skh list;
          new_key = fwd_key (wk_key_prefix wk) skh list (task_version_tag meta)
      in case partition_opt of
           Some p \<Rightarrow> ret (loading_size, p)
         | None \<Rightarrow>
             bind (if loading_size < tm_size meta then
                     bind (apply_file_stream wk skh (tm_url meta) loading_size (tm_size meta)
                             (LoadMode new_key skey) renewal) (\<lambda>applied.
                       if sa_checkpoint applied < tm_size meta
                       then fail (InvalidFile (short_download ''full download'' applied (tm_size meta)))
                       else ret (sa_checkpoint applied))
                   else ret loading_size) (\<lambda>loaded.
             seq (hset wk skey [(''diff_partition'', ''0'')]) (ret (loaded, 0))))"

subsection \<open>The reverse index\<close>

definition old_version_of :: "ListSyncState \<Rightarrow> string \<Rightarrow> string option" where
  "old_version_of st new_version =
     (if ls_version st \<noteq> [] \<and> ls_version st \<noteq> new_version then Some (ls_version st) else None)"

definition verify_pending ::
  "'w IdListSyncWorker \<Rightarrow> string \<Rightarrow> u64 \<Rightarrow> ('w, WorkerError, unit) io" where
  "verify_pending wk skey new_card =
     bind (hget_u64 wk skey ''loading_cardinality'') (\<lambda>expected.
       if expected \<noteq> None \<and> expected \<noteq> Some new_card
       then fail (ScanVerification ''pending forward set changed after download'') else ret ())"

definition move_reverse ::
  "'w IdListSyncWorker \<Rightarrow> (string set \<Rightarrow> string list) \<Rightarrow> string \<Rightarrow> string \<Rightarrow> ListSyncState \<Rightarrow> string \<Rightarrow> u64 \<Rightarrow> bool
     \<Rightarrow> u32 \<Rightarrow> 'w ClaimRenewal \<Rightarrow> ('w, WorkerError, unit) io" where
  "move_reverse wk iterate skh list st new_version token reconcile part renewal =
     (let skey = state_key (wk_key_prefix wk) skh list;
          new_key = fwd_key (wk_key_prefix wk) skh list new_version;
          old_key = map_option (fwd_key (wk_key_prefix wk) skh list) (old_version_of st new_version)
      in bind (case old_key of Some key \<Rightarrow> scard wk key | None \<Rightarrow> ret 0) (\<lambda>old_card.
         bind (scard wk new_key) (\<lambda>new_card.
         seq (verify_pending wk skey new_card)
        (let lost = (old_key \<noteq> None \<and> 0 < state_cardinality st \<and> old_card = 0)
         in seq (when_io lost
                   (seq (require_reconcile wk skey) (send wk (DEL (ready_key (wk_key_prefix wk) skh)))))
           (if wc_enable_reverse_index (wk_config wk) \<and> (reconcile \<or> lost)
            then seq (clear_reverse_token wk skh token renewal)
                     (fanout_scan wk skh new_key token True new_card renewal)
            else when_io (wc_enable_reverse_index (wk_config wk))
                   (apply_streamed_diff wk iterate skh old_key new_key token skey (ucast part) old_card new_card renewal))))))"

subsection \<open>The switch-over\<close>

definition commit_commands ::
  "'w IdListSyncWorker \<Rightarrow> string \<Rightarrow> string \<Rightarrow> TaskMetadata \<Rightarrow> u64 \<Rightarrow> redis_cmd list" where
  "commit_commands wk skh list meta cardinality =
     [HSET (state_key (wk_key_prefix wk) skh list)
        [(''version'', task_version_tag meta), (''file_id'', tm_file_id meta), (''url'', tm_url meta),
         (''creation_time'', show_u64 (tm_creation_time meta)), (''size'', show_u64 (tm_size meta)),
         (''cardinality'', show_u64 cardinality)],
      HDEL (state_key (wk_key_prefix wk) skh list)
        [''loading_version'', ''loading_size'', ''reconcile_required'', ''diff_partition'', ''loading_cardinality'',
         ''removal_fanout_complete''],
      SADD (all_lists_key (wk_key_prefix wk) skh) list]"

definition commit_reload ::
  "'w IdListSyncWorker \<Rightarrow> string \<Rightarrow> string \<Rightarrow> string option \<Rightarrow> TaskMetadata \<Rightarrow> ('w, WorkerError, unit) io" where
  "commit_reload wk skh list old_key meta =
     (let new_key = fwd_key (wk_key_prefix wk) skh list (task_version_tag meta);
          skey = state_key (wk_key_prefix wk) skh list
      in bind (scard wk new_key) (\<lambda>cardinality.
         seq (redis_op (seq (pipe (wk_pool wk) False (commit_commands wk skh list meta cardinality)) (ret ())))
        (seq (when_io (wc_enable_reverse_index (wk_config wk)) (hdel wk skey [''__reverse_index_disabled'']))
        (seq (redis_op (bind (command (wk_pool wk) (PERSIST new_key)) as_bool))
             (case old_key of
                None \<Rightarrow> ret ()
              | Some old \<Rightarrow> when_io (old \<noteq> new_key)
                  (seq (redis_op (bind (command (wk_pool wk) (expire_cmd old (wc_old_version_ttl_s (wk_config wk)))) as_bool))
                       (ret ())))))))"

definition apply_full_reload ::
  "'w IdListSyncWorker \<Rightarrow> (string set \<Rightarrow> string list) \<Rightarrow> string \<Rightarrow> string \<Rightarrow> ListSyncState \<Rightarrow> TaskMetadata
     \<Rightarrow> 'w ClaimRenewal \<Rightarrow> ('w, WorkerError, unit) io" where
  "apply_full_reload wk iterate skh list st meta renewal =
     bind (reconcile_committed_forward wk skh list st meta renewal) (\<lambda>repaired.
     if repaired then ret ()
     else
       let new_version = task_version_tag meta
       in bind (check_reload wk skh list st new_version) (\<lambda>(reconcile, resume).
          seq (register_reload wk skh list reconcile)
         (bind (start_load wk skh list st new_version resume) (\<lambda>loading_size.
          bind (redis_op (dict_get_or_allocate_token wk skh list)) (\<lambda>token.
          bind (download_load wk skh list meta loading_size (if resume then ls_diff_partition st else None) renewal)
            (\<lambda>(loaded, part).
          seq (move_reverse wk iterate skh list st new_version token reconcile part renewal)
         (seq (renew_now renewal)
              (commit_reload wk skh list (map_option (fwd_key (wk_key_prefix wk) skh list) (old_version_of st new_version))
                 (meta\<lparr>tm_size := loaded\<rparr>)))))))))"


section \<open>States from which a list can be loaded\<close>

text \<open>The members of the file, all lines applied.\<close>

definition file_members :: "DecodedLine list \<Rightarrow> string set" where
  "file_members ds = contents ds (length ds)"

lemma finite_replay: "finite s \<Longrightarrow> finite (replay cs s)"
  by (induction cs arbitrary: s) (simp_all add: put_member_def)

lemma finite_file_members [simp]: "finite (file_members ds)"
  by (simp add: file_members_def contents_def finite_replay)

definition members_at :: "list_view \<Rightarrow> string \<Rightarrow> string set" where
  "members_at lv v = (case lv_fwd lv v of None \<Rightarrow> {} | Some F \<Rightarrow> F)"

text \<open>The set that the reverse index is moved away from.\<close>

definition old_members :: "string \<Rightarrow> ListSyncState \<Rightarrow> list_view \<Rightarrow> string set" where
  "old_members nv st lv = (case old_version_of st nv of None \<Rightarrow> {} | Some v \<Rightarrow> members_at lv v)"

definition diff_class :: "'w IdListSyncWorker \<Rightarrow> string set \<Rightarrow> string set \<Rightarrow> string \<Rightarrow> nat" where
  "diff_class wk Old New = member_class wk (partition_count wk (of_nat (card Old)) (of_nat (card New)))"

text \<open>The set of the load in progress was lost.\<close>

definition pending_lost :: "string \<Rightarrow> ListSyncState \<Rightarrow> list_view \<Rightarrow> bool" where
  "pending_lost nv st lv \<longleftrightarrow>
     ls_loading_version st = Some nv \<and> 0 < pending_cardinality st \<and> members_at lv nv = {}"

text \<open>What the worker takes as a reason to rebuild the reverse index.\<close>

definition suspect :: "bool \<Rightarrow> string \<Rightarrow> ListSyncState \<Rightarrow> list_view \<Rightarrow> bool" where
  "suspect rv nv st lv \<longleftrightarrow>
     ls_reconcile_required st \<or> rv \<and> ls_reverse_index_disabled st
     \<or> (ls_version st \<noteq> [] \<and> 0 < state_cardinality st \<and> members_at lv (ls_version st) = {})
     \<or> pending_lost nv st lv \<or> (ls_loading_version st \<noteq> None \<and> ls_loading_version st \<noteq> Some nv)"

text \<open>
  A load in progress for this version has a checkpoint up to which the file is applied, unless its
  set was lost, and moves the reverse index only once the file is complete. A cursor that was left
  by another load comes with a number of members, so that it is not taken for one of this load.
\<close>

definition load_ok :: "DecodedLine list \<Rightarrow> string \<Rightarrow> ListSyncState \<Rightarrow> list_view \<Rightarrow> bool" where
  "load_ok ds nv st lv \<longleftrightarrow>
     (ls_loading_version st = Some nv \<longrightarrow> pending_lost nv st lv \<or>
        (\<exists>i \<le> length ds. unwrap_or 0 (ls_loading_size st) = off_at ds i \<and> applied ds nv False i lv
           \<and> (0 < i \<longrightarrow> ls_loading_cardinality st \<noteq> None) \<and> (ls_diff_partition st \<noteq> None \<longrightarrow> i = length ds)))
     \<and> (ls_diff_partition st \<noteq> None \<longrightarrow>
          0 < unwrap_or 0 (ls_loading_cardinality st) \<or> ls_loading_version st = Some nv \<and> pending_cardinality st = 0)"

text \<open>A committed version of this file at its full size has its members, or its set was lost.\<close>

definition committed_ok :: "DecodedLine list \<Rightarrow> string \<Rightarrow> string \<Rightarrow> ListSyncState \<Rightarrow> list_view \<Rightarrow> bool" where
  "committed_ok ds fid nv st lv \<longleftrightarrow>
     (ls_version st \<noteq> [] \<and> ls_file_id st = fid \<and> ls_size st = off_at ds (length ds) \<longrightarrow>
        (ls_version st \<noteq> nv \<or> ls_loading_version st = None \<longrightarrow> members_at lv (ls_version st) \<in> {{}, file_members ds})
        \<and> (\<forall>c. ls_cardinality st = Some c \<longrightarrow> unat c = card (file_members ds)))"

text \<open>
  The reverse index is somewhere between the old members and those of the file, at the partition
  that the state says, unless the state shows that it is not to be trusted.
\<close>

definition resume_partition :: "string \<Rightarrow> ListSyncState \<Rightarrow> list_view \<Rightarrow> nat" where
  "resume_partition nv st lv =
     (if ls_loading_version st = Some nv \<and> \<not> pending_lost nv st lv then unat (unwrap_or 0 (ls_diff_partition st)) else 0)"

definition reload_rev :: "'w IdListSyncWorker \<Rightarrow> DecodedLine list \<Rightarrow> string \<Rightarrow> ListSyncState \<Rightarrow> nat \<Rightarrow> list_view \<Rightarrow> bool" where
  "reload_rev wk ds nv st p lv \<longleftrightarrow>
     diff_rev (diff_class wk (old_members nv st lv) (file_members ds)) (old_members nv st lv) (file_members ds) p lv"

definition list_ok :: "list_id \<Rightarrow> list_view \<Rightarrow> bool" where
  "list_ok li lv \<longleftrightarrow> rev_typed lv \<and> fwd_typed lv \<and> lv_name lv = Some (Some (show_u64 (li_token li)))"

definition ready_st ::
  "'w IdListSyncWorker \<Rightarrow> DecodedLine list \<Rightarrow> string \<Rightarrow> string \<Rightarrow> ListSyncState \<Rightarrow> list_view \<Rightarrow> bool" where
  "ready_st wk ds fid nv st lv \<longleftrightarrow>
     load_ok ds nv st lv \<and> committed_ok ds fid nv st lv
     \<and> (wc_enable_reverse_index (wk_config wk) \<longrightarrow>
          suspect True nv st lv \<or> reload_rev wk ds nv st (resume_partition nv st lv) lv)"

definition reload_ready ::
  "'w IdListSyncWorker \<Rightarrow> list_id \<Rightarrow> DecodedLine list \<Rightarrow> string \<Rightarrow> string \<Rightarrow> list_view \<Rightarrow> bool" where
  "reload_ready wk li ds fid nv lv \<longleftrightarrow>
     list_ok li lv \<and> (\<exists>h. lv_state lv = Some h \<and> ready_st wk ds fid nv (from_hash_fields h) lv)"

text \<open>The file is published: the forward set and the reverse index have exactly its members.\<close>

definition reload_done ::
  "bool \<Rightarrow> DecodedLine list \<Rightarrow> string \<Rightarrow> list_view \<Rightarrow> bool" where
  "reload_done rv ds fid lv \<longleftrightarrow>
     (\<exists>h. lv_state lv = Some h \<and>
        (let st = from_hash_fields h in
           ls_version st \<noteq> [] \<and> ls_file_id st = fid \<and> ls_size st = off_at ds (length ds)
           \<and> ls_loading_version st = None \<and> \<not> ls_reconcile_required st
           \<and> map_option unat (ls_cardinality st) = Some (card (file_members ds))
           \<and> lv_fwd lv (ls_version st) = Some (file_members ds) \<and> lv_ttl lv (ls_version st) = None
           \<and> (rv \<longrightarrow> \<not> ls_reverse_index_disabled st \<and> rev_members lv = file_members ds)))"


subsection \<open>What the conditions depend on\<close>

text \<open>The conditions on a state look at the sets and the reverse index only.\<close>

lemma ready_st_cong:
  assumes "lv_fwd lv' = lv_fwd lv" and "lv_rev lv' = lv_rev lv"
  shows "ready_st wk ds fid nv st lv' = ready_st wk ds fid nv st lv"
    "members_at lv' = members_at lv" "reload_rev wk ds nv st p lv' = reload_rev wk ds nv st p lv"
    "committed_ok ds fid nv st lv' = committed_ok ds fid nv st lv"
    "applied ds nv False i lv' = applied ds nv False i lv" "rev_members lv' = rev_members lv"
    "rev_typed lv' = rev_typed lv" "fwd_typed lv' = fwd_typed lv"
  using assms
  by (simp_all add: ready_st_def load_ok_def committed_ok_def suspect_def pending_lost_def members_at_def
      reload_rev_def old_members_def diff_rev_def rev_typed_def applied_def resume_partition_def rev_members_def
      fwd_typed_def fun_eq_iff cong: option.case_cong)

lemma members_at_typed: "fwd_typed lv \<Longrightarrow> lv_fwd lv v = Some (members_at lv v)"
  unfolding fwd_typed_def members_at_def by (metis option.simps(5))

lemma members_at_finite: "fwd_typed lv \<Longrightarrow> finite (members_at lv v)"
  unfolding fwd_typed_def members_at_def by (metis option.simps(5))

lemma list_ok_cong:
  assumes "lv_fwd lv' = lv_fwd lv" and "lv_rev lv' = lv_rev lv" and "lv_name lv' = lv_name lv"
  shows "list_ok li lv' = list_ok li lv"
  using assms by (simp add: list_ok_def rev_typed_def fwd_typed_def)

lemma set_state_simps [simp]:
  "lv_fwd (set_state h lv) = lv_fwd lv" "lv_rev (set_state h lv) = lv_rev lv" "lv_ttl (set_state h lv) = lv_ttl lv"
  "lv_name (set_state h lv) = lv_name lv" "lv_state (set_state h lv) = Some h"
  by (simp_all add: set_state_def)

lemma set_state_same [simp]:
  "members_at (set_state h lv) = members_at lv" "list_ok li (set_state h lv) = list_ok li lv"
  "ready_st wk ds fid nv st (set_state h lv) = ready_st wk ds fid nv st lv"
  "reload_rev wk ds nv st p (set_state h lv) = reload_rev wk ds nv st p lv"
  "committed_ok ds fid nv st (set_state h lv) = committed_ok ds fid nv st lv"
  "applied ds nv False i (set_state h lv) = applied ds nv False i lv"
  "rev_members (set_state h lv) = rev_members lv"
  using ready_st_cong [of "set_state h lv" lv] list_ok_cong [of "set_state h lv" lv] by simp_all

lemma ttl_same [simp]:
  "members_at (lv\<lparr>lv_ttl := t\<rparr>) = members_at lv" "list_ok li (lv\<lparr>lv_ttl := t\<rparr>) = list_ok li lv"
  "ready_st wk ds fid nv st (lv\<lparr>lv_ttl := t\<rparr>) = ready_st wk ds fid nv st lv"
  "committed_ok ds fid nv st (lv\<lparr>lv_ttl := t\<rparr>) = committed_ok ds fid nv st lv"
  "rev_members (lv\<lparr>lv_ttl := t\<rparr>) = rev_members lv"
  using ready_st_cong [of "lv\<lparr>lv_ttl := t\<rparr>" lv] list_ok_cong [of "lv\<lparr>lv_ttl := t\<rparr>" lv] by simp_all

lemma list_ok_rev [simp]: "list_ok li (set_rev m b lv) = list_ok li lv"
proof -
  have "rev_typed (set_rev m b lv) = rev_typed lv" by (simp add: set_rev_put)
  then show ?thesis by (simp add: list_ok_def fwd_typed_def set_rev_def)
qed

lemma set_rev_simps [simp]:
  "lv_state (set_rev m b lv) = lv_state lv" "lv_fwd (set_rev m b lv) = lv_fwd lv" "lv_ttl (set_rev m b lv) = lv_ttl lv"
  by (simp_all add: set_rev_def)

lemma members_at_rev [simp]: "members_at (set_rev m b lv) = members_at lv"
  by (simp add: members_at_def set_rev_def fun_eq_iff)

lemma committed_ok_rev [simp]: "committed_ok ds fid nv st (set_rev m b lv) = committed_ok ds fid nv st lv"
  by (simp add: committed_ok_def)

lemma applied_rev [simp]: "applied ds nv False i (set_rev m b lv) = applied ds nv False i lv"
  by (simp add: applied_def set_rev_def)

lemma old_members_same: "ls_version s = ls_version st \<Longrightarrow> old_members nv s lv = old_members nv st lv"
  by (simp add: old_members_def old_version_of_def)

lemma reload_rev_same: "ls_version s = ls_version st \<Longrightarrow> reload_rev wk ds nv s p lv = reload_rev wk ds nv st p lv"
  unfolding reload_rev_def using old_members_same [of s st nv lv] by simp

text \<open>An index that has the new members is at every partition.\<close>

lemma diff_rev_done: "rev_typed lv \<Longrightarrow> rev_members lv = New \<Longrightarrow> diff_rev cls Old New p lv"
proof -
  assume t: "rev_typed lv" and r: "rev_members lv = New"
  have "lv_rev lv m = Some (m \<in> New)" for m
  proof -
    obtain b where "lv_rev lv m = Some b" using t unfolding rev_typed_def by blast
    then show ?thesis using r by (cases b) (auto simp: rev_members_def)
  qed
  then show ?thesis using t by (simp add: diff_rev_def)
qed

lemma reload_rev_done: "rev_typed lv \<Longrightarrow> rev_members lv = file_members ds \<Longrightarrow> reload_rev wk ds nv st p lv"
  by (simp add: reload_rev_def diff_rev_done)

lemma applied_file: "applied ds nv False (length ds) lv \<longleftrightarrow> lv_fwd lv nv = Some (file_members ds)"
  by (auto simp: applied_def file_members_def)

section \<open>Requests on the state\<close>

definition del_fields :: "string list \<Rightarrow> redis_hash \<Rightarrow> redis_hash" where
  "del_fields fs h = (\<lambda>f. if f \<in> set fs then None else h f)"

definition act_state :: "(redis_hash \<Rightarrow> redis_hash) \<Rightarrow> list_view \<Rightarrow> list_view" where
  "act_state g lv = (case lv_state lv of None \<Rightarrow> lv | Some h \<Rightarrow> set_state (g h) lv)"

lemma act_state_some: "lv_state lv = Some h \<Longrightarrow> act_state g lv = set_state (g h) lv"
  by (simp add: act_state_def)

lemma view_hset_act:
  assumes "namespace_ok (li_skh li)"
    and "step_ok sc (HSET (state_key (li_prefix li) (li_skh li) (li_list li)) fvs) ks r ks'"
  shows "list_view_of li ks' = act_state (put_fields fvs) (list_view_of li ks)"
  using view_hset_state [OF assms] by (auto simp: act_state_def)

lemma view_hdel_act:
  assumes ns: "namespace_ok (li_skh li)"
    and "step_ok sc (HDEL (state_key (li_prefix li) (li_skh li) (li_list li)) fs) ks r ks'"
  shows "list_view_of li ks' = act_state (del_fields fs) (list_view_of li ks)"
proof -
  let ?k = "state_key (li_prefix li) (li_skh li) (li_list li)"
  obtain h where h: "hash_at ks ?k = Some h" "ks' = put_hash ?k (foldl (\<lambda>h f. h(f := None)) h fs) ks"
    using assms(2) by (auto simp: step_ok_determined on_hash_def split: option.splits)
  have "list_view_of li ks' = set_state (del_fields fs h) (list_view_of li ks)"
    unfolding h(2) using ns h(1)
    by (intro list_view_eqI ext)
      (auto simp: list_view_of_def set_state_def key_simps list_keys hdel_clears del_fields_def)
  then show ?thesis using h(1) by (simp add: act_state_def list_view_of_def)
qed

lemma hdel_ok:
  assumes conf: "redis_conforms sc (list_rely li) (wk_pool wk) view" and ns: "namespace_ok (li_skh li)"
    and PE: "\<And>lv. P lv \<Longrightarrow> E lv" and act: "\<And>lv. P lv \<Longrightarrow> E (act_state (del_fields fs) lv)"
  shows "vio_ok li view P (hdel wk (state_key (li_prefix li) (li_skh li) (li_list li)) fs)
    (\<lambda>_ lv. \<exists>lv0. P lv0 \<and> lv = act_state (del_fields fs) lv0) E"
  unfolding hdel_def
proof (intro redis_op_ok io_ok_seq)
  let ?c = "HDEL (state_key (li_prefix li) (li_skh li) (li_list li)) fs"
  let ?Q = "\<lambda>lv. \<exists>lv0. P lv0 \<and> lv = act_state (del_fields fs) lv0"
  show "vio_ok li view P (command (wk_pool wk) ?c) (\<lambda>_. ?Q) E"
  proof (rule view_call_ok [OF conf])
    fix ks r ks' assume P: "P (list_view_of li ks)" and "call ?c ks = (Inr r, ks')"
    then have "step_ok sc ?c ks r ks'" by (simp add: step_ok_determined)
    from view_hdel_act [OF ns this] show "?Q (list_view_of li ks') \<and> E (list_view_of li ks')" using P act by auto
  qed (use PE in simp_all)
  show "vio_ok li view ?Q (ret ()) (\<lambda>_. ?Q) E" by (rule io_ok_ret)
qed

text \<open>A command on a key that is not the list's.\<close>

lemma send_other_ok:
  assumes conf: "redis_conforms sc (list_rely li) (wk_pool wk) view" and det: "determined c"
    and frame: "\<And>ks r ks'. call c ks = (Inr r, ks') \<Longrightarrow> list_view_of li ks' = list_view_of li ks"
    and PE: "\<And>lv. P lv \<Longrightarrow> E lv"
  shows "vio_ok li view P (send wk c) (\<lambda>_. P) E"
  unfolding send_def
proof (intro redis_op_ok io_ok_seq)
  show "vio_ok li view P (command (wk_pool wk) c) (\<lambda>_. P) E"
    by (rule view_call_ok [OF conf det]) (use frame PE in auto)
  show "vio_ok li view P (ret ()) (\<lambda>_. P) E" by (rule io_ok_ret)
qed

lemma other_frames:
  assumes "namespace_ok (li_skh li)"
  shows "call (SADD (all_lists_key (li_prefix li) (li_skh li)) m) ks = (Inr r, ks') \<Longrightarrow> list_view_of li ks' = list_view_of li ks"
    "call (DEL (ready_key (li_prefix li) (li_skh li))) ks = (Inr r, ks') \<Longrightarrow> list_view_of li ks' = list_view_of li ks"
  by (rule view_other_key [OF not_owned(2) [OF assms]], auto simp: on_set_def key_simps split: option.splits)
    (rule view_other_key [OF not_owned(3) [OF assms]], auto)


section \<open>Starting or resuming\<close>

lemma missing_ok:
  assumes conf: "redis_conforms sc (list_rely li) (wk_pool wk) view"
    and typed: "\<And>lv. P lv \<Longrightarrow> fwd_typed lv" and PE: "\<And>lv. P lv \<Longrightarrow> E lv"
  shows "vio_ok li view P (missing wk b (fwd_key (li_prefix li) (li_skh li) (li_list li) v))
    (\<lambda>r lv. P lv \<and> (r \<longleftrightarrow> b \<and> members_at lv v = {})) E"
  unfolding missing_def
proof (rule io_ok_if, rule io_ok_bind)
  show "vio_ok li view P (key_exists wk (fwd_key (li_prefix li) (li_skh li) (li_list li) v))
      (\<lambda>f lv. P lv \<and> (\<forall>s. lv_fwd lv v = Some s \<longrightarrow> f = (s \<noteq> {}))) E"
    using conf PE by (rule key_exists_ok)
  show "vio_ok li view (\<lambda>lv. P lv \<and> (\<forall>s. lv_fwd lv v = Some s \<longrightarrow> f = (s \<noteq> {}))) (ret (\<not> f))
      (\<lambda>r lv. P lv \<and> (r \<longleftrightarrow> b \<and> members_at lv v = {})) E" if b for f
    by (rule io_ok_ret) (use that members_at_typed typed in auto)
qed (auto intro!: io_ok_ret)

lemma check_reload_ok:
  assumes conf: "redis_conforms sc (list_rely li) (wk_pool wk) view" and pre: "wk_key_prefix wk = li_prefix li"
    and typed: "\<And>lv. P lv \<Longrightarrow> fwd_typed lv" and PE: "\<And>lv. P lv \<Longrightarrow> E lv"
  shows "vio_ok li view P (check_reload wk (li_skh li) (li_list li) st nv)
    (\<lambda>r lv. P lv \<and> (fst r \<longleftrightarrow> suspect (wc_enable_reverse_index (wk_config wk)) nv st lv)
       \<and> (snd r \<longleftrightarrow> ls_loading_version st = Some nv \<and> \<not> pending_lost nv st lv)) E"
  unfolding check_reload_def Let_def pre
proof (intro io_ok_bind)
  let ?om = "ls_version st \<noteq> [] \<and> 0 < state_cardinality st"
  let ?pm = "ls_loading_version st = Some nv \<and> 0 < pending_cardinality st"
  let ?A = "\<lambda>a lv. P lv \<and> (a \<longleftrightarrow> ?om \<and> members_at lv (ls_version st) = {})"
  let ?B = "\<lambda>a b lv. ?A a lv \<and> (b \<longleftrightarrow> ?pm \<and> members_at lv nv = {})"
  show "vio_ok li view P (missing wk ?om (fwd_key (li_prefix li) (li_skh li) (li_list li) (ls_version st))) ?A E"
    using conf typed PE by (rule missing_ok)
  show "vio_ok li view (?A a) (missing wk ?pm (fwd_key (li_prefix li) (li_skh li) (li_list li) nv)) (?B a) E" for a
    by (rule missing_ok [OF conf]) (use typed PE in auto)
  show "vio_ok li view (?B a b) (ret (ls_reconcile_required st
                \<or> (wc_enable_reverse_index (wk_config wk) \<and> ls_reverse_index_disabled st)
                \<or> a \<or> b \<or> (ls_loading_version st \<noteq> None \<and> ls_loading_version st \<noteq> Some nv),
              ls_loading_version st = Some nv \<and> \<not> b))
    (\<lambda>r lv. P lv \<and> (fst r \<longleftrightarrow> suspect (wc_enable_reverse_index (wk_config wk)) nv st lv)
       \<and> (snd r \<longleftrightarrow> ls_loading_version st = Some nv \<and> \<not> pending_lost nv st lv)) E" for a b
    by (rule io_ok_ret) (auto simp: suspect_def pending_lost_def)
qed

text \<open>The state as it was read, with the decision of the check recorded in it.\<close>

definition marked ::
  "'w IdListSyncWorker \<Rightarrow> list_id \<Rightarrow> DecodedLine list \<Rightarrow> string \<Rightarrow> string \<Rightarrow> ListSyncState \<Rightarrow> bool \<Rightarrow> bool
     \<Rightarrow> list_view \<Rightarrow> bool" where
  "marked wk li ds fid nv st rec resume lv \<longleftrightarrow>
     list_ok li lv \<and> ready_st wk ds fid nv st lv
     \<and> (\<exists>h. lv_state lv = Some h \<and> from_hash_fields h = (if rec then st\<lparr>ls_reconcile_required := True\<rparr> else st))
     \<and> (rec \<longleftrightarrow> suspect (wc_enable_reverse_index (wk_config wk)) nv st lv)
     \<and> (resume \<longleftrightarrow> ls_loading_version st = Some nv \<and> \<not> pending_lost nv st lv)"

lemma ready_reconcile: "ready_st wk ds fid nv st lv \<Longrightarrow> ready_st wk ds fid nv (st\<lparr>ls_reconcile_required := True\<rparr>) lv"
  by (simp add: ready_st_def load_ok_def committed_ok_def suspect_def pending_lost_def pending_cardinality_def)

lemma marked_ready: "marked wk li ds fid nv st rec resume lv \<Longrightarrow> reload_ready wk li ds fid nv lv"
  unfolding marked_def reload_ready_def using ready_reconcile by (metis (full_types))

lemma from_hash_reconcile:
  "from_hash_fields (put_fields [(''reconcile_required'', ''1'')] h)
     = (from_hash_fields h)\<lparr>ls_reconcile_required := True\<rparr>"
  by (simp add: from_hash_fields_def put_fields_def)

lemma require_reconcile_ok:
  assumes conf: "redis_conforms sc (list_rely li) (wk_pool wk) view" and ns: "namespace_ok (li_skh li)"
    and PE: "\<And>lv. P lv \<Longrightarrow> E lv"
    and put: "\<And>lv h. P lv \<Longrightarrow> lv_state lv = Some h \<Longrightarrow> Q (set_state (put_fields [(''reconcile_required'', ''1'')] h) lv)"
    and QE: "\<And>lv. Q lv \<Longrightarrow> E lv"
  shows "vio_ok li view P (require_reconcile wk (state_key (li_prefix li) (li_skh li) (li_list li))) (\<lambda>_. Q) E"
  unfolding require_reconcile_def
  by (rule io_ok_cons [OF hset_state_ok [OF conf ns, where P = P and E = E]]) (use PE put QE in auto)

lemma register_reload_ok:
  fixes wk :: "'w IdListSyncWorker"
  assumes conf: "redis_conforms sc (list_rely li) (wk_pool wk) view" and ns: "namespace_ok (li_skh li)"
    and pre: "wk_key_prefix wk = li_prefix li"
  shows "vio_ok li view
    (\<lambda>lv. list_ok li lv \<and> ready_st wk ds fid nv st lv \<and> (\<exists>h. lv_state lv = Some h \<and> from_hash_fields h = st)
       \<and> (rec \<longleftrightarrow> suspect (wc_enable_reverse_index (wk_config wk)) nv st lv)
       \<and> (resume \<longleftrightarrow> ls_loading_version st = Some nv \<and> \<not> pending_lost nv st lv))
    (register_reload wk (li_skh li) (li_list li) rec)
    (\<lambda>_. marked wk li ds fid nv st rec resume) (reload_ready wk li ds fid nv)"
    (is "vio_ok li view ?P _ _ ?E")
  unfolding register_reload_def pre
proof (rule io_ok_seq)
  have PE: "?E lv" if "?P lv" for lv using that by (auto simp: reload_ready_def)
  have ME: "?E lv" if "marked wk li ds fid nv st rec resume lv" for lv using that by (rule marked_ready)
  have sus: "suspect b nv st (set_state h lv) = suspect b nv st lv" "pending_lost nv st (set_state h lv) = pending_lost nv st lv"
    for b h lv by (simp_all add: suspect_def pending_lost_def)
  show "vio_ok li view ?P (send wk (SADD (all_lists_key (li_prefix li) (li_skh li)) (li_list li))) (\<lambda>_. ?P) ?E"
    by (rule send_other_ok [OF conf]) (use other_frames [OF ns] PE in auto)
  show "vio_ok li view ?P (when_io rec (seq (send wk (DEL (ready_key (li_prefix li) (li_skh li))))
      (require_reconcile wk (state_key (li_prefix li) (li_skh li) (li_list li)))))
      (\<lambda>_. marked wk li ds fid nv st rec resume) ?E"
  proof (rule io_ok_when, rule io_ok_seq)
    show "vio_ok li view ?P (send wk (DEL (ready_key (li_prefix li) (li_skh li)))) (\<lambda>_. ?P) ?E"
      by (rule send_other_ok [OF conf]) (use other_frames [OF ns] PE in auto)
    show "vio_ok li view ?P (require_reconcile wk (state_key (li_prefix li) (li_skh li) (li_list li)))
        (\<lambda>_. marked wk li ds fid nv st rec resume) ?E" if rec
      by (rule require_reconcile_ok [OF conf ns PE _ ME])
        (use that in \<open>auto simp: marked_def sus from_hash_reconcile\<close>)
  qed (auto simp: marked_def)
qed


text \<open>
  A load of the version is in progress: the first \<open>i\<close> lines are applied and the cursor of the
  reverse index is \<open>d\<close>. With \<open>rec\<close> the index is to be rebuilt and nothing is known of it.
\<close>

definition loading_st ::
  "'w IdListSyncWorker \<Rightarrow> DecodedLine list \<Rightarrow> string \<Rightarrow> string \<Rightarrow> string \<Rightarrow> bool \<Rightarrow> u32 option \<Rightarrow> nat \<Rightarrow> ListSyncState
     \<Rightarrow> list_view \<Rightarrow> bool" where
  "loading_st wk ds fid nv v rec d i s lv \<longleftrightarrow>
     ls_version s = v \<and> ls_loading_version s = Some nv \<and> unwrap_or 0 (ls_loading_size s) = off_at ds i
     \<and> (0 < i \<longrightarrow> ls_loading_cardinality s \<noteq> None) \<and> ls_diff_partition s = d \<and> (d \<noteq> None \<longrightarrow> i = length ds)
     \<and> committed_ok ds fid nv s lv
     \<and> (if rec then ls_reconcile_required s
        else wc_enable_reverse_index (wk_config wk) \<longrightarrow> reload_rev wk ds nv s (unat (unwrap_or 0 d)) lv)"

definition loading ::
  "'w IdListSyncWorker \<Rightarrow> list_id \<Rightarrow> DecodedLine list \<Rightarrow> string \<Rightarrow> string \<Rightarrow> string \<Rightarrow> bool \<Rightarrow> u32 option \<Rightarrow> nat
     \<Rightarrow> list_view \<Rightarrow> bool" where
  "loading wk li ds fid nv v rec d i lv \<longleftrightarrow>
     list_ok li lv \<and> i \<le> length ds \<and> applied ds nv False i lv
     \<and> (\<exists>h. lv_state lv = Some h \<and> loading_st wk ds fid nv v rec d i (from_hash_fields h) lv)"

lemma off_at_0 [simp]: "off_at ds 0 = 0"
  by (simp add: off_at_def)

lemma pending_positive:
  assumes "unwrap_or 0 (ls_loading_size s) = off_at ds i" and "0 < i \<longrightarrow> ls_loading_cardinality s \<noteq> None"
    and "pending_cardinality s \<noteq> 0"
  shows "0 < unwrap_or 0 (ls_loading_cardinality s)"
  using assms by (cases "ls_loading_cardinality s") (auto simp: pending_cardinality_def unwrap_or_def word_neq_0_conv)

lemma loading_ready:
  assumes "loading wk li ds fid nv v rec d i lv"
  shows "reload_ready wk li ds fid nv lv"
proof -
  obtain h where h: "lv_state lv = Some h" "loading_st wk ds fid nv v rec d i (from_hash_fields h) lv"
    using assms by (auto simp: loading_def)
  let ?s = "from_hash_fields h"
  have l: "unwrap_or 0 (ls_loading_size ?s) = off_at ds i" "0 < i \<longrightarrow> ls_loading_cardinality ?s \<noteq> None"
    "ls_loading_version ?s = Some nv" "ls_diff_partition ?s \<noteq> None \<longrightarrow> i = length ds"
    using h(2) by (auto simp: loading_st_def)
  have load: "load_ok ds nv ?s lv"
    unfolding load_ok_def using assms l pending_positive [OF l(1,2)] by (auto simp: loading_def)
  have "wc_enable_reverse_index (wk_config wk) \<longrightarrow> suspect True nv ?s lv \<or> reload_rev wk ds nv ?s (resume_partition nv ?s lv) lv"
    using h(2) by (auto simp: loading_st_def suspect_def resume_partition_def split: if_splits)
  then show ?thesis
    using assms h load by (auto simp: reload_ready_def ready_st_def loading_def loading_st_def)
qed

lemma marked_resumes:
  assumes "marked wk li ds fid nv st rec True lv"
  shows "\<exists>i. unwrap_or 0 (ls_loading_size st) = off_at ds i
    \<and> loading wk li ds fid nv (ls_version st) rec (ls_diff_partition st) i lv"
proof -
  let ?rv = "wc_enable_reverse_index (wk_config wk)"
  obtain h where h: "lv_state lv = Some h" "from_hash_fields h = (if rec then st\<lparr>ls_reconcile_required := True\<rparr> else st)"
    using assms by (auto simp: marked_def)
  have r: "ls_loading_version st = Some nv" "\<not> pending_lost nv st lv" "ready_st wk ds fid nv st lv"
    "rec \<longleftrightarrow> suspect ?rv nv st lv" "list_ok li lv"
    using assms by (auto simp: marked_def)
  obtain i where i: "i \<le> length ds" "unwrap_or 0 (ls_loading_size st) = off_at ds i" "applied ds nv False i lv"
      "0 < i \<longrightarrow> ls_loading_cardinality st \<noteq> None" "ls_diff_partition st \<noteq> None \<longrightarrow> i = length ds"
    using r by (auto simp: ready_st_def load_ok_def)
  have "committed_ok ds fid nv (from_hash_fields h) lv"
    using r(3) h(2) by (simp add: ready_st_def committed_ok_def)
  moreover have "if rec then ls_reconcile_required (from_hash_fields h)
      else ?rv \<longrightarrow> reload_rev wk ds nv (from_hash_fields h) (unat (unwrap_or 0 (ls_diff_partition st))) lv"
    using r h(2) by (auto simp: ready_st_def resume_partition_def suspect_def)
  ultimately have "loading wk li ds fid nv (ls_version st) rec (ls_diff_partition st) i lv"
    using h r(1,2,5) i by (cases rec) (simp_all add: loading_def loading_st_def)
  then show ?thesis using i(2) by blast
qed

subsection \<open>A new load\<close>

text \<open>
  The pending set is gone and the state is on its way to a new load: every state that the two
  commands of \<open>initialize_load\<close> can leave.
\<close>

definition restarting_st ::
  "'w IdListSyncWorker \<Rightarrow> DecodedLine list \<Rightarrow> string \<Rightarrow> string \<Rightarrow> string \<Rightarrow> bool \<Rightarrow> ListSyncState \<Rightarrow> list_view \<Rightarrow> bool" where
  "restarting_st wk ds fid nv v rec s lv \<longleftrightarrow>
     ls_version s = v \<and> committed_ok ds fid nv s lv
     \<and> (ls_diff_partition s \<noteq> None \<longrightarrow> 0 < unwrap_or 0 (ls_loading_cardinality s))
     \<and> (ls_loading_version s = Some nv \<longrightarrow>
          unwrap_or 0 (ls_loading_size s) = 0 \<or> ls_loading_cardinality s \<noteq> Some 0)
     \<and> (if rec then ls_reconcile_required s
        else wc_enable_reverse_index (wk_config wk) \<longrightarrow> reload_rev wk ds nv s 0 lv)"

definition restarting ::
  "'w IdListSyncWorker \<Rightarrow> list_id \<Rightarrow> DecodedLine list \<Rightarrow> string \<Rightarrow> string \<Rightarrow> string \<Rightarrow> bool \<Rightarrow> list_view \<Rightarrow> bool" where
  "restarting wk li ds fid nv v rec lv \<longleftrightarrow>
     list_ok li lv \<and> members_at lv nv = {}
     \<and> (\<exists>h. lv_state lv = Some h \<and> restarting_st wk ds fid nv v rec (from_hash_fields h) lv)"

lemma applied_none: "list_ok li lv \<Longrightarrow> members_at lv nv = {} \<Longrightarrow> applied ds nv False 0 lv"
  using members_at_typed [of lv nv] by (simp add: applied_def list_ok_def contents_def)

lemma restarting_ready:
  assumes "restarting wk li ds fid nv v rec lv"
  shows "reload_ready wk li ds fid nv lv"
proof -
  obtain h where h: "lv_state lv = Some h" "restarting_st wk ds fid nv v rec (from_hash_fields h) lv"
    using assms by (auto simp: restarting_def)
  let ?s = "from_hash_fields h"
  have e: "list_ok li lv" "members_at lv nv = {}" using assms by (auto simp: restarting_def)
  have lost: "pending_lost nv ?s lv \<or> pending_cardinality ?s = 0" if "ls_loading_version ?s = Some nv"
    using that e by (auto simp: pending_lost_def word_neq_0_conv)
  have none: "unwrap_or 0 (ls_loading_size ?s) = 0 \<and> ls_diff_partition ?s = None"
    if "ls_loading_version ?s = Some nv" "pending_cardinality ?s = 0"
    using that h(2)
    by (cases "ls_loading_cardinality ?s") (auto simp: restarting_st_def pending_cardinality_def unwrap_or_def)
  have "load_ok ds nv ?s lv"
    unfolding load_ok_def using lost none h(2) applied_none [OF e] by (force simp: restarting_st_def)
  moreover have "resume_partition nv ?s lv = 0"
    using lost none by (auto simp: resume_partition_def unwrap_or_def)
  ultimately show ?thesis
    using e h by (auto simp: reload_ready_def ready_st_def restarting_st_def suspect_def split: if_splits)
qed


lemma send_act_ok:
  assumes conf: "redis_conforms sc (list_rely li) (wk_pool wk) view" and det: "determined c"
    and act: "\<And>ks r ks'. step_ok sc c ks r ks' \<Longrightarrow> list_view_of li ks' = f (list_view_of li ks)"
    and PE: "\<And>lv. P lv \<Longrightarrow> E lv" and put: "\<And>lv. P lv \<Longrightarrow> Q (f lv)" and QE: "\<And>lv. Q lv \<Longrightarrow> E lv"
  shows "vio_ok li view P (send wk c) (\<lambda>_. Q) E"
  unfolding send_def
proof (intro redis_op_ok io_ok_seq)
  show "vio_ok li view P (command (wk_pool wk) c) (\<lambda>_. Q) E"
  proof (rule view_call_ok [OF conf det])
    fix ks r ks' assume P: "P (list_view_of li ks)" and "call c ks = (Inr r, ks')"
    then have "step_ok sc c ks r ks'" using det by (simp add: step_ok_determined)
    from act [OF this] show "Q (list_view_of li ks') \<and> E (list_view_of li ks')" using P put QE by simp
  qed (rule PE)
  show "vio_ok li view Q (ret ()) (\<lambda>_. Q) E" by (rule io_ok_ret)
qed

lemma view_del_fwd:
  assumes "namespace_ok (li_skh li)"
    and "step_ok sc (DEL (fwd_key (li_prefix li) (li_skh li) (li_list li) v)) ks r ks'"
  shows "list_view_of li ks' = set_fwd v {} (list_view_of li ks)"
  by (rule view_unlink_fwd [OF assms(1), of sc _ _ r]) (use assms(2) in \<open>simp add: step_ok_determined\<close>)

lemma members_at_set_fwd [simp]: "members_at (set_fwd v s lv) v' = (if v' = v then s else members_at lv v')"
  by (simp add: members_at_def set_fwd_def)

lemma list_ok_set_fwd: "finite s \<Longrightarrow> list_ok li lv \<Longrightarrow> list_ok li (set_fwd v s lv)"
  by (simp add: list_ok_def rev_typed_def fwd_typed_def set_fwd_def)

lemma reload_rev_set_fwd: "reload_rev wk ds nv st p (set_fwd nv s lv) = reload_rev wk ds nv st p lv"
proof -
  have "old_members nv st (set_fwd nv s lv) = old_members nv st lv"
    by (auto simp: old_members_def old_version_of_def)
  then show ?thesis by (simp add: reload_rev_def diff_rev_def rev_typed_def set_fwd_def)
qed

lemma marked_restarts:
  assumes "marked wk li ds fid nv st rec False lv"
  shows "restarting wk li ds fid nv (ls_version st) rec (set_fwd nv {} lv)"
proof -
  let ?rv = "wc_enable_reverse_index (wk_config wk)"
  obtain h where h: "lv_state lv = Some h" "from_hash_fields h = (if rec then st\<lparr>ls_reconcile_required := True\<rparr> else st)"
    using assms by (auto simp: marked_def)
  have r: "ls_loading_version st = Some nv \<longrightarrow> pending_lost nv st lv" "ready_st wk ds fid nv st lv"
    "rec \<longleftrightarrow> suspect ?rv nv st lv" "list_ok li lv"
    using assms by (auto simp: marked_def)
  have "resume_partition nv st lv = 0" using r(1) by (auto simp: resume_partition_def)
  then have rev: "\<not> rec \<Longrightarrow> ?rv \<Longrightarrow> reload_rev wk ds nv st 0 lv"
    using r(2,3) by (auto simp: ready_st_def)
  have com: "committed_ok ds fid nv st (set_fwd nv {} lv)"
    using r(2) by (auto simp: ready_st_def committed_ok_def)
  have "restarting_st wk ds fid nv (ls_version st) rec st (set_fwd nv {} lv) \<or> rec"
    using r(1,2) rev com
    by (auto simp: restarting_st_def reload_rev_set_fwd ready_st_def load_ok_def pending_lost_def pending_cardinality_def
        unwrap_or_def split: option.splits)
  moreover have "restarting_st wk ds fid nv (ls_version st) True (st\<lparr>ls_reconcile_required := True\<rparr>) (set_fwd nv {} lv)"
    using r(1,2) com
    by (auto simp: restarting_st_def ready_st_def load_ok_def committed_ok_def pending_lost_def pending_cardinality_def
        unwrap_or_def split: option.splits)
  ultimately have "restarting_st wk ds fid nv (ls_version st) rec (from_hash_fields h) (set_fwd nv {} lv)"
    unfolding h(2) by auto
  moreover have "lv_state (set_fwd nv {} lv) = Some h" using h(1) by (simp add: set_fwd_def)
  ultimately show ?thesis unfolding restarting_def using list_ok_set_fwd [OF _ r(4)] by auto
qed

lemma parse_zero: "parse_u64 ''0'' = Some 0" "parse_u32 ''0'' = Some 0"
  by (simp_all add: parse_u64_def parse_u32_def parse_uint_def digits_value_def is_digit_def digit_value_def)

lemma from_hash_load:
  "from_hash_fields (put_fields [(''loading_version'', nv), (''loading_size'', ''0'')] h)
     = (from_hash_fields h)\<lparr>ls_loading_version := Some nv, ls_loading_size := Some 0\<rparr>"
  "from_hash_fields (del_fields [''diff_partition'', ''loading_cardinality'', ''removal_fanout_complete''] h)
     = (from_hash_fields h)\<lparr>ls_diff_partition := None, ls_loading_cardinality := None\<rparr>"
  by (simp_all add: from_hash_fields_def put_fields_def del_fields_def parse_zero)


definition load_acts :: "list_id \<Rightarrow> string \<Rightarrow> view_act list" where
  "load_acts li nv =
     [(HSET (state_key (li_prefix li) (li_skh li) (li_list li)) [(''loading_version'', nv), (''loading_size'', ''0'')],
       act_state (put_fields [(''loading_version'', nv), (''loading_size'', ''0'')])),
      (HDEL (state_key (li_prefix li) (li_skh li) (li_list li))
         [''diff_partition'', ''loading_cardinality'', ''removal_fanout_complete''],
       act_state (del_fields [''diff_partition'', ''loading_cardinality'', ''removal_fanout_complete'']))]"

lemma load_acts_ok: "namespace_ok (li_skh li) \<Longrightarrow> acts_ok sc li (load_acts li nv)"
  unfolding acts_ok_def load_acts_def using view_hset_act view_hdel_act by fastforce

lemma reload_rev_fields [simp]:
  "reload_rev wk ds nv (s\<lparr>ls_loading_version := a, ls_loading_size := b\<rparr>) p lv = reload_rev wk ds nv s p lv"
  "reload_rev wk ds nv (s\<lparr>ls_diff_partition := c, ls_loading_cardinality := d\<rparr>) p lv = reload_rev wk ds nv s p lv"
  "reload_rev wk ds nv (s\<lparr>ls_diff_partition := c\<rparr>) p lv = reload_rev wk ds nv s p lv"
  "reload_rev wk ds nv (s\<lparr>ls_reconcile_required := e\<rparr>) p lv = reload_rev wk ds nv s p lv"
  by (rule reload_rev_same; simp)+

lemma restarting_act:
  assumes "restarting wk li ds fid nv v rec lv" and "a \<in> set (load_acts li nv)"
  shows "restarting wk li ds fid nv v rec (snd a lv)"
proof -
  obtain h where h: "lv_state lv = Some h" "restarting_st wk ds fid nv v rec (from_hash_fields h) lv"
    using assms(1) by (auto simp: restarting_def)
  have keep: "restarting wk li ds fid nv v rec (set_state h' lv)"
    if "restarting_st wk ds fid nv v rec (from_hash_fields h') lv" for h'
    using assms(1) that by (simp add: restarting_def restarting_st_def)
  have "restarting_st wk ds fid nv v rec ((from_hash_fields h)\<lparr>ls_loading_version := Some nv, ls_loading_size := Some 0\<rparr>) lv"
    "restarting_st wk ds fid nv v rec ((from_hash_fields h)\<lparr>ls_diff_partition := None, ls_loading_cardinality := None\<rparr>) lv"
    using h(2) by (auto simp: restarting_st_def committed_ok_def unwrap_or_def)
  then have "restarting wk li ds fid nv v rec (act_state g lv)"
    if "g = put_fields [(''loading_version'', nv), (''loading_size'', ''0'')]
      \<or> g = del_fields [''diff_partition'', ''loading_cardinality'', ''removal_fanout_complete'']" for g
    unfolding act_state_some [OF h(1)] using keep [of "g h"] that from_hash_load(1) [of nv h] from_hash_load(2) [of h] by auto
  then show ?thesis using assms(2) by (auto simp: load_acts_def)
qed

lemma restarting_done:
  assumes "restarting wk li ds fid nv v rec lv"
  shows "loading wk li ds fid nv v rec None 0 (fold snd (load_acts li nv) lv)"
proof -
  obtain h where h: "lv_state lv = Some h" "restarting_st wk ds fid nv v rec (from_hash_fields h) lv"
    using assms by (auto simp: restarting_def)
  let ?h = "del_fields [''diff_partition'', ''loading_cardinality'', ''removal_fanout_complete'']
     (put_fields [(''loading_version'', nv), (''loading_size'', ''0'')] h)"
  have lv: "fold snd (load_acts li nv) lv = set_state ?h (set_state (put_fields [(''loading_version'', nv), (''loading_size'', ''0'')] h) lv)"
    using h(1) by (simp add: load_acts_def act_state_some)
  have s: "from_hash_fields ?h = (from_hash_fields h)
      \<lparr>ls_loading_version := Some nv, ls_loading_size := Some 0, ls_diff_partition := None, ls_loading_cardinality := None\<rparr>"
    by (simp add: from_hash_load)
  have "loading_st wk ds fid nv v rec None 0 (from_hash_fields ?h) lv"
    unfolding s using h(2) by (auto simp: restarting_st_def loading_st_def committed_ok_def unwrap_or_def)
  then show ?thesis
    unfolding lv using assms applied_none by (auto simp: loading_def loading_st_def restarting_def)
qed

lemma start_load_ok:
  fixes wk :: "'w IdListSyncWorker"
  assumes conf: "redis_conforms sc (list_rely li) (wk_pool wk) view" and ns: "namespace_ok (li_skh li)"
    and pre: "wk_key_prefix wk = li_prefix li"
  shows "vio_ok li view (marked wk li ds fid nv st rec resume) (start_load wk (li_skh li) (li_list li) st nv resume)
    (\<lambda>l lv. \<exists>i. l = off_at ds i
       \<and> loading wk li ds fid nv (ls_version st) rec (if resume then ls_diff_partition st else None) i lv)
    (reload_ready wk li ds fid nv)"
    (is "vio_ok li view _ _ ?Q ?E")
  unfolding start_load_def pre
proof (rule io_ok_if)
  show "vio_ok li view (marked wk li ds fid nv st rec resume) (ret (unwrap_or 0 (ls_loading_size st))) ?Q ?E" if resume
    by (rule io_ok_ret) (use that marked_resumes in auto)
  let ?R = "restarting wk li ds fid nv (ls_version st) rec"
  let ?skey = "state_key (li_prefix li) (li_skh li) (li_list li)"
  show "vio_ok li view (marked wk li ds fid nv st rec resume)
      (seq (send wk (DEL (fwd_key (li_prefix li) (li_skh li) (li_list li) nv)))
         (seq (initialize_load wk ?skey nv) (ret 0))) ?Q ?E" if "\<not> resume"
  proof (intro io_ok_seq)
    show "vio_ok li view (marked wk li ds fid nv st rec resume)
        (send wk (DEL (fwd_key (li_prefix li) (li_skh li) (li_list li) nv))) (\<lambda>_. ?R) ?E"
      by (rule send_act_ok [OF conf, where f = "set_fwd nv {}"])
        (use that marked_restarts marked_ready restarting_ready view_del_fwd [OF ns] in auto)
    let ?L = "loading wk li ds fid nv (ls_version st) rec None 0"
    have run: "vio_ok li view ?R (pipe (wk_pool wk) False (map fst (load_acts li nv)))
        (\<lambda>_ lv. \<exists>lv0. ?R lv0 \<and> lv = fold snd (load_acts li nv) lv0) ?R"
      by (rule pipe_view_ok [OF conf load_acts_ok [OF ns]]) (use restarting_act in auto)
    have "vio_ok li view ?R (pipe (wk_pool wk) False (map fst (load_acts li nv))) (\<lambda>_. ?L) ?E"
      by (rule io_ok_cons [OF run]) (use restarting_done restarting_ready in auto)
    then show "vio_ok li view ?R (initialize_load wk ?skey nv) (\<lambda>_. ?L) ?E"
      unfolding initialize_load_def
      by (intro redis_op_ok io_ok_seq [where R = "\<lambda>w. ?L (list_view_of li (view w))"] io_ok_ret)
        (simp_all add: load_acts_def)
    show "vio_ok li view ?L (ret 0) ?Q ?E"
      by (rule io_ok_ret) (use that in \<open>auto intro!: exI [of _ 0]\<close>)
  qed
qed


section \<open>The download\<close>

lemma finite_agree: "agree M A B \<Longrightarrow> finite M \<Longrightarrow> finite B \<Longrightarrow> finite A"
  by (rule finite_subset [of A "M \<union> B"]) (auto simp: agree_def)

lemma from_hash_loading:
  assumes "\<forall>f. f \<noteq> size_field True \<longrightarrow> f \<noteq> cardinality_field True \<longrightarrow> h f = h0 f"
  shows "from_hash_fields h = (from_hash_fields h0)
    \<lparr>ls_loading_size := Option.bind (h ''loading_size'') parse_u64,
     ls_loading_cardinality := Option.bind (h ''loading_cardinality'') parse_u64\<rparr>"
  using assms by (simp add: from_hash_fields_def size_field_def cardinality_field_def)

lemma load_frame:
  assumes "\<forall>v'. v' \<noteq> nv \<longrightarrow> lv_fwd lv v' = lv_fwd lv0 v'" and "lv_rev lv = lv_rev lv0"
  shows "v' \<noteq> nv \<Longrightarrow> members_at lv v' = members_at lv0 v'" "reload_rev wk ds nv s p lv = reload_rev wk ds nv s p lv0"
    "ls_loading_version s \<noteq> None \<Longrightarrow> committed_ok ds fid nv s lv = committed_ok ds fid nv s lv0"
proof -
  have m: "members_at lv v' = members_at lv0 v'" if "v' \<noteq> nv" for v' using assms(1) that by (simp add: members_at_def)
  then show "v' \<noteq> nv \<Longrightarrow> members_at lv v' = members_at lv0 v'" .
  have "old_members nv s lv = old_members nv s lv0" using m by (simp add: old_members_def old_version_of_def)
  then show "reload_rev wk ds nv s p lv = reload_rev wk ds nv s p lv0"
    using assms(2) by (simp add: reload_rev_def diff_rev_def rev_typed_def)
  show "ls_loading_version s \<noteq> None \<Longrightarrow> committed_ok ds fid nv s lv = committed_ok ds fid nv s lv0"
    using m [of "ls_version s"] by (auto simp: committed_ok_def)
qed

lemma off_at_inject:
  assumes "decode_lines 0 file = Inr (ds, rem)" and "length file < 2 ^ 64" and "off_at ds i = off_at ds k"
    and "i \<le> length ds" and "k \<le> length ds"
  shows "i = k"
  using off_at_less [OF assms(1,2), of i k] off_at_less [OF assms(1,2), of k i] assms(3-5)
  by (metis less_irrefl linorder_neqE_nat)

lemma loading_progress:
  assumes l: "loading wk li ds fid nv v rec None i lv0" and p: "progress ds True nv False lv0 k lv" and ik: "i \<le> k"
    and fd: "decode_lines 0 file = Inr (ds, rem)" "length file < 2 ^ 64"
  shows "loading wk li ds fid nv v rec None k lv"
proof -
  obtain h0 h where h0: "lv_state lv0 = Some h0" and h: "lv_state lv = Some h"
    "\<forall>f. f \<noteq> size_field True \<longrightarrow> f \<noteq> cardinality_field True \<longrightarrow> h f = h0 f"
    "h = h0 \<or> (\<exists>n. h ''loading_cardinality'' = Some (show_u64 n))"
    using p by (auto simp: progress_def rest_same_def cardinality_field_def)
  have fr: "\<forall>v'. v' \<noteq> nv \<longrightarrow> lv_fwd lv v' = lv_fwd lv0 v'" "lv_rev lv = lv_rev lv0" "lv_name lv = lv_name lv0"
    and k: "k \<le> length ds" "applied ds nv False k lv"
      "unwrap_or 0 (Option.bind (h ''loading_size'') parse_u64) = off_at ds k"
    using p h(1) by (auto simp: progress_def rest_same_def saved_def size_field_def)
  let ?a = "from_hash_fields h0" and ?s = "from_hash_fields h"
  note s = from_hash_loading [OF h(2)]
  have l0: "list_ok li lv0" "i \<le> length ds" "loading_st wk ds fid nv v rec None i ?a lv0"
    using l h0 by (auto simp: loading_def)
  obtain F where F: "lv_fwd lv nv = Some F" "agree (mentions ds k) F (contents ds k)"
    using k(2) by (auto simp: applied_def)
  have "finite F"
    by (rule finite_agree [OF F(2)]) (simp_all add: mentions_def contents_def finite_replay)
  then have "fwd_typed lv" using l0(1) F(1) fr(1) unfolding list_ok_def fwd_typed_def by metis
  then have ok: "list_ok li lv" using l0(1) fr by (simp add: list_ok_def rev_typed_def)
  have "ls_loading_cardinality ?s \<noteq> None" if "0 < k"
    using h(3)
  proof
    assume "h = h0"
    then have "off_at ds k = off_at ds i" using k(3) l0(3) by (simp add: loading_st_def from_hash_fields_def)
    then have "k = i" using off_at_inject [OF fd _ k(1) l0(2)] by simp
    then show ?thesis using that l0(3) \<open>h = h0\<close> by (simp add: loading_st_def)
  qed (auto simp: s parse_u64_show_u64)
  moreover have "committed_ok ds fid nv ?s lv"
  proof -
    have "committed_ok ds fid nv ?a lv" using l0(3) load_frame(3) [OF fr(1,2), of ?a] by (simp add: loading_st_def)
    then show ?thesis by (simp add: s committed_ok_def)
  qed
  moreover have "reload_rev wk ds nv ?s p lv = reload_rev wk ds nv ?a p lv0" for p
  proof -
    have "reload_rev wk ds nv ?s p lv = reload_rev wk ds nv ?a p lv" by (rule reload_rev_same) (simp add: s)
    then show ?thesis using load_frame(2) [OF fr(1,2)] by simp
  qed
  ultimately have "loading_st wk ds fid nv v rec None k ?s lv"
    using l0(3) k(3) by (simp add: loading_st_def s)
  then show ?thesis using ok k h(1) by (auto simp: loading_def)
qed

lemma progress_start:
  assumes "loading wk li ds fid nv v rec d i lv"
  shows "progress ds True nv False lv i lv"
proof -
  obtain h where "lv_state lv = Some h" "loading_st wk ds fid nv v rec d i (from_hash_fields h) lv"
    using assms by (auto simp: loading_def)
  then show ?thesis
    using assms by (auto simp: loading_def loading_st_def progress_def saved_def rest_same_def size_field_def from_hash_fields_def)
qed

lemma from_hash_diff:
  "from_hash_fields (put_fields [(''diff_partition'', ''0'')] h) = (from_hash_fields h)\<lparr>ls_diff_partition := Some 0\<rparr>"
  by (simp add: from_hash_fields_def put_fields_def parse_zero)

lemma loading_diff_start:
  assumes "loading wk li ds fid nv v rec None (length ds) lv" and "lv_state lv = Some h"
  shows "loading wk li ds fid nv v rec (Some 0) (length ds) (set_state (put_fields [(''diff_partition'', ''0'')] h) lv)"
proof -
  have "loading_st wk ds fid nv v rec (Some 0) (length ds) ((from_hash_fields h)\<lparr>ls_diff_partition := Some 0\<rparr>) lv"
    using assms by (auto simp: loading_def loading_st_def committed_ok_def unwrap_or_def)
  then show ?thesis using assms by (cases rec) (simp_all add: loading_def loading_st_def from_hash_diff unwrap_or_def)
qed


lemma download_load_ok:
  fixes wk :: "'w IdListSyncWorker"
  assumes conf: "redis_conforms sc (list_rely li) (wk_pool wk) view" and ns: "namespace_ok (li_skh li)"
    and pre: "wk_key_prefix wk = li_prefix li" and claim: "claim_frame li view renewal"
    and http: "http_frame li view (wk_http wk)"
    and org: "honest_origin (wk_http wk) (wk_parse_url wk) (tm_url meta) file"
    and fd: "decode_lines 0 file = Inr (ds, rem)" "length file < 2 ^ 64"
    and size: "tm_size meta = off_at ds (length ds)"
  defines "nv \<equiv> task_version_tag meta"
  shows "vio_ok li view (\<lambda>lv. \<exists>i. l = off_at ds i \<and> loading wk li ds fid nv v rec d i lv)
    (download_load wk (li_skh li) (li_list li) meta l d renewal)
    (\<lambda>r lv. fst r = off_at ds (length ds) \<and> loading wk li ds fid nv v rec (Some (snd r)) (length ds) lv)
    (reload_ready wk li ds fid nv)"
    (is "vio_ok li view _ _ ?Q ?E")
proof (rule io_ok_ex, rule io_ok_pure)
  fix i assume l: "l = off_at ds i"
  let ?L = "loading wk li ds fid nv v rec" and ?n = "length ds"
  let ?skey = "state_key (li_prefix li) (li_skh li) (li_list li)"
  let ?key = "fwd_key (li_prefix li) (li_skh li) (li_list li) nv"
  have LE: "?E lv" if "?L d' j lv" for d' j lv using that by (rule loading_ready)
  have full: "i = ?n" if "i \<le> ?n" "\<not> off_at ds i < tm_size meta" for i
    using off_at_less [OF fd, of i ?n] that size by (cases "i = ?n") auto
  show "vio_ok li view (?L d i) (download_load wk (li_skh li) (li_list li) meta l d renewal) ?Q ?E"
  proof (cases d)
    case (Some p)
    have "i = ?n" if "?L d i lv" for lv using that Some by (auto simp: loading_def loading_st_def)
    then show ?thesis
      unfolding download_load_def Some Let_def option.case by (intro io_ok_ret) (auto simp: l Some)
  next
    case None
    let ?mid = "\<lambda>m lv. m = off_at ds ?n \<and> ?L None ?n lv"
    have reverse: "reverse wk True = False" by (simp add: reverse_def)
    have mode: "LoadMode ?key ?skey = list_mode li True nv" by (simp add: list_mode_def)
    have stream: "vio_ok li view (?L None i)
        (apply_file_stream wk (li_skh li) (tm_url meta) l (tm_size meta) (LoadMode ?key ?skey) renewal)
        (\<lambda>r lv. \<exists>k. sa_checkpoint r = off_at ds k \<and> ?L None k lv) ?E"
    proof (rule io_ok_pre [where P' = "\<lambda>w. \<exists>lv0. ?L None i lv0 \<and> progress ds True nv False lv0 i (list_view_of li (view w))"],
        rule io_ok_ex, rule io_ok_pure)
      fix lv0 assume lv0: "?L None i lv0"
      note run = apply_file_stream_ok [OF conf ns pre claim http org fd, of True nv lv0 i "tm_size meta", unfolded reverse]
      show "vio_ok li view (progress ds True nv False lv0 i)
          (apply_file_stream wk (li_skh li) (tm_url meta) l (tm_size meta) (LoadMode ?key ?skey) renewal)
          (\<lambda>r lv. \<exists>k. sa_checkpoint r = off_at ds k \<and> ?L None k lv) ?E"
        unfolding l mode
        by (rule io_ok_cons [OF run])
          (use loading_progress [OF lv0 _ _ fd] LE in \<open>(blast | auto simp: recoverable_def)+\<close>)
    qed (use progress_start in blast)
    have load: "vio_ok li view (?L None i)
        (if l < tm_size meta then
           bind (apply_file_stream wk (li_skh li) (tm_url meta) l (tm_size meta) (LoadMode ?key ?skey) renewal) (\<lambda>applied.
             if sa_checkpoint applied < tm_size meta
             then fail (InvalidFile (short_download ''full download'' applied (tm_size meta)))
             else ret (sa_checkpoint applied))
         else ret l) ?mid ?E"
    proof (rule io_ok_if, rule io_ok_bind [OF stream], rule io_ok_if)
      fix r
      show "vio_ok li view (\<lambda>lv. \<exists>k. sa_checkpoint r = off_at ds k \<and> ?L None k lv)
          (fail (InvalidFile (short_download ''full download'' r (tm_size meta)))) ?mid ?E"
        by (rule io_ok_fail) (use LE in blast)
      have "off_at ds k = off_at ds ?n \<and> ?L None ?n lv" if "\<not> off_at ds k < tm_size meta" "?L None k lv" for k lv
        using full [of k] that by (auto simp: loading_def)
      then show "vio_ok li view (\<lambda>lv. \<exists>k. sa_checkpoint r = off_at ds k \<and> ?L None k lv) (ret (sa_checkpoint r)) ?mid ?E"
        if "\<not> sa_checkpoint r < tm_size meta"
        by (intro io_ok_ret) (use that in metis)
    next
      assume "\<not> l < tm_size meta"
      then have "?mid l lv" if "?L None i lv" for lv using full [of i] that l by (auto simp: loading_def)
      then show "vio_ok li view (?L None i) (ret l) ?mid ?E" by (intro io_ok_ret) blast
    qed
    have diff: "vio_ok li view (?L None ?n) (hset wk ?skey [(''diff_partition'', ''0'')]) (\<lambda>_. ?L (Some 0) ?n) ?E"
      by (rule io_ok_cons [OF hset_state_ok [OF conf ns, where P = "?L None ?n" and E = ?E]])
        (use loading_diff_start LE in \<open>blast | auto\<close>)+
    show ?thesis
      unfolding download_load_def None Let_def option.case pre nv_def [symmetric]
    proof (rule io_ok_bind [OF load], rule io_ok_pure)
      fix m assume m: "m = off_at ds ?n"
      show "vio_ok li view (?L None ?n) (seq (hset wk ?skey [(''diff_partition'', ''0'')]) (ret (m, 0))) ?Q ?E"
        by (rule io_ok_seq [OF diff]) (auto intro!: io_ok_ret simp: m)
    qed
  qed
qed

end
