(* ===== verification/ReloadSafety.thy ===== *)
theory ReloadSafety
  imports FullReload
begin

text \<open>
  The second half of a full reload (\<open>worker/reload.rs\<close>): moving the reverse index, switching the
  state over, and the repair of a committed version. The theory shows that a reload that fails
  anywhere, with any part of a request done, can be repeated, and that one that succeeds publishes
  exactly the members of the file, in the forward set and in the reverse index. It also shows where
  this does not cover an interrupted append that is followed by a new file.
\<close>

section \<open>Moving the reverse index\<close>

lemma hget_u64_ok:
  assumes conf: "redis_conforms sc (list_rely li) (wk_pool wk) view" and PE: "\<And>lv. P lv \<Longrightarrow> E lv"
  shows "vio_ok li view P (hget_u64 wk (state_key (li_prefix li) (li_skh li) (li_list li)) f) (\<lambda>_. P) E"
  unfolding hget_u64_def
proof (intro redis_op_ok io_ok_bind)
  show "vio_ok li view P (command (wk_pool wk) (HGET (state_key (li_prefix li) (li_skh li) (li_list li)) f)) (\<lambda>_. P) E"
    by (rule view_call_ok [OF conf]) (use PE in \<open>auto simp: on_hash_def split: option.splits\<close>)
  show "vio_ok li view P (as_text r) (\<lambda>_. P) E" for r
    by (rule reader_ok) (use PE reader_pure(6) in auto)
  show "vio_ok li view P (case t of None \<Rightarrow> ret None
      | Some s \<Rightarrow> (case parse_u64 s of None \<Rightarrow> fail reply_error | Some n \<Rightarrow> ret (Some n))) (\<lambda>_. P) E" for t
    by (rule reader_ok) (use PE in \<open>auto simp: ret_def fail_def split: option.splits\<close>)
qed

lemma verify_pending_ok:
  assumes conf: "redis_conforms sc (list_rely li) (wk_pool wk) view" and PE: "\<And>lv. P lv \<Longrightarrow> E lv"
  shows "vio_ok li view P (verify_pending wk (state_key (li_prefix li) (li_skh li) (li_list li)) n) (\<lambda>_. P) E"
  unfolding verify_pending_def
proof (rule io_ok_bind [OF hget_u64_ok [OF conf PE]], assumption, rule io_ok_if)
  show "vio_ok li view P (fail e) (\<lambda>_. P) E" for e :: WorkerError by (rule io_ok_fail) (rule PE)
  show "vio_ok li view P (ret ()) (\<lambda>_. P) E" by (rule io_ok_ret)
qed

text \<open>
  The new members are in place and the reverse index has them: what the last steps start from, and
  every state that they can leave.
\<close>

definition reindexed ::
  "bool \<Rightarrow> list_id \<Rightarrow> DecodedLine list \<Rightarrow> string \<Rightarrow> string \<Rightarrow> list_view \<Rightarrow> bool" where
  "reindexed rv li ds fid nv lv \<longleftrightarrow>
     list_ok li lv \<and> lv_fwd lv nv = Some (file_members ds) \<and> (rv \<longrightarrow> rev_members lv = file_members ds)
     \<and> (\<exists>h. lv_state lv = Some h \<and>
          (let s = from_hash_fields h in
             committed_ok ds fid nv s lv
             \<and> (ls_loading_version s = Some nv \<and> unwrap_or 0 (ls_loading_size s) = off_at ds (length ds)
                  \<and> (0 < length ds \<longrightarrow> ls_loading_cardinality s \<noteq> None)
                \<or> ls_loading_version s = None \<and> ls_diff_partition s = None)))"

lemma reindexed_ready:
  assumes "reindexed (wc_enable_reverse_index (wk_config wk)) li ds fid nv lv"
  shows "reload_ready wk li ds fid nv lv"
proof -
  obtain h where h: "lv_state lv = Some h" "committed_ok ds fid nv (from_hash_fields h) lv"
    and l: "ls_loading_version (from_hash_fields h) = Some nv
        \<and> unwrap_or 0 (ls_loading_size (from_hash_fields h)) = off_at ds (length ds)
        \<and> (0 < length ds \<longrightarrow> ls_loading_cardinality (from_hash_fields h) \<noteq> None)
      \<or> ls_loading_version (from_hash_fields h) = None \<and> ls_diff_partition (from_hash_fields h) = None"
    using assms by (auto simp: reindexed_def Let_def)
  let ?s = "from_hash_fields h"
  have ok: "list_ok li lv" "applied ds nv False (length ds) lv" using assms by (auto simp: reindexed_def applied_file)
  have "load_ok ds nv ?s lv"
    using l ok(2) pending_positive [of ?s ds "length ds"] unfolding load_ok_def by auto
  moreover have "wc_enable_reverse_index (wk_config wk) \<longrightarrow> reload_rev wk ds nv ?s p lv" for p
    using assms reload_rev_done by (auto simp: reindexed_def list_ok_def)
  ultimately show ?thesis using ok(1) h by (auto simp: reload_ready_def ready_st_def)
qed

lemma loading_reindexed:
  assumes "loading wk li ds fid nv v rec d (length ds) lv" and "rv \<longrightarrow> rev_members lv = file_members ds"
  shows "reindexed rv li ds fid nv lv"
  using assms by (auto simp: loading_def loading_st_def reindexed_def applied_file Let_def)

lemma loading_reconcile:
  assumes "loading wk li ds fid nv v rec d i lv" and "lv_state lv = Some h"
  shows "loading wk li ds fid nv v True d i (set_state (put_fields [(''reconcile_required'', ''1'')] h) lv)"
  using assms by (auto simp: loading_def loading_st_def from_hash_reconcile committed_ok_def)

lemma loading_set_rev: "loading wk li ds fid nv v True d i lv \<Longrightarrow> loading wk li ds fid nv v True d i (set_rev m b lv)"
  by (auto simp: loading_def loading_st_def)


lemma rev_members_put: "rev_typed lv \<Longrightarrow> rev_members lv = {} \<Longrightarrow> rev_members (rev_put S True lv) = S"
  unfolding rev_members_def rev_typed_def by auto

text \<open>Removing the token everywhere and adding it for the members of a set.\<close>

lemma rebuild_ok:
  fixes wk :: "'w IdListSyncWorker"
  assumes conf: "redis_conforms sc (list_rely li) (wk_pool wk) view" and ns: "namespace_ok (li_skh li)"
    and pre: "wk_key_prefix wk = li_prefix li" and cfg: "worker_config_ok (wk_config wk)"
    and claim: "claim_ok sc li view renewal" and g: "glob_ok sc"
    and closed: "\<And>m b lv. P lv \<Longrightarrow> P (set_rev m b lv)" and typed: "\<And>lv. P lv \<Longrightarrow> rev_typed lv"
    and set: "\<And>lv. P lv \<Longrightarrow> lv_fwd lv v = Some F" and fin: "finite F"
  shows "vio_ok li view P
    (seq (clear_reverse_token wk (li_skh li) (li_token li) renewal)
       (fanout_scan wk (li_skh li) (fwd_key (li_prefix li) (li_skh li) (li_list li) v) (li_token li) True n renewal))
    (\<lambda>_ lv. P lv \<and> rev_members lv = F) P"
proof (rule io_ok_seq)
  have size: "0 < wc_pipeline_batch_size (wk_config wk)" using cfg by (simp add: worker_config_ok_def)
  let ?C = "\<lambda>lv. P lv \<and> rev_members lv = {}"
  show "vio_ok li view P (clear_reverse_token wk (li_skh li) (li_token li) renewal) (\<lambda>_. ?C) P"
    using conf ns pre size claim g closed by (rule clear_reverse_token_ok)
  have run: "vio_ok li view ?C
      (fanout_scan wk (li_skh li) (fwd_key (li_prefix li) (li_skh li) (li_list li) v) (li_token li) True n renewal)
      (\<lambda>_ lv. \<exists>lv0. ?C lv0 \<and> lv = rev_put F True lv0) P"
    by (rule fanout_scan_ok [OF conf ns pre size claim]) (use closed set fin in auto)
  obtain ms where ms: "F = set ms" using fin finite_list by metis
  have put: "P (rev_put F True lv)" if "P lv" for lv
    unfolding ms by (rule rev_put_closed [where E = P]) (use closed that in auto)
  show "vio_ok li view ?C
      (fanout_scan wk (li_skh li) (fwd_key (li_prefix li) (li_skh li) (li_list li) v) (li_token li) True n renewal)
      (\<lambda>_ lv. P lv \<and> rev_members lv = F) P"
    by (rule io_ok_cons [OF run]) (use put rev_members_put typed in auto)
qed

lemma loading_diff:
  assumes l: "loading wk li ds fid nv (ls_version st) False d (length ds) lv0"
    and r: "diff_resumable (diff_class wk (old_members nv st lv0) (file_members ds)) (old_members nv st lv0)
      (file_members ds) lv0 lv"
  shows "\<exists>d'. loading wk li ds fid nv (ls_version st) False d' (length ds) lv"
proof -
  obtain q where q: "diff_rev (diff_class wk (old_members nv st lv0) (file_members ds)) (old_members nv st lv0)
      (file_members ds) q lv" "diff_frame lv0 lv" "diff_saved q lv"
    using r by (auto simp: diff_resumable_def)
  obtain h0 h where h: "lv_state lv0 = Some h0" "lv_state lv = Some h" "\<forall>f. f \<noteq> ''diff_partition'' \<longrightarrow> h f = h0 f"
    using q(2) by (auto simp: diff_frame_def)
  have fr: "lv_fwd lv = lv_fwd lv0" "lv_name lv = lv_name lv0" using q(2) by (auto simp: diff_frame_def)
  let ?a = "from_hash_fields h0" and ?b = "from_hash_fields h"
  have s: "?b = ?a\<lparr>ls_diff_partition := ls_diff_partition ?b\<rparr>"
    using h(3) by (simp add: from_hash_fields_def)
  have l0: "list_ok li lv0" "applied ds nv False (length ds) lv0"
      "loading_st wk ds fid nv (ls_version st) False d (length ds) ?a lv0"
    using l h(1) by (auto simp: loading_def)
  have mem: "members_at lv = members_at lv0" using fr(1) by (simp add: members_at_def fun_eq_iff)
  have old: "old_members nv ?b lv = old_members nv st lv0"
    using l0(3) mem by (subst s) (simp add: old_members_def old_version_of_def loading_st_def)
  have "reload_rev wk ds nv ?b (unat (unwrap_or 0 (ls_diff_partition ?b))) lv"
    unfolding reload_rev_def old using q(1,3) h(2) by (simp add: diff_saved_def from_hash_fields_def)
  moreover have "committed_ok ds fid nv ?b lv"
  proof -
    have "committed_ok ds fid nv ?a lv0" using l0(3) by (simp add: loading_st_def)
    then show ?thesis by (subst s) (simp add: committed_ok_def mem)
  qed
  moreover have "ls_version ?b = ls_version ?a" "ls_loading_version ?b = ls_loading_version ?a"
    "ls_loading_size ?b = ls_loading_size ?a" "ls_loading_cardinality ?b = ls_loading_cardinality ?a"
    by (subst s, simp)+
  ultimately have "loading_st wk ds fid nv (ls_version st) False (ls_diff_partition ?b) (length ds) ?b lv"
    using l0(3) by (simp add: loading_st_def)
  moreover have "list_ok li lv"
    using l0(1) fr q(1) by (simp add: list_ok_def fwd_typed_def diff_rev_def)
  moreover have "applied ds nv False (length ds) lv" using l0(2) fr(1) by (simp add: applied_def)
  ultimately show ?thesis using h(2) by (auto simp: loading_def)
qed

lemma move_diff_ok:
  fixes wk :: "'w IdListSyncWorker"
  assumes conf: "redis_conforms sc (list_rely li) (wk_pool wk) view" and ns: "namespace_ok (li_skh li)"
    and pre: "wk_key_prefix wk = li_prefix li" and cfg: "worker_config_ok (wk_config wk)"
    and claim: "claim_ok sc li view renewal" and iter: "\<And>s. finite s \<Longrightarrow> set (iterate s) = s"
    and rv: "wc_enable_reverse_index (wk_config wk)"
  defines "fk \<equiv> fwd_key (li_prefix li) (li_skh li) (li_list li)"
  shows "vio_ok li view
    (\<lambda>lv. loading wk li ds fid nv (ls_version st) False (Some part) (length ds) lv
       \<and> unat old_card = card (old_members nv st lv) \<and> unat new_card = card (file_members ds))
    (apply_streamed_diff wk iterate (li_skh li) (map_option fk (old_version_of st nv)) (fk nv) (li_token li)
       (state_key (li_prefix li) (li_skh li) (li_list li)) (ucast part) old_card new_card renewal)
    (\<lambda>_. reindexed True li ds fid nv) (reload_ready wk li ds fid nv)"
    (is "vio_ok li view ?P ?m _ ?E")
proof (rule io_ok_pre [where P' = "\<lambda>w. \<exists>lv0. ?P lv0 \<and> list_view_of li (view w) = lv0"], rule io_ok_ex, rule io_ok_pure)
  fix lv0 assume P: "?P lv0"
  let ?Old = "old_members nv st lv0" and ?New = "file_members ds"
  let ?cls = "diff_class wk ?Old ?New"
  have cls: "?cls = member_class wk (partition_count wk old_card new_card)"
  proof -
    have "old_card = of_nat (card ?Old)" "new_card = of_nat (card ?New)" using P by (metis of_nat_unat ucast_id)+
    then show ?thesis by (simp only: diff_class_def)
  qed
  obtain h where h: "lv_state lv0 = Some h" "loading_st wk ds fid nv (ls_version st) False (Some part) (length ds) (from_hash_fields h) lv0"
    using P by (auto simp: loading_def)
  have ok: "list_ok li lv0" using P by (simp add: loading_def)
  then have typed: "fwd_typed lv0" "rev_typed lv0" by (simp_all add: list_ok_def)
  have new: "lv_fwd lv0 nv = Some ?New" using P by (simp add: loading_def applied_file)
  have old: "case old_version_of st nv of None \<Rightarrow> ?Old = {} | Some v \<Rightarrow> lv_fwd lv0 v = Some ?Old" "finite ?Old"
    using members_at_typed [OF typed(1)] members_at_finite [OF typed(1)] by (auto simp: old_members_def split: option.splits)
  have at: "diff_at ?cls ?Old ?New lv0 (unat (ucast part :: u64)) lv0"
  proof -
    have "reload_rev wk ds nv (from_hash_fields h) (unat part) lv0"
      using h(2) rv by (simp add: loading_st_def unwrap_or_def)
    moreover have "old_members nv (from_hash_fields h) lv0 = ?Old"
      by (rule old_members_same) (use h(2) in \<open>simp add: loading_st_def\<close>)
    ultimately have "diff_rev ?cls ?Old ?New (unat part) lv0" by (simp add: reload_rev_def)
    moreover have "unat part < 2 ^ 64" by (rule less_le_trans [OF unsigned_less [of part]]) simp
    then have "unat (ucast part :: u64) = unat part" by (simp add: unsigned_ucast_eq take_bit_nat_eq_self)
    moreover have "diff_saved (unat part) lv0"
      using h by (auto simp: diff_saved_def loading_st_def from_hash_fields_def unwrap_or_def)
    ultimately show ?thesis using h(1) by (auto simp: diff_at_def diff_frame_def)
  qed
  note run = apply_streamed_diff_ok [OF conf ns pre cfg claim new finite_file_members old(2,1), of old_card iterate new_card "ucast part",
      folded fk_def cls]
  have card: "unat old_card = card ?Old" using P by simp
  have again: "?E lv" if "diff_resumable ?cls ?Old ?New lv0 lv" for lv
    using loading_diff [OF _ that] P loading_ready by blast
  have fin: "reindexed True li ds fid nv lv" if "diff_resumable ?cls ?Old ?New lv0 lv" "rev_members lv = ?New" for lv
    using loading_diff [OF _ that(1)] P loading_reindexed that(2) by blast
  show "io_ok (\<lambda>w. list_view_of li (view w) = lv0) ?m (\<lambda>_ w. reindexed True li ds fid nv (list_view_of li (view w)))
      (\<lambda>w. ?E (list_view_of li (view w)))"
    by (rule io_ok_cons [OF run [OF card iter]]) (use at again fin in auto)
qed auto


lemma move_reverse_ok:
  fixes wk :: "'w IdListSyncWorker"
  assumes conf: "redis_conforms sc (list_rely li) (wk_pool wk) view" and ns: "namespace_ok (li_skh li)"
    and pre: "wk_key_prefix wk = li_prefix li" and cfg: "worker_config_ok (wk_config wk)"
    and claim: "claim_ok sc li view renewal" and g: "glob_ok sc" and iter: "\<And>s. finite s \<Longrightarrow> set (iterate s) = s"
  defines "rv \<equiv> wc_enable_reverse_index (wk_config wk)"
  shows "vio_ok li view (loading wk li ds fid nv (ls_version st) rec (Some part) (length ds))
    (move_reverse wk iterate (li_skh li) (li_list li) st nv (li_token li) rec part renewal)
    (\<lambda>_. reindexed rv li ds fid nv) (reload_ready wk li ds fid nv)"
  unfolding move_reverse_def Let_def pre rv_def [symmetric]
proof (intro io_ok_bind)
  let ?fk = "fwd_key (li_prefix li) (li_skh li) (li_list li)"
  let ?skey = "state_key (li_prefix li) (li_skh li) (li_list li)"
  let ?old = "map_option ?fk (old_version_of st nv)"
  let ?L = "\<lambda>rec. loading wk li ds fid nv (ls_version st) rec (Some part) (length ds)"
  let ?E = "reload_ready wk li ds fid nv" and ?R = "reindexed rv li ds fid nv"
  let ?O = "\<lambda>(oc :: u64) lv. ?L rec lv \<and> unat oc = card (old_members nv st lv)"
  let ?N = "\<lambda>rec (oc :: u64) (nc :: u64) lv. ?L rec lv \<and> unat oc = card (old_members nv st lv) \<and> unat nc = card (file_members ds)"
  have LE: "?E lv" if "?L rec' lv" for rec' lv using that by (rule loading_ready)
  show "vio_ok li view (?L rec) (case ?old of None \<Rightarrow> ret 0 | Some key \<Rightarrow> scard wk key) ?O ?E"
  proof (cases "old_version_of st nv")
    case None
    then show ?thesis by (auto intro!: io_ok_ret simp: old_members_def)
  next
    case (Some v)
    show ?thesis
      unfolding Some option.map option.case
      by (rule io_ok_cons [OF scard_fwd_ok [OF conf, where P = "?L rec" and E = ?E]])
        (use LE Some in \<open>auto simp: old_members_def members_at_def\<close>)
  qed
  show "vio_ok li view (?O oc) (scard wk (?fk nv)) (?N rec oc) ?E" for oc
    by (rule io_ok_cons [OF scard_fwd_ok [OF conf, where P = "?O oc" and E = ?E]])
      (use LE in \<open>auto simp: loading_def applied_file\<close>)
  fix oc nc :: u64
  let ?lost = "?old \<noteq> None \<and> 0 < state_cardinality st \<and> oc = 0"
  show "vio_ok li view (?N rec oc nc)
      (seq (verify_pending wk ?skey nc)
         (seq (when_io ?lost (seq (require_reconcile wk ?skey) (send wk (DEL (ready_key (li_prefix li) (li_skh li))))))
            (if rv \<and> (rec \<or> ?lost)
             then seq (clear_reverse_token wk (li_skh li) (li_token li) renewal)
                      (fanout_scan wk (li_skh li) (?fk nv) (li_token li) True nc renewal)
             else when_io rv (apply_streamed_diff wk iterate (li_skh li) ?old (?fk nv) (li_token li) ?skey
                    (ucast part) oc nc renewal)))) (\<lambda>_. ?R) ?E"
  proof (intro io_ok_seq)
    show "vio_ok li view (?N rec oc nc) (verify_pending wk ?skey nc) (\<lambda>_. ?N rec oc nc) ?E"
      by (rule verify_pending_ok [OF conf]) (use LE in blast)
    show "vio_ok li view (?N rec oc nc)
        (when_io ?lost (seq (require_reconcile wk ?skey) (send wk (DEL (ready_key (li_prefix li) (li_skh li))))))
        (\<lambda>_. ?N (rec \<or> ?lost) oc nc) ?E"
    proof (rule io_ok_when, rule io_ok_seq)
      have old: "old_members nv st (set_state h lv) = old_members nv st lv" for h lv
        by (simp add: old_members_def split: option.split)
      show "vio_ok li view (?N rec oc nc) (require_reconcile wk ?skey) (\<lambda>_. ?N True oc nc) ?E"
        by (rule require_reconcile_ok [OF conf ns]) (use LE loading_reconcile old in \<open>auto\<close>)
      show "vio_ok li view (?N True oc nc) (send wk (DEL (ready_key (li_prefix li) (li_skh li))))
          (\<lambda>_. ?N (rec \<or> ?lost) oc nc) ?E" if "?lost"
        using send_other_ok [OF conf, of "DEL (ready_key (li_prefix li) (li_skh li))" "?N True oc nc" ?E]
          other_frames(2) [OF ns] LE that by auto
    qed auto
    show "vio_ok li view (?N (rec \<or> ?lost) oc nc)
        (if rv \<and> (rec \<or> ?lost)
         then seq (clear_reverse_token wk (li_skh li) (li_token li) renewal)
                  (fanout_scan wk (li_skh li) (?fk nv) (li_token li) True nc renewal)
         else when_io rv (apply_streamed_diff wk iterate (li_skh li) ?old (?fk nv) (li_token li) ?skey
                (ucast part) oc nc renewal)) (\<lambda>_. ?R) ?E"
    proof (rule io_ok_if)
      assume b: "rv \<and> (rec \<or> ?lost)"
      have typed: "rev_typed lv" "lv_fwd lv nv = Some (file_members ds)" if "?L True lv" for lv
        using that by (auto simp: loading_def list_ok_def applied_file)
      have run: "vio_ok li view (?L True) (seq (clear_reverse_token wk (li_skh li) (li_token li) renewal)
          (fanout_scan wk (li_skh li) (?fk nv) (li_token li) True nc renewal))
          (\<lambda>_ lv. ?L True lv \<and> rev_members lv = file_members ds) (?L True)"
        by (rule rebuild_ok [OF conf ns pre cfg claim g]) (use loading_set_rev typed in auto)
      show "vio_ok li view (?N (rec \<or> ?lost) oc nc) (seq (clear_reverse_token wk (li_skh li) (li_token li) renewal)
          (fanout_scan wk (li_skh li) (?fk nv) (li_token li) True nc renewal)) (\<lambda>_. ?R) ?E"
      proof (rule io_ok_cons [OF run])
        show "?R (list_view_of li (view w))" if "?L True (list_view_of li (view w)) \<and> rev_members (list_view_of li (view w)) = file_members ds"
          for w using loading_reindexed that by blast
        show "?L True (list_view_of li (view w))" if "?N (rec \<or> ?lost) oc nc (list_view_of li (view w))" for w
        proof -
          have "(rec \<or> ?lost) = True" using b by blast
          with that show ?thesis by (simp only:)
        qed
      qed (rule LE)
    next
      assume nb: "\<not> (rv \<and> (rec \<or> ?lost))"
      show "vio_ok li view (?N (rec \<or> ?lost) oc nc)
          (when_io rv (apply_streamed_diff wk iterate (li_skh li) ?old (?fk nv) (li_token li) ?skey (ucast part) oc nc renewal))
          (\<lambda>_. ?R) ?E"
      proof (rule io_ok_when)
        assume v: rv
        then have no: "(rec \<or> ?lost) = False" using nb by blast
        show "vio_ok li view (?N (rec \<or> ?lost) oc nc)
            (apply_streamed_diff wk iterate (li_skh li) ?old (?fk nv) (li_token li) ?skey (ucast part) oc nc renewal)
            (\<lambda>_. ?R) ?E"
          unfolding no using move_diff_ok [OF conf ns pre cfg claim iter v [unfolded rv_def], of ds fid nv st part oc nc] v
          by simp
      qed (use loading_reindexed in blast)
    qed
  qed
qed


section \<open>The switch-over\<close>

definition commit_fields :: "TaskMetadata \<Rightarrow> u64 \<Rightarrow> (string \<times> string) list" where
  "commit_fields meta c =
     [(''version'', task_version_tag meta), (''file_id'', tm_file_id meta), (''url'', tm_url meta),
      (''creation_time'', show_u64 (tm_creation_time meta)), (''size'', show_u64 (tm_size meta)),
      (''cardinality'', show_u64 c)]"

definition load_fields :: "string list" where
  "load_fields = [''loading_version'', ''loading_size'', ''reconcile_required'', ''diff_partition'',
     ''loading_cardinality'', ''removal_fanout_complete'']"

definition commit_acts :: "list_id \<Rightarrow> TaskMetadata \<Rightarrow> u64 \<Rightarrow> view_act list" where
  "commit_acts li meta c =
     [(HSET (state_key (li_prefix li) (li_skh li) (li_list li)) (commit_fields meta c), act_state (put_fields (commit_fields meta c))),
      (HDEL (state_key (li_prefix li) (li_skh li) (li_list li)) load_fields, act_state (del_fields load_fields)),
      (SADD (all_lists_key (li_prefix li) (li_skh li)) (li_list li), id)]"

lemma commit_commands_acts:
  "wk_key_prefix wk = li_prefix li
     \<Longrightarrow> commit_commands wk (li_skh li) (li_list li) meta c = map fst (commit_acts li meta c)"
  by (simp add: commit_commands_def commit_acts_def commit_fields_def load_fields_def)

lemma commit_acts_ok:
  assumes "namespace_ok (li_skh li)"
  shows "acts_ok sc li (commit_acts li meta c)"
proof -
  have "list_view_of li ks' = list_view_of li ks"
    if "step_ok sc (SADD (all_lists_key (li_prefix li) (li_skh li)) (li_list li)) ks r ks'" for ks r ks'
    using that other_frames(1) [OF assms] by (simp add: step_ok_determined)
  then show ?thesis
    unfolding acts_ok_def commit_acts_def using view_hset_act [OF assms] view_hdel_act [OF assms] by fastforce
qed

lemma from_hash_commit:
  "from_hash_fields (put_fields (commit_fields meta c) h) = (from_hash_fields h)
     \<lparr>ls_version := task_version_tag meta, ls_file_id := tm_file_id meta, ls_url := tm_url meta,
      ls_creation_time := tm_creation_time meta, ls_size := tm_size meta, ls_cardinality := Some c\<rparr>"
  by (simp add: from_hash_fields_def put_fields_def commit_fields_def parse_u64_show_u64 unwrap_or_def)

lemma from_hash_committed:
  "from_hash_fields (del_fields load_fields h) = (from_hash_fields h)
     \<lparr>ls_loading_version := None, ls_loading_size := None, ls_reconcile_required := False, ls_diff_partition := None,
      ls_loading_cardinality := None\<rparr>"
  by (simp add: from_hash_fields_def del_fields_def load_fields_def)

lemma from_hash_enabled:
  "from_hash_fields (del_fields [''__reverse_index_disabled''] h) = (from_hash_fields h)\<lparr>ls_reverse_index_disabled := False\<rparr>"
  "from_hash_fields (del_fields [''__reverse_index_disabled'', ''reconcile_required''] h)
     = (from_hash_fields h)\<lparr>ls_reverse_index_disabled := False, ls_reconcile_required := False\<rparr>"
  by (simp_all add: from_hash_fields_def del_fields_def)

lemma task_version_tag_nonempty: "task_version_tag meta \<noteq> []"
  by (simp add: task_version_tag_def version_tag_def)

text \<open>The new version is the committed one.\<close>

definition published ::
  "bool \<Rightarrow> list_id \<Rightarrow> DecodedLine list \<Rightarrow> string \<Rightarrow> string \<Rightarrow> list_view \<Rightarrow> bool" where
  "published rv li ds fid nv lv \<longleftrightarrow>
     reindexed rv li ds fid nv lv
     \<and> (\<exists>h. lv_state lv = Some h \<and>
          (let s = from_hash_fields h in
             ls_version s = nv \<and> ls_file_id s = fid \<and> ls_size s = off_at ds (length ds) \<and> ls_loading_version s = None
             \<and> \<not> ls_reconcile_required s \<and> map_option unat (ls_cardinality s) = Some (card (file_members ds))))"

lemma reindexed_act:
  assumes "reindexed rv li ds (tm_file_id meta) (task_version_tag meta) lv" and "a \<in> set (commit_acts li meta c)"
    and "tm_size meta = off_at ds (length ds)" and "unat c = card (file_members ds)"
  shows "reindexed rv li ds (tm_file_id meta) (task_version_tag meta) (snd a lv)"
proof -
  let ?nv = "task_version_tag meta"
  obtain h where h: "lv_state lv = Some h" using assms(1) by (auto simp: reindexed_def)
  have new: "members_at lv ?nv = file_members ds" using assms(1) by (simp add: reindexed_def members_at_def)
  have "reindexed rv li ds (tm_file_id meta) ?nv (set_state (put_fields (commit_fields meta c) h) lv)"
    using assms h new by (auto simp: reindexed_def from_hash_commit committed_ok_def Let_def)
  moreover have "reindexed rv li ds (tm_file_id meta) ?nv (set_state (del_fields load_fields h) lv)"
    using assms h new by (auto simp: reindexed_def from_hash_committed committed_ok_def Let_def)
  ultimately show ?thesis using assms(1,2) h by (auto simp: commit_acts_def act_state_some)
qed

lemma commit_published:
  assumes "reindexed rv li ds (tm_file_id meta) (task_version_tag meta) lv"
    and "tm_size meta = off_at ds (length ds)" and "unat c = card (file_members ds)"
  shows "published rv li ds (tm_file_id meta) (task_version_tag meta) (fold snd (commit_acts li meta c) lv)"
proof -
  let ?R = "reindexed rv li ds (tm_file_id meta) (task_version_tag meta)"
  have all: "?R (fold snd as lv)" if "set as \<subseteq> set (commit_acts li meta c)" for as
    using that assms(1) by (induction as arbitrary: lv) (simp_all add: reindexed_act [OF _ _ assms(2,3)])
  obtain h where h: "lv_state lv = Some h" using assms(1) by (auto simp: reindexed_def)
  let ?h = "del_fields load_fields (put_fields (commit_fields meta c) h)"
  have "fold snd (commit_acts li meta c) lv = set_state ?h (set_state (put_fields (commit_fields meta c) h) lv)"
    using h by (simp add: commit_acts_def act_state_some)
  then have "lv_state (fold snd (commit_acts li meta c) lv) = Some ?h" by simp
  then show ?thesis
    using all [of "commit_acts li meta c"] assms(2,3)
    by (simp add: published_def Let_def from_hash_committed from_hash_commit)
qed


lemma view_persist:
  assumes "step_ok sc (PERSIST (fwd_key (li_prefix li) (li_skh li) (li_list li) v)) ks r ks'"
  shows "\<exists>t. list_view_of li ks' = (list_view_of li ks)\<lparr>lv_ttl := t\<rparr> \<and> t v = None"
proof -
  let ?k = "fwd_key (li_prefix li) (li_skh li) (li_list li) v"
  have c: "call (PERSIST ?k) ks = (Inr r, ks')" using assms by (simp add: step_ok_determined)
  have sets: "set_at ks' k = set_at ks k" "hash_at ks' k = hash_at ks k" for k
    using c by (auto simp: upd_ttl split: option.splits)
  have "list_view_of li ks' = (list_view_of li ks)\<lparr>lv_ttl := lv_ttl (list_view_of li ks')\<rparr>"
    by (intro list_view_eqI ext) (simp_all add: list_view_of_def sets)
  moreover have "lv_ttl (list_view_of li ks') v = None"
    using c by (auto simp: list_view_of_def ttl_at_def split: option.splits)
  ultimately show ?thesis by metis
qed

lemma view_expire_cmd:
  assumes ns: "namespace_ok (li_skh li)"
    and st: "step_ok sc (expire_cmd (fwd_key (li_prefix li) (li_skh li) (li_list li) v) ttl) ks r ks'"
  shows "list_view_of li ks' \<in> {list_view_of li ks, set_fwd v {} (list_view_of li ks)}
    \<or> (\<exists>t. list_view_of li ks' = (list_view_of li ks)\<lparr>lv_ttl := (lv_ttl (list_view_of li ks))(v := t)\<rparr>)"
proof -
  let ?k = "fwd_key (li_prefix li) (li_skh li) (li_list li) v"
  obtain n where n: "step_ok sc (EXPIRE ?k n) ks r ks'" using st unfolding expire_cmd_def by blast
  show ?thesis
  proof (cases "n = 0")
    case True
    then have "ks' = ks \<or> step_ok sc (DEL ?k) ks (RInt 1) ks'"
      using n by (auto simp: step_ok_determined bool_reply_def split: option.splits)
    then show ?thesis using view_del_fwd [OF ns] by blast
  next
    case False
    then show ?thesis using view_expire [OF ns False n] by (auto simp: act_expire_def)
  qed
qed

text \<open>The end of a reload: the time to live of the new version is removed and the old version gets one.\<close>

definition settled :: "bool \<Rightarrow> list_id \<Rightarrow> DecodedLine list \<Rightarrow> string \<Rightarrow> string \<Rightarrow> list_view \<Rightarrow> bool" where
  "settled rv li ds fid nv lv \<longleftrightarrow>
     published rv li ds fid nv lv
     \<and> (rv \<longrightarrow> (\<forall>h. lv_state lv = Some h \<longrightarrow> \<not> ls_reverse_index_disabled (from_hash_fields h)))"

lemma settled_done: "settled rv li ds fid nv lv \<Longrightarrow> lv_ttl lv nv = None \<Longrightarrow> nv \<noteq> [] \<Longrightarrow> reload_done rv ds fid lv"
  by (auto simp: settled_def published_def reindexed_def reload_done_def Let_def)

lemma settled_ttl: "settled rv li ds fid nv lv \<Longrightarrow> settled rv li ds fid nv (lv\<lparr>lv_ttl := t\<rparr>)"
  by (auto simp: settled_def published_def reindexed_def Let_def)

lemma settled_drop_old:
  assumes "settled rv li ds fid nv lv" and "v \<noteq> nv"
  shows "settled rv li ds fid nv (set_fwd v {} lv)"
proof -
  have "rev_members (set_fwd v {} lv) = rev_members lv" "lv_state (set_fwd v {} lv) = lv_state lv"
    "lv_fwd (set_fwd v {} lv) nv = lv_fwd lv nv"
    using assms(2) by (simp_all add: rev_members_def set_fwd_def)
  moreover have "committed_ok ds fid nv s (set_fwd v {} lv)" if "committed_ok ds fid nv s lv" for s
    using that by (auto simp: committed_ok_def)
  ultimately show ?thesis
    using assms(1) list_ok_set_fwd [of "{}" li lv v] by (auto simp: settled_def published_def reindexed_def Let_def)
qed

lemma published_enabled:
  assumes "published rv li ds fid nv lv"
  shows "settled rv li ds fid nv (act_state (del_fields [''__reverse_index_disabled'']) lv)"
proof -
  obtain h where h: "lv_state lv = Some h" using assms by (auto simp: published_def)
  let ?h = "del_fields [''__reverse_index_disabled''] h"
  have com: "committed_ok ds fid nv (from_hash_fields ?h) lv = committed_ok ds fid nv (from_hash_fields h) lv"
    by (simp add: from_hash_enabled committed_ok_def)
  have "reindexed rv li ds fid nv (set_state ?h lv)"
    using assms h com by (auto simp: published_def reindexed_def Let_def from_hash_enabled)
  then show ?thesis
    using assms h by (simp add: settled_def published_def act_state_some from_hash_enabled Let_def)
qed

lemma commit_reload_ok:
  fixes wk :: "'w IdListSyncWorker" and st :: ListSyncState
  assumes conf: "redis_conforms sc (list_rely li) (wk_pool wk) view" and ns: "namespace_ok (li_skh li)"
    and pre: "wk_key_prefix wk = li_prefix li" and size: "tm_size meta = off_at ds (length ds)"
  defines "rv \<equiv> wc_enable_reverse_index (wk_config wk)" and "nv \<equiv> task_version_tag meta" and "fid \<equiv> tm_file_id meta"
  shows "vio_ok li view (reindexed rv li ds fid nv)
    (commit_reload wk (li_skh li) (li_list li)
       (map_option (fwd_key (li_prefix li) (li_skh li) (li_list li)) (old_version_of st nv)) meta)
    (\<lambda>_. reload_done rv ds fid) (reload_ready wk li ds fid nv)"
  unfolding commit_reload_def Let_def pre rv_def [symmetric] nv_def [symmetric]
proof (intro io_ok_bind)
  let ?R = "reindexed rv li ds fid nv" and ?P = "published rv li ds fid nv" and ?S = "settled rv li ds fid nv"
  let ?E = "reload_ready wk li ds fid nv"
  let ?fk = "fwd_key (li_prefix li) (li_skh li) (li_list li)" and ?skey = "state_key (li_prefix li) (li_skh li) (li_list li)"
  have RE: "?E lv" if "?R lv" for lv using that unfolding rv_def by (rule reindexed_ready)
  have PE: "?E lv" if "?P lv" for lv using that RE by (simp add: published_def)
  have SE: "?E lv" if "?S lv" for lv using that PE by (simp add: settled_def)
  have nv: "nv \<noteq> []" unfolding nv_def by (rule task_version_tag_nonempty)
  show "vio_ok li view ?R (scard wk (?fk nv)) (\<lambda>c lv. unat c = card (file_members ds) \<and> ?R lv) ?E"
    by (rule io_ok_cons [OF scard_fwd_ok [OF conf, where P = ?R and E = ?E]]) (use RE in \<open>auto simp: reindexed_def\<close>)
  fix c
  let ?D = "\<lambda>lv. ?S lv \<and> lv_ttl lv nv = None"
  let ?old = "case map_option ?fk (old_version_of st nv) of None \<Rightarrow> ret ()
      | Some old \<Rightarrow> when_io (old \<noteq> ?fk nv)
          (seq (redis_op (bind (command (wk_pool wk) (expire_cmd old (wc_old_version_ttl_s (wk_config wk)))) as_bool)) (ret ()))"
  show "vio_ok li view (\<lambda>lv. unat c = card (file_members ds) \<and> ?R lv)
      (seq (redis_op (seq (pipe (wk_pool wk) False (commit_commands wk (li_skh li) (li_list li) meta c)) (ret ())))
        (seq (when_io rv (hdel wk ?skey [''__reverse_index_disabled'']))
          (seq (redis_op (bind (command (wk_pool wk) (PERSIST (?fk nv))) as_bool)) ?old)))
      (\<lambda>_. reload_done rv ds fid) ?E"
  proof (rule io_ok_pure, intro io_ok_seq)
    assume c: "unat c = card (file_members ds)"
    have run: "vio_ok li view ?R (pipe (wk_pool wk) False (map fst (commit_acts li meta c)))
        (\<lambda>_ lv. \<exists>lv0. ?R lv0 \<and> lv = fold snd (commit_acts li meta c) lv0) ?R"
      by (rule pipe_view_ok [OF conf commit_acts_ok [OF ns]])
        (use reindexed_act [OF _ _ size c] in \<open>auto simp: nv_def fid_def\<close>)
    have "vio_ok li view ?R (pipe (wk_pool wk) False (map fst (commit_acts li meta c))) (\<lambda>_. ?P) ?E"
      by (rule io_ok_cons [OF run]) (use commit_published [OF _ size c] RE in \<open>auto simp: nv_def fid_def\<close>)
    then show "vio_ok li view ?R
        (redis_op (seq (pipe (wk_pool wk) False (commit_commands wk (li_skh li) (li_list li) meta c)) (ret ()))) (\<lambda>_. ?P) ?E"
      unfolding commit_commands_acts [OF pre]
      by (intro redis_op_ok io_ok_seq [where R = "\<lambda>w. ?P (list_view_of li (view w))"] io_ok_ret)
    note enable = published_enabled [where rv = rv and li = li and ds = ds and fid = fid and nv = nv]
    show "vio_ok li view ?P (when_io rv (hdel wk ?skey [''__reverse_index_disabled''])) (\<lambda>_. ?S) ?E"
    proof (rule io_ok_when)
      show "vio_ok li view ?P (hdel wk ?skey [''__reverse_index_disabled'']) (\<lambda>_. ?S) ?E"
        by (rule io_ok_cons [OF hdel_ok [OF conf ns, where P = ?P and E = ?E]]) (use enable PE SE in auto)
    qed (simp add: settled_def)
    show "vio_ok li view ?S (redis_op (bind (command (wk_pool wk) (PERSIST (?fk nv))) as_bool)) (\<lambda>_. ?D) ?E"
    proof (intro redis_op_ok io_ok_bind)
      show "vio_ok li view ?S (command (wk_pool wk) (PERSIST (?fk nv))) (\<lambda>_. ?D) ?E"
      proof (rule view_call_ok [OF conf])
        fix ks r ks' assume S: "?S (list_view_of li ks)" and "call (PERSIST (?fk nv)) ks = (Inr r, ks')"
        then have "step_ok sc (PERSIST (?fk nv)) ks r ks'" by (simp add: step_ok_determined)
        from view_persist [OF this] show "?D (list_view_of li ks') \<and> ?E (list_view_of li ks')"
          using settled_ttl [OF S] SE by auto
      qed (use SE in simp_all)
      show "vio_ok li view ?D (as_bool r) (\<lambda>_. ?D) ?E" for r
        by (rule reader_ok) (use SE reader_pure(1) in auto)
    qed
    have fin: "reload_done rv ds fid lv" if "?D lv" for lv using that settled_done nv by blast
    have exp: "vio_ok li view ?D (command (wk_pool wk) (expire_cmd (?fk v) ttl)) (\<lambda>_. ?D) ?E" if "v \<noteq> nv" for v ttl
    proof (rule view_call_ok [OF conf])
      fix ks r ks' assume D: "?D (list_view_of li ks)" and "call (expire_cmd (?fk v) ttl) ks = (Inr r, ks')"
      then have "step_ok sc (expire_cmd (?fk v) ttl) ks r ks'" by (simp add: step_ok_determined expire_cmd_def)
      from view_expire_cmd [OF ns this] D show "?D (list_view_of li ks') \<and> ?E (list_view_of li ks')"
        using settled_ttl settled_drop_old that SE by (auto simp: set_fwd_def)
    qed (use SE in \<open>auto simp: expire_cmd_def\<close>)
    show "vio_ok li view ?D ?old (\<lambda>_. reload_done rv ds fid) ?E"
    proof (cases "old_version_of st nv")
      case None
      then show ?thesis using fin by (auto intro!: io_ok_ret)
    next
      case (Some v)
      then have "v \<noteq> nv" by (auto simp: old_version_of_def split: if_splits)
      then have "vio_ok li view ?D
          (seq (redis_op (bind (command (wk_pool wk) (expire_cmd (?fk v) (wc_old_version_ttl_s (wk_config wk)))) as_bool)) (ret ()))
          (\<lambda>_. reload_done rv ds fid) ?E"
        using fin SE reader_pure(1)
        by (intro io_ok_seq [where R = "\<lambda>w. ?D (list_view_of li (view w))"] redis_op_ok io_ok_bind [OF exp] io_ok_ret reader_ok) auto
      then show ?thesis unfolding Some option.map option.case by (rule io_ok_when) (rule fin)
    qed
  qed
qed


section \<open>Repairing the committed version\<close>

text \<open>The committed set is the one of the file; only the reverse index has to be rebuilt.\<close>

definition repairing :: "list_id \<Rightarrow> DecodedLine list \<Rightarrow> ListSyncState \<Rightarrow> list_view \<Rightarrow> bool" where
  "repairing li ds st lv \<longleftrightarrow>
     list_ok li lv \<and> lv_fwd lv (ls_version st) = Some (file_members ds)
     \<and> (\<exists>h b. lv_state lv = Some h \<and> from_hash_fields h = st\<lparr>ls_reconcile_required := b\<rparr>)"

text \<open>What makes the state one that can be repaired.\<close>

definition repair_state ::
  "DecodedLine list \<Rightarrow> string \<Rightarrow> string \<Rightarrow> ListSyncState \<Rightarrow> bool" where
  "repair_state ds fid nv st \<longleftrightarrow>
     ls_reverse_index_disabled st \<and> ls_version st \<noteq> [] \<and> ls_file_id st = fid \<and> ls_size st = off_at ds (length ds)
     \<and> ls_loading_version st = None \<and> map_option unat (ls_cardinality st) = Some (card (file_members ds))
     \<and> (ls_diff_partition st \<noteq> None \<longrightarrow> 0 < unwrap_or 0 (ls_loading_cardinality st))"

lemma repairing_committed:
  assumes "repairing li ds st lv" and "repair_state ds fid nv st" and "ls_version s = ls_version st"
    and "ls_cardinality s = ls_cardinality st"
  shows "committed_ok ds fid nv s lv"
  using assms by (auto simp: repairing_def repair_state_def committed_ok_def members_at_def)

lemma repairing_ready:
  assumes "repairing li ds st lv" and "repair_state ds fid nv st" and rv: "wc_enable_reverse_index (wk_config wk)"
  shows "reload_ready wk li ds fid nv lv"
proof -
  obtain h b where h: "lv_state lv = Some h" "from_hash_fields h = st\<lparr>ls_reconcile_required := b\<rparr>"
    using assms(1) by (auto simp: repairing_def)
  have "committed_ok ds fid nv (from_hash_fields h) lv"
    by (rule repairing_committed [OF assms(1,2)]) (simp_all add: h(2))
  moreover have "load_ok ds nv (from_hash_fields h) lv" "suspect True nv (from_hash_fields h) lv"
    using assms(2) by (simp_all add: h(2) load_ok_def suspect_def repair_state_def)
  ultimately show ?thesis using assms(1) h(1) by (auto simp: reload_ready_def ready_st_def repairing_def)
qed

lemma repairing_set_rev: "repairing li ds st lv \<Longrightarrow> repairing li ds st (set_rev m b lv)"
  by (simp add: repairing_def)

lemma repairing_ttl: "repairing li ds st lv \<Longrightarrow> repairing li ds st (lv\<lparr>lv_ttl := t\<rparr>)"
  by (simp add: repairing_def)

lemma repaired_done:
  fixes wk :: "'w IdListSyncWorker"
  assumes r: "repairing li ds st lv" and s: "repair_state ds fid nv st" and rev: "rev_members lv = file_members ds"
  defines "lv' \<equiv> act_state (del_fields [''__reverse_index_disabled'', ''reconcile_required'']) lv"
  shows "reload_ready wk li ds fid nv lv'" "lv_ttl lv (ls_version st) = None \<Longrightarrow> reload_done True ds fid lv'"
proof -
  obtain h b where h: "lv_state lv = Some h" "from_hash_fields h = st\<lparr>ls_reconcile_required := b\<rparr>"
    using r by (auto simp: repairing_def)
  let ?h = "del_fields [''__reverse_index_disabled'', ''reconcile_required''] h"
  let ?s = "st\<lparr>ls_reverse_index_disabled := False, ls_reconcile_required := False\<rparr>"
  have lv': "lv' = set_state ?h lv" using h(1) by (simp add: lv'_def act_state_some)
  have hs: "from_hash_fields ?h = ?s" using h(2) by (simp add: from_hash_enabled)
  have "committed_ok ds fid nv ?s lv" by (rule repairing_committed [OF r s]) simp_all
  moreover have "load_ok ds nv ?s lv" using s by (simp add: load_ok_def repair_state_def)
  moreover have "reload_rev wk ds nv ?s p lv" for p
    using r rev by (auto intro!: reload_rev_done simp: repairing_def list_ok_def)
  ultimately have "ready_st wk ds fid nv ?s lv" by (simp add: ready_st_def)
  then show "reload_ready wk li ds fid nv lv'"
    using r unfolding lv' by (auto simp: reload_ready_def hs repairing_def)
  show "lv_ttl lv (ls_version st) = None \<Longrightarrow> reload_done True ds fid lv'"
    using r s rev unfolding lv' by (simp add: reload_done_def hs repairing_def repair_state_def Let_def)
qed


lemma seq_assoc: "seq (seq a b) c = seq a (seq b c)"
  by (rule ext) (auto simp: seq_def bind_def bind_eq_None_conv split: sum.splits option.splits intro!: Option.bind_cong)

definition repair_acts :: "list_id \<Rightarrow> view_act list" where
  "repair_acts li =
     [(HSET (state_key (li_prefix li) (li_skh li) (li_list li)) [(''reconcile_required'', ''1'')],
       act_state (put_fields [(''reconcile_required'', ''1'')])),
      (DEL (ready_key (li_prefix li) (li_skh li)), id)]"

lemma repair_acts_ok:
  assumes "namespace_ok (li_skh li)"
  shows "acts_ok sc li (repair_acts li)"
proof -
  have "list_view_of li ks' = list_view_of li ks" if "step_ok sc (DEL (ready_key (li_prefix li) (li_skh li))) ks r ks'" for ks r ks'
    by (rule other_frames(2) [OF assms, of ks r]) (use that in \<open>simp add: step_ok_determined\<close>)
  then show ?thesis unfolding acts_ok_def repair_acts_def using view_hset_act [OF assms] by fastforce
qed

lemma repairing_act:
  assumes "repairing li ds st lv" and "a \<in> set (repair_acts li)"
  shows "repairing li ds st (snd a lv)" "lv_ttl (snd a lv) = lv_ttl lv"
  using assms by (auto simp: repair_acts_def repairing_def act_state_some from_hash_reconcile)

text \<open>The state as the run has read it.\<close>

definition read_as :: "'w IdListSyncWorker \<Rightarrow> list_id \<Rightarrow> DecodedLine list \<Rightarrow> string \<Rightarrow> string \<Rightarrow> ListSyncState \<Rightarrow> list_view \<Rightarrow> bool" where
  "read_as wk li ds fid nv st lv \<longleftrightarrow>
     list_ok li lv \<and> ready_st wk ds fid nv st lv \<and> (\<exists>h. lv_state lv = Some h \<and> from_hash_fields h = st)"

lemma read_as_ready: "read_as wk li ds fid nv st lv \<Longrightarrow> reload_ready wk li ds fid nv lv"
  by (auto simp: read_as_def reload_ready_def)

lemma repair_start:
  assumes "read_as wk li ds (tm_file_id meta) nv st lv" and "repairable wk st meta" and "tm_size meta = off_at ds (length ds)"
    and "lv_fwd lv (ls_version st) = Some F" and "ls_cardinality st = Some c" and "unat c = card F"
  shows "repair_state ds (tm_file_id meta) nv st" "repairing li ds st lv"
proof -
  have com: "committed_ok ds (tm_file_id meta) nv st lv" and load: "load_ok ds nv st lv" and ok: "list_ok li lv"
    using assms(1) by (auto simp: read_as_def ready_st_def)
  have F: "members_at lv (ls_version st) = F" "finite F"
    using assms(4) ok members_at_finite [of lv "ls_version st"] by (auto simp: members_at_def list_ok_def)
  have c: "F \<in> {{}, file_members ds}" "unat c = card (file_members ds)"
    using com assms(2,3,5) F by (auto simp: committed_ok_def repairable_def)
  then have "F = file_members ds" using assms(6) by auto
  moreover have "\<exists>b. st = st\<lparr>ls_reconcile_required := b\<rparr>" by (rule exI [of _ "ls_reconcile_required st"]) simp
  ultimately show "repairing li ds st lv" using assms(1,4) ok by (auto simp: repairing_def read_as_def)
  show "repair_state ds (tm_file_id meta) nv st"
    using assms(2,3,5) c(2) load by (auto simp: repair_state_def repairable_def load_ok_def)
qed

lemma reconcile_committed_forward_ok:
  fixes wk :: "'w IdListSyncWorker"
  assumes conf: "redis_conforms sc (list_rely li) (wk_pool wk) view" and ns: "namespace_ok (li_skh li)"
    and pre: "wk_key_prefix wk = li_prefix li" and cfg: "worker_config_ok (wk_config wk)"
    and claim: "claim_ok sc li view renewal" and g: "glob_ok sc" and size: "tm_size meta = off_at ds (length ds)"
  defines "rv \<equiv> wc_enable_reverse_index (wk_config wk)" and "fid \<equiv> tm_file_id meta"
  shows "vio_ok li view (read_as wk li ds fid nv st)
    (reconcile_committed_forward wk (li_skh li) (li_list li) st meta renewal)
    (\<lambda>b lv. if b then reload_done rv ds fid lv else read_as wk li ds fid nv st lv) (reload_ready wk li ds fid nv)"
    (is "vio_ok li view ?P _ ?Q ?E")
  unfolding reconcile_committed_forward_def Let_def pre
proof (rule io_ok_if)
  show "vio_ok li view ?P (ret False) ?Q ?E" by (rule io_ok_ret) simp
  assume "\<not> \<not> repairable wk st meta"
  then have able: "repairable wk st meta" and rv: "rv" "ls_version st \<noteq> []" by (auto simp: repairable_def rv_def)
  let ?fk = "fwd_key (li_prefix li) (li_skh li) (li_list li) (ls_version st)"
  let ?skey = "state_key (li_prefix li) (li_skh li) (li_list li)"
  let ?C = "\<lambda>c lv. ?P lv \<and> (\<exists>F. lv_fwd lv (ls_version st) = Some F \<and> unat c = card F)"
  let ?R = "repairing li ds st"
  let ?T = "\<lambda>lv. ?R lv \<and> lv_ttl lv (ls_version st) = None"
  show "vio_ok li view ?P (bind (scard wk ?fk) (\<lambda>c. if ls_cardinality st \<noteq> Some c then ret False
      else seq (ensure_current_version_persisted wk (li_skh li) (li_list li) st)
        (seq (redis_op (seq (pipe (wk_pool wk) False (repair_marks wk (li_skh li) ?skey)) (ret ())))
          (bind (redis_op (dict_get_or_allocate_token wk (li_skh li) (li_list li))) (\<lambda>token.
             seq (clear_reverse_token wk (li_skh li) token renewal)
               (seq (fanout_scan wk (li_skh li) ?fk token True c renewal)
                 (seq (renew_now renewal)
                   (seq (hdel wk ?skey [''__reverse_index_disabled'', ''reconcile_required'']) (ret True))))))))) ?Q ?E"
  proof (rule io_ok_bind, rule scard_fwd_ok [OF conf read_as_ready], assumption, rule io_ok_if)
    fix c assume "\<not> ls_cardinality st \<noteq> Some c"
    then have c: "ls_cardinality st = Some c" by simp
    show "vio_ok li view (?C c) (seq (ensure_current_version_persisted wk (li_skh li) (li_list li) st)
        (seq (redis_op (seq (pipe (wk_pool wk) False (repair_marks wk (li_skh li) ?skey)) (ret ())))
          (bind (redis_op (dict_get_or_allocate_token wk (li_skh li) (li_list li))) (\<lambda>token.
             seq (clear_reverse_token wk (li_skh li) token renewal)
               (seq (fanout_scan wk (li_skh li) ?fk token True c renewal)
                 (seq (renew_now renewal)
                   (seq (hdel wk ?skey [''__reverse_index_disabled'', ''reconcile_required'']) (ret True)))))))) ?Q ?E"
    proof (rule io_ok_pre [where P' = "\<lambda>w. repair_state ds fid nv st \<and> ?R (list_view_of li (view w))"],
        rule io_ok_pure)
      assume s: "repair_state ds fid nv st"
      have RE: "?E lv" if "?R lv" for lv using repairing_ready [OF that s] rv(1) by (simp add: rv_def)
      have persist: "vio_ok li view ?R (ensure_current_version_persisted wk (li_skh li) (li_list li) st) (\<lambda>_. ?T) ?E"
        by (rule io_ok_cons [OF persisted_ok [OF conf ns pre, of ?R ?E]]) (use repairing_ttl RE rv(2) in auto)
      have act: "?T (snd a lv)" if "?T lv" "a \<in> set (repair_acts li)" for a lv
        using repairing_act that by metis
      have all: "?T (fold snd as lv)" if "?T lv" "set as \<subseteq> set (repair_acts li)" for as lv
        using that by (induction as arbitrary: lv) (simp_all add: act)
      have marks: "repair_marks wk (li_skh li) ?skey = map fst (repair_acts li)"
        by (simp add: repair_marks_def repair_acts_def pre)
      have "vio_ok li view ?T (pipe (wk_pool wk) False (map fst (repair_acts li)))
          (\<lambda>_ lv. \<exists>lv0. ?T lv0 \<and> lv = fold snd (repair_acts li) lv0) ?T"
        by (rule pipe_view_ok [OF conf repair_acts_ok [OF ns]]) (use act in auto)
      then have "vio_ok li view ?T (pipe (wk_pool wk) False (map fst (repair_acts li))) (\<lambda>_. ?T) ?E"
        by (rule io_ok_cons) (use all RE in auto)
      then have mark: "vio_ok li view ?T (redis_op (seq (pipe (wk_pool wk) False (repair_marks wk (li_skh li) ?skey)) (ret ())))
          (\<lambda>_. ?T) ?E"
        unfolding marks by (intro redis_op_ok io_ok_seq [where R = "\<lambda>w. ?T (list_view_of li (view w))"] io_ok_ret)
      have token: "vio_ok li view ?T (redis_op (dict_get_or_allocate_token wk (li_skh li) (li_list li)))
          (\<lambda>t lv. t = li_token li \<and> ?T lv) ?E"
        by (rule redis_op_ok, rule token_known [OF conf ns pre]) (use RE in \<open>auto simp: repairing_def list_ok_def\<close>)
      let ?D = "\<lambda>lv. ?T lv \<and> rev_members lv = file_members ds"
      let ?last = "seq (renew_now renewal) (seq (hdel wk ?skey [''__reverse_index_disabled'', ''reconcile_required'']) (ret True))"
      have rebuild: "vio_ok li view ?T (seq (clear_reverse_token wk (li_skh li) (li_token li) renewal)
          (fanout_scan wk (li_skh li) ?fk (li_token li) True c renewal)) (\<lambda>_. ?D) ?T"
      proof (rule rebuild_ok [OF conf ns pre cfg claim g])
        show "rev_typed lv" "lv_fwd lv (ls_version st) = Some (file_members ds)" if "?T lv" for lv
          using that by (auto simp: repairing_def list_ok_def)
      qed (use repairing_set_rev in auto)
      have rebuild': "vio_ok li view ?T (seq (clear_reverse_token wk (li_skh li) (li_token li) renewal)
          (fanout_scan wk (li_skh li) ?fk (li_token li) True c renewal)) (\<lambda>_. ?D) ?E"
        by (rule io_ok_cons [OF rebuild]) (use RE in auto)
      let ?a = "act_state (del_fields [''__reverse_index_disabled'', ''reconcile_required''])"
      have del: "vio_ok li view ?D (hdel wk ?skey [''__reverse_index_disabled'', ''reconcile_required''])
          (\<lambda>_ lv. \<exists>lv0. ?D lv0 \<and> lv = ?a lv0) ?E"
        by (rule hdel_ok [OF conf ns]) (use RE repaired_done(1) [OF _ s] in auto)
      have del': "vio_ok li view ?D (hdel wk ?skey [''__reverse_index_disabled'', ''reconcile_required''])
          (\<lambda>_. reload_done rv ds fid) ?E"
        by (rule io_ok_cons [OF del]) (use repaired_done(2) [OF _ s] rv(1) in auto)
      have last: "vio_ok li view ?D ?last ?Q ?E"
      proof (intro io_ok_seq)
        show "vio_ok li view ?D (renew_now renewal) (\<lambda>_. ?D) ?E"
          by (rule renew_now_ok [OF claim ns]) (use RE in auto)
        show "vio_ok li view ?D (hdel wk ?skey [''__reverse_index_disabled'', ''reconcile_required''])
          (\<lambda>_. reload_done rv ds fid) ?E" by (rule del')
        show "vio_ok li view (reload_done rv ds fid) (ret True) ?Q ?E" by (rule io_ok_ret) simp
      qed
      have rest: "vio_ok li view (\<lambda>lv. t = li_token li \<and> ?T lv) (seq (clear_reverse_token wk (li_skh li) t renewal)
          (seq (fanout_scan wk (li_skh li) ?fk t True c renewal) ?last)) ?Q ?E" for t
      proof (rule io_ok_pure)
        assume "t = li_token li"
        then show "vio_ok li view ?T (seq (clear_reverse_token wk (li_skh li) t renewal)
          (seq (fanout_scan wk (li_skh li) ?fk t True c renewal) ?last)) ?Q ?E"
          using io_ok_seq [OF rebuild' last] by (simp only: seq_assoc)
      qed
      show "vio_ok li view ?R (seq (ensure_current_version_persisted wk (li_skh li) (li_list li) st)
        (seq (redis_op (seq (pipe (wk_pool wk) False (repair_marks wk (li_skh li) ?skey)) (ret ())))
          (bind (redis_op (dict_get_or_allocate_token wk (li_skh li) (li_list li))) (\<lambda>token.
             seq (clear_reverse_token wk (li_skh li) token renewal)
               (seq (fanout_scan wk (li_skh li) ?fk token True c renewal) ?last))))) ?Q ?E"
        by (rule io_ok_seq [OF persist], rule io_ok_seq [OF mark], rule io_ok_bind [OF token rest])
    qed (use repair_start [OF _ able size] c in \<open>auto simp: fid_def\<close>)
  qed (auto intro!: io_ok_ret)
qed


section \<open>A full reload\<close>

lemma reload_run_ok:
  fixes wk :: "'w IdListSyncWorker"
  assumes conf: "redis_conforms sc (list_rely li) (wk_pool wk) view" and ns: "namespace_ok (li_skh li)"
    and pre: "wk_key_prefix wk = li_prefix li" and cfg: "worker_config_ok (wk_config wk)"
    and claim: "claim_ok sc li view renewal" and g: "glob_ok sc" and iter: "\<And>s. finite s \<Longrightarrow> set (iterate s) = s"
    and http: "http_frame li view (wk_http wk)"
    and org: "honest_origin (wk_http wk) (wk_parse_url wk) (tm_url meta) file"
    and fd: "decode_lines 0 file = Inr (ds, rem)" "length file < 2 ^ 64"
    and size: "tm_size meta = off_at ds (length ds)"
  defines "nv \<equiv> task_version_tag meta" and "fid \<equiv> tm_file_id meta" and "rv \<equiv> wc_enable_reverse_index (wk_config wk)"
  shows "vio_ok li view (marked wk li ds fid nv st rec resume)
    (bind (start_load wk (li_skh li) (li_list li) st nv resume) (\<lambda>loading_size.
     bind (redis_op (dict_get_or_allocate_token wk (li_skh li) (li_list li))) (\<lambda>token.
     bind (download_load wk (li_skh li) (li_list li) meta loading_size (if resume then ls_diff_partition st else None) renewal)
       (\<lambda>(loaded, part).
     seq (move_reverse wk iterate (li_skh li) (li_list li) st nv token rec part renewal)
    (seq (renew_now renewal)
         (commit_reload wk (li_skh li) (li_list li)
            (map_option (fwd_key (li_prefix li) (li_skh li) (li_list li)) (old_version_of st nv)) (meta\<lparr>tm_size := loaded\<rparr>)))))))
    (\<lambda>_. reload_done rv ds fid) (reload_ready wk li ds fid nv)"
proof (intro io_ok_bind)
  let ?E = "reload_ready wk li ds fid nv" and ?d = "if resume then ls_diff_partition st else None"
  let ?L = "\<lambda>l lv. \<exists>i. l = off_at ds i \<and> loading wk li ds fid nv (ls_version st) rec ?d i lv"
  let ?M = "\<lambda>r lv. fst r = off_at ds (length ds)
      \<and> loading wk li ds fid nv (ls_version st) rec (Some (snd r)) (length ds) lv"
  have frame: "claim_frame li view renewal" using claim by (simp add: claim_ok_def)
  show "vio_ok li view (marked wk li ds fid nv st rec resume) (start_load wk (li_skh li) (li_list li) st nv resume) ?L ?E"
    using conf ns pre by (rule start_load_ok)
  show "vio_ok li view (?L l) (redis_op (dict_get_or_allocate_token wk (li_skh li) (li_list li)))
      (\<lambda>t lv. t = li_token li \<and> ?L l lv) ?E" for l
    by (rule redis_op_ok, rule token_known [OF conf ns pre])
      (use loading_ready in \<open>(blast | auto simp: loading_def list_ok_def)+\<close>)
  show "vio_ok li view (\<lambda>lv. t = li_token li \<and> ?L l lv)
      (download_load wk (li_skh li) (li_list li) meta l ?d renewal) (\<lambda>r lv. t = li_token li \<and> ?M r lv) ?E" for l t
  proof (rule io_ok_pure)
    assume "t = li_token li"
    then show "vio_ok li view (?L l) (download_load wk (li_skh li) (li_list li) meta l ?d renewal)
        (\<lambda>r lv. t = li_token li \<and> ?M r lv) ?E"
      using download_load_ok [OF conf ns pre frame http org fd size, of l fid "ls_version st" rec ?d]
      by (simp add: nv_def)
  qed
  fix t r
  show "vio_ok li view (\<lambda>lv. t = li_token li \<and> ?M r lv)
      (case r of (loaded, part) \<Rightarrow>
         seq (move_reverse wk iterate (li_skh li) (li_list li) st nv t rec part renewal)
           (seq (renew_now renewal)
             (commit_reload wk (li_skh li) (li_list li)
                (map_option (fwd_key (li_prefix li) (li_skh li) (li_list li)) (old_version_of st nv)) (meta\<lparr>tm_size := loaded\<rparr>))))
      (\<lambda>_. reload_done rv ds fid) ?E"
  proof (cases r)
    case (Pair loaded part)
    let ?meta = "meta\<lparr>tm_size := loaded\<rparr>"
    have tags: "task_version_tag ?meta = nv" "tm_file_id ?meta = fid"
      by (simp_all add: nv_def fid_def task_version_tag_def as_idlist_metadata_def version_tag_def)
    show ?thesis
      unfolding Pair prod.case fst_conv snd_conv
    proof (rule io_ok_pure, rule io_ok_pure, intro io_ok_seq)
      assume t: "t = li_token li" and l: "loaded = off_at ds (length ds)"
      show "vio_ok li view (loading wk li ds fid nv (ls_version st) rec (Some part) (length ds))
          (move_reverse wk iterate (li_skh li) (li_list li) st nv t rec part renewal) (\<lambda>_. reindexed rv li ds fid nv) ?E"
        unfolding t rv_def by (rule move_reverse_ok [OF conf ns pre cfg claim g iter])
      show "vio_ok li view (reindexed rv li ds fid nv) (renew_now renewal) (\<lambda>_. reindexed rv li ds fid nv) ?E"
        by (rule renew_now_ok [OF claim ns]) (use reindexed_ready in \<open>simp add: rv_def\<close>)
      show "vio_ok li view (reindexed rv li ds fid nv)
          (commit_reload wk (li_skh li) (li_list li)
             (map_option (fwd_key (li_prefix li) (li_skh li) (li_list li)) (old_version_of st nv)) ?meta)
          (\<lambda>_. reload_done rv ds fid) ?E"
        using commit_reload_ok [OF conf ns pre, of ?meta ds st] l tags by (simp add: rv_def)
    qed
  qed
qed

lemma apply_full_reload_ok:
  fixes wk :: "'w IdListSyncWorker"
  assumes conf: "redis_conforms sc (list_rely li) (wk_pool wk) view" and ns: "namespace_ok (li_skh li)"
    and pre: "wk_key_prefix wk = li_prefix li" and cfg: "worker_config_ok (wk_config wk)"
    and claim: "claim_ok sc li view renewal" and g: "glob_ok sc" and iter: "\<And>s. finite s \<Longrightarrow> set (iterate s) = s"
    and http: "http_frame li view (wk_http wk)"
    and org: "honest_origin (wk_http wk) (wk_parse_url wk) (tm_url meta) file"
    and fd: "decode_lines 0 file = Inr (ds, rem)" "length file < 2 ^ 64"
    and size: "tm_size meta = off_at ds (length ds)"
  defines "nv \<equiv> task_version_tag meta" and "fid \<equiv> tm_file_id meta" and "rv \<equiv> wc_enable_reverse_index (wk_config wk)"
  shows "vio_ok li view (read_as wk li ds fid nv st) (apply_full_reload wk iterate (li_skh li) (li_list li) st meta renewal)
    (\<lambda>_. reload_done rv ds fid) (reload_ready wk li ds fid nv)"
  unfolding apply_full_reload_def Let_def pre nv_def [symmetric]
proof (rule io_ok_bind)
  let ?E = "reload_ready wk li ds fid nv" and ?P = "read_as wk li ds fid nv st"
  let ?Q = "\<lambda>b lv. if b then reload_done rv ds fid lv else ?P lv"
  show "vio_ok li view ?P (reconcile_committed_forward wk (li_skh li) (li_list li) st meta renewal) ?Q ?E"
    unfolding rv_def fid_def by (rule reconcile_committed_forward_ok [OF conf ns pre cfg claim g size])
  note run = reload_run_ok [OF conf ns pre cfg claim g iter http org fd size, folded nv_def fid_def rv_def]
  let ?rest = "bind (check_reload wk (li_skh li) (li_list li) st nv) (\<lambda>(rec, resume).
          seq (register_reload wk (li_skh li) (li_list li) rec)
         (bind (start_load wk (li_skh li) (li_list li) st nv resume) (\<lambda>loading_size.
          bind (redis_op (dict_get_or_allocate_token wk (li_skh li) (li_list li))) (\<lambda>token.
          bind (download_load wk (li_skh li) (li_list li) meta loading_size (if resume then ls_diff_partition st else None) renewal)
            (\<lambda>(loaded, part).
          seq (move_reverse wk iterate (li_skh li) (li_list li) st nv token rec part renewal)
         (seq (renew_now renewal)
              (commit_reload wk (li_skh li) (li_list li)
                 (map_option (fwd_key (li_prefix li) (li_skh li) (li_list li)) (old_version_of st nv))
                 (meta\<lparr>tm_size := loaded\<rparr>))))))))"
  have rest: "vio_ok li view ?P ?rest (\<lambda>_. reload_done rv ds fid) ?E"
  proof (rule io_ok_bind)
    show "vio_ok li view ?P (check_reload wk (li_skh li) (li_list li) st nv)
        (\<lambda>r lv. ?P lv \<and> (fst r \<longleftrightarrow> suspect (wc_enable_reverse_index (wk_config wk)) nv st lv)
           \<and> (snd r \<longleftrightarrow> ls_loading_version st = Some nv \<and> \<not> pending_lost nv st lv)) ?E"
      by (rule check_reload_ok [OF conf pre]) (simp add: read_as_def list_ok_def, erule read_as_ready)
    fix r :: "bool \<times> bool"
    obtain rec resume where r: "r = (rec, resume)" by force
    show "vio_ok li view (\<lambda>lv. ?P lv \<and> (fst r \<longleftrightarrow> suspect (wc_enable_reverse_index (wk_config wk)) nv st lv)
           \<and> (snd r \<longleftrightarrow> ls_loading_version st = Some nv \<and> \<not> pending_lost nv st lv))
        (case r of (rec, resume) \<Rightarrow> seq (register_reload wk (li_skh li) (li_list li) rec)
         (bind (start_load wk (li_skh li) (li_list li) st nv resume) (\<lambda>loading_size.
          bind (redis_op (dict_get_or_allocate_token wk (li_skh li) (li_list li))) (\<lambda>token.
          bind (download_load wk (li_skh li) (li_list li) meta loading_size (if resume then ls_diff_partition st else None) renewal)
            (\<lambda>(loaded, part).
          seq (move_reverse wk iterate (li_skh li) (li_list li) st nv token rec part renewal)
         (seq (renew_now renewal)
              (commit_reload wk (li_skh li) (li_list li)
                 (map_option (fwd_key (li_prefix li) (li_skh li) (li_list li)) (old_version_of st nv))
                 (meta\<lparr>tm_size := loaded\<rparr>))))))))
        (\<lambda>_. reload_done rv ds fid) ?E"
      unfolding r prod.case fst_conv snd_conv
      by (rule io_ok_seq [OF io_ok_pre [OF register_reload_ok [OF conf ns pre, of ds fid nv st rec resume]] run])
        (simp add: read_as_def)
  qed
  show "vio_ok li view (?Q b) (if b then ret () else ?rest) (\<lambda>_. reload_done rv ds fid) ?E" for b
    using rest by (auto intro: io_ok_ret)
qed


text \<open>
  C19: a full reload is crash safe and complete. Whatever request fails, however much of a pipeline took
  effect, and whatever an earlier attempt left behind (a half-written set, a lost set, a reverse
  index moved in part, a state switched over in part), the attempt returns and leaves a list from which
  the load can be repeated. After success the state names the file with its full size, its forward
  set has exactly the members of the file and no time to live, and, when the reverse index is in
  use, exactly these members have the list's token.
\<close>

theorem reload_crash_safe:
  fixes wk :: "'w IdListSyncWorker"
  assumes "redis_conforms sc (list_rely li) (wk_pool wk) view" and "namespace_ok (li_skh li)"
    and "wk_key_prefix wk = li_prefix li" and "worker_config_ok (wk_config wk)"
    and "claim_ok sc li view renewal" and "glob_ok sc" and "\<And>s. finite s \<Longrightarrow> set (iterate s) = s"
    and "http_frame li view (wk_http wk)"
    and "honest_origin (wk_http wk) (wk_parse_url wk) (tm_url meta) file"
    and "decode_lines 0 file = Inr (ds, rem)" and "length file < 2 ^ 64"
    and "tm_size meta = off_at ds (length ds)"
    and "reload_ready wk li ds (tm_file_id meta) (task_version_tag meta) (list_view_of li (view w))"
    and "lv_state (list_view_of li (view w)) = Some h"
  shows "\<exists>res w'. apply_full_reload wk iterate (li_skh li) (li_list li) (from_hash_fields h) meta renewal w = Some (res, w')
    \<and> (case res of
         Inl _ \<Rightarrow> reload_ready wk li ds (tm_file_id meta) (task_version_tag meta) (list_view_of li (view w'))
       | Inr _ \<Rightarrow> reload_done (wc_enable_reverse_index (wk_config wk)) ds (tm_file_id meta) (list_view_of li (view w')))"
proof -
  have "read_as wk li ds (tm_file_id meta) (task_version_tag meta) (from_hash_fields h) (list_view_of li (view w))"
    using assms(13,14) by (auto simp: reload_ready_def read_as_def)
  then show ?thesis using apply_full_reload_ok [OF assms(1-12), of "from_hash_fields h"] unfolding io_ok_def by blast
qed

subsection \<open>A reload on a local service\<close>

definition reload_task :: TaskMetadata where
  "reload_task = \<lparr>tm_op = TaskOp_Load, tm_file_id = ''g'', tm_creation_time = 9, tm_url = ''u'', tm_size = 3\<rparr>"

abbreviation reload_file :: string where
  "reload_file \<equiv> ''+b'' @ [newline]"

lemma reload_decoded:
  "decode_lines 0 reload_file =
     Inr ([\<lparr>dl_change = Some \<lparr>fc_add = True, fc_member = ''b''\<rparr>, dl_end_offset = 3\<rparr>], [])"
  by (simp add: decode_lines.simps decode_eval)

lemmas reload_eval = apply_full_reload_def reconcile_committed_forward_def repairable_def check_reload_def missing_def
  register_reload_def send_def start_load_def initialize_load_def download_load_def move_reverse_def old_version_of_def
  verify_pending_def hget_u64_def commit_reload_def commit_commands_def hdel_def expire_cmd_def state_cardinality_def
  pending_cardinality_def

lemma reload_runs:
  "\<exists>w'. apply_full_reload (sample_worker reload_file) sorted_list_of_set ''abcd'' ''l''
       (from_hash_fields sample_state_hash) reload_task sample_renewal (removal_keyspace, ()) = Some (Inr (), w')"
  by (simp add: reload_eval diff_eval delta_eval local_eval worker_eval from_hash_fields_def sample_state_hash_def
      unwrap_or_def removal_keyspace_def rotation_keyspace_def Let_def parse_u64_show_u64 sample_keys sample_others_apart
      sample_others_apart [symmetric] reload_task_def task_version_tag_def as_idlist_metadata_def version_tag_def)


abbreviation reload_lines :: "DecodedLine list" where
  "reload_lines \<equiv> [\<lparr>dl_change = Some \<lparr>fc_add = True, fc_member = ''b''\<rparr>, dl_end_offset = 3\<rparr>]"

lemma removal_view:
  "lv_state (list_view_of sample_li removal_keyspace) = Some sample_state_hash"
  "lv_name (list_view_of sample_li removal_keyspace) = Some (Some (show_u64 1))"
  "lv_rev (list_view_of sample_li removal_keyspace) m = Some (m = ''a'')"
  "lv_fwd (list_view_of sample_li removal_keyspace) v = Some (if v = ''v'' then {''a''} else if v = ''w'' then {''b''} else {})"
  by (simp_all add: list_view_of_def sample_li_def removal_keyspace_def rotation_keyspace_def sample_keys set_at_def
      hash_at_def)

lemma sample_reload_ready:
  assumes "wc_enable_reverse_index (wk_config wk)"
  shows "reload_ready wk sample_li reload_lines ''g'' (''g@'' @ show_u64 9) (list_view_of sample_li removal_keyspace)"
proof -
  let ?lv = "list_view_of sample_li removal_keyspace"
  have st: "from_hash_fields sample_state_hash
      = list_sync_state_default\<lparr>ls_version := ''v'', ls_file_id := ''f''\<rparr>"
    by (simp add: from_hash_fields_def sample_state_hash_def unwrap_or_def list_sync_state_default_def parse_u64_show_u64)
  have new: "file_members reload_lines = {''b''}" by (simp add: file_members_def contents_def put_member_def)
  have "li_token sample_li = 1" by (simp add: sample_li_def)
  then have "list_ok sample_li ?lv" by (auto simp: list_ok_def rev_typed_def fwd_typed_def removal_view)
  moreover have "reload_rev wk reload_lines (''g@'' @ show_u64 9) (from_hash_fields sample_state_hash) 0 ?lv"
    by (auto simp: reload_rev_def diff_rev_def rev_typed_def old_members_def old_version_of_def members_at_def new removal_view
        st list_sync_state_default_def)
  ultimately show ?thesis
    by (auto simp: reload_ready_def ready_st_def removal_view st load_ok_def committed_ok_def resume_partition_def
        list_sync_state_default_def)
qed


theorem reload_crash_safe_witness:
  "\<exists>w'. apply_full_reload (sample_worker reload_file) sorted_list_of_set ''abcd'' ''l''
       (from_hash_fields sample_state_hash) reload_task sample_renewal (removal_keyspace, ()) = Some (Inr (), w')
    \<and> reload_done True reload_lines ''g'' (list_view_of sample_li (fst w'))"
proof -
  let ?wk = "sample_worker reload_file"
  have wk: "redis_conforms local_scans (list_rely sample_li) (wk_pool ?wk) fst" "namespace_ok (li_skh sample_li)"
    "wk_key_prefix ?wk = li_prefix sample_li" "worker_config_ok (wk_config ?wk)"
    by (simp_all add: sample_worker_def sample_conforms sample_li_def namespace_ok_def worker_config_ok_def
        worker_config_default_def)
  have http: "http_frame sample_li fst (wk_http ?wk)"
    by (simp add: http_frame_def sample_worker_def plain_origin_def list_rely_def)
  have org: "honest_origin (wk_http ?wk) (wk_parse_url ?wk) (tm_url reload_task) reload_file"
    using plain_origin_honest [of reload_file _ "tm_url reload_task"] by (simp add: sample_worker_def)
  have size: "length reload_file < 2 ^ 64" "tm_size reload_task = off_at reload_lines (length reload_lines)"
    by (simp_all add: reload_task_def off_at_def)
  have rv: "wc_enable_reverse_index (wk_config ?wk) = True" by (simp add: sample_worker_def worker_config_default_def)
  have meta: "tm_file_id reload_task = ''g''" "task_version_tag reload_task = ''g@'' @ show_u64 9"
    by (simp_all add: reload_task_def task_version_tag_def as_idlist_metadata_def version_tag_def)
  have ready: "reload_ready ?wk sample_li reload_lines (tm_file_id reload_task) (task_version_tag reload_task)
      (list_view_of sample_li (fst (removal_keyspace, ())))"
    unfolding meta using sample_reload_ready [of ?wk] rv by simp
  have st: "lv_state (list_view_of sample_li (fst (removal_keyspace, ()))) = Some sample_state_hash"
    by (simp add: removal_view)
  note run = reload_crash_safe [OF wk sample_claim local_glob_ok _ http org reload_decoded size ready st,
      where iterate = sorted_list_of_set]
  show ?thesis using run reload_runs unfolding rv meta(1) by (auto simp: sample_li_def)
qed


section \<open>An interrupted append before a new file\<close>

text \<open>
  A reload trusts the forward set of the committed version to say which members have the token. An
  append that breaks off between the two commands of a change leaves the token where the forward
  set does not show it. When the same file is tried again the change is repeated; when the list gets
  a new file first, the difference of the forward sets does not see the token.
\<close>

text \<open>A connection that breaks after the first command of a pipeline.\<close>

definition torn_exec :: "(keyspace \<times> 'x) redis" where
  "torn_exec atomic cs w =
     (if atomic \<or> length cs < 2 then local_exec atomic cs w
      else (Inl ''connection closed'', snd (local_exec False (take 1 cs) w)))"

lemma partially_none: "partially sc (=) cs ks ks"
  by (induction cs) simp_all

lemma torn_conforms: "redis_conforms local_scans (list_rely li) torn_exec fst"
proof (rule conforms_alone)
  show "redis_conforms local_scans (=) torn_exec fst"
    unfolding redis_conforms_def
  proof (intro allI)
    fix atomic cs and w :: "keyspace \<times> 'x"
    show "case torn_exec atomic cs w of (res, w') \<Rightarrow> conforms_result local_scans (=) atomic cs (fst w) res (fst w')"
    proof (cases "atomic \<or> length cs < 2")
      case True
      then have "torn_exec atomic cs w = local_exec atomic cs w" by (simp add: torn_exec_def)
      then show ?thesis
        using conforms_exec [OF local_conforms, of atomic cs w] by (cases "local_exec atomic cs w") simp
    next
      case False
      then obtain c cs' where cs: "cs = c # cs'" by (cases cs) auto
      obtain res ks' where r: "local_step c (fst w) = (res, ks')" by force
      have "partially local_scans (=) cs (fst w) (fst (snd (local_exec False [c] w)))"
      proof (cases res)
        case (Inl e)
        then show ?thesis using r partially_none by (simp add: local_exec_def)
      next
        case (Inr x)
        then have "step_ok local_scans c (fst w) x ks'" using r local_step_ok by simp
        then have "partially local_scans (=) cs (fst w) ks'" unfolding cs using partially_none [of local_scans cs' ks'] by auto
        then show ?thesis using r Inr by (simp add: local_exec_def)
      qed
      then show ?thesis using False cs by (simp add: torn_exec_def conforms_result_def)
    qed
  qed
qed (simp add: list_rely_def)

definition torn_worker :: "string \<Rightarrow> (keyspace \<times> unit) IdListSyncWorker" where
  "torn_worker file = (sample_worker file)\<lparr>wk_pool := torn_exec\<rparr>"

definition append_keyspace :: keyspace where
  "append_keyspace =
     sample_keyspace(claim_key [] ''abcd'' ''l'' \<mapsto> \<lparr>re_value = VString ''h'', re_ttl = Some 60\<rparr>)"

lemma torn_single: "torn_exec False [c] w = local_exec False [c] w"
  by (simp add: torn_exec_def)

lemma torn_command: "command torn_exec c w = command local_exec c w"
  by (simp add: command_def pipe_def bind_def lift_io_def torn_single)


end
