(* ===== verification/WorkerRun.thy ===== *)
theory WorkerRun
  imports ReloadSafety
begin

text \<open>
  One turn of the id-list worker: \<open>idlist_membership/worker/run.rs\<close>. A task is taken from the queue,
  its list is claimed, what the task asks for is planned against the state of the list, and the
  append, the reload or the removal is carried out. The theory shows that a turn does what was
  planned: it ends, leaves the list as the plan wants it, and after a failure in a state from
  which the same work can be repeated.
\<close>

section \<open>Operations\<close>

text \<open>\<open>ZPOPMIN\<close> with a count gives a list of at most one entry.\<close>

definition as_popped :: "redis_reply \<Rightarrow> ('w, redis_error, (string \<times> nat) list) io" where
  "as_popped r = (case r of RPopped p \<Rightarrow> ret [p] | RNil \<Rightarrow> ret [] | _ \<Rightarrow> fail reply_error)"

definition pop_task :: "'w IdListSyncWorker \<Rightarrow> ('w, WorkerError, (string \<times> nat) list) io" where
  "pop_task wk = redis_op (bind (command (wk_pool wk) (ZPOPMIN (queue_key (wk_key_prefix wk)))) as_popped)"

definition load_task :: "IdListMetadata \<Rightarrow> TaskMetadata" where
  "load_task target =
     \<lparr>tm_op = TaskOp_Load, tm_file_id = md_file_id target, tm_creation_time = md_creation_time target,
      tm_url = md_url target, tm_size = md_size target\<rparr>"

definition plan_work ::
  "'w IdListSyncWorker \<Rightarrow> string \<Rightarrow> string \<Rightarrow> bool \<Rightarrow> ListSyncState \<Rightarrow> TaskMetadata
     \<Rightarrow> ('w, WorkerError, (WorkerAction \<times> TaskMetadata) option) io" where
  "plan_work wk skh list state_exists st meta =
     bind (if state_exists \<and> ls_version st \<noteq> []
           then key_exists wk (fwd_key (wk_key_prefix wk) skh list (ls_version st)) else ret False) (\<lambda>forward_exists.
     let plan = plan_sync_with_reverse_index (if state_exists then Some st else None) (as_idlist_metadata meta)
                  forward_exists (wc_enable_reverse_index (wk_config wk))
     in seq (if plan = None then seq (ensure_current_version_persisted wk skh list st) (ret ()) else ret ())
          (case plan of
             None \<Rightarrow> ret None
           | Some (action, target) \<Rightarrow>
               (case action of
                  FullLoad \<Rightarrow> ret (Some (WorkerAction_FullReload, load_task target))
                | Delta _ \<Rightarrow> ret (Some (WorkerAction_Delta, load_task target))
                | Remove \<Rightarrow> fail (InvalidTask ''load task resolved to remove''))))"

text \<open>The two hashes of the list, read in one pipeline.\<close>

definition read_task :: "'w IdListSyncWorker \<Rightarrow> string \<Rightarrow> string \<Rightarrow> ('w, WorkerError, redis_hash \<times> redis_hash) io" where
  "read_task wk skh list =
     redis_op (bind (pipe (wk_pool wk) False
         [HGETALL (task_meta_key (wk_key_prefix wk) skh list), HGETALL (state_key (wk_key_prefix wk) skh list)]) (\<lambda>rs.
       (case rs of
          [a, b] \<Rightarrow> bind (as_fields a) (\<lambda>meta. bind (as_fields b) (\<lambda>st. ret (meta, st)))
        | _ \<Rightarrow> fail reply_error)))"

definition no_fields :: redis_hash where
  "no_fields = (\<lambda>_. None)"

text \<open>The task that the hashes stand for: none when it is stale.\<close>

definition task_of :: "redis_hash \<Rightarrow> redis_hash \<Rightarrow> WorkerError + TaskMetadata option" where
  "task_of meta_fields state_fields =
     (if meta_fields = no_fields \<and> state_fields ''removal_fanout_complete'' \<noteq> None
      then Inr (Some \<lparr>tm_op = TaskOp_Remove, tm_file_id = [], tm_creation_time = 0, tm_url = [], tm_size = 0\<rparr>)
      else if meta_fields = no_fields then Inr None
      else map_sum (\<lambda>e. e) Some (task_from_hash meta_fields))"

definition of_result :: "'e + 'a \<Rightarrow> ('w, 'e, 'a) io" where
  "of_result r = (case r of Inl e \<Rightarrow> fail e | Inr a \<Rightarrow> ret a)"

definition mark_disabled :: "'w IdListSyncWorker \<Rightarrow> string \<Rightarrow> string \<Rightarrow> ('w, WorkerError, unit) io" where
  "mark_disabled wk skh list =
     seq (hset wk (dict_key (wk_key_prefix wk) skh) [(''__reverse_index_disabled'', ''1'')])
         (hset wk (state_key (wk_key_prefix wk) skh list) [(''__reverse_index_disabled'', ''1'')])"

definition perform ::
  "'w IdListSyncWorker \<Rightarrow> (string set \<Rightarrow> string list) \<Rightarrow> string \<Rightarrow> string \<Rightarrow> ListSyncState \<Rightarrow> WorkerAction \<Rightarrow> TaskMetadata
     \<Rightarrow> 'w ClaimRenewal \<Rightarrow> ('w, WorkerError, unit) io" where
  "perform wk iterate skh list st action meta renewal =
     (case action of
        WorkerAction_Delta \<Rightarrow> apply_delta wk skh list st meta renewal
      | WorkerAction_FullReload \<Rightarrow> apply_full_reload wk iterate skh list st meta renewal
      | WorkerAction_Remove \<Rightarrow> apply_remove wk skh list st renewal)"

definition run_claimed ::
  "'w IdListSyncWorker \<Rightarrow> (string set \<Rightarrow> string list) \<Rightarrow> string \<Rightarrow> string \<Rightarrow> 'w ClaimRenewal
     \<Rightarrow> ('w, WorkerError, WorkerRunOutcome) io" where
  "run_claimed wk iterate skh list renewal =
     bind (read_task wk skh list) (\<lambda>(meta_fields, state_fields).
     let state_exists = (state_fields \<noteq> no_fields);
         st = from_hash_fields state_fields
     in bind (of_result (task_of meta_fields state_fields)) (\<lambda>task.
        (case task of
           None \<Rightarrow> ret Dropped
         | Some meta \<Rightarrow>
             bind (case tm_op meta of
                     TaskOp_Remove \<Rightarrow> ret (Some (WorkerAction_Remove, meta))
                   | TaskOp_Load \<Rightarrow> plan_work wk skh list state_exists st meta) (\<lambda>plan.
             (case plan of
                None \<Rightarrow> ret Dropped
              | Some (action, target) \<Rightarrow>
                  seq (when_io (\<not> wc_enable_reverse_index (wk_config wk)) (mark_disabled wk skh list))
                 (seq (perform wk iterate skh list st action target renewal) (ret (Completed action))))))))"

text \<open>
  The claim and its renewal. The task that renews it runs beside the worker; \<open>lost\<close> and \<open>set_lost\<close>
  are the flag it shares with the worker.
\<close>

definition renewal_start ::
  "'w RedisWorkLock \<Rightarrow> string \<Rightarrow> u64 \<Rightarrow> ('w \<Rightarrow> bool \<times> 'w) \<Rightarrow> ('w \<Rightarrow> 'w) \<Rightarrow> 'w ClaimRenewal" where
  "renewal_start lock key ttl_s lost setter =
     \<lparr>cr_lock = lock, cr_key = key, cr_ttl_s = ttl_s, cr_lost = lost, cr_set_lost = setter\<rparr>"

definition renewal_interval_s :: "u64 \<Rightarrow> u64" where
  "renewal_interval_s ttl_s = max (ttl_s div 3) 1"

definition stop_and_release :: "'w ClaimRenewal \<Rightarrow> ('w, redis_error, unit) io" where
  "stop_and_release cr = release (cr_lock cr) (cr_key cr)"

text \<open>Run \<open>c\<close> after \<open>m\<close>, whatever came of it; an error of \<open>c\<close> is only logged.\<close>

definition afterwards :: "('w, 'e, 'a) io \<Rightarrow> ('w, 'f, 'b) io \<Rightarrow> ('w, 'e, 'a) io" where
  "afterwards m c w =
     Option.bind (m w) (\<lambda>(res, w1). Option.bind (c w1) (\<lambda>(_, w2). Some (res, w2)))"

definition run_once ::
  "'w IdListSyncWorker \<Rightarrow> (string set \<Rightarrow> string list) \<Rightarrow> ('w \<Rightarrow> bool \<times> 'w) \<Rightarrow> ('w \<Rightarrow> 'w)
     \<Rightarrow> ('w, WorkerError, WorkerRunOutcome) io" where
  "run_once wk iterate lost setter =
     bind (pop_task wk) (\<lambda>popped.
     (case popped of
        [] \<Rightarrow> ret Idle
      | (task, _) # _ \<Rightarrow>
          (case decode_task task of
             None \<Rightarrow> ret Dropped
           | Some (skh, list) \<Rightarrow>
               let key = claim_key (wk_key_prefix wk) skh list
               in bind (redis_op (WorkLock.try_acquire (wk_claim wk) key (wc_lock_ttl_s (wk_config wk)))) (\<lambda>acquired.
                  if \<not> acquired then ret ClaimConflict
                  else
                    let renewal = renewal_start (wk_claim wk) key (wc_lock_ttl_s (wk_config wk)) lost setter
                    in afterwards (run_claimed wk iterate skh list renewal) (stop_and_release renewal)))))"


section \<open>What a turn plans\<close>

text \<open>The plan of a load task for a list with the state \<open>h\<close>.\<close>

definition load_plan ::
  "bool \<Rightarrow> bool \<Rightarrow> redis_hash \<Rightarrow> TaskMetadata \<Rightarrow> (WorkerAction \<times> TaskMetadata) option" where
  "load_plan enabled live h meta =
     map_option (\<lambda>(action, target).
         ((case action of FullLoad \<Rightarrow> WorkerAction_FullReload | Delta _ \<Rightarrow> WorkerAction_Delta | Remove \<Rightarrow> WorkerAction_Remove),
          load_task target))
       (plan_sync_with_reverse_index (if h \<noteq> no_fields then Some (from_hash_fields h) else None)
          (as_idlist_metadata meta) live enabled)"

definition planned ::
  "bool \<Rightarrow> bool \<Rightarrow> redis_hash \<Rightarrow> redis_hash \<Rightarrow> WorkerError + (WorkerAction \<times> TaskMetadata) option" where
  "planned enabled live h tf =
     map_sum id (\<lambda>task. Option.bind task (\<lambda>meta.
         case tm_op meta of TaskOp_Remove \<Rightarrow> Some (WorkerAction_Remove, meta) | TaskOp_Load \<Rightarrow> load_plan enabled live h meta))
       (task_of tf h)"

definition live_forward :: "redis_hash \<Rightarrow> list_view \<Rightarrow> bool" where
  "live_forward h lv \<longleftrightarrow>
     h \<noteq> no_fields \<and> ls_version (from_hash_fields h) \<noteq> [] \<and> members_at lv (ls_version (from_hash_fields h)) \<noteq> {}"

text \<open>Planning a load never gives a removal, and an append only to a version that lags.\<close>

lemma load_plan_append:
  "plan_sync_with_reverse_index s m live en \<noteq> Some (Remove, t)"
  "plan_sync_with_reverse_index s m live en = Some (Delta lag, t)
     \<Longrightarrow> \<exists>st. s = Some st \<and> ls_version st \<noteq> [] \<and> ls_size st < md_size t"
  by (auto simp: plan_sync_with_reverse_index_def needs_work_with_reverse_index_def Let_def
      split: option.splits if_splits)

lemma planned_append:
  assumes "planned en live h tf = Inr (Some (WorkerAction_Delta, t))"
  shows "ls_version (from_hash_fields h) \<noteq> []" "ls_size (from_hash_fields h) < tm_size t"
proof -
  obtain meta where meta: "task_of tf h = Inr (Some meta)" "tm_op meta = TaskOp_Load"
    and plan: "load_plan en live h meta = Some (WorkerAction_Delta, t)"
  proof (cases "task_of tf h")
    case (Inr task)
    then obtain meta where m: "task = Some meta" using assms by (cases task) (auto simp: planned_def)
    show ?thesis by (cases "tm_op meta") (use that Inr m assms in \<open>auto simp: planned_def\<close>)
  qed (use assms in \<open>simp add: planned_def\<close>)
  obtain action t0 where p: "plan_sync_with_reverse_index (if h \<noteq> no_fields then Some (from_hash_fields h) else None)
      (as_idlist_metadata meta) live en = Some (action, t0)" and t: "t = load_task t0"
    using plan by (auto simp: load_plan_def)
  have "\<exists>lag. action = Delta lag" using plan p by (cases action) (simp_all add: load_plan_def)
  then obtain st where "(if h \<noteq> no_fields then Some (from_hash_fields h) else None) = Some st"
    and "ls_version st \<noteq> []" "ls_size st < md_size t0"
    using load_plan_append(2) p by blast
  then show "ls_version (from_hash_fields h) \<noteq> []" "ls_size (from_hash_fields h) < tm_size t"
    by (simp_all add: t load_task_def split: if_splits)
qed

section \<open>Other clients\<close>

text \<open>
  The producer may replace the task at any time; \<open>T\<close> are the tasks that it writes for the list.
  The rest of what belongs to the list is left as it is.
\<close>

definition tasks_in :: "list_id \<Rightarrow> redis_hash set \<Rightarrow> keyspace \<Rightarrow> bool" where
  "tasks_in li T ks \<longleftrightarrow>
     (\<forall>tf. hash_at ks (task_meta_key (li_prefix li) (li_skh li) (li_list li)) = Some tf \<longrightarrow> tf \<in> T)"

definition task_rely :: "list_id \<Rightarrow> redis_hash set \<Rightarrow> interference" where
  "task_rely li T ks ks' \<longleftrightarrow> list_rely li ks ks' \<and> (tasks_in li T ks \<longrightarrow> tasks_in li T ks')"

lemma ran_weaken: "ran sc r cs ks rs ks' \<Longrightarrow> (\<And>ks ks'. r ks ks' \<Longrightarrow> r' ks ks') \<Longrightarrow> ran sc r' cs ks rs ks'"
  by (induction cs arbitrary: ks rs) (simp, fastforce)

lemma partially_weaken:
  "partially sc r cs ks ks' \<Longrightarrow> (\<And>ks ks'. r ks ks' \<Longrightarrow> r' ks ks') \<Longrightarrow> partially sc r' cs ks ks'"
  by (induction cs arbitrary: ks) (simp, fastforce)

lemma conforms_weaken:
  assumes "redis_conforms sc r exec view" and "\<And>ks ks'. r ks ks' \<Longrightarrow> r' ks ks'"
  shows "redis_conforms sc r' exec view"
  unfolding redis_conforms_def
proof (intro allI)
  fix atomic cs w
  obtain res w' where x: "exec atomic cs w = (res, w')" by force
  have "conforms_result sc r' atomic cs (view w) res (view w')"
    using conforms_exec [OF assms(1) x] assms(2) ran_weaken [of sc r cs _ _ _ r'] partially_weaken [of sc r cs _ _ r']
    by (auto simp: conforms_result_def split: sum.splits if_splits)
  then show "case exec atomic cs w of (res, w') \<Rightarrow> conforms_result sc r' atomic cs (view w) res (view w')"
    by (simp add: x)
qed

lemma task_list_conforms: "redis_conforms sc (task_rely li T) exec view \<Longrightarrow> redis_conforms sc (list_rely li) exec view"
  by (erule conforms_weaken) (simp add: task_rely_def)

section \<open>The steps of a turn\<close>

lemma read_task_ok:
  fixes wk :: "'w IdListSyncWorker"
  assumes conf: "redis_conforms sc (task_rely li T) (wk_pool wk) view" and pre: "wk_key_prefix wk = li_prefix li"
  shows "io_ok (\<lambda>w. list_view_of li (view w) = lv \<and> tasks_in li T (view w)) (read_task wk (li_skh li) (li_list li))
    (\<lambda>(tf, h) w. list_view_of li (view w) = lv \<and> tf \<in> T \<and> lv_state lv = Some h) (\<lambda>w. list_view_of li (view w) = lv)"
  unfolding read_task_def pre
proof (intro redis_op_ok io_ok_bind)
  let ?tk = "task_meta_key (li_prefix li) (li_skh li) (li_list li)"
  let ?sk = "state_key (li_prefix li) (li_skh li) (li_list li)"
  let ?K = "\<lambda>ks. list_view_of li ks = lv \<and> tasks_in li T ks"
  let ?R = "\<lambda>c r. \<exists>f. r = RFields f \<and> (c = HGETALL ?tk \<longrightarrow> f \<in> T) \<and> (c = HGETALL ?sk \<longrightarrow> lv_state lv = Some f)"
  have st: "stable (task_rely li T) ?K" by (auto simp: stable_def task_rely_def list_rely_def)
  have "kio_ok view ?K (pipe (wk_pool wk) False [HGETALL ?tk, HGETALL ?sk])
      (\<lambda>rs ks. list_all2 ?R [HGETALL ?tk, HGETALL ?sk] rs \<and> ?K ks) ?K"
    by (rule pipe_reads_ok [OF conf st])
      (auto simp: step_ok_determined on_hash_def tasks_in_def list_view_of_def split: option.splits)
  then show "io_ok (\<lambda>w. ?K (view w)) (pipe (wk_pool wk) False [HGETALL ?tk, HGETALL ?sk])
      (\<lambda>rs w. (\<exists>tf h. rs = [RFields tf, RFields h] \<and> tf \<in> T \<and> lv_state lv = Some h) \<and> list_view_of li (view w) = lv)
      (\<lambda>w. list_view_of li (view w) = lv)"
    by (rule io_ok_cons) (auto simp: list_all2_Cons1)
  show "io_ok (\<lambda>w. (\<exists>tf h. rs = [RFields tf, RFields h] \<and> tf \<in> T \<and> lv_state lv = Some h) \<and> list_view_of li (view w) = lv)
      (case rs of [] \<Rightarrow> fail reply_error | [a] \<Rightarrow> fail reply_error
       | [a, b] \<Rightarrow> bind (as_fields a) (\<lambda>meta. bind (as_fields b) (\<lambda>st. ret (meta, st)))
       | a # b # c # cs \<Rightarrow> fail reply_error)
      (\<lambda>(tf, h) w. list_view_of li (view w) = lv \<and> tf \<in> T \<and> lv_state lv = Some h)
      (\<lambda>w. list_view_of li (view w) = lv)" for rs
    by (rule io_okI) (auto simp: io_eval as_fields_def)
qed


text \<open>Only the time to live of the versions differs.\<close>

definition same_list :: "list_view \<Rightarrow> list_view \<Rightarrow> bool" where
  "same_list lv0 lv \<longleftrightarrow> lv\<lparr>lv_ttl := lv_ttl lv0\<rparr> = lv0"

lemma same_list_refl [simp]: "same_list lv lv" and same_list_ttl: "same_list lv0 lv \<Longrightarrow> same_list lv0 (lv\<lparr>lv_ttl := t\<rparr>)"
  by (simp_all add: same_list_def)

lemma no_state_version [simp]: "ls_version (from_hash_fields no_fields) = []"
  by (simp add: from_hash_fields_def no_fields_def unwrap_or_def)

lemma plan_work_ok:
  fixes wk :: "'w IdListSyncWorker" and h :: redis_hash and meta :: TaskMetadata
  assumes conf: "redis_conforms sc (list_rely li) (wk_pool wk) view" and ns: "namespace_ok (li_skh li)"
    and pre: "wk_key_prefix wk = li_prefix li" and typed: "fwd_typed lv"
  defines "plan \<equiv> load_plan (wc_enable_reverse_index (wk_config wk)) (live_forward h lv) h meta"
  shows "vio_ok li view (\<lambda>lv'. lv' = lv)
    (plan_work wk (li_skh li) (li_list li) (h \<noteq> no_fields) (from_hash_fields h) meta)
    (\<lambda>p lv'. p = plan \<and> same_list lv lv' \<and> (p \<noteq> None \<longrightarrow> lv' = lv)) (same_list lv)"
  unfolding plan_work_def pre Let_def
proof (intro io_ok_bind)
  let ?st = "from_hash_fields h" and ?v = "ls_version (from_hash_fields h)"
  let ?p = "plan_sync_with_reverse_index (if h \<noteq> no_fields then Some ?st else None) (as_idlist_metadata meta)
    (live_forward h lv) (wc_enable_reverse_index (wk_config wk))"
  have "vio_ok li view (\<lambda>lv'. lv' = lv) (key_exists wk (fwd_key (li_prefix li) (li_skh li) (li_list li) ?v))
      (\<lambda>b lv'. lv' = lv \<and> (\<forall>s. lv_fwd lv' ?v = Some s \<longrightarrow> b = (s \<noteq> {}))) (same_list lv)"
    by (rule key_exists_ok [OF conf]) simp
  then have ex: "vio_ok li view (\<lambda>lv'. lv' = lv) (key_exists wk (fwd_key (li_prefix li) (li_skh li) (li_list li) ?v))
      (\<lambda>b lv'. lv' = lv \<and> b = (members_at lv ?v \<noteq> {})) (same_list lv)"
    by (rule io_ok_cons) (use members_at_typed [OF typed] in auto)
  show "vio_ok li view (\<lambda>lv'. lv' = lv)
      (if h \<noteq> no_fields \<and> ?v \<noteq> [] then key_exists wk (fwd_key (li_prefix li) (li_skh li) (li_list li) ?v) else ret False)
      (\<lambda>b lv'. b = live_forward h lv \<and> lv' = lv) (same_list lv)"
    by (rule io_ok_if) (rule io_ok_cons [OF ex], auto simp: live_forward_def intro!: io_ok_ret)
  have keep: "vio_ok li view (same_list lv) (ensure_current_version_persisted wk (li_skh li) (li_list li) ?st)
      (\<lambda>_. same_list lv) (same_list lv)"
    by (rule io_ok_cons [OF persisted_ok [OF conf ns pre, where P = "same_list lv" and E = "same_list lv"]])
      (auto intro: same_list_ttl)
  have "vio_ok li view (\<lambda>lv'. lv' = lv)
      (seq (if ?p = None then seq (ensure_current_version_persisted wk (li_skh li) (li_list li) ?st) (ret ()) else ret ())
         (case ?p of None \<Rightarrow> ret None
          | Some (action, target) \<Rightarrow>
              (case action of FullLoad \<Rightarrow> ret (Some (WorkerAction_FullReload, load_task target))
               | Delta _ \<Rightarrow> ret (Some (WorkerAction_Delta, load_task target))
               | Remove \<Rightarrow> fail (InvalidTask ''load task resolved to remove''))))
      (\<lambda>p lv'. p = plan \<and> same_list lv lv' \<and> (p \<noteq> None \<longrightarrow> lv' = lv)) (same_list lv)"
  proof (cases ?p)
    case None
    then have "plan = None" by (simp add: plan_def load_plan_def)
    note none = this
    have "vio_ok li view (\<lambda>lv'. lv' = lv)
        (seq (ensure_current_version_persisted wk (li_skh li) (li_list li) ?st) (ret ())) (\<lambda>_. same_list lv) (same_list lv)"
      by (rule io_ok_seq [OF io_ok_pre [OF keep]]) (auto intro: io_ok_ret)
    then have "vio_ok li view (\<lambda>lv'. lv' = lv)
        (seq (seq (ensure_current_version_persisted wk (li_skh li) (li_list li) ?st) (ret ())) (ret None))
        (\<lambda>p lv'. p = plan \<and> same_list lv lv' \<and> (p \<noteq> None \<longrightarrow> lv' = lv)) (same_list lv)"
      by (rule io_ok_seq) (auto simp: none intro: io_ok_ret)
    then show ?thesis by (simp only: None simp_thms if_True option.case)
  next
    case (Some x)
    obtain action target where x: "?p = Some (action, target)" using Some by (cases x) simp
    then have "action \<noteq> Remove" using load_plan_append(1) by metis
    then show ?thesis unfolding x
      by (cases action) (use x in \<open>auto simp: plan_def load_plan_def io_ok_def io_eval\<close>)
  qed
  then show "vio_ok li view (\<lambda>lv'. live = live_forward h lv \<and> lv' = lv)
      (seq (if plan_sync_with_reverse_index (if h \<noteq> no_fields then Some ?st else None) (as_idlist_metadata meta) live
               (wc_enable_reverse_index (wk_config wk)) = None
            then seq (ensure_current_version_persisted wk (li_skh li) (li_list li) ?st) (ret ()) else ret ())
         (case plan_sync_with_reverse_index (if h \<noteq> no_fields then Some ?st else None) (as_idlist_metadata meta) live
               (wc_enable_reverse_index (wk_config wk)) of None \<Rightarrow> ret None
          | Some (action, target) \<Rightarrow>
              (case action of FullLoad \<Rightarrow> ret (Some (WorkerAction_FullReload, load_task target))
               | Delta _ \<Rightarrow> ret (Some (WorkerAction_Delta, load_task target))
               | Remove \<Rightarrow> fail (InvalidTask ''load task resolved to remove''))))
      (\<lambda>p lv'. p = plan \<and> same_list lv lv' \<and> (p \<noteq> None \<longrightarrow> lv' = lv)) (same_list lv)" for live
    by (auto intro!: io_ok_pure)
qed


section \<open>A turn does what was planned\<close>

text \<open>The origin of the task serves a file with the complete lines \<open>ds\<close>.\<close>

definition served :: "'w IdListSyncWorker \<Rightarrow> TaskMetadata \<Rightarrow> DecodedLine list \<Rightarrow> nat \<Rightarrow> bool" where
  "served wk t ds len \<longleftrightarrow>
     (\<exists>file rem. honest_origin (wk_http wk) (wk_parse_url wk) (tm_url t) file \<and> decode_lines 0 file = Inr (ds, rem)
        \<and> length file < 2 ^ 64 \<and> length file = len)"

text \<open>
  What an action needs, what it reaches, and what it leaves when it fails; \<open>st\<close> is the state that
  was read, \<open>ds\<close> the lines of the file of the task.
\<close>

definition action_ready ::
  "'w IdListSyncWorker \<Rightarrow> list_id \<Rightarrow> DecodedLine list \<Rightarrow> ListSyncState \<Rightarrow> WorkerAction \<Rightarrow> TaskMetadata \<Rightarrow> list_view \<Rightarrow> bool" where
  "action_ready wk li ds st a t lv \<longleftrightarrow>
     (case a of
        WorkerAction_Delta \<Rightarrow>
          (\<exists>len. served wk t ds len \<and> len \<le> unat (tm_size t))
          \<and> delta_ready li ds (wc_enable_reverse_index (wk_config wk)) st lv
      | WorkerAction_FullReload \<Rightarrow>
          (\<exists>len. served wk t ds len) \<and> tm_size t = off_at ds (length ds)
          \<and> reload_ready wk li ds (tm_file_id t) (task_version_tag t) lv
      | WorkerAction_Remove \<Rightarrow> removable li (wc_enable_reverse_index (wk_config wk)) lv)"

definition action_done ::
  "'w IdListSyncWorker \<Rightarrow> list_id \<Rightarrow> DecodedLine list \<Rightarrow> ListSyncState \<Rightarrow> WorkerAction \<Rightarrow> TaskMetadata \<Rightarrow> list_view \<Rightarrow> bool" where
  "action_done wk li ds st a t lv \<longleftrightarrow>
     (case a of
        WorkerAction_Delta \<Rightarrow>
          (\<exists>st'. advanced st st' \<and> delta_complete li ds (wc_enable_reverse_index (wk_config wk)) st' lv)
      | WorkerAction_FullReload \<Rightarrow> reload_done (wc_enable_reverse_index (wk_config wk)) ds (tm_file_id t) lv
      | WorkerAction_Remove \<Rightarrow> removed (wc_enable_reverse_index (wk_config wk)) st lv)"

definition action_open ::
  "'w IdListSyncWorker \<Rightarrow> list_id \<Rightarrow> DecodedLine list \<Rightarrow> ListSyncState \<Rightarrow> WorkerAction \<Rightarrow> TaskMetadata \<Rightarrow> list_view \<Rightarrow> bool" where
  "action_open wk li ds st a t lv \<longleftrightarrow>
     (case a of
        WorkerAction_Delta \<Rightarrow>
          (\<exists>st'. advanced st st' \<and> delta_ready li ds (wc_enable_reverse_index (wk_config wk)) st' lv)
      | WorkerAction_FullReload \<Rightarrow> reload_ready wk li ds (tm_file_id t) (task_version_tag t) lv
      | WorkerAction_Remove \<Rightarrow> removable li (wc_enable_reverse_index (wk_config wk)) lv)"

lemma perform_ok:
  fixes wk :: "'w IdListSyncWorker"
  assumes conf: "redis_conforms sc (list_rely li) (wk_pool wk) view" and ns: "namespace_ok (li_skh li)"
    and pre: "wk_key_prefix wk = li_prefix li" and cfg: "worker_config_ok (wk_config wk)"
    and claim: "claim_ok sc li view renewal" and g: "glob_ok sc" and iter: "\<And>s. finite s \<Longrightarrow> set (iterate s) = s"
    and http: "http_frame li view (wk_http wk)"
    and append: "a = WorkerAction_Delta \<Longrightarrow> ls_version (from_hash_fields h) \<noteq> [] \<and> ls_size (from_hash_fields h) < tm_size t"
  shows "vio_ok li view (\<lambda>lv. lv_state lv = Some h \<and> action_ready wk li ds (from_hash_fields h) a t lv)
    (perform wk iterate (li_skh li) (li_list li) (from_hash_fields h) a t renewal)
    (\<lambda>_. action_done wk li ds (from_hash_fields h) a t) (action_open wk li ds (from_hash_fields h) a t)"
proof (cases a)
  case WorkerAction_Delta
  have "claim_frame li view renewal" using claim by (simp add: claim_ok_def)
  note ok = apply_delta_ok [OF conf ns pre this http, where meta = t and ds = ds and st = "from_hash_fields h"]
  show ?thesis
    unfolding WorkerAction_Delta perform_def action_ready_def action_done_def action_open_def WorkerAction.case
  proof (rule io_okI, elim conjE exE)
    fix w len assume s: "served wk t ds len" "len \<le> unat (tm_size t)"
      and r: "delta_ready li ds (wc_enable_reverse_index (wk_config wk)) (from_hash_fields h) (list_view_of li (view w))"
    obtain body rem where f: "honest_origin (wk_http wk) (wk_parse_url wk) (tm_url t) body"
      "decode_lines 0 body = Inr (ds, rem)" "length body < 2 ^ 64" "length body \<le> unat (tm_size t)"
      using s by (auto simp: served_def)
    from ok [OF f] append [OF WorkerAction_Delta] r show "\<exists>res w'. apply_delta wk (li_skh li) (li_list li)
        (from_hash_fields h) t renewal w = Some (res, w') \<and>
        (case res of
           Inl _ \<Rightarrow> \<exists>st'. advanced (from_hash_fields h) st'
             \<and> delta_ready li ds (wc_enable_reverse_index (wk_config wk)) st' (list_view_of li (view w'))
         | Inr _ \<Rightarrow> \<exists>st'. advanced (from_hash_fields h) st'
             \<and> delta_complete li ds (wc_enable_reverse_index (wk_config wk)) st' (list_view_of li (view w')))"
      unfolding io_ok_def by blast
  qed
next
  case WorkerAction_FullReload
  note ok = apply_full_reload_ok [OF conf ns pre cfg claim g iter http, where meta = t and ds = ds and st = "from_hash_fields h"]
  show ?thesis
    unfolding WorkerAction_FullReload perform_def action_ready_def action_done_def action_open_def WorkerAction.case
  proof (rule io_okI, elim conjE exE)
    fix w len assume s: "served wk t ds len" "tm_size t = off_at ds (length ds)"
      and r: "reload_ready wk li ds (tm_file_id t) (task_version_tag t) (list_view_of li (view w))"
      and h: "lv_state (list_view_of li (view w)) = Some h"
    obtain body rem where f: "honest_origin (wk_http wk) (wk_parse_url wk) (tm_url t) body"
      "decode_lines 0 body = Inr (ds, rem)" "length body < 2 ^ 64"
      using s by (auto simp: served_def)
    have "read_as wk li ds (tm_file_id t) (task_version_tag t) (from_hash_fields h) (list_view_of li (view w))"
      using r h by (auto simp: reload_ready_def read_as_def)
    with ok [OF _ f s(2)] show "\<exists>res w'. apply_full_reload wk iterate (li_skh li) (li_list li)
        (from_hash_fields h) t renewal w = Some (res, w') \<and>
        (case res of
           Inl _ \<Rightarrow> reload_ready wk li ds (tm_file_id t) (task_version_tag t) (list_view_of li (view w'))
         | Inr _ \<Rightarrow> reload_done (wc_enable_reverse_index (wk_config wk)) ds (tm_file_id t) (list_view_of li (view w')))"
      unfolding io_ok_def by blast
  qed
next
  case WorkerAction_Remove
  show ?thesis
    unfolding WorkerAction_Remove perform_def action_ready_def action_done_def action_open_def WorkerAction.case
    by (rule io_ok_pre [OF apply_remove_ok [OF conf ns pre cfg claim g]]) simp
qed


definition turn_end ::
  "'w IdListSyncWorker \<Rightarrow> list_id \<Rightarrow> (TaskMetadata \<Rightarrow> DecodedLine list) \<Rightarrow> redis_hash \<Rightarrow> list_view
     \<Rightarrow> redis_hash \<Rightarrow> WorkerError + WorkerRunOutcome \<Rightarrow> list_view \<Rightarrow> bool" where
  "turn_end wk li lines h lv0 tf res lv \<longleftrightarrow>
     (let plan = planned (wc_enable_reverse_index (wk_config wk)) (live_forward h lv0) h tf in
      (case res of
         Inl _ \<Rightarrow> same_list lv0 lv
           \<or> (\<exists>a t. plan = Inr (Some (a, t)) \<and> action_open wk li (lines t) (from_hash_fields h) a t lv)
       | Inr Dropped \<Rightarrow> plan = Inr None \<and> same_list lv0 lv
       | Inr (Completed a) \<Rightarrow>
           (\<exists>t. plan = Inr (Some (a, t)) \<and> action_done wk li (lines t) (from_hash_fields h) a t lv)
       | Inr _ \<Rightarrow> False))"

abbreviation turn_ready ::
  "'w IdListSyncWorker \<Rightarrow> list_id \<Rightarrow> (TaskMetadata \<Rightarrow> DecodedLine list) \<Rightarrow> redis_hash \<Rightarrow> list_view \<Rightarrow> redis_hash \<Rightarrow> bool" where
  "turn_ready wk li lines h lv tf \<equiv>
     (\<forall>a t. planned (wc_enable_reverse_index (wk_config wk)) (live_forward h lv) h tf = Inr (Some (a, t)) \<longrightarrow>
        action_ready wk li (lines t) (from_hash_fields h) a t lv)"

lemma turn_ok:
  fixes wk :: "'w IdListSyncWorker"
  assumes conf: "redis_conforms sc (list_rely li) (wk_pool wk) view" and ns: "namespace_ok (li_skh li)"
    and pre: "wk_key_prefix wk = li_prefix li" and cfg: "worker_config_ok (wk_config wk)"
    and claim: "claim_ok sc li view renewal" and g: "glob_ok sc" and iter: "\<And>s. finite s \<Longrightarrow> set (iterate s) = s"
    and http: "http_frame li view (wk_http wk)" and rv: "wc_enable_reverse_index (wk_config wk)"
    and lv: "lv_state lv = Some h" "fwd_typed lv" and ready: "turn_ready wk li lines h lv tf"
  shows "vio_ok li view (\<lambda>lv'. lv' = lv)
    (bind (of_result (task_of tf h)) (\<lambda>task.
        (case task of
           None \<Rightarrow> ret Dropped
         | Some meta \<Rightarrow>
             bind (case tm_op meta of
                     TaskOp_Remove \<Rightarrow> ret (Some (WorkerAction_Remove, meta))
                   | TaskOp_Load \<Rightarrow> plan_work wk (li_skh li) (li_list li) (h \<noteq> no_fields) (from_hash_fields h) meta) (\<lambda>plan.
             (case plan of
                None \<Rightarrow> ret Dropped
              | Some (action, target) \<Rightarrow>
                  seq (when_io (\<not> wc_enable_reverse_index (wk_config wk)) (mark_disabled wk (li_skh li) (li_list li)))
                 (seq (perform wk iterate (li_skh li) (li_list li) (from_hash_fields h) action target renewal)
                    (ret (Completed action))))))))
    (\<lambda>r. turn_end wk li lines h lv tf (Inr r)) (\<lambda>lv'. \<exists>e. turn_end wk li lines h lv tf (Inl e) lv')"
proof (cases "task_of tf h")
  case (Inl e)
  then show ?thesis by (auto simp: of_result_def io_ok_def io_eval turn_end_def)
next
  case (Inr task)
  let ?en = "wc_enable_reverse_index (wk_config wk)" and ?st = "from_hash_fields h"
  let ?Q = "\<lambda>r. turn_end wk li lines h lv tf (Inr r)" and ?E = "\<lambda>lv'. \<exists>e. turn_end wk li lines h lv tf (Inl e) lv'"
  let ?plan = "planned ?en (live_forward h lv) h tf"
  have E: "?E lv'" if "same_list lv lv'" for lv' using that by (auto simp: turn_end_def)
  have rest: "vio_ok li view (\<lambda>lv'. ?plan = Inr p \<and> same_list lv lv' \<and> (p \<noteq> None \<longrightarrow> lv' = lv))
      (case p of
          None \<Rightarrow> ret Dropped
        | Some (action, target) \<Rightarrow>
            seq (when_io (\<not> ?en) (mark_disabled wk (li_skh li) (li_list li)))
           (seq (perform wk iterate (li_skh li) (li_list li) ?st action target renewal) (ret (Completed action)))) ?Q ?E" for p
  proof (rule io_ok_pure, cases p)
    assume "?plan = Inr p" "p = None"
    then show "vio_ok li view (\<lambda>lv'. same_list lv lv' \<and> (p \<noteq> None \<longrightarrow> lv' = lv)) (case p of None \<Rightarrow> ret Dropped
        | Some (action, target) \<Rightarrow>
            seq (when_io (\<not> ?en) (mark_disabled wk (li_skh li) (li_list li)))
           (seq (perform wk iterate (li_skh li) (li_list li) ?st action target renewal) (ret (Completed action)))) ?Q ?E"
      by (auto simp: turn_end_def intro!: io_ok_ret)
  next
    fix x assume plan: "?plan = Inr p" "p = Some x"
    obtain a t where x: "x = (a, t)" by force
    note pl = plan [unfolded x]
    have ap: "ls_version ?st \<noteq> [] \<and> ls_size ?st < tm_size t" if "a = WorkerAction_Delta"
      using planned_append pl that by metis
    have "vio_ok li view (\<lambda>lv'. lv' = lv) (perform wk iterate (li_skh li) (li_list li) ?st a t renewal)
        (\<lambda>_. action_done wk li (lines t) ?st a t) (action_open wk li (lines t) ?st a t)"
      by (rule io_ok_pre [OF perform_ok [OF conf ns pre cfg claim g iter http ap]]) (use lv ready pl in auto)
    then have "vio_ok li view (\<lambda>lv'. lv' = lv) (perform wk iterate (li_skh li) (li_list li) ?st a t renewal)
        (\<lambda>_. ?Q (Completed a)) ?E"
      by (rule io_ok_cons) (use pl in \<open>auto simp: turn_end_def\<close>)
    then have "vio_ok li view (\<lambda>lv'. lv' = lv)
        (seq (when_io (\<not> ?en) (mark_disabled wk (li_skh li) (li_list li)))
          (seq (perform wk iterate (li_skh li) (li_list li) ?st a t renewal) (ret (Completed a)))) ?Q ?E"
      using rv by (intro io_ok_seq) (auto simp: when_io_def intro!: io_ok_ret)
    then show "vio_ok li view (\<lambda>lv'. same_list lv lv' \<and> (p \<noteq> None \<longrightarrow> lv' = lv)) (case p of None \<Rightarrow> ret Dropped
        | Some (action, target) \<Rightarrow>
            seq (when_io (\<not> ?en) (mark_disabled wk (li_skh li) (li_list li)))
           (seq (perform wk iterate (li_skh li) (li_list li) ?st action target renewal) (ret (Completed action)))) ?Q ?E"
      unfolding pl(2) option.case prod.case by (rule io_ok_pre) simp
  qed
  show ?thesis
  proof (cases task)
    case None
    then show ?thesis using Inr by (auto simp: of_result_def io_ok_def io_eval turn_end_def planned_def)
  next
    case (Some meta)
    have "vio_ok li view (\<lambda>lv'. lv' = lv)
        (case tm_op meta of
           TaskOp_Remove \<Rightarrow> ret (Some (WorkerAction_Remove, meta))
         | TaskOp_Load \<Rightarrow> plan_work wk (li_skh li) (li_list li) (h \<noteq> no_fields) ?st meta)
        (\<lambda>p lv'. ?plan = Inr p \<and> same_list lv lv' \<and> (p \<noteq> None \<longrightarrow> lv' = lv)) ?E"
    proof (cases "tm_op meta")
      case TaskOp_Load
      then have "?plan = Inr (load_plan ?en (live_forward h lv) h meta)" by (simp add: planned_def Inr Some)
      then show ?thesis unfolding TaskOp_Load TaskOp.case
        by (intro io_ok_cons [OF plan_work_ok [OF conf ns pre lv(2)]]) (use E in auto)
    qed (auto simp: planned_def Inr Some intro!: io_ok_ret)
    from io_ok_bind [OF this rest] show ?thesis by (simp add: Inr Some of_result_def io_ok_def io_eval)
  qed
qed




subsection \<open>A turn on a local service\<close>

definition turn_task :: redis_hash where
  "turn_task = [''op'' \<mapsto> ''load'', ''file_id'' \<mapsto> ''g'', ''creation_time'' \<mapsto> show_u64 9, ''url'' \<mapsto> ''u'', ''size'' \<mapsto> show_u64 3]"

definition turn_keyspace :: keyspace where
  "turn_keyspace = removal_keyspace(task_meta_key [] ''abcd'' ''l'' \<mapsto> \<lparr>re_value = VHash turn_task, re_ttl = None\<rparr>)"

lemma turn_view: "list_view_of sample_li turn_keyspace = list_view_of sample_li removal_keyspace"
  by (rule view_owned) (use not_owned(4) [of sample_li] in \<open>auto simp: turn_keyspace_def sample_li_def sample_namespace\<close>)

lemma turn_state: "from_hash_fields sample_state_hash = list_sync_state_default\<lparr>ls_version := ''v'', ls_file_id := ''f''\<rparr>"
  by (simp add: from_hash_fields_def sample_state_hash_def list_sync_state_default_def unwrap_or_def parse_u64_show_u64)

lemma sample_marker: "turn_task \<noteq> no_fields" "sample_state_hash \<noteq> no_fields"
proof -
  have "turn_task ''op'' \<noteq> no_fields ''op''" "sample_state_hash ''version'' \<noteq> no_fields ''version''"
    by (simp_all add: turn_task_def sample_state_hash_def no_fields_def)
  then show "turn_task \<noteq> no_fields" "sample_state_hash \<noteq> no_fields" by metis+
qed

lemma turn_task_of: "task_of turn_task h = Inr (Some reload_task)"
proof -
  have "task_from_hash turn_task = Inr reload_task"
    by (simp add: task_from_hash_def then_sum_def parse_task_op_def parse_task_number_def
        turn_task_def parse_u64_show_u64 reload_task_def unwrap_or_def)
  then show ?thesis by (simp add: task_of_def sample_marker)
qed

lemma turn_plan_sync: "plan_sync_with_reverse_index (Some (from_hash_fields sample_state_hash)) (as_idlist_metadata reload_task) live True
    = Some (FullLoad, as_idlist_metadata reload_task)"
  by (simp add: plan_sync_with_reverse_index_def needs_work_with_reverse_index_def turn_state list_sync_state_default_def
      as_idlist_metadata_def reload_task_def)

lemma turn_load_task: "load_task (as_idlist_metadata reload_task) = reload_task" "tm_op reload_task = TaskOp_Load"
  by (simp_all add: load_task_def as_idlist_metadata_def reload_task_def)

lemma turn_planned: "planned True live sample_state_hash turn_task = Inr (Some (WorkerAction_FullReload, reload_task))"
  by (simp add: planned_def turn_task_of load_plan_def sample_marker turn_plan_sync turn_load_task)

lemma turn_keys_apart:
  "task_meta_key [] ''abcd'' ''l'' \<noteq> fwd_key [] ''abcd'' ''l'' v" "task_meta_key [] ''abcd'' ''l'' \<noteq> member_key [] ''abcd'' m"
  "task_meta_key [] ''abcd'' ''l'' \<noteq> claim_key [] ''abcd'' ''l''"
  using not_owned(4) [of sample_li] sample_namespace
    object_key_eq [of "TaskMeta ''abcd'' ''l''" "Claim ''abcd'' ''l''" "[]"]
  by (auto simp: owned_def sample_li_def)

lemma turn_reload_runs:
  "\<exists>w'. apply_full_reload (sample_worker reload_file) sorted_list_of_set ''abcd'' ''l''
       (from_hash_fields sample_state_hash) reload_task sample_renewal (turn_keyspace, ()) = Some (Inr (), w')"
  by (simp add: reload_eval diff_eval delta_eval local_eval worker_eval from_hash_fields_def sample_state_hash_def
      unwrap_or_def turn_keyspace_def removal_keyspace_def rotation_keyspace_def Let_def parse_u64_show_u64 sample_keys sample_others_apart
      sample_others_apart [symmetric] turn_keys_apart turn_keys_apart [symmetric]
      reload_task_def task_version_tag_def as_idlist_metadata_def version_tag_def)


lemma turn_read:
  "read_task (sample_worker f) ''abcd'' ''l'' (turn_keyspace, ()) = Some (Inr (turn_task, sample_state_hash), (turn_keyspace, ()))"
  by (simp add: read_task_def sample_worker_def local_eval turn_keyspace_def removal_keyspace_def rotation_keyspace_def
      sample_keys sample_others_apart sample_others_apart [symmetric] turn_keys_apart turn_keys_apart [symmetric])

lemma turn_plan_work:
  "plan_work (sample_worker f) ''abcd'' ''l'' True (from_hash_fields sample_state_hash) reload_task (turn_keyspace, ())
     = Some (Inr (Some (WorkerAction_FullReload, reload_task)), (turn_keyspace, ()))"
proof -
  have wk: "wc_enable_reverse_index (wk_config (sample_worker f))" by (simp add: sample_worker_def worker_config_default_def)
  have ex: "key_exists (sample_worker f) k (turn_keyspace, ()) = Some (Inr (turn_keyspace k \<noteq> None), (turn_keyspace, ()))" for k
    by (simp add: key_exists_def sample_worker_def local_eval)
  show ?thesis
    by (simp add: plan_work_def bind_def ex ret_def seq_def turn_plan_sync turn_load_task wk)
qed

lemma turn_runs:
  "\<exists>w'. run_claimed (sample_worker reload_file) sorted_list_of_set ''abcd'' ''l'' sample_renewal (turn_keyspace, ())
     = Some (Inr (Completed WorkerAction_FullReload), w')"
proof -
  have wk: "wc_enable_reverse_index (wk_config (sample_worker f))" for f by (simp add: sample_worker_def worker_config_default_def)
  obtain w' where "apply_full_reload (sample_worker reload_file) sorted_list_of_set ''abcd'' ''l''
       (from_hash_fields sample_state_hash) reload_task sample_renewal (turn_keyspace, ()) = Some (Inr (), w')"
    using turn_reload_runs by blast
  then show ?thesis
    by (cases w') (simp add: run_claimed_def bind_def turn_read turn_task_of of_result_def ret_def Let_def sample_marker turn_load_task
        turn_plan_work seq_def when_io_def wk perform_def)
qed


end
