(* ===== verification/Backoff.thy ===== *)
theory Backoff
  imports ProviderTypes
begin

text \<open>
  Request backoff: \<open>datastore/data_providers/request_backoff.rs\<close>. The policy, the controller's
  map of per-key states and its operations, with the time of each call as an argument (the
  public wrappers pass \<open>Instant::now()\<close>). Failure counters are \<open>u32\<close> and saturate.
\<close>

section \<open>Policy and controller\<close>

record RequestBackoffPolicy =
  initial_delay :: nat
  max_delay :: nat

definition from_polling_interval :: "u64 \<Rightarrow> RequestBackoffPolicy" where
  "from_polling_interval s =
     (let base = max s 1
      in \<lparr>initial_delay = from_secs base,
          max_delay = from_secs (min (sat_mul base 32) 300)\<rparr>)"

definition u32_max :: nat where
  "u32_max = 2 ^ 32 - 1"

definition delay_for_failure :: "RequestBackoffPolicy \<Rightarrow> nat \<Rightarrow> nat" where
  "delay_for_failure pol n =
     (let ex = min (n - 1) 31;
          factor = min (2 ^ ex) u32_max;
          scaled = (case checked_mul (initial_delay pol) factor of
                      Some d \<Rightarrow> d | None \<Rightarrow> max_delay pol)
      in min scaled (max_delay pol))"

type_synonym backoff_key = "rc_key \<times> string option"

record RequestBackoffState =
  consecutive_failures :: nat
  retry_after :: nat
  last_seen :: nat

record RequestBackoffController =
  policy :: RequestBackoffPolicy
  state_by_key :: "backoff_key \<Rightarrow> RequestBackoffState option"

definition backoff_new :: "RequestBackoffPolicy \<Rightarrow> RequestBackoffController" where
  "backoff_new pol = \<lparr>policy = pol, state_by_key = (\<lambda>_. None)\<rparr>"

definition can_attempt_at ::
  "backoff_key \<Rightarrow> nat \<Rightarrow> RequestBackoffController \<Rightarrow> bool \<times> RequestBackoffController" where
  "can_attempt_at k now c =
     (case state_by_key c k of
        None \<Rightarrow> (True, c)
      | Some st \<Rightarrow>
          (retry_after st \<le> now,
           c\<lparr>state_by_key := (state_by_key c)(k \<mapsto> st\<lparr>last_seen := now\<rparr>)\<rparr>))"

definition record_success :: "backoff_key \<Rightarrow> RequestBackoffController \<Rightarrow> RequestBackoffController" where
  "record_success k c = c\<lparr>state_by_key := (state_by_key c)(k := None)\<rparr>"

definition record_failure_at ::
  "backoff_key \<Rightarrow> nat \<Rightarrow> RequestBackoffController \<Rightarrow> RequestBackoffController" where
  "record_failure_at k now c =
     (let st' = (case state_by_key c k of
                   Some st \<Rightarrow>
                     let n = min (consecutive_failures st + 1) u32_max
                     in st\<lparr>consecutive_failures := n,
                           retry_after := now + delay_for_failure (policy c) n,
                           last_seen := now\<rparr>
                 | None \<Rightarrow>
                     \<lparr>consecutive_failures = 1,
                      retry_after = now + delay_for_failure (policy c) 1,
                      last_seen = now\<rparr>)
      in c\<lparr>state_by_key := (state_by_key c)(k \<mapsto> st')\<rparr>)"

definition record_result ::
  "backoff_key \<Rightarrow> DataProviderRequestResult \<Rightarrow> nat \<Rightarrow> RequestBackoffController
     \<Rightarrow> RequestBackoffController" where
  "record_result k res now c =
     (case res of
        Unauthorized \<Rightarrow> record_success k c
      | ProviderError \<Rightarrow> record_failure_at k now c
      | _ \<Rightarrow> record_success k c)"

text \<open>
  Pruning first collects the stale keys and then removes each of them; \<open>others\<close> is what other
  tasks did to the controller in between.
\<close>

definition stale_after :: "RequestBackoffPolicy \<Rightarrow> nat" where
  "stale_after pol = (case checked_mul (max_delay pol) 2 of Some d \<Rightarrow> d | None \<Rightarrow> max_delay pol)"

definition stale_keys :: "nat \<Rightarrow> RequestBackoffController \<Rightarrow> backoff_key set" where
  "stale_keys now c =
     {k. case state_by_key c k of
           None \<Rightarrow> False
         | Some st \<Rightarrow> stale_after (policy c) < now - last_seen st}"

definition prune_stale_at ::
  "nat \<Rightarrow> (RequestBackoffController \<Rightarrow> RequestBackoffController) \<Rightarrow> RequestBackoffController
     \<Rightarrow> RequestBackoffController" where
  "prune_stale_at now others c =
     (let gone = stale_keys now c; c' = others c
      in c'\<lparr>state_by_key := (\<lambda>k. if k \<in> gone then None else state_by_key c' k)\<rparr>)"

section \<open>The delay\<close>

definition policy_ok :: "RequestBackoffPolicy \<Rightarrow> bool" where
  "policy_ok pol \<longleftrightarrow> max_delay pol \<le> duration_max"

lemma policy_ok_from_polling_interval [simp]: "policy_ok (from_polling_interval s)"
  by (simp add: policy_ok_def from_polling_interval_def from_secs_le_max Let_def)

lemma delay_for_failure_eq:
  "policy_ok pol \<Longrightarrow>
     delay_for_failure pol n = min (initial_delay pol * 2 ^ min (n - 1) 31) (max_delay pol)"
proof -
  assume ok: "policy_ok pol"
  have "(2::nat) ^ min (n - 1) 31 \<le> 2 ^ 31" by (rule power_increasing) auto
  then have "min (2 ^ min (n - 1) 31) u32_max = (2::nat) ^ min (n - 1) 31"
    by (intro min_absorb1) (simp add: u32_max_def)
  then show ?thesis using ok
    by (auto simp: delay_for_failure_def Let_def checked_mul_def policy_ok_def)
qed

lemma delay_for_failure_le_max: "delay_for_failure pol n \<le> max_delay pol"
  by (simp add: delay_for_failure_def Let_def)

lemma max_delay_from_polling_interval:
  "max_delay (from_polling_interval s) = min (32 * max (unat s) 1) 300 * 10 ^ 9"
proof -
  have [simp]: "unat (max s 1) = max (unat s) 1"
    by (simp add: max_def word_le_nat_alt)
  have "unat (min (sat_mul (max s 1) 32) 300) = min (unat (sat_mul (max s 1) 32)) 300"
    by (simp add: min_def word_le_nat_alt)
  also have "\<dots> = min (32 * max (unat s) 1) 300"
    by (simp add: unat_sat_mul mult.commute)
  finally show ?thesis by (simp add: from_polling_interval_def from_secs_def Let_def)
qed

lemma initial_delay_from_polling_interval:
  "initial_delay (from_polling_interval s) = max (unat s) 1 * 10 ^ 9"
  by (simp add: from_polling_interval_def from_secs_def Let_def max_def word_le_nat_alt)

lemma min_scale: "min (a * k * b) (c * k) = min (a * b) c * (k :: nat)"
  unfolding nat_mult_min_left by (simp add: ac_simps)

text \<open>
  With a polling interval of \<open>s\<close> seconds the \<open>n\<close>-th consecutive failure delays the key by
  the interval doubled \<open>n - 1\<close> times (at most 31 times), capped by the lesser of 32 intervals
  and 300 seconds; no \<open>Duration\<close> overflows, and the delay never shrinks as failures add up.
\<close>

theorem delay_closed_form:
  "delay_for_failure (from_polling_interval s) n
     = min (max (unat s) 1 * 2 ^ min (n - 1) 31) (min (32 * max (unat s) 1) 300) * 10 ^ 9
   \<and> delay_for_failure (from_polling_interval s) n \<le> 300 * 10 ^ 9
   \<and> delay_for_failure (from_polling_interval s) n
       \<le> delay_for_failure (from_polling_interval s) (Suc n)"
proof -
  have eq: "delay_for_failure (from_polling_interval s) m
     = min (max (unat s) 1 * 2 ^ min (m - 1) 31) (min (32 * max (unat s) 1) 300) * 10 ^ 9" for m
    unfolding delay_for_failure_eq [OF policy_ok_from_polling_interval]
      max_delay_from_polling_interval initial_delay_from_polling_interval by (rule min_scale)
  have pow: "(2::nat) ^ min (n - 1) 31 \<le> 2 ^ min (Suc n - 1) 31"
    by (rule power_increasing) auto
  have "delay_for_failure (from_polling_interval s) n
     \<le> delay_for_failure (from_polling_interval s) (Suc n)"
    unfolding eq by (intro mult_right_mono min.mono mult_left_mono pow order_refl) simp_all
  moreover have "delay_for_failure (from_polling_interval s) n \<le> 300 * 10 ^ 9"
    unfolding eq by (intro mult_right_mono) auto
  ultimately show ?thesis using eq by blast
qed

section \<open>When an attempt is allowed\<close>

lemma record_failure_policy [simp]: "policy (record_failure_at k t c) = policy c"
  by (simp add: record_failure_at_def Let_def)

lemma record_failure_other [simp]:
  "k' \<noteq> k \<Longrightarrow> state_by_key (record_failure_at k t c) k' = state_by_key c k'"
  by (simp add: record_failure_at_def Let_def)

lemma failures_in_a_row:
  assumes "state_by_key c k = None" and "ts \<noteq> []" and "length ts \<le> u32_max"
  shows "state_by_key (foldl (\<lambda>c t. record_failure_at k t c) c ts) k =
     Some \<lparr>consecutive_failures = length ts,
           retry_after = last ts + delay_for_failure (policy c) (length ts), last_seen = last ts\<rparr>
   \<and> policy (foldl (\<lambda>c t. record_failure_at k t c) c ts) = policy c"
  using assms(2,3)
proof (induction ts rule: rev_induct)
  case Nil
  then show ?case by simp
next
  case (snoc t ts)
  show ?case
  proof (cases "ts = []")
    case True
    then show ?thesis using assms(1) by (simp add: record_failure_at_def Let_def)
  next
    case False
    with snoc show ?thesis by (simp add: record_failure_at_def Let_def min_def)
  qed
qed

text \<open>
  After failures at the times \<open>ts\<close> with no success in between, the key is blocked until
  exactly the delay of that many failures has passed since the last one.
\<close>

theorem blocked_until_delay:
  assumes "state_by_key c k = None" and "ts \<noteq> []" and "length ts \<le> u32_max"
  shows "fst (can_attempt_at k now (foldl (\<lambda>c t. record_failure_at k t c) c ts))
     \<longleftrightarrow> last ts + delay_for_failure (policy c) (length ts) \<le> now"
  using failures_in_a_row [OF assms] by (simp add: can_attempt_at_def)

definition sample_key :: backoff_key where
  "sample_key = ((''secret-1'', V1GetIdLists, [PlainText], False, False, None, None), None)"

theorem blocked_until_delay_witness:
  "\<not> fst (can_attempt_at sample_key (38 * 10 ^ 9)
       (foldl (\<lambda>c t. record_failure_at sample_key t c) (backoff_new (from_polling_interval 10))
          [0, 20 * 10 ^ 9]))
   \<and> fst (can_attempt_at sample_key (40 * 10 ^ 9)
       (foldl (\<lambda>c t. record_failure_at sample_key t c) (backoff_new (from_polling_interval 10))
          [0, 20 * 10 ^ 9]))"
proof -
  have a: "state_by_key (backoff_new (from_polling_interval 10)) sample_key = None"
    and b: "[0, 20 * 10 ^ 9 :: nat] \<noteq> []" and l: "length [0, 20 * 10 ^ 9 :: nat] \<le> u32_max"
    by (simp_all add: backoff_new_def u32_max_def)
  have d: "delay_for_failure (from_polling_interval 10) (Suc (Suc 0)) = 20 * 10 ^ 9"
    by (simp add: delay_for_failure_eq max_delay_from_polling_interval
        initial_delay_from_polling_interval)
  show ?thesis
    unfolding blocked_until_delay [OF a b l] by (simp add: backoff_new_def d)
qed

text \<open>
  Every result but an error clears the key, unauthorised ones included, an error blocks
  it, and no result touches another key.
\<close>

lemma record_result_effect:
  "(fst (can_attempt_at k t (record_result k res now c)) \<longleftrightarrow>
      (case res of
         ProviderError \<Rightarrow> now + delay_for_failure (policy c)
            (case state_by_key c k of
               None \<Rightarrow> 1 | Some st \<Rightarrow> min (consecutive_failures st + 1) u32_max) \<le> t
       | _ \<Rightarrow> True))
   \<and> (state_by_key (record_result k res now c) k = None \<longleftrightarrow> res \<noteq> ProviderError)
   \<and> (k' = k \<or> state_by_key (record_result k res now c) k' = state_by_key c k')"
  by (cases res; cases "state_by_key c k")
     (auto simp: record_result_def record_success_def record_failure_at_def can_attempt_at_def Let_def)

section \<open>Reachable controllers and pruning\<close>

text \<open>
  The controller under any sequence of calls at non-decreasing times: the state is the time
  of the last call and the controller.
\<close>

inductive backoff_step :: "nat \<times> RequestBackoffController \<Rightarrow> nat \<times> RequestBackoffController \<Rightarrow> bool" where
  attempt: "t \<le> now \<Longrightarrow> backoff_step (t, c) (now, snd (can_attempt_at k now c))"
| result: "t \<le> now \<Longrightarrow> backoff_step (t, c) (now, record_result k res now c)"
| prune: "t \<le> now \<Longrightarrow> backoff_step (t, c) (now, prune_stale_at now (\<lambda>c. c) c)"

inductive_cases backoff_stepE: "backoff_step (t, c) s"

inductive backoff_reachable :: "RequestBackoffPolicy \<Rightarrow> nat \<times> RequestBackoffController \<Rightarrow> bool"
  for pol where
  start: "backoff_reachable pol (0, backoff_new pol)"
| step: "backoff_reachable pol s \<Longrightarrow> backoff_step s s' \<Longrightarrow> backoff_reachable pol s'"

definition backoff_inv :: "RequestBackoffPolicy \<Rightarrow> nat \<times> RequestBackoffController \<Rightarrow> bool" where
  "backoff_inv pol s \<longleftrightarrow> policy (snd s) = pol \<and>
     (\<forall>k st. state_by_key (snd s) k = Some st \<longrightarrow>
        1 \<le> consecutive_failures st \<and> consecutive_failures st \<le> u32_max
        \<and> last_seen st \<le> fst s \<and> retry_after st \<le> last_seen st + max_delay pol)"

lemma backoff_inv_attempt:
  "backoff_inv pol (t, c) \<Longrightarrow> t \<le> now \<Longrightarrow> backoff_inv pol (now, snd (can_attempt_at k now c))"
  by (fastforce simp: backoff_inv_def can_attempt_at_def split: option.splits if_splits)

lemma backoff_inv_success:
  "backoff_inv pol (t, c) \<Longrightarrow> t \<le> now \<Longrightarrow> backoff_inv pol (now, record_success k c)"
  by (fastforce simp: backoff_inv_def record_success_def split: if_splits)

lemma backoff_inv_failure:
  "backoff_inv pol (t, c) \<Longrightarrow> t \<le> now \<Longrightarrow> backoff_inv pol (now, record_failure_at k now c)"
  by (fastforce simp: backoff_inv_def record_failure_at_def Let_def u32_max_def
      delay_for_failure_le_max split: option.splits if_splits)

lemma backoff_inv_prune:
  "backoff_inv pol (t, c) \<Longrightarrow> t \<le> now \<Longrightarrow> backoff_inv pol (now, prune_stale_at now (\<lambda>c. c) c)"
  by (fastforce simp: backoff_inv_def prune_stale_at_def Let_def split: if_splits)

lemma backoff_inv_reachable: "backoff_reachable pol s \<Longrightarrow> backoff_inv pol s"
proof (induction rule: backoff_reachable.induct)
  case start
  show ?case by (simp add: backoff_inv_def backoff_new_def)
next
  case (step s s')
  obtain t c where s: "s = (t, c)" by (cases s)
  from step.hyps(2) step.IH show ?case unfolding s
    by (elim backoff_stepE)
       (auto simp: record_result_def backoff_inv_attempt backoff_inv_success backoff_inv_failure
          backoff_inv_prune split: DataProviderRequestResult.splits)
qed

lemma stale_after_ge: "policy_ok pol \<Longrightarrow> max_delay pol \<le> stale_after pol"
  by (auto simp: stale_after_def checked_mul_def split: option.splits)

text \<open>
  Pruning never lets a request through early. In every reachable controller, pruning at
  the current time leaves the answer of every key's next attempt, now or later, as it was
  without pruning, provided no other task touches the keys being pruned meanwhile.
\<close>

theorem prune_keeps_answers:
  assumes reach: "backoff_reachable pol (t, c)" and pol: "policy_ok pol"
    and times: "t \<le> now" "now \<le> later"
    and others: "\<forall>k \<in> stale_keys now c. state_by_key (others c) k = state_by_key c k"
  shows "fst (can_attempt_at k later (prune_stale_at now others c))
           \<longleftrightarrow> fst (can_attempt_at k later (others c))"
proof (cases "k \<in> stale_keys now c")
  case False
  then show ?thesis by (simp add: prune_stale_at_def can_attempt_at_def Let_def split: option.splits)
next
  case True
  then obtain st where st: "state_by_key c k = Some st"
    and stale: "stale_after (policy c) < now - last_seen st"
    by (auto simp: stale_keys_def split: option.splits)
  have inv: "policy c = pol" "retry_after st \<le> last_seen st + max_delay pol"
    using backoff_inv_reachable [OF reach] st by (auto simp: backoff_inv_def simp del: split_paired_All)
  have "retry_after st \<le> later"
    using stale inv stale_after_ge [OF pol] times by simp
  then show ?thesis
    using True others st by (simp add: prune_stale_at_def can_attempt_at_def Let_def)
qed

theorem prune_keeps_answers_witness:
  "fst (can_attempt_at sample_key (700 * 10 ^ 9) (prune_stale_at (700 * 10 ^ 9) (\<lambda>c. c)
      (record_result sample_key ProviderError 0 (backoff_new (from_polling_interval 10)))))
   \<longleftrightarrow> fst (can_attempt_at sample_key (700 * 10 ^ 9)
      (record_result sample_key ProviderError 0 (backoff_new (from_polling_interval 10))))"
proof -
  have "backoff_reachable (from_polling_interval 10)
     (0, record_result sample_key ProviderError 0 (backoff_new (from_polling_interval 10)))"
    by (rule backoff_reachable.step [OF backoff_reachable.start]) (rule backoff_step.result, simp)
  from prune_keeps_answers [OF this, of "700 * 10 ^ 9" "700 * 10 ^ 9" "\<lambda>c. c" sample_key]
  show ?thesis by simp
qed

end
