(* ===== verification/PollDispatch.thy ===== *)
theory PollDispatch
  imports ProviderTypes
begin

text \<open>
  Scheduling of the background polls: \<open>data_providers/background_poll_dispatch.rs\<close> (the dispatch
  configuration, the jittered poll interval and the per-cycle order of requests) and
  \<open>data_providers/background_request_interval_tracker.rs\<close>. The hasher of the standard library
  is an argument of \<open>dispatch_rank\<close>, and the two random UUIDs of \<open>new\<close> are arguments too.
\<close>

unbundle bit_operations_syntax

record BackgroundPollDispatchConfig =
  max_in_flight :: nat
  item_spacing_ms :: u64
  jitter_seed :: u64

definition dispatch_config_new ::
  "128 word \<Rightarrow> 128 word \<Rightarrow> u64 \<Rightarrow> u64 \<Rightarrow> BackgroundPollDispatchConfig" where
  "dispatch_config_new uuid1 uuid2 in_flight spacing =
     \<lparr>max_in_flight = unat (max in_flight 1), item_spacing_ms = spacing,
      jitter_seed = ucast uuid1 XOR ucast (drop_bit 64 uuid2)\<rparr>"

definition background_dispatch_shaping_enabled :: "BackgroundPollDispatchConfig \<Rightarrow> nat \<Rightarrow> bool" where
  "background_dispatch_shaping_enabled cfg n \<longleftrightarrow> 0 < item_spacing_ms cfg \<or> max_in_flight cfg < n"

definition launch_spacing :: "BackgroundPollDispatchConfig \<Rightarrow> nat" where
  "launch_spacing cfg = from_millis (item_spacing_ms cfg)"

definition cycle_jitter_mix :: "u64 \<Rightarrow> u64 \<Rightarrow> u64" where
  "cycle_jitter_mix cycle seed =
     word_rotl (unat (cycle AND 63)) seed XOR (cycle * 0x9E3779B97F4A7C15)"

definition u64_max :: nat where
  "u64_max = 2 ^ 64 - 1"

text \<open>The base interval in milliseconds, clamped to the range of \<open>u64\<close> from one.\<close>

definition base_interval_ms :: "nat \<Rightarrow> nat" where
  "base_interval_ms base = min (max (base div 10 ^ 6) 1) u64_max"

definition poll_interval_for_cycle :: "BackgroundPollDispatchConfig \<Rightarrow> nat \<Rightarrow> u64 \<Rightarrow> nat" where
  "poll_interval_for_cycle cfg base cycle =
     (let b = base_interval_ms base;
          window = max (b div 10) 1;
          buckets = min (min (window * 2) u64_max + 1) u64_max;
          bucket = unat (cycle_jitter_mix cycle (jitter_seed cfg)) mod buckets;
          off = int bucket - int window;
          ms = (if off < 0 then max (b - nat \<bar>off\<bar>) 1 else min (b + nat off) u64_max)
      in ms * 10 ^ 6)"

definition dispatch_rank :: "('k \<Rightarrow> u64) \<Rightarrow> 'k \<Rightarrow> u64 \<Rightarrow> u64 \<Rightarrow> u64" where
  "dispatch_rank hash k cycle seed = hash k XOR cycle_jitter_mix cycle seed"

text \<open>The tracker's map from contexts to the time of their last completed request.\<close>

definition record_completed_request_at ::
  "AuthorizedRequestContext \<Rightarrow> nat \<Rightarrow> (rc_key \<Rightarrow> nat option) \<Rightarrow> int option \<times> (rc_key \<Rightarrow> nat option)" where
  "record_completed_request_at rc t m =
     (map_option (\<lambda>prev. min (int ((t - prev) div 10 ^ 6)) (2 ^ 63 - 1)) (m (rc_id rc)),
      m(rc_id rc \<mapsto> t))"

section \<open>Properties\<close>

lemma dispatch_config_new_in_flight: "1 \<le> max_in_flight (dispatch_config_new u v n sp)"
  by (simp add: dispatch_config_new_def max_def word_le_nat_alt)

lemma jitter_buckets:
  assumes "1 \<le> b" "b \<le> u64_max" and "w = max (b div 10) 1"
  shows "min (min (w * 2) u64_max + 1) u64_max = 2 * w + 1"
  using assms by (simp add: u64_max_def)

lemma jittered_bounds:
  assumes "1 \<le> (b :: nat)" "b \<le> M" "x \<le> 2 * w"
  defines "off \<equiv> int x - int w"
  defines "ms \<equiv> (if off < 0 then max (b - nat \<bar>off\<bar>) 1 else min (b + nat off) M)"
  shows "1 \<le> ms \<and> ms \<le> M \<and> b - w \<le> ms \<and> ms \<le> b + w"
  using assms(1-3) unfolding ms_def off_def
  by (cases "int x - int w < 0") (simp_all only: if_True if_False, linarith+)

lemma base_interval_ms_bounds: "1 \<le> base_interval_ms base \<and> base_interval_ms base \<le> u64_max"
  by (simp add: base_interval_ms_def u64_max_def)

text \<open>
  In every cycle and for every seed the jittered interval stays within a tenth of the
  configured interval (a millisecond at least) and is never zero; no saturation is reached
  but at the top of the range of milliseconds.
\<close>

theorem poll_interval_bounds:
  "\<exists>ms. poll_interval_for_cycle cfg base cycle = ms * 10 ^ 6
     \<and> 1 \<le> ms \<and> ms \<le> u64_max
     \<and> base_interval_ms base - max (base_interval_ms base div 10) 1 \<le> ms
     \<and> ms \<le> base_interval_ms base + max (base_interval_ms base div 10) 1"
proof -
  let ?b = "base_interval_ms base"
  let ?w = "max (?b div 10) 1"
  let ?x = "unat (cycle_jitter_mix cycle (jitter_seed cfg)) mod (2 * ?w + 1)"
  have b: "1 \<le> ?b" "?b \<le> u64_max" using base_interval_ms_bounds [of base] by simp_all
  have "?x < 2 * ?w + 1" by (rule mod_less_divisor) simp
  then have x: "?x \<le> 2 * ?w" by linarith
  have eq: "poll_interval_for_cycle cfg base cycle =
     (if int ?x - int ?w < 0 then max (?b - nat \<bar>int ?x - int ?w\<bar>) 1
      else min (?b + nat (int ?x - int ?w)) u64_max) * 10 ^ 6"
    by (simp only: poll_interval_for_cycle_def Let_def jitter_buckets [OF b refl])
  show ?thesis
    by (rule exI, rule conjI, rule eq, rule jittered_bounds [OF b x])
qed

text \<open>
  The per-cycle order ties two requests in one cycle exactly when it ties them in all,
  that is, when their hashes collide: the jitter permutes the ranks and merges none.
\<close>

theorem dispatch_rank_injective:
  "(dispatch_rank hash k cycle seed = dispatch_rank hash k' cycle seed \<longleftrightarrow> hash k = hash k')
   \<and> surj (\<lambda>h. dispatch_rank (\<lambda>_. h) k cycle seed)"
proof (intro conjI)
  let ?m = "cycle_jitter_mix cycle seed"
  have undo: "(x XOR ?m) XOR ?m = x" for x :: u64
    by (simp add: xor.assoc)
  show "dispatch_rank hash k cycle seed = dispatch_rank hash k' cycle seed \<longleftrightarrow> hash k = hash k'"
    unfolding dispatch_rank_def using undo by metis
  show "surj (\<lambda>h. dispatch_rank (\<lambda>_. h) k cycle seed)"
    unfolding dispatch_rank_def surj_def using undo by metis
qed

end
