(* ===== verification/BackgroundProvider.thy ===== *)
theory BackgroundProvider
  imports HttpProvider Backoff PollDispatch Stores "HOL-Library.Multiset"
begin

text \<open>
  The background data provider: \<open>data_providers/background_data_provider.rs\<close>. How a result of the
  origin is turned into notifications, the selection and ordering of the requests of a cycle,
  the executor that keeps a bounded number of requests in flight (a step relation, since its
  tasks interleave), and the foreground fetch with its per-key lock.

  A task of the executor takes effect in one step when it finishes; a request that runs into
  the guard timeout has the effect of a recorded failure only. The observers and the backup
  cache of a route are arguments, as the builders hold them as trait objects.
\<close>

section \<open>Processing a result\<close>

record 's world =
  shared :: 's
  spawned :: "('s \<Rightarrow> 's) list"
  touch_permits :: nat
  touches :: "AuthorizedRequestContext list"

definition notify_observers ::
  "'s observer list \<Rightarrow> AuthorizedRequestContext \<Rightarrow> ResponseContext \<Rightarrow> 's world \<Rightarrow> 's world" where
  "notify_observers obs rc rsp w =
     (let (s, later) = notify_all obs rc rsp (shared w)
      in w\<lparr>shared := s, spawned := spawned w @ later\<rparr>)"

text \<open>A touch needs one of the 64 permits and gives it back when its task ends.\<close>

definition max_in_flight_backup_cache_touches :: nat where
  "max_in_flight_backup_cache_touches = 64"

definition dispatch_backup_cache_touch :: "AuthorizedRequestContext \<Rightarrow> 's world \<Rightarrow> 's world" where
  "dispatch_backup_cache_touch rc w =
     (if touch_permits w = 0 then w
      else w\<lparr>touch_permits := touch_permits w - 1, touches := touches w @ [rc]\<rparr>)"

definition empty_payload :: ResponsePayload where
  "empty_payload = \<lparr>rp_encoding = PlainText, rp_data = [], rp_use_proto = False\<rparr>"

definition process_result ::
  "'s observer list \<Rightarrow> (AuthorizedRequestContext \<Rightarrow> 's \<Rightarrow> ConfigSpecForCompany option)
     \<Rightarrow> DataProviderResult \<Rightarrow> AuthorizedRequestContext \<Rightarrow> u64 \<Rightarrow> bool \<Rightarrow> 's world
     \<Rightarrow> DataProviderRequestResult \<times> 's world" where
  "process_result obs backup_get d rc lcut clear w =
     (dpr_result d,
      case dpr_result d of
        DataAvailable \<Rightarrow>
          (case dpr_body d of
             None \<Rightarrow> w
           | Some body \<Rightarrow>
               if \<not> rc_use_lcut rc \<or> lcut \<noteq> dpr_lcut d
               then notify_observers obs rc
                      \<lparr>rsp_result_type = DataAvailable, rsp_lcut = dpr_lcut d,
                       rsp_request_since_time = lcut, rsp_body = body\<rparr> w
               else w)
      | NoDataAvailable \<Rightarrow> dispatch_backup_cache_touch rc w
      | ProviderError \<Rightarrow>
          (case backup_get rc (shared w) of
             None \<Rightarrow> w
           | Some backup \<Rightarrow>
               notify_observers obs rc
                 \<lparr>rsp_result_type = ProviderError, rsp_lcut = cs_lcut backup,
                  rsp_request_since_time = lcut, rsp_body = cs_config backup\<rparr> w)
      | Unauthorized \<Rightarrow>
          if clear
          then notify_observers obs rc
                 \<lparr>rsp_result_type = Unauthorized, rsp_lcut = lcut,
                  rsp_request_since_time = lcut, rsp_body = empty_payload\<rparr> w
          else w
      | ClientError \<Rightarrow>
          notify_observers obs rc
            \<lparr>rsp_result_type = ClientError, rsp_lcut = lcut,
             rsp_request_since_time = lcut, rsp_body = empty_payload\<rparr> w)"

section \<open>One request\<close>

record ('s, 'n) fetch_env =
  env_send :: "'n sender"
  env_sha256 :: "string \<Rightarrow> string"
  env_observers :: "NormalizedPath \<Rightarrow> 's observer list"
  env_backup_get :: "NormalizedPath \<Rightarrow> AuthorizedRequestContext \<Rightarrow> 's \<Rightarrow> ConfigSpecForCompany option"
  env_hash :: "backoff_key \<Rightarrow> u64"

record ('s, 'n) fetch_state =
  fs_builders :: request_builders
  fs_net :: 'n
  fs_world :: "'s world"
  fs_backoff :: RequestBackoffController
  fs_completed_at :: "rc_key \<Rightarrow> nat option"

definition process_request ::
  "('s, 'n) fetch_env \<Rightarrow> RequestBuilder \<Rightarrow> AuthorizedRequestContext \<Rightarrow> u64 \<Rightarrow> bool
     \<Rightarrow> ('s, 'n) fetch_state \<Rightarrow> DataProviderRequestResult \<times> ('s, 'n) fetch_state" where
  "process_request env b rc lcut clear st =
     (let (d, b', n') = http_get (env_send env) (env_sha256 env) rc lcut b (fs_net st);
          (res, w') = process_result (env_observers env (rc_path rc)) (env_backup_get env (rc_path rc))
                        d rc lcut clear (fs_world st)
      in (res, st\<lparr>fs_builders := (fs_builders st)(rc_path rc \<mapsto> b'), fs_net := n', fs_world := w'\<rparr>))"

definition request_key :: "SdkKeyStoreItem \<Rightarrow> backoff_key" where
  "request_key item = (rc_id (item_rc item), None)"

text \<open>
  The task that \<open>spawn_prepared_request\<close> starts: \<open>timed_out\<close> says whether the guard timeout
  ended it, \<open>now\<close> is when it ends.
\<close>

definition run_prepared_request ::
  "('s, 'n) fetch_env \<Rightarrow> bool \<Rightarrow> bool \<Rightarrow> bool \<Rightarrow> nat \<Rightarrow> SdkKeyStoreItem
     \<Rightarrow> ('s, 'n) fetch_state \<Rightarrow> ('s, 'n) fetch_state" where
  "run_prepared_request env clear publish timed_out now item st =
     (let st' =
        (if timed_out
         then st\<lparr>fs_backoff := record_failure_at (request_key item) now (fs_backoff st)\<rparr>
         else (case get_request_builder (fs_builders st) (rc_path (item_rc item)) of
             None \<Rightarrow> st
           | Some b \<Rightarrow>
               (let (res, st1) = process_request env b (item_rc item) (item_lcut item) clear st
                in st1\<lparr>fs_backoff := record_result (request_key item) res now (fs_backoff st1)\<rparr>)))
      in if publish
         then st'\<lparr>fs_completed_at :=
                snd (record_completed_request_at (item_rc item) now (fs_completed_at st'))\<rparr>
         else st')"

section \<open>Selecting and ordering the requests of a cycle\<close>

datatype FetchExecutionMode =
    Foreground
  | BackgroundPoll u64

definition prepare_item ::
  "nat \<Rightarrow> SdkKeyStoreItem list \<times> ('s, 'n) fetch_state \<Rightarrow> SdkKeyStoreItem
     \<Rightarrow> SdkKeyStoreItem list \<times> ('s, 'n) fetch_state" where
  "prepare_item now acc item =
     (case acc of (prepared, st) \<Rightarrow>
        let p = rc_path (item_rc item);
            (ok, b') = should_make_request (item_rc item) now (get_request_builder (fs_builders st) p);
            st1 = st\<lparr>fs_builders := (fs_builders st)(p := b')\<rparr>
        in if \<not> ok then (prepared, st1)
           else (case can_attempt_at (request_key item) now (fs_backoff st1) of
               (can, bo) \<Rightarrow>
                 let st2 = st1\<lparr>fs_backoff := bo\<rparr>
                 in if can then (prepared @ [item], st2) else (prepared, st2)))"

definition prepare_requests ::
  "nat \<Rightarrow> SdkKeyStoreItem list \<Rightarrow> ('s, 'n) fetch_state
     \<Rightarrow> SdkKeyStoreItem list \<times> ('s, 'n) fetch_state" where
  "prepare_requests now items st = foldl (prepare_item now) ([], st) items"

definition order_prepared ::
  "(backoff_key \<Rightarrow> u64) \<Rightarrow> FetchExecutionMode \<Rightarrow> BackgroundPollDispatchConfig
     \<Rightarrow> SdkKeyStoreItem list \<Rightarrow> SdkKeyStoreItem list" where
  "order_prepared hash mode cfg prepared =
     (case mode of
        BackgroundPoll cycle \<Rightarrow>
          if background_dispatch_shaping_enabled cfg (length prepared)
          then sort_key (\<lambda>item. dispatch_rank hash (request_key item) cycle (jitter_seed cfg)) prepared
          else prepared
      | Foreground \<Rightarrow> prepared)"

record PreparedFetchExecutionConfig =
  ec_max_in_flight :: nat
  ec_launch_spacing :: nat
  ec_request_guard_timeout :: nat
  ec_clear :: bool
  ec_publish :: bool

definition execution_config ::
  "HttpClientConfig \<Rightarrow> bool \<Rightarrow> FetchExecutionMode \<Rightarrow> BackgroundPollDispatchConfig
     \<Rightarrow> PreparedFetchExecutionConfig" where
  "execution_config http clear mode cfg =
     \<lparr>ec_max_in_flight = max_in_flight cfg,
      ec_launch_spacing = (case mode of BackgroundPoll _ \<Rightarrow> launch_spacing cfg | Foreground \<Rightarrow> 0),
      ec_request_guard_timeout = background_request_guard_timeout http,
      ec_clear = clear,
      ec_publish = (case mode of BackgroundPoll _ \<Rightarrow> True | Foreground \<Rightarrow> False)\<rparr>"

section \<open>The executor\<close>

text \<open>
  The state of \<open>execute_prepared_requests_streaming\<close>: the items not launched yet, the join set
  (a task with the flag whether it has finished), the launch bookkeeping, and the items whose
  tasks have taken effect. A joined task leaves the join set; tasks are joined only when the
  launch loop has stopped, that is, when the set is full or nothing is pending.
\<close>

record exec_state =
  ex_pending :: "SdkKeyStoreItem list"
  ex_in_flight :: "(SdkKeyStoreItem \<times> bool) list"
  ex_attempted :: nat
  ex_clock :: nat
  ex_next_launch_at :: nat
  ex_slots :: "nat list"
  ex_ran :: "SdkKeyStoreItem list"

definition exec_init :: "SdkKeyStoreItem list \<Rightarrow> nat \<Rightarrow> exec_state" where
  "exec_init prepared now =
     \<lparr>ex_pending = prepared, ex_in_flight = [], ex_attempted = 0, ex_clock = now,
      ex_next_launch_at = now, ex_slots = [], ex_ran = []\<rparr>"

definition exec_done :: "exec_state \<Rightarrow> bool" where
  "exec_done e \<longleftrightarrow> ex_pending e = [] \<and> ex_in_flight e = []"

text \<open>\<open>wait_for_launch_slot\<close>: the slot and the next one.\<close>

definition wait_for_launch_slot :: "nat \<Rightarrow> nat \<Rightarrow> nat \<Rightarrow> nat \<times> nat" where
  "wait_for_launch_slot spacing next_launch now =
     (if spacing = 0 then (now, next_launch)
      else let launch_at = max next_launch now in (launch_at, launch_at + spacing))"

definition launch_item :: "nat \<Rightarrow> nat \<Rightarrow> nat \<Rightarrow> SdkKeyStoreItem \<Rightarrow> exec_state \<Rightarrow> exec_state" where
  "launch_item spacing now wake x e =
     (case wait_for_launch_slot spacing (ex_next_launch_at e) now of (slot, next_launch) \<Rightarrow>
        e\<lparr>ex_pending := tl (ex_pending e), ex_in_flight := ex_in_flight e @ [(x, False)],
          ex_attempted := ex_attempted e + 1, ex_clock := wake, ex_next_launch_at := next_launch,
          ex_slots := ex_slots e @ [slot]\<rparr>)"

inductive exec_step ::
  "PreparedFetchExecutionConfig \<Rightarrow> (SdkKeyStoreItem \<Rightarrow> 'w \<Rightarrow> 'w \<Rightarrow> bool)
     \<Rightarrow> exec_state \<times> 'w \<Rightarrow> exec_state \<times> 'w \<Rightarrow> bool"
  for cfg run where
  launch: "length (ex_in_flight e) < ec_max_in_flight cfg \<Longrightarrow> ex_pending e = x # xs \<Longrightarrow>
     ex_clock e \<le> now \<Longrightarrow>
     fst (wait_for_launch_slot (ec_launch_spacing cfg) (ex_next_launch_at e) now) \<le> wake \<Longrightarrow>
     exec_step cfg run (e, w) (launch_item (ec_launch_spacing cfg) now wake x e, w)"
| finish: "ex_in_flight e = as @ (x, False) # bs \<Longrightarrow> run x w w' \<Longrightarrow>
     exec_step cfg run (e, w)
       (e\<lparr>ex_in_flight := as @ (x, True) # bs, ex_ran := ex_ran e @ [x]\<rparr>, w')"
| join: "ex_in_flight e = as @ (x, True) # bs \<Longrightarrow>
     \<not> length (ex_in_flight e) < ec_max_in_flight cfg \<or> ex_pending e = [] \<Longrightarrow>
     exec_step cfg run (e, w) (e\<lparr>ex_in_flight := as @ bs\<rparr>, w)"

inductive_cases exec_stepE: "exec_step cfg run (e, w) s"

text \<open>The effect of a task of the real provider: it times out or not, and ends at some time.\<close>

definition provider_task ::
  "('s, 'n) fetch_env \<Rightarrow> PreparedFetchExecutionConfig \<Rightarrow> SdkKeyStoreItem
     \<Rightarrow> ('s, 'n) fetch_state \<Rightarrow> ('s, 'n) fetch_state \<Rightarrow> bool" where
  "provider_task env cfg item st st' \<longleftrightarrow>
     (\<exists>timed_out now. st' = run_prepared_request env (ec_clear cfg) (ec_publish cfg) timed_out now item st)"

section \<open>Foreground fetches\<close>

type_synonym fetch_locks = "backoff_key \<Rightarrow> bool option"

text \<open>
  \<open>foreground_fetch\<close> holds the write lock of its key during the fetch, so a second caller for the
  key sees the flag only afterwards. \<open>client_ok\<close> says whether the HTTP client could be built.
  When a request was attempted, a task removes the flag 30 seconds later
  (\<open>evict_fetch_lock\<close>).
\<close>

definition impl_foreground_fetch_one ::
  "('s, 'n) fetch_env \<Rightarrow> bool \<Rightarrow> bool \<Rightarrow> bool \<Rightarrow> nat \<Rightarrow> nat \<Rightarrow> SdkKeyStoreItem
     \<Rightarrow> ('s, 'n) fetch_state \<Rightarrow> nat \<times> ('s, 'n) fetch_state" where
  "impl_foreground_fetch_one env client_ok clear timed_out now later item st =
     (if \<not> client_ok then (0, st)
      else (case prepare_requests now [item] st of
          (prepared, st1) \<Rightarrow>
            (length prepared,
             foldl (\<lambda>st x. run_prepared_request env clear False timed_out later x st) st1 prepared)))"

definition foreground_fetch ::
  "('s, 'n) fetch_env \<Rightarrow> bool \<Rightarrow> bool \<Rightarrow> nat \<Rightarrow> nat \<Rightarrow> AuthorizedRequestContext \<Rightarrow> u64 \<Rightarrow> bool
     \<Rightarrow> fetch_locks \<times> ('s, 'n) fetch_state \<Rightarrow> fetch_locks \<times> ('s, 'n) fetch_state" where
  "foreground_fetch env client_ok timed_out now later rc since clear ls =
     (case ls of (locks, st) \<Rightarrow>
        let key = (rc_id rc, None) in
        if locks key = Some True then (locks, st)
        else (case impl_foreground_fetch_one env client_ok clear timed_out now later
                     \<lparr>item_rc = rc, item_lcut = since\<rparr> st of
            (attempted, st') \<Rightarrow>
              if attempted = 0 then (locks(key := None), st')
              else (locks(key \<mapsto> True), st')))"

definition evict_fetch_lock :: "AuthorizedRequestContext \<Rightarrow> fetch_locks \<Rightarrow> fetch_locks" where
  "evict_fetch_lock rc locks = locks((rc_id rc, None) := None)"

section \<open>A whole cycle\<close>

text \<open>
  \<open>impl_foreground_fetch\<close> as a relation: the outcomes of preparing, ordering and executing the
  items of a cycle, with the number of attempted requests.
\<close>

definition impl_foreground_fetch ::
  "('s, 'n) fetch_env \<Rightarrow> HttpClientConfig \<Rightarrow> bool \<Rightarrow> FetchExecutionMode \<Rightarrow> BackgroundPollDispatchConfig
     \<Rightarrow> nat \<Rightarrow> SdkKeyStoreItem list \<Rightarrow> ('s, 'n) fetch_state \<Rightarrow> nat \<Rightarrow> ('s, 'n) fetch_state \<Rightarrow> bool" where
  "impl_foreground_fetch env http clear mode cfg now items st attempted st' \<longleftrightarrow>
     (\<exists>prepared st1 e'. prepare_requests now items st = (prepared, st1)
        \<and> (exec_step (execution_config http clear mode cfg)
             (provider_task env (execution_config http clear mode cfg)))\<^sup>*\<^sup>*
            (exec_init (order_prepared (env_hash env) mode cfg prepared) now, st1) (e', st')
        \<and> exec_done e' \<and> attempted = ex_attempted e')"

text \<open>
  One turn of \<open>start_background_fetch_interval\<close>: the items are the registered ones in the order
  in which the key store is iterated; a client that cannot be built skips the fetch.
\<close>

record ('s, 'n) poll_state =
  ps_next_poll_at :: nat
  ps_poll_cycle :: u64
  ps_fetch :: "('s, 'n) fetch_state"

inductive poll_turn ::
  "('s, 'n) fetch_env \<Rightarrow> HttpClientConfig \<Rightarrow> bool \<Rightarrow> u64 \<Rightarrow> BackgroundPollDispatchConfig
     \<Rightarrow> ('s \<Rightarrow> sdk_key_store) \<Rightarrow> ('s, 'n) poll_state \<Rightarrow> ('s, 'n) poll_state \<Rightarrow> bool"
  for env http clear polling cfg keys where
  "ps_next_poll_at p \<le> now \<Longrightarrow>
   set items = get_registered_store (keys (shared (fs_world (ps_fetch p)))) \<Longrightarrow> distinct items \<Longrightarrow>
   (if client_ok
    then impl_foreground_fetch env http clear (BackgroundPoll (ps_poll_cycle p)) cfg now items
           (ps_fetch p) attempted st'
    else st' = ps_fetch p) \<Longrightarrow>
   now \<le> later \<Longrightarrow>
   poll_turn env http clear polling cfg keys p
     \<lparr>ps_next_poll_at = ps_next_poll_at p
        + poll_interval_for_cycle cfg (from_secs (max polling 1)) (ps_poll_cycle p + 1),
      ps_poll_cycle = ps_poll_cycle p + 1,
      ps_fetch = st'\<lparr>fs_backoff := prune_stale_at later (\<lambda>c. c) (fs_backoff st')\<rparr>\<rparr>"

section \<open>Invariants of the executor\<close>

definition unfinished :: "exec_state \<Rightarrow> SdkKeyStoreItem list" where
  "unfinished e = map fst (filter (\<lambda>(x, fin). \<not> fin) (ex_in_flight e))"

fun spaced :: "nat \<Rightarrow> nat list \<Rightarrow> bool" where
  "spaced d (a # b # ts) \<longleftrightarrow> a + d \<le> b \<and> spaced d (b # ts)"
| "spaced d _ \<longleftrightarrow> True"

lemma spaced_snoc: "spaced d (ts @ [t]) \<longleftrightarrow> spaced d ts \<and> (ts = [] \<or> last ts + d \<le> t)"
  by (induction d ts rule: spaced.induct) auto

definition exec_inv ::
  "PreparedFetchExecutionConfig \<Rightarrow> SdkKeyStoreItem list \<Rightarrow> exec_state \<Rightarrow> bool" where
  "exec_inv cfg prepared e \<longleftrightarrow>
     length (ex_in_flight e) \<le> ec_max_in_flight cfg
     \<and> mset prepared = mset (ex_pending e) + mset (unfinished e) + mset (ex_ran e)
     \<and> ex_attempted e + length (ex_pending e) = length prepared
     \<and> length (ex_slots e) = ex_attempted e
     \<and> spaced (ec_launch_spacing cfg) (ex_slots e)
     \<and> (ex_slots e \<noteq> [] \<longrightarrow>
          last (ex_slots e) + ec_launch_spacing cfg
            \<le> (if ec_launch_spacing cfg = 0 then ex_clock e else ex_next_launch_at e))"

lemma exec_inv_init: "exec_inv cfg prepared (exec_init prepared now)"
  by (simp add: exec_inv_def exec_init_def unfinished_def)

lemma exec_inv_launch:
  assumes "exec_inv cfg prepared e" "length (ex_in_flight e) < ec_max_in_flight cfg"
    "ex_pending e = x # xs" "ex_clock e \<le> now"
    "fst (wait_for_launch_slot (ec_launch_spacing cfg) (ex_next_launch_at e) now) \<le> wake"
  shows "exec_inv cfg prepared (launch_item (ec_launch_spacing cfg) now wake x e)"
  using assms
  by (cases "ec_launch_spacing cfg = 0")
     (auto simp: exec_inv_def launch_item_def wait_for_launch_slot_def unfinished_def spaced_snoc Let_def)

lemma exec_inv_finish:
  "exec_inv cfg prepared e \<Longrightarrow> ex_in_flight e = as @ (x, False) # bs \<Longrightarrow>
     exec_inv cfg prepared (e\<lparr>ex_in_flight := as @ (x, True) # bs, ex_ran := ex_ran e @ [x]\<rparr>)"
  by (auto simp: exec_inv_def unfinished_def split: if_splits)

lemma exec_inv_join:
  "exec_inv cfg prepared e \<Longrightarrow> ex_in_flight e = as @ (x, True) # bs \<Longrightarrow>
     exec_inv cfg prepared (e\<lparr>ex_in_flight := as @ bs\<rparr>)"
  by (auto simp: exec_inv_def unfinished_def split: if_splits)

lemma exec_inv_step:
  assumes "exec_inv cfg prepared e" "exec_step cfg run (e, w) (e', w')"
  shows "exec_inv cfg prepared e'"
  using assms(2)
  by (elim exec_stepE) (use assms(1) in \<open>auto simp: exec_inv_launch exec_inv_finish exec_inv_join\<close>)

text \<open>Every step uses up exactly one of the three steps that each item takes.\<close>

definition exec_work :: "exec_state \<Rightarrow> nat" where
  "exec_work e = 3 * length (ex_pending e) + length (unfinished e) + length (ex_in_flight e)"

lemma exec_work_step:
  "exec_step cfg run (e, w) (e', w') \<Longrightarrow> exec_work e = Suc (exec_work e')"
  by (elim exec_stepE)
     (auto simp: exec_work_def unfinished_def launch_item_def wait_for_launch_slot_def Let_def)

lemma exec_progress:
  assumes "1 \<le> ec_max_in_flight cfg" and total: "\<And>x w. \<exists>w'. run x w w'" and "\<not> exec_done e"
  shows "\<exists>s'. exec_step cfg run (e, w) s'"
proof (cases "length (ex_in_flight e) < ec_max_in_flight cfg \<and> ex_pending e \<noteq> []")
  case True
  then obtain x xs where "ex_pending e = x # xs" by (cases "ex_pending e") auto
  then show ?thesis
    using exec_step.launch [of e cfg x xs "ex_clock e" _ run w, OF _ _ order_refl order_refl] True
    by blast
next
  case False
  then have "ex_in_flight e \<noteq> []" using assms(1,3) by (auto simp: exec_done_def)
  then obtain x fin bs where fl: "ex_in_flight e = [] @ (x, fin) # bs"
    by (cases "ex_in_flight e") auto
  show ?thesis
  proof (cases fin)
    case True
    then show ?thesis using exec_step.join [of e "[]" x bs cfg run w] fl False by auto
  next
    case unfin: False
    obtain w' where "run x w w'" using total by blast
    then show ?thesis using exec_step.finish [of e "[]" x bs run w w' cfg] fl unfin by auto
  qed
qed

lemma exec_completes:
  assumes "1 \<le> ec_max_in_flight cfg" and total: "\<And>x w. \<exists>w'. run x w w'"
  shows "\<exists>e' w'. (exec_step cfg run)\<^sup>*\<^sup>* (e, w) (e', w') \<and> exec_done e'"
proof (induction "exec_work e" arbitrary: e w rule: less_induct)
  case less
  show ?case
  proof (cases "exec_done e")
    case True
    then show ?thesis by blast
  next
    case False
    obtain e1 w1 where step: "exec_step cfg run (e, w) (e1, w1)"
      using exec_progress [OF assms False] by fastforce
    then have "exec_work e1 < exec_work e" using exec_work_step by fastforce
    from less [OF this, of w1] step show ?thesis by (meson converse_rtranclp_into_rtranclp)
  qed
qed

lemma exec_run:
  assumes "(exec_step cfg run ^^ k) (e, w) (e', w')" and "exec_inv cfg prepared e"
  shows "exec_inv cfg prepared e' \<and> exec_work e = k + exec_work e'"
  using assms(1)
proof (induction k arbitrary: e' w')
  case 0
  then show ?case using assms(2) by simp
next
  case (Suc k)
  then obtain e1 w1 where "(exec_step cfg run ^^ k) (e, w) (e1, w1)"
    and step: "exec_step cfg run (e1, w1) (e', w')" by auto
  then show ?case using Suc.IH exec_inv_step [OF _ step] exec_work_step [OF step] by fastforce
qed

text \<open>
  C5: the executor of a fetch cycle always completes, and does its work exactly once: from the
  prepared requests a run reaches the end whatever the tasks do, no run is longer than three
  steps per request, never more than the configured number of requests are in flight, launch
  slots are at least the configured spacing apart, and at the end every prepared request has
  been attempted and has taken effect exactly once.
\<close>

theorem executor_completes:
  assumes cfg_def: "cfg = execution_config http clear mode (dispatch_config_new u v n sp)"
  shows "(\<exists>e' st'. (exec_step cfg (provider_task env cfg))\<^sup>*\<^sup>* (exec_init prepared now, st) (e', st')
            \<and> exec_done e')
    \<and> (\<forall>k e' st'. (exec_step cfg (provider_task env cfg) ^^ k) (exec_init prepared now, st) (e', st') \<longrightarrow>
         k \<le> 3 * length prepared
         \<and> length (ex_in_flight e') \<le> max 1 (unat n)
         \<and> spaced (ec_launch_spacing cfg) (ex_slots e')
         \<and> (exec_done e' \<longrightarrow> ex_attempted e' = length prepared \<and> mset (ex_ran e') = mset prepared))"
proof (intro conjI allI impI)
  have m: "ec_max_in_flight cfg = max 1 (unat n)"
    by (simp add: cfg_def execution_config_def dispatch_config_new_def max_def word_le_nat_alt)
  then show "\<exists>e' st'. (exec_step cfg (provider_task env cfg))\<^sup>*\<^sup>* (exec_init prepared now, st) (e', st')
            \<and> exec_done e'"
    by (intro exec_completes) (auto simp: provider_task_def)
  fix k e' st'
  assume "(exec_step cfg (provider_task env cfg) ^^ k) (exec_init prepared now, st) (e', st')"
  from exec_run [OF this exec_inv_init]
  have inv: "exec_inv cfg prepared e'" and work: "exec_work (exec_init prepared now) = k + exec_work e'"
    by simp_all
  show "k \<le> 3 * length prepared"
    using work by (simp add: exec_work_def exec_init_def unfinished_def)
  show "length (ex_in_flight e') \<le> max 1 (unat n)" "spaced (ec_launch_spacing cfg) (ex_slots e')"
    using inv m by (simp_all add: exec_inv_def)
  assume "exec_done e'"
  then show "ex_attempted e' = length prepared" "mset (ex_ran e') = mset prepared"
    using inv by (simp_all add: exec_inv_def exec_done_def unfinished_def)
qed

definition sample_item :: SdkKeyStoreItem where
  "sample_item = \<lparr>item_rc = sample_rc, item_lcut = 0\<rparr>"

definition sample_env :: "(unit, unit) fetch_env" where
  "sample_env =
     \<lparr>env_send = (\<lambda>req n. (Inr sample_response, n)), env_sha256 = (\<lambda>s. s),
      env_observers = (\<lambda>_. []), env_backup_get = (\<lambda>_ _ _. None), env_hash = (\<lambda>_. 0)\<rparr>"

definition sample_state :: "(unit, unit) fetch_state" where
  "sample_state =
     \<lparr>fs_builders = [V2DownloadConfigSpecs \<mapsto> Dcs sample_dcs], fs_net = (),
      fs_world = \<lparr>shared = (), spawned = [], touch_permits = 64, touches = []\<rparr>,
      fs_backoff = backoff_new (from_polling_interval 10), fs_completed_at = (\<lambda>_. None)\<rparr>"

theorem executor_completes_witness:
  "\<exists>e' st'. (exec_step (execution_config client_config_default False Foreground (dispatch_config_new 1 2 2 0))
       (provider_task sample_env
          (execution_config client_config_default False Foreground (dispatch_config_new 1 2 2 0))))\<^sup>*\<^sup>*
     (exec_init [sample_item] 0, sample_state) (e', st') \<and> exec_done e'"
  using executor_completes [OF refl, of client_config_default False Foreground 1 2 2 0] by blast

section \<open>Which requests are made\<close>

lemma prepare_item_cases:
  "prepare_item now (prepared, st) item = (prepared', st') \<Longrightarrow>
     (prepared' = prepared \<or> prepared' = prepared @ [item]) \<and> fs_net st' = fs_net st
     \<and> fs_world st' = fs_world st \<and> fs_completed_at st' = fs_completed_at st"
  by (auto simp: prepare_item_def Let_def split: prod.splits if_splits)

lemma prepare_requests_frame:
  assumes "prepare_requests now items st = (prepared, st')"
  shows "subseq prepared items \<and> fs_net st' = fs_net st \<and> fs_world st' = fs_world st"
proof -
  have "foldl (prepare_item now) (acc, st) items = (prepared, st') \<Longrightarrow>
      (\<exists>ps. prepared = acc @ ps \<and> subseq ps items) \<and> fs_net st' = fs_net st \<and> fs_world st' = fs_world st"
    for acc st
  proof (induction items arbitrary: acc st)
    case (Cons x items)
    obtain acc1 st1 where one: "prepare_item now (acc, st) x = (acc1, st1)" by fastforce
    from prepare_item_cases [OF one]
    have acc1: "acc1 = acc \<or> acc1 = acc @ [x]" and same: "fs_net st1 = fs_net st" "fs_world st1 = fs_world st"
      by auto
    from Cons.prems one have "foldl (prepare_item now) (acc1, st1) items = (prepared, st')" by simp
    from Cons.IH [OF this] obtain ps where ps: "prepared = acc1 @ ps" "subseq ps items"
      and st': "fs_net st' = fs_net st" "fs_world st' = fs_world st" using same by auto
    from acc1 have "\<exists>qs. prepared = acc @ qs \<and> subseq qs (x # items)"
    proof
      assume "acc1 = acc"
      with ps show ?thesis by (intro exI [of _ ps]) (simp add: list_emb_Cons)
    next
      assume "acc1 = acc @ [x]"
      with ps show ?thesis by (intro exI [of _ "x # ps"]) simp
    qed
    with st' show ?case by simp
  qed simp
  then show ?thesis using assms by (fastforce simp: prepare_requests_def)
qed

text \<open>
  Ordering a cycle only permutes its requests: it neither drops nor repeats any, and in a
  background cycle that is shaped the launches follow the cycle's ranks.
\<close>

theorem order_prepared_permutes:
  "mset (order_prepared hash mode cfg prepared) = mset prepared
   \<and> (mode = BackgroundPoll cycle \<and> background_dispatch_shaping_enabled cfg (length prepared) \<longrightarrow>
        sorted (map (\<lambda>item. dispatch_rank hash (request_key item) cycle (jitter_seed cfg))
                  (order_prepared hash mode cfg prepared)))"
  by (auto simp: order_prepared_def split: FetchExecutionMode.splits)

theorem order_prepared_permutes_witness:
  "mset (order_prepared (\<lambda>_. 7) (BackgroundPoll 3) (dispatch_config_new 1 2 1 5) [sample_item, sample_item])
     = mset [sample_item, sample_item]
   \<and> sorted (map (\<lambda>item. dispatch_rank (\<lambda>_. 7) (request_key item) 3
                     (jitter_seed (dispatch_config_new 1 2 1 5)))
         (order_prepared (\<lambda>_. 7) (BackgroundPoll 3) (dispatch_config_new 1 2 1 5) [sample_item, sample_item]))"
  using order_prepared_permutes [of "\<lambda>_. 7" "BackgroundPoll 3" "dispatch_config_new 1 2 1 5"
      "[sample_item, sample_item]" 3]
  by (simp add: background_dispatch_shaping_enabled_def dispatch_config_new_def)

section \<open>Foreground fetches are limited\<close>

datatype ff_op =
    FFetch AuthorizedRequestContext u64 bool bool bool nat nat
  | FEvict AuthorizedRequestContext

fun ff_step ::
  "('s, 'n) fetch_env \<Rightarrow> ff_op \<Rightarrow> fetch_locks \<times> ('s, 'n) fetch_state
     \<Rightarrow> fetch_locks \<times> ('s, 'n) fetch_state" where
  "ff_step env (FFetch rc since clear ok to now later) ls =
     foreground_fetch env ok to now later rc since clear ls"
| "ff_step env (FEvict rc) (locks, st) = (evict_fetch_lock rc locks, st)"

text \<open>
  The keys for which the origin was asked, in a run of fetches and evictions: a fetch counts when
  it changes the network or the state behind the observers, whatever the locks say. With a network state that logs the requests, this is every fetch that sends one.
\<close>

definition ff_visible :: "('s, 'n) fetch_state \<Rightarrow> ('s, 'n) fetch_state \<Rightarrow> bool" where
  "ff_visible st st' \<longleftrightarrow>
     fs_net st' \<noteq> fs_net st \<or> fs_world st' \<noteq> fs_world st"

fun ff_attempts ::
  "('s, 'n) fetch_env \<Rightarrow> ff_op list \<Rightarrow> fetch_locks \<times> ('s, 'n) fetch_state \<Rightarrow> backoff_key list" where
  "ff_attempts env [] ls = []"
| "ff_attempts env (FEvict rc # ops) ls = ff_attempts env ops (ff_step env (FEvict rc) ls)"
| "ff_attempts env (FFetch rc since clear ok to now later # ops) ls =
     (let ls' = ff_step env (FFetch rc since clear ok to now later) ls
      in if ff_visible (snd ls) (snd ls')
         then (rc_id rc, None) # ff_attempts env ops ls' else ff_attempts env ops ls')"

lemma impl_foreground_fetch_one_unattempted:
  "impl_foreground_fetch_one env ok clear to now later item st = (0, st') \<Longrightarrow>
     \<not> ff_visible st st'"
  by (auto simp: impl_foreground_fetch_one_def prepare_requests_def prepare_item_def ff_visible_def
      Let_def split: if_splits prod.splits)

lemma foreground_fetch_visible:
  assumes "ff_visible (snd ls) (snd (foreground_fetch env ok to now later rc since clear ls))"
  shows "fst (foreground_fetch env ok to now later rc since clear ls) (rc_id rc, None) = Some True"
  using assms impl_foreground_fetch_one_unattempted
  by (cases ls) (fastforce simp: foreground_fetch_def ff_visible_def Let_def split: if_splits prod.splits)

lemma foreground_fetch_other:
  "k \<noteq> (rc_id rc, None) \<Longrightarrow>
     fst (foreground_fetch env ok to now later rc since clear ls) k = fst ls k"
  by (cases ls) (auto simp: foreground_fetch_def Let_def split: prod.splits)

lemma foreground_fetch_locked:
  "fst ls (rc_id rc, None) = Some True \<Longrightarrow>
     foreground_fetch env ok to now later rc since clear ls = ls"
  by (cases ls) (simp add: foreground_fetch_def)

lemma locked_no_attempts:
  fixes ls :: "fetch_locks \<times> ('s, 'n) fetch_state"
  assumes "fst ls (rc_id rc, None) = Some True"
    and "\<forall>rc'. FEvict rc' \<in> set ops \<longrightarrow> rc_id rc' \<noteq> rc_id rc"
  shows "(rc_id rc, None) \<notin> set (ff_attempts env ops ls)"
  using assms
proof (induction ops arbitrary: ls)
  case (Cons op ops)
  show ?case
  proof (cases op)
    case (FEvict rc')
    then show ?thesis using Cons by (cases ls) (auto simp: evict_fetch_lock_def)
  next
    case (FFetch rc' since clear ok to now later)
    let ?ls' = "foreground_fetch env ok to now later rc' since clear ls"
    have locked: "fst ?ls' (rc_id rc, None) = Some True"
    proof (cases "rc_id rc' = rc_id rc")
      case True
      then show ?thesis using Cons.prems(1) foreground_fetch_locked [of ls rc'] by simp
    next
      case False
      then show ?thesis
        using Cons.prems(1)
          foreground_fetch_other [of "(rc_id rc, None)" rc' env ok to now later since clear ls]
        by simp
    qed
    moreover have "\<not> ff_visible (snd ls) (snd ?ls')" if "rc_id rc' = rc_id rc"
      using that Cons.prems(1) foreground_fetch_locked [of ls rc'] by (simp add: ff_visible_def)
    ultimately show ?thesis using Cons FFetch by (auto simp: Let_def)
  qed
qed simp



section \<open>The foreground fetch refines the executor\<close>

lemma exec_done_stuck: "exec_done e \<Longrightarrow> \<not> exec_step cfg run (e, w) s"
  by (auto simp: exec_done_def elim!: exec_stepE)

lemma exec_done_run: "exec_done e \<Longrightarrow> (exec_step cfg run)\<^sup>*\<^sup>* (e, w) s \<Longrightarrow> s = (e, w)"
  by (metis converse_rtranclpE exec_done_stuck)

lemma exec_step_init:
  "exec_step cfg run (exec_init [x] now, w) (e', w') \<Longrightarrow>
     w' = w \<and> ex_pending e' = [] \<and> ex_in_flight e' = [(x, False)] \<and> ex_attempted e' = 1"
  by (elim exec_stepE)
     (auto simp: exec_init_def launch_item_def wait_for_launch_slot_def Let_def)

lemma exec_step_launched:
  "exec_step cfg run (e, w) (e', w') \<Longrightarrow> ex_pending e = [] \<Longrightarrow> ex_in_flight e = [(x, False)] \<Longrightarrow>
     run x w w' \<and> ex_pending e' = [] \<and> ex_in_flight e' = [(x, True)] \<and> ex_attempted e' = ex_attempted e"
  by (elim exec_stepE) (auto simp: append_eq_Cons_conv)

lemma exec_step_finished:
  "exec_step cfg run (e, w) (e', w') \<Longrightarrow> ex_pending e = [] \<Longrightarrow> ex_in_flight e = [(x, True)] \<Longrightarrow>
     w' = w \<and> exec_done e' \<and> ex_attempted e' = ex_attempted e"
  by (elim exec_stepE) (auto simp: append_eq_Cons_conv exec_done_def)

lemma exec_single_run:
  assumes "(exec_step cfg run)\<^sup>*\<^sup>* (exec_init [x] now, w) (e', w')" and "exec_done e'"
  shows "run x w w' \<and> ex_attempted e' = 1"
proof -
  let ?R = "(exec_step cfg run)\<^sup>*\<^sup>*"
  have first: "\<exists>e1 w1. exec_step cfg run (e, v) (e1, w1) \<and> ?R (e1, w1) (e', w')"
    if "?R (e, v) (e', w')" "\<not> exec_done e" for e v
    using that assms(2) by (cases rule: converse_rtranclpE) auto
  have "\<not> exec_done (exec_init [x] now)" by (simp add: exec_init_def exec_done_def)
  then obtain e1 w1 where "exec_step cfg run (exec_init [x] now, w) (e1, w1)" and r1: "?R (e1, w1) (e', w')"
    using first assms(1) by blast
  from exec_step_init [OF this(1)]
  have e1: "w1 = w" "ex_pending e1 = []" "ex_in_flight e1 = [(x, False)]" "ex_attempted e1 = 1" by auto
  then have "\<not> exec_done e1" by (simp add: exec_done_def)
  then obtain e2 w2 where "exec_step cfg run (e1, w1) (e2, w2)" and r2: "?R (e2, w2) (e', w')"
    using first r1 by blast
  from exec_step_launched [OF this(1) e1(2,3)] e1
  have e2: "run x w w2" "ex_pending e2 = []" "ex_in_flight e2 = [(x, True)]" "ex_attempted e2 = 1" by auto
  then have "\<not> exec_done e2" by (simp add: exec_done_def)
  then obtain e3 w3 where "exec_step cfg run (e2, w2) (e3, w3)" and r3: "?R (e3, w3) (e', w')"
    using first r2 by blast
  from exec_step_finished [OF this(1) e2(2,3)] e2
  have e3: "w3 = w2" "exec_done e3" "ex_attempted e3 = 1" by auto
  from exec_done_run [OF e3(2) r3] e2 e3 show ?thesis by simp
qed

lemma exec_single_exists:
  assumes "run x w w'" and "1 \<le> ec_max_in_flight cfg"
  shows "\<exists>e'. (exec_step cfg run)\<^sup>*\<^sup>* (exec_init [x] now, w) (e', w') \<and> exec_done e' \<and> ex_attempted e' = 1"
proof -
  let ?e0 = "exec_init [x] now"
  let ?t = "fst (wait_for_launch_slot (ec_launch_spacing cfg) (ex_next_launch_at ?e0) now)"
  let ?e1 = "launch_item (ec_launch_spacing cfg) now ?t x ?e0"
  let ?e2 = "?e1\<lparr>ex_in_flight := [] @ (x, True) # [], ex_ran := ex_ran ?e1 @ [x]\<rparr>"
  let ?e3 = "?e2\<lparr>ex_in_flight := [] @ []\<rparr>"
  have s1: "exec_step cfg run (?e0, w) (?e1, w)"
    by (rule exec_step.launch [of _ _ x "[]"]) (use assms(2) in \<open>simp_all add: exec_init_def\<close>)
  have e1: "ex_in_flight ?e1 = [] @ (x, False) # []" "ex_pending ?e1 = []" "ex_attempted ?e1 = 1"
    by (simp_all add: launch_item_def exec_init_def wait_for_launch_slot_def Let_def)
  have s2: "exec_step cfg run (?e1, w) (?e2, w')"
    by (rule exec_step.finish [of _ "[]" x "[]"]) (use e1 assms(1) in simp_all)
  have s3: "exec_step cfg run (?e2, w') (?e3, w')"
    by (rule exec_step.join [of _ "[]" x "[]"]) (use e1 in simp_all)
  have "(exec_step cfg run)\<^sup>*\<^sup>* (?e0, w) (?e3, w')"
    by (rule converse_rtranclp_into_rtranclp, rule s1, rule converse_rtranclp_into_rtranclp, rule s2,
        rule r_into_rtranclp, rule s3)
  then show ?thesis using e1 by (intro exI [of _ ?e3]) (simp add: exec_done_def)
qed

lemma prepare_one:
  "prepare_requests now [item] st = (prepared, st') \<Longrightarrow> prepared = [] \<or> prepared = [item]"
  using prepare_requests_frame [of now "[item]" st prepared st'] by (cases prepared) (auto elim: list_emb_Cons_iff2 simp: subseq_Cons2_iff split: if_splits)

text \<open>
  C7: the foreground fetch of one context, which runs the general executor with one item, has
  exactly the outcomes of the direct account: nothing is attempted when the builder or the
  backoff refuses, and otherwise one request is made, whatever the executor's schedule.
\<close>

theorem foreground_one_refines:
  assumes "1 \<le> max_in_flight cfg"
  shows "impl_foreground_fetch env http clear Foreground cfg now [item] st attempted st' \<longleftrightarrow>
    (\<exists>timed_out later.
       (attempted, st') = impl_foreground_fetch_one env True clear timed_out now later item st)"
proof -
  let ?c = "execution_config http clear Foreground cfg"
  obtain prepared st1 where prep: "prepare_requests now [item] st = (prepared, st1)" by fastforce
  have c: "ec_clear ?c = clear" "\<not> ec_publish ?c" "1 \<le> ec_max_in_flight ?c"
    using assms by (simp_all add: execution_config_def)
  from prepare_one [OF prep] show ?thesis
  proof
    assume nil: "prepared = []"
    have "exec_done (exec_init [] now)" "ex_attempted (exec_init [] now) = 0"
      by (simp_all add: exec_done_def exec_init_def)
    then show ?thesis
      using prep nil exec_done_run [of "exec_init [] now" ?c "provider_task env ?c" st1]
      by (auto simp: impl_foreground_fetch_def impl_foreground_fetch_one_def order_prepared_def)
  next
    assume one: "prepared = [item]"
    have L: "impl_foreground_fetch env http clear Foreground cfg now [item] st attempted st' \<longleftrightarrow>
       attempted = 1 \<and> provider_task env ?c item st1 st'"
      using prep one c exec_single_run [of ?c "provider_task env ?c" item now st1 _ st']
        exec_single_exists [of "provider_task env ?c" item st1 st' ?c now]
      unfolding impl_foreground_fetch_def by (fastforce simp: order_prepared_def)
    show ?thesis unfolding L using prep one c
      by (auto simp: provider_task_def impl_foreground_fetch_one_def)
  qed
qed

theorem foreground_one_refines_witness:
  "impl_foreground_fetch sample_env client_config_default False Foreground (dispatch_config_new 1 2 2 0) 0
     [sample_item] sample_state
     (fst (impl_foreground_fetch_one sample_env True False False 0 1 sample_item sample_state))
     (snd (impl_foreground_fetch_one sample_env True False False 0 1 sample_item sample_state))"
  by (subst foreground_one_refines, rule dispatch_config_new_in_flight) (metis prod.collapse)

end
