(* ===== verification/Serving.thy ===== *)
theory Serving
  imports BackgroundProvider
begin

text \<open>
  The read paths of the stores, which fetch from the origin on a miss:
  \<open>ConfigSpecStore::get_config_spec\<close>, \<open>GetIdListStore::get_id_lists\<close>,
  \<open>IdListFileStore::get_or_fetch\<close> and \<open>ensure_fresh_enough\<close>. The shared state of a provider is
  the record of its stores; what the other observers of a route keep (the backup cache, the
  company ids) is the component \<open>rt_extra\<close>, which they alone change.
\<close>

section \<open>Runtimes\<close>

record ('v, 'x) runtime =
  rt_keys :: sdk_key_store
  rt_store :: 'v
  rt_extra :: 'x

type_synonym 'x extra_observer = "bool \<times> (AuthorizedRequestContext \<Rightarrow> ResponseContext \<Rightarrow> 'x \<Rightarrow> 'x)"

definition key_observer :: "('v, 'x) runtime observer" where
  "key_observer =
     \<lparr>waits = True, obs_update = (\<lambda>rc rsp s. s\<lparr>rt_keys := sdk_key_store_update rc rsp (rt_keys s)\<rparr>)\<rparr>"

definition store_observer ::
  "(AuthorizedRequestContext \<Rightarrow> ResponseContext \<Rightarrow> 'v \<Rightarrow> 'v) \<Rightarrow> ('v, 'x) runtime observer" where
  "store_observer upd =
     \<lparr>waits = True, obs_update = (\<lambda>rc rsp s. s\<lparr>rt_store := upd rc rsp (rt_store s)\<rparr>)\<rparr>"

definition extra_observer :: "'x extra_observer \<Rightarrow> ('v, 'x) runtime observer" where
  "extra_observer ex =
     \<lparr>waits = fst ex, obs_update = (\<lambda>rc rsp s. s\<lparr>rt_extra := snd ex rc rsp (rt_extra s)\<rparr>)\<rparr>"

text \<open>The observers of a route: those registered before the stores, the stores, the others.\<close>

definition route_observers ::
  "'x extra_observer list \<Rightarrow> (AuthorizedRequestContext \<Rightarrow> ResponseContext \<Rightarrow> 'v \<Rightarrow> 'v)
     \<Rightarrow> 'x extra_observer list \<Rightarrow> ('v, 'x) runtime observer list" where
  "route_observers before upd after =
     map extra_observer before @ [key_observer, store_observer upd] @ map extra_observer after"

section \<open>Reading\<close>

definition fetch_if_unknown ::
  "(('v, 'x) runtime, 'n) fetch_env \<Rightarrow> bool \<Rightarrow> bool \<Rightarrow> nat \<Rightarrow> nat \<Rightarrow> AuthorizedRequestContext
     \<Rightarrow> fetch_locks \<times> (('v, 'x) runtime, 'n) fetch_state
     \<Rightarrow> fetch_locks \<times> (('v, 'x) runtime, 'n) fetch_state" where
  "fetch_if_unknown env ok timed_out now later rc ls =
     (if has_key rc (rt_keys (shared (fs_world (snd ls)))) then ls
      else foreground_fetch env ok timed_out now later rc 0 False ls)"

definition get_config_spec ::
  "((config_spec_store, 'x) runtime, 'n) fetch_env \<Rightarrow> bool \<Rightarrow> bool \<Rightarrow> nat \<Rightarrow> nat
     \<Rightarrow> AuthorizedRequestContext \<Rightarrow> u64 \<Rightarrow> fetch_locks \<times> ((config_spec_store, 'x) runtime, 'n) fetch_state
     \<Rightarrow> ConfigSpecForCompany option
         \<times> fetch_locks \<times> ((config_spec_store, 'x) runtime, 'n) fetch_state" where
  "get_config_spec env ok timed_out now later rc since ls =
     (let ls' = fetch_if_unknown env ok timed_out now later rc ls
      in (config_spec_reply rc since (rt_store (shared (fs_world (snd ls')))), ls'))"

definition get_id_lists ::
  "((id_list_store, 'x) runtime, 'n) fetch_env \<Rightarrow> bool \<Rightarrow> bool \<Rightarrow> nat \<Rightarrow> nat
     \<Rightarrow> AuthorizedRequestContext \<Rightarrow> fetch_locks \<times> ((id_list_store, 'x) runtime, 'n) fetch_state
     \<Rightarrow> ResponsePayload option
         \<times> fetch_locks \<times> ((id_list_store, 'x) runtime, 'n) fetch_state" where
  "get_id_lists env ok timed_out now later rc ls =
     (let ls' = fetch_if_unknown env ok timed_out now later rc ls
      in (cm_get rc (rt_store (shared (fs_world (snd ls')))), ls'))"

text \<open>
  The file store is the only observer of its provider, so the shared state is the store.
\<close>

definition get_or_fetch ::
  "(id_list_file_store, 'n) fetch_env \<Rightarrow> bool \<Rightarrow> bool \<Rightarrow> nat \<Rightarrow> nat \<Rightarrow> AuthorizedRequestContext
     \<Rightarrow> fetch_locks \<times> (id_list_file_store, 'n) fetch_state
     \<Rightarrow> string option \<times> fetch_locks \<times> (id_list_file_store, 'n) fetch_state" where
  "get_or_fetch env ok timed_out now later rc ls =
     (case get_cached_hit rc (shared (fs_world (snd ls))) of
        Some hit \<Rightarrow> (Some hit, ls)
      | None \<Rightarrow>
          if rc_file_id rc = None then (None, ls)
          else let ls' = foreground_fetch env ok timed_out now later rc 0 False ls
               in (get_stored_body rc (shared (fs_world (snd ls'))), ls'))"

definition ensure_fresh_enough ::
  "(id_list_file_store, 'n) fetch_env \<Rightarrow> bool \<Rightarrow> bool \<Rightarrow> nat \<Rightarrow> nat \<Rightarrow> AuthorizedRequestContext
     \<Rightarrow> fetch_locks \<times> (id_list_file_store, 'n) fetch_state
     \<Rightarrow> bool \<times> fetch_locks \<times> (id_list_file_store, 'n) fetch_state" where
  "ensure_fresh_enough env ok timed_out now later rc ls =
     (if is_fresh_enough rc (shared (fs_world (snd ls))) then (True, ls)
      else if rc_file_id rc = None then (False, ls)
      else let ls' = foreground_fetch env ok timed_out now later rc 0 False ls
           in (get_cached_hit rc (shared (fs_world (snd ls'))) \<noteq> None, ls'))"

text \<open>
  \<open>shadow_fetch_json_config_spec\<close>: the context that the spawned task looks up, through the cache
  of contexts, before it reads the config spec of that context.
\<close>

definition shadow_request_context ::
  "(context_cache \<Rightarrow> context_cache) \<Rightarrow> AuthorizedRequestContext \<Rightarrow> context_cache
     \<Rightarrow> AuthorizedRequestContext \<times> context_cache" where
  "shadow_request_context others rc cache =
     get_or_insert others (rc_sdk_key rc) (rc_path rc) [Gzip] False False None cache"

section \<open>Notifying the observers of a route\<close>

lemma fold_extra:
  "rt_keys (foldl (\<lambda>s ob. obs_update ob rc rsp s) s (filter waits (map extra_observer exs))) = rt_keys s"
  "rt_store (foldl (\<lambda>s ob. obs_update ob rc rsp s) s (filter waits (map extra_observer exs))) = rt_store s"
  by (induction exs arbitrary: s) (auto simp: extra_observer_def)

lemma notify_route:
  "rt_keys (shared (notify_observers (route_observers before upd after) rc rsp w))
     = sdk_key_store_update rc rsp (rt_keys (shared w))"
  "rt_store (shared (notify_observers (route_observers before upd after) rc rsp w))
     = upd rc rsp (rt_store (shared w))"
  by (simp_all add: notify_observers_def notify_all_def route_observers_def fold_extra
      key_observer_def store_observer_def)

lemma prepare_one_ok:
  assumes "get_request_builder (fs_builders st) (rc_path (item_rc item)) = Some b"
    and "should_make_request (item_rc item) now (Some b) = (True, Some b')"
    and "state_by_key (fs_backoff st) (request_key item) = None"
  shows "prepare_requests now [item] st =
    ([item], st\<lparr>fs_builders := (fs_builders st)(rc_path (item_rc item) \<mapsto> b')\<rparr>)"
  using assms by (simp add: prepare_requests_def prepare_item_def Let_def can_attempt_at_def)

lemma foreground_fetch_runs:
  assumes "locks (rc_id rc, None) \<noteq> Some True"
    and "prepare_requests now [\<lparr>item_rc = rc, item_lcut = since\<rparr>] st
           = ([\<lparr>item_rc = rc, item_lcut = since\<rparr>], st1)"
  shows "foreground_fetch env True timed_out now later rc since clear (locks, st) =
    (locks((rc_id rc, None) \<mapsto> True),
     run_prepared_request env clear False timed_out later \<lparr>item_rc = rc, item_lcut = since\<rparr> st1)"
  using assms by (simp add: foreground_fetch_def impl_foreground_fetch_one_def Let_def)

lemma run_prepared_world:
  assumes "get_request_builder (fs_builders st) (rc_path rc) = Some b"
    and "http_get (env_send env) (env_sha256 env) rc lcut b (fs_net st) = (d, b', n')"
  shows "fs_world (run_prepared_request env clear False False later \<lparr>item_rc = rc, item_lcut = lcut\<rparr> st)
    = snd (process_result (env_observers env (rc_path rc)) (env_backup_get env (rc_path rc))
             d rc lcut clear (fs_world st))"
  using assms by (simp add: run_prepared_request_def process_request_def Let_def case_prod_beta)

lemma dcs_cold_request:
  assumes "blob_url b rc = None" and "send (build_cdn_request b rc 0) n = (res, n')"
  shows "make_request send rc 0 (Dcs b) n =
    (case res of Inl e \<Rightarrow> Inl e | Inr r \<Rightarrow> Inr (Response r), Dcs b, n')"
  using assms
  by (simp add: dcs_make_request_def dcs_build_request_def build_blob_body_request_def
      split: sum.splits)

text \<open>
  The hypotheses under which a request for an unknown context reaches the origin: the route has
  a config-spec builder without blob storage, and neither the lock nor the backoff of the
  context holds it back.
\<close>

definition cold_ready ::
  "((config_spec_store, 'x) runtime, 'n) fetch_env \<Rightarrow> DcsRequestBuilder \<Rightarrow> AuthorizedRequestContext
     \<Rightarrow> fetch_locks \<Rightarrow> ((config_spec_store, 'x) runtime, 'n) fetch_state \<Rightarrow> bool" where
  "cold_ready env b rc locks st \<longleftrightarrow>
     \<not> has_key rc (rt_keys (shared (fs_world st)))
     \<and> cm_get rc (rt_store (shared (fs_world st))) = None
     \<and> locks (rc_id rc, None) \<noteq> Some True
     \<and> get_request_builder (fs_builders st) (rc_path rc) = Some (Dcs b)
     \<and> blob_url b rc = None
     \<and> state_by_key (fs_backoff st) (rc_id rc, None) = None
     \<and> (\<exists>before after. env_observers env (rc_path rc)
          = route_observers before config_spec_store_update after)"

lemma cold_fetch:
  assumes cold: "cold_ready env b rc locks st"
    and get: "http_get (env_send env) (env_sha256 env) rc 0 (Dcs b) (fs_net st) = (d, b', n')"
  shows "fs_world (snd (fetch_if_unknown env True False now later rc (locks, st)))
    = snd (process_result (env_observers env (rc_path rc)) (env_backup_get env (rc_path rc))
             d rc 0 False (fs_world st))"
proof -
  let ?item = "\<lparr>item_rc = rc, item_lcut = 0\<rparr>"
  let ?st1 = "st\<lparr>fs_builders := (fs_builders st)(rc_path rc \<mapsto> Dcs b)\<rparr>"
  have "prepare_requests now [?item] st = ([?item], ?st1)"
    using cold prepare_one_ok [of st ?item "Dcs b" now "Dcs b"]
    by (simp add: cold_ready_def request_key_def)
  then have "snd (fetch_if_unknown env True False now later rc (locks, st))
      = run_prepared_request env False False False later ?item ?st1"
    using cold foreground_fetch_runs [of locks rc now 0 st ?st1 env False later False]
    by (simp add: fetch_if_unknown_def cold_ready_def)
  then show ?thesis
    using run_prepared_world [of ?st1 rc "Dcs b" env 0 d b' n' False later] get
    by (simp add: get_request_builder_def)
qed

lemma reply_after_offer:
  assumes "env_observers env (rc_path rc) = route_observers before config_spec_store_update after"
    and "rsp_result_type rsp \<in> {DataAvailable, ProviderError}"
    and "cm_get rc (rt_store (shared w)) = None" and "since < rsp_lcut rsp"
  shows "config_spec_reply rc since
      (rt_store (shared (notify_observers (env_observers env (rc_path rc)) rc rsp w)))
    = Some \<lparr>cs_lcut = rsp_lcut rsp, cs_config = rsp_body rsp\<rparr>"
  using assms
  by (auto simp: notify_route config_spec_reply_def config_spec_store_update_def Let_def cm.get_ins)

text \<open>
  C3: a cold request is answered with the origin's data. When the proxy has nothing for a
  context and the origin answers the foreground fetch with a new config spec, the very same
  request returns this spec, and the context is registered for polling from its time stamp.
\<close>

theorem cold_request_served:
  assumes cold: "cold_ready env b rc locks st" and lcut: "rc_use_lcut rc"
    and send: "env_send env (build_cdn_request b rc 0) (fs_net st) = (Inr r, n')"
    and ok: "is_success (status r)" "status r \<noteq> 204" "bytes r = Inr body" "dcs_is_an_update r"
    and newer: "since < parse_since_time r 0 rc"
    and reply: "get_config_spec env True False now later rc since (locks, st) = (ans, locks', st')"
  shows "(\<exists>c. ans = Some c \<and> cs_lcut c = parse_since_time r 0 rc \<and> rp_data (cs_config c) = body)
    \<and> get_lcut rc (rt_keys (shared (fs_world st'))) = Some (parse_since_time r 0 rc)"
proof -
  let ?t = "parse_since_time r 0 rc"
  let ?d = "handle_success (parse_use_proto r) (header r ''content-encoding'') body ?t"
  obtain p where p: "?d = \<lparr>dpr_result = DataAvailable, dpr_body = Some p, dpr_lcut = ?t\<rparr>"
    and body: "rp_data p = body"
    by (simp add: handle_success_def Let_def)
  have get: "http_get (env_send env) (env_sha256 env) rc 0 (Dcs b) (fs_net st) = (?d, Dcs b, n')"
    using cold ok send dcs_cold_request [of b rc "env_send env" "fs_net st" "Inr r" n']
    by (simp add: http_get_def cold_ready_def handle_response_def)
  obtain before "after" where
    obs: "env_observers env (rc_path rc) = route_observers before config_spec_store_update after"
    using cold by (auto simp: cold_ready_def)
  have pos: "?t \<noteq> 0" using newer by (metis word_not_simps(1))
  let ?rsp = "\<lparr>rsp_result_type = DataAvailable, rsp_lcut = ?t, rsp_request_since_time = 0, rsp_body = p\<rparr>"
  have w: "fs_world (snd (fetch_if_unknown env True False now later rc (locks, st)))
      = notify_observers (env_observers env (rc_path rc)) rc ?rsp (fs_world st)"
    using cold_fetch [OF cold get] p pos lcut by (simp add: process_result_def)
  have unknown: "cm_get rc (rt_keys (shared (fs_world st))) = None"
    using cold by (simp add: cold_ready_def has_key_def)
  have ls': "(locks', st') = fetch_if_unknown env True False now later rc (locks, st)"
    and ans: "ans = config_spec_reply rc since (rt_store (shared (fs_world st')))"
    using reply by (auto simp: get_config_spec_def Let_def)
  have "ans = Some \<lparr>cs_lcut = ?t, cs_config = p\<rparr>"
    using ans w ls' [symmetric] reply_after_offer [OF obs, of ?rsp "fs_world st" since] newer cold
    by (simp add: cold_ready_def)
  moreover have "get_lcut rc (rt_keys (shared (fs_world st'))) = Some ?t"
    using w ls' [symmetric] unknown
    by (simp add: obs notify_route sdk_key_store_update_def get_lcut_def cm.get_ins)
  ultimately show ?thesis using body by simp
qed


text \<open>A request for a registered context is answered from memory and changes nothing.\<close>

lemma warm_request_from_memory:
  assumes "has_key rc (rt_keys (shared (fs_world st)))"
  shows "get_config_spec env ok timed_out now later rc since (locks, st)
    = (config_spec_reply rc since (rt_store (shared (fs_world st))), locks, st)"
  using assms by (simp add: get_config_spec_def fetch_if_unknown_def Let_def)

definition sample_serving_env ::
  "reqwest_error + HttpResponse \<Rightarrow> ((config_spec_store, unit) runtime, unit) fetch_env" where
  "sample_serving_env res =
     \<lparr>env_send = (\<lambda>req n. (res, n)), env_sha256 = (\<lambda>s. s),
      env_observers = (\<lambda>_. route_observers [] config_spec_store_update []),
      env_backup_get = (\<lambda>_ _ _. Some \<lparr>cs_lcut = 9, cs_config = empty_payload\<rparr>), env_hash = (\<lambda>_. 0)\<rparr>"

definition sample_serving_state ::
  "sdk_key_store \<Rightarrow> ((config_spec_store, unit) runtime, unit) fetch_state" where
  "sample_serving_state keys =
     \<lparr>fs_builders = [V2DownloadConfigSpecs \<mapsto> Dcs sample_dcs], fs_net = (),
      fs_world = \<lparr>shared = \<lparr>rt_keys = keys, rt_store = config_spec_store_new, rt_extra = ()\<rparr>,
                  spawned = [], touch_permits = 64, touches = []\<rparr>,
      fs_backoff = backoff_new (from_polling_interval 10), fs_completed_at = (\<lambda>_. None)\<rparr>"

lemma sample_cold_ready:
  "cold_ready (sample_serving_env res) sample_dcs sample_rc (\<lambda>_. None)
     (sample_serving_state sdk_key_store_new)"
  by (auto simp: cold_ready_def sample_serving_state_def sample_serving_env_def has_key_def cm_get_def
      sdk_key_store_new_def config_spec_store_new_def get_request_builder_def sample_rc_def rc_new_def
      blob_url_def sample_dcs_def backoff_new_def split: bind_split)

lemma sample_since: "parse_since_time sample_response 0 sample_rc = 17"
  by (simp add: parse_since_time_def sample_rc_def rc_new_def sample_response_def parse_u64_def
      parse_uint_def is_digit_def digits_value_def digit_value_def)

theorem cold_request_served_witness:
  "\<exists>c. fst (get_config_spec (sample_serving_env (Inr sample_response)) True False 0 1 sample_rc 5
         (\<lambda>_. None, sample_serving_state sdk_key_store_new)) = Some c
     \<and> cs_lcut c = 17 \<and> rp_data (cs_config c) = ''data''"
proof -
  obtain ans locks' st' where reply:
    "get_config_spec (sample_serving_env (Inr sample_response)) True False 0 1 sample_rc 5
       (\<lambda>_. None, sample_serving_state sdk_key_store_new) = (ans, locks', st')" by (metis prod_cases3)
  have "rc_use_lcut sample_rc" by (simp add: sample_rc_def rc_new_def)
  from cold_request_served [OF sample_cold_ready this _ _ _ _ _ _ reply, of sample_response "()" "''data''"]
  show ?thesis
    using reply sample_since
    by (simp add: sample_serving_env_def sample_serving_state_def sample_response_def is_success_def
        dcs_is_an_update_def)
qed


end
