(* ===== verification/DeltasStore.thy ===== *)
theory DeltasStore
  imports Serving
begin

text \<open>
  The history of config deltas: \<open>datastore/deltas_store.rs\<close>. A delta from the origin is kept with the
  time it was asked for and the time it leads to; a client that names the time it has gets the
  deltas from there on in one payload. The theory shows that the history is the newest part of
  what was received, in the order of time, that it has no gaps, and what a client reads back.

  The protobuf messages and their codec are generated code and a third-party library; they are
  the record \<open>proto_api\<close>.
\<close>

section \<open>Messages\<close>

text \<open>A decoder of a delimited message also says how many bytes it took.\<close>

record ('e, 't) proto_api =
  pa_kind :: "'e \<Rightarrow> int"
  pa_data :: "'e \<Rightarrow> string option"
  pa_encode :: "'e \<Rightarrow> string option"
  pa_decode_delimited :: "string \<Rightarrow> string + 'e \<times> nat"
  pa_decode :: "string \<Rightarrow> string + 'e"
  pa_top_level :: "string \<Rightarrow> 't option"
  pa_time :: "'t \<Rightarrow> u64"
  pa_done :: int
  pa_copy_prev :: int
  pa_top :: int
  pa_checksums :: int

record ('e, 't) DeltaCacheEntry =
  de_since_time_requested :: u64
  de_lcut :: u64
  de_top_level :: 't
  de_envelopes :: "'e list"

datatype DeltaProtoBuildResult =
    SdkKeyNotRegistered | NoCachedDeltas | SinceTimeTooOld u64 | NoUpdates u64 | Combined u64 string
  | SerializationFailed

record ('e, 't) DeltasStore =
  ds_store :: "string \<Rightarrow> ('e, 't) DeltaCacheEntry list option"
  ds_sdk_key_store :: sdk_key_store
  ds_max_responses_to_persist :: nat

definition deltas_store_new :: "sdk_key_store \<Rightarrow> nat \<Rightarrow> ('e, 't) DeltasStore" where
  "deltas_store_new keys max_responses =
     \<lparr>ds_store = (\<lambda>_. None), ds_sdk_key_store = keys, ds_max_responses_to_persist = max max_responses 1\<rparr>"

section \<open>Reading a payload\<close>

definition decompress :: "decoder \<Rightarrow> decoder \<Rightarrow> ResponsePayload \<Rightarrow> string option" where
  "decompress gunzip unbrotli p =
     (case rp_encoding p of
        Brotli \<Rightarrow> unbrotli (rp_data p)
      | StatsigBrotli \<Rightarrow> unbrotli (rp_data p)
      | Gzip \<Rightarrow> gunzip (rp_data p)
      | PlainText \<Rightarrow> Some (rp_data p)
      | _ \<Rightarrow> None)"

function decode_loop ::
  "('e, 't) proto_api \<Rightarrow> string \<Rightarrow> string \<Rightarrow> 'e list \<Rightarrow> string + 'e list" where
  "decode_loop pa payload cursor envelopes =
     (if cursor = [] then Inr envelopes
      else (case pa_decode_delimited pa cursor of
          Inl e \<Rightarrow>
            if envelopes = [] then map_sum id (\<lambda>v. [v]) (pa_decode pa payload) else Inl e
        | Inr (envelope, taken) \<Rightarrow>
            let rest = drop taken cursor
            in if length rest = length cursor then Inr (envelopes @ [envelope])
               else decode_loop pa payload rest (envelopes @ [envelope])))"
  by pat_completeness auto
termination
  by (relation "measure (\<lambda>(_, _, cursor, _). length cursor)") auto

declare decode_loop.simps [simp del]

definition decode_envelopes :: "('e, 't) proto_api \<Rightarrow> string \<Rightarrow> string + 'e list" where
  "decode_envelopes pa payload = decode_loop pa payload payload []"

definition or_else :: "'a option \<Rightarrow> 'a option \<Rightarrow> 'a option" where
  "or_else a b = (case a of None \<Rightarrow> b | Some x \<Rightarrow> Some x)"

definition parse_payload_to_protos ::
  "('e, 't) proto_api \<Rightarrow> decoder \<Rightarrow> decoder \<Rightarrow> ResponsePayload \<Rightarrow> ('e list \<times> 't) option" where
  "parse_payload_to_protos pa gunzip unbrotli p =
     (if \<not> rp_use_proto p then None
      else Option.bind (decompress gunzip unbrotli p) (\<lambda>decompressed.
        (case decode_envelopes pa decompressed of
           Inl _ \<Rightarrow> None
         | Inr envelopes \<Rightarrow>
             map_option (\<lambda>t. (envelopes, t))
               (or_else
                  (Option.bind (Option.bind (List.find (\<lambda>e. pa_kind pa e = pa_top pa) envelopes) (pa_data pa))
                     (pa_top_level pa))
                  (pa_top_level pa decompressed)))))"

section \<open>The history\<close>

definition to_delta_request_context :: "AuthorizedRequestContext \<Rightarrow> AuthorizedRequestContext" where
  "to_delta_request_context rc =
     with_request_capabilities (rc_supports_proto rc) (rc_accept_deltas rc)
       (rc_new (rc_sdk_key rc) V2DownloadConfigSpecsDeltas (rc_encodings rc))"

text \<open>Before the first entry with a later time.\<close>

definition insert_delta ::
  "('e, 't) DeltaCacheEntry \<Rightarrow> ('e, 't) DeltaCacheEntry list \<Rightarrow> ('e, 't) DeltaCacheEntry list" where
  "insert_delta d records =
     takeWhile (\<lambda>x. de_lcut x \<le> de_lcut d) records @ [d] @ dropWhile (\<lambda>x. de_lcut x \<le> de_lcut d) records"

text \<open>\<open>pop_front\<close> until at most \<open>n\<close> are left.\<close>

fun pop_excess :: "nat \<Rightarrow> 'a list \<Rightarrow> 'a list" where
  "pop_excess n [] = []"
| "pop_excess n (x # xs) = (if n < length (x # xs) then pop_excess n xs else x # xs)"

definition persist_delta ::
  "('e, 't) proto_api \<Rightarrow> decoder \<Rightarrow> decoder \<Rightarrow> AuthorizedRequestContext \<Rightarrow> ResponsePayload \<Rightarrow> u64
     \<Rightarrow> ('e, 't) DeltasStore \<Rightarrow> ('e, 't) DeltasStore" where
  "persist_delta pa gunzip unbrotli rc payload since_time_requested s =
     (case parse_payload_to_protos pa gunzip unbrotli payload of
        None \<Rightarrow> s
      | Some (envelopes, top_level) \<Rightarrow>
          let entry = \<lparr>de_since_time_requested = since_time_requested, de_lcut = pa_time pa top_level,
                       de_top_level = top_level, de_envelopes = envelopes\<rparr>;
              records = (case ds_store s (rc_sdk_key rc) of None \<Rightarrow> [] | Some records \<Rightarrow> records)
          in s\<lparr>ds_store := (ds_store s)(rc_sdk_key rc \<mapsto>
                 pop_excess (ds_max_responses_to_persist s) (insert_delta entry records))\<rparr>)"

definition remove_sdk_key :: "AuthorizedRequestContext \<Rightarrow> ('e, 't) DeltasStore \<Rightarrow> ('e, 't) DeltasStore" where
  "remove_sdk_key rc s =
     s\<lparr>ds_sdk_key_store := remove_key rc (ds_sdk_key_store s), ds_store := (ds_store s)(rc_sdk_key rc := None)\<rparr>"

definition deltas_update ::
  "('e, 't) proto_api \<Rightarrow> decoder \<Rightarrow> decoder \<Rightarrow> AuthorizedRequestContext \<Rightarrow> ResponseContext
     \<Rightarrow> ('e, 't) DeltasStore \<Rightarrow> ('e, 't) DeltasStore" where
  "deltas_update pa gunzip unbrotli rc rsp s =
     (case rc_path rc of
        V2DownloadConfigSpecs \<Rightarrow>
          if \<not> rc_supports_proto rc \<or> \<not> rc_accept_deltas rc then s
          else
            let drc = to_delta_request_context rc
            in (case rsp_result_type rsp of
                  DataAvailable \<Rightarrow>
                    if has_key drc (ds_sdk_key_store s) then s
                    else s\<lparr>ds_sdk_key_store := upsert drc (rsp_lcut rsp) (ds_sdk_key_store s)\<rparr>
                | Unauthorized \<Rightarrow> remove_sdk_key drc s
                | ClientError \<Rightarrow> remove_sdk_key drc s
                | ProviderError \<Rightarrow> s
                | NoDataAvailable \<Rightarrow> s)
      | V2DownloadConfigSpecsDeltas \<Rightarrow>
          (case rsp_result_type rsp of
             DataAvailable \<Rightarrow>
               let s1 = persist_delta pa gunzip unbrotli rc (rsp_body rsp) (rsp_request_since_time rsp) s
               in s1\<lparr>ds_sdk_key_store := upsert rc (rsp_lcut rsp) (ds_sdk_key_store s1)\<rparr>
           | Unauthorized \<Rightarrow> remove_sdk_key rc s
           | ClientError \<Rightarrow> remove_sdk_key rc s
           | ProviderError \<Rightarrow> s
           | NoDataAvailable \<Rightarrow> s)
      | _ \<Rightarrow> s)"

definition has_registered_key :: "AuthorizedRequestContext \<Rightarrow> ('e, 't) DeltasStore \<Rightarrow> bool" where
  "has_registered_key rc s = has_key (to_delta_request_context rc) (ds_sdk_key_store s)"

definition register_sdk_key ::
  "AuthorizedRequestContext \<Rightarrow> u64 \<Rightarrow> ('e, 't) DeltasStore \<Rightarrow> ('e, 't) DeltasStore" where
  "register_sdk_key rc since_time s =
     s\<lparr>ds_sdk_key_store := upsert (to_delta_request_context rc) since_time (ds_sdk_key_store s)\<rparr>"

definition get_cached_deltas ::
  "AuthorizedRequestContext \<Rightarrow> ('e, 't) DeltasStore \<Rightarrow> ('e, 't) DeltaCacheEntry list" where
  "get_cached_deltas rc s = (case ds_store s (rc_sdk_key rc) of None \<Rightarrow> [] | Some records \<Rightarrow> records)"

text \<open>The store is the only state that the observers of its provider change.\<close>

definition get_deltas ::
  "(('e, 't) DeltasStore, 'n) fetch_env \<Rightarrow> bool \<Rightarrow> bool \<Rightarrow> nat \<Rightarrow> nat \<Rightarrow> AuthorizedRequestContext
     \<Rightarrow> fetch_locks \<times> (('e, 't) DeltasStore, 'n) fetch_state
     \<Rightarrow> ('e, 't) DeltaCacheEntry list \<times> fetch_locks \<times> (('e, 't) DeltasStore, 'n) fetch_state" where
  "get_deltas env ok timed_out now later rc ls =
     (let w = fs_world (snd ls); s = shared w;
          ls' = (if has_key rc (ds_sdk_key_store s) then ls
                 else foreground_fetch env ok timed_out now later rc 0 False
                        (fst ls, (snd ls)\<lparr>fs_world := w\<lparr>shared :=
                           s\<lparr>ds_sdk_key_store := upsert (to_delta_request_context rc) 0 (ds_sdk_key_store s)\<rparr>\<rparr>\<rparr>))
      in (get_cached_deltas rc (shared (fs_world (snd ls'))), ls'))"

section \<open>Serving\<close>

definition is_meta_envelope :: "('e, 't) proto_api \<Rightarrow> int \<Rightarrow> bool" where
  "is_meta_envelope pa kind \<longleftrightarrow>
     kind = pa_done pa \<or> kind = pa_copy_prev pa \<or> kind = pa_top pa \<or> kind = pa_checksums pa"

text \<open>The writer appends to the payload and stops at the first envelope that cannot be written.\<close>

fun write_envelopes :: "('e, 't) proto_api \<Rightarrow> 'e list \<Rightarrow> string \<Rightarrow> string option" where
  "write_envelopes pa [] out = Some out"
| "write_envelopes pa (e # es) out =
     (case pa_encode pa e of None \<Rightarrow> None | Some text \<Rightarrow> write_envelopes pa es (out @ text))"

definition assemble_envelopes_in_delta_order ::
  "('e, 't) proto_api \<Rightarrow> ('e, 't) DeltaCacheEntry list \<Rightarrow> string option" where
  "assemble_envelopes_in_delta_order pa selected =
     (if selected = [] then Some []
      else
        let latest = de_envelopes (last selected)
        in Option.bind
             (write_envelopes pa (filter (\<lambda>e. is_meta_envelope pa (pa_kind pa e) \<and> pa_kind pa e \<noteq> pa_checksums pa
                                     \<and> pa_kind pa e \<noteq> pa_done pa) latest) []) (\<lambda>out.
           Option.bind
             (write_envelopes pa (concat (map (\<lambda>d. filter (\<lambda>e. \<not> is_meta_envelope pa (pa_kind pa e)) (de_envelopes d))
                                     selected)) out)
             (write_envelopes pa (filter (\<lambda>e. pa_kind pa e = pa_checksums pa \<or> pa_kind pa e = pa_done pa) latest))))"

definition build_combined_delta_proto_payload ::
  "('e, 't) proto_api \<Rightarrow> AuthorizedRequestContext \<Rightarrow> u64 \<Rightarrow> ('e, 't) DeltasStore \<Rightarrow> DeltaProtoBuildResult" where
  "build_combined_delta_proto_payload pa rc since_time s =
     (let mapped_rc = to_delta_request_context rc
      in if \<not> has_key mapped_rc (ds_sdk_key_store s) then SdkKeyNotRegistered
         else
           let deltas = get_cached_deltas mapped_rc s
           in if deltas = [] then NoCachedDeltas
              else
                let earliest_requested_time = Min (set (map de_since_time_requested deltas));
                    latest_lcut = de_lcut (last deltas)
                in if since_time < earliest_requested_time then SinceTimeTooOld earliest_requested_time
                   else
                     let selected = filter (\<lambda>d. since_time \<le> de_lcut d) deltas
                     in if selected = [] \<or> since_time = latest_lcut then NoUpdates latest_lcut
                        else (case assemble_envelopes_in_delta_order pa selected of
                                Some payload \<Rightarrow> Combined latest_lcut payload
                              | None \<Rightarrow> SerializationFailed))"


section \<open>The history is the newest part of what was received\<close>

lemma pop_excess_drop: "pop_excess n xs = drop (length xs - n) xs"
  by (induction xs) (auto simp: Suc_diff_le not_less)

lemma sorted_take_drop:
  fixes f :: "'a \<Rightarrow> 'b :: linorder"
  assumes "sorted (map f xs)"
  shows "filter (\<lambda>x. f x \<le> k) xs = takeWhile (\<lambda>x. f x \<le> k) xs \<and> filter (\<lambda>x. k < f x) xs = dropWhile (\<lambda>x. f x \<le> k) xs"
  using assms
proof (induction xs)
  case (Cons a xs)
  show ?case
  proof (cases "f a \<le> k")
    case False
    then have "\<forall>x\<in>set xs. k < f x" using Cons.prems by auto
    then have "filter (\<lambda>x. f x \<le> k) xs = []" "filter (\<lambda>x. k < f x) xs = xs"
      by (auto simp: filter_empty_conv filter_id_conv not_le)
    then show ?thesis using False by simp
  qed (use Cons in \<open>simp add: not_less\<close>)
qed simp

lemma insert_delta_sorted:
  assumes "sorted (map de_lcut xs)"
  shows "insert_delta d xs = filter (\<lambda>x. de_lcut x \<le> de_lcut d) xs @ [d] @ filter (\<lambda>x. de_lcut d < de_lcut x) xs"
  by (simp add: insert_delta_def sorted_take_drop [OF assms])

lemma insert_delta_sort_key:
  "insert_delta d (sort_key de_lcut xs) = sort_key de_lcut (xs @ [d])"
proof (rule sym, rule properties_for_sort_key)
  let ?ys = "sort_key de_lcut xs"
  have ins: "insert_delta d ?ys = filter (\<lambda>x. de_lcut x \<le> de_lcut d) ?ys @ [d] @ filter (\<lambda>x. de_lcut d < de_lcut x) ?ys"
    by (rule insert_delta_sorted) simp
  have "mset (filter (\<lambda>x. de_lcut x \<le> de_lcut d) ?ys) + mset (filter (\<lambda>x. de_lcut d < de_lcut x) ?ys) = mset ?ys"
    using multiset_partition [of "mset ?ys" "\<lambda>x. de_lcut x \<le> de_lcut d"] by (simp add: not_le)
  then show "mset (insert_delta d ?ys) = mset (xs @ [d])" by (simp add: ins ac_simps)
  show "filter (\<lambda>x. de_lcut k = de_lcut x) (insert_delta d ?ys) = filter (\<lambda>x. de_lcut k = de_lcut x) (xs @ [d])"
    if "k \<in> set (insert_delta d ?ys)" for k
  proof -
    have st: "filter (\<lambda>x. de_lcut k = de_lcut x) ?ys = filter (\<lambda>x. de_lcut k = de_lcut x) xs"
      using sort_key_stable [of de_lcut "de_lcut k" xs] by (simp add: eq_commute)
    consider "de_lcut k \<le> de_lcut d" | "de_lcut d < de_lcut k" by force
    then show ?thesis
    proof cases
      case 1
      then have "filter (\<lambda>x. de_lcut d < de_lcut x \<and> de_lcut k = de_lcut x) ?ys = []" by (auto simp: filter_empty_conv)
      moreover have "filter (\<lambda>x. de_lcut x \<le> de_lcut d \<and> de_lcut k = de_lcut x) ?ys = filter (\<lambda>x. de_lcut k = de_lcut x) ?ys"
        using 1 by (intro filter_cong) auto
      ultimately show ?thesis by (auto simp: ins st filter_empty_conv)
    next
      case 2
      then have "filter (\<lambda>x. de_lcut x \<le> de_lcut d \<and> de_lcut k = de_lcut x) ?ys = []" by (auto simp: filter_empty_conv)
      moreover have "filter (\<lambda>x. de_lcut d < de_lcut x \<and> de_lcut k = de_lcut x) ?ys = filter (\<lambda>x. de_lcut k = de_lcut x) ?ys"
        using 2 by (intro filter_cong) auto
      ultimately show ?thesis using 2 by (auto simp: ins st)
    qed
  qed
  show "sorted (map de_lcut (insert_delta d ?ys))"
    by (auto simp: ins sorted_append sorted_filter)
qed

text \<open>The entries that are kept: the last \<open>n\<close> in the order of time.\<close>

definition newest :: "nat \<Rightarrow> ('e, 't) DeltaCacheEntry list \<Rightarrow> ('e, 't) DeltaCacheEntry list" where
  "newest n ds = drop (length ds - n) (sort_key de_lcut ds)"

lemma newest_nil [simp]: "newest n [] = []"
  by (simp add: newest_def)

lemma insert_delta_Cons:
  "insert_delta d (x # xs) = (if de_lcut x \<le> de_lcut d then x # insert_delta d xs else d # x # xs)"
  by (simp add: insert_delta_def)

lemma length_insert_delta [simp]: "length (insert_delta d xs) = Suc (length xs)"
  by (induction xs) (simp_all add: insert_delta_Cons, simp add: insert_delta_def)

lemma insert_delta_least: "\<forall>x\<in>set xs. de_lcut d < de_lcut x \<Longrightarrow> insert_delta d xs = d # xs"
  by (cases xs) (auto simp: insert_delta_Cons, simp add: insert_delta_def)

lemma insert_delta_drop:
  assumes "sorted (map de_lcut xs)" and "k \<le> length xs"
  shows "drop (Suc k) (insert_delta d xs) = drop 1 (insert_delta d (drop k xs))"
  using assms
proof (induction k arbitrary: xs)
  case (Suc k)
  then obtain x ys where xs: "xs = x # ys" by (cases xs) auto
  show ?case
  proof (cases "de_lcut x \<le> de_lcut d")
    case True
    then show ?thesis using Suc xs by (simp add: insert_delta_Cons)
  next
    case False
    then have "\<forall>y\<in>set (drop k ys). de_lcut d < de_lcut y"
      using Suc.prems(1) xs by (auto dest!: in_set_dropD)
    then show ?thesis using False xs by (simp add: insert_delta_Cons insert_delta_least)
  qed
qed simp

lemma newest_insert: "pop_excess n (insert_delta d (newest n ds)) = newest n (ds @ [d])"
proof (cases "length ds \<le> n")
  case True
  then show ?thesis by (simp add: newest_def pop_excess_drop insert_delta_sort_key)
next
  case False
  let ?k = "length ds - n"
  have "pop_excess n (insert_delta d (newest n ds)) = drop 1 (insert_delta d (drop ?k (sort_key de_lcut ds)))"
    using False by (simp add: newest_def pop_excess_drop)
  also have "\<dots> = drop (Suc ?k) (insert_delta d (sort_key de_lcut ds))"
    by (rule insert_delta_drop [symmetric]) simp_all
  finally show ?thesis using False by (simp add: newest_def insert_delta_sort_key Suc_diff_le)
qed

lemma newest_sorted: "sorted (map de_lcut (newest n ds))"
  by (simp add: newest_def drop_map [symmetric] sorted_wrt_drop)

lemma newest_length: "length (newest n ds) = min (length ds) n"
  by (simp add: newest_def)


section \<open>No gaps\<close>

text \<open>
  A delta that was asked for at \<open>a\<close> and leads to \<open>b\<close> has the updates of the times after \<open>a\<close> up to \<open>b\<close>.
  A history has no gap when every time between its earliest request and its latest update is
  covered.
\<close>

definition covers :: "('e, 't) DeltaCacheEntry \<Rightarrow> u64 \<Rightarrow> bool" where
  "covers d t \<longleftrightarrow> de_since_time_requested d < t \<and> t \<le> de_lcut d"

definition earliest :: "('e, 't) DeltaCacheEntry list \<Rightarrow> u64" where
  "earliest ds = Min (set (map de_since_time_requested ds))"

definition gapless :: "('e, 't) DeltaCacheEntry list \<Rightarrow> bool" where
  "gapless ds \<longleftrightarrow> (\<forall>t. ds \<noteq> [] \<and> earliest ds < t \<and> t \<le> de_lcut (last ds) \<longrightarrow> (\<exists>d\<in>set ds. covers d t))"

text \<open>A delta that continues the history: asked for at a time that it reaches.\<close>

definition continues :: "('e, 't) DeltaCacheEntry \<Rightarrow> ('e, 't) DeltaCacheEntry list \<Rightarrow> bool" where
  "continues d ds \<longleftrightarrow> ds = [] \<or> de_since_time_requested d \<le> de_lcut (last ds) \<and> earliest ds \<le> de_lcut d"

lemma last_sorted: "sorted (map f xs) \<Longrightarrow> x \<in> set xs \<Longrightarrow> f x \<le> f (last xs)"
  by (induction xs) auto

lemma earliest_le: "d \<in> set ds \<Longrightarrow> earliest ds \<le> de_since_time_requested d"
  by (simp add: earliest_def)

lemma earliest_in: "ds \<noteq> [] \<Longrightarrow> \<exists>d\<in>set ds. de_since_time_requested d = earliest ds"
proof -
  assume "ds \<noteq> []"
  then have "earliest ds \<in> set (map de_since_time_requested ds)" unfolding earliest_def by (intro Min_in) simp_all
  then show ?thesis by auto
qed

lemma set_insert_delta [simp]: "set (insert_delta d xs) = insert d (set xs)"
  by (induction xs) (auto simp: insert_delta_Cons insert_delta_def [of d "[]"])

lemma insert_delta_nonempty [simp]: "insert_delta d xs \<noteq> []"
  by (simp add: insert_delta_def)

lemma gapless_insert:
  assumes "gapless ds" and "continues d ds" and "sorted (map de_lcut ds)"
  shows "gapless (insert_delta d ds)"
  unfolding gapless_def
proof (intro allI impI, elim conjE)
  let ?ds = "insert_delta d ds"
  fix t assume t: "earliest ?ds < t" "t \<le> de_lcut (last ?ds)"
  obtain e where e: "e \<in> insert d (set ds)" "de_since_time_requested e = earliest ?ds"
    using earliest_in [of ?ds] by auto
  have l: "last ?ds \<in> insert d (set ds)" using last_in_set [of ?ds] by simp
  show "\<exists>x\<in>set ?ds. covers x t"
  proof (rule ccontr)
    assume no: "\<not> (\<exists>x\<in>set ?ds. covers x t)"
    then have nd: "\<not> covers d t" "\<And>x. x \<in> set ds \<Longrightarrow> \<not> covers x t" by auto
    show False
    proof (cases "ds = []")
      case True
      then show False using t e l nd by (auto simp: covers_def)
    next
      case False
      then have c: "de_since_time_requested d \<le> de_lcut (last ds)" "earliest ds \<le> de_lcut d"
        using assms(2) by (auto simp: continues_def)
      have g: "\<not> (earliest ds < t \<and> t \<le> de_lcut (last ds))" using assms(1) nd False by (auto simp: gapless_def)
      have hi: "t \<le> de_lcut d \<or> t \<le> de_lcut (last ds)"
      proof (cases "last ?ds = d")
        case False
        then have "de_lcut (last ?ds) \<le> de_lcut (last ds)" using l last_sorted [OF assms(3)] by auto
        then show ?thesis using order_trans [OF t(2)] by blast
      qed (use t in simp)
      have lo: "de_since_time_requested d < t \<or> earliest ds < t"
      proof (cases "e = d")
        case False
        then have "earliest ds \<le> de_since_time_requested e" using e(1) earliest_le by auto
        then show ?thesis using e(2) le_less_trans [OF _ t(1)] by auto
      qed (use e t in simp)
      show False using g hi lo nd(1) c unfolding covers_def by auto
    qed
  qed
qed

lemma gapless_tl:
  assumes "gapless (d # ds)" and "sorted (map de_lcut (d # ds))"
  shows "gapless ds"
  unfolding gapless_def
proof (intro allI impI, elim conjE)
  fix t assume ne: "ds \<noteq> []" and t: "earliest ds < t" "t \<le> de_lcut (last ds)"
  obtain e where e: "e \<in> set ds" "de_since_time_requested e = earliest ds" using earliest_in [OF ne] by blast
  have "earliest (d # ds) < t" using t(1) e earliest_le [of e "d # ds"] by auto
  then obtain x where x: "x \<in> set (d # ds)" "covers x t"
    using assms(1) ne t(2) unfolding gapless_def by auto
  show "\<exists>d\<in>set ds. covers d t"
  proof (cases "x = d")
    case True
    then have "covers e t" using x e t(1) assms(2) by (fastforce simp: covers_def)
    then show ?thesis using e by blast
  qed (use x in auto)
qed

lemma gapless_drop: "gapless ds \<Longrightarrow> sorted (map de_lcut ds) \<Longrightarrow> gapless (drop n ds)"
proof (induction n arbitrary: ds)
  case (Suc n)
  show ?case
  proof (cases ds)
    case (Cons d xs)
    then have "gapless xs" using gapless_tl Suc.prems by blast
    then show ?thesis using Suc.IH [of xs] Suc.prems Cons by simp
  qed (use Suc.prems in simp)
qed simp

text \<open>Receiving deltas one after the other, each of which continues what is kept.\<close>

fun receive :: "nat \<Rightarrow> ('e, 't) DeltaCacheEntry list \<Rightarrow> ('e, 't) DeltaCacheEntry list \<Rightarrow> ('e, 't) DeltaCacheEntry list" where
  "receive n ds [] = ds"
| "receive n ds (d # ms) = receive n (pop_excess n (insert_delta d ds)) ms"

fun all_continue :: "nat \<Rightarrow> ('e, 't) DeltaCacheEntry list \<Rightarrow> ('e, 't) DeltaCacheEntry list \<Rightarrow> bool" where
  "all_continue n ds [] = True"
| "all_continue n ds (d # ms) \<longleftrightarrow> continues d ds \<and> all_continue n (pop_excess n (insert_delta d ds)) ms"

lemma receive_newest: "receive n (newest n ds) ms = newest n (ds @ ms)"
  by (induction ms arbitrary: ds) (simp_all add: newest_insert)

lemma receive_gapless: "gapless ds \<Longrightarrow> sorted (map de_lcut ds) \<Longrightarrow> all_continue n ds ms \<Longrightarrow> gapless (receive n ds ms)"
proof (induction ms arbitrary: ds)
  case (Cons d ms)
  have s: "sorted (map de_lcut (insert_delta d ds))"
    using Cons.prems(2) by (auto simp: insert_delta_sorted sorted_append sorted_filter)
  have "gapless (pop_excess n (insert_delta d ds))"
    using gapless_insert [of ds d] Cons.prems s by (simp add: pop_excess_drop gapless_drop)
  moreover have "sorted (map de_lcut (pop_excess n (insert_delta d ds)))"
    using s by (simp add: pop_excess_drop drop_map [symmetric] sorted_wrt_drop)
  ultimately show ?case using Cons by simp
qed simp


section \<open>What a client reads back\<close>

text \<open>The codec as documented: a delimited message is read back, whatever follows it.\<close>

definition proto_ok :: "('e, 't) proto_api \<Rightarrow> bool" where
  "proto_ok pa \<longleftrightarrow>
     (\<forall>e msg rest. pa_encode pa e = Some msg \<longrightarrow>
        msg \<noteq> [] \<and> pa_decode_delimited pa (msg @ rest) = Inr (e, length msg))"

lemma write_appends: "write_envelopes pa es out = map_option ((@) out) (write_envelopes pa es [])"
proof (induction es arbitrary: out)
  case (Cons e es)
  show ?case
  proof (cases "pa_encode pa e")
    case (Some msg)
    show ?thesis using Cons [of "out @ msg"] Cons [of msg] Some
      by (cases "write_envelopes pa es []") auto
  qed simp
qed simp

lemma write_append: "write_envelopes pa (es @ fs) out = Option.bind (write_envelopes pa es out) (write_envelopes pa fs)"
  by (induction es arbitrary: out) (auto split: option.splits)

lemma decode_written:
  assumes "proto_ok pa" and "write_envelopes pa es [] = Some p"
  shows "decode_loop pa payload p acc = Inr (acc @ es)"
  using assms(2)
proof (induction es arbitrary: p acc)
  case Nil
  then show ?case by (simp add: decode_loop.simps)
next
  case (Cons e es)
  then obtain msg where msg: "pa_encode pa e = Some msg" by (cases "pa_encode pa e") simp_all
  then obtain q where q: "write_envelopes pa es [] = Some q" and p: "p = msg @ q"
    using Cons.prems write_appends [of pa es msg] by auto
  have d: "msg \<noteq> []" "pa_decode_delimited pa (msg @ q) = Inr (e, length msg)"
    using assms(1) msg by (auto simp: proto_ok_def)
  show ?case
    using d Cons.IH [OF q, of "acc @ [e]"] unfolding p by (subst decode_loop.simps) simp
qed

text \<open>The envelopes of the payload for the entries \<open>sel\<close>, in order.\<close>

definition changes_of :: "('e, 't) proto_api \<Rightarrow> ('e, 't) DeltaCacheEntry \<Rightarrow> 'e list" where
  "changes_of pa d = filter (\<lambda>e. \<not> is_meta_envelope pa (pa_kind pa e)) (de_envelopes d)"

definition closing :: "('e, 't) proto_api \<Rightarrow> 'e \<Rightarrow> bool" where
  "closing pa e \<longleftrightarrow> pa_kind pa e = pa_checksums pa \<or> pa_kind pa e = pa_done pa"

definition combined_envelopes :: "('e, 't) proto_api \<Rightarrow> ('e, 't) DeltaCacheEntry list \<Rightarrow> 'e list" where
  "combined_envelopes pa sel =
     filter (\<lambda>e. is_meta_envelope pa (pa_kind pa e) \<and> \<not> closing pa e) (de_envelopes (last sel))
     @ concat (map (changes_of pa) sel) @ filter (closing pa) (de_envelopes (last sel))"

lemma assemble_combined:
  assumes "sel \<noteq> []"
  shows "assemble_envelopes_in_delta_order pa sel = write_envelopes pa (combined_envelopes pa sel) []"
proof -
  have "(\<lambda>e. is_meta_envelope pa (pa_kind pa e) \<and> \<not> closing pa e)
      = (\<lambda>e. is_meta_envelope pa (pa_kind pa e) \<and> pa_kind pa e \<noteq> pa_checksums pa \<and> pa_kind pa e \<noteq> pa_done pa)"
    "closing pa = (\<lambda>e. pa_kind pa e = pa_checksums pa \<or> pa_kind pa e = pa_done pa)"
    by (auto simp: closing_def)
  moreover have "write_envelopes pa (es @ fs) = (\<lambda>out. Option.bind (write_envelopes pa es out) (write_envelopes pa fs))" for es fs
    by (rule ext) (rule write_append)
  ultimately show ?thesis
    using assms by (simp add: assemble_envelopes_in_delta_order_def combined_envelopes_def changes_of_def [abs_def] Let_def)
qed

lemma combined_reads_back:
  assumes "proto_ok pa" and "build_combined_delta_proto_payload pa rc since s = Combined lcut payload"
  defines "ds \<equiv> get_cached_deltas (to_delta_request_context rc) s"
  defines "sel \<equiv> filter (\<lambda>d. since \<le> de_lcut d) ds"
  shows "ds \<noteq> []" "earliest ds \<le> since" "lcut = de_lcut (last ds)" "sel \<noteq> []"
    and "decode_envelopes pa payload = Inr (combined_envelopes pa sel)"
proof -
  note b = assms(2) [unfolded build_combined_delta_proto_payload_def Let_def, folded ds_def, folded sel_def]
  show ne: "ds \<noteq> []" "sel \<noteq> []" using b by (auto split: if_splits)
  show "earliest ds \<le> since"
  proof (rule ccontr)
    assume "\<not> earliest ds \<le> since"
    then have "since < Min (set (map de_since_time_requested ds))" by (simp add: earliest_def not_le)
    then show False using b ne(1) by (simp only: if_True if_False simp_thms split: if_splits) simp_all
  qed
  have asm: "assemble_envelopes_in_delta_order pa sel = Some payload" and l: "lcut = de_lcut (last ds)"
    using b by (auto split: if_splits option.splits)
  show "lcut = de_lcut (last ds)" by (rule l)
  have "decode_loop pa payload payload [] = Inr ([] @ combined_envelopes pa sel)"
    by (rule decode_written [OF assms(1)]) (use asm assemble_combined [OF ne(2)] in simp)
  then show "decode_envelopes pa payload = Inr (combined_envelopes pa sel)" by (simp add: decode_envelopes_def)
qed


section \<open>A sequence of results\<close>

text \<open>The entry that a result adds to the history of its SDK key, and the results that end the history.\<close>

definition delta_of ::
  "('e, 't) proto_api \<Rightarrow> decoder \<Rightarrow> decoder \<Rightarrow> AuthorizedRequestContext \<Rightarrow> ResponseContext
     \<Rightarrow> ('e, 't) DeltaCacheEntry option" where
  "delta_of pa gunzip unbrotli rc rsp =
     (if rc_path rc = V2DownloadConfigSpecsDeltas \<and> rsp_result_type rsp = DataAvailable
      then map_option (\<lambda>(envelopes, t).
             \<lparr>de_since_time_requested = rsp_request_since_time rsp, de_lcut = pa_time pa t, de_top_level = t,
              de_envelopes = envelopes\<rparr>) (parse_payload_to_protos pa gunzip unbrotli (rsp_body rsp))
      else None)"

definition ends_history :: "AuthorizedRequestContext \<Rightarrow> ResponseContext \<Rightarrow> bool" where
  "ends_history rc rsp \<longleftrightarrow>
     rsp_result_type rsp \<in> {Unauthorized, ClientError}
     \<and> (rc_path rc = V2DownloadConfigSpecsDeltas
        \<or> rc_path rc = V2DownloadConfigSpecs \<and> rc_supports_proto rc \<and> rc_accept_deltas rc)"

text \<open>The entries received for a key since its history was ended last.\<close>

fun received ::
  "('e, 't) proto_api \<Rightarrow> decoder \<Rightarrow> decoder \<Rightarrow> string \<Rightarrow> (AuthorizedRequestContext \<times> ResponseContext) list
     \<Rightarrow> ('e, 't) DeltaCacheEntry list \<Rightarrow> ('e, 't) DeltaCacheEntry list" where
  "received pa gunzip unbrotli key [] ds = ds"
| "received pa gunzip unbrotli key ((rc, rsp) # evs) ds =
     received pa gunzip unbrotli key evs
       (if rc_sdk_key rc \<noteq> key then ds
        else if ends_history rc rsp then []
        else (case delta_of pa gunzip unbrotli rc rsp of None \<Rightarrow> ds | Some d \<Rightarrow> ds @ [d]))"

definition deltas_run ::
  "('e, 't) proto_api \<Rightarrow> decoder \<Rightarrow> decoder \<Rightarrow> (AuthorizedRequestContext \<times> ResponseContext) list
     \<Rightarrow> ('e, 't) DeltasStore \<Rightarrow> ('e, 't) DeltasStore" where
  "deltas_run pa gunzip unbrotli evs s = foldl (\<lambda>s (rc, rsp). deltas_update pa gunzip unbrotli rc rsp s) s evs"

definition history :: "string \<Rightarrow> ('e, 't) DeltasStore \<Rightarrow> ('e, 't) DeltaCacheEntry list" where
  "history key s = (case ds_store s key of None \<Rightarrow> [] | Some records \<Rightarrow> records)"

lemma delta_context_key [simp]: "rc_sdk_key (to_delta_request_context rc) = rc_sdk_key rc"
  by (simp add: to_delta_request_context_def with_request_capabilities_def rc_new_def)

lemma cached_history: "get_cached_deltas (to_delta_request_context rc) s = history (rc_sdk_key rc) s"
  by (simp add: get_cached_deltas_def history_def)

lemma update_history:
  "history key (deltas_update pa gunzip unbrotli rc rsp s) =
     (if rc_sdk_key rc \<noteq> key then history key s
      else if ends_history rc rsp then []
      else (case delta_of pa gunzip unbrotli rc rsp of
              None \<Rightarrow> history key s
            | Some d \<Rightarrow> pop_excess (ds_max_responses_to_persist s) (insert_delta d (history key s))))"
  by (cases "rc_path rc"; cases "rsp_result_type rsp")
    (auto simp: deltas_update_def history_def delta_of_def ends_history_def persist_delta_def remove_sdk_key_def Let_def
      split: option.splits)

lemma update_max [simp]: "ds_max_responses_to_persist (deltas_update pa g u rc rsp s) = ds_max_responses_to_persist s"
  by (cases "rc_path rc"; cases "rsp_result_type rsp")
    (auto simp: deltas_update_def persist_delta_def remove_sdk_key_def Let_def split: option.splits)

lemma run_history:
  "history key s = newest (ds_max_responses_to_persist s) ds \<Longrightarrow>
     history key (deltas_run pa gunzip unbrotli evs s)
       = newest (ds_max_responses_to_persist s) (received pa gunzip unbrotli key evs ds)"
proof (induction evs arbitrary: s ds)
  case Nil
  then show ?case by (simp add: deltas_run_def)
next
  case (Cons ev evs)
  obtain rc rsp where ev: "ev = (rc, rsp)" by force
  have "deltas_run pa gunzip unbrotli (ev # evs) s
      = deltas_run pa gunzip unbrotli evs (deltas_update pa gunzip unbrotli rc rsp s)"
    by (simp add: deltas_run_def ev)
  moreover have "history key (deltas_update pa gunzip unbrotli rc rsp s) = newest (ds_max_responses_to_persist s)
      (if rc_sdk_key rc \<noteq> key then ds else if ends_history rc rsp then []
       else (case delta_of pa gunzip unbrotli rc rsp of None \<Rightarrow> ds | Some d \<Rightarrow> ds @ [d]))"
    using Cons.prems by (simp add: update_history newest_insert split: option.splits)
  ultimately show ?case using Cons.IH [of "deltas_update pa gunzip unbrotli rc rsp s"] by (simp add: ev)
qed

lemma run_from_new:
  "history key (deltas_run pa gunzip unbrotli evs (deltas_store_new keys n))
     = newest (max n 1) (received pa gunzip unbrotli key evs [])"
proof -
  have "history key (deltas_store_new keys n :: ('a, 'b) DeltasStore)
      = newest (ds_max_responses_to_persist (deltas_store_new keys n :: ('a, 'b) DeltasStore)) []"
    by (simp add: history_def deltas_store_new_def)
  from run_history [OF this, of pa gunzip unbrotli evs] show ?thesis by (simp add: deltas_store_new_def)
qed

text \<open>
  C31: the history of a key is the newest part of the deltas that were received for it since its
  history was last ended, in the order of their times and of their arrival, whatever the order in
  which they come: it is what a stable sort of all of them would keep.
\<close>

theorem delta_history_newest:
  "history key (deltas_run pa gunzip unbrotli evs (deltas_store_new keys n))
     = newest (max n 1) (received pa gunzip unbrotli key evs [])"
  by (rule run_from_new)

text \<open>Each entry that a history received continues what was kept of it.\<close>

definition unbroken :: "nat \<Rightarrow> ('e, 't) DeltaCacheEntry list \<Rightarrow> bool" where
  "unbroken n ds \<longleftrightarrow> all_continue n [] ds"

lemma unbroken_gapless:
  fixes keys :: sdk_key_store
  assumes "unbroken (max n 1) (received pa gunzip unbrotli key evs [])"
  defines "s \<equiv> deltas_run pa gunzip unbrotli evs (deltas_store_new keys n)"
  shows "gapless (history key s)" "sorted (map de_lcut (history key s))"
proof -
  let ?rs = "received pa gunzip unbrotli key evs []"
  have ds: "history key s = newest (max n 1) ?rs" unfolding s_def by (rule run_from_new)
  then have "history key s = receive (max n 1) [] ?rs" using receive_newest [of "max n 1" "[]" ?rs] by simp
  moreover have "gapless (receive (max n 1) [] ?rs)"
    by (rule receive_gapless) (use assms(1) in \<open>simp_all add: gapless_def unbroken_def\<close>)
  ultimately show "gapless (history key s)" by simp
  show "sorted (map de_lcut (history key s))" unfolding ds by (rule newest_sorted)
qed

text \<open>A combined payload has the changes of an entry for every time that it announces.\<close>

lemma combined_covers:
  assumes "proto_ok pa" and "gapless (history (rc_sdk_key rc) s)" and "sorted (map de_lcut (history (rc_sdk_key rc) s))"
    and "build_combined_delta_proto_payload pa rc since s = Combined lcut payload"
  defines "sel \<equiv> filter (\<lambda>d. since \<le> de_lcut d) (history (rc_sdk_key rc) s)"
  shows "decode_envelopes pa payload = Inr (combined_envelopes pa sel)" "lcut = de_lcut (last sel)"
    and "since < t \<Longrightarrow> t \<le> lcut \<Longrightarrow> \<exists>d\<in>set sel. covers d t"
proof -
  let ?ds = "history (rc_sdk_key rc) s"
  note c = combined_reads_back [OF assms(1,4), unfolded cached_history, folded sel_def]
  show "decode_envelopes pa payload = Inr (combined_envelopes pa sel)" by (rule c(5))
  have "since \<le> de_lcut (last ?ds)"
    using c(4) last_sorted [OF assms(3)] by (fastforce simp: filter_empty_conv sel_def)
  then have "last sel = last ?ds" using c(1) by (cases ?ds rule: rev_cases) (auto simp: sel_def)
  then show "lcut = de_lcut (last sel)" using c(3) by simp
  assume t: "since < t" "t \<le> lcut"
  have "earliest ?ds < t" using c(2) t(1) by simp
  then obtain d where "d \<in> set ?ds" "covers d t" using assms(2) c(1,3) t(2) by (auto simp: gapless_def)
  moreover from this have "since \<le> de_lcut d" using t(1) by (auto simp: covers_def)
  ultimately show "\<exists>d\<in>set sel. covers d t" by (auto simp: sel_def)
qed

text \<open>Without updates the client has reached the end of the history.\<close>

lemma no_updates_reached:
  assumes "sorted (map de_lcut (history (rc_sdk_key rc) s))"
    and "build_combined_delta_proto_payload pa rc since s = NoUpdates lcut"
  shows "lcut \<le> since" "\<forall>d\<in>set (history (rc_sdk_key rc) s). de_lcut d \<le> lcut"
proof -
  let ?ds = "history (rc_sdk_key rc) s"
  note b = assms(2) [unfolded build_combined_delta_proto_payload_def Let_def cached_history]
  have l: "lcut = de_lcut (last ?ds)" and ne: "?ds \<noteq> []"
    and u: "filter (\<lambda>d. since \<le> de_lcut d) ?ds = [] \<or> since = de_lcut (last ?ds)"
    using b by (auto split: if_splits option.splits)
  show "lcut \<le> since" using u last_in_set [OF ne] by (force simp: l filter_empty_conv not_le)
  show "\<forall>d\<in>set ?ds. de_lcut d \<le> lcut" unfolding l using last_sorted [OF assms(1)] by blast
qed

subsection \<open>Two deltas\<close>

text \<open>Envelopes of two bytes: the kind and the data.\<close>

definition byte_proto :: "(char \<times> char, u64) proto_api" where
  "byte_proto =
     \<lparr>pa_kind = (\<lambda>(k, _). of_char k), pa_data = (\<lambda>(_, d). Some [d]), pa_encode = (\<lambda>(k, d). Some [k, d]),
      pa_decode_delimited = (\<lambda>s. case s of k # d # _ \<Rightarrow> Inr ((k, d), 2) | _ \<Rightarrow> Inl ''short''),
      pa_decode = (\<lambda>s. Inl ''short''), pa_top_level = (\<lambda>s. case s of c # _ \<Rightarrow> Some (of_char c) | _ \<Rightarrow> None),
      pa_time = id, pa_done = 68, pa_copy_prev = 80, pa_top = 84, pa_checksums = 67\<rparr>"

lemma byte_proto_ok: "proto_ok byte_proto"
  by (auto simp: proto_ok_def byte_proto_def)

definition delta_rc :: AuthorizedRequestContext where
  "delta_rc = with_request_capabilities True True (rc_new ''key'' V2DownloadConfigSpecsDeltas [PlainText])"

definition delta_response :: "u64 \<Rightarrow> u64 \<Rightarrow> string \<Rightarrow> ResponseContext" where
  "delta_response since lcut body =
     \<lparr>rsp_result_type = DataAvailable, rsp_lcut = lcut, rsp_request_since_time = since,
      rsp_body = \<lparr>rp_encoding = PlainText, rp_data = body, rp_use_proto = True\<rparr>\<rparr>"

definition two_deltas :: "(AuthorizedRequestContext \<times> ResponseContext) list" where
  "two_deltas = [(delta_rc, delta_response 1 53 ''T5gxD.''), (delta_rc, delta_response 53 57 ''T9gyD.'')]"

definition two_deltas_store :: "(char \<times> char, u64) DeltasStore" where
  "two_deltas_store = deltas_run byte_proto Some Some two_deltas (deltas_store_new sdk_key_store_new 5)"

lemma two_parsed:
  "parse_payload_to_protos byte_proto g u (rsp_body (delta_response a b ''T5gxD.''))
     = Some ([(CHR ''T'', CHR ''5''), (CHR ''g'', CHR ''x''), (CHR ''D'', CHR ''.'')], 53)"
  "parse_payload_to_protos byte_proto g u (rsp_body (delta_response a b ''T9gyD.''))
     = Some ([(CHR ''T'', CHR ''9''), (CHR ''g'', CHR ''y''), (CHR ''D'', CHR ''.'')], 57)"
  by (simp_all add: parse_payload_to_protos_def delta_response_def decompress_def decode_envelopes_def decode_loop.simps
      byte_proto_def or_else_def)

abbreviation first_delta :: "(char \<times> char, u64) DeltaCacheEntry" where
  "first_delta \<equiv> \<lparr>de_since_time_requested = 1, de_lcut = 53, de_top_level = 53,
     de_envelopes = [(CHR ''T'', CHR ''5''), (CHR ''g'', CHR ''x''), (CHR ''D'', CHR ''.'')]\<rparr>"

abbreviation second_delta :: "(char \<times> char, u64) DeltaCacheEntry" where
  "second_delta \<equiv> \<lparr>de_since_time_requested = 53, de_lcut = 57, de_top_level = 57,
     de_envelopes = [(CHR ''T'', CHR ''9''), (CHR ''g'', CHR ''y''), (CHR ''D'', CHR ''.'')]\<rparr>"

lemma delta_rc_path: "rc_path delta_rc = V2DownloadConfigSpecsDeltas" "rc_sdk_key delta_rc = ''key''"
  by (simp_all add: delta_rc_def with_request_capabilities_def rc_new_def)

lemma two_received: "received byte_proto g u ''key'' two_deltas [] = [first_delta, second_delta]"
  by (simp add: two_deltas_def ends_history_def delta_of_def delta_rc_path two_parsed)
    (simp add: delta_response_def byte_proto_def)


lemma delta_rc_mapped: "rc_id (to_delta_request_context delta_rc) = rc_id delta_rc"
  using canonicalize_encodings_four [of "[PlainText]", THEN conjunct2]
  by (simp add: to_delta_request_context_def delta_rc_def with_request_capabilities_def rc_new_def rc_id_def)

lemma upsert_known: "has_key rc (upsert rc l keys)"
  by (simp add: has_key_def upsert_def cm_get_def cm_insert_def split: option.splits)

lemma update_registers:
  assumes "rc_path rc = V2DownloadConfigSpecsDeltas" and "rsp_result_type rsp = DataAvailable" and "rc_id rc' = rc_id rc"
  shows "has_key rc' (ds_sdk_key_store (deltas_update pa g u rc rsp s))"
  using assms upsert_known [of rc] by (simp add: deltas_update_def Let_def has_key_def cm_get_def)

lemma two_history: "history ''key'' two_deltas_store = [first_delta, second_delta]"
  unfolding two_deltas_store_def run_from_new two_received by (simp add: newest_def)

lemma two_combined: "build_combined_delta_proto_payload byte_proto delta_rc 2 two_deltas_store = Combined 57 ''T9gxgyD.''"
proof -
  have "has_key (to_delta_request_context delta_rc) (ds_sdk_key_store two_deltas_store)"
    unfolding two_deltas_store_def deltas_run_def two_deltas_def
    by (simp, rule update_registers) (simp_all add: delta_rc_path delta_rc_mapped, simp add: delta_response_def)
  then show ?thesis
    by (simp add: build_combined_delta_proto_payload_def cached_history delta_rc_path two_history Let_def
        assemble_envelopes_in_delta_order_def byte_proto_def is_meta_envelope_def)
qed

lemma two_unbroken: "unbroken (max 5 1) (received byte_proto Some Some (rc_sdk_key delta_rc) two_deltas [])"
  unfolding delta_rc_path two_received by (simp add: unbroken_def continues_def insert_delta_def earliest_def)

text \<open>
  A delta that cannot be parsed is not kept, but the time of its response is stored as the time to ask
  for next, so that the next delta does not continue the history. A client at a time before
  the lost delta is then served without it.
\<close>

definition lost_delta :: "(AuthorizedRequestContext \<times> ResponseContext) list" where
  "lost_delta = [(delta_rc, delta_response 1 53 ''T5gxD.''), (delta_rc, delta_response 53 55 ''?''),
     (delta_rc, delta_response 55 57 ''T9gyD.'')]"

definition lost_delta_store :: "(char \<times> char, u64) DeltasStore" where
  "lost_delta_store = deltas_run byte_proto Some Some lost_delta (deltas_store_new sdk_key_store_new 5)"

lemma lost_delta_leaves_gap:
  "build_combined_delta_proto_payload byte_proto delta_rc 53 lost_delta_store = Combined 57 ''T9gxgyD.''
   \<and> \<not> (\<exists>d\<in>set (history ''key'' lost_delta_store). covers d 54)"
proof -
  have "parse_payload_to_protos byte_proto g u (rsp_body (delta_response a b ''?'')) = None" for g u a b
    by (simp add: parse_payload_to_protos_def delta_response_def decompress_def decode_envelopes_def decode_loop.simps
        byte_proto_def)
  then have "received byte_proto g u ''key'' lost_delta [] = [first_delta, second_delta\<lparr>de_since_time_requested := 55\<rparr>]" for g u
    by (simp add: lost_delta_def ends_history_def delta_of_def delta_rc_path two_parsed)
      (simp add: delta_response_def byte_proto_def)
  then have h: "history ''key'' lost_delta_store = [first_delta, second_delta\<lparr>de_since_time_requested := 55\<rparr>]"
    unfolding lost_delta_store_def run_from_new by (simp add: newest_def)
  have "has_key (to_delta_request_context delta_rc) (ds_sdk_key_store lost_delta_store)"
    unfolding lost_delta_store_def deltas_run_def lost_delta_def
    by (simp, rule update_registers) (simp_all add: delta_rc_path delta_rc_mapped, simp add: delta_response_def)
  then have "build_combined_delta_proto_payload byte_proto delta_rc 53 lost_delta_store = Combined 57 ''T9gxgyD.''"
    by (simp add: build_combined_delta_proto_payload_def cached_history delta_rc_path h Let_def
        assemble_envelopes_in_delta_order_def byte_proto_def is_meta_envelope_def)
  then show ?thesis by (simp add: h covers_def Let_def)
qed

end
