(* ===== verification/EventLog.thy ===== *)
theory EventLog
  imports RequestContext
begin

text \<open>
  The forwarding of logged events: \<open>datastore/log_event_store.rs\<close> with the data of
  \<open>datatypes/log_event.rs\<close>. Exposures that were forwarded before are dropped; the store remembers the
  hashes of their keys. The theory shows that a batch is thinned out exactly to the first occurrences
  as long as the memory is large enough, and that an event is never dropped without one like it
  having been forwarded.

  JSON values, the hasher, the calendar and the HTTP client are arguments.
\<close>

section \<open>Events\<close>

record 'v json_api =
  ja_object :: "'v \<Rightarrow> (string \<times> 'v) list option"
  ja_display :: "'v \<Rightarrow> string"
  ja_to_string :: "'v \<Rightarrow> string option"

record 'v User =
  us_user_id :: "string option"
  us_custom_ids :: "'v option"
  us_extra :: "string \<Rightarrow> 'v option"

datatype EventName = ConfigExposure | GateExposure | OtherEvent string

record 'v StatsigMetadata =
  sm_stable_id :: "string option"
  sm_extra :: "string \<Rightarrow> 'v option"

record 'v LogEvent =
  le_event_name :: EventName
  le_user :: "'v User option"
  le_time :: "u64 option"
  le_metadata :: "(string \<Rightarrow> 'v option) option"
  le_statsig_metadata :: "'v StatsigMetadata option"
  le_extra :: "string \<Rightarrow> 'v option"

datatype 'v PossiblyLogEvent = ValidLogEvent "'v LogEvent" | InvalidLogEvent "string \<Rightarrow> 'v option"

record 'v LogEventRequest =
  lr_events :: "'v PossiblyLogEvent list"
  lr_statsig_metadata :: "'v StatsigMetadata option"
  lr_extra :: "string \<Rightarrow> 'v option"

record LogEventDedupStats =
  batch_in_size :: nat
  batch_out_size :: nat
  deduped_count :: nat

record RepackagedLogEventRequest =
  rq_body :: string
  rq_stats :: LogEventDedupStats

definition text_or_empty :: "string option \<Rightarrow> string" where
  "text_or_empty s = (case s of None \<Rightarrow> [] | Some x \<Rightarrow> x)"

definition get_metadata :: "'v json_api \<Rightarrow> 'v LogEvent \<Rightarrow> string \<Rightarrow> string" where
  "get_metadata ja ev key =
     text_or_empty (Option.bind (Option.bind (le_metadata ev) (\<lambda>m. m key)) (ja_to_string ja))"

section \<open>The key of an exposure\<close>

text \<open>
  A time is a number of milliseconds since the epoch. \<open>valid\<close> says which ones the calendar can
  represent, \<open>now\<close> is the current time.
\<close>

definition round_to_minute :: "int \<Rightarrow> int option" where
  "round_to_minute t =
     (let whole_minute = t - 1000 * ((t div 1000) mod 60) in Some (whole_minute - whole_minute mod 1000))"

definition event_minute :: "(int \<Rightarrow> bool) \<Rightarrow> int \<Rightarrow> u64 option \<Rightarrow> u64 option" where
  "event_minute valid now t =
     (let parsed = Option.bind t (\<lambda>w.
            if unat w < 2 ^ 63 \<and> valid (int (unat w)) then Some (int (unat w)) else None);
          time = (case parsed of Some x \<Rightarrow> x | None \<Rightarrow> now);
          millis = Option.bind (round_to_minute time) (\<lambda>m. if 0 \<le> m then Some (word_of_int m) else None)
      in (case millis of Some m \<Rightarrow> Some m | None \<Rightarrow> t))"

definition stable_id_of :: "'v LogEvent \<Rightarrow> 'v StatsigMetadata option \<Rightarrow> string" where
  "stable_id_of ev global_metadata =
     text_or_empty
       (case Option.bind (le_statsig_metadata ev) sm_stable_id of
          Some s \<Rightarrow> Some s
        | None \<Rightarrow> Option.bind global_metadata sm_stable_id)"

definition custom_ids_text :: "'v json_api \<Rightarrow> 'v LogEvent \<Rightarrow> string" where
  "custom_ids_text ja ev =
     (case Option.bind (Option.bind (le_user ev) us_custom_ids) (ja_object ja) of
        None \<Rightarrow> []
      | Some ids \<Rightarrow> concat (map (\<lambda>(k, v). k @ '':'' @ ja_display ja v @ '';'') ids))"

definition exposure_text :: "'v json_api \<Rightarrow> 'v LogEvent \<Rightarrow> string option" where
  "exposure_text ja ev =
     (case le_event_name ev of
        ConfigExposure \<Rightarrow>
          Some (''n:$'' @ get_metadata ja ev ''config'' @ '';r:'' @ get_metadata ja ev ''ruleID'')
      | GateExposure \<Rightarrow>
          Some (''n:'' @ get_metadata ja ev ''gate'' @ '';r:'' @ get_metadata ja ev ''ruleID'' @ '';v:''
                  @ get_metadata ja ev ''gateValue'')
      | OtherEvent _ \<Rightarrow> None)"

definition compute_key ::
  "'v json_api \<Rightarrow> (int \<Rightarrow> bool) \<Rightarrow> int \<Rightarrow> string \<Rightarrow> 'v LogEvent \<Rightarrow> 'v StatsigMetadata option \<Rightarrow> string option" where
  "compute_key ja valid now sdk_key ev global_metadata =
     map_option (\<lambda>exposure.
         ''k:'' @ sdk_key @ '';u:'' @ text_or_empty (Option.bind (le_user ev) us_user_id)
         @ '';s:'' @ stable_id_of ev global_metadata @ '';'' @ custom_ids_text ja ev @ exposure
         @ (case event_minute valid now (le_time ev) of None \<Rightarrow> [] | Some m \<Rightarrow> '';t'' @ show_u64 m))
       (exposure_text ja ev)"

section \<open>The store\<close>

record LogEventStore =
  ls_url :: string
  ls_dedupe_cache :: "u64 set"
  ls_dedupe_cache_limit :: nat

definition log_event_store_new :: "string \<Rightarrow> nat \<Rightarrow> LogEventStore" where
  "log_event_store_new base_url limit =
     \<lparr>ls_url = base_url @ ''/v1/log_event'', ls_dedupe_cache = {}, ls_dedupe_cache_limit = limit\<rparr>"

text \<open>The memory is emptied when it is full; the answer says that the event is new.\<close>

definition check_key :: "(string \<Rightarrow> u64) \<Rightarrow> string \<Rightarrow> LogEventStore \<Rightarrow> bool \<times> LogEventStore" where
  "check_key hash event s =
     (let key = hash event;
          cache = (if ls_dedupe_cache_limit s \<le> card (ls_dedupe_cache s) then {} else ls_dedupe_cache s)
      in (key \<notin> cache, s\<lparr>ls_dedupe_cache := insert key cache\<rparr>))"

record 'v event_env =
  ev_json :: "'v json_api"
  ev_valid :: "int \<Rightarrow> bool"
  ev_now :: int
  ev_hash :: "string \<Rightarrow> u64"

definition event_key ::
  "'v event_env \<Rightarrow> string \<Rightarrow> 'v StatsigMetadata option \<Rightarrow> 'v LogEvent \<Rightarrow> string option" where
  "event_key ee sdk_key global_metadata e = compute_key (ev_json ee) (ev_valid ee) (ev_now ee) sdk_key e global_metadata"

definition process_event ::
  "'v event_env \<Rightarrow> string \<Rightarrow> 'v StatsigMetadata option \<Rightarrow> 'v PossiblyLogEvent \<Rightarrow> LogEventStore
     \<Rightarrow> bool \<times> LogEventStore" where
  "process_event ee sdk_key global_metadata event s =
     (case event of
        ValidLogEvent e \<Rightarrow>
          (case event_key ee sdk_key global_metadata e of
             Some k \<Rightarrow> check_key (ev_hash ee) k s
           | None \<Rightarrow> (True, s))
      | InvalidLogEvent _ \<Rightarrow> (False, s))"

fun retain :: "('a \<Rightarrow> 's \<Rightarrow> bool \<times> 's) \<Rightarrow> 'a list \<Rightarrow> 's \<Rightarrow> 'a list \<times> 's" where
  "retain f [] s = ([], s)"
| "retain f (x # xs) s =
     (case f x s of (keep, s1) \<Rightarrow> (case retain f xs s1 of (ys, s2) \<Rightarrow> (if keep then x # ys else ys, s2)))"

definition dedupe_events_for_sdk_key ::
  "'v event_env \<Rightarrow> string \<Rightarrow> 'v LogEventRequest \<Rightarrow> LogEventStore
     \<Rightarrow> LogEventDedupStats \<times> 'v LogEventRequest \<times> LogEventStore" where
  "dedupe_events_for_sdk_key ee sdk_key data s =
     (case retain (process_event ee sdk_key (lr_statsig_metadata data)) (lr_events data) s of
        (events, s') \<Rightarrow>
          (\<lparr>batch_in_size = length (lr_events data), batch_out_size = length events,
            deduped_count = length (lr_events data) - length events\<rparr>,
           data\<lparr>lr_events := events\<rparr>, s'))"

definition dedupe_and_serialize_for_sdk_key ::
  "'v event_env \<Rightarrow> ('v LogEventRequest \<Rightarrow> string option) \<Rightarrow> string \<Rightarrow> 'v LogEventRequest \<Rightarrow> LogEventStore
     \<Rightarrow> (nat + RepackagedLogEventRequest) \<times> LogEventStore" where
  "dedupe_and_serialize_for_sdk_key ee to_string sdk_key data s =
     (case dedupe_events_for_sdk_key ee sdk_key data s of
        (stats, data', s') \<Rightarrow>
          (case to_string data' of
             None \<Rightarrow> (Inl 500, s')
           | Some body \<Rightarrow> (Inr \<lparr>rq_body = body, rq_stats = stats\<rparr>, s')))"

text \<open>The request to the origin; its answer is the text or the status of the failure, if it has one.\<close>

record event_post =
  ep_url :: string
  ep_api_key :: string
  ep_event_count :: nat
  ep_body :: string

definition log_event ::
  "'v event_env \<Rightarrow> ('v LogEventRequest \<Rightarrow> string option) \<Rightarrow> (event_post \<Rightarrow> 'n \<Rightarrow> (nat option + string) \<times> 'n)
     \<Rightarrow> 'v LogEventRequest \<Rightarrow> AuthorizedRequestContext \<Rightarrow> LogEventStore \<times> 'n
     \<Rightarrow> (nat + string) \<times> LogEventStore \<times> 'n" where
  "log_event ee to_string post data rc w =
     (case w of (s, n) \<Rightarrow>
       (case dedupe_and_serialize_for_sdk_key ee to_string (rc_sdk_key rc) data s of
          (Inl st, s') \<Rightarrow> (Inl st, s', n)
        | (Inr repackaged, s') \<Rightarrow>
            (case post \<lparr>ep_url = ls_url s', ep_api_key = rc_sdk_key rc,
                        ep_event_count = batch_out_size (rq_stats repackaged), ep_body = rq_body repackaged\<rparr> n of
               (Inr reply, n') \<Rightarrow> (Inr reply, s', n')
             | (Inl st, n') \<Rightarrow> (Inl (case st of None \<Rightarrow> 500 | Some c \<Rightarrow> c), s', n'))))"


section \<open>The first occurrences\<close>

lemma retain_length: "length (fst (retain f xs w)) \<le> length xs"
proof (induction xs arbitrary: w)
  case (Cons a xs)
  obtain k s1 where "f a w = (k, s1)" by force
  then show ?case using Cons [of s1] by (cases "retain f xs s1") auto
qed simp

text \<open>The hash under which an event is remembered, if it is.\<close>

definition event_hash :: "'v event_env \<Rightarrow> string \<Rightarrow> 'v StatsigMetadata option \<Rightarrow> 'v LogEvent \<Rightarrow> u64 option" where
  "event_hash ee key gm e = map_option (ev_hash ee) (event_key ee key gm e)"

fun first_occurrences ::
  "('v LogEvent \<Rightarrow> u64 option) \<Rightarrow> u64 set \<Rightarrow> 'v PossiblyLogEvent list \<Rightarrow> 'v PossiblyLogEvent list" where
  "first_occurrences h seen [] = []"
| "first_occurrences h seen (InvalidLogEvent x # xs) = first_occurrences h seen xs"
| "first_occurrences h seen (ValidLogEvent e # xs) =
     (case h e of
        None \<Rightarrow> ValidLogEvent e # first_occurrences h seen xs
      | Some k \<Rightarrow>
          if k \<in> seen then first_occurrences h seen xs
          else ValidLogEvent e # first_occurrences h (insert k seen) xs)"

lemma retain_firsts:
  assumes "finite (ls_dedupe_cache s)" and "card (ls_dedupe_cache s) + length xs \<le> ls_dedupe_cache_limit s"
  shows "fst (retain (process_event ee key gm) xs s) = first_occurrences (event_hash ee key gm) (ls_dedupe_cache s) xs"
  using assms
proof (induction xs arbitrary: s)
  case (Cons x xs)
  show ?case
  proof (cases x)
    case (ValidLogEvent e)
    show ?thesis
    proof (cases "event_key ee key gm e")
      case None
      then have "process_event ee key gm x s = (True, s)" "event_hash ee key gm e = None"
        using ValidLogEvent by (simp_all add: process_event_def event_hash_def)
      then show ?thesis using Cons.IH [of s] Cons.prems ValidLogEvent by (auto split: prod.splits)
    next
      case (Some k)
      let ?h = "ev_hash ee k" and ?s = "s\<lparr>ls_dedupe_cache := insert (ev_hash ee k) (ls_dedupe_cache s)\<rparr>"
      have p: "process_event ee key gm x s = (?h \<notin> ls_dedupe_cache s, ?s)"
        using Cons.prems ValidLogEvent Some by (simp add: process_event_def check_key_def Let_def)
      have "card (insert ?h (ls_dedupe_cache s)) \<le> Suc (card (ls_dedupe_cache s))" by (rule card_insert_le_m1) simp_all
      then have "fst (retain (process_event ee key gm) xs ?s)
          = first_occurrences (event_hash ee key gm) (insert ?h (ls_dedupe_cache s)) xs"
        using Cons.IH [of ?s] Cons.prems by simp
      moreover have "event_hash ee key gm e = Some ?h" using Some by (simp add: event_hash_def)
      ultimately show ?thesis using p ValidLogEvent by (auto simp: insert_absorb split: prod.splits)
    qed
  next
    case (InvalidLogEvent m)
    then have "process_event ee key gm x s = (False, s)" by (simp add: process_event_def)
    then show ?thesis using Cons.IH [of s] Cons.prems InvalidLogEvent by (auto split: prod.splits)
  qed
qed simp

section \<open>Nothing is lost\<close>

definition remembered ::
  "'v event_env \<Rightarrow> string \<Rightarrow> 'v StatsigMetadata option \<Rightarrow> 'v PossiblyLogEvent list \<Rightarrow> u64 set" where
  "remembered ee key gm events = {h. \<exists>e. ValidLogEvent e \<in> set events \<and> event_hash ee key gm e = Some h}"

lemma remembered_Cons:
  "remembered ee key gm (x # xs) =
     remembered ee key gm xs \<union> {h. \<exists>e. x = ValidLogEvent e \<and> event_hash ee key gm e = Some h}"
  by (auto simp: remembered_def)

lemma retain_safe:
  assumes "retain (process_event ee key gm) xs s = (ys, s')"
  shows "ls_dedupe_cache s' \<subseteq> ls_dedupe_cache s \<union> remembered ee key gm ys \<and> set ys \<subseteq> set xs
    \<and> (\<forall>e. ValidLogEvent e \<in> set xs \<longrightarrow> ValidLogEvent e \<in> set ys
          \<or> (\<exists>h. event_hash ee key gm e = Some h \<and> h \<in> ls_dedupe_cache s \<union> remembered ee key gm ys))"
  using assms
proof (induction xs arbitrary: s ys)
  case (Cons x xs)
  obtain keep s1 where p: "process_event ee key gm x s = (keep, s1)" by force
  obtain zs s2 where r: "retain (process_event ee key gm) xs s1 = (zs, s2)" by force
  have ys: "ys = (if keep then x # zs else zs)" "s2 = s'" using Cons.prems p r by (auto split: if_splits)
  note ih = Cons.IH [OF r [unfolded ys(2)]]
  have step: "ls_dedupe_cache s1 \<subseteq> ls_dedupe_cache s \<union> (if keep then remembered ee key gm [x] else {})"
    and drop: "\<not> keep \<Longrightarrow> x = ValidLogEvent e \<Longrightarrow> \<exists>h. event_hash ee key gm e = Some h \<and> h \<in> ls_dedupe_cache s" for e
    using p by (auto simp: process_event_def check_key_def Let_def remembered_def event_hash_def
        split: PossiblyLogEvent.splits option.splits if_splits)
  show ?case
  proof (cases keep)
    case True
    then have "remembered ee key gm ys = remembered ee key gm zs \<union> remembered ee key gm [x]"
      by (auto simp: ys remembered_def)
    moreover have "ls_dedupe_cache s1 \<subseteq> ls_dedupe_cache s \<union> remembered ee key gm [x]" using step True by simp
    moreover have "ys = x # zs" using ys True by simp
    ultimately show ?thesis using ih by (simp only: list.set) blast
  next
    case False
    moreover from this have "ls_dedupe_cache s1 \<subseteq> ls_dedupe_cache s" "ys = zs" using step ys by simp_all
    ultimately show ?thesis using ih drop by (simp only: list.set) blast
  qed
qed simp

text \<open>Requests one after the other, each at its time; the result has the events that are forwarded.\<close>

fun dedupe_requests ::
  "'v event_env \<Rightarrow> (int \<times> string \<times> 'v LogEventRequest) list \<Rightarrow> LogEventStore
     \<Rightarrow> (int \<times> string \<times> 'v LogEventRequest) list" where
  "dedupe_requests ee [] s = []"
| "dedupe_requests ee ((now, key, data) # reqs) s =
     (case dedupe_events_for_sdk_key (ee\<lparr>ev_now := now\<rparr>) key data s of
        (_, data', s') \<Rightarrow> (now, key, data') # dedupe_requests ee reqs s')"

definition forwarded_hashes :: "'v event_env \<Rightarrow> (int \<times> string \<times> 'v LogEventRequest) list \<Rightarrow> u64 set" where
  "forwarded_hashes ee reqs =
     (\<Union>(now, key, data)\<in>set reqs. remembered (ee\<lparr>ev_now := now\<rparr>) key (lr_statsig_metadata data) (lr_events data))"

definition forwarded_or_known ::
  "'v event_env \<Rightarrow> u64 set \<Rightarrow> int \<times> string \<times> 'v LogEventRequest \<Rightarrow> int \<times> string \<times> 'v LogEventRequest \<Rightarrow> bool" where
  "forwarded_or_known ee known request_in request_out \<longleftrightarrow>
     (case (request_in, request_out) of ((now, key, data), (now', key', data')) \<Rightarrow>
        now' = now \<and> key' = key \<and> data' = data\<lparr>lr_events := lr_events data'\<rparr>
        \<and> set (lr_events data') \<subseteq> set (lr_events data)
        \<and> (\<forall>e. ValidLogEvent e \<in> set (lr_events data) - set (lr_events data') \<longrightarrow>
              (\<exists>h\<in>known. event_hash (ee\<lparr>ev_now := now\<rparr>) key (lr_statsig_metadata data) e = Some h)))"

lemma dedupe_requests_safe:
  assumes "ls_dedupe_cache s \<subseteq> known" and "forwarded_hashes ee (dedupe_requests ee reqs s) \<subseteq> known"
  shows "list_all2 (forwarded_or_known ee known) reqs (dedupe_requests ee reqs s)"
  using assms
proof (induction reqs arbitrary: s)
  case (Cons r reqs)
  obtain now key data where r: "r = (now, key, data)" by (cases r)
  let ?ee = "ee\<lparr>ev_now := now\<rparr>" and ?gm = "lr_statsig_metadata data"
  obtain ys s' where y: "retain (process_event ?ee key ?gm) (lr_events data) s = (ys, s')" by force
  have out: "dedupe_requests ee (r # reqs) s = (now, key, data\<lparr>lr_events := ys\<rparr>) # dedupe_requests ee reqs s'"
    by (simp add: r dedupe_events_for_sdk_key_def y)
  have known: "remembered ?ee key ?gm ys \<subseteq> known" "forwarded_hashes ee (dedupe_requests ee reqs s') \<subseteq> known"
    using Cons.prems(2) unfolding out by (auto simp: forwarded_hashes_def)
  note safe = retain_safe [OF y]
  have "list_all2 (forwarded_or_known ee known) reqs (dedupe_requests ee reqs s')"
    using safe Cons.prems(1) known by (intro Cons.IH) auto
  moreover have "forwarded_or_known ee known r (now, key, data\<lparr>lr_events := ys\<rparr>)"
    using safe Cons.prems(1) known(1) by (fastforce simp: forwarded_or_known_def r)
  ultimately show ?case by (simp add: out)
qed simp


text \<open>
  While the memory of the store has room for the events of a batch, the batch that is forwarded has,
  in their order, exactly the events without a key and, of the exposures, the first ones with a key
  that was not seen before; the counts that are reported say how many came, are left and were dropped.
\<close>

theorem dedupe_exact:
  assumes "finite (ls_dedupe_cache s)"
    and "card (ls_dedupe_cache s) + length (lr_events data) \<le> ls_dedupe_cache_limit s"
    and "dedupe_events_for_sdk_key ee key data s = (stats, data', s')"
  shows "data' = data\<lparr>lr_events :=
        first_occurrences (event_hash ee key (lr_statsig_metadata data)) (ls_dedupe_cache s) (lr_events data)\<rparr>
    \<and> batch_out_size stats = length (lr_events data')
    \<and> batch_in_size stats = batch_out_size stats + deduped_count stats"
proof -
  obtain ys s2 where y: "retain (process_event ee key (lr_statsig_metadata data)) (lr_events data) s = (ys, s2)" by force
  then have "length ys \<le> length (lr_events data)"
    using retain_length [of "process_event ee key (lr_statsig_metadata data)" "lr_events data" s] by simp
  then show ?thesis
    using assms(3) y retain_firsts [OF assms(1,2), of ee key "lr_statsig_metadata data"]
    by (auto simp: dedupe_events_for_sdk_key_def)
qed


text \<open>
  The parts of a key are joined without quoting: exposures of two users can have the same key, and the
  second is then dropped.
\<close>

definition gate_event :: "string \<Rightarrow> string \<Rightarrow> 'v LogEvent" where
  "gate_event user stable_id =
     \<lparr>le_event_name = GateExposure, le_user = Some \<lparr>us_user_id = Some user, us_custom_ids = None, us_extra = (\<lambda>_. None)\<rparr>,
      le_time = Some 0, le_metadata = None,
      le_statsig_metadata = Some \<lparr>sm_stable_id = Some stable_id, sm_extra = (\<lambda>_. None)\<rparr>, le_extra = (\<lambda>_. None)\<rparr>"

lemma exposure_keys_collide:
  "compute_key ja valid now key (gate_event ''a;s:b'' ''c'') None = compute_key ja valid now key (gate_event ''a'' ''b;s:c'') None"
  by (simp add: compute_key_def gate_event_def exposure_text_def text_or_empty_def stable_id_of_def custom_ids_text_def
      get_metadata_def)

subsection \<open>A batch\<close>

definition plain_events :: "string event_env" where
  "plain_events =
     \<lparr>ev_json = \<lparr>ja_object = (\<lambda>_. None), ja_display = id, ja_to_string = Some\<rparr>, ev_valid = (\<lambda>_. True), ev_now = 0,
      ev_hash = (\<lambda>s. of_nat (length s))\<rparr>"

definition small_batch :: "string LogEventRequest" where
  "small_batch =
     \<lparr>lr_events = [ValidLogEvent (gate_event ''a'' ''b''), ValidLogEvent (gate_event ''a'' ''b'')],
      lr_statsig_metadata = None, lr_extra = (\<lambda>_. None)\<rparr>"

theorem dedupe_exact_witness:
  "lr_events (fst (snd (dedupe_events_for_sdk_key plain_events ''k'' small_batch (log_event_store_new [] 5))))
     = [ValidLogEvent (gate_event ''a'' ''b'')]"
proof -
  let ?s = "log_event_store_new [] 5"
  obtain stats data' s' where d: "dedupe_events_for_sdk_key plain_events ''k'' small_batch ?s = (stats, data', s')"
    by (cases "dedupe_events_for_sdk_key plain_events ''k'' small_batch ?s") auto
  have "finite (ls_dedupe_cache ?s)" "card (ls_dedupe_cache ?s) + length (lr_events small_batch) \<le> ls_dedupe_cache_limit ?s"
    by (simp_all add: log_event_store_new_def small_batch_def)
  note r = dedupe_exact [OF this d]
  have "event_hash plain_events ''k'' None (gate_event ''a'' ''b'') \<noteq> None"
    by (simp add: event_hash_def event_key_def compute_key_def gate_event_def exposure_text_def)
  then show ?thesis unfolding d by (auto simp: r small_batch_def log_event_store_new_def)
qed

end
