(* ===== verification/HttpHandlers.thy ===== *)
theory HttpHandlers
  imports DeltasStore EventLog
begin

text \<open>
  The HTTP handlers: \<open>servers/http_server.rs\<close>. A handler turns a request into a payload, a responder
  turns the payload into status, headers and body. The web framework, which routes requests and
  reads queries, is not modelled; the handlers are functions of what it hands them.
\<close>

section \<open>Payloads and responses\<close>

datatype RequestPayloads =
    Gzipped string u64 bool
  | BrotliPayload string u64 bool
  | Proto string u64 CompressionEncoder bool
  | Plain string u64 bool
  | Text string nat "string option"
  | RangeNotSatisfiable nat
  | ErrorPayload nat string
  | UnauthorizedPayload

record http_reply =
  hr_status :: nat
  hr_headers :: "(string \<times> string) list"
  hr_body :: string

definition header_of :: "http_reply \<Rightarrow> string \<Rightarrow> string option" where
  "header_of r n = map_of (hr_headers r) n"

definition DCS_NO_UPDATE_JSON :: string where
  "DCS_NO_UPDATE_JSON = [CHR ''{'', CHR 0x22] @ ''has_updates'' @ [CHR 0x22] @ '':false}''"

definition delta_used_header :: "bool \<Rightarrow> (string \<times> string) list" where
  "delta_used_header delta_used = (if delta_used then [(''x-deltas-used'', ''true'')] else [])"

definition json_type :: "string \<times> string" where
  "json_type = (''Content-Type'', ''application/json'')"

definition bytes_type :: "string \<times> string" where
  "bytes_type = (''Content-Type'', ''application/octet-stream'')"

definition text_type :: "string \<times> string" where
  "text_type = (''Content-Type'', ''text/plain; charset=utf-8'')"

definition respond_to :: "RequestPayloads \<Rightarrow> http_reply" where
  "respond_to p =
     (case p of
        Gzipped data lcut delta_used \<Rightarrow>
          \<lparr>hr_status = 200,
           hr_headers = [json_type, (''Content-Encoding'', ''gzip''), (''x-since-time'', show_u64 lcut)]
             @ delta_used_header delta_used,
           hr_body = data\<rparr>
      | BrotliPayload data lcut delta_used \<Rightarrow>
          \<lparr>hr_status = 200,
           hr_headers = [json_type, (''Content-Encoding'', ''br''), (''x-since-time'', show_u64 lcut)]
             @ delta_used_header delta_used,
           hr_body = data\<rparr>
      | Proto data lcut encoding delta_used \<Rightarrow>
          \<lparr>hr_status = 200,
           hr_headers = [bytes_type]
             @ (case content_encoding_header_value encoding of None \<Rightarrow> [] | Some e \<Rightarrow> [(''Content-Encoding'', e)])
             @ delta_used_header delta_used @ [(''x-since-time'', show_u64 lcut)],
           hr_body = data\<rparr>
      | Text data code content_range \<Rightarrow>
          \<lparr>hr_status = code,
           hr_headers = [bytes_type, (''Accept-Ranges'', ''bytes'')]
             @ (case content_range of None \<Rightarrow> [] | Some r \<Rightarrow> [(''Content-Range'', r)]),
           hr_body = data\<rparr>
      | RangeNotSatisfiable complete_length \<Rightarrow>
          \<lparr>hr_status = 416,
           hr_headers = [bytes_type, (''Accept-Ranges'', ''bytes''), (''Content-Range'', ''bytes */'' @ show_nat complete_length)],
           hr_body = []\<rparr>
      | Plain data lcut delta_used \<Rightarrow>
          \<lparr>hr_status = 200,
           hr_headers = [json_type, (''x-since-time'', show_u64 lcut)] @ delta_used_header delta_used
             @ (if data = DCS_NO_UPDATE_JSON then [(''x-cache-hit'', ''true'')] else []),
           hr_body = data\<rparr>
      | UnauthorizedPayload \<Rightarrow> \<lparr>hr_status = 401, hr_headers = [text_type], hr_body = ''Unauthorized''\<rparr>
      | ErrorPayload code body \<Rightarrow> \<lparr>hr_status = code, hr_headers = [text_type], hr_body = body\<rparr>)"

definition to_request_payload_with_delta_used :: "ResponsePayload \<Rightarrow> u64 \<Rightarrow> bool \<Rightarrow> RequestPayloads" where
  "to_request_payload_with_delta_used payload lcut delta_used =
     (if rp_use_proto payload then Proto (rp_data payload) lcut (rp_encoding payload) delta_used
      else if rp_encoding payload = Gzip then Gzipped (rp_data payload) lcut delta_used
      else if rp_encoding payload = Brotli then BrotliPayload (rp_data payload) lcut delta_used
      else Plain (rp_data payload) lcut delta_used)"

definition to_request_payload :: "ResponsePayload \<Rightarrow> u64 \<Rightarrow> RequestPayloads" where
  "to_request_payload payload lcut = to_request_payload_with_delta_used payload lcut False"

definition build_download_id_list_file_payload :: "AuthorizedRequestContext \<Rightarrow> string \<Rightarrow> RequestPayloads" where
  "build_download_id_list_file_payload rc data =
     (let complete_length = length data
      in case rc_range_start rc of
           None \<Rightarrow> Text data 200 None
         | Some range_start \<Rightarrow>
             let start = unat range_start
             in if complete_length \<le> start then RangeNotSatisfiable complete_length
                else Text (drop start data) 206
                       (Some (''bytes '' @ show_nat start @ ''-'' @ show_nat (complete_length - 1) @ ''/''
                                @ show_nat complete_length)))"

section \<open>Delta payloads\<close>

datatype DeltaPayloadError =
    DeltasDisabled | UnsupportedPath | SupportsProtoRequired | MissingSinceTime | ZeroSinceTime
  | SdkKeyNotRegistered_error | NoCachedDeltas_error | SinceTimeTooOld_error u64 u64 | SerializationFailed_error

fun http_status :: "DeltaPayloadError \<Rightarrow> nat" where
  "http_status DeltasDisabled = 503"
| "http_status UnsupportedPath = 500"
| "http_status SupportsProtoRequired = 400"
| "http_status MissingSinceTime = 400"
| "http_status ZeroSinceTime = 400"
| "http_status SdkKeyNotRegistered_error = 409"
| "http_status NoCachedDeltas_error = 409"
| "http_status (SinceTimeTooOld_error _ _) = 409"
| "http_status SerializationFailed_error = 500"

fun delta_error_body :: "DeltaPayloadError \<Rightarrow> string" where
  "delta_error_body DeltasDisabled = ''Delta serving disabled''"
| "delta_error_body UnsupportedPath = ''Delta payload requested for unsupported path''"
| "delta_error_body SupportsProtoRequired = ''supports_proto=true is required''"
| "delta_error_body MissingSinceTime = ''Missing sinceTime parameter''"
| "delta_error_body ZeroSinceTime = ''sinceTime must be greater than 0 for download_config_specs_deltas''"
| "delta_error_body SdkKeyNotRegistered_error = ''SDK key not registered for delta tracking''"
| "delta_error_body NoCachedDeltas_error = ''No cached deltas available yet''"
| "delta_error_body (SinceTimeTooOld_error _ _) = ''sinceTime is older than the retained delta history''"
| "delta_error_body SerializationFailed_error = ''Failed to serialize delta payload''"

definition validate_direct_delta_request ::
  "AuthorizedRequestContext \<Rightarrow> u64 option \<Rightarrow> DeltaPayloadError + u64" where
  "validate_direct_delta_request rc since_time =
     (if \<not> rc_supports_proto rc then Inl SupportsProtoRequired
      else (case since_time of
              Some t \<Rightarrow> if t = 0 then Inl ZeroSinceTime else Inr t
            | None \<Rightarrow> Inl MissingSinceTime))"

text \<open>What the delta handlers use: the switch, the codec of messages and the compressors.\<close>

record ('e, 't) delta_env =
  dv_enabled :: bool
  dv_proto :: "('e, 't) proto_api"
  dv_gzip :: "string \<Rightarrow> string option"
  dv_brotli :: "string \<Rightarrow> string option"

definition try_build_delta_payload ::
  "('e, 't) delta_env \<Rightarrow> ('e, 't) DeltasStore \<Rightarrow> AuthorizedRequestContext \<Rightarrow> u64 \<Rightarrow> ResponsePayload
     \<Rightarrow> DeltaPayloadError + RequestPayloads" where
  "try_build_delta_payload dv deltas rc since_time no_update_payload =
     (if \<not> dv_enabled dv then Inl DeltasDisabled
      else if rc_path rc \<noteq> V2DownloadConfigSpecs \<and> rc_path rc \<noteq> V2DownloadConfigSpecsDeltas then Inl UnsupportedPath
      else if \<not> rc_supports_proto rc then Inl SupportsProtoRequired
      else (case build_combined_delta_proto_payload (dv_proto dv) rc since_time deltas of
              SdkKeyNotRegistered \<Rightarrow> Inl SdkKeyNotRegistered_error
            | NoCachedDeltas \<Rightarrow> Inl NoCachedDeltas_error
            | SinceTimeTooOld earliest_since_time \<Rightarrow> Inl (SinceTimeTooOld_error since_time earliest_since_time)
            | NoUpdates lcut \<Rightarrow> Inr (to_request_payload_with_delta_used no_update_payload lcut True)
            | SerializationFailed \<Rightarrow> Inl SerializationFailed_error
            | Combined lcut payload \<Rightarrow>
                let compression = preferred_response_compression (rc_encodings rc)
                in (case compress_response_payload (dv_gzip dv) (dv_brotli dv) payload compression of
                      Some compressed \<Rightarrow> Inr (Proto compressed lcut compression True)
                    | None \<Rightarrow> Inr (to_request_payload_with_delta_used no_update_payload lcut True))))"

section \<open>Handlers\<close>

text \<open>
  The direct request for deltas: the reply, the store after the registration of the key, and the
  time for which a task fetches the JSON spec on the side.
\<close>

definition get_download_config_specs_deltas ::
  "('e, 't) delta_env \<Rightarrow> ('e, 't) DeltasStore option \<Rightarrow> u64 option \<Rightarrow> AuthorizedRequestContext
     \<Rightarrow> RequestPayloads \<times> ('e, 't) DeltasStore option \<times> u64 option" where
  "get_download_config_specs_deltas dv deltas since rc =
     (case validate_direct_delta_request rc since of
        Inl e \<Rightarrow> (ErrorPayload (http_status e) (delta_error_body e), deltas, None)
      | Inr since_time \<Rightarrow>
          (case deltas of
             Some s \<Rightarrow>
               let s' = register_sdk_key rc since_time s
               in (case try_build_delta_payload dv s' rc since_time no_update_config of
                     Inr p \<Rightarrow> p
                   | Inl e \<Rightarrow> ErrorPayload (http_status e) (delta_error_body e), Some s', Some since_time)
           | None \<Rightarrow> (ErrorPayload 503 ''Deltas store unavailable'', None, Some since_time)))"

definition spec_payload :: "ConfigSpecForCompany option \<Rightarrow> RequestPayloads" where
  "spec_payload r = (case r of Some data \<Rightarrow> to_request_payload (cs_config data) (cs_lcut data) | None \<Rightarrow> UnauthorizedPayload)"

definition delta_answer ::
  "('e, 't) delta_env \<Rightarrow> ('e, 't) DeltasStore option \<Rightarrow> bool option \<Rightarrow> AuthorizedRequestContext \<Rightarrow> u64
     \<Rightarrow> RequestPayloads option" where
  "delta_answer dv deltas accept_deltas rc since_time =
     (if accept_deltas = Some True
      then (case deltas of
              None \<Rightarrow> None
            | Some s \<Rightarrow>
                (case try_build_delta_payload dv s rc since_time no_update_config of Inr p \<Rightarrow> Some p | Inl _ \<Rightarrow> None))
      else None)"

definition get_download_config_specs ::
  "('e, 't) delta_env \<Rightarrow> ('e, 't) DeltasStore option \<Rightarrow> ((config_spec_store, 'x) runtime, 'n) fetch_env
     \<Rightarrow> bool \<Rightarrow> bool \<Rightarrow> nat \<Rightarrow> nat \<Rightarrow> u64 option \<Rightarrow> bool option \<Rightarrow> AuthorizedRequestContext
     \<Rightarrow> fetch_locks \<times> ((config_spec_store, 'x) runtime, 'n) fetch_state
     \<Rightarrow> RequestPayloads \<times> fetch_locks \<times> ((config_spec_store, 'x) runtime, 'n) fetch_state" where
  "get_download_config_specs dv deltas env ok timed_out now later since accept_deltas rc ls =
     (let since_time = (case since of None \<Rightarrow> 0 | Some t \<Rightarrow> t)
      in case delta_answer dv deltas accept_deltas rc since_time of
           Some p \<Rightarrow> (p, ls)
         | None \<Rightarrow>
             (case get_config_spec env ok timed_out now later rc since_time ls of
                (r, ls') \<Rightarrow> (spec_payload r, ls')))"

definition post_download_config_specs ::
  "((config_spec_store, 'x) runtime, 'n) fetch_env \<Rightarrow> bool \<Rightarrow> bool \<Rightarrow> nat \<Rightarrow> nat \<Rightarrow> u64 option
     \<Rightarrow> AuthorizedRequestContext \<Rightarrow> fetch_locks \<times> ((config_spec_store, 'x) runtime, 'n) fetch_state
     \<Rightarrow> RequestPayloads \<times> fetch_locks \<times> ((config_spec_store, 'x) runtime, 'n) fetch_state" where
  "post_download_config_specs env ok timed_out now later since rc ls =
     (case get_config_spec env ok timed_out now later rc (case since of None \<Rightarrow> 0 | Some t \<Rightarrow> t) ls of
        (r, ls') \<Rightarrow> (spec_payload r, ls'))"

definition post_get_id_lists ::
  "((id_list_store, 'x) runtime, 'n) fetch_env \<Rightarrow> bool \<Rightarrow> bool \<Rightarrow> nat \<Rightarrow> nat \<Rightarrow> AuthorizedRequestContext
     \<Rightarrow> fetch_locks \<times> ((id_list_store, 'x) runtime, 'n) fetch_state
     \<Rightarrow> RequestPayloads \<times> fetch_locks \<times> ((id_list_store, 'x) runtime, 'n) fetch_state" where
  "post_get_id_lists env ok timed_out now later rc ls =
     (case get_id_lists env ok timed_out now later rc ls of
        (Some idlists, ls') \<Rightarrow> (to_request_payload idlists 0, ls')
      | (None, ls') \<Rightarrow> (UnauthorizedPayload, ls'))"

definition get_download_id_list_file ::
  "(id_list_file_store, 'n) fetch_env \<Rightarrow> bool \<Rightarrow> bool \<Rightarrow> nat \<Rightarrow> nat \<Rightarrow> DownloadIdListFileRequestGuard
     \<Rightarrow> fetch_locks \<times> (id_list_file_store, 'n) fetch_state
     \<Rightarrow> RequestPayloads \<times> fetch_locks \<times> (id_list_file_store, 'n) fetch_state" where
  "get_download_id_list_file env ok timed_out now later guard ls =
     (case guard of
        Invalid e \<Rightarrow> (ErrorPayload 400 (error_body e), ls)
      | Authorized rc \<Rightarrow>
          (case get_or_fetch env ok timed_out now later rc ls of
             (Some data, ls') \<Rightarrow> (build_download_id_list_file_payload rc data, ls')
           | (None, ls') \<Rightarrow> (UnauthorizedPayload, ls')))"


text \<open>
  Events are accepted at once; a task forwards them later, and its outcome is not reported. The result
  has the reply and the state after that task.
\<close>

record LogEventResponse =
  lg_success :: bool
  lg_message :: "string option"

definition post_log_event ::
  "'v event_env \<Rightarrow> ('v LogEventRequest \<Rightarrow> string option) \<Rightarrow> (event_post \<Rightarrow> 'n \<Rightarrow> (nat option + string) \<times> 'n)
     \<Rightarrow> 'v LogEventRequest \<Rightarrow> AuthorizedRequestContext \<Rightarrow> LogEventStore \<times> 'n
     \<Rightarrow> (nat \<times> LogEventResponse) \<times> LogEventStore \<times> 'n" where
  "post_log_event ee to_string post data rc w =
     ((202, \<lparr>lg_success = True, lg_message = None\<rparr>), snd (log_event ee to_string post data rc w))"

record DefaultResponse =
  dr_code :: nat
  dr_reason :: string

definition default_catcher :: "(nat \<Rightarrow> string option) \<Rightarrow> nat \<Rightarrow> DefaultResponse" where
  "default_catcher reason code =
     \<lparr>dr_code = code, dr_reason = (case reason code of Some r \<Rightarrow> r | None \<Rightarrow> ''No Reason Provided.'')\<rparr>"

section \<open>Ranges of id-list files\<close>

text \<open>
  A reply for a file of an id list: without a range the whole file; with a range that starts in
  the file the rest from there, which completes what the client has, under a \<open>Content-Range\<close> that names
  its first and last byte and the size of the file; with a range that starts behind the file no
  bytes and the size.
\<close>

theorem id_list_range_exact:
  "let r = respond_to (build_download_id_list_file_payload rc data) in
   case rc_range_start rc of
     None \<Rightarrow> hr_status r = 200 \<and> hr_body r = data \<and> header_of r ''Content-Range'' = None
   | Some start \<Rightarrow>
       if unat start < length data
       then hr_status r = 206 \<and> take (unat start) data @ hr_body r = data
         \<and> header_of r ''Content-Range''
             = Some (''bytes '' @ show_u64 start @ ''-'' @ show_nat (unat start + length (hr_body r) - 1) @ ''/''
                      @ show_nat (length data))
       else hr_status r = 416 \<and> hr_body r = []
         \<and> header_of r ''Content-Range'' = Some (''bytes */'' @ show_nat (length data))"
  by (auto simp: build_download_id_list_file_payload_def respond_to_def header_of_def bytes_type_def show_u64_def Let_def
      split: option.splits)

section \<open>Delta replies\<close>

lemma register_history [simp]: "history key (register_sdk_key rc since s) = history key s"
  by (simp add: history_def register_sdk_key_def)

lemma proto_headers:
  "header_of (respond_to (Proto body lcut e True)) ''Content-Encoding'' = content_encoding_header_value e"
  "header_of (respond_to (Proto body lcut e True)) ''x-since-time'' = Some (show_u64 lcut)"
  "hr_body (respond_to (Proto body lcut e True)) = body"
  by (auto simp: respond_to_def header_of_def bytes_type_def delta_used_header_def split: option.splits)

lemma no_update_headers:
  fixes lcut
  defines "r \<equiv> respond_to (to_request_payload_with_delta_used no_update_config lcut True)"
  shows "header_of r ''Content-Encoding'' = None" "header_of r ''x-since-time'' = Some (show_u64 lcut)"
    "hr_body r = DCS_NO_UPDATE_JSON"
  by (simp_all add: r_def to_request_payload_with_delta_used_def no_update_config_def respond_to_def header_of_def
      json_type_def delta_used_header_def DCS_NO_UPDATE_JSON_def)


text \<open>What a client has after a reply with deltas for the time \<open>since\<close>: \<open>ds\<close> is the history.\<close>

definition complete_reply ::
  "('e, 't) proto_api \<Rightarrow> decoder \<Rightarrow> decoder \<Rightarrow> ('e, 't) DeltaCacheEntry list \<Rightarrow> u64 \<Rightarrow> http_reply \<Rightarrow> bool" where
  "complete_reply pa gunzip unbrotli ds since r \<longleftrightarrow>
     (\<exists>lcut. header_of r ''x-since-time'' = Some (show_u64 lcut)
        \<and> (hr_body r = DCS_NO_UPDATE_JSON \<and> header_of r ''Content-Encoding'' = None
             \<and> lcut \<le> since \<and> (\<forall>d\<in>set ds. de_lcut d \<le> lcut)
           \<or> (\<exists>payload sel.
                client_decode gunzip unbrotli (header_of r ''Content-Encoding'') (hr_body r) = Some payload
                \<and> decode_envelopes pa payload = Inr (combined_envelopes pa sel)
                \<and> sel = filter (\<lambda>d. since \<le> de_lcut d) ds \<and> lcut = de_lcut (last sel)
                \<and> (\<forall>t. since < t \<and> t \<le> lcut \<longrightarrow> (\<exists>d\<in>set sel. covers d t)))))"

lemma delta_payload_reply:
  assumes "proto_ok (dv_proto dv)" and gzip: "\<forall>p. \<exists>c. dv_gzip dv p = Some c \<and> gunzip c = Some p"
    and brotli: "\<forall>p. \<exists>c. dv_brotli dv p = Some c \<and> unbrotli c = Some p"
    and g: "gapless (history (rc_sdk_key rc) s)" "sorted (map de_lcut (history (rc_sdk_key rc) s))"
    and "try_build_delta_payload dv s rc since no_update_config = Inr p"
  shows "complete_reply (dv_proto dv) gunzip unbrotli (history (rc_sdk_key rc) s) since (respond_to p)"
proof (cases "build_combined_delta_proto_payload (dv_proto dv) rc since s")
  case (NoUpdates lcut)
  then have "p = to_request_payload_with_delta_used no_update_config lcut True"
    using assms(6) by (auto simp: try_build_delta_payload_def split: if_splits)
  then show ?thesis unfolding complete_reply_def
    using no_update_headers [of lcut] no_updates_reached [OF g(2) NoUpdates] by blast
next
  case (Combined lcut payload)
  let ?e = "preferred_response_compression (rc_encodings rc)"
  obtain c where c: "compress_response_payload (dv_gzip dv) (dv_brotli dv) payload ?e = Some c"
    "client_decode gunzip unbrotli (content_encoding_header_value ?e) c = Some payload"
    using response_compression_sound [OF gzip brotli, of "rc_encodings rc" payload] by blast
  then have "p = Proto c lcut ?e True"
    using assms(6) Combined by (auto simp: try_build_delta_payload_def Let_def split: if_splits)
  then show ?thesis unfolding complete_reply_def
    using proto_headers [of c lcut ?e] c(2) combined_covers [OF assms(1) g Combined] by (metis (no_types, lifting))
qed (use assms(6) in \<open>auto simp: try_build_delta_payload_def split: if_splits\<close>)



definition plain_delta_env :: "(char \<times> char, u64) delta_env" where
  "plain_delta_env = \<lparr>dv_enabled = True, dv_proto = byte_proto, dv_gzip = Some, dv_brotli = Some\<rparr>"

lemma sample_delta_reply:
  "get_download_config_specs_deltas plain_delta_env (Some two_deltas_store) (Some 2) delta_rc
     = (Proto ''T9gxgyD.'' 57 PlainText True, Some (register_sdk_key delta_rc 2 two_deltas_store), Some 2)"
proof -
  let ?s = "register_sdk_key delta_rc 2 two_deltas_store"
  have b: "build_combined_delta_proto_payload byte_proto delta_rc 2 ?s = Combined 57 ''T9gxgyD.''"
    using upsert_known [of "to_delta_request_context delta_rc"]
    by (simp add: build_combined_delta_proto_payload_def cached_history delta_rc_path two_history Let_def
        assemble_envelopes_in_delta_order_def byte_proto_def is_meta_envelope_def)
      (simp add: register_sdk_key_def)
  have rc: "rc_supports_proto delta_rc" "preferred_response_compression (rc_encodings delta_rc) = PlainText"
    by (simp_all add: delta_rc_def with_request_capabilities_def rc_new_def canonicalize_encodings_def
        preferred_response_compression_def)
  show ?thesis
    by (simp add: get_download_config_specs_deltas_def validate_direct_delta_request_def try_build_delta_payload_def
        delta_rc_path rc plain_delta_env_def b compress_response_payload_def Let_def)
qed


end
