(* ===== verification/BackupCache.thy ===== *)
theory BackupCache
  imports LocalRedis IdListSchema LineDecoder Serving
begin

text \<open>
  The backup of config specs in Redis: \<open>datastore/caching/redis_cache.rs\<close>, and the cache that does
  nothing, \<open>disabled_cache.rs\<close>. Every replica writes what it gets from the origin, when it is the
  leader, and reads the backup when the origin fails. The theory shows that a read gives a spec that
  was written as a whole, with its own time stamp, whatever the replicas do at the same time.

  SHA-256 with base64, gzip and brotli are arguments; metrics are left out, but the event that a refresh
  reports is its result.
\<close>

section \<open>State\<close>

record ActiveCacheKeys =
  ak_keys :: "string list"
  ak_lcut :: u64

record 'w RedisCache =
  rx_connection :: "'w redis option"
  rx_uuid :: string
  rx_leader_key_ttl :: int
  rx_check_lcut :: bool
  rx_redis_cache_ttl_in_s :: int
  rx_double_write_cache_for_legacy_key :: bool
  rx_key_prefix :: string
  rx_sha256_base64 :: "string \<Rightarrow> string"
  rx_gunzip :: decoder
  rx_unbrotli :: decoder
  rx_gzip :: "string \<Rightarrow> string option"

text \<open>What a replica remembers: hashes of SDK keys, and the keys last written for a context.\<close>

record cache_memory =
  cm_hashes :: "string \<Rightarrow> string option"
  cm_active :: "ActiveCacheKeys ctx_map"

datatype refresh_event = RedisCacheTtlRefreshed | RedisCacheTtlRefreshMissed | RedisCacheTtlRefreshFailed

section \<open>Keys\<close>

definition REDIS_LEADER_KEY :: string where
  "REDIS_LEADER_KEY = ''statsig_forward_proxy::leader''"

definition prefixed_key :: "'w RedisCache \<Rightarrow> string \<Rightarrow> string" where
  "prefixed_key rx key = apply_key_prefix (rx_key_prefix rx) key"

definition leader_key :: "'w RedisCache \<Rightarrow> string" where
  "leader_key rx = prefixed_key rx REDIS_LEADER_KEY"

definition hash_key :: "'w RedisCache \<Rightarrow> string \<Rightarrow> cache_memory \<Rightarrow> string \<times> cache_memory" where
  "hash_key rx key mem =
     (case cm_hashes mem key of
        Some h \<Rightarrow> (h, mem)
      | None \<Rightarrow>
          let h = rx_sha256_base64 rx key in (h, mem\<lparr>cm_hashes := (cm_hashes mem)(key \<mapsto> h)\<rparr>))"

text \<open>\<open>String::truncate\<close> does not return when the cut is inside a character.\<close>

definition truncated :: "nat \<Rightarrow> string \<Rightarrow> string option" where
  "truncated n s = (if n < length s \<and> utf8_cont (of_char (s ! n)) then None else Some (take n s))"

definition get_redis_key ::
  "'w RedisCache \<Rightarrow> AuthorizedRequestContext \<Rightarrow> ResponsePayload option \<Rightarrow> bool \<Rightarrow> cache_memory
     \<Rightarrow> string option \<times> cache_memory" where
  "get_redis_key rx rc payload use_legacy mem =
     (let encoding = (case payload of
            Some p \<Rightarrow> if rp_use_proto p then StatsigBrotli else PlainText
          | None \<Rightarrow> PlainText);
          text = (\<lambda>sdk_key. prefixed_key rx (''statsig|'' @ trim_end_matches CHR ''/'' (path_as_str (rc_path rc)) @ ''|''
                              @ encoder_to_string encoding @ ''|'' @ sdk_key))
      in if use_legacy then (case hash_key rx (rc_sdk_key rc) mem of (h, mem') \<Rightarrow> (Some (text h), mem'))
         else (map_option text (truncated 20 (rc_sdk_key rc)), mem))"

definition get_redis_keys_for_payload ::
  "'w RedisCache \<Rightarrow> AuthorizedRequestContext \<Rightarrow> ResponsePayload \<Rightarrow> cache_memory \<Rightarrow> string list option \<times> cache_memory" where
  "get_redis_keys_for_payload rx rc payload mem =
     (case get_redis_key rx rc (Some payload) False mem of
        (None, mem1) \<Rightarrow> (None, mem1)
      | (Some key, mem1) \<Rightarrow>
          if rx_double_write_cache_for_legacy_key rx
          then (case get_redis_key rx rc (Some payload) True mem1 of
                  (None, mem2) \<Rightarrow> (None, mem2) | (Some legacy, mem2) \<Rightarrow> (Some [key, legacy], mem2))
          else (Some [key], mem1))"

section \<open>Commands\<close>

text \<open>\<open>SETNX\<close>, and \<open>EXPIRE\<close> with a signed time: one that is not positive deletes the key.\<close>

definition set_nx :: "string \<Rightarrow> string \<Rightarrow> redis_cmd" where
  "set_nx k v = EVAL (\<lambda>ks.
     if ks k = None then (Inr (RInt 1), ks(k \<mapsto> \<lparr>re_value = VString v, re_ttl = None\<rparr>)) else (Inr (RInt 0), ks))"

definition expire_in :: "string \<Rightarrow> int \<Rightarrow> redis_cmd" where
  "expire_in k ttl = EXPIRE k (if 0 < ttl then of_int ttl else 0)"

definition refresh_ttl_script ::
  "string \<Rightarrow> string \<Rightarrow> int \<Rightarrow> keyspace \<Rightarrow> (redis_error + redis_reply) \<times> keyspace" where
  "refresh_ttl_script key lcut ttl ks =
     (case hash_at ks key of
        None \<Rightarrow> (Inl wrong_type, ks)
      | Some h \<Rightarrow> if h ''lcut'' = Some lcut then call (expire_in key ttl) ks else (Inr (RInt 0), ks))"

definition leader_commands :: "'w RedisCache \<Rightarrow> string \<Rightarrow> redis_cmd list" where
  "leader_commands rx redis_key =
     [TTL (leader_key rx), set_nx (leader_key rx) (rx_uuid rx), redis_cmd.GET (leader_key rx), HGET redis_key ''lcut'']"

definition write_commands :: "'w RedisCache \<Rightarrow> string \<Rightarrow> u64 \<Rightarrow> string \<Rightarrow> redis_cmd list" where
  "write_commands rx redis_key lcut data =
     [HSET redis_key [(''encoding'', ''plain_text'')], HSET redis_key [(''lcut'', show_u64 lcut)],
      HSET redis_key [(''config'', data)], expire_in redis_key (rx_redis_cache_ttl_in_s rx),
      expire_in (leader_key rx) (rx_leader_key_ttl rx)]"

text \<open>The result of a request as a value, so that an error does not end the operation.\<close>

definition attempt :: "('w, 'e, 'a) io \<Rightarrow> ('w, 'f, 'e + 'a) io" where
  "attempt m w = map_option (\<lambda>(res, w'). (Inr res, w')) (m w)"

text \<open>The replies \<open>(i32, i32, String, Option<String>)\<close>.\<close>

definition is_i32 :: "int \<Rightarrow> bool" where
  "is_i32 i \<longleftrightarrow> - (2 ^ 31) \<le> i \<and> i < 2 ^ 31"

definition leader_reply :: "redis_error + redis_reply list \<Rightarrow> (int \<times> string \<times> string option) option" where
  "leader_reply res =
     (case res of
        Inr [RInt ttl, RInt created, RBulk holder, lcut] \<Rightarrow>
          if is_i32 ttl \<and> is_i32 created
          then (case lcut of RNil \<Rightarrow> Some (ttl, holder, None) | RBulk l \<Rightarrow> Some (ttl, holder, Some l) | _ \<Rightarrow> None)
          else None
      | _ \<Rightarrow> None)"

section \<open>Operations\<close>

definition refresh_ttl ::
  "'w RedisCache \<Rightarrow> 'w redis \<Rightarrow> string list \<Rightarrow> u64 \<Rightarrow> ('w, string, refresh_event) io" where
  "refresh_ttl rx conn redis_keys expected_lcut =
     (if redis_keys = [] then ret RedisCacheTtlRefreshMissed
      else bind (attempt (pipe conn False
               (map (\<lambda>k. EVAL (refresh_ttl_script k (show_u64 expected_lcut) (rx_redis_cache_ttl_in_s rx))) redis_keys)))
             (\<lambda>res. ret (case res of
                Inl _ \<Rightarrow> RedisCacheTtlRefreshFailed
              | Inr replies \<Rightarrow>
                  if \<not> list_all (\<lambda>r. case r of RInt _ \<Rightarrow> True | _ \<Rightarrow> False) replies then RedisCacheTtlRefreshFailed
                  else if length replies = length redis_keys \<and> list_all (\<lambda>r. r = RInt 1) replies
                  then RedisCacheTtlRefreshed else RedisCacheTtlRefreshMissed)))"

text \<open>What is stored: the data without compression. None when it cannot be decompressed.\<close>

definition data_to_write :: "'w RedisCache \<Rightarrow> ResponsePayload \<Rightarrow> string option" where
  "data_to_write rx data =
     (case rp_encoding data of
        Gzip \<Rightarrow> rx_gunzip rx (rp_data data)
      | PlainText \<Rightarrow> Some (rp_data data)
      | Brotli \<Rightarrow> rx_unbrotli rx (rp_data data)
      | StatsigBrotli \<Rightarrow> Some (rp_data data)
      | _ \<Rightarrow> Some (rp_data data))"

definition may_write :: "'w RedisCache \<Rightarrow> u64 \<Rightarrow> string \<Rightarrow> string option \<Rightarrow> bool" where
  "may_write rx lcut holder stored =
     (let is_leader = (holder = rx_uuid rx)
      in if rx_check_lcut rx
         then is_leader \<and> (case Option.bind stored parse_u64 of None \<Rightarrow> True | Some existing \<Rightarrow> existing < lcut)
         else is_leader)"

text \<open>
  The pipeline object is used again: commands that were added stay in it and are sent again
  with the later ones.
\<close>

definition update_impl ::
  "'w RedisCache \<Rightarrow> string \<Rightarrow> DataProviderRequestResult \<Rightarrow> AuthorizedRequestContext \<Rightarrow> u64 \<Rightarrow> ResponsePayload
     \<Rightarrow> ('w, string, unit) io" where
  "update_impl rx redis_key result rc lcut data =
     (case rx_connection rx of
        None \<Rightarrow> ret ()
      | Some conn \<Rightarrow>
          if result = DataAvailable then
            bind (attempt (pipe conn True (leader_commands rx redis_key))) (\<lambda>res.
            bind (case leader_reply res of
                    None \<Rightarrow> ret (False, leader_commands rx redis_key)
                  | Some (ttl, holder, stored) \<Rightarrow>
                      let cmds = leader_commands rx redis_key;
                          cmds' = cmds @ [expire_in (leader_key rx) (rx_leader_key_ttl rx)]
                      in if ttl = - 1 \<and> holder \<noteq> rx_uuid rx
                         then seq (attempt (pipe conn True cmds')) (ret (may_write rx lcut holder stored, cmds'))
                         else ret (may_write rx lcut holder stored, cmds)) (\<lambda>(should_update, cmds).
            if \<not> rc_use_lcut rc \<or> should_update then
              (case data_to_write rx data of
                 None \<Rightarrow> ret ()
               | Some text \<Rightarrow>
                   seq (attempt (pipe conn True (cmds @ write_commands rx redis_key lcut text))) (ret ()))
            else seq (refresh_ttl rx conn [redis_key] lcut) (ret ())))
          else if result = Unauthorized then seq (attempt (command conn (DEL redis_key))) (ret ())
          else ret ())"

definition backup_update ::
  "'w RedisCache \<Rightarrow> AuthorizedRequestContext \<Rightarrow> ResponseContext \<Rightarrow> cache_memory \<Rightarrow> ('w, string, cache_memory) io" where
  "backup_update rx rc rsp mem =
     (case get_redis_keys_for_payload rx rc (rsp_body rsp) mem of
        (None, mem1) \<Rightarrow> fail ''panic: not a char boundary''
      | (Some redis_keys, mem1) \<Rightarrow>
          let mem2 = (if rsp_result_type rsp = DataAvailable
                      then mem1\<lparr>cm_active := cm_insert rc \<lparr>ak_keys = redis_keys, ak_lcut = rsp_lcut rsp\<rparr> (cm_active mem1)\<rparr>
                      else mem1)
          in seq (for_each redis_keys (\<lambda>k. update_impl rx k (rsp_result_type rsp) rc (rsp_lcut rsp) (rsp_body rsp)))
               (ret mem2))"

definition backup_reply :: "redis_error + redis_reply list \<Rightarrow> (u64 option \<times> string) option" where
  "backup_reply res =
     (case res of
        Inr [lcut, config] \<Rightarrow>
          Option.bind (case lcut of RNil \<Rightarrow> Some None | RBulk l \<Rightarrow> map_option Some (parse_u64 l) | _ \<Rightarrow> None) (\<lambda>l.
            (case config of RNil \<Rightarrow> Some (l, []) | RBulk d \<Rightarrow> Some (l, d) | _ \<Rightarrow> None))
      | _ \<Rightarrow> None)"

definition spec_of_backup ::
  "'w RedisCache \<Rightarrow> AuthorizedRequestContext \<Rightarrow> u64 option \<Rightarrow> string \<Rightarrow> ConfigSpecForCompany option" where
  "spec_of_backup rx rc lcut data =
     (let l = (case lcut of None \<Rightarrow> 0 | Some x \<Rightarrow> x)
      in if data = [] then None
         else if Gzip \<in> set (rc_encodings rc) then
           (case rx_gzip rx data of
              None \<Rightarrow> None
            | Some compressed \<Rightarrow>
                if compressed = [] then None
                else Some \<lparr>cs_lcut = l, cs_config = \<lparr>rp_encoding = Gzip, rp_data = compressed, rp_use_proto = False\<rparr>\<rparr>)
         else Some \<lparr>cs_lcut = l, cs_config = \<lparr>rp_encoding = PlainText, rp_data = data, rp_use_proto = False\<rparr>\<rparr>)"

definition backup_get ::
  "'w RedisCache \<Rightarrow> AuthorizedRequestContext \<Rightarrow> cache_memory \<Rightarrow> ('w, string, ConfigSpecForCompany option) io" where
  "backup_get rx rc mem =
     (case rx_connection rx of
        None \<Rightarrow> ret None
      | Some conn \<Rightarrow>
          (case get_redis_key rx rc None False mem of
             (None, _) \<Rightarrow> fail ''panic: not a char boundary''
           | (Some redis_key, _) \<Rightarrow>
               bind (attempt (pipe conn True [HGET redis_key ''lcut'', HGET redis_key ''config''])) (\<lambda>res.
                 ret (case backup_reply res of
                        None \<Rightarrow> None
                      | Some (lcut, data) \<Rightarrow> spec_of_backup rx rc lcut data))))"

definition touch :: "'w RedisCache \<Rightarrow> AuthorizedRequestContext \<Rightarrow> cache_memory \<Rightarrow> ('w, string, unit) io" where
  "touch rx rc mem =
     (case cm_get rc (cm_active mem) of
        None \<Rightarrow> ret ()
      | Some active \<Rightarrow>
          if ak_keys active = [] then ret ()
          else (case rx_connection rx of
                  None \<Rightarrow> ret ()
                | Some conn \<Rightarrow> seq (refresh_ttl rx conn (ak_keys active) (ak_lcut active)) (ret ())))"

definition disabled_update :: "AuthorizedRequestContext \<Rightarrow> ResponseContext \<Rightarrow> 's \<Rightarrow> 's" where
  "disabled_update rc rsp s = s"

definition disabled_get :: "AuthorizedRequestContext \<Rightarrow> 's \<Rightarrow> ConfigSpecForCompany option" where
  "disabled_get rc s = None"


section \<open>Rules for requests\<close>

lemma attempt_ok:
  assumes "io_ok P m Q E"
  shows "io_ok P (attempt m) (\<lambda>r w. case r of Inl _ \<Rightarrow> E w | Inr a \<Rightarrow> Q a w) F"
proof (rule io_okI)
  fix w assume "P w"
  then obtain res w' where "m w = Some (res, w')" "case res of Inl _ \<Rightarrow> E w' | Inr a \<Rightarrow> Q a w'"
    using assms unfolding io_ok_def by blast
  then show "\<exists>res w'. attempt m w = Some (res, w') \<and> (case res of Inl _ \<Rightarrow> F w' | Inr r \<Rightarrow> (case r of Inl _ \<Rightarrow> E w' | Inr a \<Rightarrow> Q a w'))"
    by (auto simp: attempt_def)
qed

lemma pipe_atomic_ok:
  assumes conf: "redis_conforms sc rely exec view" and st: "stable rely P"
    and run: "\<And>ks rs ks'. P ks \<Longrightarrow> ran sc (=) cs ks rs ks' \<Longrightarrow> Q rs ks' \<and> E ks'" and PE: "\<And>ks. P ks \<Longrightarrow> E ks"
  shows "kio_ok view P (pipe exec True cs) Q E"
  unfolding pipe_def
proof (rule io_ok_lift)
  fix w assume P: "P (view w)"
  obtain res w' where x: "exec True cs w = (res, w')" by force
  obtain ks0 where ks0: "rely (view w) ks0"
    and res: "case res of Inl _ \<Rightarrow> view w' = ks0 \<or> (\<exists>rs. ran sc (=) cs ks0 rs (view w')) | Inr rs \<Rightarrow> ran sc (=) cs ks0 rs (view w')"
    using conforms_exec [OF conf x] by (cases res) (auto simp: conforms_result_def)
  have "P ks0" using stableD [OF st ks0 P] .
  then show "case exec True cs w of (Inl _, w') \<Rightarrow> E (view w') | (Inr a, w') \<Rightarrow> Q a (view w')"
    using x res run PE by (cases res) auto
qed

lemma ran_append:
  "ran sc (=) (cs @ ds) ks rs ks' \<Longrightarrow> \<exists>rs1 rs2 ks1. ran sc (=) cs ks rs1 ks1 \<and> ran sc (=) ds ks1 rs2 ks'"
proof (induction cs arbitrary: ks rs)
  case (Cons c cs)
  then obtain r rs' ks1 where "step_ok sc c ks r ks1" "ran sc (=) (cs @ ds) ks1 rs' ks'" by auto
  with Cons.IH [of ks1 rs'] show ?case by fastforce
qed auto

lemma ran_keeps:
  assumes "ran sc (=) cs ks rs ks'" and "K ks" and "\<And>c ks r ks'. c \<in> set cs \<Longrightarrow> K ks \<Longrightarrow> step_ok sc c ks r ks' \<Longrightarrow> K ks'"
  shows "K ks'"
  using assms
proof (induction cs arbitrary: ks rs)
  case (Cons c cs)
  then obtain r rs' ks1 where s: "step_ok sc c ks r ks1" "ran sc (=) cs ks1 rs' ks'" by auto
  have "K ks1" using Cons.prems(2,3) s(1) by (meson list.set_intros(1))
  then show ?case using Cons.IH [OF s(2)] Cons.prems(3) by (meson list.set_intros(2))
qed simp

section \<open>Versions in the backup\<close>

text \<open>
  \<open>R\<close> is a set of versions, each a time stamp with its data. The hash of a key has no version or
  one of \<open>R\<close>, with its own time stamp.
\<close>

definition version_ok :: "(u64 \<times> string) set \<Rightarrow> redis_hash \<Rightarrow> bool" where
  "version_ok R h \<longleftrightarrow>
     h ''lcut'' = None \<and> h ''config'' = None
     \<or> (\<exists>l d. (l, d) \<in> R \<and> h ''lcut'' = Some (show_u64 l) \<and> h ''config'' = Some d)"

definition backup_ok :: "string \<Rightarrow> (u64 \<times> string) set \<Rightarrow> keyspace \<Rightarrow> bool" where
  "backup_ok key R ks \<longleftrightarrow> (\<exists>h. hash_at ks key = Some h \<and> version_ok R h)"

text \<open>Commands that leave the hash of \<open>key\<close> as it is, or delete it.\<close>

definition spares :: "string \<Rightarrow> redis_cmd \<Rightarrow> bool" where
  "spares key c \<longleftrightarrow> determined c \<and>
     (\<forall>ks r ks'. call c ks = (Inr r, ks') \<longrightarrow> hash_at ks' key = hash_at ks key \<or> ks' key = None)"

lemma spares_keeps: "spares key c \<Longrightarrow> backup_ok key R ks \<Longrightarrow> step_ok sc c ks r ks' \<Longrightarrow> backup_ok key R ks'"
  unfolding spares_def backup_ok_def by (fastforce simp: step_ok_determined hash_at_def version_ok_def)

lemma spares_read [simp]: "spares key (TTL k)" "spares key (redis_cmd.GET k)" "spares key (HGET k f)" "spares key (DEL k)"
  by (auto simp: spares_def on_hash_def hash_at_def split: option.splits)

lemma spares_expire [simp]: "spares key (expire_in k t)"
  by (auto simp: spares_def expire_in_def hash_at_def split: option.splits if_splits)

lemma spares_set_nx: "k \<noteq> key \<Longrightarrow> spares key (set_nx k v)"
  by (auto simp: spares_def set_nx_def hash_at_def split: if_splits)

lemma spares_hset: "k \<noteq> key \<Longrightarrow> spares key (HSET k fvs)"
  by (auto simp: spares_def on_hash_def put_hash_def put_value_def hash_at_def split: option.splits if_splits)

lemma spares_refresh: "spares key (EVAL (refresh_ttl_script k l t))"
  using spares_expire [of key k t] by (auto simp: spares_def refresh_ttl_script_def expire_in_def split: option.splits if_splits)

lemma key_apart: "leader_key rx \<noteq> prefixed_key rx (''statsig|'' @ x)"
  by (simp add: leader_key_def prefixed_key_def apply_key_prefix_def REDIS_LEADER_KEY_def Let_def)

lemma redis_key_form:
  "get_redis_key rx rc p legacy mem = (Some key, mem') \<Longrightarrow> \<exists>x. key = prefixed_key rx (''statsig|'' @ x)"
  by (auto simp: get_redis_key_def Let_def split: if_splits prod.splits)


lemma write_keeps:
  assumes "backup_ok key R ks" and "ran sc (=) (write_commands rx k lcut d) ks rs ks'" and "k = key \<Longrightarrow> (lcut, d) \<in> R"
  shows "backup_ok key R ks'"
proof (cases "k = key")
  case False
  have "spares key c" if "c \<in> set (write_commands rx k lcut d)" for c
    using that False by (auto simp: write_commands_def spares_hset)
  then show ?thesis using ran_keeps [OF assms(2), of "backup_ok key R"] assms(1) spares_keeps by blast
next
  case True
  let ?es = "[expire_in k (rx_redis_cache_ttl_in_s rx), expire_in (leader_key rx) (rx_leader_key_ttl rx)]"
  let ?hs = "[HSET k [(''encoding'', ''plain_text'')], HSET k [(''lcut'', show_u64 lcut)], HSET k [(''config'', d)]]"
  have "ran sc (=) (?hs @ ?es) ks rs ks'" using assms(2) by (simp only: write_commands_def append.simps)
  from ran_append [OF this] obtain rs1 rs2 ks1 where w: "ran sc (=) ?hs ks rs1 ks1" and e: "ran sc (=) ?es ks1 rs2 ks'"
    by blast
  obtain h where "hash_at ks k = Some h" using assms(1) True by (auto simp: backup_ok_def)
  then have "hash_at ks1 k = Some (h(''encoding'' \<mapsto> ''plain_text'', ''lcut'' \<mapsto> show_u64 lcut, ''config'' \<mapsto> d))"
    using w by (auto simp: step_ok_determined on_hash_def hash_at_put)
  then have "backup_ok key R ks1" using True assms(3) by (auto simp: backup_ok_def version_ok_def)
  moreover have "spares key c" if "c \<in> set ?es" for c using that by auto
  ultimately show ?thesis using ran_keeps [OF e, of "backup_ok key R"] spares_keeps by blast
qed

lemma leader_spares: "leader_key rx \<noteq> key \<Longrightarrow> c \<in> set (leader_commands rx k) \<Longrightarrow> spares key c"
  by (auto simp: leader_commands_def spares_set_nx)

text \<open>Requests that keep the condition on the backup.\<close>

lemma atomic_keeps:
  assumes "redis_conforms sc rely conn view" and "stable rely K"
    and "\<And>ks rs ks'. K ks \<Longrightarrow> ran sc (=) cs ks rs ks' \<Longrightarrow> K ks'"
  shows "kio_ok view K (attempt (pipe conn True cs)) (\<lambda>_. K) E"
proof -
  have "kio_ok view K (pipe conn True cs) (\<lambda>_. K) K"
    by (rule pipe_atomic_ok [OF assms(1,2)]) (use assms(3) in auto)
  from attempt_ok [OF this, of "\<lambda>w. E (view w)"] show ?thesis by (rule io_ok_cons) (auto split: sum.splits)
qed

lemma refresh_keeps:
  assumes "redis_conforms sc rely conn view" and "stable rely (backup_ok key R)"
  shows "kio_ok view (backup_ok key R) (refresh_ttl rx conn keys lcut) (\<lambda>_. backup_ok key R) E"
  unfolding refresh_ttl_def
proof (rule io_ok_if)
  let ?cs = "map (\<lambda>k. EVAL (refresh_ttl_script k (show_u64 lcut) (rx_redis_cache_ttl_in_s rx))) keys"
  let ?K = "backup_ok key R"
  have "kio_ok view ?K (pipe conn False ?cs) (\<lambda>rs ks. list_all2 (\<lambda>_ _. True) ?cs rs \<and> ?K ks) ?K"
    by (rule pipe_reads_ok [OF assms]) (auto intro: spares_keeps [OF spares_refresh])
  from attempt_ok [OF this, of "\<lambda>w. E (view w)"]
  have "kio_ok view ?K (attempt (pipe conn False ?cs)) (\<lambda>_. ?K) E" by (rule io_ok_cons) (auto split: sum.splits)
  then show "kio_ok view ?K (bind (attempt (pipe conn False ?cs)) (\<lambda>res. ret (case res of
                Inl _ \<Rightarrow> RedisCacheTtlRefreshFailed
              | Inr replies \<Rightarrow>
                  if \<not> list_all (\<lambda>r. case r of RInt _ \<Rightarrow> True | _ \<Rightarrow> False) replies then RedisCacheTtlRefreshFailed
                  else if length replies = length keys \<and> list_all (\<lambda>r. r = RInt 1) replies
                  then RedisCacheTtlRefreshed else RedisCacheTtlRefreshMissed))) (\<lambda>_. ?K) E"
    by (rule io_ok_bind) (rule io_ok_ret)
qed (rule io_ok_ret)

lemma update_impl_keeps:
  assumes conf: "\<And>conn. rx_connection rx = Some conn \<Longrightarrow> redis_conforms sc rely conn view"
    and st: "stable rely (backup_ok key R)" and lk: "leader_key rx \<noteq> key"
    and new: "\<And>d. data_to_write rx data = Some d \<Longrightarrow> (lcut, d) \<in> R"
  shows "kio_ok view (backup_ok key R) (update_impl rx k result rc lcut data) (\<lambda>_. backup_ok key R) E"
proof (cases "rx_connection rx")
  case None
  then show ?thesis by (simp add: update_impl_def io_ok_ret)
next
  case (Some conn)
  let ?K = "backup_ok key R"
  note conf = conf [OF Some]
  have lead: "?K ks'" if "?K ks" "ran sc (=) cs ks rs ks'" "set cs \<subseteq> set (leader_commands rx k) \<union> {expire_in (leader_key rx) t}"
    for ks rs ks' cs t
    using ran_keeps [OF that(2), of ?K] that(1,3) leader_spares [OF lk] spares_keeps spares_expire by blast
  have atomic: "kio_ok view ?K (attempt (pipe conn True cs)) (\<lambda>_. ?K) E"
    if "set cs \<subseteq> set (leader_commands rx k) \<union> {expire_in (leader_key rx) t}" for cs t and E :: "keyspace \<Rightarrow> bool"
    by (rule atomic_keeps [OF conf st]) (use lead that in blast)
  have wr: "kio_ok view ?K (attempt (pipe conn True (cs @ write_commands rx k lcut d))) (\<lambda>_. ?K) E"
    if "set cs \<subseteq> set (leader_commands rx k) \<union> {expire_in (leader_key rx) t}" "data_to_write rx data = Some d" for cs t d
    by (rule atomic_keeps [OF conf st]) (use lead that write_keeps new ran_append in metis)
  let ?S = "\<lambda>x :: bool \<times> redis_cmd list. set (snd x) \<subseteq> set (leader_commands rx k) \<union> {expire_in (leader_key rx) (rx_leader_key_ttl rx)}"
  have del: "kio_ok view ?K (attempt (command conn (DEL k))) (\<lambda>_. ?K) E"
  proof -
    have "kio_ok view ?K (command conn (DEL k)) (\<lambda>_. ?K) ?K"
      by (rule command_ok [OF conf st]) (use st spares_keeps [OF spares_read(4)] in blast)+
    from attempt_ok [OF this, of "\<lambda>w. E (view w)"] show ?thesis by (rule io_ok_cons) (auto split: sum.splits)
  qed
  show ?thesis
    unfolding update_impl_def Some option.case
  proof (intro io_ok_if io_ok_seq [OF del] io_ok_ret io_ok_bind)
    show "kio_ok view ?K (attempt (pipe conn True (leader_commands rx k))) (\<lambda>_. ?K) E" by (rule atomic) blast
    show "kio_ok view ?K (case leader_reply res of
            None \<Rightarrow> ret (False, leader_commands rx k)
          | Some (ttl, holder, stored) \<Rightarrow>
              let cmds = leader_commands rx k; cmds' = cmds @ [expire_in (leader_key rx) (rx_leader_key_ttl rx)]
              in if ttl = - 1 \<and> holder \<noteq> rx_uuid rx
                 then seq (attempt (pipe conn True cmds')) (ret (may_write rx lcut holder stored, cmds'))
                 else ret (may_write rx lcut holder stored, cmds)) (\<lambda>x ks. ?S x \<and> ?K ks) E" for res
      by (auto simp: Let_def intro!: io_ok_ret io_ok_seq [OF atomic] split: option.splits)
    show "io_ok (\<lambda>w. ?S x \<and> ?K (view w)) (case x of (should_update, cmds) \<Rightarrow>
            if \<not> rc_use_lcut rc \<or> should_update then
              (case data_to_write rx data of
                 None \<Rightarrow> ret ()
               | Some text \<Rightarrow> seq (attempt (pipe conn True (cmds @ write_commands rx k lcut text))) (ret ()))
            else seq (refresh_ttl rx conn [k] lcut) (ret ())) (\<lambda>_ w. ?K (view w)) (\<lambda>w. E (view w))" for x
    proof (rule io_ok_pure)
      assume S: "?S x"
      obtain su cmds where x: "x = (su, cmds)" by force
      have "kio_ok view ?K (case data_to_write rx data of
                 None \<Rightarrow> ret ()
               | Some text \<Rightarrow> seq (attempt (pipe conn True (cmds @ write_commands rx k lcut text))) (ret ())) (\<lambda>_. ?K) E"
      proof (cases "data_to_write rx data")
        case (Some d)
        have "set cmds \<subseteq> set (leader_commands rx k) \<union> {expire_in (leader_key rx) (rx_leader_key_ttl rx)}"
          using S unfolding x by simp
        from wr [OF this Some] show ?thesis unfolding Some option.case by (rule io_ok_seq) (rule io_ok_ret)
      qed (simp add: io_ok_ret)
      moreover have "kio_ok view ?K (seq (refresh_ttl rx conn [k] lcut) (ret ())) (\<lambda>_. ?K) E"
        by (rule io_ok_seq [OF refresh_keeps [OF conf st]]) (rule io_ok_ret)
      ultimately show "kio_ok view ?K (case x of (should_update, cmds) \<Rightarrow>
            if \<not> rc_use_lcut rc \<or> should_update then
              (case data_to_write rx data of
                 None \<Rightarrow> ret ()
               | Some text \<Rightarrow> seq (attempt (pipe conn True (cmds @ write_commands rx k lcut text))) (ret ()))
            else seq (refresh_ttl rx conn [k] lcut) (ret ())) (\<lambda>_. ?K) E"
        unfolding x prod.case by (rule io_ok_if)
    qed
  qed simp_all
qed


lemma redis_keys_form:
  "get_redis_keys_for_payload rx rc p mem = (Some keys, mem') \<Longrightarrow> k \<in> set keys \<Longrightarrow> \<exists>x. k = prefixed_key rx (''statsig|'' @ x)"
  by (auto simp: get_redis_keys_for_payload_def split: prod.splits option.splits if_splits dest!: redis_key_form)

lemma update_keeps:
  assumes "\<And>conn. rx_connection rx = Some conn \<Longrightarrow> redis_conforms sc rely conn view"
    and "stable rely (backup_ok key R)" and "leader_key rx \<noteq> key"
    and "\<And>d. data_to_write rx (rsp_body rsp) = Some d \<Longrightarrow> (rsp_lcut rsp, d) \<in> R"
  shows "kio_ok view (backup_ok key R) (backup_update rx rc rsp mem) (\<lambda>_. backup_ok key R) (backup_ok key R)"
proof -
  let ?K = "backup_ok key R"
  have each: "kio_ok view ?K (for_each keys (\<lambda>k. update_impl rx k result rc (rsp_lcut rsp) (rsp_body rsp)))
      (\<lambda>_. ?K) ?K" for keys result
    by (rule io_ok_for_each) (rule update_impl_keeps [OF assms])
  show ?thesis
    by (auto simp: backup_update_def Let_def split: option.splits prod.splits intro!: io_ok_fail io_ok_ret io_ok_seq [OF each])
qed

definition version_reply :: "(u64 \<times> string) set \<Rightarrow> redis_reply list \<Rightarrow> bool" where
  "version_reply R rs \<longleftrightarrow>
     (\<exists>h. version_ok R h \<and> rs = map (\<lambda>f. case h f of None \<Rightarrow> RNil | Some v \<Rightarrow> RBulk v) [''lcut'', ''config''])"

lemma get_version:
  assumes conf: "\<And>conn. rx_connection rx = Some conn \<Longrightarrow> redis_conforms sc rely conn view"
    and st: "stable rely (backup_ok key R)" and key: "get_redis_key rx rc None False mem = (Some key, mem')"
    and gz: "\<And>d c. rx_gzip rx d = Some c \<Longrightarrow> rx_gunzip rx c = Some d"
  shows "kio_ok view (backup_ok key R) (backup_get rx rc mem)
    (\<lambda>r ks. (case r of None \<Rightarrow> True | Some spec \<Rightarrow> \<exists>d. (cs_lcut spec, d) \<in> R \<and> data_to_write rx (cs_config spec) = Some d)
       \<and> backup_ok key R ks) (backup_ok key R)"
proof (cases "rx_connection rx")
  case None
  then show ?thesis by (simp add: backup_get_def io_ok_ret)
next
  case (Some conn)
  let ?K = "backup_ok key R" and ?cs = "[HGET key ''lcut'', HGET key ''config'']"
  let ?V = "version_reply R"
  have "kio_ok view ?K (pipe conn True ?cs) (\<lambda>rs ks. ?V rs \<and> ?K ks) ?K"
  proof (rule pipe_atomic_ok [OF conf [OF Some] st])
    fix ks rs ks' assume K: "?K ks" and run: "ran sc (=) ?cs ks rs ks'"
    obtain h where h: "hash_at ks key = Some h" "version_ok R h" using K by (auto simp: backup_ok_def)
    have "rs = map (\<lambda>f. case h f of None \<Rightarrow> RNil | Some v \<Rightarrow> RBulk v) [''lcut'', ''config'']" "ks' = ks"
      using run h(1) by (auto simp: step_ok_determined on_hash_def)
    then show "(?V rs \<and> ?K ks') \<and> ?K ks'" using h K unfolding version_reply_def by blast
  qed simp
  from attempt_ok [OF this, of "\<lambda>w. ?K (view w)"]
  have read: "kio_ok view ?K (attempt (pipe conn True ?cs)) (\<lambda>r ks. (\<forall>rs. r = Inr rs \<longrightarrow> ?V rs) \<and> ?K ks) ?K"
    by (rule io_ok_cons) (auto split: sum.splits)
  have spec: "\<exists>d. (cs_lcut sp, d) \<in> R \<and> data_to_write rx (cs_config sp) = Some d"
    if V: "\<forall>rs. res = Inr rs \<longrightarrow> ?V rs" and rep: "backup_reply res = Some (lcut, data)"
      and sp: "spec_of_backup rx rc lcut data = Some sp"
    for res lcut data sp
  proof -
    obtain rs where rs: "res = Inr rs" using rep by (cases res) (simp_all add: backup_reply_def)
    then obtain h where h: "version_ok R h" "rs = map (\<lambda>f. case h f of None \<Rightarrow> RNil | Some v \<Rightarrow> RBulk v) [''lcut'', ''config'']"
      using V unfolding version_reply_def by blast
    have "data \<noteq> []" using sp by (auto simp: spec_of_backup_def)
    then obtain l where l: "(l, data) \<in> R" "lcut = Some l"
      using h rep unfolding rs by (auto simp: version_ok_def backup_reply_def parse_u64_show_u64 split: option.splits)
    then show ?thesis using sp gz
      by (auto simp: spec_of_backup_def data_to_write_def split: if_splits option.splits)
  qed
  show ?thesis
    unfolding backup_get_def Some key option.case prod.case
    by (rule io_ok_bind [OF read]) (auto intro!: io_ok_ret spec split: option.splits)
qed


text \<open>
  C12: the backup is coherent. \<open>R\<close> is the set of versions of the spec of a key, each a time stamp with its
  data; it has what is being written. Whatever requests fail, whether or not their
  writes took effect, and whatever other replicas do in between as long as they keep to the same
  rule, a replica that takes part in an update and one that reads afterwards return, and what is
  read is nothing or one version as it was written, with its own time stamp and not that of another.
\<close>

theorem backup_coherent:
  fixes writer reader :: "'w RedisCache"
  assumes "\<And>conn. rx_connection writer = Some conn \<Longrightarrow> redis_conforms sc rely conn view"
    and "\<And>conn. rx_connection reader = Some conn \<Longrightarrow> redis_conforms sc rely conn view"
    and "rx_key_prefix writer = rx_key_prefix reader"
    and "get_redis_key reader rc None False mem = (Some key, mem')"
    and "stable rely (backup_ok key R)" and "backup_ok key R (view w)"
    and "\<And>d. data_to_write writer (rsp_body rsp) = Some d \<Longrightarrow> (rsp_lcut rsp, d) \<in> R"
    and "\<And>d c. rx_gzip reader d = Some c \<Longrightarrow> rx_gunzip reader c = Some d"
  shows "\<exists>res w'. bind (backup_update writer rc' rsp wmem) (\<lambda>_. backup_get reader rc mem) w = Some (res, w')
    \<and> backup_ok key R (view w')
    \<and> (case res of
         Inr (Some spec) \<Rightarrow> \<exists>d. (cs_lcut spec, d) \<in> R \<and> data_to_write reader (cs_config spec) = Some d
       | _ \<Rightarrow> True)"
proof -
  have "leader_key writer \<noteq> key"
    using redis_key_form [OF assms(4)] key_apart [of reader] assms(3) by (auto simp: leader_key_def prefixed_key_def)
  note up = update_keeps [OF assms(1,5) this assms(7)]
  from io_ok_bind [OF up get_version [OF assms(2,5,4,8)]] assms(6) obtain res w' where
    "bind (backup_update writer rc' rsp wmem) (\<lambda>_. backup_get reader rc mem) w = Some (res, w')"
    "case res of Inl _ \<Rightarrow> backup_ok key R (view w')
     | Inr r \<Rightarrow> (case r of None \<Rightarrow> True
         | Some spec \<Rightarrow> \<exists>d. (cs_lcut spec, d) \<in> R \<and> data_to_write reader (cs_config spec) = Some d)
        \<and> backup_ok key R (view w')"
    unfolding io_ok_def by blast
  then show ?thesis by (cases res) (auto split: option.splits)
qed

subsection \<open>A backup on a local service\<close>

definition local_backup :: "(keyspace \<times> unit) RedisCache" where
  "local_backup =
     \<lparr>rx_connection = Some local_exec, rx_uuid = ''u'', rx_leader_key_ttl = 60, rx_check_lcut = True,
      rx_redis_cache_ttl_in_s = 90, rx_double_write_cache_for_legacy_key = False, rx_key_prefix = [],
      rx_sha256_base64 = id, rx_gunzip = Some, rx_unbrotli = Some, rx_gzip = Some\<rparr>"

definition backup_rc :: AuthorizedRequestContext where
  "backup_rc = rc_new ''key'' V1DownloadConfigSpecs [PlainText]"

definition backup_response :: ResponseContext where
  "backup_response =
     \<lparr>rsp_result_type = DataAvailable, rsp_lcut = 5, rsp_request_since_time = 0,
      rsp_body = \<lparr>rp_encoding = PlainText, rp_data = ''{}'', rp_use_proto = False\<rparr>\<rparr>"

definition no_memory :: cache_memory where
  "no_memory = \<lparr>cm_hashes = (\<lambda>_. None), cm_active = (\<lambda>_. None)\<rparr>"

lemma backup_key: "get_redis_key local_backup backup_rc None False no_memory
    = (Some ''statsig|/v1/download_config_specs|plain_text|key'', no_memory)"
  by (simp add: get_redis_key_def truncated_def backup_rc_def rc_new_def trim_end_matches_def prefixed_key_def
      apply_key_prefix_def local_backup_def trim_def)

lemmas backup_eval = io_eval pipe_def local_exec_def local_step_call on_hash_def put_hash_def put_value_def string_at_def
  hash_at_def ttl_at_def attempt_def leader_commands_def write_commands_def set_nx_def expire_in_def leader_reply_def is_i32_def
  may_write_def data_to_write_def backup_reply_def spec_of_backup_def

lemma backup_keys: "get_redis_keys_for_payload local_backup backup_rc (rsp_body backup_response) no_memory
    = (Some [''statsig|/v1/download_config_specs|plain_text|key''], no_memory)"
  by (simp add: get_redis_keys_for_payload_def get_redis_key_def truncated_def backup_rc_def rc_new_def trim_end_matches_def
      prefixed_key_def apply_key_prefix_def local_backup_def trim_def backup_response_def)

lemma backup_leader: "leader_key local_backup = ''statsig_forward_proxy::leader''"
  by (simp add: leader_key_def prefixed_key_def apply_key_prefix_def local_backup_def trim_def REDIS_LEADER_KEY_def)

lemma backup_runs:
  "\<exists>w'. bind (backup_update local_backup backup_rc backup_response no_memory) (\<lambda>_. backup_get local_backup backup_rc no_memory)
      ((\<lambda>_. None), ()) = Some (Inr (Some \<lparr>cs_lcut = 5, cs_config = rsp_body backup_response\<rparr>), w')"
proof -
  have enc: "Gzip \<notin> set (rc_encodings backup_rc)" "rc_use_lcut backup_rc"
    by (simp_all add: backup_rc_def rc_new_def canonicalize_encodings_def)
  have cache: "rx_connection local_backup = Some local_exec" "rx_uuid local_backup = ''u''" "rx_leader_key_ttl local_backup = 60"
    "rx_check_lcut local_backup" "rx_redis_cache_ttl_in_s local_backup = 90"
    by (simp_all add: local_backup_def)
  have rsp: "rsp_result_type backup_response = DataAvailable" "rsp_lcut backup_response = 5"
    "rp_encoding (rsp_body backup_response) = PlainText" "rp_data (rsp_body backup_response) = ''{}''"
    "rsp_body backup_response = \<lparr>rp_encoding = PlainText, rp_data = ''{}'', rp_use_proto = False\<rparr>"
    by (simp_all add: backup_response_def)
  show ?thesis
    by (simp add: backup_update_def backup_keys backup_get_def backup_key update_impl_def backup_leader enc cache rsp(1-4)
        backup_eval Let_def parse_u64_show_u64) (simp add: rsp(5))
qed


theorem backup_coherent_witness:
  "\<exists>spec w'. bind (backup_update local_backup backup_rc backup_response no_memory)
        (\<lambda>_. backup_get local_backup backup_rc no_memory) ((\<lambda>_. None), ()) = Some (Inr (Some spec), w')
     \<and> cs_lcut spec = 5 \<and> data_to_write local_backup (cs_config spec) = Some ''{}''"
proof -
  let ?R = "{(5 :: u64, ''{}'')}" and ?k = "''statsig|/v1/download_config_specs|plain_text|key''"
  have conf: "redis_conforms local_scans (=) conn fst" if "rx_connection local_backup = Some conn" for conn
    using that local_conforms by (auto simp: local_backup_def)
  have "backup_ok ?k ?R (fst ((\<lambda>_. None), ()))" by (simp add: backup_ok_def hash_at_def version_ok_def)
  moreover have "(rsp_lcut backup_response, d) \<in> ?R" if "data_to_write local_backup (rsp_body backup_response) = Some d" for d
    using that by (simp add: data_to_write_def backup_response_def)
  moreover have "rx_gunzip local_backup c = Some d" if "rx_gzip local_backup d = Some c" for d c
    using that by (simp add: local_backup_def)
  ultimately obtain res w' where
    "bind (backup_update local_backup backup_rc backup_response no_memory)
        (\<lambda>_. backup_get local_backup backup_rc no_memory) ((\<lambda>_. None), ()) = Some (res, w')"
    "case res of Inr (Some spec) \<Rightarrow> \<exists>d. (cs_lcut spec, d) \<in> ?R \<and> data_to_write local_backup (cs_config spec) = Some d | _ \<Rightarrow> True"
    using backup_coherent [OF conf conf refl backup_key stable_eq, of ?R "((\<lambda>_. None), ())" backup_response] by blast
  with backup_runs show ?thesis by auto
qed

end
