(* ===== verification/TokenLifecycle.thy ===== *)
theory TokenLifecycle
  imports HttpProvider LineDecoder
begin

text \<open>
  The Entra access token that is the Redis password in OAuth mode: the token provider and the
  connection manager of \<open>datastore/caching/redis_auth.rs\<close>.

  Durations and instants are numbers of nanoseconds. The token endpoint is the argument \<open>te_send\<close>: to
  the request of each attempt it gives the reply and the time from the call to it, the wait of a sleep
  beyond the asked time included. Reading JSON is \<open>te_json\<close>, and
  \<open>te_client_error\<close> the error of building the HTTP client, if it has one.
\<close>

section \<open>Constants\<close>

definition DEFAULT_REFRESH_MARGIN_DIVISOR :: nat where "DEFAULT_REFRESH_MARGIN_DIVISOR = 4"

definition MIN_REFRESH_DELAY :: nat where "MIN_REFRESH_DELAY = from_secs 30"

definition MIN_RETRY_BACKOFF :: nat where "MIN_RETRY_BACKOFF = from_secs 1"

definition MAX_RETRY_BACKOFF :: nat where "MAX_RETRY_BACKOFF = from_secs 60"

definition MIN_USABLE_TOKEN_LIFETIME :: nat where "MIN_USABLE_TOKEN_LIFETIME = from_secs 120"

definition MAX_STARTUP_TIMEOUT :: nat where "MAX_STARTUP_TIMEOUT = from_secs (24 * 60 * 60)"

definition MAX_TOKEN_LIFETIME :: nat where "MAX_TOKEN_LIFETIME = from_secs (24 * 60 * 60)"

definition MIN_REFRESH_MARGIN :: nat where "MIN_REFRESH_MARGIN = from_secs 60"

definition TOKEN_HARD_EXPIRY_MARGIN :: nat where "TOKEN_HARD_EXPIRY_MARGIN = from_secs 30"

definition CONNECTION_LIFETIME_MARGIN_NUMERATOR :: nat where "CONNECTION_LIFETIME_MARGIN_NUMERATOR = 3"

definition CONNECTION_LIFETIME_MARGIN_DENOMINATOR :: nat where "CONNECTION_LIFETIME_MARGIN_DENOMINATOR = 4"

definition MIN_CONNECTION_LIFETIME :: nat where "MIN_CONNECTION_LIFETIME = from_secs (5 * 60)"

definition TOKEN_REQUEST_TIMEOUT :: nat where "TOKEN_REQUEST_TIMEOUT = from_secs 10"

definition MAX_LOGGED_ERROR_BODY_LEN :: nat where "MAX_LOGGED_ERROR_BODY_LEN = 512"

definition DEFAULT_ENTRA_AUTHORITY_HOST :: string where
  "DEFAULT_ENTRA_AUTHORITY_HOST = ''https://login.microsoftonline.com''"

section \<open>Data\<close>

record EntraOauthConfig =
  eo_tenant_id :: string
  eo_client_id :: string
  eo_client_secret :: string
  eo_scope :: string
  eo_username :: "string option"
  eo_refresh_margin :: "nat option"
  eo_authority_host :: string

datatype TokenError = Transport string | Endpoint nat string | Malformed string

record TokenSnapshot =
  ts_secret :: string
  ts_expires_at :: nat
  ts_refresh_at :: nat
  ts_generation :: u64
  ts_max_connection_lifetime :: nat

record TokenResponse =
  tr_access_token :: string
  tr_expires_in :: u64

record EntraTokenProvider =
  tp_config :: EntraOauthConfig
  tp_token :: TokenSnapshot
  tp_generation :: u64
  tp_refresh_task_started :: bool

text \<open>A reply: the error of sending, or the status, the \<open>Location\<close> header as text and the body or the error of reading it.\<close>

datatype token_reply =
    SendFailed string
  | Responded nat "string option" "string + string"

type_synonym token_post = "string \<times> (string \<times> string) list"

record token_env =
  te_client_error :: "string option"
  te_send :: "nat \<Rightarrow> token_post \<Rightarrow> token_reply \<times> nat"
  te_json :: "string \<Rightarrow> string + TokenResponse"

section \<open>Lifetimes and margins\<close>

definition token_error_text :: "TokenError \<Rightarrow> string" where
  "token_error_text e =
     (case e of
        Transport s \<Rightarrow> ''failed to reach the Entra token endpoint: '' @ s
      | Endpoint st body \<Rightarrow> ''Entra token endpoint returned '' @ show_nat st @ '': '' @ body
      | Malformed s \<Rightarrow> ''malformed Entra token response: '' @ s)"

definition usable_token_lifetime :: "u64 \<Rightarrow> TokenError + nat" where
  "usable_token_lifetime expires_in =
     (let lifetime = from_secs expires_in in
      if lifetime < MIN_USABLE_TOKEN_LIFETIME
      then Inl (Malformed (''token lifetime of '' @ show_u64 expires_in @ ''s is below the ''
                  @ show_nat (MIN_USABLE_TOKEN_LIFETIME div 10 ^ 9) @ ''s minimum''))
      else Inr (min lifetime MAX_TOKEN_LIFETIME))"

definition configured_margin_fits :: "nat \<Rightarrow> nat \<Rightarrow> bool" where
  "configured_margin_fits lifetime configured \<longleftrightarrow> configured \<le> lifetime - min MIN_REFRESH_DELAY (lifetime div 2)"

definition refresh_margin :: "nat \<Rightarrow> nat option \<Rightarrow> nat" where
  "refresh_margin lifetime configured =
     (let margin = max (case configured of
                          Some m \<Rightarrow> if configured_margin_fits lifetime m then m
                                    else lifetime div DEFAULT_REFRESH_MARGIN_DIVISOR
                        | None \<Rightarrow> lifetime div DEFAULT_REFRESH_MARGIN_DIVISOR)
                     MIN_REFRESH_MARGIN;
          shortest_delay = min MIN_REFRESH_DELAY (lifetime div 2)
      in min margin (lifetime - shortest_delay))"

definition refresh_delay :: "nat \<Rightarrow> nat option \<Rightarrow> nat" where
  "refresh_delay lifetime configured = lifetime - refresh_margin lifetime configured"

definition max_connection_lifetime :: "nat \<Rightarrow> nat option \<Rightarrow> nat" where
  "max_connection_lifetime lifetime configured =
     (let target = refresh_margin lifetime configured * CONNECTION_LIFETIME_MARGIN_NUMERATOR
                     div CONNECTION_LIFETIME_MARGIN_DENOMINATOR;
          ceiling = max (lifetime div 2) (from_secs 1)
      in min (max target MIN_CONNECTION_LIFETIME) ceiling)"

definition is_token_expiring :: "nat \<Rightarrow> nat \<Rightarrow> nat \<Rightarrow> bool" where
  "is_token_expiring now expires_at margin \<longleftrightarrow> expires_at < now \<or> expires_at - now \<le> margin"

text \<open>The byte where the \<open>n\<close>-th character starts.\<close>

fun char_start :: "nat \<Rightarrow> string \<Rightarrow> nat option" where
  "char_start n [] = None"
| "char_start n (c # cs) =
     (if utf8_cont (of_char c) then map_option Suc (char_start n cs)
      else if n = 0 then Some 0
      else map_option Suc (char_start (n - 1) cs))"

definition truncate_for_log :: "string \<Rightarrow> string" where
  "truncate_for_log body =
     (case char_start MAX_LOGGED_ERROR_BODY_LEN body of Some idx \<Rightarrow> take idx body @ ''...'' | None \<Rightarrow> body)"

section \<open>The provider\<close>

definition token_request :: "EntraOauthConfig \<Rightarrow> token_post" where
  "token_request config =
     (trim_end_matches CHR ''/'' (eo_authority_host config) @ ''/'' @ eo_tenant_id config @ ''/oauth2/v2.0/token'',
      [(''grant_type'', ''client_credentials''), (''client_id'', eo_client_id config),
       (''client_secret'', eo_client_secret config), (''scope'', eo_scope config)])"

definition token_of_reply :: "(string \<Rightarrow> string + TokenResponse) \<Rightarrow> token_reply \<Rightarrow> TokenError + TokenResponse" where
  "token_of_reply from_json reply =
     (case reply of
        SendFailed e \<Rightarrow> Inl (Transport e)
      | Responded st location (Inl e) \<Rightarrow> Inl (Transport e)
      | Responded st location (Inr body) \<Rightarrow>
          if 300 \<le> st \<and> st < 400
          then Inl (Endpoint st (''refused to follow a redirect to ''
                 @ (case location of Some l \<Rightarrow> truncate_for_log l | None \<Rightarrow> ''an unspecified location'')
                 @ ''; this request carries client_secret, so it is only ever sent to the configured authority host''))
          else if \<not> is_success st then Inl (Endpoint st (truncate_for_log body))
          else (case from_json body of
                  Inl e \<Rightarrow> Inl (Malformed e)
                | Inr response \<Rightarrow>
                    if trim (tr_access_token response) = []
                    then Inl (Malformed ''token endpoint returned an empty access_token'')
                    else Inr response))"

definition request_token :: "token_env \<Rightarrow> nat \<Rightarrow> EntraOauthConfig \<Rightarrow> (TokenError + TokenResponse) \<times> nat" where
  "request_token env n config =
     (case te_send env n (token_request config) of (reply, d) \<Rightarrow> (token_of_reply (te_json env) reply, d))"

definition publish :: "string \<Rightarrow> nat \<Rightarrow> nat \<Rightarrow> EntraTokenProvider \<Rightarrow> EntraTokenProvider" where
  "publish secret lifetime now p =
     (let generation = tp_generation p + 1; margin = eo_refresh_margin (tp_config p) in
      p\<lparr>tp_generation := generation,
        tp_token := \<lparr>ts_secret = secret, ts_expires_at = now + lifetime,
          ts_refresh_at = now + refresh_delay lifetime margin, ts_generation = generation,
          ts_max_connection_lifetime = max_connection_lifetime lifetime margin\<rparr>\<rparr>)"

text \<open>The result of attempt \<open>n\<close>, called at \<open>now\<close>, and when it is there.\<close>

definition refresh ::
  "token_env \<Rightarrow> nat \<Rightarrow> nat \<Rightarrow> EntraTokenProvider \<Rightarrow> (TokenError + EntraTokenProvider) \<times> nat" where
  "refresh env n now p =
     (case request_token env n (tp_config p) of
        (Inl e, d) \<Rightarrow> (Inl e, now + d)
      | (Inr response, d) \<Rightarrow>
          (case usable_token_lifetime (tr_expires_in response) of
             Inl e \<Rightarrow> (Inl e, now + d)
           | Inr lifetime \<Rightarrow> (Inr (publish (tr_access_token response) lifetime (now + d) p), now + d)))"

definition provider_new :: "EntraOauthConfig \<Rightarrow> nat \<Rightarrow> EntraTokenProvider" where
  "provider_new config now =
     \<lparr>tp_config = config,
      tp_token = \<lparr>ts_secret = [], ts_expires_at = now, ts_refresh_at = now, ts_generation = 0,
                  ts_max_connection_lifetime = 0\<rparr>,
      tp_generation = 0, tp_refresh_task_started = False\<rparr>"

text \<open>The first fetch, with the number of the next attempt and the time of the result.\<close>

partial_function (option) startup_loop ::
  "token_env \<Rightarrow> EntraTokenProvider \<Rightarrow> nat \<Rightarrow> nat \<Rightarrow> nat \<Rightarrow> nat
     \<Rightarrow> ((TokenError + EntraTokenProvider) \<times> nat \<times> nat) option" where
  "startup_loop env p deadline backoff n now =
     (case refresh env n now p of
        (Inr p', now1) \<Rightarrow> Some (Inr p', n + 1, now1)
      | (Inl e, now1) \<Rightarrow>
          if deadline \<le> now1 then Some (Inl e, n + 1, now1)
          else startup_loop env p deadline (min (backoff * 2) MAX_RETRY_BACKOFF) (n + 1)
                 (now1 + min backoff (deadline - now1)))"

definition provider_connect ::
  "token_env \<Rightarrow> EntraOauthConfig \<Rightarrow> nat \<Rightarrow> nat \<Rightarrow> nat \<Rightarrow> ((TokenError + EntraTokenProvider) \<times> nat \<times> nat) option" where
  "provider_connect env config startup_timeout n now =
     (case te_client_error env of
        Some e \<Rightarrow> Some (Inl (Transport e), n, now)
      | None \<Rightarrow>
          startup_loop env (provider_new config now) (now + min startup_timeout MAX_STARTUP_TIMEOUT)
            MIN_RETRY_BACKOFF n now)"

text \<open>Whether the call starts the loop, and the provider with the mark set.\<close>

definition spawn_refresh_task :: "EntraTokenProvider \<Rightarrow> bool \<times> EntraTokenProvider" where
  "spawn_refresh_task p = (\<not> tp_refresh_task_started p, p\<lparr>tp_refresh_task_started := True\<rparr>)"

text \<open>One turn of \<open>refresh_loop\<close>: the wait, and attempts until one succeeds.\<close>

partial_function (option) retry_refresh ::
  "token_env \<Rightarrow> EntraTokenProvider \<Rightarrow> nat \<Rightarrow> nat \<Rightarrow> nat \<Rightarrow> (EntraTokenProvider \<times> nat \<times> nat) option" where
  "retry_refresh env p backoff n now =
     (case refresh env n now p of
        (Inr p', now1) \<Rightarrow> Some (p', n + 1, now1)
      | (Inl e, now1) \<Rightarrow> retry_refresh env p (min (backoff * 2) MAX_RETRY_BACKOFF) (n + 1) (now1 + backoff))"

definition refresh_turn ::
  "token_env \<Rightarrow> EntraTokenProvider \<Rightarrow> nat \<Rightarrow> nat \<Rightarrow> (EntraTokenProvider \<times> nat \<times> nat) option" where
  "refresh_turn env p n now = retry_refresh env p MIN_RETRY_BACKOFF n (max now (ts_refresh_at (tp_token p)))"

text \<open>The process-wide cell: the outcome of the first call is kept, a failure too.\<close>

type_synonym provider_cell = "(string + EntraTokenProvider) option"

definition shared_entra_provider ::
  "token_env \<Rightarrow> EntraOauthConfig \<Rightarrow> nat \<Rightarrow> nat \<Rightarrow> nat \<Rightarrow> provider_cell
     \<Rightarrow> ((string + EntraTokenProvider) \<times> provider_cell \<times> nat \<times> nat) option" where
  "shared_entra_provider env config startup_timeout n now cell =
     (case cell of
        Some outcome \<Rightarrow> Some (outcome, cell, n, now)
      | None \<Rightarrow>
          map_option (\<lambda>(res, n', now'). let outcome = map_sum token_error_text id res in (outcome, Some outcome, n', now'))
            (provider_connect env config startup_timeout n now))"

section \<open>Connections\<close>

datatype RedisCredentials =
    Static "string option" "string option"
  | Oauth EntraTokenProvider

record TrackedConnection =
  tc_generation :: u64
  tc_token_expires_at :: "nat option"

definition should_retire_connection :: "RedisCredentials \<Rightarrow> u64 \<Rightarrow> bool" where
  "should_retire_connection credentials generation =
     (case credentials of
        Oauth provider \<Rightarrow> generation \<noteq> ts_generation (tp_token provider)
      | Static _ _ \<Rightarrow> False)"

text \<open>The username and the password of a new connection, and its tags; opening it is the client's.\<close>

definition manager_connect ::
  "(string option \<Rightarrow> string option \<Rightarrow> string + unit) \<Rightarrow> RedisCredentials \<Rightarrow> string + TrackedConnection" where
  "manager_connect open_connection credentials =
     (let (username, password, generation, token_expires_at) =
        (case credentials of
           Static username password \<Rightarrow> (username, password, 0, None)
         | Oauth provider \<Rightarrow>
             let token = tp_token provider
             in (eo_username (tp_config provider), Some (ts_secret token), ts_generation token, Some (ts_expires_at token)))
      in case open_connection username password of
           Inl e \<Rightarrow> Inl e
         | Inr _ \<Rightarrow> Inr \<lparr>tc_generation = generation, tc_token_expires_at = token_expires_at\<rparr>)"

definition is_valid :: "(TrackedConnection \<Rightarrow> string + unit) \<Rightarrow> nat \<Rightarrow> TrackedConnection \<Rightarrow> string + unit" where
  "is_valid ping now conn =
     (case tc_token_expires_at conn of
        Some expires_at \<Rightarrow>
          if is_token_expiring now expires_at TOKEN_HARD_EXPIRY_MARGIN
          then Inl ''Redis connection's Entra token has expired'' else ping conn
      | None \<Rightarrow> ping conn)"

definition has_broken :: "RedisCredentials \<Rightarrow> TrackedConnection \<Rightarrow> bool" where
  "has_broken credentials conn = should_retire_connection credentials (tc_generation conn)"

section \<open>Margins of an accepted lifetime\<close>

lemma token_times:
  "MIN_REFRESH_DELAY = 30 * 10 ^ 9" "MIN_RETRY_BACKOFF = 10 ^ 9" "MAX_RETRY_BACKOFF = 60 * 10 ^ 9"
  "MIN_USABLE_TOKEN_LIFETIME = 120 * 10 ^ 9" "MAX_STARTUP_TIMEOUT = 86400 * 10 ^ 9" "MAX_TOKEN_LIFETIME = 86400 * 10 ^ 9"
  "MIN_REFRESH_MARGIN = 60 * 10 ^ 9" "TOKEN_HARD_EXPIRY_MARGIN = 30 * 10 ^ 9" "MIN_CONNECTION_LIFETIME = 300 * 10 ^ 9"
  "TOKEN_REQUEST_TIMEOUT = 10 * 10 ^ 9"
  by (simp_all add: MIN_REFRESH_DELAY_def MIN_RETRY_BACKOFF_def MAX_RETRY_BACKOFF_def MIN_USABLE_TOKEN_LIFETIME_def
      MAX_STARTUP_TIMEOUT_def MAX_TOKEN_LIFETIME_def MIN_REFRESH_MARGIN_def TOKEN_HARD_EXPIRY_MARGIN_def
      MIN_CONNECTION_LIFETIME_def TOKEN_REQUEST_TIMEOUT_def from_secs_def)

lemma usable_lifetime:
  assumes "usable_token_lifetime e = Inr l"
  shows "120 * 10 ^ 9 \<le> l" "l \<le> 86400 * 10 ^ 9" "l \<le> from_secs e"
  using assms by (auto simp: usable_token_lifetime_def Let_def token_times split: if_splits)

lemma margin_bounds:
  assumes "120 * 10 ^ 9 \<le> l"
  shows "60 * 10 ^ 9 \<le> refresh_margin l m" "refresh_margin l m + 30 * 10 ^ 9 \<le> l"
  using assms by (auto simp: refresh_margin_def Let_def token_times min_def max_def)

lemma margin_honoured:
  assumes "60 * 10 ^ 9 \<le> c" "c + 30 * 10 ^ 9 \<le> l"
  shows "refresh_margin l (Some c) = c"
proof -
  have "min (30 * 10 ^ 9) (l div 2) = 30 * 10 ^ 9" using assms by simp
  then show ?thesis using assms by (simp add: refresh_margin_def configured_margin_fits_def Let_def token_times)
qed

lemma connection_lifetime_bounds:
  assumes "120 * 10 ^ 9 \<le> l"
  shows "0 < max_connection_lifetime l m" "max_connection_lifetime l m \<le> l div 2"
proof -
  have "10 ^ 9 \<le> l div 2" using assms by simp
  then show "0 < max_connection_lifetime l m" "max_connection_lifetime l m \<le> l div 2"
    by (auto simp: max_connection_lifetime_def Let_def token_times from_secs_def)
qed

text \<open>
  C30: for every lifetime that is accepted and every configured margin, the next token is minted at least a
  minute before the old one ends and at least 30 seconds after it was published, a configured margin that
  fits is kept, and the age limit of connections is neither zero nor above half of the lifetime.
\<close>

theorem token_times_bounded:
  assumes "usable_token_lifetime expires_in = Inr lifetime"
  shows "refresh_delay lifetime m + refresh_margin lifetime m = lifetime
    \<and> MIN_REFRESH_MARGIN \<le> refresh_margin lifetime m \<and> MIN_REFRESH_DELAY \<le> refresh_delay lifetime m
    \<and> lifetime \<le> from_secs expires_in
    \<and> (\<forall>c. m = Some c \<and> MIN_REFRESH_MARGIN \<le> c \<and> c + MIN_REFRESH_DELAY \<le> lifetime \<longrightarrow> refresh_margin lifetime m = c)
    \<and> 0 < max_connection_lifetime lifetime m \<and> max_connection_lifetime lifetime m \<le> lifetime div 2"
  using margin_bounds [of lifetime m] connection_lifetime_bounds [of lifetime m] margin_honoured [of _ lifetime]
    usable_lifetime [OF assms]
  by (auto simp: refresh_delay_def token_times)

theorem token_times_bounded_witness:
  "refresh_margin (from_secs 3600) (Some (from_secs 120)) = from_secs 120
     \<and> refresh_delay (from_secs 3600) (Some (from_secs 120)) = from_secs 3480"
proof -
  have u: "usable_token_lifetime 3600 = Inr (from_secs 3600)"
    by (simp add: usable_token_lifetime_def token_times from_secs_def)
  show ?thesis
    using token_times_bounded [OF u, of "Some (from_secs 120)"] by (auto simp: token_times from_secs_def)
qed

section \<open>Published tokens\<close>

definition token_ok :: "nat \<Rightarrow> TokenSnapshot \<Rightarrow> bool" where
  "token_ok t token \<longleftrightarrow>
     t + MIN_REFRESH_DELAY \<le> ts_refresh_at token \<and> ts_refresh_at token + MIN_REFRESH_MARGIN \<le> ts_expires_at token
     \<and> ts_expires_at token \<le> t + MAX_TOKEN_LIFETIME \<and> 0 < ts_max_connection_lifetime token"

definition mints :: "token_env \<Rightarrow> EntraOauthConfig \<Rightarrow> nat \<Rightarrow> bool" where
  "mints env config n \<longleftrightarrow>
     (case fst (request_token env n config) of
        Inl _ \<Rightarrow> False
      | Inr r \<Rightarrow> (case usable_token_lifetime (tr_expires_in r) of Inl _ \<Rightarrow> False | Inr _ \<Rightarrow> True))"

definition takes :: "token_env \<Rightarrow> EntraOauthConfig \<Rightarrow> nat \<Rightarrow> nat" where
  "takes env config n = snd (request_token env n config)"

lemma refresh_fails: "\<not> mints env (tp_config p) n \<Longrightarrow> \<exists>e. refresh env n now p = (Inl e, now + takes env (tp_config p) n)"
  by (auto simp: refresh_def mints_def takes_def split: prod.splits sum.splits)

lemma mintsE:
  assumes "mints env c n"
  obtains r l where "request_token env n c = (Inr r, takes env c n)" "usable_token_lifetime (tr_expires_in r) = Inr l"
  using assms by (auto simp: mints_def takes_def prod_eq_iff split: sum.splits)

lemma publish_ok:
  assumes "120 * 10 ^ 9 \<le> lifetime" "lifetime \<le> 86400 * 10 ^ 9"
  shows "token_ok t (tp_token (publish secret lifetime t p))"
  using margin_bounds [OF assms(1), of "eo_refresh_margin (tp_config p)"] assms connection_lifetime_bounds [OF assms(1)]
  by (auto simp: token_ok_def publish_def Let_def token_times refresh_delay_def)

lemma publish_simps [simp]:
  "tp_config (publish secret lifetime t p) = tp_config p"
  "ts_generation (tp_token (publish secret lifetime t p)) = tp_generation p + 1"
  "tp_generation (publish secret lifetime t p) = tp_generation p + 1"
  by (simp_all add: publish_def Let_def)

text \<open>A provider that published its token at \<open>t\<close>.\<close>

definition provider_ok :: "nat \<Rightarrow> EntraTokenProvider \<Rightarrow> bool" where
  "provider_ok t p \<longleftrightarrow> token_ok t (tp_token p) \<and> ts_generation (tp_token p) = tp_generation p"

lemma refresh_ok:
  assumes "mints env (tp_config p) n"
  obtains p' where "refresh env n now p = (Inr p', now + takes env (tp_config p) n)"
    "provider_ok (now + takes env (tp_config p) n) p'" "tp_config p' = tp_config p" "tp_generation p' = tp_generation p + 1"
proof -
  from assms obtain r l where r: "request_token env n (tp_config p) = (Inr r, takes env (tp_config p) n)"
      "usable_token_lifetime (tr_expires_in r) = Inr l" by (rule mintsE)
  let ?p = "publish (tr_access_token r) l (now + takes env (tp_config p) n) p"
  show thesis
  proof (rule that)
    show "refresh env n now p = (Inr ?p, now + takes env (tp_config p) n)" by (simp add: refresh_def r)
    show "provider_ok (now + takes env (tp_config p) n) ?p"
      using publish_ok [OF usable_lifetime(1,2) [OF r(2)]] by (simp add: provider_ok_def)
  qed simp_all
qed

section \<open>The first token\<close>

lemma provider_new_simps [simp]: "tp_config (provider_new config now) = config" "tp_generation (provider_new config now) = 0"
  by (simp_all add: provider_new_def)

lemma startup_loop_ends:
  assumes "10 ^ 9 \<le> backoff"
  shows "\<exists>res n' t. startup_loop env p deadline backoff n now = Some (res, n', t) \<and> n < n' \<and> now \<le> t
    \<and> (n' - n - 1) * 10 ^ 9 < deadline - now + 10 ^ 9
    \<and> (\<forall>i. n \<le> i \<and> i + 1 < n' \<longrightarrow> \<not> mints env (tp_config p) i)
    \<and> (case res of
         Inl e \<Rightarrow> deadline \<le> t \<and> \<not> mints env (tp_config p) (n' - 1)
       | Inr p' \<Rightarrow> provider_ok t p' \<and> tp_config p' = tp_config p \<and> tp_generation p' = tp_generation p + 1)"
  using assms
proof (induction "deadline - now" arbitrary: backoff n now rule: less_induct)
  case less
  let ?t = "now + takes env (tp_config p) n" and ?b = "min (backoff * 2) MAX_RETRY_BACKOFF"
  show ?case
  proof (cases "mints env (tp_config p) n")
    case True
    from refresh_ok [OF True, of now] obtain p' where "refresh env n now p = (Inr p', ?t)" and
      *: "provider_ok ?t p'" "tp_config p' = tp_config p" "tp_generation p' = tp_generation p + 1" .
    then have "startup_loop env p deadline backoff n now = Some (Inr p', n + 1, ?t)"
      by (subst startup_loop.simps) simp
    then show ?thesis using * by auto
  next
    case False
    then obtain e where r: "refresh env n now p = (Inl e, ?t)" using refresh_fails by blast
    show ?thesis
    proof (cases "deadline \<le> ?t")
      case True
      then have "startup_loop env p deadline backoff n now = Some (Inl e, n + 1, ?t)"
        by (subst startup_loop.simps) (simp add: r)
      then show ?thesis using False True by auto
    next
      case later: False
      let ?s = "?t + min backoff (deadline - ?t)"
      have "startup_loop env p deadline backoff n now = startup_loop env p deadline ?b (n + 1) ?s"
        using later by (subst startup_loop.simps) (simp add: r)
      note same = this
      have "deadline - ?s < deadline - now" "10 ^ 9 \<le> ?b"
        using later less.prems by (auto simp: token_times)
      from less.hyps [OF this, where n = "n + 1"]
      obtain res n' t where *: "startup_loop env p deadline ?b (n + 1) ?s = Some (res, n', t)" "n + 1 < n'" "?s \<le> t"
        "(n' - (n + 1) - 1) * 10 ^ 9 < deadline - ?s + 10 ^ 9" "\<forall>i. n + 1 \<le> i \<and> i + 1 < n' \<longrightarrow> \<not> mints env (tp_config p) i"
        "case res of Inl e \<Rightarrow> deadline \<le> t \<and> \<not> mints env (tp_config p) (n' - 1)
          | Inr p' \<Rightarrow> provider_ok t p' \<and> tp_config p' = tp_config p \<and> tp_generation p' = tp_generation p + 1"
        by blast
      show ?thesis unfolding same
      proof (intro exI conjI)
        show "startup_loop env p deadline ?b (n + 1) ?s = Some (res, n', t)" by (rule *(1))
        show "n < n'" "now \<le> t" using *(2,3) by linarith+
        obtain m where "n' = n + 2 + m" using *(2) le_Suc_ex [of "n + 2" n'] by auto
        then show "(n' - n - 1) * 10 ^ 9 < deadline - now + 10 ^ 9"
          using *(4) later less.prems by (cases "backoff \<le> deadline - ?t") auto
        show "\<forall>i. n \<le> i \<and> i + 1 < n' \<longrightarrow> \<not> mints env (tp_config p) i"
          using *(5) False by (metis Suc_eq_plus1 Suc_leI le_neq_implies_less)
      qed (rule *(6))
    qed
  qed
qed


section \<open>Rotation\<close>

text \<open>The time from the first attempt to the reply of the \<open>k\<close>-th after it, when all before it fail.\<close>

fun outage :: "token_env \<Rightarrow> EntraOauthConfig \<Rightarrow> nat \<Rightarrow> nat \<Rightarrow> nat \<Rightarrow> nat" where
  "outage env config backoff n 0 = takes env config n"
| "outage env config backoff n (Suc k) =
     takes env config n + backoff + outage env config (min (backoff * 2) MAX_RETRY_BACKOFF) (n + 1) k"

definition recovers_within :: "token_env \<Rightarrow> EntraOauthConfig \<Rightarrow> nat \<Rightarrow> nat \<Rightarrow> bool" where
  "recovers_within env config limit n \<longleftrightarrow>
     (\<exists>k. (\<forall>i<k. \<not> mints env config (n + i)) \<and> mints env config (n + k)
        \<and> outage env config MIN_RETRY_BACKOFF n k < limit)"

lemma retry_refresh_publishes:
  assumes "\<forall>i<k. \<not> mints env (tp_config p) (n + i)" "mints env (tp_config p) (n + k)"
  shows "\<exists>p'. retry_refresh env p backoff n now
        = Some (p', n + k + 1, now + outage env (tp_config p) backoff n k)
    \<and> provider_ok (now + outage env (tp_config p) backoff n k) p' \<and> tp_config p' = tp_config p
    \<and> tp_generation p' = tp_generation p + 1"
  using assms
proof (induction k arbitrary: n backoff now)
  case 0
  then have "mints env (tp_config p) n" by simp
  from refresh_ok [OF this, of now] show ?case by (subst retry_refresh.simps) fastforce
next
  case (Suc k)
  let ?t = "now + takes env (tp_config p) n" and ?b = "min (backoff * 2) MAX_RETRY_BACKOFF"
  have "\<not> mints env (tp_config p) n" using Suc.prems(1) by (auto dest: spec [of _ 0])
  then obtain e where "refresh env n now p = (Inl e, ?t)" using refresh_fails by blast
  then have "retry_refresh env p backoff n now = retry_refresh env p ?b (n + 1) (?t + backoff)"
    by (subst retry_refresh.simps) simp
  moreover have "\<forall>i<k. \<not> mints env (tp_config p) (n + 1 + i)" "mints env (tp_config p) (n + 1 + k)"
    using Suc.prems by (auto dest: spec [of _ "Suc _"])
  ultimately show ?case using Suc.IH [of "n + 1" ?b "?t + backoff"] by (simp add: ac_simps)
qed

text \<open>The providers of a number of turns of the loop, each with the time its token is replaced.\<close>

fun refresh_turns ::
  "token_env \<Rightarrow> nat \<Rightarrow> EntraTokenProvider \<Rightarrow> nat \<Rightarrow> nat
     \<Rightarrow> ((EntraTokenProvider \<times> nat) list \<times> EntraTokenProvider \<times> nat \<times> nat) option" where
  "refresh_turns env 0 p n now = Some ([], p, n, now)"
| "refresh_turns env (Suc k) p n now =
     Option.bind (refresh_turn env p n now) (\<lambda>(p', n', now').
       map_option (\<lambda>(h, r). ((p, now') # h, r)) (refresh_turns env k p' n' now'))"

text \<open>Until \<open>t\<close> a connection opened with the token of \<open>p\<close> is handed out whenever it answers.\<close>

definition serves_until :: "EntraTokenProvider \<Rightarrow> nat \<Rightarrow> bool" where
  "serves_until p t \<longleftrightarrow>
     (\<forall>opn ping conn t'. manager_connect opn (Oauth p) = Inr conn \<longrightarrow> t' \<le> t \<longrightarrow> is_valid ping t' conn = ping conn)"

lemma serves_untilI:
  assumes "t + TOKEN_HARD_EXPIRY_MARGIN < ts_expires_at (tp_token p)"
  shows "serves_until p t"
  using assms
  by (auto simp: serves_until_def manager_connect_def Let_def is_valid_def is_token_expiring_def split: sum.splits)

lemma refresh_turn_serves:
  assumes "provider_ok t0 p" and "now \<le> ts_refresh_at (tp_token p)"
    and "recovers_within env (tp_config p) (MIN_REFRESH_MARGIN - TOKEN_HARD_EXPIRY_MARGIN) n"
  obtains p' n' now' where "refresh_turn env p n now = Some (p', n', now')" "provider_ok now' p'" "tp_config p' = tp_config p"
    "tp_generation p' = tp_generation p + 1" "serves_until p now'"
proof -
  from assms(3) obtain k where k: "\<forall>i<k. \<not> mints env (tp_config p) (n + i)" "mints env (tp_config p) (n + k)"
    "outage env (tp_config p) MIN_RETRY_BACKOFF n k < MIN_REFRESH_MARGIN - TOKEN_HARD_EXPIRY_MARGIN"
    by (auto simp: recovers_within_def)
  let ?t = "ts_refresh_at (tp_token p) + outage env (tp_config p) MIN_RETRY_BACKOFF n k"
  have "serves_until p ?t"
    using assms(1) k(3) by (intro serves_untilI) (auto simp: provider_ok_def token_ok_def token_times)
  then show thesis
    using retry_refresh_publishes [OF k(1,2), of MIN_RETRY_BACKOFF "ts_refresh_at (tp_token p)"] that assms(2)
    by (auto simp: refresh_turn_def max_absorb2)
qed

lemma refresh_turns_serve:
  assumes "provider_ok t0 p" and "now \<le> ts_refresh_at (tp_token p)"
    and "\<And>n. recovers_within env (tp_config p) (MIN_REFRESH_MARGIN - TOKEN_HARD_EXPIRY_MARGIN) n"
  shows "\<exists>h p' n' now'. refresh_turns env k p n now = Some (h, p', n', now')
    \<and> list_all (\<lambda>(q, t). serves_until q t) h
    \<and> map (\<lambda>(q, t). tp_generation q) h = map (\<lambda>i. tp_generation p + of_nat i) [0..<k]
    \<and> list_all (\<lambda>(q, t). ts_generation (tp_token q) = tp_generation q) h
    \<and> (\<exists>t. provider_ok t p') \<and> tp_generation p' = tp_generation p + of_nat k"
  using assms
proof (induction k arbitrary: p n now t0)
  case 0
  then show ?case by auto
next
  case (Suc k)
  obtain p' n' now' where t: "refresh_turn env p n now = Some (p', n', now')" "provider_ok now' p'" "tp_config p' = tp_config p"
    "tp_generation p' = tp_generation p + 1" "serves_until p now'"
    using refresh_turn_serves [OF Suc.prems] by metis
  have "now' \<le> ts_refresh_at (tp_token p')" using t(2) by (auto simp: provider_ok_def token_ok_def)
  from Suc.IH [OF t(2) this Suc.prems(3) [folded t(3)], of n'] obtain h p2 n2 now2 where
    r: "refresh_turns env k p' n' now' = Some (h, p2, n2, now2)" "list_all (\<lambda>(q, t). serves_until q t) h"
    "map (\<lambda>(q, t). tp_generation q) h = map (\<lambda>i. tp_generation p' + of_nat i) [0..<k]"
    "list_all (\<lambda>(q, t). ts_generation (tp_token q) = tp_generation q) h"
    "\<exists>t. provider_ok t p2" "tp_generation p2 = tp_generation p' + of_nat k"
    by blast
  have "map (\<lambda>(q, t). tp_generation q) ((p, now') # h) = map (\<lambda>i. tp_generation p + of_nat i) [0..<Suc k]"
    by (simp only: map_upt_Suc r(3) t(4) list.map(2) prod.case of_nat_Suc add.assoc) simp
  moreover have "refresh_turns env (Suc k) p n now = Some ((p, now') # h, p2, n2, now2)" by (simp add: t(1) r(1))
  moreover have "tp_generation p2 = tp_generation p + of_nat (Suc k)" using r(6) t(4) by simp
  moreover have "list_all (\<lambda>(q, t). ts_generation (tp_token q) = tp_generation q) ((p, now') # h)"
    using Suc.prems(1) r(4) by (simp add: provider_ok_def)
  moreover have "list_all (\<lambda>(q, t). serves_until q t) ((p, now') # h)" using t(5) r(2) by simp
  ultimately show ?case using r(5) by blast
qed

lemma connect_returns: "\<exists>r. provider_connect env config startup_timeout n now = Some r"
proof -
  have "10 ^ 9 \<le> MIN_RETRY_BACKOFF" by (simp add: token_times)
  from startup_loop_ends [OF this, where env = env and p = "provider_new config now" and n = n and now = now
      and deadline = "now + min startup_timeout MAX_STARTUP_TIMEOUT"]
  show ?thesis by (auto simp: provider_connect_def split: option.splits)
qed

lemma connect_publishes:
  assumes "provider_connect env config startup_timeout n now = Some (Inr p, n', t)"
  shows "provider_ok t p" "tp_config p = config"
proof -
  have "10 ^ 9 \<le> MIN_RETRY_BACKOFF" by (simp add: token_times)
  from startup_loop_ends [OF this, where env = env and p = "provider_new config now" and n = n and now = now
      and deadline = "now + min startup_timeout MAX_STARTUP_TIMEOUT"]
  show "provider_ok t p" "tp_config p = config"
    using assms by (auto simp: provider_connect_def split: option.splits)
qed

text \<open>A request that times out is survived: one failed attempt in two does not use up the margin.\<close>

lemma one_failure_survived:
  assumes "\<And>n. takes env config n \<le> TOKEN_REQUEST_TIMEOUT" and "mints env config n \<or> mints env config (n + 1)"
  shows "recovers_within env config (MIN_REFRESH_MARGIN - TOKEN_HARD_EXPIRY_MARGIN) n"
proof (cases "mints env config n")
  case True
  then show ?thesis
    using assms(1) [of n] by (auto simp: recovers_within_def token_times intro!: exI [of _ 0])
next
  case False
  then show ?thesis
    using assms(1) [of n] assms(1) [of "Suc n"] assms(2)
    by (auto simp: recovers_within_def token_times less_Suc_eq intro!: exI [of _ 1])
qed

lemma connection_generation:
  "manager_connect opn (Oauth p) = Inr conn \<Longrightarrow> tc_generation conn = ts_generation (tp_token p)"
  by (auto simp: manager_connect_def Let_def split: sum.splits)

text \<open>
  C16: once a first token was fetched, and when the loop starts before the time to replace it and an outage of
  the endpoint never lasts 30 seconds from the time to replace a token, the loop goes on for any number of
  turns, and no token lapses: a connection that was opened with a token is handed out whenever it answers, up
  to the moment its successor is published. At its next return after that the connection is retired, and not
  before.
\<close>

theorem token_rotation_seamless:
  assumes "provider_connect env config startup_timeout n now = Some (Inr p, n1, t1)"
    and "start \<le> ts_refresh_at (tp_token p)"
    and "\<forall>i. recovers_within env config (MIN_REFRESH_MARGIN - TOKEN_HARD_EXPIRY_MARGIN) i" and "k < 2 ^ 64"
  shows "\<exists>h p' n' now'. refresh_turns env k p n1 start = Some (h, p', n', now') \<and> length h = k
    \<and> (\<forall>(q, t) \<in> set h. serves_until q t
         \<and> (\<forall>opn conn. manager_connect opn (Oauth q) = Inr conn \<longrightarrow>
              has_broken (Oauth p') conn \<and> \<not> has_broken (Oauth q) conn))"
proof -
  note p = connect_publishes [OF assms(1)]
  have "recovers_within env (tp_config p) (MIN_REFRESH_MARGIN - TOKEN_HARD_EXPIRY_MARGIN) i" for i
    using assms(3) by (simp add: p(2))
  from refresh_turns_serve [OF p(1) assms(2) this, of k n1] obtain h p' n' now' where
    r: "refresh_turns env k p n1 start = Some (h, p', n', now')" "list_all (\<lambda>(q, t). serves_until q t) h"
    "map (\<lambda>(q, t). tp_generation q) h = map (\<lambda>i. tp_generation p + of_nat i) [0..<k]"
    "list_all (\<lambda>(q, t). ts_generation (tp_token q) = tp_generation q) h"
    "\<exists>t. provider_ok t p'" "tp_generation p' = tp_generation p + of_nat k"
    by blast
  have "tp_generation q \<noteq> tp_generation p'" if "(q, t) \<in> set h" for q t
  proof -
    have "tp_generation q \<in> set (map (\<lambda>(q, t). tp_generation q) h)" using that by force
    then obtain i where "i < k" "tp_generation q = tp_generation p + of_nat i" unfolding r(3) by auto
    moreover have "of_nat i \<noteq> (of_nat k :: u64)"
      using \<open>i < k\<close> assms(4) by (simp add: word_of_nat_eq_iff take_bit_nat_eq_self)
    ultimately show ?thesis using r(6) by simp
  qed
  then have "\<forall>(q, t) \<in> set h. serves_until q t \<and> (\<forall>opn conn. manager_connect opn (Oauth q) = Inr conn \<longrightarrow>
      has_broken (Oauth p') conn \<and> \<not> has_broken (Oauth q) conn)"
    using r(2,4,5) by (fastforce simp: list_all_iff has_broken_def should_retire_connection_def provider_ok_def
        dest: connection_generation)
  moreover have "length h = k" using arg_cong [OF r(3), of length] by simp
  ultimately show ?thesis using r(1) by blast
qed

definition sample_oauth :: EntraOauthConfig where
  "sample_oauth =
     \<lparr>eo_tenant_id = ''tenant'', eo_client_id = ''client'', eo_client_secret = ''secret'', eo_scope = ''scope'',
      eo_username = None, eo_refresh_margin = None, eo_authority_host = DEFAULT_ENTRA_AUTHORITY_HOST\<rparr>"

text \<open>An endpoint that times out on every second request.\<close>

definition flaky_endpoint :: token_env where
  "flaky_endpoint =
     \<lparr>te_client_error = None,
      te_send = (\<lambda>n _. if even n then (SendFailed ''timeout'', from_secs 10) else (Responded 200 None (Inr ''{}''), from_secs 2)),
      te_json = (\<lambda>_. Inr \<lparr>tr_access_token = ''token'', tr_expires_in = 3600\<rparr>)\<rparr>"

lemma flaky_request:
  "request_token flaky_endpoint n config
     = (if even n then (Inl (Transport ''timeout''), from_secs 10)
        else (Inr \<lparr>tr_access_token = ''token'', tr_expires_in = 3600\<rparr>, from_secs 2))"
  by (simp add: request_token_def flaky_endpoint_def token_of_reply_def is_success_def) code_simp

lemma usable_hour: "usable_token_lifetime 3600 = Inr (from_secs 3600)"
  by (simp add: usable_token_lifetime_def token_times from_secs_def)

lemma flaky_mints [simp]: "mints flaky_endpoint config n \<longleftrightarrow> odd n"
  by (simp add: mints_def flaky_request usable_hour)

lemma flaky_connect:
  "provider_connect flaky_endpoint sample_oauth (from_secs 30) 0 0
     = Some (Inr (publish ''token'' (from_secs 3600) (from_secs 13) (provider_new sample_oauth 0)), 2, from_secs 13)"
  by (simp add: provider_connect_def flaky_endpoint_def startup_loop.simps refresh_def flaky_request [unfolded flaky_endpoint_def]
      usable_hour from_secs_def token_times)

theorem token_rotation_seamless_witness:
  "\<exists>h p' n' now'. refresh_turns flaky_endpoint 3
       (publish ''token'' (from_secs 3600) (from_secs 13) (provider_new sample_oauth 0)) 2 (from_secs 20)
         = Some (h, p', n', now') \<and> length h = 3 \<and> (\<forall>(q, t) \<in> set h. serves_until q t)"
proof -
  have "recovers_within flaky_endpoint sample_oauth (MIN_REFRESH_MARGIN - TOKEN_HARD_EXPIRY_MARGIN) i" for i
    by (rule one_failure_survived) (auto simp: takes_def flaky_request token_times from_secs_def)
  moreover have "from_secs 20 \<le> ts_refresh_at (tp_token (publish ''token'' (from_secs 3600) (from_secs 13) (provider_new sample_oauth 0)))"
    by (simp add: publish_def Let_def refresh_delay_def refresh_margin_def DEFAULT_REFRESH_MARGIN_DIVISOR_def provider_new_def
        sample_oauth_def token_times from_secs_def)
  ultimately show ?thesis
    using token_rotation_seamless [OF flaky_connect, of "from_secs 20" 3] by fastforce
qed

end
