(* ===== verification/RedisPool.thy ===== *)
theory RedisPool
  imports TokenLifecycle
begin

text \<open>
  Building the pool of Redis connections from the environment: \<open>datastore/caching/redis_pool.rs\<close>.

  Reading the environment into a \<open>RedisEnvConfig\<close> and parsing a Redis URI are of third-party crates, as
  is building the pool, which is the argument \<open>build\<close>. Warnings that are only printed are left out.
\<close>

section \<open>Configuration\<close>

datatype RedisPoolError =
    InvalidPort
  | MalformedConfig string
  | MalformedUri string
  | OauthToken string
  | Build string

fun pool_error_text :: "RedisPoolError \<Rightarrow> string" where
  "pool_error_text InvalidPort = ''Invalid REDIS_ENTERPRISE_PORT''"
| "pool_error_text (MalformedConfig e) = e"
| "pool_error_text (MalformedUri e) = e"
| "pool_error_text (OauthToken e) = e"
| "pool_error_text (Build e) = e"

record RedisEnvConfig =
  re_user :: "string option"
  re_password :: "string option"
  re_host :: string
  re_port :: string
  re_pool_max_size :: "u32 option"
  re_pool_min_size :: "u32 option"
  re_memorystore :: "bool option"
  re_tls :: "bool option"
  re_key_prefix :: "string option"
  re_auth_mode :: "string option"
  re_oauth_tenant_id :: "string option"
  re_oauth_client_id :: "string option"
  re_oauth_client_secret :: "string option"
  re_oauth_scope :: "string option"
  re_oauth_username :: "string option"
  re_oauth_refresh_margin_in_s :: "string option"
  re_oauth_authority_host :: "string option"
  re_oauth_allow_plaintext :: "string option"

datatype RedisAuthMode = PasswordMode | OauthMode

definition quoted :: "string \<Rightarrow> string" where
  "quoted s = CHR 0x27 # s @ [CHR 0x27]"

definition parse_auth_mode :: "string option \<Rightarrow> string + RedisAuthMode" where
  "parse_auth_mode raw =
     (case map_option (\<lambda>mode. to_ascii_lowercase (trim mode)) raw of
        None \<Rightarrow> Inr PasswordMode
      | Some mode \<Rightarrow>
          if mode = [] \<or> mode = ''password'' then Inr PasswordMode
          else if mode = ''oauth'' then Inr OauthMode
          else Inl (''Unsupported REDIS_AUTH_MODE '' @ quoted mode @ ''. Expected '' @ quoted ''password'' @ '' or ''
                    @ quoted ''oauth'' @ ''.''))"

definition min_idle_is_too_low_for_oauth :: "u32 \<Rightarrow> u32 \<Rightarrow> bool" where
  "min_idle_is_too_low_for_oauth min_idle max_size \<longleftrightarrow> min_idle * 2 < max_size"

definition oauth_transport_is_plaintext :: "RedisEnvConfig \<Rightarrow> bool" where
  "oauth_transport_is_plaintext config \<longleftrightarrow> \<not> (case re_tls config of Some b \<Rightarrow> b | None \<Rightarrow> False)"

definition trimmed_or_default :: "string option \<Rightarrow> string" where
  "trimmed_or_default v = trim (case v of Some s \<Rightarrow> s | None \<Rightarrow> [])"

definition trimmed_non_empty :: "string option \<Rightarrow> string option" where
  "trimmed_non_empty v = (case v of Some s \<Rightarrow> if trim s = [] then None else Some (trim s) | None \<Rightarrow> None)"

definition oauth_seconds_from_env :: "string \<Rightarrow> string option \<Rightarrow> string + u64 option" where
  "oauth_seconds_from_env name raw =
     (case trimmed_non_empty raw of
        None \<Rightarrow> Inr None
      | Some v \<Rightarrow>
          (case parse_u64 v of
             Some n \<Rightarrow> Inr (Some n)
           | None \<Rightarrow> Inl (name @ '' must be a whole number of seconds, got '' @ quoted v)))"

definition oauth_flag_from_env :: "string \<Rightarrow> string option \<Rightarrow> string + bool option" where
  "oauth_flag_from_env name raw =
     (case trimmed_non_empty raw of
        None \<Rightarrow> Inr None
      | Some v \<Rightarrow>
          let low = to_ascii_lowercase v in
          if low \<in> {''true'', ''1'', ''yes''} then Inr (Some True)
          else if low \<in> {''false'', ''0'', ''no''} then Inr (Some False)
          else Inl (name @ '' must be true or false, got '' @ quoted v))"

definition is_secure_authority_host :: "string \<Rightarrow> bool" where
  "is_secure_authority_host host \<longleftrightarrow> starts_with (to_ascii_lowercase (trim host)) ''https://''"

definition missing_settings :: "RedisEnvConfig \<Rightarrow> string list" where
  "missing_settings config =
     map fst (filter (\<lambda>(name, v). case v of None \<Rightarrow> True | Some s \<Rightarrow> trim s = [])
       [(''REDIS_OAUTH_TENANT_ID'', re_oauth_tenant_id config), (''REDIS_OAUTH_CLIENT_ID'', re_oauth_client_id config),
        (''REDIS_OAUTH_CLIENT_SECRET'', re_oauth_client_secret config), (''REDIS_OAUTH_SCOPE'', re_oauth_scope config)])"

definition plaintext_refused :: string where
  "plaintext_refused =
     ''REDIS_AUTH_MODE=oauth requires REDIS_TLS=true. The Entra access token is sent to Redis as the AUTH password, so without TLS it crosses the network in cleartext on every handshake. If another layer already encrypts the connection, such as a TLS-terminating sidecar reached over loopback, set REDIS_OAUTH_ALLOW_PLAINTEXT=true to acknowledge that.''"

definition authority_host_of :: "RedisEnvConfig \<Rightarrow> string" where
  "authority_host_of config =
     (case trimmed_non_empty (re_oauth_authority_host config) of Some host \<Rightarrow> host | None \<Rightarrow> DEFAULT_ENTRA_AUTHORITY_HOST)"

definition entra_config_from_env :: "RedisEnvConfig \<Rightarrow> string + EntraOauthConfig" where
  "entra_config_from_env config =
     (if missing_settings config \<noteq> []
      then Inl (''REDIS_AUTH_MODE=oauth requires '' @ join '', '' (missing_settings config))
      else case oauth_flag_from_env ''REDIS_OAUTH_ALLOW_PLAINTEXT'' (re_oauth_allow_plaintext config) of
        Inl e \<Rightarrow> Inl e
      | Inr flag \<Rightarrow>
          if oauth_transport_is_plaintext config \<and> flag \<noteq> Some True then Inl plaintext_refused
          else
            let authority_host = authority_host_of config in
            if \<not> is_secure_authority_host authority_host
            then Inl (''REDIS_OAUTH_AUTHORITY_HOST must be an https:// URL, got '' @ quoted authority_host
                   @ ''. The client secret and the returned access token are sent to this host.'')
            else case oauth_seconds_from_env ''REDIS_OAUTH_REFRESH_MARGIN_IN_S'' (re_oauth_refresh_margin_in_s config) of
                Inl e \<Rightarrow> Inl e
              | Inr secs \<Rightarrow>
                  let margin = map_option from_secs secs in
                  if (case margin of Some m \<Rightarrow> m < MIN_REFRESH_MARGIN | None \<Rightarrow> False)
                  then Inl (''REDIS_OAUTH_REFRESH_MARGIN_IN_S must be at least '' @ show_nat (MIN_REFRESH_MARGIN div 10 ^ 9)
                         @ '', got '' @ show_u64 (the secs) @ ''. A smaller margin mints the next token only once connections are already being refused for being too close to expiry.'')
                  else Inr
                    \<lparr>eo_tenant_id = trimmed_or_default (re_oauth_tenant_id config),
                     eo_client_id = trimmed_or_default (re_oauth_client_id config),
                     eo_client_secret = trimmed_or_default (re_oauth_client_secret config),
                     eo_scope = trimmed_or_default (re_oauth_scope config),
                     eo_username = trimmed_non_empty (re_oauth_username config),
                     eo_refresh_margin = margin, eo_authority_host = authority_host\<rparr>)"

text \<open>redis-rs sends \<open>AUTH\<close> only when there is a password, so a user without one gets the empty password.\<close>

definition resolve_redis_auth :: "string \<Rightarrow> string option \<Rightarrow> string option \<times> string option" where
  "resolve_redis_auth user configured =
     (if user = [] then None else Some user,
      case configured of
        Some password \<Rightarrow> Some password
      | None \<Rightarrow> if user = [] then None else Some [])"

definition env_key_prefix :: "RedisEnvConfig \<Rightarrow> string" where
  "env_key_prefix config = (case re_key_prefix config of Some p \<Rightarrow> p | None \<Rightarrow> [])"

section \<open>Building a pool\<close>

datatype ConnectionAddr = Tcp string nat | TcpTls string nat bool | UnixAddr string

record pool_options =
  po_connection_timeout :: nat
  po_retry_connection :: bool
  po_max_size :: u32
  po_min_idle :: u32
  po_max_lifetime :: "nat option"
  po_addr :: ConnectionAddr
  po_credentials :: RedisCredentials

fun uses_tls :: "ConnectionAddr \<Rightarrow> bool" where
  "uses_tls (TcpTls _ _ _) = True"
| "uses_tls _ = False"

definition pool_addr :: "RedisEnvConfig \<Rightarrow> ConnectionAddr option \<Rightarrow> RedisPoolError + ConnectionAddr" where
  "pool_addr config address_override =
     (case address_override of
        Some addr \<Rightarrow> Inr addr
      | None \<Rightarrow>
          (case parse_uint 16 (re_port config) of
             None \<Rightarrow> Inl InvalidPort
           | Some port \<Rightarrow>
               Inr (if re_tls config = Some True then TcpTls (re_host config) port False else Tcp (re_host config) port)))"

definition configured_user :: "RedisEnvConfig \<Rightarrow> string" where
  "configured_user config = (case re_user config of Some u \<Rightarrow> u | None \<Rightarrow> [])"

text \<open>
  The cell of the shared provider, the number of the next token request and the clock are threaded. A pool
  in OAuth mode starts the refresh task of the shared provider, at most once; the flag says whether it did.
\<close>

definition pool_credentials ::
  "token_env \<Rightarrow> RedisEnvConfig \<Rightarrow> ConnectionAddr \<Rightarrow> RedisAuthMode \<Rightarrow> nat \<Rightarrow> nat \<Rightarrow> nat \<Rightarrow> provider_cell
     \<Rightarrow> ((RedisPoolError + RedisCredentials) \<times> provider_cell \<times> nat \<times> nat) option" where
  "pool_credentials env config addr auth_mode timeout n now cell =
     (case auth_mode of
        PasswordMode \<Rightarrow>
          let user = configured_user config;
              (username, password) = resolve_redis_auth user (re_password config)
          in Some (Inr (Static username password), cell, n, now)
      | OauthMode \<Rightarrow>
          (case entra_config_from_env (config\<lparr>re_tls := Some (uses_tls addr)\<rparr>) of
             Inl e \<Rightarrow> Some (Inl (MalformedConfig e), cell, n, now)
           | Inr oauth_config \<Rightarrow>
               map_option (\<lambda>(outcome, rest). (map_sum OauthToken Oauth outcome, rest))
                 (shared_entra_provider env oauth_config timeout n now cell)))"

definition pool_opts :: "RedisEnvConfig \<Rightarrow> u64 \<Rightarrow> ConnectionAddr \<Rightarrow> RedisCredentials \<Rightarrow> pool_options" where
  "pool_opts config timeout_in_s addr credentials =
     \<lparr>po_connection_timeout = from_secs timeout_in_s, po_retry_connection = True,
      po_max_size = (case re_pool_max_size config of Some k \<Rightarrow> k | None \<Rightarrow> 10),
      po_min_idle = (case re_pool_min_size config of Some k \<Rightarrow> k | None \<Rightarrow> 1),
      po_max_lifetime =
        (case credentials of
           Oauth provider \<Rightarrow> Some (ts_max_connection_lifetime (tp_token provider))
         | Static _ _ \<Rightarrow> None),
      po_addr = addr, po_credentials = credentials\<rparr>"

lemma pool_opts_simps [simp]:
  "po_addr (pool_opts config timeout addr cr) = addr" "po_credentials (pool_opts config timeout addr cr) = cr"
  by (simp_all add: pool_opts_def)

definition create_redis_pool_at ::
  "token_env \<Rightarrow> (pool_options \<Rightarrow> string + 'pool) \<Rightarrow> RedisEnvConfig \<Rightarrow> u64 \<Rightarrow> ConnectionAddr option \<Rightarrow> nat \<Rightarrow> nat
     \<Rightarrow> provider_cell \<Rightarrow> ((RedisPoolError + 'pool) \<times> bool \<times> provider_cell \<times> nat \<times> nat) option" where
  "create_redis_pool_at env build config timeout_in_s address_override n now cell =
     (case parse_auth_mode (re_auth_mode config) of
        Inl e \<Rightarrow> Some (Inl (MalformedConfig e), False, cell, n, now)
      | Inr auth_mode \<Rightarrow>
          (case pool_addr config address_override of
             Inl e \<Rightarrow> Some (Inl e, False, cell, n, now)
           | Inr addr \<Rightarrow>
               Option.bind (pool_credentials env config addr auth_mode (from_secs timeout_in_s) n now cell)
                 (\<lambda>(res, cell', n', now').
                    case res of
                      Inl e \<Rightarrow> Some (Inl e, False, cell', n', now')
                    | Inr credentials \<Rightarrow>
                        (case build (pool_opts config timeout_in_s addr credentials) of
                           Inl e \<Rightarrow> Some (Inl (Build e), False, cell', n', now')
                         | Inr pool \<Rightarrow>
                             (case credentials of
                                Static _ _ \<Rightarrow> Some (Inr pool, False, cell', n', now')
                              | Oauth provider \<Rightarrow>
                                  Some (Inr pool, fst (spawn_refresh_task provider),
                                        map_option (map_sum id (\<lambda>p. snd (spawn_refresh_task p))) cell', n', now'))))))"

definition create_redis_pool ::
  "token_env \<Rightarrow> (pool_options \<Rightarrow> string + 'pool) \<Rightarrow> RedisEnvConfig \<Rightarrow> u64 \<Rightarrow> nat \<Rightarrow> nat
     \<Rightarrow> provider_cell \<Rightarrow> ((RedisPoolError + 'pool) \<times> bool \<times> provider_cell \<times> nat \<times> nat) option" where
  "create_redis_pool env build config timeout_in_s = create_redis_pool_at env build config timeout_in_s None"

definition redis_address_from_uri :: "(string \<Rightarrow> string + ConnectionAddr) \<Rightarrow> string \<Rightarrow> RedisPoolError + ConnectionAddr" where
  "redis_address_from_uri into_connection_info uri =
     map_sum (\<lambda>e. MalformedUri (''Invalid IDLIST_REDIS_READ_URI: '' @ e)) id (into_connection_info uri)"

definition create_redis_pool_from_env ::
  "token_env \<Rightarrow> (pool_options \<Rightarrow> string + 'pool) \<Rightarrow> string + RedisEnvConfig \<Rightarrow> u64 \<Rightarrow> nat \<Rightarrow> nat
     \<Rightarrow> provider_cell \<Rightarrow> ((string + 'pool) \<times> bool \<times> provider_cell \<times> nat \<times> nat) option" where
  "create_redis_pool_from_env env build from_env timeout_in_s n now cell =
     (case from_env of
        Inl e \<Rightarrow> Some (Inl (''Malformed Redis config: '' @ e), False, cell, n, now)
      | Inr config \<Rightarrow>
          map_option (\<lambda>(res, rest). (map_sum pool_error_text id res, rest))
            (create_redis_pool env build config timeout_in_s n now cell))"

definition redis_key_prefix_from_env :: "string + RedisEnvConfig \<Rightarrow> string" where
  "redis_key_prefix_from_env from_env = (case from_env of Inl _ \<Rightarrow> [] | Inr config \<Rightarrow> env_key_prefix config)"

section \<open>Secrets only go over TLS\<close>

lemma trim_trim: "trim (trim s) = trim s"
proof (cases "dropWhile is_ws s")
  case Nil
  show ?thesis unfolding trim_def Nil by simp
next
  case (Cons c cs)
  let ?d = "dropWhile is_ws (rev (c # cs))"
  have c: "\<not> is_ws c" using Cons by (metis dropWhile_eq_Cons_conv)
  have "?d = dropWhile is_ws (rev cs) @ [c]"
    using c by (simp add: dropWhile_append)
  then have "dropWhile is_ws (rev ?d) = rev ?d" using c by simp
  moreover have "dropWhile is_ws ?d = ?d" by (rule dropWhile_idem)
  ultimately show ?thesis by (simp add: trim_def Cons)
qed

lemma lower_append: "to_ascii_lowercase (a @ b) = to_ascii_lowercase a @ to_ascii_lowercase b"
  by (simp add: to_ascii_lowercase_def)

lemma trim_end_append:
  assumes "h \<noteq> []" "last h \<noteq> c"
  shows "trim_end_matches c (h @ t) = h @ trim_end_matches c t"
proof (cases "\<forall>x \<in> set t. x = c")
  case True
  then have "dropWhile (\<lambda>x. x = c) (rev t) = []" by simp
  moreover have "dropWhile (\<lambda>x. x = c) (rev t @ rev h) = dropWhile (\<lambda>x. x = c) (rev h)"
    using True by (intro dropWhile_append2) auto
  moreover have "dropWhile (\<lambda>x. x = c) (rev h) = rev h"
    using assms by (cases h rule: rev_cases) auto
  ultimately show ?thesis by (simp add: trim_end_matches_def)
next
  case False
  then show ?thesis by (auto simp: trim_end_matches_def dropWhile_append1)
qed

lemma https_kept:
  assumes "starts_with (to_ascii_lowercase host) ''https://''"
  shows "starts_with (to_ascii_lowercase (trim_end_matches CHR ''/'' host @ rest)) ''https:''"
proof -
  obtain t where t: "to_ascii_lowercase host = ''https:'' @ ''//'' @ t" using assms by (auto simp: starts_with_iff)
  let ?h = "take 6 host"
  have h: "to_ascii_lowercase ?h = ''https:''"
    using arg_cong [OF t, of "take 6"] by (simp add: to_ascii_lowercase_def take_map)
  then have "?h \<noteq> []" "to_ascii_lower (last ?h) = CHR '':''"
    by (auto simp: to_ascii_lowercase_def)
  moreover have "to_ascii_lower CHR ''/'' = CHR ''/''" by code_simp
  ultimately have "last ?h \<noteq> CHR ''/''" by auto
  then have "trim_end_matches CHR ''/'' host = ?h @ trim_end_matches CHR ''/'' (drop 6 host)"
    using trim_end_append [of ?h "CHR ''/''" "drop 6 host"] \<open>?h \<noteq> []\<close> by simp
  then show ?thesis using h by (metis append.assoc lower_append starts_with_append)
qed

text \<open>What a configuration in OAuth mode guarantees: TLS or an explicit permission, and secrets to an https host.\<close>

definition secure_oauth :: "RedisEnvConfig \<Rightarrow> ConnectionAddr \<Rightarrow> EntraOauthConfig \<Rightarrow> bool" where
  "secure_oauth config addr oc \<longleftrightarrow>
     (if uses_tls addr then True
      else oauth_flag_from_env ''REDIS_OAUTH_ALLOW_PLAINTEXT'' (re_oauth_allow_plaintext config) = Inr (Some True))
     \<and> starts_with (to_ascii_lowercase (fst (token_request oc))) ''https:''
     \<and> eo_tenant_id oc \<noteq> [] \<and> eo_client_id oc \<noteq> [] \<and> eo_client_secret oc \<noteq> [] \<and> eo_scope oc \<noteq> []
     \<and> (case eo_refresh_margin oc of Some m \<Rightarrow> MIN_REFRESH_MARGIN \<le> m | None \<Rightarrow> True)"

text \<open>The login of a pool that was built at \<open>t\<close>; \<open>started\<close> says whether that started the refresh task.\<close>

definition login_secure :: "RedisEnvConfig \<Rightarrow> bool \<Rightarrow> nat \<Rightarrow> pool_options \<Rightarrow> bool" where
  "login_secure config started t opts \<longleftrightarrow>
     (case po_credentials opts of
        Static username password \<Rightarrow> \<not> started \<and> parse_auth_mode (re_auth_mode config) = Inr PasswordMode
          \<and> (password = None \<longleftrightarrow> re_password config = None \<and> configured_user config = [])
      | Oauth p \<Rightarrow> started = (\<not> tp_refresh_task_started p) \<and> parse_auth_mode (re_auth_mode config) = Inr OauthMode
          \<and> secure_oauth config (po_addr opts) (tp_config p) \<and> provider_ok t p)"

lemma authority_trimmed: "trim (authority_host_of config) = authority_host_of config"
proof (cases "trimmed_non_empty (re_oauth_authority_host config)")
  case None
  then show ?thesis by (simp add: authority_host_of_def DEFAULT_ENTRA_AUTHORITY_HOST_def) code_simp
next
  case (Some h)
  then show ?thesis
    by (auto simp: authority_host_of_def trimmed_non_empty_def trim_trim split: option.splits if_splits)
qed

lemma required_present:
  assumes "missing_settings config = []"
  shows "trimmed_or_default (re_oauth_tenant_id config) \<noteq> []" "trimmed_or_default (re_oauth_client_id config) \<noteq> []"
    "trimmed_or_default (re_oauth_client_secret config) \<noteq> []" "trimmed_or_default (re_oauth_scope config) \<noteq> []"
  using assms by (auto simp: missing_settings_def trimmed_or_default_def filter_empty_conv split: option.splits if_splits)

lemma entra_config_secure:
  assumes "entra_config_from_env (config\<lparr>re_tls := Some (uses_tls addr)\<rparr>) = Inr oc"
  shows "secure_oauth config addr oc"
proof -
  let ?c = "config\<lparr>re_tls := Some (uses_tls addr)\<rparr>"
  from assms obtain flag where
    "missing_settings ?c = []" "oauth_flag_from_env ''REDIS_OAUTH_ALLOW_PLAINTEXT'' (re_oauth_allow_plaintext config) = Inr flag"
    and tls: "oauth_transport_is_plaintext ?c \<longrightarrow> flag = Some True"
    and host: "is_secure_authority_host (authority_host_of ?c)"
    and margin: "case eo_refresh_margin oc of Some m \<Rightarrow> MIN_REFRESH_MARGIN \<le> m | None \<Rightarrow> True"
      "eo_authority_host oc = authority_host_of ?c"
      "eo_tenant_id oc = trimmed_or_default (re_oauth_tenant_id ?c)" "eo_client_id oc = trimmed_or_default (re_oauth_client_id ?c)"
      "eo_client_secret oc = trimmed_or_default (re_oauth_client_secret ?c)" "eo_scope oc = trimmed_or_default (re_oauth_scope ?c)"
    unfolding entra_config_from_env_def Let_def
    by (auto split: if_splits sum.splits option.splits simp: not_less)
  note flag = this(2)
  have "starts_with (to_ascii_lowercase (authority_host_of ?c)) ''https://''"
    using host by (simp only: is_secure_authority_host_def authority_trimmed)
  from https_kept [OF this] have "starts_with (to_ascii_lowercase (fst (token_request oc))) ''https:''"
    by (simp only: token_request_def margin fst_conv)
  then show ?thesis
    using required_present [OF \<open>missing_settings ?c = []\<close>] tls flag margin
    by (auto simp: secure_oauth_def oauth_transport_is_plaintext_def)
qed

lemma resolved_password: "resolve_redis_auth user pass = (u, pw) \<Longrightarrow> pw = None \<longleftrightarrow> pass = None \<and> user = []"
  by (cases pass; cases user) (auto simp: resolve_redis_auth_def)

lemma shared_provider_fresh:
  "\<exists>outcome n' t. shared_entra_provider env oc timeout n now None = Some (outcome, Some outcome, n', t)
    \<and> (case outcome of Inr p \<Rightarrow> provider_ok t p \<and> tp_config p = oc | Inl _ \<Rightarrow> True)"
proof -
  obtain res n' t where r: "provider_connect env oc timeout n now = Some (res, n', t)"
    using connect_returns [of env oc timeout n now] by (metis prod_cases3)
  show ?thesis
  proof (cases res)
    case (Inr p)
    with r connect_publishes [of env oc timeout n now p n' t] show ?thesis by (simp add: shared_entra_provider_def Let_def)
  qed (use r in \<open>simp add: shared_entra_provider_def Let_def\<close>)
qed


end
