(* ===== verification/StartupWarmup.thy ===== *)
theory StartupWarmup
  imports Stores WorkerCore
begin

text \<open>
  The keys to warm up at start: \<open>datastore/data_providers/startup_warmup_parser.rs\<close>.

  \<open>serde_json::from_str\<close> and \<open>serde_json::from_value\<close> are the arguments \<open>from_str\<close> (the elements of the
  array, or the message of the error) and \<open>from_value\<close>. Log lines are left out.
\<close>

section \<open>Entries\<close>

definition STARTUP_WARMUP_KEYS_ENV :: string where
  "STARTUP_WARMUP_KEYS_ENV = ''SFP_STARTUP_WARMUP_KEYS_JSON''"

definition VALID_STARTUP_WARMUP_SDK_KEY_PREFIXES :: "string list" where
  "VALID_STARTUP_WARMUP_SDK_KEY_PREFIXES = [''client-'', ''secret-'', ''server-'']"

record StartupWarmupKeyConfig =
  wk_sdk_key :: string
  wk_path :: string
  wk_encodings :: "string list option"

record StartupWarmupParseResult =
  configured_count :: nat
  invalid_count :: nat
  store_items :: "SdkKeyStoreItem list"

datatype StartupWarmupParseError =
    InvalidUtf8Env
  | InvalidWarmupJson string
  | EmptySdkKey
  | InvalidSdkKeyPrefix
  | UnsupportedPath string
  | InvalidEncodings string

fun warmup_error_text :: "StartupWarmupParseError \<Rightarrow> string" where
  "warmup_error_text InvalidUtf8Env = STARTUP_WARMUP_KEYS_ENV @ '' is not valid UTF-8''"
| "warmup_error_text (InvalidWarmupJson err) = ''invalid JSON for '' @ STARTUP_WARMUP_KEYS_ENV @ '': '' @ err"
| "warmup_error_text EmptySdkKey = ''sdk_key cannot be empty''"
| "warmup_error_text InvalidSdkKeyPrefix =
     ''sdk_key must start with one of: '' @ join '', '' VALID_STARTUP_WARMUP_SDK_KEY_PREFIXES"
| "warmup_error_text (UnsupportedPath path) = ''unsupported path `'' @ path @ ''`''"
| "warmup_error_text (InvalidEncodings err) = err"

definition parse_startup_warmup_path :: "string \<Rightarrow> StartupWarmupParseError + NormalizedPath" where
  "parse_startup_warmup_path path =
     (let parsed = path_from (trim_end_matches CHR ''/'' (trim path)) in
      if parsed \<in> {V1DownloadConfigSpecs, V2DownloadConfigSpecs, V1GetIdLists} then Inr parsed
      else Inl (UnsupportedPath path))"

definition parse_startup_warmup_encodings ::
  "string list option \<Rightarrow> StartupWarmupParseError + CompressionEncoder list" where
  "parse_startup_warmup_encodings encodings =
     (case encodings of
        None \<Rightarrow> Inr []
      | Some es \<Rightarrow>
          if es = [] then Inl (InvalidEncodings ''encodings cannot be empty'')
          else Inr (acceptable_list (from_raw_value (join '','' es))))"

definition validate_startup_warmup_sdk_key :: "string \<Rightarrow> StartupWarmupParseError + unit" where
  "validate_startup_warmup_sdk_key sdk_key =
     (if sdk_key = [] then Inl EmptySdkKey
      else if \<not> list_ex (\<lambda>p. starts_with sdk_key p) VALID_STARTUP_WARMUP_SDK_KEY_PREFIXES
      then Inl InvalidSdkKeyPrefix
      else Inr ())"

definition parse_startup_warmup_item ::
  "StartupWarmupKeyConfig \<Rightarrow> StartupWarmupParseError + SdkKeyStoreItem" where
  "parse_startup_warmup_item config =
     (let sdk_key = trim (wk_sdk_key config) in
      case validate_startup_warmup_sdk_key sdk_key of
        Inl e \<Rightarrow> Inl e
      | Inr _ \<Rightarrow>
          (case parse_startup_warmup_path (wk_path config) of
             Inl e \<Rightarrow> Inl e
           | Inr path \<Rightarrow>
               (case parse_startup_warmup_encodings (wk_encodings config) of
                  Inl e \<Rightarrow> Inl e
                | Inr encodings \<Rightarrow> Inr \<lparr>item_rc = rc_new sdk_key path encodings, item_lcut = 0\<rparr>)))"

section \<open>The list of entries\<close>

text \<open>The loop: an entry that is not valid is counted and does not discard the rest.\<close>

fun parse_warmup_values ::
  "('j \<Rightarrow> StartupWarmupKeyConfig option) \<Rightarrow> 'j list \<Rightarrow> nat \<Rightarrow> SdkKeyStoreItem list \<Rightarrow> nat \<times> SdkKeyStoreItem list" where
  "parse_warmup_values from_value [] invalid items = (invalid, items)"
| "parse_warmup_values from_value (v # vs) invalid items =
     (case from_value v of
        None \<Rightarrow> parse_warmup_values from_value vs (invalid + 1) items
      | Some config \<Rightarrow>
          (case parse_startup_warmup_item config of
             Inr item \<Rightarrow> parse_warmup_values from_value vs invalid (items @ [item])
           | Inl _ \<Rightarrow> parse_warmup_values from_value vs (invalid + 1) items))"

definition parse_startup_warmup_keys_json ::
  "(string \<Rightarrow> string + 'j list) \<Rightarrow> ('j \<Rightarrow> StartupWarmupKeyConfig option) \<Rightarrow> string
     \<Rightarrow> StartupWarmupParseError + StartupWarmupParseResult" where
  "parse_startup_warmup_keys_json from_str from_value raw =
     (case from_str raw of
        Inl e \<Rightarrow> Inl (InvalidWarmupJson e)
      | Inr raw_values \<Rightarrow>
          let (invalid, items) = parse_warmup_values from_value raw_values 0 []
          in Inr \<lparr>configured_count = length raw_values, invalid_count = invalid, store_items = items\<rparr>)"

definition load_startup_warmup_keys_from_env ::
  "(string \<Rightarrow> string + 'j list) \<Rightarrow> ('j \<Rightarrow> StartupWarmupKeyConfig option) \<Rightarrow> (string \<Rightarrow> env_var)
     \<Rightarrow> StartupWarmupParseError + StartupWarmupParseResult option" where
  "load_startup_warmup_keys_from_env from_str from_value env =
     (case env STARTUP_WARMUP_KEYS_ENV of
        NotPresent \<Rightarrow> Inr None
      | NotUnicode \<Rightarrow> Inl InvalidUtf8Env
      | EnvValue raw \<Rightarrow>
          if trim raw = [] then Inr None
          else map_sum id Some (parse_startup_warmup_keys_json from_str from_value raw))"

section \<open>What an entry warms up\<close>

text \<open>The route an entry names and whether it is well formed, and the requests it describes.\<close>

definition warmup_route :: "StartupWarmupKeyConfig \<Rightarrow> NormalizedPath" where
  "warmup_route c = path_from (trim_end_matches CHR ''/'' (trim (wk_path c)))"

definition valid_entry :: "StartupWarmupKeyConfig \<Rightarrow> bool" where
  "valid_entry c \<longleftrightarrow>
     (\<exists>p \<in> {''client-'', ''secret-'', ''server-''}. starts_with (trim (wk_sdk_key c)) p)
     \<and> warmup_route c \<in> {V1DownloadConfigSpecs, V2DownloadConfigSpecs, V1GetIdLists}
     \<and> wk_encodings c \<noteq> Some []"

definition describes :: "StartupWarmupKeyConfig \<Rightarrow> HttpRequest \<Rightarrow> bool" where
  "describes c r \<longleftrightarrow>
     get_one r ''statsig-api-key'' = Some (trim (wk_sdk_key c))
     \<and> normalized_path_guard r = Success (warmup_route c)
     \<and> get_all r ''Accept-Encoding'' = (case wk_encodings c of None \<Rightarrow> [] | Some es \<Rightarrow> es)
     \<and> \<not> does_request_supports_proto r \<and> \<not> does_request_accept_deltas r"

lemma no_accept_encoding: "acceptable_list (from_header_values []) = []"
  by (simp add: from_header_values_def from_raw_value_def parse_token_step_def acceptable_list_def trim_def trim_start_def)

lemma validate_iff:
  "validate_startup_warmup_sdk_key k
     = (if \<exists>p \<in> {''client-'', ''secret-'', ''server-''}. starts_with k p then Inr ()
        else Inl (if k = [] then EmptySdkKey else InvalidSdkKeyPrefix))"
  by (cases k) (simp_all add: validate_startup_warmup_sdk_key_def VALID_STARTUP_WARMUP_SDK_KEY_PREFIXES_def)

lemma warmup_encodings:
  "parse_startup_warmup_encodings es
     = (if es = Some [] then Inl (InvalidEncodings ''encodings cannot be empty'')
        else Inr (acceptable_list (from_header_values (case es of None \<Rightarrow> [] | Some es \<Rightarrow> es))))"
  by (simp add: parse_startup_warmup_encodings_def no_accept_encoding split: option.split)
     (simp add: from_header_values_def)

lemma parse_item_iff:
  "(case parse_startup_warmup_item c of Inr item \<Rightarrow> Some item | Inl _ \<Rightarrow> None)
     = (if valid_entry c
        then Some \<lparr>item_rc = rc_new (trim (wk_sdk_key c)) (warmup_route c)
                     (acceptable_list (from_header_values (case wk_encodings c of None \<Rightarrow> [] | Some es \<Rightarrow> es))),
                   item_lcut = 0\<rparr>
        else None)"
  unfolding parse_startup_warmup_item_def Let_def validate_iff warmup_encodings parse_startup_warmup_path_def
    valid_entry_def warmup_route_def
  by simp

definition warmup_item :: "StartupWarmupKeyConfig \<Rightarrow> SdkKeyStoreItem option" where
  "warmup_item c = (case parse_startup_warmup_item c of Inr item \<Rightarrow> Some item | Inl _ \<Rightarrow> None)"

lemma warmup_loop:
  "parse_warmup_values from_value vs n items
     = (n + length vs - length (List.map_filter (\<lambda>v. Option.bind (from_value v) warmup_item) vs),
        items @ List.map_filter (\<lambda>v. Option.bind (from_value v) warmup_item) vs)"
proof (induction vs arbitrary: n items)
  case Nil
  then show ?case by (simp add: List.map_filter_def)
next
  case (Cons v vs)
  let ?f = "\<lambda>v. Option.bind (from_value v) warmup_item"
  have "length (List.map_filter ?f vs) \<le> length vs"
    by (simp add: List.map_filter_def)
  then show ?case
    by (auto simp: Cons.IH List.map_filter_def warmup_item_def Suc_diff_le split: option.splits sum.splits)
qed

lemma warmup_items:
  "List.map_filter (\<lambda>v. Option.bind (from_value v) warmup_item) vs
     = map (the \<circ> warmup_item) (filter valid_entry (List.map_filter from_value vs))"
  by (induction vs)
     (auto simp: List.map_filter_def warmup_item_def parse_item_iff split: option.splits if_splits)

text \<open>An entry and the item that warms up what it describes.\<close>

definition warms ::
  "(context_cache \<Rightarrow> context_cache) \<Rightarrow> context_cache \<Rightarrow> StartupWarmupKeyConfig \<Rightarrow> SdkKeyStoreItem \<Rightarrow> bool" where
  "warms others cache c item \<longleftrightarrow>
     item_lcut item = 0 \<and> rc_wf (item_rc item)
     \<and> (\<forall>r. describes c r \<longrightarrow>
          (\<exists>rc cache'. authorized_request_context_guard others r cache = (Success rc, cache')
             \<and> rc_eq rc (item_rc item)))"

lemma guard_context:
  assumes "context_cache_ok cache" and "\<forall>c. context_cache_ok c \<longrightarrow> context_cache_ok (others c)"
    and "describes c r" and "valid_entry c"
  shows "\<exists>rc cache'. authorized_request_context_guard others r cache = (Success rc, cache')
    \<and> rc_eq rc (rc_new (trim (wk_sdk_key c)) (warmup_route c)
         (acceptable_list (from_header_values (case wk_encodings c of None \<Rightarrow> [] | Some es \<Rightarrow> es))))"
proof -
  let ?es = "acceptable_list (from_header_values (case wk_encodings c of None \<Rightarrow> [] | Some es \<Rightarrow> es))"
  obtain rc cache' where g: "get_or_insert others (trim (wk_sdk_key c)) (warmup_route c) ?es False False None cache = (rc, cache')"
    by fastforce
  have "warmup_route c \<noteq> V1DownloadIdListFile" "warmup_route c \<noteq> V2DownloadConfigSpecsDeltas"
    using assms(4) by (auto simp: valid_entry_def)
  then have "authorized_request_context_guard others r cache = (Success rc, cache')"
    using assms(3) g by (simp add: authorized_request_context_guard_def describes_def Let_def)
  moreover have "rc = with_id_list_request None None None
      (with_request_capabilities False False (rc_new (trim (wk_sdk_key c)) (warmup_route c) ?es))"
    using get_or_insert_key [OF assms(1,2) g] by (simp only: context_of_canonical)
  ultimately show ?thesis
    by (simp add: rc_eq_def rc_new_def with_id_list_request_def with_request_capabilities_def)
qed

lemma valid_entry_warms:
  assumes "context_cache_ok cache" and "\<forall>c. context_cache_ok c \<longrightarrow> context_cache_ok (others c)" and "valid_entry c"
  shows "warms others cache c (the (warmup_item c))"
  using guard_context [OF assms(1,2) _ assms(3)] assms(3)
  by (simp add: warms_def warmup_item_def parse_item_iff) (simp add: rc_wf_def rc_new_def)

text \<open>
  C28: a list of entries that is JSON is always read: each well-formed entry gives one item, in their
  order, and the rest are counted as invalid. An item has the context that a request with the key, the
  route and the encodings of the entry has, so what is warmed up is found by that request.
\<close>

theorem warmup_matches_requests:
  assumes "from_str raw = Inr vs" and "context_cache_ok cache"
    and "\<forall>c. context_cache_ok c \<longrightarrow> context_cache_ok (others c)"
  shows "\<exists>r. parse_startup_warmup_keys_json from_str from_value raw = Inr r
    \<and> configured_count r = length vs \<and> configured_count r = invalid_count r + length (store_items r)
    \<and> list_all2 (warms others cache) (filter valid_entry (List.map_filter from_value vs)) (store_items r)"
proof -
  let ?is = "map (the \<circ> warmup_item) (filter valid_entry (List.map_filter from_value vs))"
  have "length ?is \<le> length (List.map_filter from_value vs)" by simp
  also have "\<dots> \<le> length vs" by (simp add: List.map_filter_def)
  finally have "length ?is \<le> length vs" .
  moreover have "list_all2 (warms others cache) (filter valid_entry (List.map_filter from_value vs)) ?is"
    unfolding list_all2_map2 o_def
    by (rule list.rel_refl_strong) (auto intro: valid_entry_warms [OF assms(2,3)])
  ultimately show ?thesis
    by (auto simp: parse_startup_warmup_keys_json_def assms(1) warmup_loop warmup_items)
qed

definition sample_warmup :: "StartupWarmupKeyConfig option list" where
  "sample_warmup =
     [Some \<lparr>wk_sdk_key = '' client-a'', wk_path = ''/v2/download_config_specs/'', wk_encodings = Some [''gzip'', ''br'']\<rparr>,
      None, Some \<lparr>wk_sdk_key = ''console-b'', wk_path = ''/v1/get_id_lists'', wk_encodings = None\<rparr>]"

theorem warmup_matches_requests_witness:
  "\<exists>r. parse_startup_warmup_keys_json (\<lambda>_. Inr sample_warmup) id ''[..]'' = Inr r
     \<and> configured_count r = 3 \<and> invalid_count r = 2 \<and> length (store_items r) = 1"
proof -
  have "filter valid_entry (List.map_filter id sample_warmup)
      = [\<lparr>wk_sdk_key = '' client-a'', wk_path = ''/v2/download_config_specs/'', wk_encodings = Some [''gzip'', ''br'']\<rparr>]"
    by code_simp
  then show ?thesis
    using warmup_matches_requests [of "\<lambda>_. Inr sample_warmup" "''[..]''" sample_warmup "\<lambda>_. None" "\<lambda>c. c" id]
    by (auto simp: context_cache_ok_empty list_all2_Cons1 sample_warmup_def)
qed

end
