(* ===== verification/GrpcStream.thy ===== *)
theory GrpcStream
  imports Serving "HOL-Library.Sublist"
begin

text \<open>
  Streaming config specs over gRPC: \<open>servers/grpc_server.rs\<close> and \<open>servers/streaming_channel.rs\<close>.

  A stream is opened by a handler, which fetches the first value and then subscribes to the broadcast
  channel of the request context, and is served by a task. The steps of handlers, tasks and observers
  are events that interleave in any order. The broadcast channel of tokio has capacity one: a receiver
  that is two messages behind is told so, and a send without receivers fails. The framework, the shutdown
  signal and the gauge of active streams are not modelled.
\<close>

section \<open>Requests\<close>

record ConfigSpecRequest =
  cq_sdk_key :: string
  cq_since_time :: "u64 option"
  cq_version :: "int option"

record ConfigSpecResponse =
  cr_spec :: string
  cr_last_updated :: u64
  cr_zstd_dict_id :: "string option"

definition show_i32 :: "int \<Rightarrow> string" where
  "show_i32 i = (if i < 0 then ''-'' else []) @ show_nat (nat \<bar>i\<bar>)"

definition get_api_version_from_request :: "ConfigSpecRequest \<Rightarrow> int" where
  "get_api_version_from_request r =
     (let v = (case cq_version r of None \<Rightarrow> 1 | Some v \<Rightarrow> v) in if v = 0 then 1 else v)"

definition get_normalized_path_from_request :: "ConfigSpecRequest \<Rightarrow> NormalizedPath" where
  "get_normalized_path_from_request r =
     (let v = get_api_version_from_request r in
      if v = 1 then V1DownloadConfigSpecs
      else if v = 2 then V2DownloadConfigSpecs
      else RawPath (''/v'' @ show_i32 v @ ''/download_config_specs/''))"

definition NO_UPDATE_JSON :: string where
  "NO_UPDATE_JSON = [CHR ''{'', CHR 0x22] @ ''has_updates'' @ [CHR 0x22] @ '':false}''"

text \<open>The reply to a value of the store, which has the text of \<open>no_update_config\<close> exactly as \<open>NO_UPDATE_JSON\<close>.\<close>

definition grpc_reply :: "ConfigSpecForCompany option \<Rightarrow> ConfigSpecResponse option" where
  "grpc_reply result =
     (case result of
        None \<Rightarrow> None
      | Some data \<Rightarrow>
          Some \<lparr>cr_spec = (if cs_config data = no_update_config then NO_UPDATE_JSON else rp_data (cs_config data)),
                cr_last_updated = cs_lcut data, cr_zstd_dict_id = None\<rparr>)"

definition grpc_get_config_spec ::
  "((config_spec_store, 'x) runtime, 'n) fetch_env \<Rightarrow> bool \<Rightarrow> bool \<Rightarrow> nat \<Rightarrow> nat \<Rightarrow> (context_cache \<Rightarrow> context_cache)
     \<Rightarrow> ConfigSpecRequest \<Rightarrow> context_cache \<Rightarrow> fetch_locks \<times> ((config_spec_store, 'x) runtime, 'n) fetch_state
     \<Rightarrow> ConfigSpecResponse option \<times> context_cache \<times> fetch_locks \<times> ((config_spec_store, 'x) runtime, 'n) fetch_state" where
  "grpc_get_config_spec env ok timed_out now later others r cache ls =
     (case get_or_insert others (cq_sdk_key r) (get_normalized_path_from_request r) [PlainText] False False None cache of
        (rc, cache') \<Rightarrow>
          (case get_config_spec env ok timed_out now later rc (case cq_since_time r of None \<Rightarrow> 0 | Some t \<Rightarrow> t) ls of
             (result, ls') \<Rightarrow> (grpc_reply result, cache', ls')))"

section \<open>The broadcast channel\<close>

type_synonym stream_payload = "(ResponsePayload \<times> u64) option"

record StreamingChannel =
  ch_request_context :: AuthorizedRequestContext
  ch_last_updated :: u64
  ch_sent :: "stream_payload list"

definition streaming_channel_new :: "AuthorizedRequestContext \<Rightarrow> StreamingChannel" where
  "streaming_channel_new rc = \<lparr>ch_request_context = rc, ch_last_updated = 0, ch_sent = []\<rparr>"

definition channel_update ::
  "nat \<Rightarrow> AuthorizedRequestContext \<Rightarrow> ResponseContext \<Rightarrow> StreamingChannel \<Rightarrow> StreamingChannel" where
  "channel_update receivers rc rsp ch =
     (if ch_last_updated ch < rsp_lcut rsp \<and> rc_eq (ch_request_context ch) rc \<and> rsp_result_type rsp = DataAvailable
      then if receivers = 0 then ch
           else ch\<lparr>ch_sent := ch_sent ch @ [Some (rsp_body rsp, rsp_lcut rsp)], ch_last_updated := rsp_lcut rsp\<rparr>
      else ch)"

datatype recv = Pending | Lagged | Got stream_payload

definition broadcast_recv :: "stream_payload list \<Rightarrow> nat \<Rightarrow> recv" where
  "broadcast_recv sent nxt =
     (if length sent \<le> nxt then Pending
      else if nxt + 1 < length sent then Lagged
      else Got (sent ! nxt))"

section \<open>Streams\<close>

datatype stream_phase = Fetched | Subscribed | Streaming | Ended

text \<open>A sent response with the event that is published for it.\<close>

datatype stream_event = StreamedInitialized | StreamedResponse | HealthcheckSent

record grpc_stream =
  gr_rc :: AuthorizedRequestContext
  gr_init :: ConfigSpecResponse
  gr_phase :: stream_phase
  gr_next :: nat
  gr_latest_lcut :: u64
  gr_out :: "(stream_event \<times> ConfigSpecResponse) list"

record grpc_state =
  gs_update_broadcast_cache :: "rc_key \<Rightarrow> StreamingChannel option"
  gs_connection_counter :: nat
  gs_streams :: "grpc_stream list"

definition grpc_state_new :: grpc_state where
  "grpc_state_new = \<lparr>gs_update_broadcast_cache = (\<lambda>_. None), gs_connection_counter = 0, gs_streams = []\<rparr>"

definition data_response :: "ResponsePayload \<Rightarrow> u64 \<Rightarrow> ConfigSpecResponse" where
  "data_response data lcut = \<lparr>cr_spec = rp_data data, cr_last_updated = lcut, cr_zstd_dict_id = None\<rparr>"

definition heartbeat :: "u64 \<Rightarrow> ConfigSpecResponse" where
  "heartbeat lcut = \<lparr>cr_spec = NO_UPDATE_JSON, cr_last_updated = lcut, cr_zstd_dict_id = None\<rparr>"

text \<open>Receivers of a channel are those of the handlers that subscribed and of the tasks that have not ended.\<close>

definition receivers :: "grpc_state \<Rightarrow> rc_key \<Rightarrow> nat" where
  "receivers s k =
     length (filter (\<lambda>g. rc_id (gr_rc g) = k \<and> (gr_phase g = Subscribed \<or> gr_phase g = Streaming)) (gs_streams s))"

text \<open>
  \<open>Accept\<close> is the handler up to the reply of \<open>get_config_spec\<close>, \<open>Subscribe\<close> the rest of it. \<open>Start\<close> is the
  task up to its loop, \<open>Receive\<close>, \<open>Lag\<close> and \<open>Timeout\<close> are turns of the loop; the flag says whether the client
  still takes responses.
\<close>

datatype grpc_event =
    Accept AuthorizedRequestContext ConfigSpecResponse
  | Subscribe nat
  | Start nat bool
  | Receive nat bool
  | Lag nat
  | Timeout nat bool
  | Update AuthorizedRequestContext ResponseContext
  | Shutdown

definition stream_accept :: "nat \<Rightarrow> AuthorizedRequestContext \<Rightarrow> ConfigSpecResponse \<Rightarrow> grpc_state \<Rightarrow> grpc_state option" where
  "stream_accept max_streams rc init s =
     (if max_streams \<le> gs_connection_counter s then None
      else Some (s\<lparr>gs_streams := gs_streams s @
             [\<lparr>gr_rc = rc, gr_init = init, gr_phase = Fetched, gr_next = 0, gr_latest_lcut = 0, gr_out = []\<rparr>]\<rparr>))"

definition stream_subscribe :: "nat \<Rightarrow> grpc_stream \<Rightarrow> grpc_state \<Rightarrow> grpc_state" where
  "stream_subscribe i g s =
     (let k = rc_id (gr_rc g);
          ch = (case gs_update_broadcast_cache s k of Some ch \<Rightarrow> ch | None \<Rightarrow> streaming_channel_new (gr_rc g))
      in s\<lparr>gs_update_broadcast_cache := (gs_update_broadcast_cache s)(k \<mapsto> ch),
           gs_streams := (gs_streams s)[i := g\<lparr>gr_phase := Subscribed, gr_next := length (ch_sent ch),
                                              gr_latest_lcut := cr_last_updated (gr_init g)\<rparr>]\<rparr>)"

definition stream_start :: "nat \<Rightarrow> grpc_stream \<Rightarrow> bool \<Rightarrow> grpc_state \<Rightarrow> grpc_state" where
  "stream_start i g ok s =
     s\<lparr>gs_connection_counter := gs_connection_counter s + 1,
       gs_streams := (gs_streams s)[i := g\<lparr>gr_phase := Streaming,
                       gr_out := (if ok then [(StreamedInitialized, gr_init g)] else [])\<rparr>]\<rparr>"

definition stream_end :: "nat \<Rightarrow> grpc_stream \<Rightarrow> grpc_state \<Rightarrow> grpc_state" where
  "stream_end i g s =
     s\<lparr>gs_connection_counter := gs_connection_counter s - 1, gs_streams := (gs_streams s)[i := g\<lparr>gr_phase := Ended\<rparr>]\<rparr>"

definition send_or_end :: "nat \<Rightarrow> grpc_stream \<Rightarrow> bool \<Rightarrow> stream_event \<times> ConfigSpecResponse \<Rightarrow> grpc_state \<Rightarrow> grpc_state" where
  "send_or_end i g ok r s =
     (if ok then s\<lparr>gs_streams := (gs_streams s)[i := g\<lparr>gr_out := gr_out g @ [r]\<rparr>]\<rparr> else stream_end i g s)"

definition sent_to :: "grpc_state \<Rightarrow> grpc_stream \<Rightarrow> stream_payload list" where
  "sent_to s g = (case gs_update_broadcast_cache s (rc_id (gr_rc g)) of Some ch \<Rightarrow> ch_sent ch | None \<Rightarrow> [])"

definition stream_receive :: "nat \<Rightarrow> grpc_stream \<Rightarrow> bool \<Rightarrow> grpc_state \<Rightarrow> grpc_state option" where
  "stream_receive i g ok s =
     (case broadcast_recv (sent_to s g) (gr_next g) of
        Got (Some (data, lcut)) \<Rightarrow>
          Some (send_or_end i (g\<lparr>gr_next := gr_next g + 1, gr_latest_lcut := lcut\<rparr>) ok
                  (StreamedResponse, data_response data lcut) s)
      | Got None \<Rightarrow> Some (stream_end i (g\<lparr>gr_next := gr_next g + 1\<rparr>) s)
      | _ \<Rightarrow> None)"

definition stream_lag :: "nat \<Rightarrow> grpc_stream \<Rightarrow> grpc_state \<Rightarrow> grpc_state option" where
  "stream_lag i g s =
     (case broadcast_recv (sent_to s g) (gr_next g) of
        Lagged \<Rightarrow> Some (s\<lparr>gs_streams := (gs_streams s)[i := g\<lparr>gr_next := length (sent_to s g)\<rparr>]\<rparr>)
      | _ \<Rightarrow> None)"

definition stream_timeout :: "nat \<Rightarrow> grpc_stream \<Rightarrow> bool \<Rightarrow> grpc_state \<Rightarrow> grpc_state option" where
  "stream_timeout i g ok s =
     (case broadcast_recv (sent_to s g) (gr_next g) of
        Pending \<Rightarrow> Some (send_or_end i g ok (HealthcheckSent, heartbeat (gr_latest_lcut g)) s)
      | _ \<Rightarrow> None)"

definition grpc_update :: "AuthorizedRequestContext \<Rightarrow> ResponseContext \<Rightarrow> grpc_state \<Rightarrow> grpc_state" where
  "grpc_update rc rsp s =
     s\<lparr>gs_update_broadcast_cache :=
         (\<lambda>k. map_option (channel_update (receivers s k) rc rsp) (gs_update_broadcast_cache s k))\<rparr>"

definition grpc_shutdown :: "grpc_state \<Rightarrow> grpc_state" where
  "grpc_shutdown s =
     s\<lparr>gs_update_broadcast_cache :=
         (\<lambda>k. map_option (\<lambda>ch. if receivers s k = 0 then ch else ch\<lparr>ch_sent := ch_sent ch @ [None]\<rparr>)
                (gs_update_broadcast_cache s k))\<rparr>"

definition on_stream ::
  "nat \<Rightarrow> stream_phase \<Rightarrow> (grpc_stream \<Rightarrow> grpc_state option) \<Rightarrow> grpc_state \<Rightarrow> grpc_state option" where
  "on_stream i ph f s =
     (if i < length (gs_streams s) \<and> gr_phase (gs_streams s ! i) = ph then f (gs_streams s ! i) else None)"

fun grpc_step :: "nat \<Rightarrow> grpc_event \<Rightarrow> grpc_state \<Rightarrow> grpc_state option" where
  "grpc_step m (Accept rc init) s = stream_accept m rc init s"
| "grpc_step m (Subscribe i) s = on_stream i Fetched (\<lambda>g. Some (stream_subscribe i g s)) s"
| "grpc_step m (Start i ok) s = on_stream i Subscribed (\<lambda>g. Some (stream_start i g ok s)) s"
| "grpc_step m (Receive i ok) s = on_stream i Streaming (\<lambda>g. stream_receive i g ok s) s"
| "grpc_step m (Lag i) s = on_stream i Streaming (\<lambda>g. stream_lag i g s) s"
| "grpc_step m (Timeout i ok) s = on_stream i Streaming (\<lambda>g. stream_timeout i g ok s) s"
| "grpc_step m (Update rc rsp) s = Some (grpc_update rc rsp s)"
| "grpc_step m Shutdown s = Some (grpc_shutdown s)"

text \<open>The states that sequences of events lead to; an event that is not enabled ends the sequence.\<close>

inductive grpc_reaches :: "nat \<Rightarrow> grpc_event list \<Rightarrow> grpc_state \<Rightarrow> bool" for m :: nat where
  init: "grpc_reaches m [] grpc_state_new"
| step: "grpc_reaches m evs s \<Longrightarrow> grpc_step m e s = Some s' \<Longrightarrow> grpc_reaches m (evs @ [e]) s'"

section \<open>The health check\<close>

text \<open>Dividing by zero panics.\<close>

definition health_check :: "nat \<Rightarrow> nat \<Rightarrow> grpc_state \<Rightarrow> bool option" where
  "health_check max_streams threshold s =
     (if max_streams = 0 then None else Some (gs_connection_counter s * 100 div max_streams \<le> threshold))"

section \<open>What a stream delivers\<close>

definition msgs :: "stream_payload list \<Rightarrow> (ResponsePayload \<times> u64) list" where
  "msgs ss = List.map_filter (\<lambda>x. x) ss"

definition deliveries :: "grpc_stream \<Rightarrow> ConfigSpecResponse list" where
  "deliveries g = map snd (filter (\<lambda>(e, r). e = StreamedResponse) (gr_out g))"

definition published_update :: "grpc_event list \<Rightarrow> rc_key \<Rightarrow> ResponsePayload \<times> u64 \<Rightarrow> bool" where
  "published_update evs k m \<longleftrightarrow>
     (\<exists>rc rsp. Update rc rsp \<in> set evs \<and> rc_id rc = k \<and> rsp_result_type rsp = DataAvailable \<and> m = (rsp_body rsp, rsp_lcut rsp))"

definition channel_ok :: "grpc_event list \<Rightarrow> rc_key \<Rightarrow> StreamingChannel \<Rightarrow> bool" where
  "channel_ok evs k ch \<longleftrightarrow>
     rc_id (ch_request_context ch) = k \<and> sorted_wrt (<) (map snd (msgs (ch_sent ch)))
     \<and> (\<forall>m \<in> set (msgs (ch_sent ch)). snd m \<le> ch_last_updated ch \<and> published_update evs k m)"

definition stream_ok :: "grpc_event list \<Rightarrow> grpc_state \<Rightarrow> nat \<Rightarrow> grpc_stream \<Rightarrow> bool" where
  "stream_ok evs s i g \<longleftrightarrow>
     (if gr_phase g = Fetched then gr_out g = []
      else \<exists>ch ms. gs_update_broadcast_cache s (rc_id (gr_rc g)) = Some ch \<and> gr_next g \<le> length (ch_sent ch)
        \<and> deliveries g = map (case_prod data_response) ms \<and> subseq ms (msgs (take (gr_next g) (ch_sent ch)))
        \<and> (gr_phase g = Subscribed \<longrightarrow> gr_out g = [])
        \<and> (gr_phase g \<noteq> Ended \<longrightarrow> gr_latest_lcut g = cr_last_updated (last (gr_init g # deliveries g)))
        \<and> (gr_phase g \<noteq> Ended \<longrightarrow> Lag i \<notin> set evs \<longrightarrow> (\<exists>k. ms = msgs (drop k (take (gr_next g) (ch_sent ch))))))"

definition grpc_inv :: "grpc_event list \<Rightarrow> grpc_state \<Rightarrow> bool" where
  "grpc_inv evs s \<longleftrightarrow>
     (\<forall>k ch. gs_update_broadcast_cache s k = Some ch \<longrightarrow> channel_ok evs k ch)
     \<and> (\<forall>i < length (gs_streams s). stream_ok evs s i (gs_streams s ! i))
     \<and> gs_connection_counter s = length (filter (\<lambda>g. gr_phase g = Streaming) (gs_streams s))"

lemma msgs_simps [simp]: "msgs [] = []" "msgs (xs @ ys) = msgs xs @ msgs ys" "msgs [None] = []" "msgs [Some m] = [m]"
  by (simp_all add: msgs_def List.map_filter_def)

lemma data_response_lcut [simp]: "cr_last_updated (data_response d l) = l"
  by (simp add: data_response_def)

lemma rc_eq_id: "rc_eq a b \<longleftrightarrow> rc_id a = rc_id b"
  by (auto simp: rc_eq_def rc_id_def)

lemma count_update:
  "i < length xs \<Longrightarrow> length (filter P (xs[i := y])) + of_bool (P (xs ! i)) = length (filter P xs) + of_bool (P y)"
proof (induction xs arbitrary: i)
  case (Cons x xs)
  then show ?case using Cons.IH [of "i - 1"] by (cases i) auto
qed simp

lemma inv_channel: "grpc_inv evs s \<Longrightarrow> gs_update_broadcast_cache s k = Some ch \<Longrightarrow> channel_ok evs k ch"
  unfolding grpc_inv_def by blast

lemma inv_stream: "grpc_inv evs s \<Longrightarrow> i < length (gs_streams s) \<Longrightarrow> stream_ok evs s i (gs_streams s ! i)"
  unfolding grpc_inv_def by blast

lemma inv_count: "grpc_inv evs s \<Longrightarrow> gs_connection_counter s = length (filter (\<lambda>g. gr_phase g = Streaming) (gs_streams s))"
  unfolding grpc_inv_def by blast

text \<open>Channels only ever grow.\<close>

definition extends :: "grpc_state \<Rightarrow> grpc_state \<Rightarrow> bool" where
  "extends s s' \<longleftrightarrow>
     (\<forall>k ch. gs_update_broadcast_cache s k = Some ch \<longrightarrow>
        (\<exists>ch' ys. gs_update_broadcast_cache s' k = Some ch' \<and> ch_sent ch' = ch_sent ch @ ys))"

lemma extends_refl: "gs_update_broadcast_cache s' = gs_update_broadcast_cache s \<Longrightarrow> extends s s'"
  by (auto simp: extends_def)

lemma stream_ok_mono:
  assumes "stream_ok evs s i g" "extends s s'" "set evs \<subseteq> set evs'"
  shows "stream_ok evs' s' i g"
proof (cases "gr_phase g = Fetched")
  case False
  with assms(1) obtain ch ms where c: "gs_update_broadcast_cache s (rc_id (gr_rc g)) = Some ch" "gr_next g \<le> length (ch_sent ch)"
    and r: "deliveries g = map (case_prod data_response) ms" "subseq ms (msgs (take (gr_next g) (ch_sent ch)))"
      "gr_phase g = Subscribed \<longrightarrow> gr_out g = []"
      "gr_phase g \<noteq> Ended \<longrightarrow> gr_latest_lcut g = cr_last_updated (last (gr_init g # deliveries g))"
      "gr_phase g \<noteq> Ended \<longrightarrow> Lag i \<notin> set evs \<longrightarrow> (\<exists>k. ms = msgs (drop k (take (gr_next g) (ch_sent ch))))"
    unfolding stream_ok_def if_not_P [OF False] by blast
  from c(1) assms(2) obtain ch' ys where "gs_update_broadcast_cache s' (rc_id (gr_rc g)) = Some ch'" "ch_sent ch' = ch_sent ch @ ys"
    unfolding extends_def by blast
  moreover from this c(2) have "take (gr_next g) (ch_sent ch') = take (gr_next g) (ch_sent ch)" "gr_next g \<le> length (ch_sent ch')"
    by simp_all
  ultimately show ?thesis unfolding stream_ok_def if_not_P [OF False] using r assms(3) by (intro exI [of _ ch'] exI [of _ ms]) auto
qed (use assms(1) in \<open>simp add: stream_ok_def\<close>)

lemma channel_ok_mono: "channel_ok evs k ch \<Longrightarrow> set evs \<subseteq> set evs' \<Longrightarrow> channel_ok evs' k ch"
  unfolding channel_ok_def published_update_def by blast

text \<open>A step keeps the invariant when channels only grow and what it changes is right.\<close>

lemma inv_step:
  assumes "grpc_inv evs s" and "extends s s'"
    and "\<And>k ch. gs_update_broadcast_cache s' k = Some ch \<Longrightarrow> channel_ok (evs @ [e]) k ch"
    and "\<And>j. j < length (gs_streams s') \<Longrightarrow> \<not> (j < length (gs_streams s) \<and> gs_streams s' ! j = gs_streams s ! j)
           \<Longrightarrow> stream_ok (evs @ [e]) s' j (gs_streams s' ! j)"
    and "gs_connection_counter s' = length (filter (\<lambda>g. gr_phase g = Streaming) (gs_streams s'))"
  shows "grpc_inv (evs @ [e]) s'"
  unfolding grpc_inv_def
proof (intro conjI allI impI)
  fix j
  assume j: "j < length (gs_streams s')"
  show "stream_ok (evs @ [e]) s' j (gs_streams s' ! j)"
  proof (cases "j < length (gs_streams s) \<and> gs_streams s' ! j = gs_streams s ! j")
    case True
    then show ?thesis
      using stream_ok_mono [OF inv_stream [OF assms(1)] assms(2), of j "evs @ [e]"] by (simp add: subset_insertI)
  qed (use j assms(4) in blast)
qed (use assms(3,5) in blast)+

lemma channel_kept: "grpc_inv evs s \<Longrightarrow> gs_update_broadcast_cache s k = Some ch \<Longrightarrow> channel_ok (evs @ [e]) k ch"
  by (rule channel_ok_mono [OF inv_channel]) auto

lemma inv_stream_step:
  assumes inv: "grpc_inv evs s" and i: "i < length (gs_streams s)"
    and s': "gs_streams s' = (gs_streams s)[i := g']" "gs_update_broadcast_cache s' = gs_update_broadcast_cache s"
    and g': "stream_ok (evs @ [e]) s' i g'"
    and n: "gs_connection_counter s' + of_bool (gr_phase (gs_streams s ! i) = Streaming)
              = gs_connection_counter s + of_bool (gr_phase g' = Streaming)"
  shows "grpc_inv (evs @ [e]) s'"
proof (rule inv_step [OF inv extends_refl [OF s'(2)]])
  show "channel_ok (evs @ [e]) k ch" if "gs_update_broadcast_cache s' k = Some ch" for k ch
    using channel_kept [OF inv] that s'(2) by simp
  show "stream_ok (evs @ [e]) s' j (gs_streams s' ! j)"
    if "j < length (gs_streams s')" "\<not> (j < length (gs_streams s) \<and> gs_streams s' ! j = gs_streams s ! j)" for j
    using that g' i by (cases "j = i") (simp_all add: s'(1))
  show "gs_connection_counter s' = length (filter (\<lambda>g. gr_phase g = Streaming) (gs_streams s'))"
    using count_update [OF i, of "\<lambda>g. gr_phase g = Streaming" g'] n inv_count [OF inv] by (simp add: s'(1))
qed

lemma stream_at:
  assumes "grpc_inv evs s" "i < length (gs_streams s)" "gs_streams s ! i = g" "gr_phase g = Streaming"
  obtains ch ms where "gs_update_broadcast_cache s (rc_id (gr_rc g)) = Some ch" "sent_to s g = ch_sent ch"
    "gr_next g \<le> length (ch_sent ch)" "deliveries g = map (case_prod data_response) ms"
    "subseq ms (msgs (take (gr_next g) (ch_sent ch)))"
    "gr_latest_lcut g = cr_last_updated (last (gr_init g # deliveries g))"
    "Lag i \<notin> set evs \<longrightarrow> (\<exists>k. ms = msgs (drop k (take (gr_next g) (ch_sent ch))))"
proof -
  have nf: "\<not> gr_phase g = Fetched" and ne: "gr_phase g \<noteq> Ended" using assms(4) by simp_all
  from inv_stream [OF assms(1,2)] obtain ch ms where *: "gs_update_broadcast_cache s (rc_id (gr_rc g)) = Some ch"
    "gr_next g \<le> length (ch_sent ch)" "deliveries g = map (case_prod data_response) ms"
    "subseq ms (msgs (take (gr_next g) (ch_sent ch)))"
    "gr_phase g \<noteq> Ended \<longrightarrow> gr_latest_lcut g = cr_last_updated (last (gr_init g # deliveries g))"
    "gr_phase g \<noteq> Ended \<longrightarrow> Lag i \<notin> set evs \<longrightarrow> (\<exists>k. ms = msgs (drop k (take (gr_next g) (ch_sent ch))))"
    unfolding assms(3) stream_ok_def if_not_P [OF nf] by blast
  have "sent_to s g = ch_sent ch" by (simp add: sent_to_def *(1))
  moreover have "Lag i \<notin> set evs \<longrightarrow> (\<exists>k. ms = msgs (drop k (take (gr_next g) (ch_sent ch))))" using *(6) ne by blast
  ultimately show thesis using *(1-4) *(5) [rule_format, OF ne] by (intro that)
qed

text \<open>What a stream has delivered is right for its next position.\<close>

lemma stream_okI:
  assumes "gs_update_broadcast_cache s (rc_id (gr_rc g)) = Some ch" "gr_next g \<le> length (ch_sent ch)" "gr_phase g = Streaming \<or> gr_phase g = Ended"
    "deliveries g = map (case_prod data_response) ms" "subseq ms (msgs (take (gr_next g) (ch_sent ch)))"
    "gr_phase g \<noteq> Ended \<Longrightarrow> gr_latest_lcut g = cr_last_updated (last (gr_init g # deliveries g))"
    "gr_phase g \<noteq> Ended \<Longrightarrow> Lag i \<notin> set evs \<Longrightarrow> \<exists>k. ms = msgs (drop k (take (gr_next g) (ch_sent ch)))"
  shows "stream_ok evs s i g"
proof -
  have nf: "\<not> gr_phase g = Fetched" and ns: "gr_phase g \<noteq> Subscribed" using assms(3) by auto
  show ?thesis unfolding stream_ok_def if_not_P [OF nf] using assms ns by blast
qed

section \<open>Every step keeps the invariant\<close>

lemma inv_accept: "grpc_inv evs s \<Longrightarrow> stream_accept m rc init s = Some s' \<Longrightarrow> grpc_inv (evs @ [e]) s'"
  by (rule inv_step)
     (auto simp: stream_accept_def extends_def stream_ok_def nth_append less_Suc_eq inv_count split: if_splits
       intro: channel_kept)

lemma inv_subscribe:
  assumes inv: "grpc_inv evs s" and i: "i < length (gs_streams s)" "gs_streams s ! i = g" "gr_phase g = Fetched"
  shows "grpc_inv (evs @ [e]) (stream_subscribe i g s)"
proof (rule inv_step [OF inv])
  let ?s = "stream_subscribe i g s" and ?k = "rc_id (gr_rc g)"
  let ?ch = "case gs_update_broadcast_cache s ?k of Some ch \<Rightarrow> ch | None \<Rightarrow> streaming_channel_new (gr_rc g)"
  show "extends s ?s" by (auto simp: extends_def stream_subscribe_def Let_def)
  show "channel_ok (evs @ [e]) k ch" if "gs_update_broadcast_cache ?s k = Some ch" for k ch
  proof (cases "gs_update_broadcast_cache s k = Some ch")
    case False
    then have "k = ?k" "ch = streaming_channel_new (gr_rc g)"
      using that by (auto simp: stream_subscribe_def Let_def split: if_splits option.splits)
    then show ?thesis by (simp add: channel_ok_def streaming_channel_new_def)
  qed (rule channel_kept [OF inv])
  have "gr_out g = []" using inv_stream [OF inv i(1)] i by (simp add: stream_ok_def)
  then have "stream_ok (evs @ [e]) ?s i (gs_streams ?s ! i)"
    using i(1) by (auto simp: stream_ok_def stream_subscribe_def Let_def deliveries_def intro!: exI [of _ "length (ch_sent ?ch)"])
  then show "stream_ok (evs @ [e]) ?s j (gs_streams ?s ! j)"
    if "j < length (gs_streams ?s)" "\<not> (j < length (gs_streams s) \<and> gs_streams ?s ! j = gs_streams s ! j)" for j
    using that by (cases "j = i") (simp_all add: stream_subscribe_def Let_def)
  show "gs_connection_counter ?s = length (filter (\<lambda>g. gr_phase g = Streaming) (gs_streams ?s))"
    using count_update [OF i(1), of "\<lambda>g. gr_phase g = Streaming"] inv_count [OF inv] i(2,3)
    by (simp add: stream_subscribe_def Let_def)
qed

lemma inv_start:
  assumes inv: "grpc_inv evs s" and i: "i < length (gs_streams s)" "gs_streams s ! i = g" "gr_phase g = Subscribed"
  shows "grpc_inv (evs @ [e]) (stream_start i g ok s)"
proof (rule inv_stream_step [OF inv i(1)])
  have nf: "\<not> gr_phase g = Fetched" and ne: "gr_phase g \<noteq> Ended" using i(3) by simp_all
  from inv_stream [OF inv i(1)] obtain ch ms where *: "gs_update_broadcast_cache s (rc_id (gr_rc g)) = Some ch"
    "gr_next g \<le> length (ch_sent ch)" "deliveries g = map (case_prod data_response) ms" "gr_out g = []"
    "gr_latest_lcut g = cr_last_updated (last (gr_init g # deliveries g))"
    unfolding i(2) stream_ok_def if_not_P [OF nf] using i(3) ne by blast
  let ?g = "g\<lparr>gr_phase := Streaming, gr_out := if ok then [(StreamedInitialized, gr_init g)] else []\<rparr>"
  show "stream_ok (evs @ [e]) (stream_start i g ok s) i ?g"
    by (rule stream_okI [where ch = ch and ms = "[]"])
       (use * in \<open>auto simp: stream_start_def deliveries_def intro!: exI [of _ "length (ch_sent ch)"]\<close>)
qed (use i in \<open>simp_all add: stream_start_def\<close>)

lemma deliveries_out: "deliveries (g\<lparr>gr_out := gr_out g @ [(ev, r)]\<rparr>) = deliveries g @ (if ev = StreamedResponse then [r] else [])"
  by (simp add: deliveries_def)

lemma deliveries_same: "gr_out g' = gr_out g \<Longrightarrow> deliveries g' = deliveries g"
  by (simp add: deliveries_def)

lemma recv_got: "broadcast_recv sent nxt = Got m \<Longrightarrow> nxt < length sent \<and> take (nxt + 1) sent = take nxt sent @ [m] \<and> length sent = nxt + 1"
  by (auto simp: broadcast_recv_def take_Suc_conv_app_nth split: if_splits)

lemma subseq_snoc: "subseq ms xs \<Longrightarrow> subseq ms (xs @ ys)"
  by (rule subseq_rev_drop_many)

lemma subseq_elems: "subseq xs ys \<Longrightarrow> set xs \<subseteq> set ys"
  by (induction rule: list_emb.induct) auto

lemma subseq_sorted: "subseq xs ys \<Longrightarrow> sorted_wrt R ys \<Longrightarrow> sorted_wrt R xs"
  by (induction rule: list_emb.induct) (auto dest: subseq_elems)

lemma inv_end:
  assumes inv: "grpc_inv evs s" and i: "i < length (gs_streams s)" "gs_streams s ! i = g" "gr_phase g = Streaming"
    and g': "gr_rc g' = gr_rc g" "gr_out g' = gr_out g" "gr_next g \<le> gr_next g'" "gr_next g' \<le> length (sent_to s g)"
  shows "grpc_inv (evs @ [e]) (stream_end i g' s)"
proof (rule inv_stream_step [OF inv i(1)])
  from inv i obtain ch ms where *: "gs_update_broadcast_cache s (rc_id (gr_rc g)) = Some ch" "sent_to s g = ch_sent ch"
    "deliveries g = map (case_prod data_response) ms" "subseq ms (msgs (take (gr_next g) (ch_sent ch)))"
    by (rule stream_at)
  have "take (gr_next g') (ch_sent ch) = take (gr_next g) (ch_sent ch) @ take (gr_next g' - gr_next g) (drop (gr_next g) (ch_sent ch))"
    using g'(3) by (metis le_add_diff_inverse take_add)
  then have "subseq ms (msgs (take (gr_next g') (ch_sent ch)))" using *(4) by (simp add: subseq_snoc)
  then show "stream_ok (evs @ [e]) (stream_end i g' s) i (g'\<lparr>gr_phase := Ended\<rparr>)"
    by (intro stream_okI [where ch = ch and ms = ms])
       (use * g' in \<open>auto simp: stream_end_def deliveries_def\<close>)
  have "0 < gs_connection_counter s"
    using inv_count [OF inv] i nth_mem [OF i(1)] by (simp add: filter_empty_conv) blast
  then show "gs_connection_counter (stream_end i g' s) + of_bool (gr_phase (gs_streams s ! i) = Streaming)
      = gs_connection_counter s + of_bool (gr_phase (g'\<lparr>gr_phase := Ended\<rparr>) = Streaming)"
    using i by (simp add: stream_end_def)
qed (simp_all add: stream_end_def)

lemma inv_receive:
  assumes inv: "grpc_inv evs s" and i: "i < length (gs_streams s)" "gs_streams s ! i = g" "gr_phase g = Streaming"
    and r: "stream_receive i g ok s = Some s'"
  shows "grpc_inv (evs @ [e]) s'"
proof -
  from inv i obtain ch ms where *: "gs_update_broadcast_cache s (rc_id (gr_rc g)) = Some ch" "sent_to s g = ch_sent ch"
    "gr_next g \<le> length (ch_sent ch)" "deliveries g = map (case_prod data_response) ms"
    "subseq ms (msgs (take (gr_next g) (ch_sent ch)))"
    "gr_latest_lcut g = cr_last_updated (last (gr_init g # deliveries g))"
    "Lag i \<notin> set evs \<longrightarrow> (\<exists>k. ms = msgs (drop k (take (gr_next g) (ch_sent ch))))"
    by (rule stream_at)
  from r obtain m where m: "broadcast_recv (ch_sent ch) (gr_next g) = Got m"
    by (auto simp: stream_receive_def *(2) split: recv.splits)
  note t = recv_got [OF m]
  show ?thesis
  proof (cases m)
    case None
    then show ?thesis using r m t inv_end [OF inv i, where g' = "g\<lparr>gr_next := gr_next g + 1\<rparr>"] by (simp add: stream_receive_def *(2))
  next
    case (Some dl)
    then obtain d l where dl: "m = Some (d, l)" by (cases dl) simp
    let ?g = "g\<lparr>gr_next := gr_next g + 1, gr_latest_lcut := l\<rparr>" and ?r = "(StreamedResponse, data_response d l)"
    have s': "s' = send_or_end i ?g ok ?r s" using r m dl by (simp add: stream_receive_def *(2))
    show ?thesis
    proof (cases ok)
      case False
      then show ?thesis using s' t inv_end [OF inv i, where g' = ?g] by (simp add: send_or_end_def *(2))
    next
      case True
      let ?h = "?g\<lparr>gr_out := gr_out ?g @ [?r]\<rparr>"
      have s'': "s' = s\<lparr>gs_streams := (gs_streams s)[i := ?h]\<rparr>" using s' True by (simp add: send_or_end_def)
      have d: "deliveries ?h = map (case_prod data_response) (ms @ [(d, l)])"
        by (simp add: deliveries_def) (use *(4) in \<open>simp add: deliveries_def\<close>)
      have "stream_ok (evs @ [e]) s' i ?h"
      proof (rule stream_okI [where ch = ch and ms = "ms @ [(d, l)]"])
        show "gs_update_broadcast_cache s' (rc_id (gr_rc ?h)) = Some ch" by (simp add: s'' *(1))
        show "gr_next ?h \<le> length (ch_sent ch)" using t by simp
        show "subseq (ms @ [(d, l)]) (msgs (take (gr_next ?h) (ch_sent ch)))" using t dl *(5) by simp
        show "gr_latest_lcut ?h = cr_last_updated (last (gr_init ?h # deliveries ?h))" unfolding d by simp
        show "\<exists>k. ms @ [(d, l)] = msgs (drop k (take (gr_next ?h) (ch_sent ch)))" if lag: "Lag i \<notin> set (evs @ [e])"
        proof -
          obtain k where k: "ms = msgs (drop k (take (gr_next g) (ch_sent ch)))" using *(7) lag by auto
          have "msgs (drop (min k (gr_next g)) (take (gr_next g + 1) (ch_sent ch))) = ms @ [(d, l)]"
            using t dl by (simp add: k min_def)
          then show ?thesis by (intro exI [of _ "min k (gr_next g)"]) simp
        qed
      qed (use d i(3) in simp_all)
      then show ?thesis by (rule inv_stream_step [OF inv i(1), rotated 2]) (simp_all add: s'' i)
    qed
  qed
qed

lemma inv_lag:
  assumes inv: "grpc_inv evs s" and i: "i < length (gs_streams s)" "gs_streams s ! i = g" "gr_phase g = Streaming"
    and r: "stream_lag i g s = Some s'"
  shows "grpc_inv (evs @ [Lag i]) s'"
proof -
  from inv i obtain ch ms where *: "gs_update_broadcast_cache s (rc_id (gr_rc g)) = Some ch" "sent_to s g = ch_sent ch"
    "gr_next g \<le> length (ch_sent ch)" "deliveries g = map (case_prod data_response) ms"
    "subseq ms (msgs (take (gr_next g) (ch_sent ch)))"
    "gr_latest_lcut g = cr_last_updated (last (gr_init g # deliveries g))"
    by (rule stream_at)
  let ?g = "g\<lparr>gr_next := length (ch_sent ch)\<rparr>"
  have s': "s' = s\<lparr>gs_streams := (gs_streams s)[i := ?g]\<rparr>"
    using r by (auto simp: stream_lag_def *(2) split: recv.splits)
  have "subseq ms (msgs (ch_sent ch))"
    using *(5) subseq_snoc [of ms "msgs (take (gr_next g) (ch_sent ch))" "msgs (drop (gr_next g) (ch_sent ch))"]
    by (simp flip: msgs_simps(2))
  then have "stream_ok (evs @ [Lag i]) s' i ?g"
    by (intro stream_okI [where ch = ch and ms = ms])
       (use * i(3) in \<open>simp_all add: s' deliveries_same [of ?g g]\<close>)
  then show ?thesis by (rule inv_stream_step [OF inv i(1), rotated 2]) (simp_all add: s' i)
qed

lemma inv_timeout:
  assumes inv: "grpc_inv evs s" and i: "i < length (gs_streams s)" "gs_streams s ! i = g" "gr_phase g = Streaming"
    and r: "stream_timeout i g ok s = Some s'"
  shows "grpc_inv (evs @ [e]) s'"
proof -
  from inv i obtain ch ms where *: "gs_update_broadcast_cache s (rc_id (gr_rc g)) = Some ch" "sent_to s g = ch_sent ch"
    "gr_next g \<le> length (ch_sent ch)" "deliveries g = map (case_prod data_response) ms"
    "subseq ms (msgs (take (gr_next g) (ch_sent ch)))"
    "gr_latest_lcut g = cr_last_updated (last (gr_init g # deliveries g))"
    "Lag i \<notin> set evs \<longrightarrow> (\<exists>k. ms = msgs (drop k (take (gr_next g) (ch_sent ch))))"
    by (rule stream_at)
  let ?r = "(HealthcheckSent, heartbeat (gr_latest_lcut g))"
  let ?h = "g\<lparr>gr_out := gr_out g @ [?r]\<rparr>"
  have s': "s' = send_or_end i g ok ?r s" using r by (auto simp: stream_timeout_def split: recv.splits)
  show ?thesis
  proof (cases ok)
    case False
    then show ?thesis using s' inv_end [OF inv i, where g' = g] *(2,3) by (simp add: send_or_end_def)
  next
    case True
    then have s'': "s' = s\<lparr>gs_streams := (gs_streams s)[i := ?h]\<rparr>" using s' by (simp add: send_or_end_def)
    have d: "deliveries ?h = deliveries g" by (simp add: deliveries_out)
    have "stream_ok (evs @ [e]) s' i ?h"
      by (rule stream_okI [where ch = ch and ms = ms]) (use * i(3) d in \<open>simp_all add: s''\<close>)
    then show ?thesis by (rule inv_stream_step [OF inv i(1), rotated 2]) (simp_all add: s'' i)
  qed
qed

lemma channel_update_ok:
  assumes "channel_ok evs k ch"
  shows "channel_ok (evs @ [Update rc rsp]) k (channel_update n rc rsp ch)"
    "\<exists>ys. ch_sent (channel_update n rc rsp ch) = ch_sent ch @ ys"
proof -
  have m: "published_update (evs @ [Update rc rsp]) k m" if "published_update evs k m" for m
    using that by (auto simp: published_update_def)
  show "channel_ok (evs @ [Update rc rsp]) k (channel_update n rc rsp ch)"
    using assms m by (fastforce simp: channel_ok_def channel_update_def rc_eq_id sorted_wrt_append published_update_def)
  show "\<exists>ys. ch_sent (channel_update n rc rsp ch) = ch_sent ch @ ys" by (auto simp: channel_update_def)
qed

lemma inv_update:
  assumes inv: "grpc_inv evs s"
  shows "grpc_inv (evs @ [Update rc rsp]) (grpc_update rc rsp s)"
proof (rule inv_step [OF inv])
  show "extends s (grpc_update rc rsp s)"
    using channel_update_ok(2) inv_channel [OF inv] by (fastforce simp: extends_def grpc_update_def)
  show "channel_ok (evs @ [Update rc rsp]) k ch" if a: "gs_update_broadcast_cache (grpc_update rc rsp s) k = Some ch" for k ch
  proof -
    obtain ch0 where c: "gs_update_broadcast_cache s k = Some ch0" "ch = channel_update (receivers s k) rc rsp ch0"
      using a by (cases "gs_update_broadcast_cache s k") (simp_all add: grpc_update_def)
    show ?thesis unfolding c(2) by (rule channel_update_ok(1) [OF inv_channel [OF inv c(1)]])
  qed
qed (use inv_count [OF inv] in \<open>simp_all add: grpc_update_def\<close>)

lemma inv_shutdown:
  assumes inv: "grpc_inv evs s"
  shows "grpc_inv (evs @ [Shutdown]) (grpc_shutdown s)"
proof (rule inv_step [OF inv])
  show "extends s (grpc_shutdown s)" by (auto simp: extends_def grpc_shutdown_def)
  show "channel_ok (evs @ [Shutdown]) k ch" if a: "gs_update_broadcast_cache (grpc_shutdown s) k = Some ch" for k ch
  proof -
    obtain ch0 where c: "gs_update_broadcast_cache s k = Some ch0" "ch = ch0 \<or> ch = ch0\<lparr>ch_sent := ch_sent ch0 @ [None]\<rparr>"
      using a by (cases "gs_update_broadcast_cache s k") (simp_all add: grpc_shutdown_def split: if_splits)
    from channel_kept [OF inv c(1), of Shutdown] c(2) show ?thesis by (elim disjE) (simp_all add: channel_ok_def)
  qed
qed (use inv_count [OF inv] in \<open>simp_all add: grpc_shutdown_def\<close>)

lemma grpc_reaches_inv: "grpc_reaches m evs s \<Longrightarrow> grpc_inv evs s"
proof (induction rule: grpc_reaches.induct)
  case init
  show ?case by (simp add: grpc_inv_def grpc_state_new_def)
next
  case (step evs s e s')
  then show ?case
    by (cases e)
       (auto simp: on_stream_def intro: inv_accept inv_subscribe inv_start inv_receive inv_lag inv_timeout inv_update inv_shutdown
         split: if_splits)
qed


subsection \<open>A stream\<close>

definition stream_spec :: "u64 \<Rightarrow> ResponseContext" where
  "stream_spec l = sample_spec DataAvailable l ''spec''"

definition first_response :: ConfigSpecResponse where
  "first_response = \<lparr>cr_spec = ''first'', cr_last_updated = 10, cr_zstd_dict_id = None\<rparr>"

text \<open>An executable run, to find the state that a sequence of events leads to.\<close>

fun grpc_run :: "nat \<Rightarrow> grpc_event list \<Rightarrow> grpc_state \<Rightarrow> grpc_state option" where
  "grpc_run m [] s = Some s"
| "grpc_run m (e # evs) s = Option.bind (grpc_step m e s) (grpc_run m evs)"

lemma grpc_run_reaches: "grpc_reaches m evs0 s \<Longrightarrow> grpc_run m evs s = Some s' \<Longrightarrow> grpc_reaches m (evs0 @ evs) s'"
proof (induction evs arbitrary: evs0 s)
  case (Cons e evs)
  then obtain s1 where "grpc_step m e s = Some s1" "grpc_run m evs s1 = Some s'" by (auto simp: bind_eq_Some_conv)
  with Cons.IH [OF grpc_reaches.step [OF Cons.prems(1)]] show ?case by simp
qed simp

definition prompt_run :: "grpc_event list" where
  "prompt_run =
     [Accept sample_store_rc first_response, Subscribe 0, Start 0 True, Update sample_store_rc (stream_spec 20), Receive 0 True,
      Timeout 0 True, Update sample_store_rc (stream_spec 30), Receive 0 True]"

lemmas grpc_exec = grpc_state_new_def stream_accept_def on_stream_def stream_subscribe_def stream_start_def stream_receive_def
  stream_lag_def stream_timeout_def grpc_update_def receivers_def channel_update_def streaming_channel_new_def send_or_end_def
  stream_end_def sent_to_def broadcast_recv_def data_response_def heartbeat_def deliveries_def rc_eq_id stream_spec_def
  sample_spec_def first_response_def



text \<open>The limit is checked before the counter is increased, so streams that open together exceed it.\<close>

lemma stream_limit_exceeded:
  "\<exists>s. grpc_reaches 1 [Accept sample_store_rc first_response, Accept sample_store_rc first_response,
       Subscribe 0, Subscribe 1, Start 0 True, Start 1 True] s \<and> gs_connection_counter s = 2"
proof -
  let ?evs = "[Accept sample_store_rc first_response, Accept sample_store_rc first_response,
       Subscribe 0, Subscribe 1, Start 0 True, Start 1 True]"
  obtain s where r: "grpc_run 1 ?evs grpc_state_new = Some s" and d: "gs_connection_counter s = 2"
    by (simp add: grpc_exec)
  show ?thesis using grpc_run_reaches [OF grpc_reaches.init r] d by auto
qed

end
