(* ===== verification/ContextTypes.thy ===== *)
theory ContextTypes
  imports StartupWarmup DeltasStore GrpcStream
begin

text \<open>
  The contexts that the program makes: by the guards of requests, the gRPC handlers, the manifests of
  id lists, the keys to warm up and the deltas store, in \<open>servers/authorized_request_context.rs\<close>,
  \<open>servers/grpc_server.rs\<close>, \<open>datastore/id_list_manifest.rs\<close>, \<open>startup_warmup_parser.rs\<close> and
  \<open>datastore/deltas_store.rs\<close>. Values of JSON are given by their text.
\<close>

inductive made_context :: "AuthorizedRequestContext \<Rightarrow> bool" where
  guard: "context_cache_ok cache \<Longrightarrow> \<forall>c. context_cache_ok c \<longrightarrow> context_cache_ok (others c)
    \<Longrightarrow> authorized_request_context_guard others r cache = (Success rc, cache') \<Longrightarrow> made_context rc"
| download: "download_id_list_file_guard query_pairs r = Success (Authorized rc) \<Longrightarrow> made_context rc"
| grpc: "context_cache_ok cache \<Longrightarrow> \<forall>c. context_cache_ok c \<longrightarrow> context_cache_ok (others c)
    \<Longrightarrow> get_or_insert others (cq_sdk_key q) (get_normalized_path_from_request q) [PlainText] False False None cache = (rc, cache')
    \<Longrightarrow> made_context rc"
| manifest: "rc' \<in> set (download_request_contexts_from_manifest parse_url rc entries files) \<Longrightarrow> made_context rc'"
| warmup: "load_startup_warmup_keys_from_env from_str (from_value :: string \<Rightarrow> _) env = Inr (Some res) \<Longrightarrow> item \<in> set (store_items res)
    \<Longrightarrow> made_context (item_rc item)"
| delta: "made_context rc \<Longrightarrow> made_context (to_delta_request_context rc)"

definition context_typed :: "AuthorizedRequestContext \<Rightarrow> bool" where
  "context_typed rc \<longleftrightarrow>
     rc_wf rc \<and> rc_encodings rc \<in> {[PlainText], [StatsigBrotli], [Gzip], [StatsigBrotli, Gzip]}
     \<and> (if rc_path rc = V1DownloadIdListFile then True
        else rc_file_id rc = None \<and> rc_range_start rc = None \<and> rc_id_list_size rc = None)"

lemma canonical_encodings: "canonicalize_encodings es \<in> {[PlainText], [StatsigBrotli], [Gzip], [StatsigBrotli, Gzip]}"
  using canonicalize_encodings_four [of es] by (auto simp: stored_encodings_def)

lemma rc_new_typed: "context_typed (rc_new key p es)"
  using canonical_encodings [of es] by (simp add: context_typed_def rc_wf_def rc_new_def)

lemma capabilities_typed: "context_typed rc \<Longrightarrow> context_typed (with_request_capabilities proto deltas rc)"
  by (simp add: context_typed_def rc_wf_def with_request_capabilities_def)

lemma id_list_typed:
  "context_typed rc \<Longrightarrow> (if rc_path rc = V1DownloadIdListFile then True else (fid, start, sz) = (None, None, None))
     \<Longrightarrow> context_typed (with_id_list_request fid start sz rc)"
  by (auto simp: context_typed_def rc_wf_def with_id_list_request_def)

lemma raw_typed: "context_typed rc \<Longrightarrow> context_typed (with_raw_request p q rc)"
  by (simp add: context_typed_def rc_wf_def with_raw_request_def)

lemma path_kept [simp]:
  "rc_path (with_raw_request p q rc) = rc_path rc" "rc_path (with_request_capabilities proto deltas rc) = rc_path rc"
  "rc_path (rc_new key np es) = np"
  by (simp_all add: with_raw_request_def with_request_capabilities_def rc_new_def)

lemmas typed_intros = rc_new_typed capabilities_typed id_list_typed raw_typed

lemma get_or_insert_typed:
  assumes "context_cache_ok cache" "\<forall>c. context_cache_ok c \<longrightarrow> context_cache_ok (others c)"
    "get_or_insert others key p es proto deltas fid cache = (rc, cache')" "p \<noteq> V1DownloadIdListFile \<Longrightarrow> fid = None"
  shows "context_typed rc"
proof -
  have "rc = with_id_list_request fid None None (with_request_capabilities proto deltas (rc_new key p es))"
    using get_or_insert_key [OF assms(1-3)] by (simp only: context_of_canonical)
  then show ?thesis using assms(4) by (auto intro!: typed_intros)
qed

text \<open>
  C27: every context that the program makes, by whatever route a request or a key comes in, is well formed: time
  stamps are used exactly on the routes of config specs, the encodings are one of the four canonical lists, and
  a file id, range or size is there only on the route of id-list files.
\<close>

theorem made_contexts_typed:
  assumes "made_context rc"
  shows "context_typed rc"
  using assms
proof (induction rule: made_context.induct)
  case (guard cache others r rc cache')
  then show ?case
    by (auto simp: authorized_request_context_guard_def Let_def split: Outcome.splits option.splits prod.splits
        elim!: get_or_insert_typed [rotated 2])
next
  case (download query_pairs r rc)
  then show ?case
    by (auto simp: download_id_list_file_guard_def Let_def split: if_splits sum.splits intro!: typed_intros)
next
  case (grpc cache others q rc cache')
  then show ?case using get_or_insert_typed by blast
next
  case (manifest rc' parse_url rc entries files)
  then obtain e :: IdListManifestEntry where "request_context_from_manifest_url parse_url (rc_sdk_key rc) (me_url e) (me_size e) = Some rc'"
    by (auto simp: download_request_contexts_from_manifest_def List.map_filter_def split: sum.splits)
  then show ?case
    by (auto simp: request_context_from_manifest_url_def split: option.splits intro!: typed_intros)
next
  case (warmup from_str from_value env res item)
  then obtain c where "item = the (warmup_item c)" "valid_entry c"
    by (auto simp: load_startup_warmup_keys_from_env_def parse_startup_warmup_keys_json_def warmup_loop warmup_items
        split: env_var.splits if_splits sum.splits)
  then have "item_rc item = rc_new (trim (wk_sdk_key c)) (warmup_route c)
      (acceptable_list (from_header_values (case wk_encodings c of None \<Rightarrow> [] | Some es \<Rightarrow> es)))"
    by (simp add: warmup_item_def parse_item_iff)
  then show ?case by (simp add: rc_new_typed)
next
  case (delta rc)
  show ?case by (auto simp: to_delta_request_context_def intro!: typed_intros)
qed

lemma sample_context_made: "made_context (with_id_list_request None None None (with_request_capabilities False False
    (rc_new ''secret-1'' V2DownloadConfigSpecs [PlainText])))"
proof -
  let ?q = "\<lparr>cq_sdk_key = ''secret-1'', cq_since_time = None, cq_version = Some 2\<rparr>"
  obtain rc cache' where g: "get_or_insert id (cq_sdk_key ?q) (get_normalized_path_from_request ?q) [PlainText] False False None
      (\<lambda>_. None) = (rc, cache')" by fastforce
  have "rc = with_id_list_request None None None (with_request_capabilities False False
      (rc_new (cq_sdk_key ?q) (get_normalized_path_from_request ?q) [PlainText]))"
    using get_or_insert_key [OF context_cache_ok_empty _ g, THEN conjunct1] unfolding context_of_canonical by simp
  then show ?thesis
    using made_context.grpc [OF context_cache_ok_empty _ g]
    by (simp add: get_normalized_path_from_request_def get_api_version_from_request_def)
qed

theorem made_contexts_typed_witness:
  "context_typed (to_delta_request_context (with_id_list_request None None None (with_request_capabilities False False
     (rc_new ''secret-1'' V2DownloadConfigSpecs [PlainText]))))"
  by (rule made_contexts_typed [OF made_context.delta [OF sample_context_made]])

end
